(* ===== verification/Prelude.thy ===== *)
theory Prelude
  imports Main "HOL-Library.Char_ord" "HOL-Library.List_Lexorder" "HOL-Library.Product_Lexorder"
begin

text \<open>
  Shared material: the result-and-state type every fallible kernel operation is written
  in, its combinators and the rules to reason about them, the JavaScript numerals the
  store writes into its rows, and a few facts on lists that hold sets in insertion order.

  \<^item> An operation of the store is a function from the store's state to an error or a value
    together with the state it leaves. A throw keeps the writes made before it, as in the
    code: only a crank rollback undoes them.
  \<^item> \<open>hoare P m Q R\<close> states what \<open>m\<close> does from a state satisfying \<open>P\<close>: \<open>Q\<close> for a normal
    return, \<open>R\<close> for a throw. \<open>partial\<close> ignores throws, \<open>total\<close> excludes them.
\<close>

section \<open>Errors\<close>

text \<open>
  Every throw of the code is a value here. \<open>Fail\<close> is the template-literal \<open>Fail\<close> of
  \<open>@endo/errors\<close> (the message's fixed text, and the values interpolated into it), \<open>AssertErr\<close>
  a failed \<open>assert\<close>, \<open>NoValue\<close> the refusal of \<open>getRequired\<close>; the others are the error
  classes the kernel distinguishes.
\<close>

datatype kerror =
    Fail string "string list"
  | AssertErr string
  | NoValue "string list"
  | JsError string "string list"
  | TypeErr string
  | VatNotFound string
  | SubclusterNotFound string
  | OutOfFuel

section \<open>Results and state\<close>

type_synonym ('s, 'a) sm = "'s \<Rightarrow> (kerror + 'a) \<times> 's"

definition ret :: "'a \<Rightarrow> ('s, 'a) sm" where
  "ret x = (\<lambda>s. (Inr x, s))"

definition fail :: "kerror \<Rightarrow> ('s, 'a) sm" where
  "fail e = (\<lambda>s. (Inl e, s))"

definition bnd :: "('s, 'a) sm \<Rightarrow> ('a \<Rightarrow> ('s, 'b) sm) \<Rightarrow> ('s, 'b) sm" where
  "bnd m f = (\<lambda>s. case m s of (Inl e, s') \<Rightarrow> (Inl e, s') | (Inr x, s') \<Rightarrow> f x s')"

definition thn :: "('s, 'a) sm \<Rightarrow> ('s, 'b) sm \<Rightarrow> ('s, 'b) sm" where
  "thn m n = bnd m (\<lambda>_. n)"

definition gets :: "('s \<Rightarrow> 'a) \<Rightarrow> ('s, 'a) sm" where
  "gets f = (\<lambda>s. (Inr (f s), s))"

definition modify :: "('s \<Rightarrow> 's) \<Rightarrow> ('s, unit) sm" where
  "modify f = (\<lambda>s. (Inr (), f s))"

text \<open>\<open>b || Fail`...`\<close>\<close>

definition require :: "bool \<Rightarrow> kerror \<Rightarrow> ('s, unit) sm" where
  "require b e = (if b then ret () else fail e)"

definition whenM :: "bool \<Rightarrow> ('s, unit) sm \<Rightarrow> ('s, unit) sm" where
  "whenM b m = (if b then m else ret ())"

text \<open>Lifting a computation that reads no state, such as a parser.\<close>

definition lift :: "kerror + 'a \<Rightarrow> ('s, 'a) sm" where
  "lift r = (\<lambda>s. (r, s))"

definition ofOption :: "kerror \<Rightarrow> 'a option \<Rightarrow> ('s, 'a) sm" where
  "ofOption e x = (case x of None \<Rightarrow> fail e | Some v \<Rightarrow> ret v)"

text \<open>\<open>for (const x of xs) body\<close>, and \<open>xs.map(f)\<close> for an \<open>f\<close> with effects.\<close>

primrec forEach :: "'a list \<Rightarrow> ('a \<Rightarrow> ('s, unit) sm) \<Rightarrow> ('s, unit) sm" where
  "forEach [] f = ret ()"
| "forEach (x # xs) f = thn (f x) (forEach xs f)"

primrec mapEach :: "('a \<Rightarrow> ('s, 'b) sm) \<Rightarrow> 'a list \<Rightarrow> ('s, 'b list) sm" where
  "mapEach f [] = ret []"
| "mapEach f (x # xs) = bnd (f x) (\<lambda>y. bnd (mapEach f xs) (\<lambda>ys. ret (y # ys)))"

text \<open>
  \<open>try m catch\<close>: the handler sees the error and the state as the throw left it.
\<close>

definition tryCatch :: "('s, 'a) sm \<Rightarrow> (kerror \<Rightarrow> ('s, 'a) sm) \<Rightarrow> ('s, 'a) sm" where
  "tryCatch m h = (\<lambda>s. case m s of (Inl e, s') \<Rightarrow> h e s' | (Inr x, s') \<Rightarrow> (Inr x, s'))"

text \<open>\<open>try m finally f\<close> for a cleanup \<open>f\<close> that does not throw.\<close>

definition tryFinally :: "('s, 'a) sm \<Rightarrow> ('s \<Rightarrow> 's) \<Rightarrow> ('s, 'a) sm" where
  "tryFinally m f = (\<lambda>s. case m s of (r, s') \<Rightarrow> (r, f s'))"

named_theorems sm_simps \<open>evaluation of the combinators at a state\<close>

lemma ret_run [sm_simps, simp]: "ret x s = (Inr x, s)"
  by (simp add: ret_def)

lemma fail_run [sm_simps, simp]: "fail e s = (Inl e, s)"
  by (simp add: fail_def)

lemma gets_run [sm_simps, simp]: "gets f s = (Inr (f s), s)"
  by (simp add: gets_def)

lemma modify_run [sm_simps, simp]: "modify f s = (Inr (), f s)"
  by (simp add: modify_def)

lemma lift_run [sm_simps, simp]: "lift r s = (r, s)"
  by (simp add: lift_def)

lemma require_run [sm_simps, simp]: "require b e s = (if b then (Inr (), s) else (Inl e, s))"
  by (simp add: require_def)

lemma whenM_run [sm_simps, simp]: "whenM b m s = (if b then m s else (Inr (), s))"
  by (simp add: whenM_def)

lemma ofOption_run [sm_simps, simp]:
  "ofOption e x s = (case x of None \<Rightarrow> (Inl e, s) | Some v \<Rightarrow> (Inr v, s))"
  by (simp add: ofOption_def split: option.split)

lemma bnd_run [sm_simps]:
  "bnd m f s = (case m s of (Inl e, s') \<Rightarrow> (Inl e, s') | (Inr x, s') \<Rightarrow> f x s')"
  by (simp add: bnd_def)

lemma thn_run [sm_simps]:
  "thn m n s = (case m s of (Inl e, s') \<Rightarrow> (Inl e, s') | (Inr x, s') \<Rightarrow> n s')"
  by (simp add: thn_def bnd_def)

lemma bnd_InrI [simp]: "m s = (Inr x, s') \<Longrightarrow> bnd m f s = f x s'"
  by (simp add: bnd_def)

lemma bnd_InlI [simp]: "m s = (Inl e, s') \<Longrightarrow> bnd m f s = (Inl e, s')"
  by (simp add: bnd_def)

lemma thn_InrI [simp]: "m s = (Inr x, s') \<Longrightarrow> thn m n s = n s'"
  by (simp add: thn_run)

lemma thn_InlI [simp]: "m s = (Inl e, s') \<Longrightarrow> thn m n s = (Inl e, s')"
  by (simp add: thn_run)

lemma bnd_InrE:
  assumes "bnd m f s = (Inr y, t)"
  obtains x u where "m s = (Inr x, u)" and "f x u = (Inr y, t)"
  using assms by (auto simp: bnd_def split: prod.splits sum.splits)

lemma thn_InrE:
  assumes "thn m n s = (Inr y, t)"
  obtains x u where "m s = (Inr x, u)" and "n u = (Inr y, t)"
  using assms by (auto simp: thn_run split: prod.splits sum.splits)

lemma bnd_gets [simp]: "bnd (gets f) g s = g (f s) s"
  by (simp add: bnd_def)

lemma thn_modify [simp]: "thn (modify f) m s = m (f s)"
  by (simp add: thn_run)

lemma thn_require [simp]: "thn (require b e) m s = (if b then m s else (Inl e, s))"
  by (simp add: thn_run)

section \<open>Hoare triples\<close>

definition hoare ::
  "('s \<Rightarrow> bool) \<Rightarrow> ('s, 'a) sm \<Rightarrow> ('a \<Rightarrow> 's \<Rightarrow> bool) \<Rightarrow> (kerror \<Rightarrow> 's \<Rightarrow> bool) \<Rightarrow> bool" where
  "hoare P m Q R \<longleftrightarrow>
     (\<forall>s. P s \<longrightarrow> (case m s of (Inr x, s') \<Rightarrow> Q x s' | (Inl e, s') \<Rightarrow> R e s'))"

abbreviation partial :: "('s \<Rightarrow> bool) \<Rightarrow> ('s, 'a) sm \<Rightarrow> ('a \<Rightarrow> 's \<Rightarrow> bool) \<Rightarrow> bool" where
  "partial P m Q \<equiv> hoare P m Q (\<lambda>_ _. True)"

abbreviation total :: "('s \<Rightarrow> bool) \<Rightarrow> ('s, 'a) sm \<Rightarrow> ('a \<Rightarrow> 's \<Rightarrow> bool) \<Rightarrow> bool" where
  "total P m Q \<equiv> hoare P m Q (\<lambda>_ _. False)"

text \<open>An invariant kept by an operation whether it returns or throws.\<close>

abbreviation keeps :: "('s \<Rightarrow> bool) \<Rightarrow> ('s, 'a) sm \<Rightarrow> bool" where
  "keeps P m \<equiv> hoare P m (\<lambda>_. P) (\<lambda>_. P)"

named_theorems wp \<open>Hoare rules, applied backwards from the postcondition\<close>

lemma hoareI:
  assumes "\<And>s x s'. P s \<Longrightarrow> m s = (Inr x, s') \<Longrightarrow> Q x s'"
    and "\<And>s e s'. P s \<Longrightarrow> m s = (Inl e, s') \<Longrightarrow> R e s'"
  shows "hoare P m Q R"
  using assms by (auto simp: hoare_def split: prod.splits sum.splits)

lemma hoareD: "hoare P m Q R \<Longrightarrow> P s \<Longrightarrow> m s = (Inr x, s') \<Longrightarrow> Q x s'"
  by (auto simp: hoare_def split: prod.splits sum.splits)

lemma hoareD_err: "hoare P m Q R \<Longrightarrow> P s \<Longrightarrow> m s = (Inl e, s') \<Longrightarrow> R e s'"
  by (auto simp: hoare_def split: prod.splits sum.splits)

lemma totalD:
  assumes "total P m Q" and "P s"
  obtains x s' where "m s = (Inr x, s')" and "Q x s'"
proof (cases "m s")
  case (Pair r s')
  with assms that show ?thesis by (cases r) (auto simp: hoare_def split: prod.splits)
qed

lemma hoare_conseq:
  assumes "hoare P m Q R" and "\<And>s. P' s \<Longrightarrow> P s"
    and "\<And>x s. Q x s \<Longrightarrow> Q' x s" and "\<And>e s. R e s \<Longrightarrow> R' e s"
  shows "hoare P' m Q' R'"
proof (rule hoareI)
  fix s x s' assume "P' s" and "m s = (Inr x, s')"
  with assms(1,2,3) show "Q' x s'" by (blast dest: hoareD)
next
  fix s e s' assume "P' s" and "m s = (Inl e, s')"
  with assms(1,2,4) show "R' e s'" by (blast dest: hoareD_err)
qed

lemma hoare_pre: "hoare P m Q R \<Longrightarrow> (\<And>s. P' s \<Longrightarrow> P s) \<Longrightarrow> hoare P' m Q R"
  by (auto simp: hoare_def)

text \<open>A fact that does not mention the state.\<close>

lemma hoare_fact:
  assumes "F \<Longrightarrow> hoare P m Q R"
  shows "hoare (\<lambda>s. P s \<and> F) m (\<lambda>x s. Q x s \<and> F) (\<lambda>e s. R e s \<and> F)"
  by (rule hoareI) (use assms in \<open>blast dest: hoareD hoareD_err\<close>)+

lemma hoare_ret [wp]: "hoare (\<lambda>s. Q x s) (ret x) Q R"
  by (simp add: hoare_def)

lemma hoare_fail [wp]: "hoare (\<lambda>s. R e s) (fail e) Q R"
  by (simp add: hoare_def)

lemma hoare_gets [wp]: "hoare (\<lambda>s. Q (f s) s) (gets f) Q R"
  by (simp add: hoare_def)

lemma hoare_modify [wp]: "hoare (\<lambda>s. Q () (f s)) (modify f) Q R"
  by (simp add: hoare_def)

lemma hoare_require [wp]: "hoare (\<lambda>s. if b then Q () s else R e s) (require b e) Q R"
  by (simp add: hoare_def)

lemma hoare_bnd:
  assumes "hoare P m M R" and "\<And>x. hoare (M x) (f x) Q R"
  shows "hoare P (bnd m f) Q R"
  unfolding hoare_def
proof (intro allI impI)
  fix s assume P: "P s"
  show "case bnd m f s of (Inr x, s') \<Rightarrow> Q x s' | (Inl e, s') \<Rightarrow> R e s'"
  proof (cases "m s")
    case (Pair r s')
    show ?thesis
    proof (cases r)
      case (Inl e)
      with Pair P assms(1) show ?thesis by (auto simp: bnd_def dest: hoareD_err)
    next
      case (Inr x)
      with Pair P assms(1) have "M x s'" by (auto dest: hoareD)
      with assms(2) [of x] Pair Inr show ?thesis by (auto simp: bnd_def hoare_def)
    qed
  qed
qed

lemma hoare_thn:
  assumes "hoare P m (\<lambda>_. M) R" and "hoare M n Q R"
  shows "hoare P (thn m n) Q R"
  unfolding thn_def using assms by (rule hoare_bnd)

lemma hoare_if:
  assumes "b \<Longrightarrow> hoare P m Q R" and "\<not> b \<Longrightarrow> hoare P n Q R"
  shows "hoare P (if b then m else n) Q R"
  using assms by simp

lemma hoare_whenM:
  assumes "b \<Longrightarrow> hoare P m Q R" and "\<And>s. \<not> b \<Longrightarrow> P s \<Longrightarrow> Q () s"
  shows "hoare P (whenM b m) Q R"
  using assms by (auto simp: hoare_def)

text \<open>A loop keeps what each of its turns keeps.\<close>

lemma hoare_forEach:
  assumes "\<And>x. x \<in> set xs \<Longrightarrow> hoare I (f x) (\<lambda>_. I) R"
  shows "hoare I (forEach xs f) (\<lambda>_. I) R"
  using assms
proof (induction xs)
  case Nil
  then show ?case by (simp add: hoare_def)
next
  case (Cons x xs)
  then show ?case by (auto intro: hoare_thn)
qed

text \<open>A loop whose turns spend a list of obligations, one each.\<close>

lemma hoare_forEach_list:
  assumes "\<And>x ys. hoare (I (x # ys)) (f x) (\<lambda>_. I ys) R"
  shows "hoare (I xs) (forEach xs f) (\<lambda>_. I []) R"
proof (induction xs)
  case Nil
  then show ?case by (simp add: hoare_def)
next
  case (Cons x xs)
  show ?case unfolding forEach.simps by (rule hoare_thn [OF assms Cons])
qed

lemma hoare_mapEach_list:
  assumes "\<And>x ys. hoare (I (x # ys)) (f x) (\<lambda>_. I ys) R"
  shows "hoare (I xs) (mapEach f xs) (\<lambda>_. I []) R"
proof (induction xs)
  case Nil
  then show ?case by (simp add: hoare_def)
next
  case (Cons x xs)
  show ?case unfolding mapEach.simps
    by (rule hoare_bnd [OF assms], rule hoare_bnd [OF Cons]) (rule hoare_ret)
qed

section \<open>JavaScript numerals\<close>

text \<open>
  The store keeps counters and counts as decimal text: \<open>`${n}`\<close> writes one and
  \<open>Number(text)\<close> reads it back. \<open>numeral_text\<close> writes an integer the way a template
  literal does (a minus sign, then digits without leading zeros) and \<open>Number\<close> reads
  the text; \<open>None\<close> is \<open>NaN\<close>, which a template literal writes as \<open>NaN\<close>. Values
  beyond \<open>2 ^ 53\<close>, where a double loses precision, are not modelled.
\<close>

definition digit_char :: "nat \<Rightarrow> char" where
  "digit_char d = char_of (48 + d)"

fun nat_text :: "nat \<Rightarrow> string" where
  "nat_text n = (if n < 10 then [digit_char n] else nat_text (n div 10) @ [digit_char (n mod 10)])"

declare nat_text.simps [simp del]

definition int_text :: "int \<Rightarrow> string" where
  "int_text i = (if i < 0 then CHR ''-'' # nat_text (nat (- i)) else nat_text (nat i))"

definition number_text :: "int option \<Rightarrow> string" where
  "number_text x = (case x of None \<Rightarrow> ''NaN'' | Some i \<Rightarrow> int_text i)"

definition is_digit :: "char \<Rightarrow> bool" where
  "is_digit c \<longleftrightarrow> 48 \<le> (of_char c :: nat) \<and> (of_char c :: nat) \<le> 57"

definition digits_value :: "string \<Rightarrow> nat" where
  "digits_value cs = foldl (\<lambda>a c. 10 * a + (of_char c - 48)) 0 cs"

definition Number :: "string \<Rightarrow> int option" where
  "Number cs =
     (case cs of [] \<Rightarrow> Some 0
      | c # ds \<Rightarrow>
          if c = CHR ''-'' then
            (if ds \<noteq> [] \<and> list_all is_digit ds then Some (- int (digits_value ds)) else None)
          else if list_all is_digit cs then Some (int (digits_value cs)) else None)"

text \<open>The digits, for evaluation.\<close>

lemma digit_chars:
  "char_of (48::nat) = CHR ''0''"
  "char_of (49::nat) = CHR ''1''"
  "char_of (50::nat) = CHR ''2''"
  "char_of (51::nat) = CHR ''3''"
  "char_of (52::nat) = CHR ''4''"
  "char_of (53::nat) = CHR ''5''"
  "char_of (54::nat) = CHR ''6''"
  "char_of (55::nat) = CHR ''7''"
  "char_of (56::nat) = CHR ''8''"
  "char_of (57::nat) = CHR ''9''"
  by (simp_all add: char_of_def bit_0)

lemmas nat_text_eval = nat_text.simps digit_char_def digit_chars

lemma is_digit_digit_char [simp]: "d < 10 \<Longrightarrow> is_digit (digit_char d)"
  by (simp add: is_digit_def digit_char_def)

lemma digit_char_value [simp]: "d < 10 \<Longrightarrow> of_char (digit_char d) - (48::nat) = d"
  by (simp add: digit_char_def)

lemma nat_text_digits: "list_all is_digit (nat_text n)"
proof (induction n rule: nat_text.induct)
  case (1 n)
  then show ?case by (subst nat_text.simps) simp
qed

lemma nat_text_nonempty [simp]: "nat_text n \<noteq> []"
  by (subst nat_text.simps) simp

lemma nat_text_value [simp]: "digits_value (nat_text n) = n"
proof (induction n rule: nat_text.induct)
  case (1 n)
  show ?case
  proof (cases "n < 10")
    case True
    then show ?thesis by (subst nat_text.simps) (simp add: digits_value_def)
  next
    case False
    with 1 have "digits_value (nat_text (n div 10)) = n div 10" by simp
    with False show ?thesis
      by (subst nat_text.simps) (simp add: digits_value_def)
  qed
qed

lemma nat_text_inj [simp]: "nat_text m = nat_text n \<longleftrightarrow> m = n"
  by (metis nat_text_value)

lemma minus_not_digit [simp]: "\<not> is_digit (CHR ''-'')"
  by (simp add: is_digit_def)

lemma nat_text_no_char:
  assumes "\<not> is_digit c"
  shows "c \<notin> set (nat_text n)"
  using nat_text_digits [of n] assms by (auto simp: list_all_iff)

lemma Number_nat_text [simp]: "Number (nat_text n) = Some (int n)"
proof -
  obtain c cs where c: "nat_text n = c # cs"
    using nat_text_nonempty [of n] by (cases "nat_text n") auto
  have "c \<noteq> CHR ''-''" using nat_text_no_char [of "CHR ''-''" n] c by auto
  with nat_text_digits [of n] c nat_text_value [of n] show ?thesis
    by (auto simp: Number_def)
qed

lemma Number_int_text [simp]: "Number (int_text i) = Some i"
proof (cases "i < 0")
  case True
  then show ?thesis
    by (simp add: int_text_def) (simp add: Number_def nat_text_digits)
next
  case False
  then show ?thesis by (simp add: int_text_def)
qed

lemma int_text_inj [simp]: "int_text i = int_text j \<longleftrightarrow> i = j"
  by (metis Number_int_text option.inject)

lemma int_text_nonempty [simp]: "int_text i \<noteq> []"
  by (simp add: int_text_def)

lemma int_text_no_comma: "CHR '','' \<notin> set (int_text i)"
  using nat_text_no_char [of "CHR '',''"] by (auto simp: int_text_def is_digit_def)

lemma Number_number_text_Some [simp]: "Number (number_text (Some i)) = Some i"
  by (simp add: number_text_def)

text \<open>\<open>text.split(',')\<close>\<close>

fun split_at :: "char \<Rightarrow> string \<Rightarrow> string list" where
  "split_at c [] = [[]]"
| "split_at c (x # xs) =
     (if x = c then [] # split_at c xs
      else case split_at c xs of [] \<Rightarrow> [[x]] | p # ps \<Rightarrow> (x # p) # ps)"

lemma split_at_nonempty [simp]: "split_at c xs \<noteq> []"
  by (induction xs) (auto split: list.split)

lemma split_at_none: "c \<notin> set xs \<Longrightarrow> split_at c xs = [xs]"
  by (induction xs) auto

lemma split_at_append: "c \<notin> set xs \<Longrightarrow> split_at c (xs @ c # ys) = xs # split_at c ys"
  by (induction xs) auto

section \<open>Lists as insertion-ordered sets\<close>

text \<open>A JavaScript \<open>Set\<close> iterates in the order its members were first added.\<close>

definition set_add :: "'a \<Rightarrow> 'a list \<Rightarrow> 'a list" where
  "set_add x xs = (if x \<in> set xs then xs else xs @ [x])"

lemma set_set_add [simp]: "set (set_add x xs) = insert x (set xs)"
  by (auto simp: set_add_def)

lemma distinct_set_add [simp]: "distinct (set_add x xs) \<longleftrightarrow> distinct xs"
  by (auto simp: set_add_def)

lemma set_add_idem [simp]: "set_add x (set_add x xs) = set_add x xs"
  by (simp add: set_add_def)

text \<open>\<open>Array.from(set).sort()\<close>: strings in the order of their code units.\<close>

abbreviation sort_strings :: "string list \<Rightarrow> string list" where
  "sort_strings \<equiv> sort"

end
