(* ===== verification/Tables.thy ===== *)
theory Tables
  imports Prelude
begin

text \<open>
  The key/value tables the kernel's state is kept in, and the interface the code uses them
  through (\<open>KVStore\<close>, \<open>packages/kernel-store/src/types.ts\<close>).

  A table is a list of entries in strictly ascending key order: what the SQLite table
  \<open>kv(key TEXT PRIMARY KEY, value TEXT)\<close> behind \<open>KVStore\<close> holds, read back \<open>ORDER BY key\<close>.
  \<open>tget\<close>, \<open>tput\<close>, \<open>tdel\<close> and \<open>getNextKey\<close> are \<open>get\<close>, \<open>set\<close>, \<open>delete\<close> and
  \<open>getNextKey\<close>. The locale \<open>kvstore\<close> states what the kernel relies on, and proves once
  that the kernel's prefix scan (\<open>getPrefixedKeys\<close> of \<open>store/methods/base.ts\<close>), which only
  ever asks for the next key, visits exactly the keys with the prefix, in ascending order.
\<close>

section \<open>Tables\<close>

typedef (overloaded) ('k::linorder, 'v) tbl = "{t :: ('k \<times> 'v) list. sorted_wrt (<) (map fst t)}"
  morphisms tlist Tbl
  by (rule exI [where x = "[]"]) simp

setup_lifting type_definition_tbl

fun put_entry :: "'k::linorder \<Rightarrow> 'v \<Rightarrow> ('k \<times> 'v) list \<Rightarrow> ('k \<times> 'v) list" where
  "put_entry k v [] = [(k, v)]"
| "put_entry k v (e # es) =
     (if fst e < k then e # put_entry k v es
      else if fst e = k then (k, v) # es
      else (k, v) # e # es)"

lemma keys_put_entry: "set (map fst (put_entry k v es)) = insert k (set (map fst es))"
  by (induction es) auto

lemma sorted_put_entry:
  "sorted_wrt (<) (map fst es) \<Longrightarrow> sorted_wrt (<) (map fst (put_entry k v es))"
proof (induction es)
  case Nil
  then show ?case by simp
next
  case (Cons e es)
  then show ?case using keys_put_entry [of k v es] by (auto simp: image_iff)
qed

lemma map_of_put_entry: "map_of (put_entry k v es) = (map_of es)(k \<mapsto> v)"
  by (induction es) auto

lift_definition tempty :: "('k::linorder, 'v) tbl" is "[]"
  by simp

lift_definition tput :: "'k::linorder \<Rightarrow> 'v \<Rightarrow> ('k, 'v) tbl \<Rightarrow> ('k, 'v) tbl" is put_entry
  by (rule sorted_put_entry)

lift_definition tdel :: "'k::linorder \<Rightarrow> ('k, 'v) tbl \<Rightarrow> ('k, 'v) tbl" is
  "\<lambda>k es. filter (\<lambda>e. fst e \<noteq> k) es"
proof -
  fix k :: 'k and es :: "('k \<times> 'v) list"
  assume "sorted_wrt (<) (map fst es)"
  then show "sorted_wrt (<) (map fst (filter (\<lambda>e. fst e \<noteq> k) es))"
    by (induction es) auto
qed

lift_definition tget :: "('k::linorder, 'v) tbl \<Rightarrow> 'k \<Rightarrow> 'v option" is map_of .

definition tkeys :: "('k::linorder, 'v) tbl \<Rightarrow> 'k list" where
  "tkeys t = map fst (tlist t)"

definition has :: "('k::linorder, 'v) tbl \<Rightarrow> 'k \<Rightarrow> bool" where
  "has t k \<longleftrightarrow> tget t k \<noteq> None"

text \<open>\<open>getNextKey(previousKey)\<close>: the least key after the given one.\<close>

definition next_key :: "('k::linorder, 'v) tbl \<Rightarrow> 'k \<Rightarrow> 'k option" where
  "next_key t k = find (\<lambda>x. k < x) (tkeys t)"

subsection \<open>Laws\<close>

lemma tget_tempty [simp]: "tget tempty k = None"
  by transfer simp

lemma tget_tput [simp]: "tget (tput k v t) j = (if j = k then Some v else tget t j)"
  by transfer (simp add: map_of_put_entry)

lemma map_of_filter_neq: "map_of (filter (\<lambda>e. fst e \<noteq> k) es) j = (if j = k then None else map_of es j)"
  by (induction es) auto

lemma tget_tdel [simp]: "tget (tdel k t) j = (if j = k then None else tget t j)"
  by transfer (rule map_of_filter_neq)

lemma tlist_tempty [simp]: "tlist tempty = []"
  by transfer simp

lemma tlist_tput [simp]: "tlist (tput k v t) = put_entry k v (tlist t)"
  by transfer simp

lemma tlist_tdel [simp]: "tlist (tdel k t) = filter (\<lambda>e. fst e \<noteq> k) (tlist t)"
  by transfer simp

lemma tget_map_of: "tget t k = map_of (tlist t) k"
  by transfer simp

lemma sorted_tlist: "sorted_wrt (<) (map fst (tlist t))"
  by transfer simp

lemma distinct_tlist [simp]: "distinct (map fst (tlist t))"
  using sorted_tlist [of t] strict_sorted_iff by blast

lemma tlist_tget: "(k, v) \<in> set (tlist t) \<longleftrightarrow> tget t k = Some v"
  by (simp add: tget_map_of)

lemma sorted_tkeys: "sorted_wrt (<) (tkeys t)"
  using sorted_tlist by (simp add: tkeys_def)

lemma set_tkeys: "set (tkeys t) = {k. tget t k \<noteq> None}"
  by (auto simp: tkeys_def tget_map_of dom_map_of_conv_image_fst [symmetric] dom_def)

lemma in_tkeys [simp]: "k \<in> set (tkeys t) \<longleftrightarrow> has t k"
  by (simp add: set_tkeys has_def)

lemma has_tempty [simp]: "\<not> has tempty k"
  by (simp add: has_def)

lemma has_tput [simp]: "has (tput k v t) j \<longleftrightarrow> j = k \<or> has t j"
  by (simp add: has_def)

lemma has_tdel [simp]: "has (tdel k t) j \<longleftrightarrow> j \<noteq> k \<and> has t j"
  by (simp add: has_def)

lemma finite_has: "finite {k. has t k}"
  using finite_set [of "tkeys t"] by (simp add: set_tkeys has_def)

lemma tlist_inject_keys:
  fixes xs ys :: "('k::linorder \<times> 'v) list"
  assumes xs: "sorted_wrt (<) (map fst xs)" and ys: "sorted_wrt (<) (map fst ys)"
    and eq: "map_of xs = map_of ys"
  shows "xs = ys"
proof -
  have d: "distinct (map fst xs)" "distinct (map fst ys)"
    and s: "sorted (map fst xs)" "sorted (map fst ys)"
    using xs ys by (auto simp: strict_sorted_iff)
  have "set xs = set ys"
    using d eq by (metis map_of_eq_Some_iff subrelI subset_antisym)
  moreover from this have "inj_on fst (set xs \<union> set ys)"
    using d by (simp add: distinct_map)
  ultimately show ?thesis
    using s d by (intro map_sorted_distinct_set_unique)
qed

lemma tbl_eqI: "(\<And>k. tget t k = tget u k) \<Longrightarrow> t = u"
  by (metis tlist_inject_keys ext sorted_tlist tget_map_of tlist_inject)

lemma tbl_eq_iff: "t = u \<longleftrightarrow> (\<forall>k. tget t k = tget u k)"
  using tbl_eqI by blast

lemma tput_same [simp]: "tput k v (tput k w t) = tput k v t"
  by (rule tbl_eqI) simp

lemma tdel_tput [simp]: "tdel k (tput k v t) = tdel k t"
  by (rule tbl_eqI) simp

lemma tput_tdel [simp]: "tput k v (tdel k t) = tput k v t"
  by (rule tbl_eqI) simp

lemma tdel_absent: "\<not> has t k \<Longrightarrow> tdel k t = t"
  by (rule tbl_eqI) (auto simp: has_def)

lemma tput_present: "tget t k = Some v \<Longrightarrow> tput k v t = t"
  by (rule tbl_eqI) auto

instantiation tbl :: (linorder, equal) equal
begin

definition equal_tbl :: "('a, 'b) tbl \<Rightarrow> ('a, 'b) tbl \<Rightarrow> bool" where
  "equal_tbl t u \<longleftrightarrow> tlist t = tlist u"

instance
  by standard (simp add: equal_tbl_def tlist_inject)

end

subsection \<open>Totals over a table\<close>

text \<open>
  The sum of something taken from each entry, a number or a multiset: how the references held
  by a table are counted.
\<close>

definition tsum :: "('k::linorder \<Rightarrow> 'v \<Rightarrow> 'm::cancel_comm_monoid_add) \<Rightarrow> ('k, 'v) tbl \<Rightarrow> 'm" where
  "tsum f t = sum_list (map (\<lambda>e. f (fst e) (snd e)) (tlist t))"

definition weight :: "('k::linorder \<Rightarrow> 'v \<Rightarrow> 'm::cancel_comm_monoid_add) \<Rightarrow> ('k, 'v) tbl \<Rightarrow> 'k \<Rightarrow> 'm" where
  "weight f t k = (case tget t k of None \<Rightarrow> 0 | Some v \<Rightarrow> f k v)"

lemma tsum_tempty [simp]: "tsum f tempty = 0"
  by (simp add: tsum_def)

lemma sum_put_entry:
  "sorted_wrt (<) (map fst es) \<Longrightarrow>
   sum_list (map (\<lambda>e. f (fst e) (snd e)) (put_entry k v es)) +
     (case map_of es k of None \<Rightarrow> 0 | Some w \<Rightarrow> f k w) =
   sum_list (map (\<lambda>e. f (fst e) (snd e)) es) + (f k v :: 'm::cancel_comm_monoid_add)"
proof (induction es)
  case Nil
  then show ?case by simp
next
  case (Cons e es)
  have none: "\<not> fst e < k \<Longrightarrow> fst e \<noteq> k \<Longrightarrow> map_of es k = None"
    using Cons.prems by (auto simp: map_of_eq_None_iff)
  show ?case using Cons none by (auto simp: ac_simps split: option.splits)
qed

lemma tsum_tput: "tsum f (tput k v t) + weight f t k = tsum f t + f k v"
  using sum_put_entry [OF sorted_tlist, of f k v t]
  by (simp add: tsum_def weight_def tget_map_of)

lemma sum_filter_neq:
  "distinct (map fst es) \<Longrightarrow>
   sum_list (map (\<lambda>e. f (fst e) (snd e)) (filter (\<lambda>e. fst e \<noteq> k) es)) +
     (case map_of es k of None \<Rightarrow> 0 | Some w \<Rightarrow> f k w) =
   sum_list (map (\<lambda>e. f (fst e) (snd e)) es :: 'm::cancel_comm_monoid_add list)"
proof (induction es)
  case Nil
  then show ?case by simp
next
  case (Cons e es)
  have "fst e = k \<Longrightarrow> map_of es k = None"
    using Cons.prems by (auto simp: map_of_eq_None_iff)
  with Cons show ?case by (auto simp: ac_simps split: option.splits)
qed

lemma tsum_tdel: "tsum f (tdel k t) + weight f t k = tsum f t"
  using sum_filter_neq [OF distinct_tlist, of f k t]
  by (simp add: tsum_def weight_def tget_map_of)

lemma tsum_tput_new: "\<not> has t k \<Longrightarrow> tsum f (tput k v t) = tsum f t + f k v"
  using tsum_tput [of f k v t] by (simp add: weight_def has_def)

lemma tsum_tput_old: "tget t k = Some w \<Longrightarrow> tsum f (tput k v t) + f k w = tsum f t + f k v"
  using tsum_tput [of f k v t] by (simp add: weight_def)

lemma tsum_tdel_old: "tget t k = Some w \<Longrightarrow> tsum f (tdel k t) + f k w = tsum f t"
  using tsum_tdel [of f k t] by (simp add: weight_def)

lemma sum_list_all_zero: "(\<And>x. x \<in> set xs \<Longrightarrow> f x = 0) \<Longrightarrow> sum_list (map f xs) = (0::'m::comm_monoid_add)"
  by (induction xs) auto

lemma tsum_zero: "(\<And>k v. tget t k = Some v \<Longrightarrow> f k v = 0) \<Longrightarrow> tsum f t = 0"
  unfolding tsum_def by (rule sum_list_all_zero) (simp add: tlist_tget [symmetric])

lemma tsum_cong:
  "(\<And>k v. tget t k = Some v \<Longrightarrow> f k v = g k v) \<Longrightarrow> tsum f t = tsum g t"
  unfolding tsum_def by (rule arg_cong [where f = sum_list]) (auto simp: tlist_tget [symmetric])

text \<open>Two ways of counting that differ at one key only.\<close>

lemma tsum_except:
  assumes "\<And>j v. tget t j = Some v \<Longrightarrow> j \<noteq> k \<Longrightarrow> f j v = g j v"
  shows "tsum f t + weight g t k = tsum g t + weight f t k"
proof -
  have "tsum f (tdel k t) = tsum g (tdel k t)"
    by (rule tsum_cong) (use assms in \<open>auto split: if_splits\<close>)
  with tsum_tdel [of f k t] tsum_tdel [of g k t] show ?thesis
    by (metis add.commute add.left_commute)
qed

section \<open>The interface of a key/value store\<close>

locale kvstore =
  fixes get :: "'s \<Rightarrow> 'k::linorder \<Rightarrow> 'v option"
    and put :: "'k \<Rightarrow> 'v \<Rightarrow> 's \<Rightarrow> 's"
    and del :: "'k \<Rightarrow> 's \<Rightarrow> 's"
    and nxt :: "'s \<Rightarrow> 'k \<Rightarrow> 'k option"
  assumes get_put: "get (put k v s) j = (if j = k then Some v else get s j)"
    and get_del: "get (del k s) j = (if j = k then None else get s j)"
    and nxt_Some: "nxt s k = Some j \<Longrightarrow> k < j \<and> get s j \<noteq> None \<and> (\<forall>i. k < i \<and> i < j \<longrightarrow> get s i = None)"
    and nxt_None: "nxt s k = None \<Longrightarrow> k < j \<Longrightarrow> get s j = None"
    and finite_keys: "finite {k. get s k \<noteq> None}"
begin

text \<open>Following \<open>nxt\<close> while the keys satisfy a test, for at most \<open>n\<close> steps.\<close>

primrec walk :: "('k \<Rightarrow> bool) \<Rightarrow> 's \<Rightarrow> nat \<Rightarrow> 'k \<Rightarrow> 'k list option" where
  "walk p s 0 k = None"
| "walk p s (Suc n) k =
     (case nxt s k of None \<Rightarrow> Some []
      | Some j \<Rightarrow> if p j then map_option ((#) j) (walk p s n j) else Some [])"

lemma walk_above: "walk p s n k = Some js \<Longrightarrow> j \<in> set js \<Longrightarrow> k < j \<and> p j \<and> get s j \<noteq> None"
proof (induction n arbitrary: k js)
  case 0
  then show ?case by simp
next
  case (Suc n)
  then show ?case
    by (auto split: option.splits if_splits dest!: nxt_Some) (metis order.strict_trans)+
qed

lemma walk_sorted: "walk p s n k = Some js \<Longrightarrow> sorted_wrt (<) js"
proof (induction n arbitrary: k js)
  case 0
  then show ?case by simp
next
  case (Suc n)
  then show ?case by (auto split: option.splits if_splits dest: walk_above)
qed

text \<open>
  When the keys after \<open>k\<close> that pass the test come before all that do not, the walk misses
  none of them.
\<close>

lemma walk_complete:
  assumes "walk p s n k = Some js"
    and "\<And>i j. k < i \<Longrightarrow> i < j \<Longrightarrow> p j \<Longrightarrow> p i"
    and "k < j" and "p j" and "get s j \<noteq> None"
  shows "j \<in> set js"
  using assms
proof (induction n arbitrary: k js)
  case 0
  then show ?case by simp
next
  case (Suc n)
  show ?case
  proof (cases "nxt s k")
    case None
    with Suc.prems nxt_None [of s k j] show ?thesis by simp
  next
    case (Some i)
    with Suc.prems(3,5) nxt_Some [OF Some] have ij: "k < i" "i \<le> j" by force+
    with Suc.prems(2,4) have "p i" by (metis order.order_iff_strict)
    with Some Suc.prems(1) obtain ks where w: "walk p s n i = Some ks" "js = i # ks" by auto
    show ?thesis
    proof (cases "i = j")
      case True
      with w show ?thesis by simp
    next
      case False
      with ij have "i < j" by simp
      have "j \<in> set ks"
        by (rule Suc.IH [OF w(1)]) (use Suc.prems ij \<open>i < j\<close> in \<open>auto intro: order.strict_trans\<close>)
      with w show ?thesis by simp
    qed
  qed
qed

lemma walk_enough:
  "card {j. k < j \<and> get s j \<noteq> None} < n \<Longrightarrow> \<exists>js. walk p s n k = Some js"
proof (induction n arbitrary: k)
  case 0
  then show ?case by simp
next
  case (Suc n)
  show ?case
  proof (cases "nxt s k")
    case None
    then show ?thesis by simp
  next
    case (Some i)
    then have i: "k < i" "get s i \<noteq> None" using nxt_Some by blast+
    have "{j. i < j \<and> get s j \<noteq> None} \<subset> {j. k < j \<and> get s j \<noteq> None}"
      using i by (auto intro: order.strict_trans)
    then have "card {j. i < j \<and> get s j \<noteq> None} < card {j. k < j \<and> get s j \<noteq> None}"
      by (rule psubset_card_mono [rotated]) (rule finite_subset [OF _ finite_keys [of s]], auto)
    with Suc.prems Suc.IH [of i] Some show ?thesis by auto
  qed
qed

end

lemma next_key_Some:
  assumes "next_key t k = Some j"
  shows "k < j \<and> tget t j \<noteq> None \<and> (\<forall>i. k < i \<and> i < j \<longrightarrow> tget t i = None)"
proof -
  have "\<exists>n < length (tkeys t). k < tkeys t ! n \<and> j = tkeys t ! n \<and> (\<forall>m < n. \<not> k < tkeys t ! m)"
    using assms by (simp add: next_key_def find_Some_iff)
  then obtain n where n: "n < length (tkeys t)" "k < j" "j = tkeys t ! n"
    and least: "\<And>m. m < n \<Longrightarrow> \<not> k < tkeys t ! m" by auto
  have "j \<in> set (tkeys t)" using n by (metis nth_mem)
  moreover have "tget t i = None" if "k < i" "i < j" for i
  proof (rule ccontr)
    assume "tget t i \<noteq> None"
    then obtain m where m: "m < length (tkeys t)" "tkeys t ! m = i"
      by (metis has_def in_set_conv_nth in_tkeys)
    with that least have "\<not> m < n" by auto
    moreover have "\<not> n < m"
      using sorted_wrt_nth_less [OF sorted_tkeys, of n m t] m n that by (meson not_less_iff_gr_or_eq)
    ultimately show False using m n that by (metis less_irrefl linorder_neqE_nat)
  qed
  ultimately show ?thesis using n by (auto simp: has_def)
qed

lemma next_key_None: "next_key t k = None \<Longrightarrow> k < j \<Longrightarrow> tget t j = None"
  by (metis find_None_iff has_def in_tkeys next_key_def)

interpretation table: kvstore tget tput tdel next_key
proof
  show "finite {k. tget t k \<noteq> None}" for t :: "('c::linorder, 'd) tbl"
    using finite_has [of t] by (simp add: has_def)
qed (use next_key_Some next_key_None in auto)

section \<open>Prefix scans\<close>

text \<open>
  \<open>getPrefixedKeys(prefix)\<close>: the generator's keys, for a store that does not change while it
  runs. It starts at the prefix itself and asks for the next key until one no longer starts
  with the prefix; one step per key is enough, and one more finds the end.
\<close>

definition starts_with :: "string \<Rightarrow> string \<Rightarrow> bool" where
  "starts_with p s \<longleftrightarrow> take (length p) s = p"

fun prefixed_from :: "string \<Rightarrow> (string, 'v) tbl \<Rightarrow> nat \<Rightarrow> string \<Rightarrow> string list option" where
  "prefixed_from p t 0 k = None"
| "prefixed_from p t (Suc n) k =
     (case next_key t k of None \<Rightarrow> Some []
      | Some j \<Rightarrow> if \<not> starts_with p j then Some [] else map_option ((#) j) (prefixed_from p t n j))"

definition getPrefixedKeys :: "string \<Rightarrow> (string, 'v) tbl \<Rightarrow> string list option" where
  "getPrefixedKeys p t = prefixed_from p t (Suc (length (tkeys t))) p"

lemma prefixed_from_walk: "prefixed_from p t n k = table.walk (starts_with p) t n k"
  by (induction n arbitrary: k) (auto split: option.split)

lemma starts_with_append [simp]: "starts_with p (p @ s)"
  by (simp add: starts_with_def)

lemma starts_withE:
  assumes "starts_with p s"
  obtains r where "s = p @ r"
  using assms by (metis append_take_drop_id starts_with_def)

text \<open>Strings between a prefix and a string that has it have the prefix too.\<close>

lemma starts_with_convex:
  assumes "p < i" and "i < j" and "starts_with p j"
  shows "starts_with p i"
proof -
  from assms(3) obtain r where "j = p @ r" by (rule starts_withE)
  with assms(1,2) show ?thesis
  proof (induction p arbitrary: i j)
    case Nil
    then show ?case by (simp add: starts_with_def)
  next
    case (Cons c p)
    then obtain d ks where i: "i = d # ks" by (cases i) auto
    with Cons.prems have "c = d" "p < ks" "ks < p @ r" by auto
    with Cons.IH [of ks "p @ r"] i show ?case by (simp add: starts_with_def)
  qed
qed

lemma getPrefixedKeys_total: "\<exists>ks. getPrefixedKeys p t = Some ks"
proof -
  have "card {j. p < j \<and> tget t j \<noteq> None} \<le> card (set (tkeys t))"
    by (rule card_mono) (auto simp: has_def)
  also have "\<dots> \<le> length (tkeys t)" by (rule card_length)
  finally show ?thesis
    unfolding getPrefixedKeys_def prefixed_from_walk by (intro table.walk_enough) simp
qed

lemma getPrefixedKeys_sorted: "getPrefixedKeys p t = Some ks \<Longrightarrow> sorted_wrt (<) ks"
  unfolding getPrefixedKeys_def prefixed_from_walk by (rule table.walk_sorted)

lemma starts_with_le: "starts_with p j \<Longrightarrow> j \<noteq> p \<Longrightarrow> p < j"
proof (induction p arbitrary: j)
  case Nil
  then show ?case by (cases j) auto
next
  case (Cons c p)
  then obtain d ks where "j = d # ks" by (cases j) (auto simp: starts_with_def)
  with Cons show ?case by (auto simp: starts_with_def)
qed

lemma getPrefixedKeys_set:
  assumes "getPrefixedKeys p t = Some ks"
  shows "set ks = {k. has t k \<and> starts_with p k \<and> k \<noteq> p}"
proof -
  note w = assms [unfolded getPrefixedKeys_def prefixed_from_walk]
  have "k \<in> set ks" if "has t k" "starts_with p k" "k \<noteq> p" for k
    using table.walk_complete [OF w] starts_with_convex [of p] starts_with_le that
    by (auto simp: has_def)
  moreover have "has t k \<and> starts_with p k \<and> k \<noteq> p" if "k \<in> set ks" for k
    using table.walk_above [OF w that] by (auto simp: has_def)
  ultimately show ?thesis by blast
qed

text \<open>
  \<open>getPrefixedKeys\<close> returns, and yields every stored key that properly extends the prefix,
  each once, in ascending order, and no other key.
\<close>

theorem getPrefixedKeys_correct:
  "\<exists>ks. getPrefixedKeys p t = Some ks \<and> sorted_wrt (<) ks \<and>
     set ks = {k. has t k \<and> starts_with p k \<and> k \<noteq> p}"
  using getPrefixedKeys_total [of p t] getPrefixedKeys_sorted getPrefixedKeys_set by blast

end
