(* ===== verification/Refs.thy ===== *)
theory Refs
  imports Prelude
begin

text \<open>
  References as text: the identifier formats of \<open>ocap-kernel/src/types.ts\<close> (\<open>v1\<close>, \<open>r2\<close>,
  \<open>ko3\<close>, \<open>kp4\<close>, \<open>o+0\<close>, \<open>o+d10/1:0\<close>, \<open>p-7\<close>, \<open>ro+1\<close>), and the parsers and printers of
  \<open>store/utils\<close> (\<open>parse-ref.ts\<close>, \<open>kernel-slots.ts\<close>, \<open>promise-ref.ts\<close>, \<open>reachable.ts\<close>) and
  \<open>store/methods/translators.ts\<close> (\<open>invertRRef\<close>). A reference is a string here as in the code;
  \<open>s[i]\<close> is \<open>char_at\<close>, which is \<open>None\<close> out of range as the code's is \<open>undefined\<close>.
\<close>

definition char_at :: "string \<Rightarrow> nat \<Rightarrow> char option" where
  "char_at s i = (if i < length s then Some (s ! i) else None)"

section \<open>Identifier formats (types.ts)\<close>

text \<open>\<open>\d+\<close>\<close>

definition all_digits :: "string \<Rightarrow> bool" where
  "all_digits ds \<longleftrightarrow> ds \<noteq> [] \<and> list_all is_digit ds"

definition ROOT_OBJECT_VREF :: string where
  "ROOT_OBJECT_VREF = ''o+0''"

text \<open>\<open>/^v\d+$/u\<close>\<close>

fun isVatId :: "string \<Rightarrow> bool" where
  "isVatId (c # ds) \<longleftrightarrow> c = CHR ''v'' \<and> all_digits ds"
| "isVatId [] \<longleftrightarrow> False"

text \<open>\<open>/^r\d+$/u\<close>\<close>

fun isRemoteId :: "string \<Rightarrow> bool" where
  "isRemoteId (c # ds) \<longleftrightarrow> c = CHR ''r'' \<and> all_digits ds"
| "isRemoteId [] \<longleftrightarrow> False"

definition isEndpointId :: "string \<Rightarrow> bool" where
  "isEndpointId s \<longleftrightarrow> isVatId s \<or> isRemoteId s"

text \<open>\<open>/^k[op]\d+$/u\<close>\<close>

fun isKRef :: "string \<Rightarrow> bool" where
  "isKRef (c # t # ds) \<longleftrightarrow> c = CHR ''k'' \<and> (t = CHR ''o'' \<or> t = CHR ''p'') \<and> all_digits ds"
| "isKRef _ \<longleftrightarrow> False"

text \<open>\<open>[dv]\d+\/\d+(?::\d+)?\<close>, the virtual and durable objects a vat allocates.\<close>

definition isVirtualSuffix :: "string \<Rightarrow> bool" where
  "isVirtualSuffix s \<longleftrightarrow>
     (case s of [] \<Rightarrow> False
      | c # r \<Rightarrow>
          (c = CHR ''d'' \<or> c = CHR ''v'') \<and> takeWhile is_digit r \<noteq> [] \<and>
          (case dropWhile is_digit r of [] \<Rightarrow> False
           | d # r2 \<Rightarrow>
               d = CHR ''/'' \<and> takeWhile is_digit r2 \<noteq> [] \<and>
               (case dropWhile is_digit r2 of [] \<Rightarrow> True
                | e # r3 \<Rightarrow> e = CHR '':'' \<and> all_digits r3)))"

text \<open>\<open>/^(?:p[+-]\d+|o-\d+|o\+(?:\d+|[dv]\d+\/\d+(?::\d+)?))$/u\<close>\<close>

fun isVRef :: "string \<Rightarrow> bool" where
  "isVRef (c # d # ds) \<longleftrightarrow>
     (c = CHR ''p'' \<and> (d = CHR ''+'' \<or> d = CHR ''-'') \<and> all_digits ds) \<or>
     (c = CHR ''o'' \<and> d = CHR ''-'' \<and> all_digits ds) \<or>
     (c = CHR ''o'' \<and> d = CHR ''+'' \<and> (all_digits ds \<or> isVirtualSuffix ds))"
| "isVRef _ \<longleftrightarrow> False"

text \<open>\<open>/^r[op][+-]\d+$/u\<close>\<close>

fun isRRef :: "string \<Rightarrow> bool" where
  "isRRef (c # t # d # ds) \<longleftrightarrow>
     c = CHR ''r'' \<and> (t = CHR ''o'' \<or> t = CHR ''p'') \<and>
     (d = CHR ''+'' \<or> d = CHR ''-'') \<and> all_digits ds"
| "isRRef _ \<longleftrightarrow> False"

definition isERef :: "string \<Rightarrow> bool" where
  "isERef s \<longleftrightarrow> isVRef s \<or> isRRef s"

definition insistVatId :: "string \<Rightarrow> kerror + unit" where
  "insistVatId v = (if isVatId v then Inr () else Inl (Fail ''not a valid VatId'' [v]))"

definition insistEndpointId :: "string \<Rightarrow> kerror + unit" where
  "insistEndpointId v = (if isEndpointId v then Inr () else Inl (Fail ''not a valid EndpointId'' []))"

definition insistKRef :: "string \<Rightarrow> kerror + unit" where
  "insistKRef v = (if isKRef v then Inr () else Inl (Fail ''not a valid KRef:'' [v]))"

definition insistRRef :: "string \<Rightarrow> kerror + unit" where
  "insistRRef v = (if isRRef v then Inr () else Inl (Fail ''not a valid RRef:'' [v]))"

definition insistERef :: "string \<Rightarrow> kerror + unit" where
  "insistERef v = (if isERef v then Inr () else Inl (Fail ''not a valid ERef:'' [v]))"

section \<open>parseRef (parse-ref.ts)\<close>

datatype ref_context = KernelCtx | VatCtx | RemoteCtx

datatype direction = Export | Import

record ref_parts =
  rcontext :: ref_context
  rdirection :: "direction option"
  risPromise :: bool
  rindex :: string

definition parseRef :: "string \<Rightarrow> kerror + ref_parts" where
  "parseRef ref =
     (let c0 = char_at ref 0;
          ctx = (if c0 = Some (CHR ''k'') then Some (KernelCtx, 1)
                 else if c0 = Some (CHR ''o'') \<or> c0 = Some (CHR ''p'') then Some (VatCtx, 0)
                 else if c0 = Some (CHR ''r'') then Some (RemoteCtx, 1)
                 else None)
      in case ctx of
        None \<Rightarrow> Inl (Fail ''invalid reference context'' [take 1 ref])
      | Some (context, typeIdx) \<Rightarrow>
          let t = char_at ref typeIdx in
          if t \<noteq> Some (CHR ''p'') \<and> t \<noteq> Some (CHR ''o'')
          then Inl (Fail ''invalid reference type'' [ref])
          else
            let isPromise = (t = Some (CHR ''p'')) in
            if context = KernelCtx
            then Inr \<lparr>rcontext = context, rdirection = None, risPromise = isPromise, rindex = drop 2 ref\<rparr>
            else
              let dirIdx = typeIdx + 1; d = char_at ref dirIdx in
              if d \<noteq> Some (CHR ''+'') \<and> d \<noteq> Some (CHR ''-'')
              then Inl (Fail ''invalid reference direction'' [ref])
              else Inr \<lparr>rcontext = context,
                        rdirection = Some (if d = Some (CHR ''+'') then Export else Import),
                        risPromise = isPromise, rindex = drop (dirIdx + 1) ref\<rparr>)"

section \<open>Kernel slots (kernel-slots.ts, promise-ref.ts)\<close>

datatype kernel_slot_type = SlotObject | SlotPromise

definition parseKernelSlot :: "string \<Rightarrow> kerror + (kernel_slot_type \<times> string)" where
  "parseKernelSlot slot =
     (if take 2 slot = ''ko'' then Inr (SlotObject, drop 2 slot)
      else if take 2 slot = ''kp'' then Inr (SlotPromise, drop 2 slot)
      else Inl (Fail ''invalid kernelSlot'' [slot]))"

fun makeKernelSlot :: "kernel_slot_type \<Rightarrow> string \<Rightarrow> string" where
  "makeKernelSlot SlotObject i = ''ko'' @ i"
| "makeKernelSlot SlotPromise i = ''kp'' @ i"

definition insistKernelType :: "kernel_slot_type \<Rightarrow> string option \<Rightarrow> kerror + unit" where
  "insistKernelType ty slot =
     (case slot of None \<Rightarrow> Inl (Fail ''kernelSlot is undefined'' [])
      | Some s \<Rightarrow>
          (case parseKernelSlot s of Inl e \<Rightarrow> Inl e
           | Inr (ty', _) \<Rightarrow> if ty = ty' then Inr () else Inl (Fail ''kernelSlot is not of type'' [s])))"

definition isPromiseRef :: "string \<Rightarrow> bool" where
  "isPromiseRef kref \<longleftrightarrow> char_at kref 1 = Some (CHR ''p'')"

section \<open>The reachable flag of a c-list entry (reachable.ts)\<close>

definition parseReachableAndVatSlot :: "string \<Rightarrow> kerror + (bool \<times> string)" where
  "parseReachableAndVatSlot v =
     (let flag = take 1 v; vatSlot = drop 2 v in
      if take 1 (drop 1 v) \<noteq> '' '' then Inl (AssertErr ''expected a space'')
      else case insistERef vatSlot of Inl e \<Rightarrow> Inl e
      | Inr _ \<Rightarrow>
          if flag = ''R'' then Inr (True, vatSlot)
          else if flag = ''_'' then Inr (False, vatSlot)
          else Inl (Fail ''flag must be R or _'' [flag]))"

definition buildReachableAndVatSlot :: "bool \<Rightarrow> string \<Rightarrow> string" where
  "buildReachableAndVatSlot isReachable vatSlot =
     (if isReachable then ''R'' else ''_'') @ '' '' @ vatSlot"

section \<open>invertRRef (translators.ts)\<close>

definition invertRRef :: "string \<Rightarrow> kerror + string" where
  "invertRRef rref =
     (if isRRef rref
      then Inr (take 2 rref @ (if rref ! 2 = CHR ''+'' then ''-'' else ''+'') @ drop 3 rref)
      else Inl (AssertErr ''not an rref''))"

section \<open>Facts\<close>

lemma char_at_Cons [simp]: "char_at (c # cs) 0 = Some c" "char_at (c # cs) (Suc n) = char_at cs n"
  by (simp_all add: char_at_def)

lemma char_at_Nil [simp]: "char_at [] n = None"
  by (simp add: char_at_def)

lemma all_digits_nat_text [simp]: "all_digits (nat_text n)"
  by (simp add: all_digits_def nat_text_digits)

lemma isKRefE:
  assumes "isKRef k"
  obtains (obj) ds where "k = ''ko'' @ ds" and "all_digits ds"
        | (prom) ds where "k = ''kp'' @ ds" and "all_digits ds"
  using assms by (cases k rule: isKRef.cases) auto

lemma isVRefE:
  assumes "isVRef v"
  obtains t d ds where "v = t # d # ds" and "t = CHR ''o'' \<or> t = CHR ''p''"
    and "d = CHR ''+'' \<or> d = CHR ''-''"
  using assms by (cases v rule: isVRef.cases) auto

lemma isRRefE:
  assumes "isRRef v"
  obtains t d ds where "v = CHR ''r'' # t # d # ds" and "t = CHR ''o'' \<or> t = CHR ''p''"
    and "d = CHR ''+'' \<or> d = CHR ''-''" and "all_digits ds"
  using assms by (cases v rule: isRRef.cases) auto

lemma parseRef_kref:
  "isKRef k \<Longrightarrow>
   parseRef k = Inr \<lparr>rcontext = KernelCtx, rdirection = None, risPromise = isPromiseRef k, rindex = drop 2 k\<rparr>"
  by (auto elim!: isKRefE simp: parseRef_def isPromiseRef_def Let_def)

lemma parseRef_vref:
  assumes "isVRef v"
  shows "parseRef v = Inr \<lparr>rcontext = VatCtx,
           rdirection = Some (if v ! 1 = CHR ''+'' then Export else Import),
           risPromise = (v ! 0 = CHR ''p''), rindex = drop 2 v\<rparr>"
  using assms by (auto elim!: isVRefE simp: parseRef_def Let_def)

lemma parseRef_rref:
  assumes "isRRef v"
  shows "parseRef v = Inr \<lparr>rcontext = RemoteCtx,
           rdirection = Some (if v ! 2 = CHR ''+'' then Export else Import),
           risPromise = (v ! 1 = CHR ''p''), rindex = drop 3 v\<rparr>"
  using assms by (auto elim!: isRRefE simp: parseRef_def Let_def numeral_3_eq_3)

lemma parseRef_eref:
  assumes "isERef v"
  obtains p d where "parseRef v = Inr p" and "rdirection p = Some d" and "rcontext p \<noteq> KernelCtx"
  using assms parseRef_vref [of v] parseRef_rref [of v] by (auto simp: isERef_def)

text \<open>The endpoint's view of a reference, from its text: what \<open>parseRef\<close> finds on an eref.\<close>

definition eref_exports :: "string \<Rightarrow> bool" where
  "eref_exports v \<longleftrightarrow> (case parseRef v of Inr p \<Rightarrow> rdirection p = Some Export | Inl _ \<Rightarrow> False)"

definition eref_promise :: "string \<Rightarrow> bool" where
  "eref_promise v \<longleftrightarrow> (case parseRef v of Inr p \<Rightarrow> risPromise p | Inl _ \<Rightarrow> False)"

lemma isPromiseRef_kp [simp]: "isPromiseRef (CHR ''k'' # CHR ''p'' # ds)"
  by (simp add: isPromiseRef_def)

lemma isPromiseRef_ko [simp]: "\<not> isPromiseRef (CHR ''k'' # CHR ''o'' # ds)"
  by (simp add: isPromiseRef_def)

lemma isKRef_makeKernelSlot [simp]: "isKRef (makeKernelSlot ty i) \<longleftrightarrow> all_digits i"
  by (cases ty) auto

lemma isPromiseRef_makeKernelSlot [simp]:
  "isPromiseRef (makeKernelSlot ty i) \<longleftrightarrow> ty = SlotPromise"
  by (cases ty) auto

lemma makeKernelSlot_inj [simp]: "makeKernelSlot t i = makeKernelSlot u j \<longleftrightarrow> t = u \<and> i = j"
  by (cases t; cases u) auto

lemma parse_build [simp]:
  "isERef v \<Longrightarrow> parseReachableAndVatSlot (buildReachableAndVatSlot b v) = Inr (b, v)"
  by (simp add: parseReachableAndVatSlot_def buildReachableAndVatSlot_def insistERef_def)

lemma buildReachable_nonempty [simp]: "buildReachableAndVatSlot b v \<noteq> []"
  by (simp add: buildReachableAndVatSlot_def)

lemma isVatId_not_remote: "isVatId e \<Longrightarrow> \<not> isRemoteId e"
  by (cases e) auto

text \<open>
  A c-list row parses to a flag and an eref exactly when the eref is well formed and the row
  is the one built from them: the two functions are inverse, and no other text is accepted.
\<close>

theorem reachable_row_roundtrip:
  "parseReachableAndVatSlot row = Inr (c, w) \<longleftrightarrow> isERef w \<and> row = buildReachableAndVatSlot c w"
proof
  assume h: "parseReachableAndVatSlot row = Inr (c, w)"
  have sp: "take 1 (drop 1 row) = '' ''" and w: "w = drop 2 row" and e: "isERef w"
    and f: "take 1 row = (if c then ''R'' else ''_'')"
    using h by (auto simp: parseReachableAndVatSlot_def insistERef_def Let_def split: if_splits)
  have "row = take 1 row @ take 1 (drop 1 row) @ drop 2 row"
    by (cases row; cases "tl row") auto
  with sp w f e show "isERef w \<and> row = buildReachableAndVatSlot c w"
    by (simp add: buildReachableAndVatSlot_def)
qed simp

lemma invertRRef_flips:
  assumes "isRRef r"
  shows "\<exists>r'. invertRRef r = Inr r' \<and> isRRef r' \<and> r' \<noteq> r \<and> invertRRef r' = Inr r \<and>
     eref_exports r' = (\<not> eref_exports r) \<and> eref_promise r' = eref_promise r"
proof -
  from assms obtain t d ds where r: "r = CHR ''r'' # t # d # ds"
    and t: "t = CHR ''o'' \<or> t = CHR ''p''" and d: "d = CHR ''+'' \<or> d = CHR ''-''"
    and ds: "all_digits ds" by (rule isRRefE)
  show ?thesis
    using t d ds unfolding r
    by (auto simp: invertRRef_def eref_exports_def eref_promise_def parseRef_def Let_def
        numeral_2_eq_2 numeral_3_eq_3)
qed

text \<open>
  Flipping the direction of an rref is an involution that keeps its type and its number: the
  rref \<open>invertRRef\<close> gives is again an rref, names the other direction, and flips back.
\<close>

theorem invertRRef_involution:
  assumes "isRRef r"
  shows "\<exists>r'. invertRRef r = Inr r' \<and> isRRef r' \<and> r' \<noteq> r \<and> invertRRef r' = Inr r \<and>
     eref_exports r' = (\<not> eref_exports r) \<and> eref_promise r' = eref_promise r"
  using assms by (rule invertRRef_flips)

theorem invertRRef_involution_witness:
  "isRRef ''rp-12'' \<and> (\<exists>r'. invertRRef ''rp-12'' = Inr r' \<and> isRRef r' \<and> r' \<noteq> ''rp-12'' \<and>
     invertRRef r' = Inr ''rp-12'' \<and> eref_exports r' = (\<not> eref_exports ''rp-12'') \<and>
     eref_promise r' = eref_promise ''rp-12'')"
proof -
  have h: "isRRef ''rp-12''" by (simp add: all_digits_def is_digit_def)
  show ?thesis using h invertRRef_involution [OF h] by simp
qed

end
