(* ===== verification/StoreContext.thy ===== *)
theory StoreContext
  imports Tables Refs
begin

text \<open>
  The state of the kernel store (\<open>StoreContext\<close> of \<open>ocap-kernel/src/store/types.ts\<close> over the
  rows documented at the top of \<open>store/index.ts\<close>) and its base methods
  (\<open>store/methods/base.ts\<close>, \<open>queue.ts\<close>, \<open>id.ts\<close>): counters, cached values, queues.

  \<^item> \<open>kdb\<close> is the database. The code keeps one string-keyed table and gives each family of rows
    a key pattern (\<open>${koid}.refCount\<close>, \<open>${endid}.c.${ref}\<close>, \<open>queue.${name}.${NN}\<close>, ...); here
    each family is a table of its own, keyed by what varies in the pattern. Theory \<open>Keys\<close> proves
    that the patterns never collide, so that a write to one family is a write to one row.
    Rows that hold JSON are kept decoded; counts and c-list rows are the text the code stores;
    counters only ever incremented are the naturals their decimal text denotes.
  \<^item> \<open>cached_rows\<close> are the ten values \<open>makeKernelStore\<close> caches (\<open>CACHED_VALUES\<close>). They exist
    twice: \<open>cachedRows\<close> in the database, \<open>cache\<close> in memory. So do the run queue's two indices.
    A write goes to both; a rollback undoes only the database half.
  \<^item> \<open>ctx\<close> is the context: the database, the caches, and the state kept only in memory.
\<close>

section \<open>Messages and run queue items (types.ts)\<close>

record capdata =
  body :: string
  slots :: "string list"

text \<open>\<open>result?: KRef | null\<close>\<close>

datatype msg_result = NoResult | NullResult | Result string

record message =
  methargs :: capdata
  result :: msg_result

text \<open>\<open>if (message.result)\<close>: neither absent, nor null, nor the empty string.\<close>

fun result_ref :: "msg_result \<Rightarrow> string option" where
  "result_ref (Result r) = (if r = '''' then None else Some r)"
| "result_ref NullResult = None"
| "result_ref NoResult = None"

datatype GCRunQueueType = DropExports | RetireExports | RetireImports

datatype run_item =
    Send string message
  | Notify string string
  | GCAction GCRunQueueType string "string list"
  | BringOutYourDead string
  | RestartVat string
  | TerminateVat string "capdata option"

datatype queue_entry = QRun run_item | QMsg message

datatype promise_state = Unresolved | Fulfilled | Rejected

record kernel_promise =
  kp_state :: promise_state
  kp_decider :: "string option"
  kp_subscribers :: "string list option"
  kp_value :: "capdata option"

record subcluster =
  sc_id :: string
  sc_config :: string
  sc_vats :: "(string \<times> string) list"

text \<open>The info of a remote: JSON text, which may not parse.\<close>

datatype remote_info = RemoteInfo string "string list" | CorruptInfo string

text \<open>
  The known relays: JSON text. An array of relay entries, or of addresses as older versions wrote
  it, or whatever else is found there.
\<close>

record relay_entry =
  addr :: string
  lastSeen :: int
  isBootstrap :: bool

datatype relay_item = RelayEntry relay_entry | RelayAddr string | BadRelay string

datatype relay_row = RelayArray "relay_item list" | NotAnArray string | CorruptRelays string

section \<open>The database and the context\<close>

record cached_rows =
  nextObjectId :: "nat option"
  nextPromiseId :: "nat option"
  nextVatId :: "nat option"
  nextRemoteId :: "nat option"
  gcActions :: "string list option"
  reapQueue :: "string list option"
  terminatedVats :: "string list option"
  subclusters :: "subcluster list option"
  nextSubclusterId :: "nat option"
  vatToSubclusterMap :: "(string \<times> string) list option"

record kdb =
  refCounts :: "(string, string) tbl"
  owners :: "(string, string) tbl"
  revokeds :: "(string, string) tbl"
  pstates :: "(string, promise_state) tbl"
  pdeciders :: "(string, string) tbl"
  psubscribers :: "(string, string list) tbl"
  pvalues :: "(string, capdata) tbl"
  qheads :: "(string, nat) tbl"
  qtails :: "(string, nat) tbl"
  qentries :: "(string \<times> nat, queue_entry) tbl"
  clists :: "(string \<times> string, string) tbl"
  nextObjectIds :: "(string, nat) tbl"
  nextPromiseIds :: "(string, nat) tbl"
  vatConfigs :: "(string, string) tbl"
  remoteInfos :: "(string, remote_info) tbl"
  remoteSeqs :: "(string \<times> string, nat) tbl"
  remotePendings :: "(string \<times> nat, string) tbl"
  peerIncarnations :: "(string, string) tbl"
  pinned :: "(string, nat) tbl"
  ocapURLObjects :: "(string, nat) tbl"
  kernelServices :: "(string, string) tbl"
  systemSubclusters :: "(string, string) tbl"
  scalars :: "(string, string) tbl"
  knownRelays :: "relay_row option"
  cachedRows :: cached_rows
  vatStores :: "(string \<times> string, string) tbl"

text \<open>
  \<open>savepoints\<close> pairs each savepoint's name with the collection candidates as they stood then
  (\<open>Savepoint\<close> of \<open>store/types.ts\<close>). \<open>session\<close> is what the database keeps of its own open
  transaction (theory \<open>Transactions\<close>): what it held when the transaction began, its savepoints
  with the rows each would restore, the names the driver's stack shows, and whether the
  connection refuses writes.
\<close>

record db_session =
  txBase :: "kdb option"
  txMarks :: "(string \<times> kdb) list"
  txNames :: "string list"
  txRefuses :: bool
  txAbortFailure :: "kerror option"
  txLossCause :: "kerror option"

definition idle :: db_session where
  "idle = \<lparr>txBase = None, txMarks = [], txNames = [], txRefuses = False, txAbortFailure = None, txLossCause = None\<rparr>"

record ctx =
  db :: kdb
  cache :: cached_rows
  rqHead :: "nat option"
  rqTail :: "nat option"
  runQueueLengthCache :: int
  maybeFreeKrefs :: "string list"
  inCrank :: bool
  savepoints :: "(string \<times> string list) list"
  session :: db_session
  crankBuffer :: "run_item list"
  auditRefCounts :: bool

type_synonym 'a store = "(ctx, 'a) sm"

abbreviation kvWrite :: "(kdb \<Rightarrow> kdb) \<Rightarrow> unit store" where
  "kvWrite f \<equiv> modify (db_update f)"

text \<open>\<open>kv.getRequired\<close>: a missing row is an error, as is an empty text.\<close>

definition getRequired :: "string list \<Rightarrow> (kdb \<Rightarrow> 'v option) \<Rightarrow> 'v store" where
  "getRequired key f = bnd (gets (\<lambda>s. f (db s))) (ofOption (NoValue key))"

section \<open>Cached values (base.ts, index.ts)\<close>

text \<open>\<open>value.set(newValue)\<close> of a cached stored value: the row first, then the copy.\<close>

abbreviation cached_set :: "(cached_rows \<Rightarrow> cached_rows) \<Rightarrow> unit store" where
  "cached_set f \<equiv> modify (\<lambda>s. cache_update f (db_update (cachedRows_update f) s))"

text \<open>
  \<open>provideCachedStoredValue(key, init)\<close>, for each entry of \<open>CACHED_VALUES\<close>: a row that is
  missing is written with its initial value.
\<close>

definition init_row :: "'a \<Rightarrow> 'a option \<Rightarrow> 'a option" where
  "init_row i x = (case x of None \<Rightarrow> Some i | Some v \<Rightarrow> Some v)"

definition init_cached_rows :: "cached_rows \<Rightarrow> cached_rows" where
  "init_cached_rows r = \<lparr>
     nextObjectId = init_row 1 (nextObjectId r),
     nextPromiseId = init_row 1 (nextPromiseId r),
     nextVatId = init_row 1 (nextVatId r),
     nextRemoteId = init_row 1 (nextRemoteId r),
     gcActions = init_row [] (gcActions r),
     reapQueue = init_row [] (reapQueue r),
     terminatedVats = init_row [] (terminatedVats r),
     subclusters = init_row [] (subclusters r),
     nextSubclusterId = init_row 1 (nextSubclusterId r),
     vatToSubclusterMap = init_row [] (vatToSubclusterMap r)\<rparr>"

definition refreshCachedValues :: "unit store" where
  "refreshCachedValues =
     modify (\<lambda>s. let r = init_cached_rows (cachedRows (db s))
                 in s\<lparr>db := (db s)\<lparr>cachedRows := r\<rparr>, cache := r\<rparr>)"

text \<open>
  \<open>incCounter(value)\<close>: returns the value as it was. A counter without a value would become
  \<open>NaN\<close>; every caller's counter has been provided with an initial value, and the model makes
  the other case an error.
\<close>

definition incCounter :: "(ctx \<Rightarrow> nat option) \<Rightarrow> (nat \<Rightarrow> ctx \<Rightarrow> ctx) \<Rightarrow> nat store" where
  "incCounter rd wr =
     bnd (bnd (gets rd) (ofOption (JsError ''counter is NaN'' [])))
       (\<lambda>current. thn (modify (wr (current + 1))) (ret current))"

section \<open>Stored queues (base.ts)\<close>

text \<open>
  \<open>cached = True\<close> is the run queue, whose head and tail are cached values; a promise's queue
  reads its indices from the database each time.
\<close>

definition queue_head :: "bool \<Rightarrow> string \<Rightarrow> ctx \<Rightarrow> nat option" where
  "queue_head cached q s = (if cached then rqHead s else tget (qheads (db s)) q)"

definition queue_tail :: "bool \<Rightarrow> string \<Rightarrow> ctx \<Rightarrow> nat option" where
  "queue_tail cached q s = (if cached then rqTail s else tget (qtails (db s)) q)"

definition set_queue_head :: "bool \<Rightarrow> string \<Rightarrow> nat \<Rightarrow> ctx \<Rightarrow> ctx" where
  "set_queue_head cached q n s =
     (let s' = db_update (qheads_update (tput q n)) s in if cached then s'\<lparr>rqHead := Some n\<rparr> else s')"

definition set_queue_tail :: "bool \<Rightarrow> string \<Rightarrow> nat \<Rightarrow> ctx \<Rightarrow> ctx" where
  "set_queue_tail cached q n s =
     (let s' = db_update (qtails_update (tput q n)) s in if cached then s'\<lparr>rqTail := Some n\<rparr> else s')"

definition put_if_absent :: "'k::linorder \<Rightarrow> 'v \<Rightarrow> ('k, 'v) tbl \<Rightarrow> ('k, 'v) tbl" where
  "put_if_absent k v t = (case tget t k of None \<Rightarrow> tput k v t | Some _ \<Rightarrow> t)"

text \<open>\<open>provideStoredQueue(queueName, cached)\<close>: both indices start at 1.\<close>

definition provideStoredQueue :: "string \<Rightarrow> bool \<Rightarrow> unit store" where
  "provideStoredQueue q cached =
     thn (kvWrite (\<lambda>d. d\<lparr>qheads := put_if_absent q 1 (qheads d), qtails := put_if_absent q 1 (qtails d)\<rparr>))
       (whenM cached (modify (\<lambda>s. s\<lparr>rqHead := tget (qheads (db s)) q, rqTail := tget (qtails (db s)) q\<rparr>)))"

definition refreshRunQueue :: "unit store" where
  "refreshRunQueue = provideStoredQueue ''run'' True"

text \<open>\<open>enqueue\<close>: the entry is written before the head moves.\<close>

definition enqueue :: "bool \<Rightarrow> string \<Rightarrow> queue_entry \<Rightarrow> unit store" where
  "enqueue cached q item =
     bnd (gets (queue_head cached q)) (\<lambda>h.
       case h of None \<Rightarrow> fail (JsError ''enqueue into deleted queue'' [q])
       | Some n \<Rightarrow>
           thn (kvWrite (qentries_update (tput (q, n) item)))
             (thn (incCounter (queue_head cached q) (set_queue_head cached q)) (ret ())))"

text \<open>\<open>dequeue\<close>: the tail moves before the entry is deleted.\<close>

definition dequeue :: "bool \<Rightarrow> string \<Rightarrow> queue_entry option store" where
  "dequeue cached q =
     bnd (gets (queue_head cached q)) (\<lambda>headPos.
       case headPos of None \<Rightarrow> ret None
       | Some h \<Rightarrow>
           bnd (gets (queue_tail cached q)) (\<lambda>tailPos.
             case tailPos of None \<Rightarrow> fail (NoValue [''queue'', q, ''undefined''])
             | Some t \<Rightarrow>
                 if t \<noteq> h then
                   bnd (getRequired [''queue'', q, nat_text t] (\<lambda>d. tget (qentries d) (q, t))) (\<lambda>entry.
                     thn (incCounter (queue_tail cached q) (set_queue_tail cached q))
                       (thn (kvWrite (qentries_update (tdel (q, t))))
                         (ret (Some entry))))
                 else ret None))"

text \<open>
  \<open>delete\<close> of an uncached queue: the entries from the tail up to the head, then the indices. The
  loop counts up from the tail until it meets the head, and would not return were the tail
  past the head; \<open>OutOfFuel\<close> stands for that.
\<close>

definition delete_queue :: "string \<Rightarrow> unit store" where
  "delete_queue q =
     bnd (gets (queue_head False q)) (\<lambda>headPos.
       case headPos of None \<Rightarrow> ret ()
       | Some h \<Rightarrow>
           bnd (gets (queue_tail False q)) (\<lambda>tailPos.
             case tailPos of None \<Rightarrow> fail OutOfFuel
             | Some t \<Rightarrow>
                 thn (require (t \<le> h) OutOfFuel)
                   (thn (forEach [t..<h] (\<lambda>i. kvWrite (qentries_update (tdel (q, i)))))
                     (kvWrite (\<lambda>d. d\<lparr>qheads := tdel q (qheads d), qtails := tdel q (qtails d)\<rparr>)))))"

section \<open>The run queue (queue.ts)\<close>

definition getQueueLength :: "string \<Rightarrow> int store" where
  "getQueueLength q =
     bnd (gets (\<lambda>s. (tget (qheads (db s)) q, tget (qtails (db s)) q))) (\<lambda>ht.
       case ht of (Some h, Some t) \<Rightarrow> ret (int h - int t)
       | _ \<Rightarrow> fail (JsError ''unknown queue'' [q]))"

definition runQueueLength :: "int store" where
  "runQueueLength =
     bnd (gets runQueueLengthCache) (\<lambda>c.
       if c < 0 then
         bnd (getQueueLength ''run'') (\<lambda>n. thn (modify (runQueueLengthCache_update (\<lambda>_. n))) (ret n))
       else ret c)"

definition enqueueRun :: "run_item \<Rightarrow> unit store" where
  "enqueueRun item =
     thn runQueueLength
       (thn (enqueue True ''run'' (QRun item))
         (modify (runQueueLengthCache_update (\<lambda>c. c + 1))))"

text \<open>
  A run queue holds run queue items: the cast of \<open>dequeueRun\<close> is the pattern \<open>QRun\<close>, and the
  other pattern, which no \<open>enqueueRun\<close> writes, is an error.
\<close>

definition dequeueRun :: "run_item option store" where
  "dequeueRun =
     thn runQueueLength
       (thn (modify (runQueueLengthCache_update (\<lambda>c. c - 1)))
         (bnd (dequeue True ''run'') (\<lambda>e.
           case e of None \<Rightarrow> ret None
           | Some (QRun item) \<Rightarrow> ret (Some item)
           | Some (QMsg _) \<Rightarrow> fail (TypeErr ''run queue entry''))))"

section \<open>Identifiers (id.ts)\<close>

definition getNextVatId :: "string store" where
  "getNextVatId =
     bnd (incCounter (\<lambda>s. nextVatId (cache s))
            (\<lambda>n s. snd (cached_set (nextVatId_update (\<lambda>_. Some n)) s)))
       (\<lambda>n. ret (''v'' @ nat_text n))"

definition getNextRemoteId :: "string store" where
  "getNextRemoteId =
     bnd (incCounter (\<lambda>s. nextRemoteId (cache s))
            (\<lambda>n s. snd (cached_set (nextRemoteId_update (\<lambda>_. Some n)) s)))
       (\<lambda>n. ret (''r'' @ nat_text n))"

definition initEndpoint :: "string \<Rightarrow> unit store" where
  "initEndpoint ep =
     kvWrite (\<lambda>d. d\<lparr>nextPromiseIds := tput ep 1 (nextPromiseIds d), nextObjectIds := tput ep 1 (nextObjectIds d)\<rparr>)"

section \<open>A new store (index.ts)\<close>

text \<open>
  \<open>makeKernelStore(kdb)\<close>: the context over a database, with the run queue's indices and the
  cached values provided, and nothing pending in memory.
\<close>

definition makeKernelStore :: "kdb \<Rightarrow> ctx" where
  "makeKernelStore d =
     snd (thn refreshRunQueue refreshCachedValues
       \<lparr>db = d, cache = cachedRows d, rqHead = None, rqTail = None, runQueueLengthCache = - 1,
        maybeFreeKrefs = [], inCrank = False, savepoints = [], session = idle, crankBuffer = [],
        auditRefCounts = False\<rparr>)"

definition empty_kdb :: kdb where
  "empty_kdb = \<lparr>
     refCounts = tempty, owners = tempty, revokeds = tempty, pstates = tempty, pdeciders = tempty,
     psubscribers = tempty, pvalues = tempty, qheads = tempty, qtails = tempty, qentries = tempty,
     clists = tempty, nextObjectIds = tempty, nextPromiseIds = tempty, vatConfigs = tempty,
     remoteInfos = tempty, remoteSeqs = tempty, remotePendings = tempty, peerIncarnations = tempty,
     pinned = tempty, ocapURLObjects = tempty, kernelServices = tempty, systemSubclusters = tempty,
     scalars = tempty, knownRelays = None,
     cachedRows = \<lparr>nextObjectId = None, nextPromiseId = None, nextVatId = None, nextRemoteId = None,
       gcActions = None, reapQueue = None, terminatedVats = None, subclusters = None,
       nextSubclusterId = None, vatToSubclusterMap = None\<rparr>,
     vatStores = tempty\<rparr>"

lemmas makeKernelStore_simps = makeKernelStore_def refreshRunQueue_def refreshCachedValues_def
  provideStoredQueue_def put_if_absent_def sm_simps Let_def init_cached_rows_def init_row_def

text \<open>What a new store over an empty database holds.\<close>

lemma makeKernelStore_fresh:
  "makeKernelStore empty_kdb =
    \<lparr>db = empty_kdb\<lparr>qheads := tput ''run'' 1 tempty, qtails := tput ''run'' 1 tempty,
        cachedRows := init_cached_rows (cachedRows empty_kdb)\<rparr>,
      cache = init_cached_rows (cachedRows empty_kdb), rqHead = Some 1, rqTail = Some 1, runQueueLengthCache = - 1,
      maybeFreeKrefs = [], inCrank = False, savepoints = [], session = idle, crankBuffer = [],
      auditRefCounts = False\<rparr>"
  by (simp add: makeKernelStore_simps empty_kdb_def)

end
