(* ===== verification/Queues.thy ===== *)
theory Queues
  imports StoreContext
begin

text \<open>
  What the store's queues promise: \<open>fifo\<close> is the contract of a queue with a fallible enqueue and
  dequeue over some state, and its consequences (draining a queue gives back what was in it and
  what was put in it, in order). The two users of it, the run queue with its cached indices and
  length (\<open>queue.ts\<close>) and a promise's queue of messages (\<open>base.ts\<close>), are its interpretations.
\<close>

section \<open>First in, first out\<close>

locale fifo =
  fixes ok :: "'s \<Rightarrow> bool"
    and items :: "'s \<Rightarrow> 'i list"
    and enq :: "'i \<Rightarrow> ('s, unit) sm"
    and deq :: "('s, 'i option) sm"
  assumes enq_spec: "ok s \<Longrightarrow> \<exists>s'. enq x s = (Inr (), s') \<and> ok s' \<and> items s' = items s @ [x]"
    and deq_spec: "ok s \<Longrightarrow> \<exists>s'. deq s = (Inr (case items s of [] \<Rightarrow> None | x # _ \<Rightarrow> Some x), s') \<and>
      ok s' \<and> items s' = tl (items s)"
begin

lemma enqE:
  assumes "ok s"
  obtains s' where "enq x s = (Inr (), s')" and "ok s'" and "items s' = items s @ [x]"
  using enq_spec [OF assms] by blast

lemma enq_all:
  "ok s \<Longrightarrow> \<exists>s'. forEach xs enq s = (Inr (), s') \<and> ok s' \<and> items s' = items s @ xs"
proof (induction xs arbitrary: s)
  case Nil
  then show ?case by simp
next
  case (Cons x xs)
  obtain s1 where s1: "enq x s = (Inr (), s1)" "ok s1" "items s1 = items s @ [x]"
    using Cons.prems by (rule enqE)
  with Cons.IH [OF s1(2)] show ?case by auto
qed

text \<open>Dequeue until nothing is left, at most \<open>n\<close> times.\<close>

primrec drain :: "nat \<Rightarrow> ('s, 'i list) sm" where
  "drain 0 = fail OutOfFuel"
| "drain (Suc n) =
     bnd deq (\<lambda>x. case x of None \<Rightarrow> ret [] | Some y \<Rightarrow> bnd (drain n) (\<lambda>ys. ret (y # ys)))"

lemma drain_spec:
  "ok s \<Longrightarrow> length (items s) < n \<Longrightarrow>
   \<exists>s'. drain n s = (Inr (items s), s') \<and> ok s' \<and> items s' = []"
proof (induction n arbitrary: s)
  case 0
  then show ?case by simp
next
  case (Suc n)
  obtain s1 where s1: "deq s = (Inr (case items s of [] \<Rightarrow> None | x # _ \<Rightarrow> Some x), s1)"
    "ok s1" "items s1 = tl (items s)"
    using deq_spec [OF Suc.prems(1)] by blast
  show ?case
  proof (cases "items s")
    case Nil
    with s1 show ?thesis by simp
  next
    case (Cons y ys)
    with s1 Suc.prems(2) have "length (items s1) < n" by simp
    from Suc.IH [OF s1(2) this] s1 Cons show ?thesis by auto
  qed
qed

text \<open>What goes in comes out, in order, after what was there before.\<close>

lemma enq_drain:
  assumes "ok s" and "length (items s) + length xs < n"
  shows "\<exists>s'. thn (forEach xs enq) (drain n) s = (Inr (items s @ xs), s') \<and> items s' = []"
proof -
  obtain s1 where s1: "forEach xs enq s = (Inr (), s1)" "ok s1" "items s1 = items s @ xs"
    using enq_all [OF assms(1)] by blast
  with drain_spec [OF s1(2), of n] assms(2) show ?thesis by auto
qed

end

section \<open>A stored queue\<close>

text \<open>
  A queue is sound when its indices exist, the tail is not past the head, an entry is there for
  each index between them, and for no other.
\<close>

definition queue_ok :: "bool \<Rightarrow> string \<Rightarrow> ctx \<Rightarrow> bool" where
  "queue_ok cached q s \<longleftrightarrow>
     (\<exists>h t. tget (qheads (db s)) q = Some h \<and> tget (qtails (db s)) q = Some t \<and> t \<le> h \<and>
        (\<forall>i. has (qentries (db s)) (q, i) \<longleftrightarrow> t \<le> i \<and> i < h)) \<and>
     (cached \<longrightarrow> rqHead s = tget (qheads (db s)) q \<and> rqTail s = tget (qtails (db s)) q)"

definition queue_items :: "string \<Rightarrow> ctx \<Rightarrow> queue_entry list" where
  "queue_items q s =
     (case (tget (qheads (db s)) q, tget (qtails (db s)) q) of
        (Some h, Some t) \<Rightarrow> map (\<lambda>i. the (tget (qentries (db s)) (q, i))) [t..<h]
      | _ \<Rightarrow> [])"

lemma queue_okE:
  assumes "queue_ok cached q s"
  obtains h t where "tget (qheads (db s)) q = Some h" and "tget (qtails (db s)) q = Some t"
    and "t \<le> h" and "queue_head cached q s = Some h" and "queue_tail cached q s = Some t"
    and "\<And>i. has (qentries (db s)) (q, i) \<longleftrightarrow> t \<le> i \<and> i < h"
  using assms by (auto simp: queue_ok_def queue_head_def queue_tail_def)

lemma queue_okI:
  assumes "tget (qheads (db s)) q = Some h" and "tget (qtails (db s)) q = Some t" and "t \<le> h"
    and "\<And>i. has (qentries (db s)) (q, i) \<longleftrightarrow> t \<le> i \<and> i < h"
    and "queue_head cached q s = Some h" and "queue_tail cached q s = Some t"
  shows "queue_ok cached q s"
  using assms unfolding queue_ok_def by (cases cached) (simp_all add: queue_head_def queue_tail_def)

lemmas queue_defs = set_queue_head_def set_queue_tail_def queue_head_def queue_tail_def
  incCounter_def getRequired_def Let_def

lemma enqueue_run:
  assumes "queue_head cached q s = Some h"
  shows "enqueue cached q item s = (Inr (),
    set_queue_head cached q (h + 1) (db_update (qentries_update (tput (q, h) item)) s))"
  using assms by (auto simp: enqueue_def sm_simps queue_defs)

lemma dequeue_empty:
  assumes "queue_head cached q s = Some h" and "queue_tail cached q s = Some h"
  shows "dequeue cached q s = (Inr None, s)"
  using assms by (simp add: dequeue_def sm_simps)

lemma dequeue_run:
  assumes "queue_head cached q s = Some h" and "queue_tail cached q s = Some t" and "t \<noteq> h"
    and "tget (qentries (db s)) (q, t) = Some e"
  shows "dequeue cached q s = (Inr (Some e),
    db_update (qentries_update (tdel (q, t))) (set_queue_tail cached q (t + 1) s))"
  using assms by (auto simp: dequeue_def sm_simps queue_defs)

text \<open>What a queue operation leaves alone: everything but its own indices and entries.\<close>

definition without_queues :: "ctx \<Rightarrow> ctx" where
  "without_queues s = s\<lparr>db := (db s)\<lparr>qheads := tempty, qtails := tempty, qentries := tempty\<rparr>,
     rqHead := None, rqTail := None\<rparr>"

definition same_but_queues :: "ctx \<Rightarrow> ctx \<Rightarrow> bool" where
  "same_but_queues s s' \<longleftrightarrow> without_queues s' = without_queues s"

lemma enqueue_spec:
  assumes "queue_ok cached q s"
  shows "\<exists>s'. enqueue cached q x s = (Inr (), s') \<and> queue_ok cached q s' \<and>
    queue_items q s' = queue_items q s @ [x] \<and> same_but_queues s s'"
proof -
  obtain h t where ht: "tget (qheads (db s)) q = Some h" "tget (qtails (db s)) q = Some t" "t \<le> h"
    "queue_head cached q s = Some h" "queue_tail cached q s = Some t"
    and entries: "\<And>i. has (qentries (db s)) (q, i) \<longleftrightarrow> t \<le> i \<and> i < h"
    using assms by (rule queue_okE) blast
  let ?s' = "set_queue_head cached q (h + 1) (db_update (qentries_update (tput (q, h) x)) s)"
  have run: "enqueue cached q x s = (Inr (), ?s')"
    using ht(4) by (rule enqueue_run)
  have ok: "queue_ok cached q ?s'"
    by (rule queue_okI [of _ _ "h + 1" t]) (use ht(1-5) in \<open>auto simp: entries queue_defs split: if_splits\<close>)
  have "map (\<lambda>i. the (tget (tput (q, h) x (qentries (db s))) (q, i))) [t..<h + 1] =
      map (\<lambda>i. the (tget (qentries (db s)) (q, i))) [t..<h] @ [x]"
    using ht(3) by auto
  then have "queue_items q ?s' = queue_items q s @ [x]"
    using ht by (auto simp: queue_items_def queue_defs)
  moreover have "same_but_queues s ?s'"
    by (simp add: same_but_queues_def without_queues_def queue_defs)
  ultimately show ?thesis using run ok by blast
qed

lemma dequeue_spec:
  assumes "queue_ok cached q s"
  shows "\<exists>s'. dequeue cached q s = (Inr (case queue_items q s of [] \<Rightarrow> None | x # _ \<Rightarrow> Some x), s') \<and>
    queue_ok cached q s' \<and> queue_items q s' = tl (queue_items q s) \<and> same_but_queues s s'"
proof -
  obtain h t where ht: "tget (qheads (db s)) q = Some h" "tget (qtails (db s)) q = Some t" "t \<le> h"
    "queue_head cached q s = Some h" "queue_tail cached q s = Some t"
    and entries: "\<And>i. has (qentries (db s)) (q, i) \<longleftrightarrow> t \<le> i \<and> i < h"
    using assms by (rule queue_okE) blast
  show ?thesis
  proof (cases "t = h")
    case True
    then have "queue_items q s = []" using ht by (simp add: queue_items_def)
    with True ht assms show ?thesis
      by (simp add: dequeue_empty same_but_queues_def)
  next
    case False
    with ht(3) have "t < h" by simp
    with entries [of t] obtain e where e: "tget (qentries (db s)) (q, t) = Some e"
      by (auto simp: has_def)
    let ?s' = "db_update (qentries_update (tdel (q, t))) (set_queue_tail cached q (t + 1) s)"
    have run: "dequeue cached q s = (Inr (Some e), ?s')"
      using ht False e by (intro dequeue_run)
    have items: "queue_items q s = e # map (\<lambda>i. the (tget (qentries (db s)) (q, i))) [t + 1..<h]"
      using ht \<open>t < h\<close> e by (simp add: queue_items_def upt_conv_Cons)
    have ok: "queue_ok cached q ?s'"
      by (rule queue_okI [of _ _ h "t + 1"])
        (use ht(1-5) \<open>t < h\<close> in \<open>auto simp: entries queue_defs split: if_splits\<close>)
    have "queue_items q ?s' = map (\<lambda>i. the (tget (qentries (db s)) (q, i))) [t + 1..<h]"
      using ht by (auto simp: queue_items_def queue_defs)
    with items have "queue_items q ?s' = tl (queue_items q s)" by simp
    moreover have "same_but_queues s ?s'"
      by (simp add: same_but_queues_def without_queues_def queue_defs)
    ultimately show ?thesis using run ok items by simp
  qed
qed

interpretation promise_queue: fifo "queue_ok False q" "queue_items q" "enqueue False q" "dequeue False q"
  by unfold_locales (use enqueue_spec dequeue_spec in blast)+

section \<open>The run queue\<close>

definition run_item_of :: "queue_entry \<Rightarrow> run_item option" where
  "run_item_of e = (case e of QRun i \<Rightarrow> Some i | QMsg _ \<Rightarrow> None)"

text \<open>
  The run queue is sound when it is a sound stored queue of run queue items, and the cached
  length is unknown (negative) or right.
\<close>

definition run_queue_ok :: "ctx \<Rightarrow> bool" where
  "run_queue_ok s \<longleftrightarrow> queue_ok True ''run'' s \<and>
     list_all (\<lambda>e. run_item_of e \<noteq> None) (queue_items ''run'' s) \<and>
     (runQueueLengthCache s < 0 \<or> runQueueLengthCache s = int (length (queue_items ''run'' s)))"

definition run_queue_items :: "ctx \<Rightarrow> run_item list" where
  "run_queue_items s = List.map_filter run_item_of (queue_items ''run'' s)"

lemma getQueueLength_spec:
  "queue_ok cached q s \<Longrightarrow> getQueueLength q s = (Inr (int (length (queue_items q s))), s)"
  by (erule queue_okE) (simp add: getQueueLength_def queue_items_def)

lemma queue_ok_cache [simp]:
  "queue_ok cached q (s\<lparr>runQueueLengthCache := n\<rparr>) = queue_ok cached q s"
  "queue_items q (s\<lparr>runQueueLengthCache := n\<rparr>) = queue_items q s"
  by (simp_all add: queue_ok_def queue_items_def split: option.split)

lemma runQueueLength_spec:
  assumes "run_queue_ok s"
  shows "runQueueLength s =
    (Inr (int (length (queue_items ''run'' s))), s\<lparr>runQueueLengthCache := int (length (queue_items ''run'' s))\<rparr>)"
proof (cases "runQueueLengthCache s < 0")
  case True
  with assms show ?thesis
    by (auto simp: runQueueLength_def run_queue_ok_def sm_simps getQueueLength_spec)
next
  case False
  with assms show ?thesis by (auto simp: runQueueLength_def run_queue_ok_def)
qed

lemma same_but_queuesD:
  assumes "same_but_queues s s'"
  shows "runQueueLengthCache s' = runQueueLengthCache s"
proof -
  have "runQueueLengthCache (without_queues s') = runQueueLengthCache (without_queues s)"
    using assms by (simp add: same_but_queues_def)
  then show ?thesis by (simp add: without_queues_def)
qed

lemma run_queue_items_Cons:
  "run_queue_ok s \<Longrightarrow> queue_items ''run'' s = e # es \<Longrightarrow>
   \<exists>i. e = QRun i \<and> run_queue_items s = i # List.map_filter run_item_of es"
  by (auto simp: run_queue_ok_def run_queue_items_def run_item_of_def List.map_filter_simps
      split: queue_entry.splits)

lemma length_run_queue_items:
  "run_queue_ok s \<Longrightarrow> length (run_queue_items s) = length (queue_items ''run'' s)"
proof -
  have all: "list_all (\<lambda>e. run_item_of e \<noteq> None) es \<Longrightarrow> length (List.map_filter run_item_of es) = length es" for es
    by (induction es) (auto simp: List.map_filter_simps)
  show "run_queue_ok s \<Longrightarrow> length (run_queue_items s) = length (queue_items ''run'' s)"
    unfolding run_queue_ok_def run_queue_items_def by (blast intro: all)
qed

lemma enqueueRun_spec:
  assumes "run_queue_ok s"
  shows "\<exists>s'. enqueueRun i s = (Inr (), s') \<and> run_queue_ok s' \<and>
    run_queue_items s' = run_queue_items s @ [i]"
proof -
  let ?n = "int (length (queue_items ''run'' s))"
  let ?s = "s\<lparr>runQueueLengthCache := ?n\<rparr>"
  have len: "runQueueLength s = (Inr ?n, ?s)"
    using assms by (rule runQueueLength_spec)
  have "queue_ok True ''run'' ?s"
    using assms by (simp add: run_queue_ok_def)
  then obtain s1 where s1: "enqueue True ''run'' (QRun i) ?s = (Inr (), s1)" "queue_ok True ''run'' s1"
    "queue_items ''run'' s1 = queue_items ''run'' ?s @ [QRun i]" "same_but_queues ?s s1"
    using enqueue_spec by blast
  have cache: "runQueueLengthCache s1 = ?n"
    using same_but_queuesD [OF s1(4)] by simp
  have all: "list_all (\<lambda>e. run_item_of e \<noteq> None) (queue_items ''run'' s)"
    using assms by (simp add: run_queue_ok_def)
  have append: "list_all (\<lambda>e. run_item_of e \<noteq> None) es \<Longrightarrow>
      List.map_filter run_item_of (es @ [QRun i]) = List.map_filter run_item_of es @ [i]" for es
    by (induction es) (auto simp: List.map_filter_simps run_item_of_def)
  let ?s2 = "s1\<lparr>runQueueLengthCache := ?n + 1\<rparr>"
  have "enqueueRun i s = (Inr (), ?s2)"
    by (simp add: enqueueRun_def len s1(1) cache)
  moreover have "run_queue_ok ?s2"
    using s1(2,3) all by (simp add: run_queue_ok_def run_item_of_def)
  moreover have "run_queue_items ?s2 = run_queue_items s @ [i]"
    using s1(3) append [OF all] by (simp add: run_queue_items_def)
  ultimately show ?thesis by blast
qed

lemma dequeueRun_spec:
  assumes "run_queue_ok s"
  shows "\<exists>s'. dequeueRun s = (Inr (case run_queue_items s of [] \<Rightarrow> None | x # _ \<Rightarrow> Some x), s') \<and>
    run_queue_ok s' \<and> run_queue_items s' = tl (run_queue_items s)"
proof -
  let ?n = "int (length (queue_items ''run'' s))"
  let ?s = "s\<lparr>runQueueLengthCache := ?n - 1\<rparr>"
  have len: "runQueueLength s = (Inr ?n, s\<lparr>runQueueLengthCache := ?n\<rparr>)"
    using assms by (rule runQueueLength_spec)
  have "queue_ok True ''run'' ?s"
    using assms by (simp add: run_queue_ok_def)
  then obtain s1 where s1:
    "dequeue True ''run'' ?s = (Inr (case queue_items ''run'' ?s of [] \<Rightarrow> None | x # _ \<Rightarrow> Some x), s1)"
    "queue_ok True ''run'' s1" "queue_items ''run'' s1 = tl (queue_items ''run'' ?s)" "same_but_queues ?s s1"
    using dequeue_spec by blast
  have cache: "runQueueLengthCache s1 = ?n - 1"
    using same_but_queuesD [OF s1(4)] by simp
  show ?thesis
  proof (cases "queue_items ''run'' s")
    case Nil
    then have "dequeueRun s = (Inr None, s1)"
      using s1(1) by (simp add: dequeueRun_def len comp_def)
    moreover have "run_queue_ok s1" using s1 Nil cache by (simp add: run_queue_ok_def)
    ultimately show ?thesis
      using s1 Nil by (simp add: run_queue_items_def List.map_filter_simps)
  next
    case (Cons e es)
    with run_queue_items_Cons [OF assms] obtain i where i: "e = QRun i"
      "run_queue_items s = i # List.map_filter run_item_of es" by blast
    have "dequeueRun s = (Inr (Some i), s1)"
      using s1(1) Cons i by (simp add: dequeueRun_def len comp_def)
    moreover have "run_queue_ok s1"
      using s1 Cons cache assms by (simp add: run_queue_ok_def)
    ultimately show ?thesis
      using s1 Cons i by (simp add: run_queue_items_def)
  qed
qed

interpretation run_queue: fifo run_queue_ok run_queue_items enqueueRun dequeueRun
  by unfold_locales (use enqueueRun_spec dequeueRun_spec in blast)+

text \<open>Dequeue until the run queue is empty, at most \<open>n\<close> times.\<close>

primrec drainRun :: "nat \<Rightarrow> run_item list store" where
  "drainRun 0 = fail OutOfFuel"
| "drainRun (Suc n) =
     bnd dequeueRun (\<lambda>x. case x of None \<Rightarrow> ret [] | Some y \<Rightarrow> bnd (drainRun n) (\<lambda>ys. ret (y # ys)))"

lemma drainRun_eq: "drainRun n = run_queue.drain n"
  by (induction n) (simp_all cong: option.case_cong)

text \<open>
  C26. The run queue is a queue: from a sound store, enqueueing any items and then dequeueing
  until nothing is left gives back the items that were there and then the new ones, in order.
\<close>

theorem run_queue_fifo:
  assumes "run_queue_ok s" and "length (run_queue_items s) + length xs < n"
  shows "\<exists>s'. thn (forEach xs enqueueRun) (drainRun n) s =
    (Inr (run_queue_items s @ xs), s') \<and> run_queue_items s' = []"
  using assms unfolding drainRun_eq by (rule run_queue.enq_drain)

lemma run_queue_ok_empty: "run_queue_ok (makeKernelStore empty_kdb)"
  unfolding makeKernelStore_fresh
  by (simp add: run_queue_ok_def queue_items_def empty_kdb_def queue_ok_def)

lemma run_queue_items_empty: "run_queue_items (makeKernelStore empty_kdb) = []"
  unfolding makeKernelStore_fresh
  by (simp add: run_queue_items_def queue_items_def empty_kdb_def List.map_filter_simps)

theorem run_queue_fifo_witness:
  "\<exists>s'. thn (forEach [RestartVat ''v1'', BringOutYourDead ''v2''] enqueueRun) (drainRun 5)
      (makeKernelStore empty_kdb) =
    (Inr [RestartVat ''v1'', BringOutYourDead ''v2''], s') \<and> run_queue_items s' = []"
  using run_queue_fifo [OF run_queue_ok_empty,
      of "[RestartVat ''v1'', BringOutYourDead ''v2'']" 5] by (simp add: run_queue_items_empty)

end
