(* ===== verification/Counts.thy ===== *)
theory Counts
  imports StoreContext
begin

text \<open>
  Kernel objects (\<open>store/methods/object.ts\<close>) and reference counts
  (\<open>store/methods/refcount.ts\<close>). An object's row is \<open>reachable,recognizable\<close> in decimal, a
  promise's is one number; both are the text the code stores. The \<open>tag\<close> of the increments and
  decrements only reaches the log and an error's message and is left out.
\<close>

section \<open>Objects (object.ts)\<close>

definition setObjectRefCount :: "string \<Rightarrow> int \<times> int \<Rightarrow> unit store" where
  "setObjectRefCount kref counts =
     (case counts of (reachable, recognizable) \<Rightarrow>
        thn (require (reachable \<ge> 0 \<and> recognizable \<ge> 0)
               (Fail ''underflow'' [kref, int_text reachable, int_text recognizable]))
          (thn (require (reachable \<le> recognizable)
                 (Fail ''refMismatch(set)'' [kref, int_text reachable, int_text recognizable]))
            (kvWrite (refCounts_update
              (tput kref (int_text reachable @ '','' @ int_text recognizable))))))"

text \<open>
  A missing (or empty) row reads as \<open>(0, 0)\<close>; a missing second number as 0. A comparison with
  \<open>NaN\<close> is false, so a row that is not two numbers fails the check.
\<close>

definition getObjectRefCount :: "string \<Rightarrow> (int \<times> int) store" where
  "getObjectRefCount kref =
     bnd (gets (\<lambda>s. tget (refCounts (db s)) kref)) (\<lambda>data.
       case data of None \<Rightarrow> ret (0, 0)
       | Some text \<Rightarrow>
           if text = '''' then ret (0, 0)
           else
             let nums = map Number (split_at (CHR '','') text);
                 reachable = (if length nums > 0 then nums ! 0 else Some 0);
                 recognizable = (if length nums > 1 then nums ! 1 else Some 0)
             in case (reachable, recognizable) of
                  (Some r, Some c) \<Rightarrow>
                    thn (require (r \<le> c) (Fail ''refMismatch(get)'' [kref, text])) (ret (r, c))
                | _ \<Rightarrow> fail (Fail ''refMismatch(get)'' [kref, text]))"

definition getNextObjectId :: "string store" where
  "getNextObjectId =
     bnd (incCounter (\<lambda>s. nextObjectId (cache s))
            (\<lambda>n s. snd (cached_set (nextObjectId_update (\<lambda>_. Some n)) s)))
       (\<lambda>n. ret (makeKernelSlot SlotObject (nat_text n)))"

definition initKernelObject :: "string \<Rightarrow> string store" where
  "initKernelObject owner =
     bnd getNextObjectId (\<lambda>koId.
       thn (kvWrite (owners_update (tput koId owner)))
         (thn (setObjectRefCount koId (0, 0)) (ret koId)))"

definition getOwner :: "string \<Rightarrow> string option store" where
  "getOwner koId =
     bnd (gets (\<lambda>s. tget (owners (db s)) koId)) (\<lambda>raw.
       case raw of None \<Rightarrow> ret None
       | Some o' \<Rightarrow>
           if o' = ''kernel'' then ret raw
           else thn (lift (insistEndpointId o')) (ret raw))"

definition getRootObject :: "string \<Rightarrow> ctx \<Rightarrow> string option" where
  "getRootObject vatId s = tget (clists (db s)) (vatId, ROOT_OBJECT_VREF)"

definition isRootObject :: "string \<Rightarrow> string \<Rightarrow> ctx \<Rightarrow> bool" where
  "isRootObject kref vatId s \<longleftrightarrow> getRootObject vatId s = Some kref"

definition deleteKernelObject :: "string \<Rightarrow> unit store" where
  "deleteKernelObject koId =
     kvWrite (\<lambda>d. d\<lparr>owners := tdel koId (owners d), refCounts := tdel koId (refCounts d),
       revokeds := tdel koId (revokeds d)\<rparr>)"

section \<open>Reference counts (refcount.ts)\<close>

text \<open>\<open>Number(kv.get(key))\<close>: a missing row is \<open>NaN\<close>.\<close>

definition getRefCount :: "string \<Rightarrow> ctx \<Rightarrow> int option" where
  "getRefCount kref s = Option.bind (tget (refCounts (db s)) kref) Number"

definition kernelRefExists :: "string \<Rightarrow> ctx \<Rightarrow> bool" where
  "kernelRefExists kref s \<longleftrightarrow>
     (case tget (refCounts (db s)) kref of None \<Rightarrow> False | Some text \<Rightarrow> text \<noteq> '''')"

definition incRefCount :: "string \<Rightarrow> int option store" where
  "incRefCount kref =
     bnd (gets (\<lambda>s. map_option (\<lambda>n. n + 1) (getRefCount kref s))) (\<lambda>newCount.
       thn (kvWrite (refCounts_update (tput kref (number_text newCount)))) (ret newCount))"

definition decRefCount :: "string \<Rightarrow> int option store" where
  "decRefCount kref =
     bnd (gets (\<lambda>s. map_option (\<lambda>n. n - 1) (getRefCount kref s))) (\<lambda>newCount.
       thn (kvWrite (refCounts_update (tput kref (number_text newCount)))) (ret newCount))"

definition addMaybeFree :: "string \<Rightarrow> unit store" where
  "addMaybeFree kref = modify (maybeFreeKrefs_update (set_add kref))"

definition incrementRefCount :: "string \<Rightarrow> bool \<Rightarrow> bool \<Rightarrow> unit store" where
  "incrementRefCount kref isExport onlyRecognizable =
     thn (require (kref \<noteq> '''') (Fail ''incrementRefCount called with empty kref'' []))
       (bnd (lift (parseRef kref)) (\<lambda>p.
          if \<not> risPromise p \<and> isExport then ret ()
          else
            bnd (gets (kernelRefExists kref)) (\<lambda>ex.
              thn (require ex (Fail ''incrementRefCount on deleted kref'' [kref]))
                (if risPromise p then
                   bnd (gets (\<lambda>s. map_option (\<lambda>n. n + 1) (getRefCount kref s))) (\<lambda>refCount.
                     kvWrite (refCounts_update (tput kref (number_text refCount))))
                 else
                   bnd (getObjectRefCount kref) (\<lambda>(reachable, recognizable).
                     setObjectRefCount kref
                       (if onlyRecognizable then reachable else reachable + 1, recognizable + 1))))))"

definition decrementRefCount :: "string \<Rightarrow> bool \<Rightarrow> bool \<Rightarrow> bool store" where
  "decrementRefCount kref isExport onlyRecognizable =
     thn (require (kref \<noteq> '''') (Fail ''decrementRefCount called with empty kref'' []))
       (bnd (lift (parseRef kref)) (\<lambda>p.
          if risPromise p then
            bnd (gets (getRefCount kref)) (\<lambda>rc.
              case rc of None \<Rightarrow> fail (Fail ''refCount underflow'' [kref])
              | Some refCount \<Rightarrow>
                  thn (require (refCount > 0) (Fail ''refCount underflow'' [kref]))
                    (thn (kvWrite (refCounts_update (tput kref (int_text (refCount - 1)))))
                      (if refCount - 1 = 0 then thn (addMaybeFree kref) (ret True) else ret False)))
          else
            bnd (gets (kernelRefExists kref)) (\<lambda>ex.
              if isExport \<or> \<not> ex then ret False
              else
                bnd (getObjectRefCount kref) (\<lambda>(reachable, recognizable).
                  let reachable' = (if onlyRecognizable then reachable else reachable - 1);
                      recognizable' = recognizable - 1
                  in thn (whenM (reachable' = 0 \<or> recognizable' = 0) (addMaybeFree kref))
                       (thn (setObjectRefCount kref (reachable', recognizable')) (ret False))))))"

abbreviation increment :: "string \<Rightarrow> unit store" where
  "increment kref \<equiv> incrementRefCount kref False False"

abbreviation decrement :: "string \<Rightarrow> unit store" where
  "decrement kref \<equiv> thn (decrementRefCount kref False False) (ret ())"

section \<open>What a count row says\<close>

text \<open>The text of a row: as \<open>setObjectRefCount\<close> writes an object's and \<open>`${n}`\<close> a promise's.\<close>

definition count_text :: "string \<Rightarrow> nat \<Rightarrow> nat \<Rightarrow> string" where
  "count_text kref reach recog =
     (if isPromiseRef kref then nat_text reach else nat_text reach @ '','' @ nat_text recog)"

lemma int_text_nat [simp]: "int_text (int n) = nat_text n"
  by (simp add: int_text_def)

lemma nat_text_no_comma: "CHR '','' \<notin> set (nat_text n)"
  by (rule nat_text_no_char) (simp add: is_digit_def)

lemma Number_split_count [simp]:
  "map Number (split_at (CHR '','') (nat_text r @ CHR '','' # nat_text c)) = [Some (int r), Some (int c)]"
  by (simp add: split_at_append nat_text_no_comma split_at_none)

lemma count_text_inj:
  "count_text k r c = count_text k r' c' \<longleftrightarrow> r = r' \<and> (isPromiseRef k \<or> c = c')"
proof (cases "isPromiseRef k")
  case True
  then show ?thesis by (simp add: count_text_def)
next
  case False
  have "nat_text r @ CHR '','' # nat_text c = nat_text r' @ CHR '','' # nat_text c' \<Longrightarrow> r = r' \<and> c = c'"
    by (drule arg_cong [where f = "\<lambda>t. map Number (split_at (CHR '','') t)"]) simp
  with False show ?thesis by (auto simp: count_text_def)
qed

lemma count_text_nonempty [simp]: "count_text k r c \<noteq> []"
  by (simp add: count_text_def)

lemma getObjectRefCount_text:
  assumes "tget (refCounts (db s)) k = Some (count_text k r c)" and "\<not> isPromiseRef k" and "r \<le> c"
  shows "getObjectRefCount k s = (Inr (int r, int c), s)"
  using assms by (simp add: getObjectRefCount_def count_text_def Let_def)

lemma getObjectRefCount_none:
  "tget (refCounts (db s)) k = None \<Longrightarrow> getObjectRefCount k s = (Inr (0, 0), s)"
  by (simp add: getObjectRefCount_def)

lemma setObjectRefCount_text:
  assumes "\<not> isPromiseRef k" and "r \<le> c"
  shows "setObjectRefCount k (int r, int c) s = (Inr (), db_update (refCounts_update (tput k (count_text k r c))) s)"
  using assms by (simp add: setObjectRefCount_def count_text_def)

lemma getRefCount_text:
  "tget (refCounts (db s)) k = Some (count_text k n m) \<Longrightarrow> isPromiseRef k \<Longrightarrow> getRefCount k s = Some (int n)"
  by (simp add: getRefCount_def count_text_def)

lemma kernelRefExists_text:
  "tget (refCounts (db s)) k = Some (count_text k n m) \<Longrightarrow> kernelRefExists k s"
  by (simp add: kernelRefExists_def)

lemma kernelRefExists_none: "tget (refCounts (db s)) k = None \<Longrightarrow> \<not> kernelRefExists k s"
  by (simp add: kernelRefExists_def)

text \<open>The increments and decrements, on a row as the store writes it.\<close>

lemma isKRef_nonempty: "isKRef k \<Longrightarrow> k \<noteq> []"
  by auto

lemma incrementRefCount_promise:
  assumes "isKRef k" and "isPromiseRef k" and "tget (refCounts (db s)) k = Some (count_text k n m)"
  shows "incrementRefCount k x y s =
    (Inr (), db_update (refCounts_update (tput k (count_text k (n + 1) m'))) s)"
proof -
  have "number_text (Some (int n + 1)) = nat_text (n + 1)"
    using int_text_nat [of "n + 1"] by (simp add: number_text_def add.commute)
  with assms show ?thesis
    by (simp add: incrementRefCount_def parseRef_kref isKRef_nonempty kernelRefExists_text
        getRefCount_text count_text_def)
qed

lemma incrementRefCount_object:
  assumes "isKRef k" and "\<not> isPromiseRef k" and "tget (refCounts (db s)) k = Some (count_text k r c)"
    and "r \<le> c"
  shows "incrementRefCount k False onlyRec s =
    (Inr (), db_update (refCounts_update
      (tput k (count_text k (if onlyRec then r else r + 1) (c + 1)))) s)"
  using assms setObjectRefCount_text [of k r "c + 1" s] setObjectRefCount_text [of k "r + 1" "c + 1" s]
  by (simp add: incrementRefCount_def parseRef_kref isKRef_nonempty kernelRefExists_text
      getObjectRefCount_text add.commute)

lemma incrementRefCount_export:
  "isKRef k \<Longrightarrow> \<not> isPromiseRef k \<Longrightarrow> incrementRefCount k True onlyRec s = (Inr (), s)"
  by (simp add: incrementRefCount_def parseRef_kref isKRef_nonempty)

text \<open>Taking a reference to something the kernel has deleted is refused, and changes nothing.\<close>

lemma incrementRefCount_deleted:
  assumes "isKRef k" and "tget (refCounts (db s)) k = None" and "isPromiseRef k \<or> \<not> isExport"
  shows "incrementRefCount k isExport onlyRec s = (Inl (Fail ''incrementRefCount on deleted kref'' [k]), s)"
  using assms
  by (auto simp: incrementRefCount_def parseRef_kref isKRef_nonempty kernelRefExists_none)

lemma decrementRefCount_promise:
  assumes "isKRef k" and "isPromiseRef k" and "tget (refCounts (db s)) k = Some (count_text k (Suc n) m)"
  shows "decrementRefCount k x y s =
    (Inr (n = 0), (if n = 0 then maybeFreeKrefs_update (set_add k) else id)
      (db_update (refCounts_update (tput k (count_text k n m'))) s))"
  using assms getRefCount_text [OF assms(3,2)]
  by (simp add: decrementRefCount_def parseRef_kref isKRef_nonempty count_text_def addMaybeFree_def)

lemma decrementRefCount_object:
  assumes "isKRef k" and "\<not> isPromiseRef k"
    and "tget (refCounts (db s)) k = Some (count_text k r (Suc c))"
    and "r \<le> Suc c" and "if onlyRec then r \<le> c else 0 < r"
  shows "decrementRefCount k False onlyRec s =
    (let r' = (if onlyRec then r else r - 1) in
     (Inr False, (if r' = 0 \<or> c = 0 then maybeFreeKrefs_update (set_add k) else id)
      (db_update (refCounts_update (tput k (count_text k r' c))) s)))"
proof -
  define r' where "r' = (if onlyRec then r else r - 1)"
  have le: "r' \<le> c" and int: "(if onlyRec then int r else int r - 1) = int r'"
    using assms(4,5) by (auto simp: r'_def split: if_splits)
  have get: "getObjectRefCount k s = (Inr (int r, int (Suc c)), s)"
    using assms(2-4) by (intro getObjectRefCount_text)
  have c: "int (Suc c) - 1 = int c" by simp
  have set: "\<And>t. thn (setObjectRefCount k (int r', int c)) (ret False) t =
      (Inr False, db_update (refCounts_update (tput k (count_text k r' c))) t)"
    using setObjectRefCount_text [OF assms(2) le] by simp
  show ?thesis
    unfolding decrementRefCount_def Let_def r'_def [symmetric]
    using assms(1,2) kernelRefExists_text [OF assms(3)]
    by (cases "r' = 0 \<or> c = 0")
      (simp_all add: parseRef_kref isKRef_nonempty get int c addMaybeFree_def set del: of_nat_Suc)
qed

lemma decrementRefCount_gone:
  "isKRef k \<Longrightarrow> \<not> isPromiseRef k \<Longrightarrow> isExport \<or> tget (refCounts (db s)) k = None \<Longrightarrow>
   decrementRefCount k isExport onlyRec s = (Inr False, s)"
  by (auto simp: decrementRefCount_def parseRef_kref isKRef_nonempty kernelRefExists_none)

end
