(* ===== verification/Accounting.thy ===== *)
theory Accounting
  imports Counts "HOL-Library.Multiset"
begin

text \<open>
  What the reference counts are meant to be. Every unit of every count is owed to a reference
  the kernel holds somewhere in its own state: a c-list entry, a queued or buffered message or
  notification, a promise's resolution, the decision an unsettled promise is owed, a pin.
  \<open>credits\<close> is the multiset of all of them, each a kref and whether it only recognizes it.

  \<open>acct M s\<close> says the stored counts are exact: every row is the count of the references in
  \<open>s\<close> together with those in \<open>M\<close>, the references a running operation has in hand (charged
  but not yet stored anywhere, or taken out of the store and not yet released), and nothing
  refers to a deleted kref. With an empty hand it is what the audit of
  \<open>store/methods/refcount-audit.ts\<close> checks (theory \<open>RefAudit\<close>). Each operation is given a rule
  that moves references between the store and the hand.
\<close>

section \<open>The references a store holds\<close>

type_synonym unit_ref = "string \<times> bool"

definition gc_action_list :: "ctx \<Rightarrow> string list" where
  "gc_action_list s = (case gcActions (cache s) of None \<Rightarrow> [] | Some a \<Rightarrow> a)"

text \<open>An entry whose retirement is queued names an object already deleted and is not a holder.\<close>

definition retiring :: "string list \<Rightarrow> string \<Rightarrow> string \<Rightarrow> bool" where
  "retiring acts ep kref \<longleftrightarrow> ep @ '' retireImport '' @ kref \<in> set acts"

text \<open>The kref-keyed half of a c-list entry.\<close>

definition clist_credit :: "string list \<Rightarrow> string \<times> string \<Rightarrow> string \<Rightarrow> unit_ref multiset" where
  "clist_credit acts key text =
     (let ep = fst key; kref = snd key in
      if isEndpointId ep \<and> isKRef kref then
        (case parseReachableAndVatSlot text of Inl _ \<Rightarrow> {#}
         | Inr (isReachable, vatSlot) \<Rightarrow>
             (case parseRef vatSlot of Inl _ \<Rightarrow> {#}
              | Inr p \<Rightarrow>
                  if isPromiseRef kref then {#(kref, False)#}
                  else if rdirection p = Some Import \<and> \<not> retiring acts ep kref
                  then {#(kref, \<not> isReachable)#} else {#}))
      else {#})"

definition refs :: "string list \<Rightarrow> unit_ref multiset" where
  "refs ks = image_mset (\<lambda>k. (k, False)) (mset ks)"

definition message_refs :: "message \<Rightarrow> string list" where
  "message_refs m = (case result_ref (result m) of None \<Rightarrow> [] | Some r \<Rightarrow> [r]) @ slots (methargs m)"

fun item_refs :: "run_item \<Rightarrow> string list" where
  "item_refs (Send target m) = target # message_refs m"
| "item_refs (Notify ep kpid) = [kpid]"
| "item_refs _ = []"

definition queue_credit :: "string \<times> nat \<Rightarrow> queue_entry \<Rightarrow> unit_ref multiset" where
  "queue_credit key e =
     (if fst key = ''run'' then (case e of QRun i \<Rightarrow> refs (item_refs i) | QMsg _ \<Rightarrow> {#})
      else (case e of QMsg m \<Rightarrow> refs (fst key # message_refs m) | QRun _ \<Rightarrow> {#}))"

text \<open>A promise is owed its decision until it settles; then its value holds the slots.\<close>

definition value_slots :: "(string, capdata) tbl \<Rightarrow> string \<Rightarrow> string list" where
  "value_slots vs kpid = (case tget vs kpid of None \<Rightarrow> [] | Some v \<Rightarrow> slots v)"

definition promise_credit :: "(string, capdata) tbl \<Rightarrow> string \<Rightarrow> promise_state \<Rightarrow> unit_ref multiset" where
  "promise_credit vs kpid st =
     (if isKRef kpid \<and> isPromiseRef kpid then
        (if st = Unresolved then {#(kpid, False)#} else refs (value_slots vs kpid))
      else {#})"

definition pin_credit :: "string \<Rightarrow> nat \<Rightarrow> unit_ref multiset" where
  "pin_credit kref n = replicate_mset n (kref, False)"

definition buffer_credit :: "run_item list \<Rightarrow> unit_ref multiset" where
  "buffer_credit items = refs (concat (map item_refs items))"

definition credits :: "ctx \<Rightarrow> unit_ref multiset" where
  "credits s =
     tsum (clist_credit (gc_action_list s)) (clists (db s)) +
     tsum queue_credit (qentries (db s)) +
     tsum (promise_credit (pvalues (db s))) (pstates (db s)) +
     buffer_credit (crankBuffer s) +
     tsum pin_credit (pinned (db s))"

section \<open>Exact counts\<close>

definition reach :: "string \<Rightarrow> unit_ref multiset \<Rightarrow> nat" where
  "reach k M = (if isPromiseRef k then count M (k, False) + count M (k, True) else count M (k, False))"

definition recog :: "string \<Rightarrow> unit_ref multiset \<Rightarrow> nat" where
  "recog k M = count M (k, False) + count M (k, True)"

definition row_exact :: "unit_ref multiset \<Rightarrow> ctx \<Rightarrow> string \<Rightarrow> bool" where
  "row_exact M s k \<longleftrightarrow>
     (if has (refCounts (db s)) k
      then isKRef k \<and> tget (refCounts (db s)) k = Some (count_text k (reach k M) (recog k M))
      else recog k M = 0)"

definition exact :: "unit_ref multiset \<Rightarrow> ctx \<Rightarrow> bool" where
  "exact C s \<longleftrightarrow> (\<forall>k. row_exact C s k)"

definition acct :: "unit_ref multiset \<Rightarrow> ctx \<Rightarrow> bool" where
  "acct M s \<longleftrightarrow> exact (credits s + M) s"

definition live :: "string \<Rightarrow> ctx \<Rightarrow> bool" where
  "live k s \<longleftrightarrow> has (refCounts (db s)) k"

lemma reach_plus [simp]: "reach k (M + N) = reach k M + reach k N"
  by (simp add: reach_def)

lemma recog_plus [simp]: "recog k (M + N) = recog k M + recog k N"
  by (simp add: recog_def)

lemma reach_empty [simp]: "reach k {#} = 0"
  by (simp add: reach_def)

lemma recog_empty [simp]: "recog k {#} = 0"
  by (simp add: recog_def)

lemma reach_add_mset [simp]:
  "reach k (add_mset (j, w) M) = (if j = k \<and> (isPromiseRef k \<or> \<not> w) then 1 else 0) + reach k M"
  by (auto simp: reach_def)

lemma recog_add_mset [simp]: "recog k (add_mset (j, w) M) = (if j = k then 1 else 0) + recog k M"
  by (cases w) (auto simp: recog_def)

lemma reach_le_recog: "reach k M \<le> recog k M"
  by (simp add: reach_def recog_def)

lemma refs_Nil [simp]: "refs [] = {#}"
  by (simp add: refs_def)

lemma refs_Cons [simp]: "refs (k # ks) = add_mset (k, False) (refs ks)"
  by (simp add: refs_def)

lemma refs_append [simp]: "refs (ks @ js) = refs ks + refs js"
  by (simp add: refs_def)

lemma count_text_reach [simp]:
  "isPromiseRef k \<Longrightarrow> count_text k r c = count_text k r c' \<longleftrightarrow> True"
  by (simp add: count_text_def)

text \<open>
  Only what a row's kref is counted matters: two hands that count every kref alike are
  interchangeable. For a promise, a reference that only recognizes is a full one.
\<close>

definition same_refs :: "unit_ref multiset \<Rightarrow> unit_ref multiset \<Rightarrow> bool" where
  "same_refs M N \<longleftrightarrow> (\<forall>k. reach k M = reach k N \<and> recog k M = recog k N)"

lemma exact_same_refs: "same_refs M N \<Longrightarrow> exact M s = exact N s"
  by (simp add: exact_def row_exact_def same_refs_def)

lemma same_refs_plus: "same_refs M N \<Longrightarrow> same_refs (C + M) (C + N)"
  by (simp add: same_refs_def)

lemma acct_same_refs: "same_refs M N \<Longrightarrow> acct M s = acct N s"
  unfolding acct_def by (rule exact_same_refs [OF same_refs_plus])

lemma exact_row:
  assumes "exact C s" and "live k s"
  shows "isKRef k \<and> tget (refCounts (db s)) k = Some (count_text k (reach k C) (recog k C))"
  using assms by (auto simp: exact_def row_exact_def live_def dest: spec [of _ k])

lemma exact_in_hand:
  assumes "exact (add_mset (k, w) C) s"
  shows "live k s"
  using assms by (auto simp: exact_def row_exact_def live_def split: if_splits dest!: spec [of _ k])

lemma exact_gone:
  assumes "exact C s" and "\<not> live k s"
  shows "recog k C = 0"
  using assms by (auto simp: exact_def row_exact_def live_def split: if_splits dest!: spec [of _ k])

lemma acct_row:
  "acct M s \<Longrightarrow> live k s \<Longrightarrow> isKRef k \<and> tget (refCounts (db s)) k =
    Some (count_text k (reach k (credits s + M)) (recog k (credits s + M)))"
  unfolding acct_def by (rule exact_row)

lemma acct_in_hand: "acct (add_mset (k, w) M) s \<Longrightarrow> live k s"
  by (rule exact_in_hand [of k w "credits s + M"]) (simp add: acct_def)

lemma acct_gone: "acct M s \<Longrightarrow> \<not> live k s \<Longrightarrow> recog k (credits s + M) = 0"
  unfolding acct_def by (rule exact_gone)

section \<open>What reads only the counts\<close>

lemma credits_counts [simp]:
  "credits (db_update (refCounts_update f) s) = credits s"
  "credits (maybeFreeKrefs_update g s) = credits s"
  by (simp_all add: credits_def gc_action_list_def)

lemma exact_maybeFree [simp]: "exact M (maybeFreeKrefs_update g s) = exact M s"
  by (simp add: exact_def row_exact_def)

lemma acct_maybeFree [simp]: "acct M (maybeFreeKrefs_update g s) = acct M s"
  by (simp add: acct_def)

lemma live_maybeFree [simp]: "live k (maybeFreeKrefs_update g s) = live k s"
  by (simp add: live_def)

text \<open>Exactness looks at the count rows alone.\<close>

lemma exact_cong: "refCounts (db s) = refCounts (db s') \<Longrightarrow> exact C s = exact C s'"
  by (simp add: exact_def row_exact_def)

text \<open>Rewriting one row to the count of other references.\<close>

lemma exact_set_row:
  assumes "exact C s" and "isKRef k"
    and "\<And>j. j \<noteq> k \<Longrightarrow> reach j C = reach j D \<and> recog j C = recog j D"
    and "r = reach k D" and "isPromiseRef k \<or> c = recog k D"
  shows "exact D (db_update (refCounts_update (tput k (count_text k r c))) s)"
  unfolding exact_def
proof
  fix j
  show "row_exact D (db_update (refCounts_update (tput k (count_text k r c))) s) j"
  proof (cases "j = k")
    case True
    have "count_text k r c = count_text k (reach k D) (recog k D)"
      using assms(4,5) by (simp add: count_text_inj)
    then show ?thesis using True assms(2) by (simp add: row_exact_def)
  next
    case False
    have "row_exact C s j" using assms(1) by (simp add: exact_def)
    with assms(3) [OF False] False show ?thesis
      by (auto simp: row_exact_def split: if_splits)
  qed
qed

section \<open>Rules for the increments and decrements\<close>

text \<open>Taking a reference: charged, and in hand. A deleted target is refused.\<close>

lemma incrementRefCount_exact:
  assumes k: "isKRef k" and ex: "isPromiseRef k \<or> \<not> isExport"
  shows "hoare (exact C) (incrementRefCount k isExport w)
    (\<lambda>_ s. exact (add_mset (k, w) C) s \<and> live k s) (\<lambda>e s. exact C s \<and> \<not> live k s)"
proof (rule hoareI)
  fix s x s' assume a: "exact C s" and run: "incrementRefCount k isExport w s = (Inr x, s')"
  show "exact (add_mset (k, w) C) s' \<and> live k s'"
  proof (cases "live k s")
    case False
    then have "tget (refCounts (db s)) k = None" by (simp add: live_def has_def)
    with incrementRefCount_deleted [OF k this] ex run show ?thesis by simp
  next
    case True
    note row = exact_row [OF a True, THEN conjunct2]
    show ?thesis
    proof (cases "isPromiseRef k")
      case True
      then have "s' = db_update (refCounts_update (tput k (count_text k (reach k C + 1) (recog k C)))) s"
        using run incrementRefCount_promise [OF k True row, of isExport w "recog k C"] by simp
      moreover have "exact (add_mset (k, w) C)
          (db_update (refCounts_update (tput k (count_text k (reach k C + 1) (recog k C)))) s)"
        using a k True by (intro exact_set_row [where C = C]) auto
      ultimately show ?thesis by (simp add: live_def)
    next
      case False
      then have "s' = db_update (refCounts_update
          (tput k (count_text k (if w then reach k C else reach k C + 1) (recog k C + 1)))) s"
        using run ex incrementRefCount_object [OF k False row reach_le_recog, of w] by simp
      moreover have "exact (add_mset (k, w) C) (db_update (refCounts_update
          (tput k (count_text k (if w then reach k C else reach k C + 1) (recog k C + 1)))) s)"
        using a k False by (intro exact_set_row [where C = C]) auto
      ultimately show ?thesis by (simp add: live_def)
    qed
  qed
next
  fix s e s' assume a: "exact C s" and run: "incrementRefCount k isExport w s = (Inl e, s')"
  show "exact C s' \<and> \<not> live k s'"
  proof (cases "live k s")
    case False
    then have "tget (refCounts (db s)) k = None" by (simp add: live_def has_def)
    with incrementRefCount_deleted [OF k this] ex run a False show ?thesis by simp
  next
    case True
    note row = exact_row [OF a True, THEN conjunct2]
    show ?thesis
    proof (cases "isPromiseRef k")
      case True
      from run incrementRefCount_promise [OF k True row, of isExport w 0] show ?thesis by simp
    next
      case False
      with run ex incrementRefCount_object [OF k False row reach_le_recog, of w] show ?thesis by simp
    qed
  qed
qed

lemma incrementRefCount_live:
  assumes "isKRef k" and "isPromiseRef k \<or> \<not> isExport" and "exact C s" and "live k s"
  obtains s' where "incrementRefCount k isExport w s = (Inr (), s')" and "exact (add_mset (k, w) C) s'"
    and "live k s'"
proof -
  note row = exact_row [OF assms(3,4), THEN conjunct2]
  have "\<exists>s'. incrementRefCount k isExport w s = (Inr (), s')"
    using assms(2) incrementRefCount_promise [OF assms(1) _ row, of isExport w 0]
      incrementRefCount_object [OF assms(1) _ row reach_le_recog, of w]
    by (cases "isPromiseRef k") simp_all
  then show ?thesis
    using that hoareD [OF incrementRefCount_exact [OF assms(1,2)] assms(3)] by blast
qed

text \<open>Releasing a reference in hand never fails, and nothing else changes.\<close>

lemma decrementRefCount_exact:
  assumes ex: "isPromiseRef k \<or> \<not> isExport"
  shows "total (exact (add_mset (k, w) C)) (decrementRefCount k isExport w) (\<lambda>_. exact C)"
  unfolding hoare_def
proof (intro allI impI)
  fix s assume a: "exact (add_mset (k, w) C) s"
  have lv: "live k s" using a by (rule exact_in_hand)
  have k: "isKRef k" using exact_row [OF a lv] by simp
  have row: "tget (refCounts (db s)) k =
      Some (count_text k ((if isPromiseRef k \<or> \<not> w then 1 else 0) + reach k C) (Suc (recog k C)))"
    using exact_row [OF a lv] by simp
  have new: "exact C (db_update (refCounts_update (tput k (count_text k (reach k C) (recog k C)))) s)"
    using a k by (intro exact_set_row [where C = "add_mset (k, w) C"]) auto
  show "case decrementRefCount k isExport w s of (Inr x, s') \<Rightarrow> exact C s' | (Inl e, s') \<Rightarrow> False"
  proof (cases "isPromiseRef k")
    case True
    then show ?thesis
      using decrementRefCount_promise [OF k True, of s "reach k C" "Suc (recog k C)" isExport w "recog k C"]
        row new by auto
  next
    case False
    moreover have "decrementRefCount k isExport w s = decrementRefCount k False w s"
      using ex False by simp
    ultimately show ?thesis
      using decrementRefCount_object [OF k False, of s "(if \<not> w then 1 else 0) + reach k C" "recog k C" w]
        row new reach_le_recog [of k C] by (auto simp: Let_def split: if_splits)
  qed
qed

section \<open>What the counting operations leave alone\<close>

definition without_counts :: "ctx \<Rightarrow> ctx" where
  "without_counts s = s\<lparr>db := (db s)\<lparr>refCounts := tempty\<rparr>, maybeFreeKrefs := []\<rparr>"

definition same_but_counts :: "ctx \<Rightarrow> ctx \<Rightarrow> bool" where
  "same_but_counts s s' \<longleftrightarrow> without_counts s' = without_counts s"

lemma same_but_counts_refl [simp]: "same_but_counts s s"
  by (simp add: same_but_counts_def)

lemma same_but_counts_trans [trans]:
  "same_but_counts s t \<Longrightarrow> same_but_counts t u \<Longrightarrow> same_but_counts s u"
  by (simp add: same_but_counts_def)

lemma same_but_counts_write [simp]:
  "same_but_counts s (db_update (refCounts_update f) t) = same_but_counts s t"
  "same_but_counts s (maybeFreeKrefs_update g t) = same_but_counts s t"
  by (simp_all add: same_but_counts_def without_counts_def)

text \<open>Anything that does not look at the counts is the same.\<close>

lemma same_but_countsD:
  assumes "same_but_counts s s'" and "\<And>t. P (without_counts t) = P t"
  shows "P s' = P s"
  using assms unfolding same_but_counts_def by metis

lemma same_but_counts_credits: "same_but_counts s s' \<Longrightarrow> credits s' = credits s"
  by (rule same_but_countsD) (auto simp: without_counts_def credits_def gc_action_list_def)

lemma same_but_counts_clists: "same_but_counts s s' \<Longrightarrow> clists (db s') = clists (db s)"
  by (rule same_but_countsD) (auto simp: without_counts_def)

lemma same_but_counts_gc_actions: "same_but_counts s s' \<Longrightarrow> gc_action_list s' = gc_action_list s"
  by (rule same_but_countsD) (auto simp: without_counts_def gc_action_list_def)

lemma same_but_counts_db:
  assumes "same_but_counts s s'" and "\<And>d. f (d\<lparr>refCounts := tempty\<rparr>) = (f d)\<lparr>refCounts := tempty\<rparr>"
  shows "same_but_counts (db_update f s) (db_update f s')"
proof -
  have "without_counts (db_update f t) = db_update f (without_counts t)" for t
    by (simp add: without_counts_def assms(2))
  with assms(1) show ?thesis by (simp add: same_but_counts_def)
qed

lemma without_counts_clists_update:
  "without_counts (db_update (clists_update f) s) = db_update (clists_update f) (without_counts s)"
  by (simp add: without_counts_def)

lemma same_but_counts_clists_update:
  "same_but_counts s s' \<Longrightarrow>
    same_but_counts (db_update (clists_update f) s) (db_update (clists_update f) s')"
  by (simp add: same_but_counts_def without_counts_clists_update)

text \<open>An operation that changes nothing but counts and collection candidates.\<close>

definition counts_only :: "'a store \<Rightarrow> bool" where
  "counts_only m \<longleftrightarrow> (\<forall>s. same_but_counts s (snd (m s)))"

lemma counts_onlyD: "counts_only m \<Longrightarrow> m s = (r, s') \<Longrightarrow> same_but_counts s s'"
  unfolding counts_only_def by (metis snd_conv)

lemma counts_only_reads [simp]:
  "counts_only (ret x)" "counts_only (fail e)" "counts_only (gets f)" "counts_only (lift r)"
  "counts_only (require b e)" "counts_only (kvWrite (refCounts_update g))" "counts_only (addMaybeFree k)"
  by (simp_all add: counts_only_def addMaybeFree_def)

lemma counts_only_bnd:
  assumes "counts_only m" and "\<And>x. counts_only (f x)"
  shows "counts_only (bnd m f)"
  unfolding counts_only_def
proof
  fix s
  obtain r t where r: "m s = (r, t)" by fastforce
  have "same_but_counts s t" using assms(1) r by (rule counts_onlyD)
  with r assms(2) show "same_but_counts s (snd (bnd m f s))"
    by (cases r) (auto simp: bnd_def counts_only_def intro: same_but_counts_trans)
qed

lemma counts_only_thn: "counts_only m \<Longrightarrow> counts_only n \<Longrightarrow> counts_only (thn m n)"
  unfolding thn_def by (rule counts_only_bnd)

lemma counts_only_whenM: "counts_only m \<Longrightarrow> counts_only (whenM b m)"
  by (simp add: whenM_def)

lemma counts_only_forEach: "(\<And>x. counts_only (f x)) \<Longrightarrow> counts_only (forEach xs f)"
  by (induction xs) (auto intro: counts_only_thn)

lemma counts_only_getObjectRefCount [simp]: "counts_only (getObjectRefCount k)"
  by (auto simp: getObjectRefCount_def Let_def intro!: counts_only_bnd counts_only_thn split: option.split)

lemma counts_only_setObjectRefCount [simp]: "counts_only (setObjectRefCount k c)"
  by (auto simp: setObjectRefCount_def intro!: counts_only_thn split: prod.split)

lemma counts_only_increment [simp]: "counts_only (incrementRefCount k x w)"
  by (auto simp: incrementRefCount_def intro!: counts_only_bnd counts_only_thn split: prod.split)

lemma counts_only_decrement [simp]: "counts_only (decrementRefCount k x w)"
  by (auto simp: decrementRefCount_def Let_def
      intro!: counts_only_bnd counts_only_thn counts_only_whenM split: prod.split option.split)

text \<open>So a rule on exactness is a rule on the accounts of the store.\<close>

lemma acct_from_exact:
  assumes "counts_only m"
    and "\<And>C. hoare (exact (M + C)) m (\<lambda>x s. exact (N x + C) s \<and> Q x s) (\<lambda>e s. exact (L e + C) s \<and> R e s)"
  shows "hoare (acct M) m (\<lambda>x s. acct (N x) s \<and> Q x s) (\<lambda>e s. acct (L e) s \<and> R e s)"
proof (rule hoareI)
  fix s x s' assume "acct M s" and run: "m s = (Inr x, s')"
  then have "exact (N x + credits s) s' \<and> Q x s'"
    using assms(2) [of "credits s"] by (auto simp: acct_def add.commute dest: hoareD)
  with same_but_counts_credits [OF counts_onlyD [OF assms(1) run]] show "acct (N x) s' \<and> Q x s'"
    by (simp add: acct_def add.commute)
next
  fix s e s' assume "acct M s" and run: "m s = (Inl e, s')"
  then have "exact (L e + credits s) s' \<and> R e s'"
    using assms(2) [of "credits s"] by (auto simp: acct_def add.commute dest: hoareD_err)
  with same_but_counts_credits [OF counts_onlyD [OF assms(1) run]] show "acct (L e) s' \<and> R e s'"
    by (simp add: acct_def add.commute)
qed

lemma incrementRefCount_acct:
  assumes "isKRef k" and "isPromiseRef k \<or> \<not> isExport"
  shows "hoare (acct M) (incrementRefCount k isExport w)
    (\<lambda>_ s. acct (add_mset (k, w) M) s \<and> live k s) (\<lambda>e s. acct M s \<and> \<not> live k s)"
  using incrementRefCount_exact [OF assms] by (intro acct_from_exact) simp_all

lemma decrementRefCount_acct:
  assumes "isPromiseRef k \<or> \<not> isExport"
  shows "total (acct (add_mset (k, w) M)) (decrementRefCount k isExport w) (\<lambda>_. acct M)"
proof -
  have "hoare (acct (add_mset (k, w) M)) (decrementRefCount k isExport w)
    (\<lambda>_ s. acct M s \<and> True) (\<lambda>_ s. acct {#} s \<and> False)"
    using decrementRefCount_exact [OF assms, of w] by (intro acct_from_exact) simp_all
  then show ?thesis by simp
qed

lemma decrement_acct: "total (acct (add_mset (k, False) M)) (decrement k) (\<lambda>_. acct M)"
  by (rule hoare_thn [OF decrementRefCount_acct]) (auto intro: hoare_ret)

lemma increment_acct:
  assumes "isKRef k"
  shows "hoare (acct M) (increment k) (\<lambda>_. acct (add_mset (k, False) M)) (\<lambda>_. acct M)"
  by (rule hoare_conseq [OF incrementRefCount_acct [OF assms]]) auto

text \<open>A loop of decrements releases the references it names.\<close>

lemma forEach_decrement_acct:
  "total (acct (refs ks + M)) (forEach ks decrement) (\<lambda>_. acct M)"
proof -
  have "total (acct (refs ks + M)) (forEach ks decrement) (\<lambda>_. acct (refs [] + M))"
    by (rule hoare_forEach_list) (simp add: decrement_acct del: ret_run)
  then show ?thesis by simp
qed

section \<open>New objects\<close>

definition object_slot :: "nat \<Rightarrow> string" where
  "object_slot n = makeKernelSlot SlotObject (nat_text n)"

definition promise_slot :: "nat \<Rightarrow> string" where
  "promise_slot n = makeKernelSlot SlotPromise (nat_text n)"

text \<open>The counters are ahead of every id in use.\<close>

definition ids_fresh :: "ctx \<Rightarrow> bool" where
  "ids_fresh s \<longleftrightarrow>
     (\<exists>n. nextObjectId (cache s) = Some n \<and> (\<forall>m\<ge>n. \<not> live (object_slot m) s)) \<and>
     (\<exists>n. nextPromiseId (cache s) = Some n \<and> (\<forall>m\<ge>n. \<not> live (promise_slot m) s))"

lemma slot_kref [simp]: "isKRef (object_slot n)" "isKRef (promise_slot n)"
  by (simp_all add: object_slot_def promise_slot_def del: isKRef.simps makeKernelSlot.simps)

lemma slot_promise [simp]: "\<not> isPromiseRef (object_slot n)" "isPromiseRef (promise_slot n)"
  by (simp_all add: object_slot_def promise_slot_def del: makeKernelSlot.simps)

lemma slot_inj [simp]:
  "object_slot m = object_slot n \<longleftrightarrow> m = n" "promise_slot m = promise_slot n \<longleftrightarrow> m = n"
  "object_slot m \<noteq> promise_slot n" "promise_slot m \<noteq> object_slot n"
  by (simp_all add: object_slot_def promise_slot_def del: makeKernelSlot.simps)

lemma initKernelObject_run:
  assumes a: "acct M s" and f: "ids_fresh s"
  shows "\<exists>n s'. nextObjectId (cache s) = Some n \<and> initKernelObject owner s = (Inr (object_slot n), s') \<and>
    acct M s' \<and> ids_fresh s' \<and> live (object_slot n) s' \<and> \<not> live (object_slot n) s \<and>
    s' = s\<lparr>cache := (cache s)\<lparr>nextObjectId := Some (n + 1)\<rparr>,
           db := (db s)\<lparr>cachedRows := (cachedRows (db s))\<lparr>nextObjectId := Some (n + 1)\<rparr>,
             owners := tput (object_slot n) owner (owners (db s)),
             refCounts := tput (object_slot n) (count_text (object_slot n) 0 0) (refCounts (db s))\<rparr>\<rparr>"
proof -
  obtain n where n: "nextObjectId (cache s) = Some n" and fr: "\<And>m. n \<le> m \<Longrightarrow> \<not> live (object_slot m) s"
    using f by (auto simp: ids_fresh_def)
  let ?s = "s\<lparr>cache := (cache s)\<lparr>nextObjectId := Some (n + 1)\<rparr>,
           db := (db s)\<lparr>cachedRows := (cachedRows (db s))\<lparr>nextObjectId := Some (n + 1)\<rparr>,
             owners := tput (object_slot n) owner (owners (db s)),
             refCounts := tput (object_slot n) (count_text (object_slot n) 0 0) (refCounts (db s))\<rparr>\<rparr>"
  have run: "initKernelObject owner s = (Inr (object_slot n), ?s)"
    using n setObjectRefCount_text [of "object_slot n" 0 0]
    by (simp add: initKernelObject_def getNextObjectId_def incCounter_def object_slot_def [symmetric]
        bnd_run thn_run del: makeKernelSlot.simps)
  have cr: "credits ?s = credits s" by (simp add: credits_def gc_action_list_def)
  have "row_exact (credits s + M) ?s j" for j
  proof (cases "j = object_slot n")
    case True
    have "recog j (credits s + M) = 0" using acct_gone [OF a] fr [of n] True by simp
    then show ?thesis using True reach_le_recog [of j "credits s + M"]
      by (auto simp: row_exact_def)
  next
    case False
    have "row_exact (credits s + M) s j" using a by (simp add: acct_def exact_def)
    with False show ?thesis by (auto simp: row_exact_def split: if_splits)
  qed
  then have "acct M ?s" unfolding acct_def exact_def cr by blast
  moreover have "ids_fresh ?s" using f n fr by (auto simp: ids_fresh_def live_def)
  moreover have "live (object_slot n) ?s" by (simp add: live_def)
  ultimately show ?thesis using n run fr [of n] by blast
qed

section \<open>A new store\<close>

lemma fresh_store_acct: "acct {#} (makeKernelStore empty_kdb)"
  unfolding makeKernelStore_fresh
  by (simp add: acct_def exact_def row_exact_def credits_def buffer_credit_def empty_kdb_def)

lemma fresh_store_ids: "ids_fresh (makeKernelStore empty_kdb)"
  unfolding makeKernelStore_fresh
  by (simp add: ids_fresh_def live_def empty_kdb_def init_cached_rows_def init_row_def)

lemma fresh_store_gc [simp]: "gc_action_list (makeKernelStore empty_kdb) = []"
  unfolding makeKernelStore_fresh
  by (simp add: gc_action_list_def empty_kdb_def init_cached_rows_def init_row_def)

end
