(* ===== verification/CList.thy ===== *)
theory CList
  imports Accounting
begin

text \<open>
  C-lists: \<open>store/methods/clist.ts\<close> and the reachable flag of their entries,
  \<open>store/methods/reachable.ts\<close>. An entry is two rows, \<open>kref \<mapsto> flag eref\<close> and
  \<open>eref \<mapsto> kref\<close>, in one table keyed by endpoint and slot. \<open>clist_wf\<close> says the two halves are
  inverse; the rules here say that each operation keeps it, keeps the counts exact, and changes
  no other entry.
\<close>

section \<open>The reachable flag (reachable.ts)\<close>

definition getReachableAndVatSlot :: "string \<Rightarrow> string \<Rightarrow> (bool \<times> string) store" where
  "getReachableAndVatSlot ep kref =
     bnd (getRequired [ep, ''c'', kref] (\<lambda>d. tget (clists d) (ep, kref)))
       (\<lambda>data. lift (parseReachableAndVatSlot data))"

definition getReachableFlag :: "string \<Rightarrow> string \<Rightarrow> bool store" where
  "getReachableFlag ep kref =
     bnd (getRequired [ep, ''c'', kref] (\<lambda>d. tget (clists d) (ep, kref)))
       (\<lambda>data. bnd (lift (parseReachableAndVatSlot data)) (\<lambda>(isReachable, _). ret isReachable))"

definition setReachableFlag :: "string \<Rightarrow> string \<Rightarrow> unit store" where
  "setReachableFlag ep kref =
     bnd (getReachableAndVatSlot ep kref) (\<lambda>(isReachable, vatSlot).
       if isReachable then ret ()
       else
         thn (kvWrite (clists_update (tput (ep, kref) (buildReachableAndVatSlot True vatSlot))))
           (bnd (lift (parseRef vatSlot)) (\<lambda>p.
              bnd (gets (kernelRefExists kref)) (\<lambda>ex.
                whenM (\<not> risPromise p \<and> rdirection p = Some Import \<and> ex)
                  (bnd (getObjectRefCount kref) (\<lambda>(reachable, recognizable).
                     setObjectRefCount kref (reachable + 1, recognizable)))))))"

definition clearReachableFlag :: "string \<Rightarrow> string \<Rightarrow> unit store" where
  "clearReachableFlag ep kref =
     bnd (getReachableAndVatSlot ep kref) (\<lambda>(isReachable, vatSlot).
       thn (kvWrite (clists_update (tput (ep, kref) (buildReachableAndVatSlot False vatSlot))))
         (bnd (lift (parseRef vatSlot)) (\<lambda>p.
            bnd (gets (kernelRefExists kref)) (\<lambda>ex.
              whenM (isReachable \<and> \<not> risPromise p \<and> rdirection p = Some Import \<and> ex)
                (bnd (getObjectRefCount kref) (\<lambda>(reachable, recognizable).
                   thn (setObjectRefCount kref (reachable - 1, recognizable))
                     (whenM (reachable - 1 = 0) (addMaybeFree kref))))))))"

section \<open>Entries (clist.ts)\<close>

definition addCListEntry :: "string \<Rightarrow> string \<Rightarrow> string \<Rightarrow> unit store" where
  "addCListEntry ep kref eref =
     bnd (lift (parseRef eref)) (\<lambda>p.
       let isExport = (rdirection p = Some Export) in
       thn (kvWrite (clists_update (tput (ep, kref) (buildReachableAndVatSlot isExport eref))))
         (thn (kvWrite (clists_update (tput (ep, eref) kref)))
           (incrementRefCount kref isExport True)))"

definition hasCListEntry :: "string \<Rightarrow> string \<Rightarrow> ctx \<Rightarrow> bool" where
  "hasCListEntry ep slot s \<longleftrightarrow> has (clists (db s)) (ep, slot)"

definition deleteCListEntry :: "string \<Rightarrow> string \<Rightarrow> string \<Rightarrow> unit store" where
  "deleteCListEntry ep kref eref =
     bnd (gets (\<lambda>s. tget (clists (db s)) (ep, kref))) (\<lambda>row.
       thn (require (row \<noteq> None \<and> row \<noteq> Some '''') (AssertErr ''no c-list entry''))
         (thn (clearReachableFlag ep kref)
           (bnd (lift (parseRef eref)) (\<lambda>p.
              thn (thn (decrementRefCount kref (rdirection p = Some Export) True) (ret ()))
                (thn (kvWrite (clists_update (tdel (ep, kref))))
                  (kvWrite (clists_update (tdel (ep, eref)))))))))"

text \<open>
  \<open>allocateErefForKref\<close>: the endpoint's next index, without a tag for a vat and with the first
  letter of its id otherwise. An endpoint \<open>initEndpoint\<close> has not given counters would get the
  text \<open>undefined\<close> for an index; the model makes that an error.
\<close>

definition eref_tag :: "string \<Rightarrow> string" where
  "eref_tag ep = (if starts_with ''v'' ep then '''' else take 1 ep)"

definition allocateErefForKref :: "string \<Rightarrow> string \<Rightarrow> string store" where
  "allocateErefForKref ep kref =
     (let alloc = (\<lambda>refType n. ret (eref_tag ep @ refType @ ''-'' @ nat_text n));
          missing = JsError ''endpoint has no counters'' [ep] in
      bnd (if isPromiseRef kref
           then bnd (bnd (gets (\<lambda>s. tget (nextPromiseIds (db s)) ep)) (ofOption missing)) (\<lambda>n.
             thn (kvWrite (nextPromiseIds_update (tput ep (n + 1)))) (alloc ''p'' n))
           else bnd (bnd (gets (\<lambda>s. tget (nextObjectIds (db s)) ep)) (ofOption missing)) (\<lambda>n.
             thn (kvWrite (nextObjectIds_update (tput ep (n + 1)))) (alloc ''o'' n)))
        (\<lambda>eref. thn (addCListEntry ep kref eref) (ret eref)))"

definition erefToKref :: "string \<Rightarrow> string \<Rightarrow> string option store" where
  "erefToKref ep eref = gets (\<lambda>s. tget (clists (db s)) (ep, eref))"

definition krefToEref :: "string \<Rightarrow> string \<Rightarrow> string option store" where
  "krefToEref ep kref =
     bnd (gets (\<lambda>s. tget (clists (db s)) (ep, kref))) (\<lambda>data.
       case data of None \<Rightarrow> ret None
       | Some text \<Rightarrow>
           if text = '''' then ret None
           else bnd (lift (parseReachableAndVatSlot text)) (\<lambda>(_, vatSlot). ret (Some vatSlot)))"

definition krefsToErefs :: "string \<Rightarrow> string list \<Rightarrow> string list store" where
  "krefsToErefs ep krefs =
     mapEach (\<lambda>kref. bnd (krefToEref ep kref) (ofOption (Fail ''unmapped kref'' [kref, ep]))) krefs"

text \<open>\<open>if (kref)\<close>: neither missing nor the empty text.\<close>

definition truthy :: "string option \<Rightarrow> bool" where
  "truthy x \<longleftrightarrow> x \<noteq> None \<and> x \<noteq> Some ''''"

definition forgetEref :: "string \<Rightarrow> string \<Rightarrow> unit store" where
  "forgetEref ep eref =
     bnd (erefToKref ep eref) (\<lambda>kref.
       case kref of None \<Rightarrow> ret ()
       | Some k \<Rightarrow> whenM (k \<noteq> '''') (deleteCListEntry ep k eref))"

definition forgetKref :: "string \<Rightarrow> string \<Rightarrow> unit store" where
  "forgetKref ep kref =
     bnd (krefToEref ep kref) (\<lambda>eref.
       case eref of None \<Rightarrow> ret ()
       | Some e \<Rightarrow> whenM (e \<noteq> '''') (deleteCListEntry ep kref e))"

section \<open>Well-formed c-lists\<close>

definition entry :: "string \<Rightarrow> string \<Rightarrow> bool \<Rightarrow> string \<Rightarrow> ctx \<Rightarrow> bool" where
  "entry ep k b v s \<longleftrightarrow>
     isEndpointId ep \<and> isKRef k \<and> isERef v \<and> eref_promise v = isPromiseRef k \<and>
     tget (clists (db s)) (ep, k) = Some (buildReachableAndVatSlot b v)"

definition clist_wf :: "ctx \<Rightarrow> bool" where
  "clist_wf s \<longleftrightarrow>
     (\<forall>ep r t. tget (clists (db s)) (ep, r) = Some t \<longrightarrow>
        (isKRef r \<and> (\<exists>b v. entry ep r b v s \<and> tget (clists (db s)) (ep, v) = Some r)) \<or>
        (isERef r \<and> (\<exists>b. entry ep t b r s)))"

lemma isKRef_not_isERef: "isKRef k \<Longrightarrow> \<not> isERef k"
  by (auto simp: isERef_def elim!: isKRefE isVRefE isRRefE)

lemma isERef_not_isKRef: "isERef v \<Longrightarrow> \<not> isKRef v"
  using isKRef_not_isERef by blast

lemma build_inj [simp]:
  "buildReachableAndVatSlot b v = buildReachableAndVatSlot c w \<longleftrightarrow> b = c \<and> v = w"
  by (auto simp: buildReachableAndVatSlot_def split: if_splits)

lemma clist_wfD_kref:
  "clist_wf s \<Longrightarrow> tget (clists (db s)) (ep, k) = Some t \<Longrightarrow> isKRef k \<Longrightarrow>
    \<exists>b v. entry ep k b v s \<and> tget (clists (db s)) (ep, v) = Some k"
  unfolding clist_wf_def using isKRef_not_isERef by metis

lemma clist_wfD_eref:
  "clist_wf s \<Longrightarrow> tget (clists (db s)) (ep, v) = Some k \<Longrightarrow> isERef v \<Longrightarrow> \<exists>b. entry ep k b v s"
  unfolding clist_wf_def using isKRef_not_isERef by metis

lemma clist_wf_entry:
  "clist_wf s \<Longrightarrow> entry ep k b v s \<Longrightarrow> tget (clists (db s)) (ep, v) = Some k"
  using clist_wfD_kref [of s ep k] by (fastforce simp: entry_def)

lemma entry_unique: "entry ep k b v s \<Longrightarrow> entry ep k c w s \<Longrightarrow> b = c \<and> v = w"
  by (auto simp: entry_def)

lemma entry_cong: "clists (db s) = clists (db s') \<Longrightarrow> entry ep k b v s = entry ep k b v s'"
  by (simp add: entry_def)

lemma clist_wf_cong: "clists (db s) = clists (db s') \<Longrightarrow> clist_wf s = clist_wf s'"
  by (simp add: clist_wf_def entry_def)

section \<open>What an entry is charged\<close>

definition entry_credit :: "ctx \<Rightarrow> string \<Rightarrow> string \<Rightarrow> bool \<Rightarrow> string \<Rightarrow> unit_ref multiset" where
  "entry_credit s ep k b v =
     (if isPromiseRef k then {#(k, False)#}
      else if eref_exports v \<or> retiring (gc_action_list s) ep k then {#}
      else {#(k, \<not> b)#})"

text \<open>A queued retirement of an import is only ever for an object that is gone.\<close>

definition retired_ok :: "string \<Rightarrow> string \<Rightarrow> ctx \<Rightarrow> bool" where
  "retired_ok ep k s \<longleftrightarrow> (retiring (gc_action_list s) ep k \<and> \<not> isPromiseRef k \<longrightarrow> \<not> live k s)"

lemma eref_direction:
  assumes "isERef v"
  obtains p where "parseRef v = Inr p" and "risPromise p = eref_promise v"
    and "rdirection p = Some (if eref_exports v then Export else Import)"
proof -
  obtain p d where p: "parseRef v = Inr p" "rdirection p = Some d"
    using assms by (rule parseRef_eref)
  then show ?thesis
    by (intro that [of p]) (cases d; simp add: eref_promise_def eref_exports_def)+
qed

lemma clist_credit_build:
  assumes "isEndpointId ep" and "isKRef k" and "isERef v"
  shows "clist_credit (gc_action_list s) (ep, k) (buildReachableAndVatSlot b v) = entry_credit s ep k b v"
proof -
  obtain p where "parseRef v = Inr p" "rdirection p = Some (if eref_exports v then Export else Import)"
    using assms(3) by (rule eref_direction)
  then show ?thesis using assms by (auto simp: clist_credit_def entry_credit_def)
qed

lemma clist_credit_eref: "isERef v \<Longrightarrow> clist_credit acts (ep, v) t = {#}"
  by (auto simp: clist_credit_def isERef_not_isKRef)

lemma gc_action_list_db [simp]: "gc_action_list (db_update f s) = gc_action_list s"
  by (simp add: gc_action_list_def)

lemma credits_clists:
  "credits (db_update (clists_update f) s) + tsum (clist_credit (gc_action_list s)) (clists (db s)) =
   credits s + tsum (clist_credit (gc_action_list s)) (f (clists (db s)))"
  by (simp add: credits_def gc_action_list_def)

lemma swap_sums:
  fixes a :: "'m::cancel_comm_monoid_add"
  assumes "a + t = c + u" and "u + x = t + y"
  shows "a + x = c + y"
proof -
  have "(a + x) + t = c + (u + x)" using assms(1) by (metis add.assoc add.commute)
  also have "\<dots> = (c + y) + t" unfolding assms(2) by (metis add.assoc add.commute)
  finally show ?thesis by simp
qed

lemma credits_flag:
  assumes "entry ep k b v s"
  shows "credits (db_update (clists_update (tput (ep, k) (buildReachableAndVatSlot c v))) s) +
    entry_credit s ep k b v = credits s + entry_credit s ep k c v"
proof (rule swap_sums [OF credits_clists])
  from assms show "tsum (clist_credit (gc_action_list s)) (tput (ep, k) (buildReachableAndVatSlot c v) (clists (db s))) +
      entry_credit s ep k b v = tsum (clist_credit (gc_action_list s)) (clists (db s)) + entry_credit s ep k c v"
    using tsum_tput_old [of "clists (db s)" "(ep, k)" "buildReachableAndVatSlot b v"
        "clist_credit (gc_action_list s)" "buildReachableAndVatSlot c v"]
    by (simp add: entry_def clist_credit_build)
qed

lemma credits_remove:
  assumes "entry ep k b v s"
  shows "credits (db_update (clists_update (tdel (ep, k))) s) + entry_credit s ep k b v = credits s"
proof -
  have "credits (db_update (clists_update (tdel (ep, k))) s) + entry_credit s ep k b v = credits s + {#}"
  proof (rule swap_sums [OF credits_clists])
    from assms show "tsum (clist_credit (gc_action_list s)) (tdel (ep, k) (clists (db s))) +
        entry_credit s ep k b v = tsum (clist_credit (gc_action_list s)) (clists (db s)) + {#}"
      using tsum_tdel_old [of "clists (db s)" "(ep, k)" "buildReachableAndVatSlot b v"
          "clist_credit (gc_action_list s)"]
      by (simp add: entry_def clist_credit_build)
  qed
  then show ?thesis by simp
qed

lemma credits_add:
  assumes "isEndpointId ep" and "isKRef k" and "isERef v" and "\<not> has (clists (db s)) (ep, k)"
  shows "credits (db_update (clists_update (tput (ep, k) (buildReachableAndVatSlot b v))) s) =
    credits s + entry_credit s ep k b v"
proof -
  have "credits (db_update (clists_update (tput (ep, k) (buildReachableAndVatSlot b v))) s) + {#} =
      credits s + entry_credit s ep k b v"
    by (rule swap_sums [OF credits_clists]) (simp add: tsum_tput_new clist_credit_build assms)
  then show ?thesis by simp
qed

lemma credits_eref_put:
  assumes "isERef v" and "\<not> has (clists (db s)) (ep, v)"
  shows "credits (db_update (clists_update (tput (ep, v) k)) s) = credits s"
  using assms credits_clists [of "tput (ep, v) k" s] by (simp add: tsum_tput_new clist_credit_eref)

lemma credits_eref_del:
  assumes "isERef v"
  shows "credits (db_update (clists_update (tdel (ep, v))) s) = credits s"
proof -
  have "weight (clist_credit (gc_action_list s)) (clists (db s)) (ep, v) = {#}"
    by (simp add: weight_def clist_credit_eref assms split: option.splits)
  then have "tsum (clist_credit (gc_action_list s)) (tdel (ep, v) (clists (db s))) =
      tsum (clist_credit (gc_action_list s)) (clists (db s))"
    using tsum_tdel [of "clist_credit (gc_action_list s)" "(ep, v)" "clists (db s)"] by simp
  with credits_clists [of "tdel (ep, v)" s] show ?thesis by simp
qed

section \<open>Moving the reachable flag\<close>

lemma getObjectRefCount_exact:
  "exact C s \<Longrightarrow> live k s \<Longrightarrow> \<not> isPromiseRef k \<Longrightarrow>
    getObjectRefCount k s = (Inr (int (reach k C), int (recog k C)), s)"
  using exact_row [of C s k] by (simp add: getObjectRefCount_text reach_le_recog)

lemma setObjectRefCount_exact:
  assumes "exact C s" and "isKRef k" and "\<not> isPromiseRef k"
    and "\<And>j. j \<noteq> k \<Longrightarrow> reach j C = reach j D \<and> recog j C = recog j D"
  shows "\<exists>s'. setObjectRefCount k (int (reach k D), int (recog k D)) s = (Inr (), s') \<and> exact D s' \<and>
    same_but_counts s s'"
  using assms setObjectRefCount_text [OF assms(3) reach_le_recog [of k D]]
  by (auto intro!: exact_set_row)

lemma getReachableAndVatSlot_entry:
  "entry ep k b v s \<Longrightarrow> getReachableAndVatSlot ep k s = (Inr (b, v), s)"
  by (simp add: entry_def getReachableAndVatSlot_def getRequired_def bnd_run)

lemma getReachableFlag_entry:
  "entry ep k b v s \<Longrightarrow> getReachableFlag ep k s = (Inr b, s)"
  by (simp add: entry_def getReachableFlag_def getRequired_def bnd_run)

text \<open>The write both operations make to the kref-keyed row.\<close>

definition set_flag :: "string \<Rightarrow> string \<Rightarrow> bool \<Rightarrow> string \<Rightarrow> ctx \<Rightarrow> ctx" where
  "set_flag ep k b v s = db_update (clists_update (tput (ep, k) (buildReachableAndVatSlot b v))) s"

lemma set_flag_frame [simp]:
  "refCounts (db (set_flag ep k b v s)) = refCounts (db s)"
  "live j (set_flag ep k b v s) = live j s"
  "gc_action_list (set_flag ep k b v s) = gc_action_list s"
  "kernelRefExists j (set_flag ep k b v s) = kernelRefExists j s"
  "exact C (set_flag ep k b v s) = exact C s"
  by (simp_all add: set_flag_def live_def kernelRefExists_def exact_def row_exact_def)

lemma kernelRefExists_exact: "exact C s \<Longrightarrow> kernelRefExists k s = live k s"
proof (cases "live k s")
  case True
  assume "exact C s"
  with True show ?thesis using exact_row [of C s k] kernelRefExists_text by blast
next
  case False
  then show ?thesis by (simp add: live_def has_def kernelRefExists_none)
qed

lemma reach_entry_credit:
  "reach j (entry_credit s ep k b v) =
    (if j = k \<and> (isPromiseRef k \<or> \<not> eref_exports v \<and> \<not> retiring (gc_action_list s) ep k \<and> b) then 1 else 0)"
  by (auto simp: entry_credit_def)

lemma recog_entry_credit:
  "recog j (entry_credit s ep k b v) =
    (if j = k \<and> (isPromiseRef k \<or> \<not> eref_exports v \<and> \<not> retiring (gc_action_list s) ep k) then 1 else 0)"
  by (simp add: entry_credit_def)

text \<open>The kref an entry's credit is owed by is counted only there.\<close>

lemma flag_counts:
  assumes "C + entry_credit s ep k b v = D + entry_credit s ep k c v"
  shows "j \<noteq> k \<Longrightarrow> reach j C = reach j D" and "recog j C = recog j D"
    and "isPromiseRef k \<or> eref_exports v \<or> retiring (gc_action_list s) ep k \<Longrightarrow> C = D"
    and "b = c \<Longrightarrow> C = D"
proof -
  show "reach j C = reach j D" if "j \<noteq> k"
    using arg_cong [OF assms, of "reach j"] that by (simp add: reach_entry_credit)
  show "recog j C = recog j D"
    using arg_cong [OF assms, of "recog j"] by (simp add: recog_entry_credit)
  show "isPromiseRef k \<or> eref_exports v \<or> retiring (gc_action_list s) ep k \<Longrightarrow> C = D"
    using assms by (auto simp: entry_credit_def split: if_splits)
  show "b = c \<Longrightarrow> C = D" using assms by simp
qed

lemma acct_set_flag:
  assumes "entry ep k b v s" and "acct M s"
    and "b = c \<or> isPromiseRef k \<or> eref_exports v \<or> retiring (gc_action_list s) ep k"
  shows "acct M (set_flag ep k c v s)"
proof -
  have eq: "credits (set_flag ep k c v s) + entry_credit s ep k b v = credits s + entry_credit s ep k c v"
    using credits_flag [OF assms(1)] by (simp add: set_flag_def)
  with assms(3) have "credits (set_flag ep k c v s) = credits s"
    using flag_counts(3,4) [OF eq] by auto
  with assms(2) show ?thesis by (simp add: acct_def)
qed

lemma live_acct_entry:
  assumes "entry ep k b v s" and "acct M s"
    and "isPromiseRef k \<or> \<not> eref_exports v \<and> \<not> retiring (gc_action_list s) ep k"
  shows "live k s"
proof (rule ccontr)
  assume "\<not> live k s"
  then have "recog k (credits s) = 0" using acct_gone [OF assms(2), of k] by simp
  moreover have "0 < recog k (credits s)"
    using arg_cong [OF credits_remove [OF assms(1)], of "recog k"] assms(3)
    by (simp add: recog_entry_credit)
  ultimately show False by simp
qed

lemma reach_import_flag:
  assumes "entry ep k b v s" and "\<not> isPromiseRef k" and "\<not> eref_exports v"
    and "\<not> retiring (gc_action_list s) ep k"
  shows "reach k (credits (set_flag ep k c v s)) + (if b then 1 else 0) = reach k (credits s) + (if c then 1 else 0)"
  using arg_cong [OF credits_flag [OF assms(1), of c], of "reach k"] assms(2-4)
  by (simp add: set_flag_def reach_entry_credit split: if_splits)

text \<open>
  Setting and clearing the flag of an entry: the row's flag changes, an import's reachable count
  moves by one with it, and nothing else does.
\<close>

lemma import_test:
  assumes "isERef v" and "eref_promise v = isPromiseRef k"
  shows "\<exists>p. parseRef v = Inr p \<and>
    ((\<not> risPromise p \<and> rdirection p = Some Import) \<longleftrightarrow> \<not> isPromiseRef k \<and> \<not> eref_exports v)"
proof -
  obtain p where "parseRef v = Inr p" and "risPromise p = eref_promise v"
    and "rdirection p = Some (if eref_exports v then Export else Import)"
    using assms(1) by (rule eref_direction)
  with assms(2) show ?thesis by auto
qed

lemma move_reach:
  assumes e: "entry ep k b v s" and a: "acct M s" and np: "\<not> isPromiseRef k" and imp: "\<not> eref_exports v"
    and ok: "retired_ok ep k s" and lv: "live k s"
    and d: "int (reach k (credits (set_flag ep k c v s) + M)) = r"
  shows "\<exists>s'. setObjectRefCount k (r, int (recog k (credits s + M))) (set_flag ep k c v s) = (Inr (), s') \<and>
    acct M s' \<and> same_but_counts (set_flag ep k c v s) s'"
proof -
  let ?t = "set_flag ep k c v s"
  have nr: "\<not> retiring (gc_action_list s) ep k" using ok lv np by (auto simp: retired_ok_def)
  have eq: "credits ?t + entry_credit s ep k b v = credits s + entry_credit s ep k c v"
    using credits_flag [OF e] by (simp add: set_flag_def)
  have "isKRef k" using e by (simp add: entry_def)
  moreover have "exact (credits s + M) ?t" using a by (simp add: acct_def)
  moreover have "j \<noteq> k \<Longrightarrow> reach j (credits s + M) = reach j (credits ?t + M) \<and>
      recog j (credits s + M) = recog j (credits ?t + M)" for j
    using flag_counts(1,2) [OF eq, of j] by simp
  ultimately obtain s' where "setObjectRefCount k (int (reach k (credits ?t + M)), int (recog k (credits ?t + M))) ?t
      = (Inr (), s')" and x: "exact (credits ?t + M) s'" and f: "same_but_counts ?t s'"
    using setObjectRefCount_exact [OF _ _ np, of "credits s + M" ?t "credits ?t + M"] by blast
  moreover have "recog k (credits ?t + M) = recog k (credits s + M)"
    using flag_counts(2) [OF eq, of k] by simp
  ultimately show ?thesis
    using d same_but_counts_credits [OF f] by (auto simp: acct_def)
qed

lemma setReachableFlag_run:
  assumes e: "entry ep k b v s" and a: "acct M s" and ok: "retired_ok ep k s"
  shows "\<exists>s'. setReachableFlag ep k s = (Inr (), s') \<and> acct M s' \<and>
    same_but_counts (set_flag ep k True v s) s'"
proof (cases b)
  case True
  have "set_flag ep k True v s = s"
    using e True by (cases s; cases "db s") (simp add: entry_def set_flag_def tput_present)
  then show ?thesis
    using a True by (simp add: setReachableFlag_def getReachableAndVatSlot_entry [OF e])
next
  case False
  let ?t = "set_flag ep k True v s"
  obtain p where p: "parseRef v = Inr p"
    "(\<not> risPromise p \<and> rdirection p = Some Import) \<longleftrightarrow> \<not> isPromiseRef k \<and> \<not> eref_exports v"
    using e import_test [of v k] by (auto simp: entry_def)
  have run: "setReachableFlag ep k s =
      whenM (\<not> risPromise p \<and> rdirection p = Some Import \<and> live k s)
        (bnd (getObjectRefCount k) (\<lambda>(reachable, recognizable).
           setObjectRefCount k (reachable + 1, recognizable))) ?t"
    using False p(1) kernelRefExists_exact [of "credits s + M" s k] a
    by (simp add: setReachableFlag_def getReachableAndVatSlot_entry [OF e] acct_def set_flag_def [symmetric])
  show ?thesis
  proof (cases "\<not> isPromiseRef k \<and> \<not> eref_exports v \<and> live k s")
    case True
    then have nr: "\<not> retiring (gc_action_list s) ep k" using ok by (auto simp: retired_ok_def)
    have x: "exact (credits s + M) ?t" using a by (simp add: acct_def)
    have "getObjectRefCount k ?t = (Inr (int (reach k (credits s + M)), int (recog k (credits s + M))), ?t)"
      using True by (intro getObjectRefCount_exact x) simp_all
    then have "setReachableFlag ep k s =
        setObjectRefCount k (int (reach k (credits s + M)) + 1, int (recog k (credits s + M))) ?t"
      using run p(2) True by simp
    moreover have "int (reach k (credits ?t + M)) = int (reach k (credits s + M)) + 1"
      using reach_import_flag [OF e _ _ nr, of True] True False by simp
    ultimately show ?thesis using move_reach [OF e a _ _ ok] True by metis
  next
    case False
    then have "isPromiseRef k \<or> eref_exports v \<or> retiring (gc_action_list s) ep k"
      using live_acct_entry [OF e a] by blast
    then have "acct M ?t" by (intro acct_set_flag [OF e a]) blast
    moreover have "\<not> (\<not> risPromise p \<and> rdirection p = Some Import \<and> live k s)" using False p(2) by blast
    ultimately show ?thesis using run by auto
  qed
qed

lemma clearReachableFlag_run:
  assumes e: "entry ep k b v s" and a: "acct M s" and ok: "retired_ok ep k s"
  shows "\<exists>s'. clearReachableFlag ep k s = (Inr (), s') \<and> acct M s' \<and>
    same_but_counts (set_flag ep k False v s) s'"
proof -
  let ?t = "set_flag ep k False v s"
  obtain p where p: "parseRef v = Inr p"
    "(\<not> risPromise p \<and> rdirection p = Some Import) \<longleftrightarrow> \<not> isPromiseRef k \<and> \<not> eref_exports v"
    using e import_test [of v k] by (auto simp: entry_def)
  have run: "clearReachableFlag ep k s =
      whenM (b \<and> \<not> risPromise p \<and> rdirection p = Some Import \<and> live k s)
        (bnd (getObjectRefCount k) (\<lambda>(reachable, recognizable).
           thn (setObjectRefCount k (reachable - 1, recognizable))
             (whenM (reachable - 1 = 0) (addMaybeFree k)))) ?t"
    using p(1) kernelRefExists_exact [of "credits s + M" s k] a
    by (simp add: clearReachableFlag_def getReachableAndVatSlot_entry [OF e] acct_def set_flag_def [symmetric])
  show ?thesis
  proof (cases "b \<and> \<not> isPromiseRef k \<and> \<not> eref_exports v \<and> live k s")
    case True
    then have nr: "\<not> retiring (gc_action_list s) ep k" using ok by (auto simp: retired_ok_def)
    let ?r = "reach k (credits s + M)"
    have x: "exact (credits s + M) ?t" using a by (simp add: acct_def)
    have get: "getObjectRefCount k ?t = (Inr (int ?r, int (recog k (credits s + M))), ?t)"
      using True by (intro getObjectRefCount_exact x) simp_all
    have "int (reach k (credits ?t + M)) = int ?r - 1"
      using reach_import_flag [OF e _ _ nr, of False] True by simp
    then obtain s' where "setObjectRefCount k (int ?r - 1, int (recog k (credits s + M))) ?t = (Inr (), s')"
      and "acct M s'" and "same_but_counts ?t s'"
      using move_reach [OF e a _ _ ok] True by metis
    then show ?thesis
      using run p(2) True get by (auto simp: addMaybeFree_def)
  next
    case False
    then have "b = False \<or> isPromiseRef k \<or> eref_exports v \<or> retiring (gc_action_list s) ep k"
      using live_acct_entry [OF e a] by blast
    then have "acct M ?t" by (intro acct_set_flag [OF e a])
    moreover have "\<not> (b \<and> \<not> risPromise p \<and> rdirection p = Some Import \<and> live k s)" using False p(2) by blast
    ultimately show ?thesis using run by auto
  qed
qed

section \<open>Adding and removing entries\<close>

lemma set_flag_entry: "entry ep k b v s \<Longrightarrow> entry ep k c v (set_flag ep k c v s)"
  by (simp add: entry_def set_flag_def)

lemma isKRef_neq_isERef: "isKRef k \<Longrightarrow> isERef v \<Longrightarrow> k \<noteq> v"
  using isKRef_not_isERef by blast

definition drop_entry :: "string \<Rightarrow> string \<Rightarrow> string \<Rightarrow> ctx \<Rightarrow> ctx" where
  "drop_entry ep k v s =
     db_update (clists_update (tdel (ep, v))) (db_update (clists_update (tdel (ep, k))) s)"

lemma credits_drop_entry:
  assumes "entry ep k b v s"
  shows "credits (drop_entry ep k v s) + entry_credit s ep k b v = credits s"
proof -
  have "isERef v" using assms by (simp add: entry_def)
  from credits_eref_del [OF this] credits_remove [OF assms] show ?thesis
    unfolding drop_entry_def by metis
qed

lemma drop_entry_counts [simp]:
  "exact C (drop_entry ep k v s) = exact C s"
  "live j (drop_entry ep k v s) = live j s"
  by (simp_all add: drop_entry_def exact_def row_exact_def live_def)

lemma same_refs_promise: "isPromiseRef k \<Longrightarrow> same_refs {#(k, b)#} {#(k, c)#}"
  by (auto simp: same_refs_def)

lemma deleteCListEntry_run:
  assumes e: "entry ep k b v s" and a: "acct M s" and ok: "retired_ok ep k s"
  shows "\<exists>s'. deleteCListEntry ep k v s = (Inr (), s') \<and> acct M s' \<and>
    same_but_counts (drop_entry ep k v s) s'"
proof -
  let ?t = "set_flag ep k False v s"
  obtain s1 where s1: "clearReachableFlag ep k s = (Inr (), s1)" and a1: "acct M s1"
    and f1: "same_but_counts ?t s1"
    using clearReachableFlag_run [OF e a ok] by blast
  have e1: "entry ep k False v s1"
    using set_flag_entry [OF e, of False] same_but_counts_clists [OF f1] entry_cong by blast
  have g1: "gc_action_list s1 = gc_action_list s"
    using same_but_counts_gc_actions [OF f1] by simp
  obtain p where p: "parseRef v = Inr p" "rdirection p = Some (if eref_exports v then Export else Import)"
    using e eref_direction [of v] by (auto simp: entry_def)
  let ?C = "credits (drop_entry ep k v s1) + M"
  have c1: "exact (entry_credit s ep k False v + ?C) s1"
  proof -
    have "entry_credit s1 ep k False v = entry_credit s ep k False v" by (simp add: entry_credit_def g1)
    with credits_drop_entry [OF e1] have "entry_credit s ep k False v + ?C = credits s1 + M"
      by (metis add.assoc add.commute)
    with a1 show ?thesis unfolding acct_def by metis
  qed
  have k: "isKRef k" using e by (simp add: entry_def)
  have "\<exists>r s2. decrementRefCount k (eref_exports v) True s1 = (Inr r, s2) \<and> exact ?C s2 \<and> same_but_counts s1 s2"
  proof (cases "isPromiseRef k \<or> \<not> eref_exports v \<and> \<not> retiring (gc_action_list s) ep k")
    case True
    have "same_refs (entry_credit s ep k False v + ?C) (add_mset (k, True) ?C)"
      using True by (auto simp: entry_credit_def same_refs_def)
    then have x: "exact (add_mset (k, True) ?C) s1"
      using c1 by (simp add: exact_same_refs [of "entry_credit s ep k False v + ?C"])
    have "total (exact (add_mset (k, True) ?C)) (decrementRefCount k (eref_exports v) True) (\<lambda>_. exact ?C)"
      using True by (intro decrementRefCount_exact) auto
    then obtain r s2 where "decrementRefCount k (eref_exports v) True s1 = (Inr r, s2)" "exact ?C s2"
      using x by (rule totalD)
    then show ?thesis using counts_onlyD counts_only_decrement by blast
  next
    case False
    then have nl: "\<not> isPromiseRef k \<and> (eref_exports v \<or> \<not> live k s)" using ok by (auto simp: retired_ok_def)
    have "live k s1 = live k s"
    proof -
      have "exact (credits s + M) s" "exact (credits s1 + M) s1" using a a1 by (simp_all add: acct_def)
      have "clearReachableFlag ep k s = (Inr (), s1)" by (rule s1)
      then show ?thesis
        using e by (auto simp: clearReachableFlag_def getReachableAndVatSlot_entry [OF e] p(1) whenM_def
            live_def addMaybeFree_def setObjectRefCount_def kernelRefExists_def has_def
            elim!: bnd_InrE thn_InrE split: if_splits option.splits prod.splits)
    qed
    then have "decrementRefCount k (eref_exports v) True s1 = (Inr False, s1)"
      using nl k by (intro decrementRefCount_gone) (auto simp: live_def has_def)
    moreover have "exact ?C s1" using False c1 by (auto simp: entry_credit_def)
    ultimately show ?thesis by auto
  qed
  then obtain r s2 where s2: "decrementRefCount k (eref_exports v) True s1 = (Inr r, s2)"
    and x2: "exact ?C s2" and f2: "same_but_counts s1 s2" by blast
  have "deleteCListEntry ep k v s = (Inr (), drop_entry ep k v s2)"
  proof -
    have "tget (clists (db s)) (ep, k) = Some (buildReachableAndVatSlot b v)" using e by (simp add: entry_def)
    moreover have "(rdirection p = Some Export) = eref_exports v" using p(2) by simp
    ultimately show ?thesis
      using s1 p(1) s2 by (simp add: deleteCListEntry_def drop_entry_def)
  qed
  moreover have "same_but_counts (drop_entry ep k v s) (drop_entry ep k v s2)"
  proof -
    have "drop_entry ep k v ?t = drop_entry ep k v s" by (simp add: drop_entry_def set_flag_def comp_def)
    moreover have "same_but_counts ?t s2" using f1 f2 by (rule same_but_counts_trans)
    ultimately show ?thesis unfolding drop_entry_def by (metis same_but_counts_clists_update)
  qed
  moreover have "acct M (drop_entry ep k v s2)"
  proof -
    have "same_but_counts (drop_entry ep k v s1) (drop_entry ep k v s2)"
      unfolding drop_entry_def by (intro same_but_counts_clists_update f2)
    with x2 show ?thesis by (simp add: acct_def same_but_counts_credits)
  qed
  ultimately show ?thesis by blast
qed

definition put_entry_rows :: "string \<Rightarrow> string \<Rightarrow> bool \<Rightarrow> string \<Rightarrow> ctx \<Rightarrow> ctx" where
  "put_entry_rows ep k b v s =
     db_update (clists_update (tput (ep, v) k)) (set_flag ep k b v s)"

lemma put_entry_rows_frame [simp]:
  "exact C (put_entry_rows ep k b v s) = exact C s"
  "live j (put_entry_rows ep k b v s) = live j s"
  "gc_action_list (put_entry_rows ep k b v s) = gc_action_list s"
  by (simp_all add: put_entry_rows_def set_flag_def exact_def row_exact_def live_def)

lemma credits_put_entry_rows:
  assumes "isEndpointId ep" and "isKRef k" and "isERef v"
    and "\<not> has (clists (db s)) (ep, k)" and "\<not> has (clists (db s)) (ep, v)"
  shows "credits (put_entry_rows ep k b v s) = credits s + entry_credit s ep k b v"
proof -
  have "\<not> has (clists (db (set_flag ep k b v s))) (ep, v)"
    using assms(5) isKRef_neq_isERef [OF assms(2,3)] by (simp add: set_flag_def)
  from credits_eref_put [OF assms(3) this] credits_add [OF assms(1-4)] show ?thesis
    by (simp add: put_entry_rows_def set_flag_def)
qed

lemma addCListEntry_run:
  assumes ep: "isEndpointId ep" and k: "isKRef k" and v: "isERef v" and "eref_promise v = isPromiseRef k"
    and fresh: "\<not> has (clists (db s)) (ep, k)" "\<not> has (clists (db s)) (ep, v)"
    and nr: "\<not> retiring (gc_action_list s) ep k" and a: "acct M s" and lv: "live k s"
  shows "\<exists>s'. addCListEntry ep k v s = (Inr (), s') \<and> acct M s' \<and>
    same_but_counts (put_entry_rows ep k (eref_exports v) v s) s'"
proof -
  let ?t = "put_entry_rows ep k (eref_exports v) v s"
  obtain p where p: "parseRef v = Inr p" "rdirection p = Some (if eref_exports v then Export else Import)"
    using v by (rule eref_direction)
  have cr: "credits ?t = credits s + entry_credit s ep k (eref_exports v) v"
    by (rule credits_put_entry_rows [OF ep k v fresh])
  have run: "addCListEntry ep k v s = incrementRefCount k (eref_exports v) True ?t"
    using p by (simp add: addCListEntry_def Let_def put_entry_rows_def set_flag_def)
  have x: "exact (credits s + M) ?t" using a by (simp add: acct_def)
  have "\<exists>s'. incrementRefCount k (eref_exports v) True ?t = (Inr (), s') \<and> exact (credits ?t + M) s'"
  proof (cases "isPromiseRef k \<or> \<not> eref_exports v")
    case True
    have "same_refs (add_mset (k, True) (credits s + M)) (credits ?t + M)"
      using True nr by (auto simp: cr entry_credit_def same_refs_def)
    moreover obtain s' where "incrementRefCount k (eref_exports v) True ?t = (Inr (), s')"
      and "exact (add_mset (k, True) (credits s + M)) s'"
      using incrementRefCount_live [OF k True x, of True] lv by auto
    ultimately show ?thesis using exact_same_refs by blast
  next
    case False
    then have "credits ?t = credits s" unfolding cr by (simp add: entry_credit_def)
    then have "exact (credits ?t + M) ?t" using x by simp
    moreover have "incrementRefCount k (eref_exports v) True ?t = (Inr (), ?t)"
      using False incrementRefCount_export [OF k] by simp
    ultimately show ?thesis by blast
  qed
  then obtain s' where i: "incrementRefCount k (eref_exports v) True ?t = (Inr (), s')"
    and x': "exact (credits ?t + M) s'" by blast
  have f: "same_but_counts ?t s'" by (rule counts_onlyD [OF counts_only_increment i])
  with x' have "acct M s'" by (simp add: acct_def same_but_counts_credits)
  with run i f show ?thesis by simp
qed

section \<open>The bijection is kept\<close>

lemma clist_wf_set_flag:
  assumes wf: "clist_wf s" and e: "entry ep k b v s"
  shows "clist_wf (set_flag ep k c v s)"
proof -
  have k: "isKRef k" using e by (simp add: entry_def)
  have kv: "tget (clists (db s)) (ep, v) = Some k" by (rule clist_wf_entry [OF wf e])
  have keep: "\<exists>b'. entry ep' r b' w (set_flag ep k c v s)" if "entry ep' r b' w s" for ep' r b' w
    using that e by (cases "ep' = ep \<and> r = k") (auto simp: entry_def set_flag_def)
  have er: "tget (clists (db (set_flag ep k c v s))) (ep', w) = tget (clists (db s)) (ep', w)" if "isERef w" for ep' w
    using that isKRef_neq_isERef [OF k] by (auto simp: set_flag_def)
  show ?thesis
    unfolding clist_wf_def
  proof (intro allI impI)
    fix ep' r t assume t: "tget (clists (db (set_flag ep k c v s))) (ep', r) = Some t"
    show "isKRef r \<and> (\<exists>b v'. entry ep' r b v' (set_flag ep k c v s) \<and>
        tget (clists (db (set_flag ep k c v s))) (ep', v') = Some r) \<or>
      isERef r \<and> (\<exists>b. entry ep' t b r (set_flag ep k c v s))"
    proof (cases "isERef r")
      case True
      with t er have "tget (clists (db s)) (ep', r) = Some t" by simp
      with clist_wfD_eref [OF wf _ True] keep True show ?thesis by blast
    next
      case False
      have "\<exists>t'. tget (clists (db s)) (ep', r) = Some t'"
        using t e by (auto simp: set_flag_def entry_def split: if_splits)
      then obtain t' where t': "tget (clists (db s)) (ep', r) = Some t'" ..
      with wf False have "isKRef r" unfolding clist_wf_def by blast
      with clist_wfD_kref [OF wf t'] obtain b' w where "entry ep' r b' w s"
        "tget (clists (db s)) (ep', w) = Some r" by blast
      with keep [of ep' r b' w] er [of w] \<open>isKRef r\<close> show ?thesis by (auto simp: entry_def)
    qed
  qed
qed

lemma clist_wf_drop_entry:
  assumes wf: "clist_wf s" and e: "entry ep k b v s"
  shows "clist_wf (drop_entry ep k v s)"
  unfolding clist_wf_def
proof (intro allI impI)
  let ?u = "drop_entry ep k v s"
  have g: "tget (clists (db ?u)) (ep', r) = (if ep' = ep \<and> (r = k \<or> r = v) then None else tget (clists (db s)) (ep', r))" for ep' r
    by (auto simp: drop_entry_def)
  fix ep' r t assume t: "tget (clists (db ?u)) (ep', r) = Some t"
  then have ne: "\<not> (ep' = ep \<and> (r = k \<or> r = v))" and t': "tget (clists (db s)) (ep', r) = Some t"
    by (simp_all add: g split: if_splits)
  show "isKRef r \<and> (\<exists>b v'. entry ep' r b v' ?u \<and> tget (clists (db ?u)) (ep', v') = Some r) \<or>
      isERef r \<and> (\<exists>b. entry ep' t b r ?u)"
  proof (cases "isERef r")
    case True
    obtain b' where e': "entry ep' t b' r s" using clist_wfD_eref [OF wf t' True] by blast
    have "\<not> (ep' = ep \<and> (t = k \<or> t = v))"
      using e e' ne isKRef_neq_isERef [of t v] by (auto simp: entry_def)
    with e' show ?thesis using True by (auto simp: entry_def g)
  next
    case False
    with wf t' have kr: "isKRef r" unfolding clist_wf_def by blast
    with clist_wfD_kref [OF wf t'] obtain b' w where e': "entry ep' r b' w s"
      and w: "tget (clists (db s)) (ep', w) = Some r" by blast
    have "\<not> (ep' = ep \<and> (w = k \<or> w = v))"
      using e' e w ne clist_wf_entry [OF wf e] isKRef_neq_isERef [of k w] by (auto simp: entry_def)
    with e' w ne kr show ?thesis by (auto simp: entry_def g)
  qed
qed

lemma clist_wf_put_entry_rows:
  assumes wf: "clist_wf s" and "isEndpointId ep" and "isKRef k" and "isERef v"
    and "eref_promise v = isPromiseRef k"
    and fresh: "\<not> has (clists (db s)) (ep, k)" "\<not> has (clists (db s)) (ep, v)"
  shows "clist_wf (put_entry_rows ep k b v s)"
  unfolding clist_wf_def
proof (intro allI impI)
  let ?u = "put_entry_rows ep k b v s"
  have kv: "k \<noteq> v" using assms(3,4) by (rule isKRef_neq_isERef)
  have g: "tget (clists (db ?u)) (ep', r) = (if ep' = ep \<and> r = v then Some k
      else if ep' = ep \<and> r = k then Some (buildReachableAndVatSlot b v)
      else tget (clists (db s)) (ep', r))" for ep' r
    by (auto simp: put_entry_rows_def set_flag_def)
  have new: "entry ep k b v ?u" using assms kv by (simp add: entry_def g)
  have old: "entry ep' r b' w ?u" if "entry ep' r b' w s" for ep' r b' w
    using that fresh isKRef_neq_isERef [of r v] assms(4) by (auto simp: entry_def g has_def)
  fix ep' r t assume t: "tget (clists (db ?u)) (ep', r) = Some t"
  show "isKRef r \<and> (\<exists>b v'. entry ep' r b v' ?u \<and> tget (clists (db ?u)) (ep', v') = Some r) \<or>
      isERef r \<and> (\<exists>b. entry ep' t b r ?u)"
  proof (cases "ep' = ep \<and> (r = k \<or> r = v)")
    case True
    with t new assms(3,4) kv show ?thesis by (auto simp: g)
  next
    case False
    with t have t': "tget (clists (db s)) (ep', r) = Some t" by (auto simp: g)
    show ?thesis
    proof (cases "isERef r")
      case True
      with clist_wfD_eref [OF wf t'] old show ?thesis by blast
    next
      case False
      with wf t' have kr: "isKRef r" unfolding clist_wf_def by blast
      with clist_wfD_kref [OF wf t'] obtain b' w where e': "entry ep' r b' w s"
        and w: "tget (clists (db s)) (ep', w) = Some r" by blast
      moreover have "tget (clists (db ?u)) (ep', w) = Some r"
        using w fresh e' isKRef_neq_isERef [of k w] assms(3) by (auto simp: g has_def entry_def)
      ultimately show ?thesis using kr old by blast
    qed
  qed
qed

lemma same_but_counts_wf:
  "same_but_counts s s' \<Longrightarrow> clist_wf s' = clist_wf s"
  using same_but_counts_clists clist_wf_cong by metis

lemma same_but_counts_entry:
  "same_but_counts s s' \<Longrightarrow> entry ep k b v s' = entry ep k b v s"
  using same_but_counts_clists entry_cong by metis

section \<open>Looking entries up\<close>

lemma krefToEref_entry: "entry ep k b v s \<Longrightarrow> krefToEref ep k s = (Inr (Some v), s)"
  by (simp add: krefToEref_def entry_def bnd_run)

lemma krefToEref_none: "\<not> has (clists (db s)) (ep, k) \<Longrightarrow> krefToEref ep k s = (Inr None, s)"
  by (simp add: krefToEref_def has_def)

lemma erefToKref_run: "erefToKref ep v s = (Inr (tget (clists (db s)) (ep, v)), s)"
  by (simp add: erefToKref_def)

lemma krefToEref_iff:
  assumes "clist_wf s" and "isKRef k"
  shows "krefToEref ep k s = (Inr (Some v), s) \<longleftrightarrow> (\<exists>b. entry ep k b v s)"
proof (cases "has (clists (db s)) (ep, k)")
  case True
  then obtain t where "tget (clists (db s)) (ep, k) = Some t" by (auto simp: has_def)
  with assms obtain b w where e: "entry ep k b w s" using clist_wfD_kref by blast
  then have "krefToEref ep k s = (Inr (Some w), s)" by (rule krefToEref_entry)
  moreover have "w = v \<longleftrightarrow> (\<exists>b. entry ep k b v s)" using e entry_unique [OF e] by metis
  ultimately show ?thesis by simp
next
  case False
  then show ?thesis by (auto simp: krefToEref_none entry_def has_def)
qed

text \<open>The endpoint's name for a kref and the kernel's for the eref are inverse.\<close>

lemma lookups_inverse:
  assumes "clist_wf s" and "isKRef k" and "isERef v"
  shows "krefToEref ep k s = (Inr (Some v), s) \<longleftrightarrow> erefToKref ep v s = (Inr (Some k), s)"
  using assms clist_wfD_eref [OF assms(1) _ assms(3)] clist_wf_entry [OF assms(1)]
  by (auto simp: krefToEref_iff erefToKref_run)

section \<open>Allocated erefs\<close>

definition alloc_eref :: "string \<Rightarrow> string \<Rightarrow> nat \<Rightarrow> string" where
  "alloc_eref ep ty n = eref_tag ep @ ty @ ''-'' @ nat_text n"

definition counters_ahead :: "string \<Rightarrow> ctx \<Rightarrow> bool" where
  "counters_ahead ep s \<longleftrightarrow>
     (\<exists>n. tget (nextObjectIds (db s)) ep = Some n \<and>
        (\<forall>m\<ge>n. \<not> has (clists (db s)) (ep, alloc_eref ep ''o'' m))) \<and>
     (\<exists>n. tget (nextPromiseIds (db s)) ep = Some n \<and>
        (\<forall>m\<ge>n. \<not> has (clists (db s)) (ep, alloc_eref ep ''p'' m)))"

lemma eref_tag_endpoint:
  assumes "isEndpointId ep"
  shows "eref_tag ep = [] \<or> eref_tag ep = ''r''"
proof (cases ep)
  case Nil
  then show ?thesis by (simp add: eref_tag_def)
next
  case (Cons c ds)
  then have "c = CHR ''v'' \<or> c = CHR ''r''" using assms unfolding isEndpointId_def by auto
  then show ?thesis unfolding Cons eref_tag_def starts_with_def by fastforce
qed

lemma alloc_eref_ok:
  assumes "isEndpointId ep" and "ty = ''o'' \<or> ty = ''p''"
  shows "isERef (alloc_eref ep ty n)" and "\<not> eref_exports (alloc_eref ep ty n)"
    and "eref_promise (alloc_eref ep ty n) \<longleftrightarrow> ty = ''p''"
proof -
  obtain c where c: "ty = [c]" "c = CHR ''o'' \<or> c = CHR ''p''" using assms(2) by auto
  have "isVRef (c # CHR ''-'' # nat_text n)" "isRRef (CHR ''r'' # c # CHR ''-'' # nat_text n)"
    using c(2) by auto
  moreover note parseRef_vref [OF this(1)] parseRef_rref [OF this(2)]
  ultimately show "isERef (alloc_eref ep ty n)" and "\<not> eref_exports (alloc_eref ep ty n)"
    and "eref_promise (alloc_eref ep ty n) \<longleftrightarrow> ty = ''p''"
    using eref_tag_endpoint [OF assms(1)] c
    by (auto simp: alloc_eref_def isERef_def eref_exports_def eref_promise_def numeral_2_eq_2
        simp del: isVRef.simps isRRef.simps)
qed

lemma alloc_eref_inj [simp]: "alloc_eref ep ty m = alloc_eref ep ty n \<longleftrightarrow> m = n"
  by (simp add: alloc_eref_def)

lemma alloc_eref_type:
  assumes "isEndpointId ep"
  shows "alloc_eref ep ''o'' m \<noteq> alloc_eref ep ''p'' n"
  using alloc_eref_ok(3) [OF assms, of "''o''" m] alloc_eref_ok(3) [OF assms, of "''p''" n] by auto

text \<open>What an endpoint with counters allocates: an unused eref of its own, of the kref's type.\<close>

definition kref_type :: "string \<Rightarrow> string" where
  "kref_type k = (if isPromiseRef k then ''p'' else ''o'')"

definition bump_eref :: "string \<Rightarrow> string \<Rightarrow> nat \<Rightarrow> ctx \<Rightarrow> ctx" where
  "bump_eref ep k n s =
     db_update (if isPromiseRef k then nextPromiseIds_update (tput ep (n + 1))
                else nextObjectIds_update (tput ep (n + 1))) s"

lemma bump_eref_frame [simp]:
  "clists (db (bump_eref ep k n s)) = clists (db s)"
  "credits (bump_eref ep k n s) = credits s"
  "gc_action_list (bump_eref ep k n s) = gc_action_list s"
  "live j (bump_eref ep k n s) = live j s"
  "exact C (bump_eref ep k n s) = exact C s"
  "acct M (bump_eref ep k n s) = acct M s"
  by (simp_all add: bump_eref_def credits_def live_def exact_def row_exact_def acct_def)

lemma allocate_unfold:
  assumes "counters_ahead ep s"
  obtains n where "allocateErefForKref ep k s =
      thn (addCListEntry ep k (alloc_eref ep (kref_type k) n)) (ret (alloc_eref ep (kref_type k) n)) (bump_eref ep k n s)"
    and "\<And>m. n \<le> m \<Longrightarrow> \<not> has (clists (db s)) (ep, alloc_eref ep (kref_type k) m)"
    and "tget (if isPromiseRef k then nextPromiseIds (db s) else nextObjectIds (db s)) ep = Some n"
proof (cases "isPromiseRef k")
  case True
  obtain n where "tget (nextPromiseIds (db s)) ep = Some n"
    and "\<forall>m\<ge>n. \<not> has (clists (db s)) (ep, alloc_eref ep ''p'' m)"
    using assms by (auto simp: counters_ahead_def)
  then show ?thesis
    by (intro that [of n]) (simp_all add: True kref_type_def allocateErefForKref_def bump_eref_def alloc_eref_def bnd_run thn_run)
next
  case False
  obtain n where "tget (nextObjectIds (db s)) ep = Some n"
    and "\<forall>m\<ge>n. \<not> has (clists (db s)) (ep, alloc_eref ep ''o'' m)"
    using assms by (auto simp: counters_ahead_def)
  then show ?thesis
    by (intro that [of n]) (simp_all add: False kref_type_def allocateErefForKref_def bump_eref_def alloc_eref_def bnd_run thn_run)
qed

lemma allocate_run:
  assumes wf: "clist_wf s" and a: "acct M s" and ep: "isEndpointId ep" and ahead: "counters_ahead ep s"
    and k: "isKRef k" and lv: "live k s" and new: "\<not> has (clists (db s)) (ep, k)"
    and nr: "\<not> retiring (gc_action_list s) ep k"
  shows "\<exists>v s'. allocateErefForKref ep k s = (Inr v, s') \<and> isERef v \<and> \<not> eref_exports v \<and>
    eref_promise v = isPromiseRef k \<and> \<not> has (clists (db s)) (ep, v) \<and>
    clists (db s') = tput (ep, v) k (tput (ep, k) (buildReachableAndVatSlot False v) (clists (db s))) \<and>
    clist_wf s' \<and> acct M s' \<and> counters_ahead ep s' \<and>
    (\<exists>n. v = alloc_eref ep (kref_type k) n \<and> same_but_counts (put_entry_rows ep k False v (bump_eref ep k n s)) s')"
proof -
  obtain n where run: "allocateErefForKref ep k s =
      thn (addCListEntry ep k (alloc_eref ep (kref_type k) n)) (ret (alloc_eref ep (kref_type k) n)) (bump_eref ep k n s)"
    and fr: "\<And>m. n \<le> m \<Longrightarrow> \<not> has (clists (db s)) (ep, alloc_eref ep (kref_type k) m)"
    and cn: "tget (if isPromiseRef k then nextPromiseIds (db s) else nextObjectIds (db s)) ep = Some n"
    using allocate_unfold [OF ahead] by blast
  define v where "v = alloc_eref ep (kref_type k) n"
  let ?t = "bump_eref ep k n s"
  have v: "isERef v" "\<not> eref_exports v" "eref_promise v = isPromiseRef k"
    using alloc_eref_ok [OF ep] by (auto simp: v_def kref_type_def)
  have fresh: "\<not> has (clists (db ?t)) (ep, k)" "\<not> has (clists (db ?t)) (ep, v)"
    using new fr [of n] by (simp_all add: v_def)
  have "acct M ?t" "live k ?t" "\<not> retiring (gc_action_list ?t) ep k" using a lv nr by simp_all
  then obtain s' where s': "addCListEntry ep k v ?t = (Inr (), s')" and a': "acct M s'"
    and f: "same_but_counts (put_entry_rows ep k False v ?t) s'"
    using addCListEntry_run [OF ep k v(1) v(3) fresh] v(2) by auto
  have cl: "clists (db s') = tput (ep, v) k (tput (ep, k) (buildReachableAndVatSlot False v) (clists (db s)))"
    using same_but_counts_clists [OF f] by (simp add: put_entry_rows_def set_flag_def)
  have "clist_wf (put_entry_rows ep k False v ?t)"
    using wf fresh by (intro clist_wf_put_entry_rows ep k v) (simp_all cong: clist_wf_cong add: clist_wf_def entry_def)
  then have "clist_wf s'" using same_but_counts_wf [OF f] by simp
  moreover have "counters_ahead ep s'"
  proof -
    have "nextObjectIds (db s') = nextObjectIds (db ?t)" "nextPromiseIds (db s') = nextPromiseIds (db ?t)"
      using same_but_countsD [OF f, of "\<lambda>t. nextObjectIds (db t)"] same_but_countsD [OF f, of "\<lambda>t. nextPromiseIds (db t)"]
      by (simp_all add: without_counts_def put_entry_rows_def set_flag_def)
    moreover have "k \<noteq> alloc_eref ep ''o'' m" "k \<noteq> alloc_eref ep ''p'' m" for m
      using isKRef_neq_isERef [OF k] alloc_eref_ok(1) [OF ep] by blast+
    ultimately show ?thesis
      using ahead cn alloc_eref_type [OF ep] fr alloc_eref_type [OF ep, symmetric]
      by (auto simp: counters_ahead_def cl v_def kref_type_def bump_eref_def split: if_splits)
  qed
  ultimately have inv: "clist_wf s'" "counters_ahead ep s'" by blast+
  have "allocateErefForKref ep k s = (Inr v, s')" using run s' by (simp add: v_def [symmetric])
  then show ?thesis
    using v fresh cl f a' inv
    by (intro exI [of _ v] exI [of _ s'] conjI exI [of _ n]) (simp_all add: v_def)
qed

section \<open>A store to try things on\<close>

text \<open>
  A new store with two vats' endpoints, in which \<open>v1\<close> has exported its root object as \<open>ko1\<close>.
  The witnesses of the theorems below are run on it.
\<close>

definition demo_store :: ctx where
  "demo_store =
     snd (thn (initEndpoint ''v1'') (thn (initEndpoint ''v2'')
       (bnd (initKernelObject ''v1'') (\<lambda>k. addCListEntry ''v1'' k ''o+0'')))
       (makeKernelStore empty_kdb))"

lemma demo_store_eq:
  "demo_store = (makeKernelStore empty_kdb)
    \<lparr>cache := (cache (makeKernelStore empty_kdb))\<lparr>nextObjectId := Some 2\<rparr>,
     db := (db (makeKernelStore empty_kdb))\<lparr>
       cachedRows := (cachedRows (db (makeKernelStore empty_kdb)))\<lparr>nextObjectId := Some 2\<rparr>,
       nextPromiseIds := tput ''v2'' 1 (tput ''v1'' 1 tempty),
       nextObjectIds := tput ''v2'' 1 (tput ''v1'' 1 tempty),
       owners := tput ''ko1'' ''v1'' tempty, refCounts := tput ''ko1'' ''0,0'' tempty,
       clists := tput (''v1'', ''o+0'') ''ko1'' (tput (''v1'', ''ko1'') ''R o+0'' tempty)\<rparr>\<rparr>"
  unfolding demo_store_def makeKernelStore_fresh
  by (simp add: initEndpoint_def initKernelObject_def getNextObjectId_def incCounter_def bnd_run thn_run
      setObjectRefCount_def addCListEntry_def incrementRefCount_def Let_def
      buildReachableAndVatSlot_def empty_kdb_def init_cached_rows_def init_row_def nat_text_eval
      int_text_def parseRef_def numeral_2_eq_2)

lemma demo_entry: "entry ''v1'' ''ko1'' True ''o+0'' demo_store"
  unfolding demo_store_eq makeKernelStore_fresh
  by (simp add: entry_def isEndpointId_def all_digits_def is_digit_def isERef_def buildReachableAndVatSlot_def
      eref_promise_def parseRef_def Let_def isPromiseRef_def)

lemma demo_clists: "clists (db demo_store) = tput (''v1'', ''o+0'') ''ko1'' (tput (''v1'', ''ko1'') ''R o+0'' tempty)"
  by (simp add: demo_store_eq)

lemma demo_gc [simp]: "gc_action_list demo_store = []"
  using fresh_store_gc by (simp add: demo_store_eq gc_action_list_def)

lemma demo_wf: "clist_wf demo_store"
  unfolding clist_wf_def
proof (intro allI impI)
  fix ep r t assume "tget (clists (db demo_store)) (ep, r) = Some t"
  then have "ep = ''v1'' \<and> (r = ''ko1'' \<and> t = ''R o+0'' \<or> r = ''o+0'' \<and> t = ''ko1'')"
    by (auto simp: demo_clists split: if_splits)
  moreover have "tget (clists (db demo_store)) (''v1'', ''o+0'') = Some ''ko1''" by (simp add: demo_clists)
  moreover have "isKRef ''ko1''" "isERef ''o+0''" using demo_entry by (auto simp: entry_def)
  ultimately show "isKRef r \<and> (\<exists>b v. entry ep r b v demo_store \<and> tget (clists (db demo_store)) (ep, v) = Some r) \<or>
      isERef r \<and> (\<exists>b. entry ep t b r demo_store)"
    using demo_entry by auto
qed

lemma demo_credits: "credits demo_store = {#}"
proof -
  have "clist_credit [] (''v1'', ''ko1'') ''R o+0'' = {#}" "clist_credit [] (''v1'', ''o+0'') ''ko1'' = {#}"
    by (simp_all add: clist_credit_def parseReachableAndVatSlot_def insistERef_def isERef_def parseRef_def
        Let_def isPromiseRef_def numeral_2_eq_2)
  then have c: "tsum (clist_credit []) (clists (db demo_store)) = {#}"
    unfolding demo_clists by (intro tsum_zero) (auto split: if_splits)
  have "gcActions (cache demo_store) = Some []"
    unfolding demo_store_eq makeKernelStore_fresh
    by (simp add: init_cached_rows_def init_row_def empty_kdb_def)
  with c show ?thesis
    by (simp add: credits_def gc_action_list_def)
      (unfold demo_store_eq makeKernelStore_fresh, simp add: empty_kdb_def buffer_credit_def)
qed

lemma demo_acct: "acct {#} demo_store"
proof -
  have "refCounts (db demo_store) = tput ''ko1'' (count_text ''ko1'' 0 0) tempty"
    by (simp add: demo_store_eq count_text_def isPromiseRef_def nat_text_eval)
  moreover have "isKRef ''ko1''" using demo_entry by (simp add: entry_def)
  ultimately show ?thesis
    by (auto simp: acct_def demo_credits exact_def row_exact_def)
qed

lemma demo_live: "live ''ko1'' demo_store"
  by (simp add: demo_store_eq live_def)

lemma demo_counters: "counters_ahead ''v2'' demo_store"
  by (simp add: counters_ahead_def demo_clists)
    (simp add: demo_store_eq)

lemma demo_ids: "isEndpointId ''v1''" "isEndpointId ''v2''" "isKRef ''ko1''" "\<not> isPromiseRef ''ko1''"
  by (simp_all add: isEndpointId_def all_digits_def is_digit_def isPromiseRef_def)

section \<open>Properties\<close>

text \<open>
  In a well-formed c-list the two lookups are inverse: the endpoint's eref for a kref is
  the eref that names that kref, and no other.
\<close>

theorem clist_lookups_inverse:
  assumes "clist_wf s" and "isKRef k" and "isERef v"
  shows "krefToEref ep k s = (Inr (Some v), s) \<longleftrightarrow> erefToKref ep v s = (Inr (Some k), s)"
  using assms by (rule lookups_inverse)

theorem clist_lookups_inverse_witness:
  "krefToEref ''v1'' ''ko1'' demo_store = (Inr (Some ''o+0''), demo_store) \<and>
   erefToKref ''v1'' ''o+0'' demo_store = (Inr (Some ''ko1''), demo_store)"
proof -
  have "krefToEref ''v1'' ''ko1'' demo_store = (Inr (Some ''o+0''), demo_store)"
    by (rule krefToEref_entry [OF demo_entry])
  moreover have "isERef ''o+0''" using demo_entry by (simp add: entry_def)
  ultimately show ?thesis using clist_lookups_inverse [OF demo_wf demo_ids(3)] by blast
qed

text \<open>
  C22. Translating a kref an endpoint has never seen: \<open>allocateErefForKref\<close> gives it an eref
  the endpoint does not use yet, of the kref's type, facing inwards; the c-list stays a
  bijection and maps the two to each other, unreachable for the moment; every other entry is
  as it was, and the entry has been charged exactly what the audit charges it.
\<close>

theorem allocateErefForKref_correct:
  assumes wf: "clist_wf s" and a: "acct M s" and ep: "isEndpointId ep" and ahead: "counters_ahead ep s"
    and k: "isKRef k" and lv: "live k s" and new: "\<not> has (clists (db s)) (ep, k)"
    and nr: "\<not> retiring (gc_action_list s) ep k"
  shows "\<exists>v s'. allocateErefForKref ep k s = (Inr v, s') \<and> isERef v \<and> \<not> eref_exports v \<and>
    eref_promise v = isPromiseRef k \<and> \<not> has (clists (db s)) (ep, v) \<and>
    clists (db s') = tput (ep, v) k (tput (ep, k) (buildReachableAndVatSlot False v) (clists (db s))) \<and>
    clist_wf s' \<and> acct M s' \<and> counters_ahead ep s'"
  using allocate_run [OF assms] by blast

theorem allocateErefForKref_correct_witness:
  "\<exists>v s'. allocateErefForKref ''v2'' ''ko1'' demo_store = (Inr v, s') \<and> isERef v \<and> \<not> eref_exports v \<and>
    eref_promise v = isPromiseRef ''ko1'' \<and> \<not> has (clists (db demo_store)) (''v2'', v) \<and>
    clists (db s') = tput (''v2'', v) ''ko1'' (tput (''v2'', ''ko1'') (buildReachableAndVatSlot False v) (clists (db demo_store))) \<and>
    clist_wf s' \<and> acct {#} s' \<and> counters_ahead ''v2'' s'"
  by (rule allocateErefForKref_correct [OF demo_wf demo_acct demo_ids(2) demo_counters demo_ids(3) demo_live])
    (simp_all add: demo_clists retiring_def)

text \<open>
  C23. Forgetting a kref removes its entry, both halves of it, and nothing else; the c-list
  stays a bijection and the count the entry held, reachable or not, is released exactly.
\<close>

theorem forgetKref_correct:
  assumes "clist_wf s" and "acct M s" and "entry ep k b v s" and "retired_ok ep k s"
  shows "\<exists>s'. forgetKref ep k s = (Inr (), s') \<and>
    clists (db s') = tdel (ep, v) (tdel (ep, k) (clists (db s))) \<and> clist_wf s' \<and> acct M s'"
proof -
  obtain s' where run: "deleteCListEntry ep k v s = (Inr (), s')" and a: "acct M s'"
    and f: "same_but_counts (drop_entry ep k v s) s'"
    using deleteCListEntry_run [OF assms(3,2,4)] by blast
  have "v \<noteq> ''''" using assms(3) by (auto simp: entry_def isERef_def)
  then have "forgetKref ep k s = (Inr (), s')"
    using run by (simp add: forgetKref_def krefToEref_entry [OF assms(3)])
  moreover have "clist_wf s'" using clist_wf_drop_entry [OF assms(1,3)] same_but_counts_wf [OF f] by simp
  moreover have "clists (db s') = tdel (ep, v) (tdel (ep, k) (clists (db s)))"
    using same_but_counts_clists [OF f] by (simp add: drop_entry_def)
  ultimately show ?thesis using a by blast
qed

theorem forgetKref_correct_witness:
  "\<exists>s'. forgetKref ''v1'' ''ko1'' demo_store = (Inr (), s') \<and>
    clists (db s') = tdel (''v1'', ''o+0'') (tdel (''v1'', ''ko1'') (clists (db demo_store))) \<and> clist_wf s' \<and> acct {#} s'"
  by (rule forgetKref_correct [OF demo_wf demo_acct demo_entry]) (simp add: retired_ok_def retiring_def)

text \<open>
  The reachable flag: \<open>setReachableFlag\<close> and \<open>clearReachableFlag\<close> leave an entry with the
  flag they name, whatever it was, so that either may be repeated; only the flag of that
  entry changes, and the reachable count of an imported object moves with it, so the counts
  stay exact.
\<close>

theorem reachable_flags_correct:
  assumes "clist_wf s" and "acct M s" and "entry ep k b v s" and "retired_ok ep k s"
  shows "\<exists>t u. setReachableFlag ep k s = (Inr (), t) \<and> clearReachableFlag ep k s = (Inr (), u) \<and>
    getReachableFlag ep k t = (Inr True, t) \<and> getReachableFlag ep k u = (Inr False, u) \<and>
    clists (db t) = tput (ep, k) (buildReachableAndVatSlot True v) (clists (db s)) \<and>
    clists (db u) = tput (ep, k) (buildReachableAndVatSlot False v) (clists (db s)) \<and>
    clist_wf t \<and> clist_wf u \<and> acct M t \<and> acct M u"
proof -
  have one: "getReachableFlag ep k s' = (Inr c, s') \<and>
      clists (db s') = tput (ep, k) (buildReachableAndVatSlot c v) (clists (db s)) \<and> clist_wf s'"
    if "same_but_counts (set_flag ep k c v s) s'" for c s'
    using same_but_counts_wf [OF that] clist_wf_set_flag [OF assms(1,3), of c]
      getReachableFlag_entry [of ep k c v s'] same_but_counts_entry [OF that] set_flag_entry [OF assms(3)]
      same_but_counts_clists [OF that] by (simp add: set_flag_def)
  obtain t where "setReachableFlag ep k s = (Inr (), t)" "acct M t" "same_but_counts (set_flag ep k True v s) t"
    using setReachableFlag_run [OF assms(3,2,4)] by blast
  moreover obtain u where "clearReachableFlag ep k s = (Inr (), u)" "acct M u" "same_but_counts (set_flag ep k False v s) u"
    using clearReachableFlag_run [OF assms(3,2,4)] by blast
  ultimately show ?thesis using one [of True t] one [of False u] by blast
qed

theorem reachable_flags_correct_witness:
  "\<exists>t u. setReachableFlag ''v1'' ''ko1'' demo_store = (Inr (), t) \<and> clearReachableFlag ''v1'' ''ko1'' demo_store = (Inr (), u) \<and>
    getReachableFlag ''v1'' ''ko1'' t = (Inr True, t) \<and> getReachableFlag ''v1'' ''ko1'' u = (Inr False, u) \<and>
    clists (db t) = tput (''v1'', ''ko1'') (buildReachableAndVatSlot True ''o+0'') (clists (db demo_store)) \<and>
    clists (db u) = tput (''v1'', ''ko1'') (buildReachableAndVatSlot False ''o+0'') (clists (db demo_store)) \<and>
    clist_wf t \<and> clist_wf u \<and> acct {#} t \<and> acct {#} u"
  by (rule reachable_flags_correct [OF demo_wf demo_acct demo_entry]) (simp add: retired_ok_def retiring_def)

end
