(* ===== verification/Promises.thy ===== *)
theory Promises
  imports CList Queues
begin

text \<open>
  Kernel promises (\<open>store/methods/promise.ts\<close>) and revocation (\<open>revocation.ts\<close>): a promise's
  rows, its queue of messages, its settlement, and the promises a resolution makes visible.
  The rules say what each operation does to the references the store holds: a new promise is
  owed its decision, settling it trades that for the slots of its value, queueing a message
  charges what the message carries.
\<close>

section \<open>Promises (promise.ts)\<close>

definition getNextPromiseId :: "string store" where
  "getNextPromiseId =
     bnd (incCounter (\<lambda>s. nextPromiseId (cache s))
            (\<lambda>n s. snd (cached_set (nextPromiseId_update (\<lambda>_. Some n)) s)))
       (\<lambda>n. ret (makeKernelSlot SlotPromise (nat_text n)))"

definition initKernelPromise :: "(string \<times> kernel_promise) store" where
  "initKernelPromise =
     bnd getNextPromiseId (\<lambda>kpid.
       thn (provideStoredQueue kpid False)
         (thn (kvWrite (pstates_update (tput kpid Unresolved)))
           (thn (kvWrite (psubscribers_update (tput kpid [])))
             (thn (kvWrite (refCounts_update (tput kpid ''1'')))
               (ret (kpid, \<lparr>kp_state = Unresolved, kp_decider = None,
                            kp_subscribers = Some [], kp_value = None\<rparr>))))))"

text \<open>
  The state row is a \<open>promise_state\<close>, so that the \<open>default\<close> of the code's \<open>switch\<close>, a row with
  any other text, does not arise.
\<close>

definition getKernelPromise :: "string \<Rightarrow> kernel_promise store" where
  "getKernelPromise kpid =
     bnd (lift (parseRef kpid)) (\<lambda>p.
       thn (require (rcontext p = KernelCtx \<and> risPromise p) (AssertErr ''not a kernel promise''))
         (bnd (gets (\<lambda>s. tget (pstates (db s)) kpid)) (\<lambda>state.
            case state of None \<Rightarrow> fail (JsError ''unknown kernel promise'' [kpid])
            | Some st \<Rightarrow>
                if st = Unresolved then
                  bnd (gets (\<lambda>s. tget (pdeciders (db s)) kpid)) (\<lambda>decider.
                    bnd (case decider of None \<Rightarrow> ret None
                         | Some d \<Rightarrow>
                             if d = '''' then ret None
                             else thn (whenM (d \<noteq> ''kernel'') (lift (insistEndpointId d))) (ret (Some d)))
                      (\<lambda>d. bnd (getRequired [kpid, ''subscribers''] (\<lambda>d. tget (psubscribers d) kpid))
                        (\<lambda>subs. ret \<lparr>kp_state = st, kp_decider = d,
                                     kp_subscribers = Some subs, kp_value = None\<rparr>)))
                else
                  bnd (getRequired [kpid, ''value''] (\<lambda>d. tget (pvalues d) kpid))
                    (\<lambda>v. ret \<lparr>kp_state = st, kp_decider = None, kp_subscribers = None, kp_value = Some v\<rparr>))))"

definition deleteKernelPromise :: "string \<Rightarrow> unit store" where
  "deleteKernelPromise kpid =
     thn (kvWrite (pstates_update (tdel kpid)))
       (thn (kvWrite (pdeciders_update (tdel kpid)))
         (thn (kvWrite (psubscribers_update (tdel kpid)))
           (thn (kvWrite (pvalues_update (tdel kpid)))
             (thn (kvWrite (refCounts_update (tdel kpid)))
               (thn (provideStoredQueue kpid False) (delete_queue kpid))))))"

text \<open>\<open>Array.from(new Set(subscribers).add(endpointId)).sort()\<close>\<close>

definition addPromiseSubscriber :: "string \<Rightarrow> string \<Rightarrow> unit store" where
  "addPromiseSubscriber ep kpid =
     bnd (getKernelPromise kpid) (\<lambda>kp.
       thn (require (kp_state kp = Unresolved) (Fail ''attempt to add subscriber to resolved promise'' [kpid]))
         (kvWrite (psubscribers_update (tput kpid
           (sort_strings (set_add ep (foldl (\<lambda>a x. set_add x a) []
             (case kp_subscribers kp of None \<Rightarrow> [] | Some subs \<Rightarrow> subs))))))))"

definition setPromiseDecider :: "string \<Rightarrow> string \<Rightarrow> unit store" where
  "setPromiseDecider kpid ep = whenM (kpid \<noteq> '''') (kvWrite (pdeciders_update (tput kpid ep)))"

definition releaseQueuedMessageRefs :: "string \<Rightarrow> message \<Rightarrow> unit store" where
  "releaseQueuedMessageRefs kpid m =
     thn (decrement kpid)
       (thn (case result_ref (result m) of None \<Rightarrow> ret () | Some r \<Rightarrow> decrement r)
         (forEach (slots (methargs m)) decrement))"

definition enqueuePromiseMessage :: "string \<Rightarrow> message \<Rightarrow> unit store" where
  "enqueuePromiseMessage kpid m =
     thn (increment kpid)
       (thn (case result_ref (result m) of None \<Rightarrow> ret () | Some r \<Rightarrow> increment r)
         (thn (forEach (slots (methargs m)) increment)
           (thn (provideStoredQueue kpid False) (enqueue False kpid (QMsg m)))))"

text \<open>
  \<open>getKernelPromiseMessageQueue\<close>: dequeue until there is nothing left. The loop ends after as
  many turns as the queue has entries, and one more; \<open>drain_promise_enough\<close> below.
\<close>

primrec drain_messages :: "nat \<Rightarrow> string \<Rightarrow> message list store" where
  "drain_messages 0 kpid = fail OutOfFuel"
| "drain_messages (Suc n) kpid =
     bnd (dequeue False kpid) (\<lambda>e.
       case e of None \<Rightarrow> ret []
       | Some (QMsg m) \<Rightarrow> bnd (drain_messages n kpid) (\<lambda>ms. ret (m # ms))
       | Some (QRun _) \<Rightarrow> fail (TypeErr ''promise queue entry''))"

definition queue_span :: "string \<Rightarrow> ctx \<Rightarrow> nat" where
  "queue_span q s =
     (case (tget (qheads (db s)) q, tget (qtails (db s)) q) of (Some h, Some t) \<Rightarrow> h - t | _ \<Rightarrow> 0)"

definition getKernelPromiseMessageQueue :: "string \<Rightarrow> message list store" where
  "getKernelPromiseMessageQueue kpid =
     thn (provideStoredQueue kpid False)
       (bnd (gets (queue_span kpid)) (\<lambda>n. drain_messages (Suc n) kpid))"

definition resolveKernelPromise :: "string \<Rightarrow> bool \<Rightarrow> capdata \<Rightarrow> (string \<times> message) list store" where
  "resolveKernelPromise kpid rejected val =
     thn (provideStoredQueue kpid False)
       (bnd (getKernelPromiseMessageQueue kpid) (\<lambda>messages.
         bnd (mapEach (\<lambda>m. thn (releaseQueuedMessageRefs kpid m) (ret (kpid, m))) messages) (\<lambda>queued.
           thn (kvWrite (pstates_update (tput kpid (if rejected then Rejected else Fulfilled))))
             (thn (kvWrite (pvalues_update (tput kpid val)))
               (thn (kvWrite (pdeciders_update (tdel kpid)))
                 (thn (kvWrite (psubscribers_update (tdel kpid)))
                   (thn (decrement kpid)
                     (thn (delete_queue kpid) (ret queued)))))))))"

text \<open>\<open>/^r?p[-+]\d+$/u\<close>\<close>

definition isPromiseERef :: "string \<Rightarrow> bool" where
  "isPromiseERef s =
     (let t = (if take 1 s = ''r'' then drop 1 s else s) in
      case t of c # d # ds \<Rightarrow> c = CHR ''p'' \<and> (d = CHR ''-'' \<or> d = CHR ''+'') \<and> all_digits ds | _ \<Rightarrow> False)"

text \<open>The slots of an endpoint's c-list, in the order of the store's keys.\<close>

definition endpoint_slots :: "string \<Rightarrow> ctx \<Rightarrow> string list" where
  "endpoint_slots ep s = map snd (filter (\<lambda>k. fst k = ep) (tkeys (clists (db s))))"

primrec keep_decided :: "string \<Rightarrow> string list \<Rightarrow> string list store" where
  "keep_decided decider [] = ret []"
| "keep_decided decider (slot # rest) =
     (if \<not> isPromiseERef slot then keep_decided decider rest
      else
        bnd (getRequired [decider, ''c'', slot] (\<lambda>d. tget (clists d) (decider, slot))) (\<lambda>kpid.
          bnd (getKernelPromise kpid) (\<lambda>kp.
            bnd (keep_decided decider rest) (\<lambda>ks.
              ret (if kp_state kp = Unresolved \<and> kp_decider kp = Some decider then kpid # ks else ks)))))"

definition getPromisesByDecider :: "string \<Rightarrow> string list store" where
  "getPromisesByDecider decider = bnd (gets (endpoint_slots decider)) (keep_decided decider)"

text \<open>
  \<open>getKpidsToRetire\<close>: a depth-first scan over the slots of settled promises, \<open>seen\<close> in the
  order of discovery. A promise is scanned once, so a scan is never deeper than there are
  promises; \<open>scan_enough\<close> below.
\<close>

primrec scanSlots ::
  "(string \<Rightarrow> capdata \<Rightarrow> string list \<Rightarrow> string list store) \<Rightarrow> string list \<Rightarrow> string list \<Rightarrow> string list store" where
  "scanSlots scan [] seen = ret seen"
| "scanSlots scan (slot # rest) seen =
     bnd (if isPromiseRef slot \<and> slot \<notin> set seen then
            bnd (getKernelPromise slot) (\<lambda>p.
              if kp_state p \<noteq> Unresolved
              then (case kp_value p of None \<Rightarrow> ret seen | Some v \<Rightarrow> scan slot v seen)
              else ret seen)
          else ret seen)
       (scanSlots scan rest)"

primrec scanPromise :: "nat \<Rightarrow> string \<Rightarrow> capdata \<Rightarrow> string list \<Rightarrow> string list store" where
  "scanPromise 0 kpid v seen = fail OutOfFuel"
| "scanPromise (Suc n) kpid v seen = scanSlots (scanPromise n) (slots v) (set_add kpid seen)"

definition getKpidsToRetire :: "string \<Rightarrow> capdata \<Rightarrow> string list store" where
  "getKpidsToRetire kpid v =
     bnd (gets (\<lambda>s. length (tkeys (pstates (db s))))) (\<lambda>n. scanPromise (Suc (Suc n)) kpid v [])"

section \<open>Revocation (revocation.ts)\<close>

definition setRevoked :: "string \<Rightarrow> bool \<Rightarrow> unit store" where
  "setRevoked koId r =
     (if r then kvWrite (revokeds_update (tput koId ''true'')) else kvWrite (revokeds_update (tdel koId)))"

definition revoke :: "string \<Rightarrow> unit store" where
  "revoke koId =
     (if isPromiseRef koId then fail (JsError ''cannot revoke promise'' [koId]) else setRevoked koId True)"

definition isRevoked :: "string \<Rightarrow> ctx \<Rightarrow> bool" where
  "isRevoked koId s = truthy (tget (revokeds (db s)) koId)"

section \<open>Queues and the references in them\<close>

lemma credits_cong:
  assumes "gcActions (cache s) = gcActions (cache s')" and "clists (db s) = clists (db s')"
    and "qentries (db s) = qentries (db s')" and "pstates (db s) = pstates (db s')"
    and "pvalues (db s) = pvalues (db s')" and "crankBuffer s = crankBuffer s'" and "pinned (db s) = pinned (db s')"
  shows "credits s = credits s'"
  using assms by (simp add: credits_def gc_action_list_def)

lemma queue_credit_key: "queue_credit (q, i) e = queue_credit (q, j) e"
  by (simp add: queue_credit_def split: queue_entry.split)

definition entry_refs :: "string \<Rightarrow> queue_entry \<Rightarrow> unit_ref multiset" where
  "entry_refs q e = queue_credit (q, 0) e"

lemma entry_refs_simps [simp]:
  "entry_refs ''run'' (QRun i) = refs (item_refs i)"
  "q \<noteq> ''run'' \<Longrightarrow> entry_refs q (QMsg m) = refs (q # message_refs m)"
  by (simp_all add: entry_refs_def queue_credit_def)

lemma credits_qentries:
  assumes "gcActions (cache s) = gcActions (cache s')" and "clists (db s) = clists (db s')"
    and "pstates (db s) = pstates (db s')"
    and "pvalues (db s) = pvalues (db s')" and "crankBuffer s = crankBuffer s'" and "pinned (db s) = pinned (db s')"
  shows "credits s' + tsum queue_credit (qentries (db s)) = credits s + tsum queue_credit (qentries (db s'))"
  using assms by (simp add: credits_def gc_action_list_def)

lemma credits_entry_put:
  assumes "\<not> has (qentries (db s)) (q, i)"
  shows "credits (db_update (qentries_update (tput (q, i) e)) s) = credits s + entry_refs q e"
proof -
  let ?s = "db_update (qentries_update (tput (q, i) e)) s"
  have "credits ?s + {#} = credits s + entry_refs q e"
    by (rule swap_sums [OF credits_qentries [of s ?s]])
      (simp_all add: tsum_tput_new [OF assms] entry_refs_def queue_credit_key [of q i e 0])
  then show ?thesis by simp
qed

lemma credits_entry_del:
  assumes "tget (qentries (db s)) (q, i) = Some e"
  shows "credits (db_update (qentries_update (tdel (q, i))) s) + entry_refs q e = credits s"
proof -
  let ?s = "db_update (qentries_update (tdel (q, i))) s"
  have "credits ?s + entry_refs q e = credits s + {#}"
    by (rule swap_sums [OF credits_qentries [of s ?s]])
      (use tsum_tdel_old [OF assms, of queue_credit] in
        \<open>simp_all add: entry_refs_def queue_credit_key [of q i e 0]\<close>)
  then show ?thesis by simp
qed

lemma credits_set_queue [simp]:
  "credits (set_queue_head c q n s) = credits s"
  "credits (set_queue_tail c q n s) = credits s"
  by (auto simp: set_queue_head_def set_queue_tail_def Let_def intro!: credits_cong)

text \<open>Exact descriptions of the queue operations, with what they do to every other queue.\<close>

definition other_queues_same :: "string \<Rightarrow> ctx \<Rightarrow> ctx \<Rightarrow> bool" where
  "other_queues_same q s s' \<longleftrightarrow>
     (\<forall>r. r \<noteq> q \<longrightarrow> tget (qheads (db s')) r = tget (qheads (db s)) r \<and>
        tget (qtails (db s')) r = tget (qtails (db s)) r \<and>
        (\<forall>i. tget (qentries (db s')) (r, i) = tget (qentries (db s)) (r, i)))"

lemma other_queues_refl [simp]: "other_queues_same q s s"
  by (simp add: other_queues_same_def)

lemma other_queues_trans: "other_queues_same q s t \<Longrightarrow> other_queues_same q t u \<Longrightarrow> other_queues_same q s u"
  by (auto simp: other_queues_same_def)

lemma enqueue_full:
  assumes "queue_ok c q s"
  shows "\<exists>s'. enqueue c q x s = (Inr (), s') \<and> queue_ok c q s' \<and> queue_items q s' = queue_items q s @ [x] \<and>
    same_but_queues s s' \<and> credits s' = credits s + entry_refs q x \<and> other_queues_same q s s' \<and>
    (\<not> c \<longrightarrow> rqHead s' = rqHead s \<and> rqTail s' = rqTail s)"
proof -
  obtain h t where ht: "queue_head c q s = Some h" "t \<le> h"
    and entries: "\<And>i. has (qentries (db s)) (q, i) \<longleftrightarrow> t \<le> i \<and> i < h"
    using assms by (rule queue_okE) blast
  let ?s' = "set_queue_head c q (h + 1) (db_update (qentries_update (tput (q, h) x)) s)"
  have run: "enqueue c q x s = (Inr (), ?s')" using ht(1) by (rule enqueue_run)
  have "\<not> has (qentries (db s)) (q, h)" by (simp add: entries)
  then have "credits ?s' = credits s + entry_refs q x" by (simp add: credits_entry_put)
  moreover have "other_queues_same q s ?s'"
    by (auto simp: other_queues_same_def set_queue_head_def Let_def)
  moreover have "\<not> c \<longrightarrow> rqHead ?s' = rqHead s \<and> rqTail ?s' = rqTail s"
    by (simp add: set_queue_head_def Let_def)
  ultimately show ?thesis using enqueue_spec [OF assms, of x] run by auto
qed

lemma dequeue_full:
  assumes "queue_ok c q s" and "queue_items q s = x # xs"
  shows "\<exists>s'. dequeue c q s = (Inr (Some x), s') \<and> queue_ok c q s' \<and> queue_items q s' = xs \<and>
    same_but_queues s s' \<and> credits s' + entry_refs q x = credits s \<and> other_queues_same q s s' \<and>
    (\<not> c \<longrightarrow> rqHead s' = rqHead s \<and> rqTail s' = rqTail s)"
proof -
  obtain h t where ht: "tget (qheads (db s)) q = Some h" "tget (qtails (db s)) q = Some t"
    "queue_head c q s = Some h" "queue_tail c q s = Some t" "t \<le> h"
    and entries: "\<And>i. has (qentries (db s)) (q, i) \<longleftrightarrow> t \<le> i \<and> i < h"
    using assms(1) by (rule queue_okE) blast
  have lt: "t < h"
  proof (rule ccontr)
    assume "\<not> t < h"
    then have "queue_items q s = []" using ht by (simp add: queue_items_def)
    with assms(2) show False by simp
  qed
  with entries [of t] obtain e where e: "tget (qentries (db s)) (q, t) = Some e" by (auto simp: has_def)
  have x: "x = e" using assms(2) ht lt e by (simp add: queue_items_def upt_conv_Cons)
  let ?s1 = "set_queue_tail c q (t + 1) s"
  let ?s' = "db_update (qentries_update (tdel (q, t))) ?s1"
  have run: "dequeue c q s = (Inr (Some x), ?s')" using ht lt e x by (intro dequeue_run) auto
  have "tget (qentries (db ?s1)) (q, t) = Some x" using e x by (simp add: set_queue_tail_def Let_def)
  then have "credits ?s' + entry_refs q x = credits s" using credits_entry_del by fastforce
  moreover have "other_queues_same q s ?s'"
    by (auto simp: other_queues_same_def set_queue_tail_def Let_def)
  moreover have "\<not> c \<longrightarrow> rqHead ?s' = rqHead s \<and> rqTail ?s' = rqTail s"
    by (simp add: set_queue_tail_def Let_def)
  ultimately show ?thesis using dequeue_spec [OF assms(1)] run assms(2) by auto
qed

lemma same_but_queuesP:
  assumes "same_but_queues s s'" and "\<And>t. P (without_queues t) = P t"
  shows "P s' = P s"
  using assms unfolding same_but_queues_def by metis

lemma same_but_queues_refl [simp]: "same_but_queues s s"
  by (simp add: same_but_queues_def)

lemma same_but_queues_trans: "same_but_queues s t \<Longrightarrow> same_but_queues t u \<Longrightarrow> same_but_queues s u"
  by (simp add: same_but_queues_def)

lemma same_but_queues_rows:
  assumes "same_but_queues s s'"
  shows "refCounts (db s') = refCounts (db s)" and "pstates (db s') = pstates (db s)"
    and "pvalues (db s') = pvalues (db s)" and "psubscribers (db s') = psubscribers (db s)"
    and "pdeciders (db s') = pdeciders (db s)" and "clists (db s') = clists (db s)"
  by (rule same_but_queuesP [OF assms, of "\<lambda>t. refCounts (db t)"]
        same_but_queuesP [OF assms, of "\<lambda>t. pstates (db t)"] same_but_queuesP [OF assms, of "\<lambda>t. pvalues (db t)"]
        same_but_queuesP [OF assms, of "\<lambda>t. psubscribers (db t)"] same_but_queuesP [OF assms, of "\<lambda>t. pdeciders (db t)"]
        same_but_queuesP [OF assms, of "\<lambda>t. clists (db t)"]; simp add: without_queues_def)+

section \<open>A promise's messages\<close>

text \<open>The references a promise's queue holds for a list of messages.\<close>

definition held :: "string \<Rightarrow> message list \<Rightarrow> unit_ref multiset" where
  "held k ms = refs (concat (map (\<lambda>m. k # message_refs m) ms))"

lemma held_simps [simp]: "held k [] = {#}" "held k (m # ms) = refs (k # message_refs m) + held k ms"
  by (simp_all add: held_def)

lemma drain_messages_run:
  assumes "k \<noteq> ''run''"
  shows "queue_ok False k s \<Longrightarrow> queue_items k s = map QMsg ms \<Longrightarrow> length ms < n \<Longrightarrow>
   \<exists>s'. drain_messages n k s = (Inr ms, s') \<and> queue_ok False k s' \<and> queue_items k s' = [] \<and>
     same_but_queues s s' \<and> credits s' + held k ms = credits s \<and> other_queues_same k s s' \<and>
     rqHead s' = rqHead s \<and> rqTail s' = rqTail s"
proof (induction n arbitrary: s ms)
  case 0
  then show ?case by simp
next
  case (Suc n)
  show ?case
  proof (cases ms)
    case Nil
    then have i: "queue_items k s = []" using Suc.prems(2) by simp
    obtain h where "queue_head False k s = Some h" "queue_tail False k s = Some h"
      using Suc.prems(1) i by (auto elim!: queue_okE simp: queue_items_def)
    then show ?thesis using i Nil Suc.prems(1) by (simp add: dequeue_empty)
  next
    case (Cons m ms')
    then have i: "queue_items k s = QMsg m # map QMsg ms'" using Suc.prems(2) by simp
    obtain s1 where s1: "dequeue False k s = (Inr (Some (QMsg m)), s1)" "queue_ok False k s1"
      "queue_items k s1 = map QMsg ms'" "same_but_queues s s1" "credits s1 + entry_refs k (QMsg m) = credits s"
      "other_queues_same k s s1" "rqHead s1 = rqHead s" "rqTail s1 = rqTail s"
      using dequeue_full [OF Suc.prems(1) i] by auto
    have "length ms' < n" using Cons Suc.prems(3) by simp
    then obtain s2 where s2: "drain_messages n k s1 = (Inr ms', s2)" "queue_ok False k s2" "queue_items k s2 = []"
      "same_but_queues s1 s2" "credits s2 + held k ms' = credits s1" "other_queues_same k s1 s2"
      "rqHead s2 = rqHead s1" "rqTail s2 = rqTail s1"
      using Suc.IH [OF s1(2,3)] by blast
    have "credits s = credits s2 + held k ms' + refs (k # message_refs m)"
      using s1(5) s2(5) assms by simp
    then have "credits s2 + held k ms = credits s" using Cons by (simp add: ac_simps)
    then show ?thesis
      using s1 s2 Cons by (auto intro: same_but_queues_trans other_queues_trans)
  qed
qed

lemma provide_present:
  assumes "queue_ok False q s"
  shows "provideStoredQueue q False s = (Inr (), s)"
proof -
  obtain h t where "tget (qheads (db s)) q = Some h" "tget (qtails (db s)) q = Some t"
    using assms by (rule queue_okE)
  then have "put_if_absent q 1 (qheads (db s)) = qheads (db s)" "put_if_absent q 1 (qtails (db s)) = qtails (db s)"
    by (simp_all add: put_if_absent_def)
  then show ?thesis by (simp add: provideStoredQueue_def thn_run)
qed

text \<open>Enough turns: the loop always ends, and hands back every message in order.\<close>

lemma drain_promise_enough:
  assumes "queue_ok False k s" and "queue_items k s = map QMsg ms"
  shows "queue_span k s = length ms"
proof -
  obtain h t where ht: "tget (qheads (db s)) k = Some h" "tget (qtails (db s)) k = Some t"
    using assms(1) by (rule queue_okE)
  then show ?thesis using arg_cong [OF assms(2), of length] by (simp add: queue_span_def queue_items_def)
qed

lemma getKernelPromiseMessageQueue_run:
  assumes "k \<noteq> ''run''" and "queue_ok False k s" and "queue_items k s = map QMsg ms"
  shows "\<exists>s'. getKernelPromiseMessageQueue k s = (Inr ms, s') \<and> queue_ok False k s' \<and> queue_items k s' = [] \<and>
     same_but_queues s s' \<and> credits s' + held k ms = credits s \<and> other_queues_same k s s' \<and>
     rqHead s' = rqHead s \<and> rqTail s' = rqTail s"
  using drain_messages_run [OF assms(1-3), of "Suc (length ms)"]
  by (simp add: getKernelPromiseMessageQueue_def provide_present [OF assms(2)] drain_promise_enough [OF assms(2,3)]
      thn_run)

text \<open>Releasing a message gives back exactly what queueing it took.\<close>

lemma releaseQueuedMessageRefs_acct:
  "total (acct (refs (k # message_refs m) + M)) (releaseQueuedMessageRefs k m) (\<lambda>_. acct M)"
proof (cases "result_ref (result m)")
  case None
  show ?thesis unfolding releaseQueuedMessageRefs_def
    by (rule hoare_thn [OF hoare_pre [OF decrement_acct [of k "refs (message_refs m) + M"]]],
        simp, rule hoare_thn [of _ _ "acct (refs (slots (methargs m)) + M)"])
      (simp_all add: None message_refs_def hoare_ret forEach_decrement_acct hoare_def [where m = "ret ()"])
next
  case (Some r)
  show ?thesis unfolding releaseQueuedMessageRefs_def
    by (rule hoare_thn [OF hoare_pre [OF decrement_acct [of k "refs (message_refs m) + M"]]],
        simp, rule hoare_thn [of _ _ "acct (refs (slots (methargs m)) + M)"])
      (simp_all add: Some message_refs_def forEach_decrement_acct decrement_acct)
qed

lemma counts_only_release [simp]: "counts_only (releaseQueuedMessageRefs k m)"
  by (auto simp: releaseQueuedMessageRefs_def intro!: counts_only_thn counts_only_forEach split: option.split)

lemma release_all_acct:
  "total (acct (held k ms + M)) (mapEach (\<lambda>m. thn (releaseQueuedMessageRefs k m) (ret (k, m))) ms)
     (\<lambda>r s. acct M s \<and> r = map (Pair k) ms)"
proof (induction ms)
  case Nil
  then show ?case by (simp add: hoare_def)
next
  case (Cons m ms)
  have 1: "total (acct (held k (m # ms) + M)) (thn (releaseQueuedMessageRefs k m) (ret (k, m)))
      (\<lambda>y s. acct (held k ms + M) s \<and> y = (k, m))"
    by (rule hoare_thn [OF hoare_pre [OF releaseQueuedMessageRefs_acct [of k m "held k ms + M"]]])
      (simp_all add: ac_simps hoare_def)
  have "total (\<lambda>s. acct (held k ms + M) s \<and> y = (k, m))
      (bnd (mapEach (\<lambda>m. thn (releaseQueuedMessageRefs k m) (ret (k, m))) ms) (\<lambda>ys. ret (y # ys)))
      (\<lambda>r s. acct M s \<and> r = map (Pair k) (m # ms))" for y
  proof (rule hoare_bnd [where M = "\<lambda>ys s. acct M s \<and> ys = map (Pair k) ms \<and> y = (k, m)"])
    show "total (\<lambda>s. acct (held k ms + M) s \<and> y = (k, m))
        (mapEach (\<lambda>m. thn (releaseQueuedMessageRefs k m) (ret (k, m))) ms)
        (\<lambda>ys s. acct M s \<and> ys = map (Pair k) ms \<and> y = (k, m))"
      by (rule hoare_conseq [OF hoare_fact [OF Cons, of "y = (k, m)"]]) auto
  qed (simp add: hoare_def)
  with 1 show ?case unfolding mapEach.simps by (rule hoare_bnd)
qed

section \<open>A promise's rows\<close>

text \<open>
  An unsettled promise has subscribers, a decider that is an endpoint or the kernel (or none),
  and a sound queue that holds messages; a settled one has a value and no queue.
\<close>

definition unsettled :: "string \<Rightarrow> ctx \<Rightarrow> bool" where
  "unsettled k s \<longleftrightarrow> isKRef k \<and> isPromiseRef k \<and> tget (pstates (db s)) k = Some Unresolved \<and>
     has (psubscribers (db s)) k \<and> \<not> has (pvalues (db s)) k \<and>
     (\<forall>d. tget (pdeciders (db s)) k = Some d \<longrightarrow> d = '''' \<or> d = ''kernel'' \<or> isEndpointId d) \<and>
     queue_ok False k s \<and> (\<exists>ms. queue_items k s = map QMsg ms)"

definition settled :: "string \<Rightarrow> promise_state \<Rightarrow> capdata \<Rightarrow> ctx \<Rightarrow> bool" where
  "settled k st v s \<longleftrightarrow> isKRef k \<and> isPromiseRef k \<and> st \<noteq> Unresolved \<and> tget (pstates (db s)) k = Some st \<and>
     tget (pvalues (db s)) k = Some v \<and> \<not> has (pdeciders (db s)) k \<and> \<not> has (psubscribers (db s)) k \<and>
     \<not> has (qheads (db s)) k \<and> \<not> has (qtails (db s)) k \<and> (\<forall>i. \<not> has (qentries (db s)) (k, i))"

text \<open>No row of what is not a promise, and no queue but the run queue.\<close>

definition bare :: "string \<Rightarrow> ctx \<Rightarrow> bool" where
  "bare k s \<longleftrightarrow> \<not> has (pstates (db s)) k \<and> \<not> has (pvalues (db s)) k \<and> \<not> has (pdeciders (db s)) k \<and>
     \<not> has (psubscribers (db s)) k \<and>
     \<not> has (qheads (db s)) k \<and> \<not> has (qtails (db s)) k \<and> (\<forall>i. \<not> has (qentries (db s)) (k, i))"

definition promise_wf :: "ctx \<Rightarrow> bool" where
  "promise_wf s \<longleftrightarrow> (\<forall>k. k \<noteq> ''run'' \<longrightarrow> unsettled k s \<or> (\<exists>st v. settled k st v s) \<or> bare k s)"

text \<open>What an operation on one promise leaves alone: the rows of the others.\<close>

definition other_promises_same :: "string \<Rightarrow> ctx \<Rightarrow> ctx \<Rightarrow> bool" where
  "other_promises_same q s s' \<longleftrightarrow> other_queues_same q s s' \<and>
     (\<forall>r. r \<noteq> q \<longrightarrow> tget (pstates (db s')) r = tget (pstates (db s)) r \<and>
        tget (pvalues (db s')) r = tget (pvalues (db s)) r \<and>
        tget (pdeciders (db s')) r = tget (pdeciders (db s)) r \<and>
        tget (psubscribers (db s')) r = tget (psubscribers (db s)) r)"

lemma queue_ok_other:
  assumes "other_queues_same q s s'" and "r \<noteq> q"
  shows "queue_ok False r s' = queue_ok False r s" and "queue_items r s' = queue_items r s"
  using assms by (auto simp: other_queues_same_def queue_ok_def queue_items_def has_def split: option.splits)

lemma unsettled_other: "other_promises_same q s s' \<Longrightarrow> r \<noteq> q \<Longrightarrow> unsettled r s' = unsettled r s"
  using queue_ok_other [of q s s' r] by (simp add: other_promises_same_def unsettled_def has_def)

lemma settled_other: "other_promises_same q s s' \<Longrightarrow> r \<noteq> q \<Longrightarrow> settled r st v s' = settled r st v s"
  by (simp add: other_promises_same_def other_queues_same_def settled_def has_def)

lemma bare_other: "other_promises_same q s s' \<Longrightarrow> r \<noteq> q \<Longrightarrow> bare r s' = bare r s"
  by (simp add: other_promises_same_def other_queues_same_def bare_def has_def)

lemma promise_wf_other:
  assumes "promise_wf s" and "other_promises_same q s s'"
    and "unsettled q s' \<or> (\<exists>st v. settled q st v s') \<or> bare q s'"
  shows "promise_wf s'"
  unfolding promise_wf_def
proof (intro allI impI)
  fix k assume "k \<noteq> ''run''"
  with assms show "unsettled k s' \<or> (\<exists>st v. settled k st v s') \<or> bare k s'"
    by (cases "k = q") (auto simp: promise_wf_def unsettled_other settled_other bare_other)
qed

lemma isKRef_not_run: "isKRef k \<Longrightarrow> k \<noteq> ''run''"
  by auto

lemma promise_wf_cases:
  assumes "promise_wf s" and "isKRef k"
  obtains "unsettled k s" | st v where "settled k st v s" | "bare k s"
  using assms isKRef_not_run [OF assms(2)] unfolding promise_wf_def by blast

lemma getKernelPromise_unsettled:
  assumes "unsettled k s"
  shows "\<exists>d subs. tget (psubscribers (db s)) k = Some subs \<and>
    d = (case tget (pdeciders (db s)) k of None \<Rightarrow> None | Some x \<Rightarrow> if x = '''' then None else Some x) \<and>
    getKernelPromise k s =
     (Inr \<lparr>kp_state = Unresolved, kp_decider = d, kp_subscribers = Some subs, kp_value = None\<rparr>, s)"
  using assms
  by (auto simp: unsettled_def getKernelPromise_def parseRef_kref getRequired_def has_def sm_simps
      insistEndpointId_def split: option.splits)

lemma getKernelPromise_settled:
  assumes "settled k st v s"
  shows "getKernelPromise k s =
     (Inr \<lparr>kp_state = st, kp_decider = None, kp_subscribers = None, kp_value = Some v\<rparr>, s)"
  using assms
  by (auto simp: settled_def getKernelPromise_def parseRef_kref getRequired_def sm_simps split: option.splits)

lemma getKernelPromise_unknown:
  assumes "isKRef k" and "isPromiseRef k" and "\<not> has (pstates (db s)) k"
  shows "getKernelPromise k s = (Inl (JsError ''unknown kernel promise'' [k]), s)"
  using assms by (auto simp: getKernelPromise_def parseRef_kref has_def sm_simps)

text \<open>Counting never deletes a row.\<close>

definition keeps_live :: "'a store \<Rightarrow> bool" where
  "keeps_live m \<longleftrightarrow> (\<forall>s j. live j s \<longrightarrow> live j (snd (m s)))"

lemma keeps_liveD: "keeps_live m \<Longrightarrow> m s = (r, s') \<Longrightarrow> live j s \<Longrightarrow> live j s'"
  unfolding keeps_live_def by (metis snd_conv)

lemma keeps_live_basic [simp]:
  "keeps_live (ret x)" "keeps_live (fail e)" "keeps_live (gets f)" "keeps_live (lift r)"
  "keeps_live (require b e)" "keeps_live (kvWrite (refCounts_update (tput k v)))" "keeps_live (addMaybeFree k)"
  by (simp_all add: keeps_live_def addMaybeFree_def) (simp add: live_def)

lemma keeps_live_bnd:
  assumes "keeps_live m" and "\<And>x. keeps_live (f x)"
  shows "keeps_live (bnd m f)"
  unfolding keeps_live_def
proof (intro allI impI)
  fix s j assume l: "live j s"
  obtain r t where r: "m s = (r, t)" by fastforce
  have "live j t" using keeps_liveD [OF assms(1) r l] .
  with r assms(2) show "live j (snd (bnd m f s))" by (cases r) (auto simp: bnd_def keeps_live_def)
qed

lemma keeps_live_thn: "keeps_live m \<Longrightarrow> keeps_live n \<Longrightarrow> keeps_live (thn m n)"
  unfolding thn_def by (rule keeps_live_bnd)

lemma keeps_live_whenM: "keeps_live m \<Longrightarrow> keeps_live (whenM b m)"
  by (simp add: whenM_def)

lemma keeps_live_forEach: "(\<And>x. keeps_live (f x)) \<Longrightarrow> keeps_live (forEach xs f)"
  by (induction xs) (auto intro: keeps_live_thn)

lemma keeps_live_getObjectRefCount [simp]: "keeps_live (getObjectRefCount k)"
  by (auto simp: getObjectRefCount_def Let_def intro!: keeps_live_bnd keeps_live_thn split: option.split)

lemma keeps_live_setObjectRefCount [simp]: "keeps_live (setObjectRefCount k c)"
  by (auto simp: setObjectRefCount_def intro!: keeps_live_thn split: prod.split)

lemma keeps_live_increment [simp]: "keeps_live (incrementRefCount k x w)"
  by (auto simp: incrementRefCount_def intro!: keeps_live_bnd keeps_live_thn split: prod.split)

lemma keeps_live_decrement [simp]: "keeps_live (decrementRefCount k x w)"
  by (auto simp: decrementRefCount_def Let_def
      intro!: keeps_live_bnd keeps_live_thn keeps_live_whenM split: prod.split option.split)

lemma keeps_live_mapEach: "(\<And>x. keeps_live (f x)) \<Longrightarrow> keeps_live (mapEach f xs)"
  by (induction xs) (auto intro!: keeps_live_bnd)

section \<open>Settling a promise\<close>

definition settle_rows :: "string \<Rightarrow> bool \<Rightarrow> capdata \<Rightarrow> ctx \<Rightarrow> ctx" where
  "settle_rows k rej v s =
     db_update (\<lambda>d. psubscribers_update (tdel k) (pdeciders_update (tdel k) (pvalues_update (tput k v)
       (pstates_update (tput k (if rej then Rejected else Fulfilled)) d)))) s"

lemma credits_promises:
  assumes "gcActions (cache s) = gcActions (cache s')" and "clists (db s) = clists (db s')"
    and "qentries (db s) = qentries (db s')" and "crankBuffer s = crankBuffer s'" and "pinned (db s) = pinned (db s')"
  shows "credits s' + tsum (promise_credit (pvalues (db s))) (pstates (db s)) =
    credits s + tsum (promise_credit (pvalues (db s'))) (pstates (db s'))"
  using assms by (simp add: credits_def gc_action_list_def)

lemma credits_settle:
  assumes "unsettled k s"
  shows "credits (settle_rows k rej v s) + {#(k, False)#} = credits s + refs (slots v)"
proof (rule swap_sums [OF credits_promises])
  let ?vs = "pvalues (db s)" and ?vs' = "tput k v (pvalues (db s))" and ?ps = "pstates (db s)"
  let ?st = "if rej then Rejected else Fulfilled"
  have k: "isKRef k" "isPromiseRef k" "tget ?ps k = Some Unresolved"
    using assms by (simp_all add: unsettled_def)
  have "tsum (promise_credit ?vs') ?ps = tsum (promise_credit ?vs) ?ps"
    by (rule tsum_cong) (use k in \<open>auto simp: promise_credit_def value_slots_def\<close>)
  moreover have "tsum (promise_credit ?vs') (tput k ?st ?ps) + {#(k, False)#} =
      tsum (promise_credit ?vs') ?ps + refs (slots v)"
    using tsum_tput_old [OF k(3), of "promise_credit ?vs'" ?st] k(1,2)
    by (simp add: promise_credit_def value_slots_def)
  ultimately show "tsum (promise_credit (pvalues (db (settle_rows k rej v s)))) (pstates (db (settle_rows k rej v s))) +
      {#(k, False)#} = tsum (promise_credit ?vs) ?ps + refs (slots v)"
    by (simp add: settle_rows_def)
qed (simp_all add: settle_rows_def)

lemma delete_queue_empty:
  assumes "queue_ok False q s" and "queue_items q s = []"
  shows "delete_queue q s = (Inr (), db_update (\<lambda>d. d\<lparr>qheads := tdel q (qheads d), qtails := tdel q (qtails d)\<rparr>) s)"
    and "\<not> has (qentries (db s)) (q, i)"
proof -
  obtain h t where ht: "tget (qheads (db s)) q = Some h" "tget (qtails (db s)) q = Some t" "t \<le> h"
    "queue_head False q s = Some h" "queue_tail False q s = Some t"
    and en: "\<And>i. has (qentries (db s)) (q, i) \<longleftrightarrow> t \<le> i \<and> i < h"
    using assms(1) by (rule queue_okE) blast
  with assms(2) have "t = h" by (auto simp: queue_items_def)
  with ht en show "delete_queue q s = (Inr (), db_update (\<lambda>d. d\<lparr>qheads := tdel q (qheads d), qtails := tdel q (qtails d)\<rparr>) s)"
    and "\<not> has (qentries (db s)) (q, i)" by (simp_all add: delete_queue_def thn_run)
qed

lemma settle_rows_frame [simp]:
  "refCounts (db (settle_rows k rej v s)) = refCounts (db s)"
  "queue_ok c q (settle_rows k rej v s) = queue_ok c q s"
  "queue_items q (settle_rows k rej v s) = queue_items q s"
  "exact C (settle_rows k rej v s) = exact C s"
  by (auto simp: settle_rows_def queue_ok_def queue_items_def exact_def row_exact_def split: option.split)

text \<open>Counting does not touch a promise's rows or queue.\<close>

lemma same_but_counts_rows:
  assumes "same_but_counts s s'"
  shows "pstates (db s') = pstates (db s)" and "pvalues (db s') = pvalues (db s)"
    and "psubscribers (db s') = psubscribers (db s)" and "pdeciders (db s') = pdeciders (db s)"
    and "qheads (db s') = qheads (db s)" and "qtails (db s') = qtails (db s)" and "qentries (db s') = qentries (db s)"
    and "rqHead s' = rqHead s" and "rqTail s' = rqTail s"
  by (rule same_but_countsD [OF assms, of "\<lambda>t. pstates (db t)"] same_but_countsD [OF assms, of "\<lambda>t. pvalues (db t)"]
        same_but_countsD [OF assms, of "\<lambda>t. psubscribers (db t)"] same_but_countsD [OF assms, of "\<lambda>t. pdeciders (db t)"]
        same_but_countsD [OF assms, of "\<lambda>t. qheads (db t)"] same_but_countsD [OF assms, of "\<lambda>t. qtails (db t)"]
        same_but_countsD [OF assms, of "\<lambda>t. qentries (db t)"] same_but_countsD [OF assms, of rqHead]
        same_but_countsD [OF assms, of rqTail]; simp add: without_counts_def)+

lemma same_but_counts_queue:
  assumes "same_but_counts s s'"
  shows "queue_ok c q s' = queue_ok c q s" and "queue_items q s' = queue_items q s"
  using same_but_counts_rows [OF assms] by (simp_all add: queue_ok_def queue_items_def cong: option.case_cong)

lemma same_but_counts_promises:
  assumes "same_but_counts s s'"
  shows "unsettled k s' = unsettled k s" and "settled k st v s' = settled k st v s"
    and "promise_wf s' = promise_wf s"
  using same_but_counts_rows [OF assms]
  by (simp_all add: unsettled_def settled_def bare_def promise_wf_def same_but_counts_queue [OF assms])

lemma other_promises_trans:
  "other_promises_same q s t \<Longrightarrow> other_promises_same q t u \<Longrightarrow> other_promises_same q s u"
  unfolding other_promises_same_def by (auto intro: other_queues_trans)

lemma other_promises_counts:
  "same_but_counts s s' \<Longrightarrow> other_promises_same q s s'"
  using same_but_counts_rows [of s s'] by (simp add: other_promises_same_def other_queues_same_def)

lemma other_promises_queues:
  "other_queues_same q s s' \<Longrightarrow> same_but_queues s s' \<Longrightarrow> other_promises_same q s s'"
  using same_but_queues_rows [of s s'] by (simp add: other_promises_same_def)

lemma acct_same_rows: "refCounts (db s') = refCounts (db s) \<Longrightarrow> credits s + M = credits s' + N \<Longrightarrow> acct M s \<Longrightarrow> acct N s'"
  using exact_cong [of s s'] by (simp add: acct_def)

lemma counts_only_mapEach: "(\<And>x. counts_only (f x)) \<Longrightarrow> counts_only (mapEach f xs)"
  by (induction xs) (simp_all del: ret_run add: counts_only_bnd)

text \<open>
  The whole of a settlement: with the references of the new value in hand, the promise's
  messages are handed back in order, their references released, and its decision with them;
  the value's references are the promise's own from here on.
\<close>

lemma resolveKernelPromise_run:
  assumes u: "unsettled k s" and ms: "queue_items k s = map QMsg ms" and a: "acct (refs (slots v) + M) s"
  shows "\<exists>s'. resolveKernelPromise k rej v s = (Inr (map (Pair k) ms), s') \<and> acct M s' \<and>
    settled k (if rej then Rejected else Fulfilled) v s' \<and> other_promises_same k s s' \<and>
    rqHead s' = rqHead s \<and> rqTail s' = rqTail s \<and> runQueueLengthCache s' = runQueueLengthCache s \<and>
    (\<forall>j. live j s \<longrightarrow> live j s')"
proof -
  have k: "isKRef k" "isPromiseRef k" and q: "queue_ok False k s" using u by (simp_all add: unsettled_def)
  note nr = isKRef_not_run [OF k(1)]
  obtain s1 where s1: "getKernelPromiseMessageQueue k s = (Inr ms, s1)" and q1: "queue_ok False k s1"
    and i1: "queue_items k s1 = []" and f1: "same_but_queues s s1" and c1: "credits s1 + held k ms = credits s"
    and o1: "other_queues_same k s s1" "rqHead s1 = rqHead s" "rqTail s1 = rqTail s"
    using getKernelPromiseMessageQueue_run [OF nr q ms] by blast
  have a1: "acct (held k ms + (refs (slots v) + M)) s1"
    by (rule acct_same_rows [OF same_but_queues_rows(1) [OF f1] _ a]) (simp add: c1 [symmetric] ac_simps)
  obtain r s2 where s2: "mapEach (\<lambda>m. thn (releaseQueuedMessageRefs k m) (ret (k, m))) ms s1 = (Inr r, s2)"
    and a2: "acct (refs (slots v) + M) s2" and r: "r = map (Pair k) ms"
    using release_all_acct a1 by (rule totalD) auto
  have f2: "same_but_counts s1 s2"
    using s2 by (intro counts_onlyD [of "mapEach (\<lambda>m. thn (releaseQueuedMessageRefs k m) (ret (k, m))) ms"])
      (simp_all del: ret_run add: counts_only_mapEach counts_only_thn)
  let ?s3 = "settle_rows k rej v s2"
  have u1: "tget (pstates (db s2)) k = Some Unresolved \<and> isKRef k \<and> isPromiseRef k"
    using u same_but_queues_rows [OF f1] same_but_counts_rows [OF f2] by (simp add: unsettled_def)
  have u2: "unsettled k s2"
    using u u1 q1 i1 same_but_queues_rows [OF f1] same_but_counts_rows [OF f2] same_but_counts_queue [OF f2]
    by (simp add: unsettled_def)
  have a3: "acct (add_mset (k, False) M) ?s3"
    by (rule acct_same_rows [OF _ _ a2]) (use credits_settle [OF u2, of rej v] in \<open>simp_all add: ac_simps\<close>)
  obtain s4 where s4: "decrement k ?s3 = (Inr (), s4)" and a4: "acct M s4"
    using decrement_acct a3 by (rule totalD) auto
  have f4: "same_but_counts ?s3 s4"
    using s4 by (intro counts_onlyD [of "decrement k" ?s3 "Inr ()" s4]) (simp_all del: ret_run add: counts_only_thn)
  have q4: "queue_ok False k s4" "queue_items k s4 = []"
    using q1 i1 same_but_counts_queue [OF f2] same_but_counts_queue [OF f4] by simp_all
  let ?s5 = "db_update (\<lambda>d. d\<lparr>qheads := tdel k (qheads d), qtails := tdel k (qtails d)\<rparr>) s4"
  have s5: "delete_queue k s4 = (Inr (), ?s5)" and e5: "\<And>i. \<not> has (qentries (db s4)) (k, i)"
    using delete_queue_empty [OF q4] by auto
  have w: "thn (kvWrite (pstates_update (tput k (if rej then Rejected else Fulfilled))))
      (thn (kvWrite (pvalues_update (tput k v))) (thn (kvWrite (pdeciders_update (tdel k)))
        (thn (kvWrite (psubscribers_update (tdel k))) m))) s2 = m ?s3" for m :: "(string \<times> message) list store"
    by (simp add: settle_rows_def comp_def)
  have "resolveKernelPromise k rej v s = (Inr (map (Pair k) ms), ?s5)"
    unfolding resolveKernelPromise_def using s1 s2 s4 s5 r
    by (simp add: provide_present [OF q] w del: thn_modify)
  moreover have "acct M ?s5"
    by (rule acct_same_rows [OF _ _ a4]) (auto intro: credits_cong)
  moreover have "settled k (if rej then Rejected else Fulfilled) v ?s5"
    using k e5 same_but_counts_rows [OF f4] by (simp add: settled_def settle_rows_def)
  moreover have "other_promises_same k s ?s5"
  proof -
    have "other_promises_same k s2 ?s3" "other_promises_same k s4 ?s5"
      by (simp_all add: other_promises_same_def other_queues_same_def settle_rows_def)
    then show ?thesis
      using other_promises_queues [OF o1(1) f1] other_promises_counts [OF f2] other_promises_counts [OF f4]
      by (meson other_promises_trans)
  qed
  moreover have "rqHead ?s5 = rqHead s \<and> rqTail ?s5 = rqTail s \<and> runQueueLengthCache ?s5 = runQueueLengthCache s"
    using o1(2,3) same_but_counts_rows(8,9) [OF f2] same_but_counts_rows(8,9) [OF f4] same_but_queuesP [OF f1, of runQueueLengthCache]
      same_but_countsD [OF f2, of runQueueLengthCache] same_but_countsD [OF f4, of runQueueLengthCache]
    by (simp add: settle_rows_def without_queues_def without_counts_def)
  moreover have "\<forall>j. live j s \<longrightarrow> live j ?s5"
  proof -
    have "keeps_live (mapEach (\<lambda>m. thn (releaseQueuedMessageRefs k m) (ret (k, m))) ms)"
      unfolding releaseQueuedMessageRefs_def
      by (intro keeps_live_mapEach keeps_live_thn keeps_live_forEach) (auto intro: keeps_live_thn split: option.split)
    then have "live j s2" if "live j s1" for j using s2 that by (rule keeps_liveD)
    then have "live j s2" if "live j s" for j using that same_but_queues_rows(1) [OF f1] by (simp add: live_def)
    moreover have "live j s4" if "live j s2" for j
    proof -
      have "keeps_live (decrement k)" by (intro keeps_live_thn) simp_all
      moreover have "live j ?s3" using that by (simp add: live_def)
      ultimately have "live j (snd (decrement k ?s3))" unfolding keeps_live_def by blast
      then show ?thesis by (simp only: s4 snd_conv)
    qed
    ultimately show ?thesis by (simp add: live_def)
  qed
  ultimately show ?thesis by blast
qed

section \<open>New promises\<close>

definition promise_ids_fresh :: "ctx \<Rightarrow> bool" where
  "promise_ids_fresh s \<longleftrightarrow> ids_fresh s \<and>
     (\<forall>n. nextPromiseId (cache s) = Some n \<longrightarrow> (\<forall>m\<ge>n. \<not> has (pstates (db s)) (promise_slot m)))"

lemma initKernelPromise_run:
  assumes a: "acct M s" and wf: "promise_wf s" and f: "promise_ids_fresh s"
  shows "\<exists>n s'. nextPromiseId (cache s) = Some n \<and>
    initKernelPromise s = (Inr (promise_slot n, \<lparr>kp_state = Unresolved, kp_decider = None,
                            kp_subscribers = Some [], kp_value = None\<rparr>), s') \<and>
    acct M s' \<and> promise_wf s' \<and> promise_ids_fresh s' \<and> unsettled (promise_slot n) s' \<and>
    queue_items (promise_slot n) s' = [] \<and> live (promise_slot n) s' \<and> \<not> live (promise_slot n) s \<and>
    other_promises_same (promise_slot n) s s' \<and> clists (db s') = clists (db s) \<and>
    rqHead s' = rqHead s \<and> rqTail s' = rqTail s \<and> runQueueLengthCache s' = runQueueLengthCache s \<and>
    nextPromiseId (cache s') = Some (n + 1)"
proof -
  obtain n where n: "nextPromiseId (cache s) = Some n" and fr: "\<And>m. n \<le> m \<Longrightarrow> \<not> live (promise_slot m) s"
    and fp: "\<And>m. n \<le> m \<Longrightarrow> \<not> has (pstates (db s)) (promise_slot m)"
    using f by (auto simp: promise_ids_fresh_def ids_fresh_def)
  let ?k = "promise_slot n"
  have bare: "bare ?k s"
    using wf fp [of n] isKRef_not_run [of ?k] by (auto simp: promise_wf_def unsettled_def settled_def has_def)
  let ?s = "s\<lparr>cache := (cache s)\<lparr>nextPromiseId := Some (n + 1)\<rparr>,
      db := (db s)\<lparr>cachedRows := (cachedRows (db s))\<lparr>nextPromiseId := Some (n + 1)\<rparr>,
        qheads := tput ?k 1 (qheads (db s)), qtails := tput ?k 1 (qtails (db s)),
        pstates := tput ?k Unresolved (pstates (db s)), psubscribers := tput ?k [] (psubscribers (db s)),
        refCounts := tput ?k ''1'' (refCounts (db s))\<rparr>\<rparr>"
  have run: "initKernelPromise s = (Inr (?k, \<lparr>kp_state = Unresolved, kp_decider = None,
      kp_subscribers = Some [], kp_value = None\<rparr>), ?s)"
    using n bare
    by (simp add: initKernelPromise_def getNextPromiseId_def incCounter_def promise_slot_def [symmetric]
        provideStoredQueue_def put_if_absent_def bnd_run thn_run bare_def has_def del: makeKernelSlot.simps)
  have cr: "credits ?s = credits s + {#(?k, False)#}"
  proof -
    have "credits ?s + {#} = credits s + {#(?k, False)#}"
      by (rule swap_sums [OF credits_promises [of s ?s]])
        (use bare in \<open>simp_all add: tsum_tput_new promise_credit_def bare_def\<close>)
    then show ?thesis by simp
  qed
  have "row_exact (credits ?s + M) ?s j" for j
  proof (cases "j = ?k")
    case True
    have "recog j (credits s + M) = 0" using acct_gone [OF a] fr [of n] True by simp
    then have "reach j (credits ?s + M) = 1"
      using reach_le_recog [of j "credits s + M"] True unfolding cr by simp
    then show ?thesis using True by (simp add: row_exact_def count_text_def nat_text_eval)
  next
    case False
    have "row_exact (credits s + M) s j" using a by (simp add: acct_def exact_def)
    with False show ?thesis unfolding cr by (auto simp: row_exact_def split: if_splits)
  qed
  then have a': "acct M ?s" unfolding acct_def exact_def by blast
  have "queue_ok False ?k ?s"
    by (rule queue_okI [of _ _ 1 1]) (use bare in \<open>simp_all add: queue_head_def queue_tail_def bare_def\<close>)
  moreover have qi: "queue_items ?k ?s = []" by (simp add: queue_items_def)
  ultimately have u: "unsettled ?k ?s" using bare by (simp add: unsettled_def bare_def has_def)
  have o1: "other_promises_same ?k s ?s" by (simp add: other_promises_same_def other_queues_same_def)
  have "promise_wf ?s" using promise_wf_other [OF wf o1] u by blast
  moreover have "promise_ids_fresh ?s"
    using f n fr fp by (auto simp: promise_ids_fresh_def ids_fresh_def live_def)
  moreover have "live ?k ?s" by (simp add: live_def)
  ultimately show ?thesis using n run a' u qi o1 fr [of n] by (intro exI [of _ n] exI [of _ ?s]) simp
qed

section \<open>Queueing a message on a promise\<close>

lemma forEach_increment_run:
  assumes "exact C s" and "\<And>k. k \<in> set ks \<Longrightarrow> isKRef k \<and> live k s"
  shows "\<exists>s'. forEach ks increment s = (Inr (), s') \<and> exact (refs ks + C) s' \<and> (\<forall>j. live j s \<longrightarrow> live j s') \<and>
    same_but_counts s s'"
  using assms
proof (induction ks arbitrary: C s)
  case Nil
  then show ?case by simp
next
  case (Cons k ks)
  have k: "isKRef k" "live k s" using Cons.prems(2) by auto
  obtain s1 where s1: "increment k s = (Inr (), s1)" and x1: "exact (add_mset (k, False) C) s1"
    using incrementRefCount_live [OF k(1) _ Cons.prems(1) k(2), of False False] by auto
  have l1: "live j s \<Longrightarrow> live j s1" for j using keeps_liveD [OF keeps_live_increment s1] .
  obtain s2 where "forEach ks increment s1 = (Inr (), s2)" "exact (refs ks + add_mset (k, False) C) s2"
    "\<forall>j. live j s1 \<longrightarrow> live j s2" "same_but_counts s1 s2"
    using Cons.IH [OF x1] Cons.prems(2) l1 by auto
  then show ?case
    using s1 l1 counts_onlyD [OF counts_only_increment s1] by (auto intro: same_but_counts_trans)
qed

text \<open>The increments of \<open>enqueuePromiseMessage\<close> are those of the message's references in order.\<close>

lemma forEach_append: "forEach (xs @ ys) f s = thn (forEach xs f) (forEach ys f) s"
  by (induction xs arbitrary: s) (auto simp: thn_run split: prod.split sum.split)

lemma thn_assoc: "thn (thn a b) c s = thn a (thn b c) s"
  by (auto simp: thn_run split: prod.split sum.split)

lemma thn_cong2: "(\<And>s. b s = b' s) \<Longrightarrow> thn a b s = thn a b' s"
  by (auto simp: thn_run split: prod.split sum.split)

lemma enqueuePromiseMessage_unfold:
  "enqueuePromiseMessage k m s =
    thn (forEach (k # message_refs m) increment)
      (thn (provideStoredQueue k False) (enqueue False k (QMsg m))) s"
proof (cases "result_ref (result m)")
  case None
  then show ?thesis
    by (auto simp: enqueuePromiseMessage_def message_refs_def thn_run split: prod.split sum.split)
next
  case (Some r)
  then show ?thesis
    by (auto simp: enqueuePromiseMessage_def message_refs_def thn_run split: prod.split sum.split)
qed

lemma enqueuePromiseMessage_run:
  assumes u: "unsettled k s" and a: "acct M s" and l: "\<And>r. r \<in> set (message_refs m) \<Longrightarrow> isKRef r \<and> live r s"
  shows "\<exists>s'. enqueuePromiseMessage k m s = (Inr (), s') \<and> acct M s' \<and> unsettled k s' \<and>
    queue_items k s' = queue_items k s @ [QMsg m] \<and> other_promises_same k s s' \<and>
    rqHead s' = rqHead s \<and> rqTail s' = rqTail s \<and> runQueueLengthCache s' = runQueueLengthCache s"
proof -
  have k: "isKRef k" using u by (simp add: unsettled_def)
  have lk: "live k s"
  proof (rule ccontr)
    assume "\<not> live k s"
    then have z: "recog k (credits s) = 0" using acct_gone [OF a] by simp
    have ps: "tget (pstates (db s)) k = Some Unresolved" "isPromiseRef k" using u by (simp_all add: unsettled_def)
    have "tsum (promise_credit (pvalues (db s))) (pstates (db s)) =
        tsum (promise_credit (pvalues (db s))) (tdel k (pstates (db s))) + {#(k, False)#}"
      using tsum_tdel_old [OF ps(1), of "promise_credit (pvalues (db s))"] ps(2) k by (simp add: promise_credit_def)
    then have "recog k (credits s) > 0" by (simp add: credits_def)
    with z show False by simp
  qed
  obtain s1 where s1: "forEach (k # message_refs m) increment s = (Inr (), s1)"
    and x1: "exact (refs (k # message_refs m) + (credits s + M)) s1" and f1: "same_but_counts s s1"
    using forEach_increment_run [of "credits s + M" s "k # message_refs m"] a l k lk by (auto simp: acct_def)
  have q1: "queue_ok False k s1" using u same_but_counts_queue [OF f1] by (simp add: unsettled_def)
  obtain s2 where s2: "enqueue False k (QMsg m) s1 = (Inr (), s2)" and q2: "queue_ok False k s2"
    and i2: "queue_items k s2 = queue_items k s1 @ [QMsg m]" and f2: "same_but_queues s1 s2"
    and c2: "credits s2 = credits s1 + entry_refs k (QMsg m)" and o2: "other_queues_same k s1 s2"
    and h2: "rqHead s2 = rqHead s1" "rqTail s2 = rqTail s1"
    using enqueue_full [OF q1, of "QMsg m"] by blast
  have "enqueuePromiseMessage k m s = (Inr (), s2)"
    unfolding enqueuePromiseMessage_unfold using s1 s2 by (simp add: provide_present [OF q1] del: forEach.simps)
  moreover have "acct M s2"
  proof -
    have "credits s2 + M = refs (k # message_refs m) + (credits s + M)"
      using isKRef_not_run [OF k] by (simp add: c2 same_but_counts_credits [OF f1])
    moreover have "exact (refs (k # message_refs m) + (credits s + M)) s2"
      using x1 exact_cong [of s1 s2] same_but_queues_rows(1) [OF f2] by simp
    ultimately show ?thesis unfolding acct_def by metis
  qed
  moreover have "unsettled k s2"
    using u q2 i2 same_but_counts_rows [OF f1] same_but_queues_rows [OF f2] same_but_counts_queue [OF f1]
    by (auto simp: unsettled_def) (metis list.simps(8,9) map_append)
  moreover have "queue_items k s2 = queue_items k s @ [QMsg m]" using i2 same_but_counts_queue [OF f1] by simp
  moreover have "other_promises_same k s s2"
    using other_promises_trans other_promises_counts [OF f1] other_promises_queues [OF o2 f2] by blast
  moreover have "rqHead s2 = rqHead s \<and> rqTail s2 = rqTail s \<and> runQueueLengthCache s2 = runQueueLengthCache s"
    using h2 same_but_counts_rows(8,9) [OF f1] same_but_queuesP [OF f2, of runQueueLengthCache] same_but_countsD [OF f1, of runQueueLengthCache]
    by (simp add: without_queues_def without_counts_def)
  ultimately show ?thesis by blast
qed

section \<open>The promises a resolution makes visible\<close>

text \<open>
  One step of visibility: from a promise to a settled promise among the slots of its value. The
  promise being resolved has the value it is resolved with, whatever its row says.
\<close>

definition has_value :: "ctx \<Rightarrow> string \<Rightarrow> capdata \<Rightarrow> string \<Rightarrow> capdata \<Rightarrow> bool" where
  "has_value s k0 v0 x w \<longleftrightarrow> (if x = k0 then w = v0 else tget (pvalues (db s)) x = Some w)"

definition visible :: "ctx \<Rightarrow> string \<Rightarrow> capdata \<Rightarrow> (string \<times> string) set" where
  "visible s k0 v0 = {(x, y). \<exists>w. has_value s k0 v0 x w \<and> y \<in> set (slots w) \<and> isPromiseRef y \<and> has (pvalues (db s)) y}"

text \<open>Every promise a value names is one the kernel has.\<close>

definition slots_known :: "ctx \<Rightarrow> capdata \<Rightarrow> bool" where
  "slots_known s v0 \<longleftrightarrow> (\<forall>w y. w = v0 \<or> (\<exists>x. tget (pvalues (db s)) x = Some w) \<longrightarrow>
     y \<in> set (slots w) \<longrightarrow> isPromiseRef y \<longrightarrow> isKRef y \<and> has (pstates (db s)) y)"

lemma getKernelPromise_known:
  assumes "promise_wf s" and "isKRef y" and "has (pstates (db s)) y"
  shows "\<exists>p. getKernelPromise y s = (Inr p, s) \<and>
    kp_value p = tget (pvalues (db s)) y \<and> (kp_state p = Unresolved \<longleftrightarrow> \<not> has (pvalues (db s)) y)"
  using assms(1,2)
proof (cases rule: promise_wf_cases)
  case 1
  then show ?thesis using getKernelPromise_unsettled [OF 1] by (auto simp: unsettled_def has_def)
next
  case (2 st v)
  then show ?thesis using getKernelPromise_settled [OF 2] by (auto simp: settled_def has_def)
next
  case 3
  with assms(3) show ?thesis by (simp add: bare_def)
qed

definition scan_post :: "ctx \<Rightarrow> string \<Rightarrow> capdata \<Rightarrow> string set \<Rightarrow> string list \<Rightarrow> string list \<Rightarrow> bool" where
  "scan_post s k0 v0 roots seen seen' \<longleftrightarrow> distinct seen' \<and> (\<exists>zs. seen' = seen @ zs) \<and> roots \<subseteq> set seen' \<and>
     (\<forall>x \<in> set seen' - set seen. (\<exists>r \<in> roots. (r, x) \<in> (visible s k0 v0)\<^sup>*) \<and>
        (\<forall>y. (x, y) \<in> visible s k0 v0 \<longrightarrow> y \<in> set seen'))"

lemma scan_postD:
  assumes "scan_post s k0 v0 roots seen seen'" and "x \<in> set seen'" and "x \<notin> set seen"
  shows "\<exists>r \<in> roots. (r, x) \<in> (visible s k0 v0)\<^sup>*" and "(x, y) \<in> visible s k0 v0 \<Longrightarrow> y \<in> set seen'"
  using assms unfolding scan_post_def by blast+

lemma scan_post_sub: "scan_post s k0 v0 roots seen seen' \<Longrightarrow> set seen \<subseteq> set seen'"
  by (auto simp: scan_post_def)

lemma scan_post_trans:
  assumes p: "scan_post s k0 v0 A a b" and q: "scan_post s k0 v0 B b c"
  shows "scan_post s k0 v0 (A \<union> B) a c"
  unfolding scan_post_def
proof (intro conjI ballI)
  show "distinct c" using q by (simp add: scan_post_def)
  show "\<exists>zs. c = a @ zs" using p q by (auto simp: scan_post_def)
  show "A \<union> B \<subseteq> set c" using p q scan_post_sub [OF q] by (auto simp: scan_post_def)
  fix x assume x: "x \<in> set c - set a"
  show "\<exists>r \<in> A \<union> B. (r, x) \<in> (visible s k0 v0)\<^sup>*"
    using scan_postD(1) [OF p, of x] scan_postD(1) [OF q, of x] x by blast
  show "\<forall>y. (x, y) \<in> visible s k0 v0 \<longrightarrow> y \<in> set c"
    using scan_postD(2) [OF p, of x] scan_postD(2) [OF q, of x] x scan_post_sub [OF q] by blast
qed

lemma scan_post_more:
  assumes "scan_post s k0 v0 A a b" and "B \<subseteq> set a"
  shows "scan_post s k0 v0 (B \<union> A) a b"
  unfolding scan_post_def
proof (intro conjI ballI)
  show "distinct b" "\<exists>zs. b = a @ zs" "B \<union> A \<subseteq> set b" using assms scan_post_sub [OF assms(1)] by (auto simp: scan_post_def)
  fix x assume x: "x \<in> set b - set a"
  show "\<exists>r \<in> B \<union> A. (r, x) \<in> (visible s k0 v0)\<^sup>*" using scan_postD(1) [OF assms(1), of x] x by blast
  show "\<forall>y. (x, y) \<in> visible s k0 v0 \<longrightarrow> y \<in> set b" using scan_postD(2) [OF assms(1), of x] x by blast
qed

lemma scan_post_push:
  assumes p: "scan_post s k0 v0 {y. (k, y) \<in> visible s k0 v0} (a @ [k]) b" and k: "k \<notin> set a"
  shows "scan_post s k0 v0 {k} a b"
  unfolding scan_post_def
proof (intro conjI ballI)
  obtain zs where "b = (a @ [k]) @ zs" using p unfolding scan_post_def by blast
  then show "\<exists>zs. b = a @ zs" "{k} \<subseteq> set b" by auto
  show "distinct b" using p unfolding scan_post_def by blast
  fix x assume x: "x \<in> set b - set a"
  show "\<exists>r \<in> {k}. (r, x) \<in> (visible s k0 v0)\<^sup>*"
  proof (cases "x = k")
    case False
    then obtain y where "(k, y) \<in> visible s k0 v0" "(y, x) \<in> (visible s k0 v0)\<^sup>*"
      using scan_postD(1) [OF p, of x] x by auto
    then show ?thesis by (simp add: converse_rtrancl_into_rtrancl)
  qed simp
  show "\<forall>y. (x, y) \<in> visible s k0 v0 \<longrightarrow> y \<in> set b"
  proof (cases "x = k")
    case True
    then show ?thesis using p unfolding scan_post_def by blast
  next
    case False
    then show ?thesis using scan_postD(2) [OF p, of x] x by auto
  qed
qed

definition scannable :: "ctx \<Rightarrow> string \<Rightarrow> string set" where
  "scannable s k0 = insert k0 {k. has (pstates (db s)) k}"

lemma scannable_finite: "finite (scannable s k0)"
  using finite_has by (simp add: scannable_def)

lemma scanSlots_run:
  assumes wf: "promise_wf s" and known: "\<And>y. y \<in> set xs \<Longrightarrow> isPromiseRef y \<Longrightarrow> isKRef y \<and> has (pstates (db s)) y"
    and IH: "\<And>k v seen. has_value s k0 v0 k v \<Longrightarrow> k \<in> scannable s k0 \<Longrightarrow> k \<notin> set seen \<Longrightarrow> distinct seen \<Longrightarrow> k0 \<in> set seen \<Longrightarrow>
        card (scannable s k0 - set seen) < n \<Longrightarrow>
        \<exists>seen'. scan k v seen s = (Inr seen', s) \<and> scan_post s k0 v0 {k} seen seen'"
    and "distinct seen" and "k0 \<in> set seen" and "card (scannable s k0 - set seen) < n"
  shows "\<exists>seen'. scanSlots scan xs seen s = (Inr seen', s) \<and>
    scan_post s k0 v0 {y \<in> set xs. isPromiseRef y \<and> has (pvalues (db s)) y} seen seen'"
  using known assms(4-6)
proof (induction xs arbitrary: seen)
  case Nil
  then show ?case by (simp add: scan_post_def)
next
  case (Cons y xs)
  let ?R = "\<lambda>xs. {y \<in> set xs. isPromiseRef y \<and> has (pvalues (db s)) y}"
  have rest: "\<exists>seen'. scanSlots scan xs seen1 s = (Inr seen', s) \<and> scan_post s k0 v0 (?R xs) seen1 seen'"
    if "distinct seen1" "\<exists>zs. seen1 = seen @ zs" for seen1
  proof -
    have "card (scannable s k0 - set seen1) \<le> card (scannable s k0 - set seen)"
      using that(2) by (intro card_mono) (auto simp: scannable_finite)
    with Cons that show ?thesis by (intro Cons.IH) auto
  qed
  show ?case
  proof (cases "isPromiseRef y \<and> y \<notin> set seen \<and> has (pvalues (db s)) y")
    case True
    then obtain w where w: "tget (pvalues (db s)) y = Some w" by (auto simp: has_def)
    have kn: "isKRef y \<and> has (pstates (db s)) y" using Cons.prems(1) [of y] True by simp
    then obtain p where p: "getKernelPromise y s = (Inr p, s)" "kp_value p = Some w" "kp_state p \<noteq> Unresolved"
      using getKernelPromise_known [OF wf] True w by fastforce
    have "y \<noteq> k0" using Cons.prems(3) True by auto
    then have sh: "has_value s k0 v0 y w" "y \<in> scannable s k0" using w kn by (simp_all add: has_value_def scannable_def)
    obtain seen1 where s1: "scan y w seen s = (Inr seen1, s)" "scan_post s k0 v0 {y} seen seen1"
      using IH [OF sh _ Cons.prems(2,3,4)] True by blast
    obtain seen2 where s2: "scanSlots scan xs seen1 s = (Inr seen2, s)" "scan_post s k0 v0 (?R xs) seen1 seen2"
      using rest [of seen1] s1(2) by (auto simp: scan_post_def)
    have "scanSlots scan (y # xs) seen s = (Inr seen2, s)"
      using True p s1(1) s2(1) by simp
    moreover have "?R (y # xs) = {y} \<union> ?R xs" using True by auto
    with scan_post_trans [OF s1(2) s2(2)] have "scan_post s k0 v0 (?R (y # xs)) seen seen2" by simp
    ultimately show ?thesis by blast
  next
    case False
    have stay: "scanSlots scan (y # xs) seen s = scanSlots scan xs seen s"
    proof (cases "isPromiseRef y \<and> y \<notin> set seen")
      case True
      then have "isKRef y \<and> has (pstates (db s)) y" using Cons.prems(1) [of y] by simp
      then obtain p where "getKernelPromise y s = (Inr p, s)" "kp_state p = Unresolved"
        using getKernelPromise_known [OF wf] False True by fastforce
      with True show ?thesis by simp
    next
      case False
      then show ?thesis by (auto simp: bnd_run)
    qed
    obtain seen' where "scanSlots scan xs seen s = (Inr seen', s)" "scan_post s k0 v0 (?R xs) seen seen'"
      using rest [of seen] Cons.prems(2) by auto
    moreover have "?R (y # xs) = (if isPromiseRef y \<and> has (pvalues (db s)) y then {y} else {}) \<union> ?R xs" by auto
    ultimately have "scan_post s k0 v0 (?R (y # xs)) seen seen'"
      using False scan_post_more [of s k0 v0 "?R xs" seen seen' "{y}"] by (auto split: if_splits)
    with stay \<open>scanSlots scan xs seen s = (Inr seen', s)\<close> show ?thesis by auto
  qed
qed

text \<open>Enough fuel: more than the promises not scanned yet.\<close>

lemma scan_enough:
  assumes wf: "promise_wf s" and known: "slots_known s v0"
  shows "has_value s k0 v0 k v \<Longrightarrow> k \<in> scannable s k0 \<Longrightarrow> k \<notin> set seen \<Longrightarrow> distinct seen \<Longrightarrow> k = k0 \<or> k0 \<in> set seen \<Longrightarrow>
    card (scannable s k0 - set seen) < n \<Longrightarrow>
    \<exists>seen'. scanPromise n k v seen s = (Inr seen', s) \<and> scan_post s k0 v0 {k} seen seen'"
proof (induction n arbitrary: k v seen)
  case 0
  then show ?case by simp
next
  case (Suc n)
  let ?U = "scannable s k0" and ?seen = "seen @ [k]"
  have less: "card (?U - set ?seen) < n"
  proof -
    have "card (?U - set ?seen) < card (?U - set seen)"
      using Suc.prems(2,3) by (intro psubset_card_mono) (auto simp: scannable_finite)
    with Suc.prems(6) show ?thesis by simp
  qed
  have kn: "isKRef y \<and> has (pstates (db s)) y" if "y \<in> set (slots v)" "isPromiseRef y" for y
    using known Suc.prems(1) that by (auto simp: slots_known_def has_value_def split: if_splits)
  have "\<exists>seen'. scanSlots (scanPromise n) (slots v) ?seen s = (Inr seen', s) \<and>
      scan_post s k0 v0 {y \<in> set (slots v). isPromiseRef y \<and> has (pvalues (db s)) y} ?seen seen'"
  proof (rule scanSlots_run [OF wf])
    show "\<And>y. y \<in> set (slots v) \<Longrightarrow> isPromiseRef y \<Longrightarrow> isKRef y \<and> has (pstates (db s)) y" by (rule kn)
    show "distinct ?seen" "k0 \<in> set ?seen" using Suc.prems(3-5) by auto
    show "card (?U - set ?seen) < n" by (rule less)
  qed (rule Suc.IH; blast)
  then obtain seen' where r: "scanSlots (scanPromise n) (slots v) ?seen s = (Inr seen', s)"
    and p: "scan_post s k0 v0 {y \<in> set (slots v). isPromiseRef y \<and> has (pvalues (db s)) y} ?seen seen'"
    by blast
  have edge: "{y. (k, y) \<in> visible s k0 v0} = {y \<in> set (slots v). isPromiseRef y \<and> has (pvalues (db s)) y}"
    using Suc.prems(1) by (auto simp: visible_def has_value_def split: if_splits)
  have "scanPromise (Suc n) k v seen s = (Inr seen', s)"
    using r Suc.prems(3) by (simp add: set_add_def)
  moreover have "scan_post s k0 v0 {k} seen seen'"
    by (rule scan_post_push [OF _ Suc.prems(3)]) (use p edge in simp)
  ultimately show ?case by blast
qed

lemma keeps_live_queue [simp]:
  "keeps_live (provideStoredQueue q False)" "keeps_live (enqueue False q x)"
  by (auto simp: keeps_live_def live_def provideStoredQueue_def enqueue_def incCounter_def set_queue_head_def
      bnd_run thn_run split: option.splits sum.splits prod.splits)

lemma keeps_live_enqueue [simp]: "keeps_live (enqueuePromiseMessage k m)"
  by (auto simp: enqueuePromiseMessage_def intro!: keeps_live_thn keeps_live_forEach split: option.split)

section \<open>Deleting a settled promise\<close>

text \<open>Once nothing refers to it; the references of its value are then in the hand of the deleter.\<close>

lemma deleteKernelPromise_rows:
  assumes st: "settled k st v s"
  shows "\<exists>f. deleteKernelPromise k s = (Inr (), db_update f s) \<and> credits (db_update f s) + refs (slots v) = credits s \<and>
    refCounts (f (db s)) = tdel k (refCounts (db s)) \<and> pstates (f (db s)) = tdel k (pstates (db s)) \<and>
    bare k (db_update f s) \<and> other_promises_same k s (db_update f s) \<and> clists (f (db s)) = clists (db s) \<and>
    owners (f (db s)) = owners (db s) \<and> vatConfigs (f (db s)) = vatConfigs (db s) \<and> remoteInfos (f (db s)) = remoteInfos (db s)"
proof -
  let ?d = "\<lambda>d. refCounts_update (tdel k) (pvalues_update (tdel k) (psubscribers_update (tdel k)
      (pdeciders_update (tdel k) (pstates_update (tdel k) d))))"
  let ?s1 = "db_update ?d s"
  let ?s2 = "db_update (\<lambda>d. d\<lparr>qheads := tput k 1 (qheads d), qtails := tput k 1 (qtails d)\<rparr>) ?s1"
  let ?s3 = "db_update (\<lambda>d. d\<lparr>qheads := tdel k (qheads d), qtails := tdel k (qtails d)\<rparr>) ?s2"
  have none: "tget (qheads (db s)) k = None" "tget (qtails (db s)) k = None" "\<And>i. tget (qentries (db s)) (k, i) = None"
    using st by (auto simp: settled_def has_def)
  have prov: "provideStoredQueue k False ?s1 = (Inr (), ?s2)"
    using none by (simp add: provideStoredQueue_def put_if_absent_def thn_run)
  have "queue_ok False k ?s2" "queue_items k ?s2 = []"
    using none by (auto simp: queue_ok_def queue_items_def has_def)
  then have del: "delete_queue k ?s2 = (Inr (), ?s3)" by (rule delete_queue_empty)
  let ?f = "\<lambda>d. (\<lambda>d. d\<lparr>qheads := tdel k (qheads d), qtails := tdel k (qtails d)\<rparr>)
    ((\<lambda>d. d\<lparr>qheads := tput k 1 (qheads d), qtails := tput k 1 (qtails d)\<rparr>) (?d d))"
  have run: "deleteKernelPromise k s = (Inr (), ?s3)"
    using prov del by (simp add: deleteKernelPromise_def comp_def)
  have ps: "tsum (promise_credit (pvalues (db s))) (tdel k (pstates (db s))) + refs (slots v) =
      tsum (promise_credit (pvalues (db s))) (pstates (db s))"
    using st tsum_tdel_old [of "pstates (db s)" k st "promise_credit (pvalues (db s))"]
    by (simp add: settled_def promise_credit_def value_slots_def)
  have pv: "tsum (promise_credit (tdel k (pvalues (db s)))) (tdel k (pstates (db s))) =
      tsum (promise_credit (pvalues (db s))) (tdel k (pstates (db s)))"
    by (rule tsum_cong) (auto simp: promise_credit_def value_slots_def split: if_splits)
  have cr: "credits ?s3 + refs (slots v) = credits s + {#}"
    by (rule swap_sums [OF credits_promises [of s ?s3]]) (simp_all add: ps pv)
  then have cr': "credits ?s3 + refs (slots v) = credits s" by simp
  have b: "bare k ?s3" using none by (simp add: bare_def has_def)
  have o: "other_promises_same k s ?s3" by (simp add: other_promises_same_def other_queues_same_def)
  have f: "?s3 = db_update ?f s" by simp
  show ?thesis using run cr' b o unfolding f by (intro exI [of _ ?f] conjI) simp_all
qed

lemma deleteKernelPromise_run:
  assumes st: "settled k st v s" and a: "acct M s" and z: "recog k (credits s + M) = 0"
  shows "\<exists>s'. deleteKernelPromise k s = (Inr (), s') \<and> acct (refs (slots v) + M) s' \<and> bare k s' \<and>
    \<not> live k s' \<and> other_promises_same k s s' \<and> clists (db s') = clists (db s) \<and>
    maybeFreeKrefs s' = maybeFreeKrefs s \<and> (\<forall>j. j \<noteq> k \<longrightarrow> live j s' = live j s)"
proof -
  obtain f where run: "deleteKernelPromise k s = (Inr (), db_update f s)"
    and cr: "credits (db_update f s) + refs (slots v) = credits s" and rc: "refCounts (f (db s)) = tdel k (refCounts (db s))"
    and b: "bare k (db_update f s)" and o: "other_promises_same k s (db_update f s)" and cl: "clists (f (db s)) = clists (db s)"
    using deleteKernelPromise_rows [OF st] by blast
  have eq: "credits (db_update f s) + (refs (slots v) + M) = credits s + M" by (simp only: add.assoc [symmetric] cr)
  have "row_exact (credits (db_update f s) + (refs (slots v) + M)) (db_update f s) j" for j
  proof -
    have "row_exact (credits s + M) s j" using a by (simp add: acct_def exact_def)
    then show ?thesis unfolding eq using z by (cases "j = k") (auto simp: row_exact_def rc split: if_splits)
  qed
  then have "acct (refs (slots v) + M) (db_update f s)" unfolding acct_def exact_def by blast
  moreover have "\<not> live k (db_update f s)" "\<forall>j. j \<noteq> k \<longrightarrow> live j (db_update f s) = live j s" by (simp_all add: live_def rc)
  ultimately show ?thesis using run b o cl by (intro exI [of _ "db_update f s"]) simp
qed

section \<open>A store with one promise\<close>

definition demo_promise :: ctx where
  "demo_promise = snd (initKernelPromise (makeKernelStore empty_kdb))"

lemma fresh_promise_wf: "promise_wf (makeKernelStore empty_kdb)"
  unfolding makeKernelStore_fresh
  by (simp add: promise_wf_def bare_def empty_kdb_def)

lemma fresh_promise_ids: "promise_ids_fresh (makeKernelStore empty_kdb)"
  using fresh_store_ids unfolding promise_ids_fresh_def makeKernelStore_fresh
  by (simp add: empty_kdb_def)

lemma promise_slot_1: "promise_slot 1 = ''kp1''"
  by (simp add: promise_slot_def nat_text_eval)

lemma demo_promise_facts:
  "acct {#} demo_promise" "promise_wf demo_promise" "unsettled ''kp1'' demo_promise"
  "queue_items ''kp1'' demo_promise = []" "live ''kp1'' demo_promise"
  "clists (db demo_promise) = tempty"
proof -
  have "nextPromiseId (cache (makeKernelStore empty_kdb)) = Some 1"
    unfolding makeKernelStore_fresh by (simp add: init_cached_rows_def init_row_def empty_kdb_def)
  moreover have "clists (db (makeKernelStore empty_kdb)) = tempty"
    unfolding makeKernelStore_fresh by (simp add: empty_kdb_def)
  ultimately show "acct {#} demo_promise" "promise_wf demo_promise" "unsettled ''kp1'' demo_promise"
    "queue_items ''kp1'' demo_promise = []" "live ''kp1'' demo_promise" "clists (db demo_promise) = tempty"
    using initKernelPromise_run [OF fresh_store_acct fresh_promise_wf fresh_promise_ids] promise_slot_1
    by (auto simp: demo_promise_def)
qed

section \<open>Properties\<close>

text \<open>
  A new promise takes the next unused id and is unresolved, with an empty queue; it is born
  with the one reference its decision is owed, so the counts stay exact, and no other
  promise's rows change.
\<close>

theorem initKernelPromise_correct:
  assumes "acct M s" and "promise_wf s" and "promise_ids_fresh s"
  shows "\<exists>k p s'. initKernelPromise s = (Inr (k, p), s') \<and> getKernelPromise k s' = (Inr p, s') \<and>
    kp_state p = Unresolved \<and> queue_items k s' = [] \<and> getRefCount k s' = Some (int (reach k (credits s' + M))) \<and>
    \<not> live k s \<and> acct M s' \<and> promise_wf s' \<and> promise_ids_fresh s' \<and> other_promises_same k s s'"
proof -
  obtain n s' where r: "initKernelPromise s = (Inr (promise_slot n, \<lparr>kp_state = Unresolved, kp_decider = None,
                            kp_subscribers = Some [], kp_value = None\<rparr>), s')"
    and a: "acct M s'" "promise_wf s'" "promise_ids_fresh s'" and u: "unsettled (promise_slot n) s'"
    and q: "queue_items (promise_slot n) s' = []" "live (promise_slot n) s'" "\<not> live (promise_slot n) s"
    and o: "other_promises_same (promise_slot n) s s'"
    using initKernelPromise_run [OF assms] by blast
  have n: "nextPromiseId (cache s) = Some n"
  proof -
    obtain n' where "nextPromiseId (cache s) = Some n'" and
      "\<exists>s1. initKernelPromise s = (Inr (promise_slot n', \<lparr>kp_state = Unresolved, kp_decider = None,
                            kp_subscribers = Some [], kp_value = None\<rparr>), s1)"
      using initKernelPromise_run [OF assms] by blast
    with r show ?thesis by auto
  qed
  have bare: "bare (promise_slot n) s"
    using assms(2,3) n isKRef_not_run [of "promise_slot n"]
    by (auto simp: promise_wf_def promise_ids_fresh_def unsettled_def settled_def has_def)
  have rows: "tget (psubscribers (db s')) (promise_slot n) = Some []" "tget (pdeciders (db s')) (promise_slot n) = None"
    using r n bare
    by (auto simp: initKernelPromise_def getNextPromiseId_def incCounter_def promise_slot_def [symmetric]
        provideStoredQueue_def thn_run bnd_run bare_def has_def simp del: makeKernelSlot.simps)
  have g: "getKernelPromise (promise_slot n) s' = (Inr \<lparr>kp_state = Unresolved, kp_decider = None,
                            kp_subscribers = Some [], kp_value = None\<rparr>, s')"
    using getKernelPromise_unsettled [OF u] rows by auto
  have "getRefCount (promise_slot n) s' = Some (int (reach (promise_slot n) (credits s' + M)))"
    using acct_row [OF a(1) q(2)] by (intro getRefCount_text) auto
  then show ?thesis using r g a q o by fastforce
qed

theorem initKernelPromise_correct_witness:
  "\<exists>k p s'. initKernelPromise (makeKernelStore empty_kdb) = (Inr (k, p), s') \<and> getKernelPromise k s' = (Inr p, s') \<and>
    kp_state p = Unresolved \<and> queue_items k s' = [] \<and> getRefCount k s' = Some (int (reach k (credits s' + {#}))) \<and>
    \<not> live k (makeKernelStore empty_kdb) \<and> acct {#} s' \<and> promise_wf s' \<and> promise_ids_fresh s' \<and>
    other_promises_same k (makeKernelStore empty_kdb) s'"
  by (rule initKernelPromise_correct [OF fresh_store_acct fresh_promise_wf fresh_promise_ids])

text \<open>
  C21. Messages sent to an unsettled promise come back, in the order they were sent after those
  already waiting, when the promise settles. The references each message carries are held
  while it waits and released as it is handed back; the settled promise has its new value,
  has taken over that value's references, has no queue left, and every count is exact. No
  other promise changes.
\<close>

theorem promise_messages_returned:
  assumes u: "unsettled k s" and q: "queue_items k s = map QMsg old" and wf: "promise_wf s"
    and a: "acct (refs (slots v) + M) s"
    and l: "\<And>m r. m \<in> set ms \<Longrightarrow> r \<in> set (message_refs m) \<Longrightarrow> isKRef r \<and> live r s"
  shows "\<exists>s'. thn (forEach ms (enqueuePromiseMessage k)) (resolveKernelPromise k rej v) s =
      (Inr (map (Pair k) (old @ ms)), s') \<and> acct M s' \<and> promise_wf s' \<and>
    settled k (if rej then Rejected else Fulfilled) v s' \<and> other_promises_same k s s'"
proof -
  have "\<exists>t. forEach ms (enqueuePromiseMessage k) s = (Inr (), t) \<and> acct (refs (slots v) + M) t \<and> unsettled k t \<and>
      queue_items k t = map QMsg (old @ ms) \<and> other_promises_same k s t"
    using u q a l
  proof (induction ms arbitrary: s old)
    case Nil
    then show ?case by (simp add: other_promises_same_def)
  next
    case (Cons m ms)
    obtain s1 where s1: "enqueuePromiseMessage k m s = (Inr (), s1)" and a1: "acct (refs (slots v) + M) s1"
      and u1: "unsettled k s1" and q1: "queue_items k s1 = queue_items k s @ [QMsg m]" and o1: "other_promises_same k s s1"
      using enqueuePromiseMessage_run [OF Cons.prems(1,3), of m] Cons.prems(4) by auto
    have "live r s1" if "live r s" for r using keeps_live_enqueue s1 that by (rule keeps_liveD)
    then obtain t where "forEach ms (enqueuePromiseMessage k) s1 = (Inr (), t)" "acct (refs (slots v) + M) t"
      "unsettled k t" "queue_items k t = map QMsg ((old @ [m]) @ ms)" "other_promises_same k s1 t"
      using Cons.IH [OF u1 _ a1, of "old @ [m]"] Cons.prems(2,4) q1 by fastforce
    then show ?case using s1 o1 by (auto intro: other_promises_trans)
  qed
  then obtain t where t: "forEach ms (enqueuePromiseMessage k) s = (Inr (), t)" "acct (refs (slots v) + M) t"
    "unsettled k t" "queue_items k t = map QMsg (old @ ms)" "other_promises_same k s t" by blast
  obtain s' where s': "resolveKernelPromise k rej v t = (Inr (map (Pair k) (old @ ms)), s')" "acct M s'"
    "settled k (if rej then Rejected else Fulfilled) v s'" "other_promises_same k t s'"
    using resolveKernelPromise_run [OF t(3,4,2)] by blast
  have o: "other_promises_same k s s'" using t(5) s'(4) by (rule other_promises_trans)
  then have "promise_wf s'" using promise_wf_other [OF wf] s'(3) by blast
  with t s' o show ?thesis by simp
qed

theorem promise_messages_returned_witness:
  "\<exists>s'. thn (forEach [\<lparr>methargs = \<lparr>body = ''hi'', slots = [''kp1'']\<rparr>, result = NoResult\<rparr>] (enqueuePromiseMessage ''kp1''))
      (resolveKernelPromise ''kp1'' False \<lparr>body = ''7'', slots = []\<rparr>) demo_promise =
      (Inr (map (Pair ''kp1'') ([] @ [\<lparr>methargs = \<lparr>body = ''hi'', slots = [''kp1'']\<rparr>, result = NoResult\<rparr>])), s') \<and>
    acct {#} s' \<and> promise_wf s' \<and> settled ''kp1'' (if False then Rejected else Fulfilled) \<lparr>body = ''7'', slots = []\<rparr> s' \<and>
    other_promises_same ''kp1'' demo_promise s'"
proof (rule promise_messages_returned [OF demo_promise_facts(3) _ demo_promise_facts(2)])
  show "queue_items ''kp1'' demo_promise = map QMsg []" using demo_promise_facts(4) by simp
  show "acct (refs (slots \<lparr>body = ''7'', slots = []\<rparr>) + {#}) demo_promise" using demo_promise_facts(1) by simp
  fix m :: message and r
  assume "m \<in> set [\<lparr>methargs = \<lparr>body = ''hi'', slots = [''kp1'']\<rparr>, result = NoResult\<rparr>]" "r \<in> set (message_refs m)"
  then have "r = ''kp1''" by (auto simp: message_refs_def)
  then show "isKRef r \<and> live r demo_promise"
    using demo_promise_facts(3,5) by (simp add: unsettled_def)
qed

text \<open>
  \<open>getKpidsToRetire\<close> always ends, reads only, and finds each promise once: the resolved
  promise and every settled promise reachable from its new value through the slots of settled
  promises' values.
\<close>

theorem getKpidsToRetire_correct:
  assumes "promise_wf s" and "slots_known s v"
  shows "\<exists>ks. getKpidsToRetire k v s = (Inr ks, s) \<and> distinct ks \<and>
    set ks = {x. (k, x) \<in> (visible s k v)\<^sup>*}"
proof -
  have "scannable s k = insert k (set (tkeys (pstates (db s))))" by (auto simp: scannable_def)
  then have "card (scannable s k - set []) \<le> Suc (length (tkeys (pstates (db s))))"
    using card_length [of "tkeys (pstates (db s))"] by (simp add: card_insert_if le_SucI)
  also have "\<dots> < Suc (Suc (length (tkeys (pstates (db s)))))" by simp
  finally have c: "card (scannable s k - set []) < Suc (Suc (length (tkeys (pstates (db s)))))" .
  have "\<exists>ks. scanPromise (Suc (Suc (length (tkeys (pstates (db s)))))) k v [] s = (Inr ks, s) \<and>
      scan_post s k v {k} [] ks"
    by (rule scan_enough [OF assms _ _ _ _ _ c]) (simp_all add: has_value_def scannable_def)
  then obtain ks where r: "scanPromise (Suc (Suc (length (tkeys (pstates (db s)))))) k v [] s = (Inr ks, s)"
    and p: "scan_post s k v {k} [] ks" by blast
  have "x \<in> set ks" if "(k, x) \<in> (visible s k v)\<^sup>*" for x
    using that
  proof induction
    case base
    then show ?case using p by (simp add: scan_post_def)
  next
    case (step y z)
    then show ?case using scan_postD(2) [OF p, of y z] by simp
  qed
  moreover have "(k, x) \<in> (visible s k v)\<^sup>*" if "x \<in> set ks" for x
    using scan_postD(1) [OF p that] by simp
  moreover have "distinct ks" using p by (simp add: scan_post_def)
  ultimately show ?thesis using r by (auto simp: getKpidsToRetire_def simp del: scanPromise.simps)
qed

theorem getKpidsToRetire_correct_witness:
  "\<exists>ks. getKpidsToRetire ''kp9'' \<lparr>body = ''x'', slots = [''kp1'', ''ko1'']\<rparr> demo_promise = (Inr ks, demo_promise) \<and> distinct ks \<and>
    set ks = {x. (''kp9'', x) \<in> (visible demo_promise ''kp9'' \<lparr>body = ''x'', slots = [''kp1'', ''ko1'']\<rparr>)\<^sup>*}"
proof (rule getKpidsToRetire_correct [OF demo_promise_facts(2)])
  have "pvalues (db demo_promise) = tempty"
    unfolding demo_promise_def makeKernelStore_fresh
    by (simp add: initKernelPromise_def getNextPromiseId_def incCounter_def provideStoredQueue_def bnd_run thn_run
        init_cached_rows_def init_row_def empty_kdb_def)
  moreover have "isKRef ''kp1'' \<and> has (pstates (db demo_promise)) ''kp1''"
    using demo_promise_facts(3) by (simp add: unsettled_def has_def)
  ultimately show "slots_known demo_promise \<lparr>body = ''x'', slots = [''kp1'', ''ko1'']\<rparr>"
    by (auto simp: slots_known_def isPromiseRef_def)
qed

end
