(* ===== verification/Pins.thy ===== *)
theory Pins
  imports CList
begin

text \<open>
  What holds an object alive from outside the kernel's own references: pins
  (\<open>store/methods/pinned.ts\<close>), and the ledger of issued ocap URLs, kernel service krefs and
  anonymous kernel objects of \<open>store/index.ts\<close>. A pin is one reference each; the ledger holds
  one pin per object for as long as a URL names it, however many do.
\<close>

section \<open>Pins (pinned.ts)\<close>

definition getPinCount :: "string \<Rightarrow> ctx \<Rightarrow> nat" where
  "getPinCount kref s = (case tget (pinned (db s)) kref of None \<Rightarrow> 0 | Some n \<Rightarrow> n)"

text \<open>Before the count, so that a refused increment records no pin.\<close>

definition pinObject :: "string \<Rightarrow> unit store" where
  "pinObject kref =
     bnd (gets (getPinCount kref)) (\<lambda>pins.
       thn (increment kref) (kvWrite (pinned_update (tput kref (pins + 1)))))"

definition unpinObject :: "string \<Rightarrow> unit store" where
  "unpinObject kref =
     bnd (gets (getPinCount kref)) (\<lambda>pins.
       if pins = 0 then ret ()
       else thn (decrement kref)
         (if pins = 1 then kvWrite (pinned_update (tdel kref))
          else kvWrite (pinned_update (tput kref (pins - 1)))))"

definition getPinnedObjects :: "ctx \<Rightarrow> string list" where
  "getPinnedObjects s = tkeys (pinned (db s))"

definition isObjectPinned :: "string \<Rightarrow> ctx \<Rightarrow> bool" where
  "isObjectPinned kref s \<longleftrightarrow> getPinCount kref s > 0"

section \<open>Issued ocap URLs (index.ts)\<close>

definition getOcapURLObjects :: "ctx \<Rightarrow> string list" where
  "getOcapURLObjects s = tkeys (ocapURLObjects (db s))"

definition getOcapURLIssuanceCount :: "string \<Rightarrow> ctx \<Rightarrow> nat" where
  "getOcapURLIssuanceCount kref s = (case tget (ocapURLObjects (db s)) kref of None \<Rightarrow> 0 | Some n \<Rightarrow> n)"

definition retainForOcapURL :: "string \<Rightarrow> unit store" where
  "retainForOcapURL kref =
     bnd (gets (kernelRefExists kref)) (\<lambda>ex.
       thn (require ex (Fail ''cannot issue an ocap URL for deleted kref'' [kref]))
         (bnd (gets (getOcapURLIssuanceCount kref)) (\<lambda>issuances.
            thn (whenM (issuances = 0) (pinObject kref))
              (kvWrite (ocapURLObjects_update (tput kref (issuances + 1)))))))"

definition releaseOcapURLRetentions :: "string \<Rightarrow> unit store" where
  "releaseOcapURLRetentions kref =
     bnd (gets (getOcapURLIssuanceCount kref)) (\<lambda>n.
       if n = 0 then ret ()
       else thn (unpinObject kref) (kvWrite (ocapURLObjects_update (tdel kref))))"

definition undoOcapURLRetention :: "string \<Rightarrow> unit store" where
  "undoOcapURLRetention kref =
     bnd (gets (getOcapURLIssuanceCount kref)) (\<lambda>issuances.
       if issuances > 1 then kvWrite (ocapURLObjects_update (tput kref (issuances - 1)))
       else releaseOcapURLRetentions kref)"

section \<open>Other rows of index.ts\<close>

definition isInitialized :: "ctx \<Rightarrow> bool" where
  "isInitialized s \<longleftrightarrow> tget (scalars (db s)) ''initialized'' = Some ''true''"

definition markInitialized :: "unit store" where
  "markInitialized = kvWrite (scalars_update (tput ''initialized'' ''true''))"

definition getKernelServiceKref :: "string \<Rightarrow> ctx \<Rightarrow> string option" where
  "getKernelServiceKref name s = tget (kernelServices (db s)) name"

definition setKernelServiceKref :: "string \<Rightarrow> string \<Rightarrow> unit store" where
  "setKernelServiceKref name kref = kvWrite (kernelServices_update (tput name kref))"

definition deleteKernelServiceKref :: "string \<Rightarrow> unit store" where
  "deleteKernelServiceKref name = kvWrite (kernelServices_update (tdel name))"

text \<open>\<open>krefs.join(',')\<close>\<close>

fun join_comma :: "string list \<Rightarrow> string" where
  "join_comma [] = ''''"
| "join_comma [x] = x"
| "join_comma (x # y # ys) = x @ '','' @ join_comma (y # ys)"

definition getAnonymousKernelObjects :: "ctx \<Rightarrow> string list" where
  "getAnonymousKernelObjects s =
     (case tget (scalars (db s)) ''anonymousKernelObjects'' of None \<Rightarrow> []
      | Some raw \<Rightarrow> if raw = '''' then [] else split_at (CHR '','') raw)"

definition addAnonymousKernelObject :: "string \<Rightarrow> unit store" where
  "addAnonymousKernelObject kref =
     bnd (gets getAnonymousKernelObjects) (\<lambda>raw.
       let krefs = set_add kref (foldl (\<lambda>a x. set_add x a) [] raw)
       in kvWrite (scalars_update (tput ''anonymousKernelObjects'' (join_comma (sort_strings krefs)))))"

definition removeAnonymousKernelObject :: "string \<Rightarrow> unit store" where
  "removeAnonymousKernelObject kref =
     bnd (gets getAnonymousKernelObjects) (\<lambda>raw.
       let krefs = foldl (\<lambda>a x. set_add x a) [] raw;
           rest = filter (\<lambda>k. k \<noteq> kref) krefs
       in if kref \<notin> set krefs then ret ()
          else if rest = [] then kvWrite (scalars_update (tdel ''anonymousKernelObjects''))
          else kvWrite (scalars_update (tput ''anonymousKernelObjects'' (join_comma (sort_strings rest)))))"

section \<open>Pins and the accounts\<close>

text \<open>A pin is one reference each: rows of the table are never zero.\<close>

definition pins_ok :: "ctx \<Rightarrow> bool" where
  "pins_ok s \<longleftrightarrow> (\<forall>k. tget (pinned (db s)) k \<noteq> Some 0)"

lemma credits_pinned:
  "credits (db_update (pinned_update f) s) + tsum pin_credit (pinned (db s)) =
    credits s + tsum pin_credit (f (pinned (db s)))"
  by (simp add: credits_def gc_action_list_def)

lemma weight_pin: "weight pin_credit (pinned (db s)) k = replicate_mset (getPinCount k s) (k, False)"
  by (simp add: weight_def getPinCount_def pin_credit_def split: option.split)

lemma credits_set_pin:
  "credits (db_update (pinned_update (tput k n)) s) + replicate_mset (getPinCount k s) (k, False) =
    credits s + replicate_mset n (k, False)"
  by (rule swap_sums [OF credits_pinned]) (simp add: tsum_tput weight_pin [symmetric] pin_credit_def)

lemma credits_del_pin:
  "credits (db_update (pinned_update (tdel k)) s) + replicate_mset (getPinCount k s) (k, False) = credits s"
proof -
  have "credits (db_update (pinned_update (tdel k)) s) + replicate_mset (getPinCount k s) (k, False) = credits s + {#}"
    by (rule swap_sums [OF credits_pinned]) (simp add: tsum_tdel weight_pin [symmetric])
  then show ?thesis by simp
qed

lemma getPinCount_frame:
  "same_but_counts s s' \<Longrightarrow> getPinCount k s' = getPinCount k s"
  "same_but_counts s s' \<Longrightarrow> pinned (db s') = pinned (db s)"
  by (rule same_but_countsD; simp add: without_counts_def getPinCount_def)+

lemma acct_move:
  assumes "acct M s" and "refCounts (db s') = refCounts (db s)" and "credits s' + N = credits s + M"
  shows "acct N s'"
  using assms exact_cong [of s s'] by (simp add: acct_def)

lemma pinObject_run:
  assumes k: "isKRef k" and a: "acct M s" and l: "live k s"
  shows "\<exists>s'. pinObject k s = (Inr (), s') \<and> acct M s' \<and> live k s' \<and>
    pinned (db s') = tput k (getPinCount k s + 1) (pinned (db s)) \<and>
    ocapURLObjects (db s') = ocapURLObjects (db s) \<and> clists (db s') = clists (db s)"
proof -
  obtain s1 where s1: "increment k s = (Inr (), s1)" and x1: "exact (add_mset (k, False) (credits s + M)) s1"
    and l1: "live k s1"
    using incrementRefCount_live [OF k _ _ l, of False "credits s + M" False] a by (auto simp: acct_def)
  have f1: "same_but_counts s s1" by (rule counts_onlyD [OF counts_only_increment s1])
  have a1: "acct (add_mset (k, False) M) s1" using x1 by (simp add: acct_def same_but_counts_credits [OF f1])
  let ?s2 = "db_update (pinned_update (tput k (getPinCount k s + 1))) s1"
  have "pinObject k s = (Inr (), ?s2)" using s1 by (simp add: pinObject_def)
  moreover have "acct M ?s2"
  proof (rule acct_move [OF a1])
    have "credits ?s2 + replicate_mset (getPinCount k s) (k, False) =
        credits s1 + (replicate_mset 1 (k, False) + replicate_mset (getPinCount k s) (k, False))"
      using credits_set_pin [of k "getPinCount k s + 1" s1] by (simp add: getPinCount_frame [OF f1])
    then have "credits ?s2 = credits s1 + {#(k, False)#}" by simp
    then show "credits ?s2 + M = credits s1 + add_mset (k, False) M" by simp
  qed simp
  moreover have "ocapURLObjects (db s1) = ocapURLObjects (db s)"
    by (rule same_but_countsD [OF f1]) (simp add: without_counts_def)
  ultimately show ?thesis
    using l1 getPinCount_frame(2) [OF f1] same_but_counts_clists [OF f1] by (simp add: live_def)
qed

lemma unpinObject_run:
  assumes a: "acct M s" and p: "getPinCount k s > 0"
  shows "\<exists>s'. unpinObject k s = (Inr (), s') \<and> acct M s' \<and>
    pinned (db s') = (if getPinCount k s = 1 then tdel k (pinned (db s)) else tput k (getPinCount k s - 1) (pinned (db s))) \<and>
    ocapURLObjects (db s') = ocapURLObjects (db s) \<and> clists (db s') = clists (db s)"
proof -
  let ?n = "getPinCount k s"
  let ?f = "\<lambda>t. if ?n = 1 then tdel k t else tput k (?n - 1) t"
  define t where "t = db_update (pinned_update ?f) s"
  have cr: "credits t + {#(k, False)#} = credits s"
  proof (cases "?n = 1")
    case True
    then show ?thesis using credits_del_pin [of k s] by (simp add: t_def)
  next
    case False
    then have "?n = Suc (Suc (?n - 2))" using p by simp
    then obtain m where m: "?n = Suc (Suc m)" by blast
    have "credits t + (replicate_mset (Suc m) (k, False) + {#(k, False)#}) = credits s + replicate_mset (Suc m) (k, False)"
      using credits_set_pin [of k "Suc m" s] False m by (simp add: t_def)
    then have "(credits t + {#(k, False)#}) + replicate_mset (Suc m) (k, False) = credits s + replicate_mset (Suc m) (k, False)"
      by (simp only: ac_simps)
    then show ?thesis by (simp del: replicate_mset_Suc)
  qed
  have "exact (add_mset (k, False) (credits t + M)) s" using a cr unfolding acct_def
    by (metis add_mset_add_single union_mset_add_mset_left)
  then obtain r s1 where d: "decrementRefCount k False False s = (Inr r, s1)" and x: "exact (credits t + M) s1"
    using decrementRefCount_exact [of k False False "credits t + M"] by (auto elim: totalD)
  have f1: "same_but_counts s s1" by (rule counts_onlyD [OF counts_only_decrement d])
  let ?s2 = "db_update (pinned_update ?f) s1"
  have run: "unpinObject k s = (Inr (), ?s2)" using d p by (simp add: unpinObject_def)
  have c2: "credits ?s2 = credits t"
  proof -
    have "same_but_counts t ?s2"
      unfolding t_def by (rule same_but_counts_db [OF f1]) simp
    then show ?thesis by (rule same_but_counts_credits)
  qed
  have "acct M ?s2" unfolding acct_def c2 using x exact_cong [of s1 ?s2] by simp
  moreover have "ocapURLObjects (db s1) = ocapURLObjects (db s)"
    by (rule same_but_countsD [OF f1]) (simp add: without_counts_def)
  ultimately show ?thesis
    using run getPinCount_frame(2) [OF f1] same_but_counts_clists [OF f1] by simp
qed

section \<open>The ledger\<close>

text \<open>An object some URL names is pinned.\<close>

definition ledger_ok :: "ctx \<Rightarrow> bool" where
  "ledger_ok s \<longleftrightarrow> (\<forall>k n. tget (ocapURLObjects (db s)) k = Some n \<longrightarrow> n > 0 \<and> getPinCount k s > 0)"

definition url_pin :: "string \<Rightarrow> ctx \<Rightarrow> nat" where
  "url_pin k s = (if getOcapURLIssuanceCount k s > 0 then 1 else 0)"

text \<open>What the ledger's operations keep: exact counts, and every pin that is not the ledger's.\<close>

definition ledger_step :: "unit_ref multiset \<Rightarrow> string \<Rightarrow> ctx \<Rightarrow> ctx \<Rightarrow> bool" where
  "ledger_step M k s s' \<longleftrightarrow> acct M s' \<and> ledger_ok s' \<and>
     getPinCount k s' + url_pin k s = getPinCount k s + url_pin k s' \<and>
     (\<forall>j. j \<noteq> k \<longrightarrow> getPinCount j s' = getPinCount j s \<and> getOcapURLIssuanceCount j s' = getOcapURLIssuanceCount j s)"

lemma ledger_count_pos: "ledger_ok s \<Longrightarrow> tget (ocapURLObjects (db s)) k = Some n \<Longrightarrow> n \<noteq> 0"
  by (auto simp: ledger_ok_def)

lemma ledger_pinned: "ledger_ok s \<Longrightarrow> getOcapURLIssuanceCount k s > 0 \<Longrightarrow> getPinCount k s > 0"
  by (auto simp: ledger_ok_def getOcapURLIssuanceCount_def split: option.splits)

lemma acct_ocap [simp]: "acct M (db_update (ocapURLObjects_update f) s) = acct M s"
  by (simp add: acct_def exact_def row_exact_def credits_def gc_action_list_def)

lemma retainForOcapURL_run:
  assumes k: "isKRef k" and a: "acct M s" and l: "live k s" and ok: "ledger_ok s"
  shows "\<exists>s'. retainForOcapURL k s = (Inr (), s') \<and> ledger_step M k s s' \<and> live k s' \<and>
    getOcapURLIssuanceCount k s' = getOcapURLIssuanceCount k s + 1"
proof (cases "getOcapURLIssuanceCount k s = 0")
  case True
  obtain s1 where s1: "pinObject k s = (Inr (), s1)" "acct M s1" "live k s1"
    "pinned (db s1) = tput k (getPinCount k s + 1) (pinned (db s))"
    "ocapURLObjects (db s1) = ocapURLObjects (db s)"
    using pinObject_run [OF k a l] by blast
  let ?s2 = "db_update (ocapURLObjects_update (tput k 1)) s1"
  have "retainForOcapURL k s = (Inr (), ?s2)"
    using True s1(1) kernelRefExists_exact [of "credits s + M" s k] a l
    by (simp add: retainForOcapURL_def acct_def)
  moreover have "ledger_step M k s ?s2"
    using s1 ok True
    by (auto simp: ledger_step_def ledger_ok_def url_pin_def getPinCount_def getOcapURLIssuanceCount_def)
  moreover have "getOcapURLIssuanceCount k ?s2 = getOcapURLIssuanceCount k s + 1"
    using True by (simp add: getOcapURLIssuanceCount_def)
  ultimately show ?thesis using s1(3) by (auto simp: live_def)
next
  case False
  let ?s2 = "db_update (ocapURLObjects_update (tput k (getOcapURLIssuanceCount k s + 1))) s"
  have "retainForOcapURL k s = (Inr (), ?s2)"
    using False kernelRefExists_exact [of "credits s + M" s k] a l
    by (simp add: retainForOcapURL_def acct_def)
  moreover have "ledger_step M k s ?s2"
    using a ok False ledger_pinned [OF ok, of k]
    by (auto simp: ledger_step_def ledger_ok_def url_pin_def getPinCount_def getOcapURLIssuanceCount_def)
  moreover have "getOcapURLIssuanceCount k ?s2 = getOcapURLIssuanceCount k s + 1"
    by (simp add: getOcapURLIssuanceCount_def)
  ultimately show ?thesis using l by (auto simp: live_def)
qed

text \<open>A token for something already collected is refused, and nothing is written.\<close>

lemma retainForOcapURL_deleted:
  assumes "\<not> live k s"
  shows "retainForOcapURL k s = (Inl (Fail ''cannot issue an ocap URL for deleted kref'' [k]), s)"
  using assms by (simp add: retainForOcapURL_def live_def has_def kernelRefExists_none)

lemma undoOcapURLRetention_run:
  assumes a: "acct M s" and ok: "ledger_ok s" and c: "getOcapURLIssuanceCount k s > 0"
  shows "\<exists>s'. undoOcapURLRetention k s = (Inr (), s') \<and> ledger_step M k s s' \<and>
    getOcapURLIssuanceCount k s' = getOcapURLIssuanceCount k s - 1"
proof (cases "getOcapURLIssuanceCount k s > 1")
  case True
  let ?s2 = "db_update (ocapURLObjects_update (tput k (getOcapURLIssuanceCount k s - 1))) s"
  have "undoOcapURLRetention k s = (Inr (), ?s2)" using True by (simp add: undoOcapURLRetention_def)
  moreover have "ledger_step M k s ?s2"
    using a ok True ledger_pinned [OF ok, of k]
    by (auto simp: ledger_step_def ledger_ok_def url_pin_def getPinCount_def getOcapURLIssuanceCount_def)
  moreover have "getOcapURLIssuanceCount k ?s2 = getOcapURLIssuanceCount k s - 1"
    by (simp add: getOcapURLIssuanceCount_def)
  ultimately show ?thesis by blast
next
  case False
  then have c1: "getOcapURLIssuanceCount k s = 1" using c by simp
  note pin = ledger_pinned [OF ok c]
  obtain s1 where s1: "unpinObject k s = (Inr (), s1)" "acct M s1"
    "pinned (db s1) = (if getPinCount k s = 1 then tdel k (pinned (db s)) else tput k (getPinCount k s - 1) (pinned (db s)))"
    "ocapURLObjects (db s1) = ocapURLObjects (db s)"
    using unpinObject_run [OF a pin] by blast
  let ?s2 = "db_update (ocapURLObjects_update (tdel k)) s1"
  have "undoOcapURLRetention k s = (Inr (), ?s2)"
    using c1 s1(1) by (simp add: undoOcapURLRetention_def releaseOcapURLRetentions_def)
  moreover have pc: "getPinCount k ?s2 = getPinCount k s - 1" "j \<noteq> k \<Longrightarrow> getPinCount j ?s2 = getPinCount j s" for j
    using s1(3) by (auto simp: getPinCount_def split: option.splits)
  moreover have cc: "getOcapURLIssuanceCount k ?s2 = 0"
    "j \<noteq> k \<Longrightarrow> getOcapURLIssuanceCount j ?s2 = getOcapURLIssuanceCount j s" for j
    using s1(4) by (simp_all add: getOcapURLIssuanceCount_def)
  moreover have "ledger_ok ?s2"
    unfolding ledger_ok_def
  proof (intro allI impI)
    fix j n assume "tget (ocapURLObjects (db ?s2)) j = Some n"
    then have "j \<noteq> k" "tget (ocapURLObjects (db s)) j = Some n" using s1(4) by (auto split: if_splits)
    with ok pc(2) show "n > 0 \<and> getPinCount j ?s2 > 0" by (auto simp: ledger_ok_def)
  qed
  ultimately show ?thesis
    using s1(2) c1 pin by (auto simp: ledger_step_def url_pin_def)
qed

lemma ledger_step_refl: "acct M s \<Longrightarrow> ledger_ok s \<Longrightarrow> ledger_step M k s s"
  by (simp add: ledger_step_def)

lemma ledger_step_trans: "ledger_step M k s t \<Longrightarrow> ledger_step M k t u \<Longrightarrow> ledger_step M k s u"
  by (simp add: ledger_step_def)

lemma retain_times:
  "isKRef k \<Longrightarrow> acct M s \<Longrightarrow> live k s \<Longrightarrow> ledger_ok s \<Longrightarrow>
   \<exists>s'. forEach xs (\<lambda>_. retainForOcapURL k) s = (Inr (), s') \<and> ledger_step M k s s' \<and>
     getOcapURLIssuanceCount k s' = getOcapURLIssuanceCount k s + length xs"
proof (induction xs arbitrary: s)
  case Nil
  then show ?case by (simp add: ledger_step_refl)
next
  case (Cons x xs)
  obtain s1 where s1: "retainForOcapURL k s = (Inr (), s1)" "ledger_step M k s s1" "live k s1"
    "getOcapURLIssuanceCount k s1 = getOcapURLIssuanceCount k s + 1"
    using retainForOcapURL_run [OF Cons.prems] by blast
  then have "acct M s1" "ledger_ok s1" by (simp_all add: ledger_step_def)
  from Cons.IH [OF Cons.prems(1) this(1) s1(3) this(2)] s1 show ?case
    by (auto intro: ledger_step_trans)
qed

lemma undo_times:
  "acct M s \<Longrightarrow> ledger_ok s \<Longrightarrow> length xs \<le> getOcapURLIssuanceCount k s \<Longrightarrow>
   \<exists>s'. forEach xs (\<lambda>_. undoOcapURLRetention k) s = (Inr (), s') \<and> ledger_step M k s s' \<and>
     getOcapURLIssuanceCount k s' = getOcapURLIssuanceCount k s - length xs"
proof (induction xs arbitrary: s)
  case Nil
  then show ?case by (simp add: ledger_step_refl)
next
  case (Cons x xs)
  obtain s1 where s1: "undoOcapURLRetention k s = (Inr (), s1)" "ledger_step M k s s1"
    "getOcapURLIssuanceCount k s1 = getOcapURLIssuanceCount k s - 1"
    using undoOcapURLRetention_run [OF Cons.prems(1,2), of k] Cons.prems(3) by auto
  then have "acct M s1" "ledger_ok s1" by (simp_all add: ledger_step_def)
  moreover have "length xs \<le> getOcapURLIssuanceCount k s1" using s1(3) Cons.prems(3) by simp
  ultimately obtain t where "forEach xs (\<lambda>_. undoOcapURLRetention k) s1 = (Inr (), t)" "ledger_step M k s1 t"
    "getOcapURLIssuanceCount k t = getOcapURLIssuanceCount k s1 - length xs"
    using Cons.IH by blast
  then show ?case using s1 by (auto intro: ledger_step_trans)
qed

text \<open>
  C25. The ocap URL ledger counts issuances and holds one pin for all of them: after any number of
  retentions and any smaller or equal number of undos, the ledger names the difference, the
  object is pinned by the ledger exactly when that is not zero, pins held by others are as
  many as before, no other object's pins or issuances change, and the counts are exact.
\<close>

theorem ocap_url_ledger:
  assumes "isKRef k" and "acct M s" and "live k s" and "ledger_ok s"
    and "m \<le> getOcapURLIssuanceCount k s + n"
  shows "\<exists>s'. thn (forEach [0..<n] (\<lambda>_. retainForOcapURL k)) (forEach [0..<m] (\<lambda>_. undoOcapURLRetention k)) s = (Inr (), s') \<and>
    getOcapURLIssuanceCount k s' = getOcapURLIssuanceCount k s + n - m \<and> ledger_step M k s s'"
proof -
  obtain t where t: "forEach [0..<n] (\<lambda>_. retainForOcapURL k) s = (Inr (), t)" "ledger_step M k s t"
    "getOcapURLIssuanceCount k t = getOcapURLIssuanceCount k s + n"
    using retain_times [OF assms(1-4), of "[0..<n]"] by auto
  then have "acct M t" "ledger_ok t" by (simp_all add: ledger_step_def)
  then obtain u where "forEach [0..<m] (\<lambda>_. undoOcapURLRetention k) t = (Inr (), u)" "ledger_step M k t u"
    "getOcapURLIssuanceCount k u = getOcapURLIssuanceCount k t - m"
    using undo_times [of M t "[0..<m]" k] t(3) assms(5) by auto
  then show ?thesis using t by (auto intro: ledger_step_trans)
qed

theorem ocap_url_ledger_witness:
  "\<exists>s'. thn (forEach [0..<3] (\<lambda>_. retainForOcapURL ''ko1'')) (forEach [0..<3] (\<lambda>_. undoOcapURLRetention ''ko1'')) demo_store = (Inr (), s') \<and>
    getOcapURLIssuanceCount ''ko1'' s' = getOcapURLIssuanceCount ''ko1'' demo_store + 3 - 3 \<and>
    ledger_step {#} ''ko1'' demo_store s'"
proof (rule ocap_url_ledger [OF demo_ids(3) demo_acct demo_live])
  have "ocapURLObjects (db demo_store) = tempty"
    unfolding demo_store_eq makeKernelStore_fresh by (simp add: empty_kdb_def)
  then show "ledger_ok demo_store" by (simp add: ledger_ok_def)
qed simp

end
