(* ===== verification/Remotes.thy ===== *)
theory Remotes
  imports StoreContext
begin

text \<open>
  Remote relationships (\<open>store/methods/remote.ts\<close>): their info, the sequence numbers and pending
  messages that make their traffic reliable, the incarnation last seen of each peer; the relay
  pool and the remote identity (\<open>relay.ts\<close>); and the wake detection of \<open>activity.ts\<close>, whose
  clock is an argument.
\<close>

section \<open>Remote info (remote.ts)\<close>

definition getRemoteIDs :: "ctx \<Rightarrow> string list" where
  "getRemoteIDs s = tkeys (remoteInfos (db s))"

text \<open>\<open>JSON.parse\<close> of the row: the peer's id and its location hints.\<close>

definition getRemoteInfo :: "string \<Rightarrow> (string \<times> string list) store" where
  "getRemoteInfo remoteId =
     bnd (getRequired [''remote'', remoteId] (\<lambda>d. tget (remoteInfos d) remoteId)) (\<lambda>row.
       case row of RemoteInfo peerId hints \<Rightarrow> ret (peerId, hints)
       | CorruptInfo text \<Rightarrow> fail (JsError ''JSON.parse'' [text]))"

definition getAllRemoteRecords :: "(string \<times> string \<times> string list) list store" where
  "getAllRemoteRecords =
     bnd (gets getRemoteIDs)
       (mapEach (\<lambda>remoteId. bnd (getRemoteInfo remoteId) (\<lambda>info. ret (remoteId, info))))"

definition setRemoteInfo :: "string \<Rightarrow> string \<Rightarrow> string list \<Rightarrow> unit store" where
  "setRemoteInfo remoteId peerId hints =
     kvWrite (remoteInfos_update (tput remoteId (RemoteInfo peerId hints)))"

section \<open>Sequence numbers and pending messages (remote.ts)\<close>

text \<open>
  The rows of pending messages, in the order of their sequence numbers. The code visits them in
  the order of their decimal text; every loop over them treats each alone.
\<close>

definition pending_seqs :: "string \<Rightarrow> ctx \<Rightarrow> nat list" where
  "pending_seqs remoteId s = map snd (filter (\<lambda>k. fst k = remoteId) (tkeys (remotePendings (db s))))"

definition deleteRemotePendingState :: "string \<Rightarrow> unit store" where
  "deleteRemotePendingState remoteId =
     thn (kvWrite (remoteSeqs_update (tdel (remoteId, ''nextSendSeq''))))
       (thn (kvWrite (remoteSeqs_update (tdel (remoteId, ''highestReceivedSeq''))))
         (thn (kvWrite (remoteSeqs_update (tdel (remoteId, ''startSeq''))))
           (bnd (gets (pending_seqs remoteId)) (\<lambda>seqs.
             forEach seqs (\<lambda>seq. kvWrite (remotePendings_update (tdel (remoteId, seq))))))))"

definition clearRemoteSeqState :: "string \<Rightarrow> unit store" where
  "clearRemoteSeqState remoteId =
     thn (kvWrite (remoteSeqs_update (tdel (remoteId, ''nextSendSeq''))))
       (thn (kvWrite (remoteSeqs_update (tdel (remoteId, ''highestReceivedSeq''))))
         (thn (kvWrite (remoteSeqs_update (tdel (remoteId, ''startSeq''))))
           (bnd (gets (pending_seqs remoteId)) (\<lambda>seqs.
             forEach seqs (\<lambda>seq. kvWrite (remotePendings_update (tdel (remoteId, seq))))))))"

definition deleteRemoteInfo :: "string \<Rightarrow> unit store" where
  "deleteRemoteInfo remoteId =
     bnd (gets (\<lambda>s. tget (remoteInfos (db s)) remoteId)) (\<lambda>rawInfo.
       thn (case rawInfo of None \<Rightarrow> ret ()
            | Some (RemoteInfo peerId hints) \<Rightarrow> kvWrite (peerIncarnations_update (tdel peerId))
            | Some (CorruptInfo text) \<Rightarrow> ret ())
         (thn (kvWrite (remoteInfos_update (tdel remoteId)))
           (deleteRemotePendingState remoteId)))"

record remote_seq_state =
  nextSendSeq :: nat
  highestReceivedSeq :: nat
  startSeq :: nat

definition getRemoteSeqState :: "string \<Rightarrow> ctx \<Rightarrow> remote_seq_state option" where
  "getRemoteSeqState remoteId s =
     (let next = tget (remoteSeqs (db s)) (remoteId, ''nextSendSeq'');
          highest = tget (remoteSeqs (db s)) (remoteId, ''highestReceivedSeq'');
          start = tget (remoteSeqs (db s)) (remoteId, ''startSeq'');
          num = (\<lambda>x. case x of None \<Rightarrow> 0 | Some n \<Rightarrow> n)
      in if next = None \<and> highest = None \<and> start = None then None
         else Some \<lparr>nextSendSeq = num next, highestReceivedSeq = num highest, startSeq = num start\<rparr>)"

definition setRemoteNextSendSeq :: "string \<Rightarrow> nat \<Rightarrow> unit store" where
  "setRemoteNextSendSeq remoteId v = kvWrite (remoteSeqs_update (tput (remoteId, ''nextSendSeq'') v))"

definition setRemoteHighestReceivedSeq :: "string \<Rightarrow> nat \<Rightarrow> unit store" where
  "setRemoteHighestReceivedSeq remoteId v =
     kvWrite (remoteSeqs_update (tput (remoteId, ''highestReceivedSeq'') v))"

definition setRemoteStartSeq :: "string \<Rightarrow> nat \<Rightarrow> unit store" where
  "setRemoteStartSeq remoteId v = kvWrite (remoteSeqs_update (tput (remoteId, ''startSeq'') v))"

definition getPendingMessage :: "string \<Rightarrow> nat \<Rightarrow> ctx \<Rightarrow> string option" where
  "getPendingMessage remoteId seq s = tget (remotePendings (db s)) (remoteId, seq)"

definition setPendingMessage :: "string \<Rightarrow> nat \<Rightarrow> string \<Rightarrow> unit store" where
  "setPendingMessage remoteId seq m = kvWrite (remotePendings_update (tput (remoteId, seq) m))"

definition deletePendingMessage :: "string \<Rightarrow> nat \<Rightarrow> unit store" where
  "deletePendingMessage remoteId seq = kvWrite (remotePendings_update (tdel (remoteId, seq)))"

primrec cleanupOrphans :: "string \<Rightarrow> nat \<Rightarrow> nat list \<Rightarrow> nat \<Rightarrow> nat store" where
  "cleanupOrphans remoteId start [] deletedCount = ret deletedCount"
| "cleanupOrphans remoteId start (seq # seqs) deletedCount =
     (if seq < start
      then thn (kvWrite (remotePendings_update (tdel (remoteId, seq))))
             (cleanupOrphans remoteId start seqs (deletedCount + 1))
      else cleanupOrphans remoteId start seqs deletedCount)"

definition cleanupOrphanMessages :: "string \<Rightarrow> nat \<Rightarrow> nat store" where
  "cleanupOrphanMessages remoteId start =
     bnd (gets (pending_seqs remoteId)) (\<lambda>seqs. cleanupOrphans remoteId start seqs 0)"

definition getPeerIncarnation :: "string \<Rightarrow> ctx \<Rightarrow> string option" where
  "getPeerIncarnation peerId s = tget (peerIncarnations (db s)) peerId"

definition setPeerIncarnation :: "string \<Rightarrow> string \<Rightarrow> unit store" where
  "setPeerIncarnation peerId incarnationId = kvWrite (peerIncarnations_update (tput peerId incarnationId))"

section \<open>Relays and the remote identity (relay.ts)\<close>

definition is_relay_addr :: "relay_item \<Rightarrow> bool" where
  "is_relay_addr i = (case i of RelayAddr _ \<Rightarrow> True | _ \<Rightarrow> False)"

text \<open>\<open>RelayEntryStruct\<close>: a non-empty address, and a time that is not negative.\<close>

definition valid_relay :: "relay_entry \<Rightarrow> bool" where
  "valid_relay e \<longleftrightarrow> addr e \<noteq> '''' \<and> 0 \<le> lastSeen e"

definition relay_of :: "relay_item \<Rightarrow> relay_entry option" where
  "relay_of i = (case i of RelayEntry e \<Rightarrow> if valid_relay e then Some e else None | _ \<Rightarrow> None)"

definition migrate_relay :: "relay_item \<Rightarrow> relay_entry" where
  "migrate_relay i = \<lparr>addr = (case i of RelayAddr a \<Rightarrow> a | _ \<Rightarrow> ''''), lastSeen = 0, isBootstrap = False\<rparr>"

definition getRelayEntries :: "relay_entry list store" where
  "getRelayEntries =
     bnd (gets (\<lambda>s. knownRelays (db s))) (\<lambda>raw.
       case raw of None \<Rightarrow> ret []
       | Some (CorruptRelays text) \<Rightarrow> if text = '''' then ret [] else fail (JsError ''Failed to parse knownRelays from store'' [text])
       | Some (NotAnArray text) \<Rightarrow> fail (Fail ''knownRelays must be an array'' [])
       | Some (RelayArray parsed) \<Rightarrow>
           if parsed \<noteq> [] \<and> is_relay_addr (hd parsed) then
             thn (require (list_all is_relay_addr parsed) (Fail ''knownRelays legacy format must be all strings'' []))
               (let migrated = map migrate_relay parsed in
                thn (kvWrite (knownRelays_update (\<lambda>_. Some (RelayArray (map RelayEntry migrated)))))
                  (ret migrated))
           else
             mapEach (\<lambda>i. ofOption (AssertErr ''Invalid stored relay entry'') (relay_of i)) parsed)"

definition setRelayEntries :: "relay_item list \<Rightarrow> unit store" where
  "setRelayEntries entries =
     thn (forEach entries (\<lambda>i. require (relay_of i \<noteq> None) (AssertErr ''Invalid relay entry'')))
       (kvWrite (knownRelays_update (\<lambda>_. Some (RelayArray entries))))"

definition getKnownRelayAddresses :: "string list store" where
  "getKnownRelayAddresses = bnd getRelayEntries (\<lambda>es. ret (map addr es))"

definition getRemoteIdentityValue :: "string \<Rightarrow> ctx \<Rightarrow> string option" where
  "getRemoteIdentityValue key s = tget (scalars (db s)) key"

definition getRemoteIdentityValueRequired :: "string \<Rightarrow> string store" where
  "getRemoteIdentityValueRequired key =
     bnd (gets (\<lambda>s. tget (scalars (db s)) key)) (\<lambda>v.
       case v of None \<Rightarrow> fail (NoValue [key]) | Some x \<Rightarrow> if x = '''' then fail (NoValue [key]) else ret x)"

definition setRemoteIdentityValue :: "string \<Rightarrow> string \<Rightarrow> unit store" where
  "setRemoteIdentityValue key v = kvWrite (scalars_update (tput key v))"

section \<open>Activity (activity.ts)\<close>

definition WAKE_THRESHOLD_MS :: int where
  "WAKE_THRESHOLD_MS = 3600000"

definition detectWake :: "int \<Rightarrow> bool store" where
  "detectWake now =
     bnd (gets (\<lambda>s. case tget (scalars (db s)) ''lastActiveTime'' of None \<Rightarrow> None
                  | Some t \<Rightarrow> if t = '''' then None else Number t)) (\<lambda>lastActiveTime.
       thn (kvWrite (scalars_update (tput ''lastActiveTime'' (int_text now))))
         (ret (case lastActiveTime of None \<Rightarrow> False | Some t \<Rightarrow> now - t > WAKE_THRESHOLD_MS)))"

definition recordLastActiveTime :: "int \<Rightarrow> unit store" where
  "recordLastActiveTime now = kvWrite (scalars_update (tput ''lastActiveTime'' (int_text now)))"

section \<open>Facts\<close>

lemma in_pending_seqs: "seq \<in> set (pending_seqs r s) \<longleftrightarrow> has (remotePendings (db s)) (r, seq)"
proof
  assume "seq \<in> set (pending_seqs r s)"
  then show "has (remotePendings (db s)) (r, seq)" by (auto simp: pending_seqs_def)
next
  assume "has (remotePendings (db s)) (r, seq)"
  then have "(r, seq) \<in> set (filter (\<lambda>k. fst k = r) (tkeys (remotePendings (db s))))" by simp
  then have "seq \<in> snd ` set (filter (\<lambda>k. fst k = r) (tkeys (remotePendings (db s))))"
    by (rule image_eqI [rotated]) simp
  then show "seq \<in> set (pending_seqs r s)" by (simp add: pending_seqs_def)
qed

lemma distinct_pending_seqs: "distinct (pending_seqs r s)"
proof -
  have d: "distinct (tkeys (remotePendings (db s)))" by (simp add: tkeys_def)
  have "inj_on snd (set (filter (\<lambda>k. fst k = r) (tkeys (remotePendings (db s)))))"
    by (auto intro!: inj_onI)
  with d show ?thesis by (simp add: pending_seqs_def distinct_map)
qed

definition drop_pending :: "string \<Rightarrow> nat set \<Rightarrow> ctx \<Rightarrow> ctx \<Rightarrow> bool" where
  "drop_pending r qs s s' \<longleftrightarrow>
     (\<forall>k. tget (remotePendings (db s')) k = (if fst k = r \<and> snd k \<in> qs then None else tget (remotePendings (db s)) k)) \<and>
     s'\<lparr>db := (db s')\<lparr>remotePendings := tempty\<rparr>\<rparr> = s\<lparr>db := (db s)\<lparr>remotePendings := tempty\<rparr>\<rparr>"

lemma delete_pending_loop:
  "\<exists>s'. forEach seqs (\<lambda>seq. kvWrite (remotePendings_update (tdel (r, seq)))) s = (Inr (), s') \<and>
    drop_pending r (set seqs) s s'"
proof (induction seqs arbitrary: s)
  case Nil
  then show ?case by (simp add: drop_pending_def)
next
  case (Cons q seqs)
  let ?s1 = "db_update (remotePendings_update (tdel (r, q))) s"
  obtain s' where "forEach seqs (\<lambda>seq. kvWrite (remotePendings_update (tdel (r, seq)))) ?s1 = (Inr (), s')"
    and d: "drop_pending r (set seqs) ?s1 s'" using Cons.IH by blast
  moreover have "drop_pending r (set (q # seqs)) s s'" using d by (auto simp: drop_pending_def)
  ultimately show ?case by (auto simp del: modify_run)
qed

text \<open>Everything a remote has besides its info: no sequence row and no pending message is left.\<close>

lemma deleteRemotePendingState_run:
  "\<exists>s'. deleteRemotePendingState r s = (Inr (), s') \<and>
    remoteSeqs (db s') = tdel (r, ''startSeq'') (tdel (r, ''highestReceivedSeq'') (tdel (r, ''nextSendSeq'') (remoteSeqs (db s)))) \<and>
    (\<forall>k. tget (remotePendings (db s')) k = (if fst k = r then None else tget (remotePendings (db s)) k)) \<and>
    s'\<lparr>db := (db s')\<lparr>remotePendings := tempty, remoteSeqs := tempty\<rparr>\<rparr> =
    s\<lparr>db := (db s)\<lparr>remotePendings := tempty, remoteSeqs := tempty\<rparr>\<rparr>"
proof -
  let ?s1 = "db_update (\<lambda>d. remoteSeqs_update (tdel (r, ''startSeq'')) (remoteSeqs_update (tdel (r, ''highestReceivedSeq''))
      (remoteSeqs_update (tdel (r, ''nextSendSeq'')) d))) s"
  obtain s' where s': "forEach (pending_seqs r ?s1) (\<lambda>seq. kvWrite (remotePendings_update (tdel (r, seq)))) ?s1 = (Inr (), s')"
    and d: "drop_pending r (set (pending_seqs r ?s1)) ?s1 s'"
    using delete_pending_loop by blast
  have "deleteRemotePendingState r s = (Inr (), s')"
    using s' by (simp add: deleteRemotePendingState_def comp_def)
  moreover have f: "s'\<lparr>db := (db s')\<lparr>remotePendings := tempty\<rparr>\<rparr> = ?s1\<lparr>db := (db ?s1)\<lparr>remotePendings := tempty\<rparr>\<rparr>"
    using d by (simp add: drop_pending_def)
  have "remoteSeqs (db s') = remoteSeqs (db ?s1)"
    using arg_cong [OF f, of "\<lambda>t. remoteSeqs (db t)"] by simp
  moreover have "s'\<lparr>db := (db s')\<lparr>remotePendings := tempty, remoteSeqs := tempty\<rparr>\<rparr> =
      s\<lparr>db := (db s)\<lparr>remotePendings := tempty, remoteSeqs := tempty\<rparr>\<rparr>"
    using arg_cong [OF f, of "\<lambda>t. t\<lparr>db := (db t)\<lparr>remoteSeqs := tempty\<rparr>\<rparr>"] by simp
  moreover have "tget (remotePendings (db s')) k = (if fst k = r then None else tget (remotePendings (db s)) k)" for k
    using d in_pending_seqs [of "snd k" r ?s1] by (cases k) (auto simp: drop_pending_def has_def)
  ultimately show ?thesis by (simp add: comp_def)
qed

lemma clear_is_delete: "clearRemoteSeqState = deleteRemotePendingState"
  by (simp add: fun_eq_iff clearRemoteSeqState_def deleteRemotePendingState_def)

lemma cleanupOrphans_run:
  "\<exists>s'. cleanupOrphans r start seqs n s = (Inr (n + length (filter (\<lambda>q. q < start) seqs)), s') \<and>
    drop_pending r {q \<in> set seqs. q < start} s s'"
proof (induction seqs arbitrary: n s)
  case Nil
  then show ?case by (simp add: drop_pending_def)
next
  case (Cons q seqs)
  show ?case
  proof (cases "q < start")
    case True
    let ?s1 = "db_update (remotePendings_update (tdel (r, q))) s"
    obtain s' where "cleanupOrphans r start seqs (n + 1) ?s1 = (Inr (n + 1 + length (filter (\<lambda>q. q < start) seqs)), s')"
      "drop_pending r {q \<in> set seqs. q < start} ?s1 s'" using Cons.IH by blast
    with True show ?thesis by (auto simp: drop_pending_def)
  next
    case False
    obtain s' where "cleanupOrphans r start seqs n s = (Inr (n + length (filter (\<lambda>q. q < start) seqs)), s')"
      "drop_pending r {q \<in> set seqs. q < start} s s'" using Cons.IH by blast
    moreover have "{x \<in> set (q # seqs). x < start} = {x \<in> set seqs. x < start}" using False by auto
    ultimately show ?thesis using False by (metis (no_types, lifting) cleanupOrphans.simps(2) filter.simps(2))
  qed
qed

section \<open>Properties\<close>

text \<open>
  Deleting a remote always succeeds, even over a corrupt info row, and leaves nothing of it: no
  info, no sequence number, no pending message, and no incarnation of its peer when the info
  names one; every other remote keeps every row it has.
\<close>

theorem deleteRemoteInfo_complete:
  "\<exists>s'. deleteRemoteInfo r s = (Inr (), s') \<and> remoteInfos (db s') = tdel r (remoteInfos (db s)) \<and>
    getRemoteSeqState r s' = None \<and>
    remoteSeqs (db s') = tdel (r, ''startSeq'') (tdel (r, ''highestReceivedSeq'') (tdel (r, ''nextSendSeq'') (remoteSeqs (db s)))) \<and>
    (\<forall>k. tget (remotePendings (db s')) k = (if fst k = r then None else tget (remotePendings (db s)) k)) \<and>
    peerIncarnations (db s') = (case tget (remoteInfos (db s)) r of Some (RemoteInfo peer hints) \<Rightarrow> tdel peer (peerIncarnations (db s))
      | _ \<Rightarrow> peerIncarnations (db s))"
proof -
  define inc :: "kdb \<Rightarrow> kdb" where "inc = (case tget (remoteInfos (db s)) r of Some (RemoteInfo peer hints) \<Rightarrow> peerIncarnations_update (tdel peer)
      | _ \<Rightarrow> (\<lambda>d. d))"
  let ?s1 = "db_update (\<lambda>d. remoteInfos_update (tdel r) (inc d)) s"
  obtain s' where s': "deleteRemotePendingState r ?s1 = (Inr (), s')"
    and q: "remoteSeqs (db s') = tdel (r, ''startSeq'') (tdel (r, ''highestReceivedSeq'') (tdel (r, ''nextSendSeq'') (remoteSeqs (db ?s1))))"
    and p: "\<forall>k. tget (remotePendings (db s')) k = (if fst k = r then None else tget (remotePendings (db ?s1)) k)"
    and f: "s'\<lparr>db := (db s')\<lparr>remotePendings := tempty, remoteSeqs := tempty\<rparr>\<rparr> =
      ?s1\<lparr>db := (db ?s1)\<lparr>remotePendings := tempty, remoteSeqs := tempty\<rparr>\<rparr>"
    using deleteRemotePendingState_run [of r ?s1] by blast
  have same: "remoteInfos (inc d) = remoteInfos d" "remoteSeqs (inc d) = remoteSeqs d"
    "remotePendings (inc d) = remotePendings d" for d
    by (simp_all add: inc_def split: option.split remote_info.split)
  have pi: "peerIncarnations (inc (db s)) = (case tget (remoteInfos (db s)) r of Some (RemoteInfo peer hints) \<Rightarrow> tdel peer (peerIncarnations (db s))
      | _ \<Rightarrow> peerIncarnations (db s))"
    by (simp add: inc_def split: option.split remote_info.split)
  have "deleteRemoteInfo r s = deleteRemotePendingState r ?s1"
    by (simp add: deleteRemoteInfo_def inc_def thn_run comp_def split: option.split remote_info.split)
  then have "deleteRemoteInfo r s = (Inr (), s')" using s' by simp
  moreover have "remoteInfos (db s') = tdel r (remoteInfos (db s))" "peerIncarnations (db s') = peerIncarnations (inc (db s))"
    using arg_cong [OF f, of "\<lambda>t. remoteInfos (db t)"] arg_cong [OF f, of "\<lambda>t. peerIncarnations (db t)"]
    by (simp_all add: same)
  moreover have "getRemoteSeqState r s' = None" by (simp add: getRemoteSeqState_def q)
  ultimately show ?thesis using p q pi by (simp add: same)
qed

text \<open>
  Recovering a remote's pending messages: exactly those with a sequence number below the start
  are removed, and the number reported is how many there were; no other row changes.
\<close>

theorem cleanupOrphanMessages_correct:
  "\<exists>s'. cleanupOrphanMessages r start s = (Inr (card {q. getPendingMessage r q s \<noteq> None \<and> q < start}), s') \<and>
    (\<forall>k. tget (remotePendings (db s')) k = (if fst k = r \<and> snd k < start then None else tget (remotePendings (db s)) k)) \<and>
    s'\<lparr>db := (db s')\<lparr>remotePendings := tempty\<rparr>\<rparr> = s\<lparr>db := (db s)\<lparr>remotePendings := tempty\<rparr>\<rparr>"
proof -
  obtain s' where s': "cleanupOrphans r start (pending_seqs r s) 0 s =
      (Inr (0 + length (filter (\<lambda>q. q < start) (pending_seqs r s))), s')"
    and d: "drop_pending r {q \<in> set (pending_seqs r s). q < start} s s'"
    using cleanupOrphans_run by blast
  have "{q. getPendingMessage r q s \<noteq> None \<and> q < start} = set (filter (\<lambda>q. q < start) (pending_seqs r s))"
    using in_pending_seqs [of _ r s] by (auto simp: getPendingMessage_def has_def)
  then have "card {q. getPendingMessage r q s \<noteq> None \<and> q < start} = length (filter (\<lambda>q. q < start) (pending_seqs r s))"
    using distinct_card [OF distinct_filter [OF distinct_pending_seqs, of "\<lambda>q. q < start" r s]] by (simp only:)
  with s' have "cleanupOrphanMessages r start s = (Inr (card {q. getPendingMessage r q s \<noteq> None \<and> q < start}), s')"
    by (simp add: cleanupOrphanMessages_def)
  moreover have "tget (remotePendings (db s')) k = (if fst k = r \<and> snd k < start then None else tget (remotePendings (db s)) k)" for k
    using d in_pending_seqs [of "snd k" r s] by (cases k) (auto simp: drop_pending_def has_def)
  ultimately show ?thesis using d by (auto simp: drop_pending_def)
qed

text \<open>
  Relay entries that satisfy the schema are written and read back as they were, and any other
  is refused with nothing written. A pool in the legacy format of plain addresses is migrated
  on the first read to entries with those addresses; later reads return the same unless an
  address was empty, in which case the migrated row no longer passes the schema and they fail.
\<close>

theorem relay_entries_roundtrip:
  "(\<exists>t. thn (setRelayEntries (map RelayEntry es)) getRelayEntries s =
      (if list_all valid_relay es then (Inr es, t) else (Inl (AssertErr ''Invalid relay entry''), s))) \<and>
   (\<exists>u. getRelayEntries (s\<lparr>db := (db s)\<lparr>knownRelays := Some (RelayArray (map RelayAddr as))\<rparr>\<rparr>) =
        (Inr (map (\<lambda>a. \<lparr>addr = a, lastSeen = 0, isBootstrap = False\<rparr>) as), u) \<and>
      getRelayEntries u = (if '''' \<in> set as then Inl (AssertErr ''Invalid stored relay entry'')
        else Inr (map (\<lambda>a. \<lparr>addr = a, lastSeen = 0, isBootstrap = False\<rparr>) as), u))"
proof -
  have read: "mapEach (\<lambda>i. ofOption e (relay_of i)) (map RelayEntry xs) t =
      (if list_all valid_relay xs then Inr xs else Inl e, t)" for e xs t
    by (induction xs) (simp_all add: relay_of_def bnd_run)
  have check: "forEach (map RelayEntry xs) (\<lambda>i. require (relay_of i \<noteq> None) e) t =
      (if list_all valid_relay xs then Inr () else Inl e, t)" for e xs and t :: ctx
    by (induction xs) (simp_all add: relay_of_def thn_run)
  have get: "getRelayEntries t = (if list_all valid_relay xs then Inr xs else Inl (AssertErr ''Invalid stored relay entry''), t)"
    if "knownRelays (db t) = Some (RelayArray (map RelayEntry xs))" for xs t
    using that read [of "AssertErr ''Invalid stored relay entry''" xs]
    by (cases xs) (auto simp: getRelayEntries_def is_relay_addr_def simp del: mapEach.simps(2))
  let ?t = "db_update (knownRelays_update (\<lambda>_. Some (RelayArray (map RelayEntry es)))) s"
  have "thn (setRelayEntries (map RelayEntry es)) getRelayEntries s =
      (if list_all valid_relay es then (Inr es, ?t) else (Inl (AssertErr ''Invalid relay entry''), s))"
    using check get [of ?t es] by (simp add: setRelayEntries_def thn_run del: not_None_eq)
  moreover
  let ?s = "s\<lparr>db := (db s)\<lparr>knownRelays := Some (RelayArray (map RelayAddr as))\<rparr>\<rparr>"
  let ?m = "map (\<lambda>a. \<lparr>addr = a, lastSeen = 0, isBootstrap = False\<rparr>) as"
  have "\<exists>u. getRelayEntries ?s = (Inr ?m, u) \<and>
      getRelayEntries u = (if '''' \<in> set as then Inl (AssertErr ''Invalid stored relay entry'') else Inr ?m, u)"
  proof (cases as)
    case Nil
    then show ?thesis by (simp add: getRelayEntries_def)
  next
    case (Cons a as')
    let ?u = "db_update (knownRelays_update (\<lambda>_. Some (RelayArray (map RelayEntry ?m)))) ?s"
    have "list_all is_relay_addr (map RelayAddr xs)" for xs by (induction xs) (simp_all add: is_relay_addr_def)
    then have "getRelayEntries ?s = (Inr ?m, ?u)"
      using Cons by (simp add: getRelayEntries_def is_relay_addr_def Let_def comp_def migrate_relay_def)
    moreover have "list_all valid_relay (map (\<lambda>a. \<lparr>addr = a, lastSeen = 0, isBootstrap = False\<rparr>) xs) = ('''' \<notin> set xs)" for xs
      by (induction xs) (auto simp: valid_relay_def)
    ultimately show ?thesis using get [of ?u ?m] by auto
  qed
  ultimately show ?thesis by blast
qed

end
