(* ===== verification/Subclusters.thy ===== *)
theory Subclusters
  imports StoreContext
begin

text \<open>
  Subclusters (\<open>store/methods/subclusters.ts\<close>): the list of subclusters, each with the vats it
  names, and the map from a vat to its subcluster, two cached values that say the same thing
  from either side. \<open>subcluster_wf\<close> is that they do, \<open>sc_run\<close> carries out any sequence of the
  operations, and \<open>tidy\<close> is what a caller has to see to for an operation to keep them agreeing:
  \<open>addSubclusterVat\<close> checks neither that the name is free nor that the vat has no other name.
\<close>

section \<open>JavaScript objects as association lists\<close>

text \<open>Setting an existing property keeps its place; a new one goes last.\<close>

fun obj_put :: "'k \<Rightarrow> 'v \<Rightarrow> ('k \<times> 'v) list \<Rightarrow> ('k \<times> 'v) list" where
  "obj_put k v [] = [(k, v)]"
| "obj_put k v (e # es) = (if fst e = k then (k, v) # es else e # obj_put k v es)"

definition obj_del :: "'k \<Rightarrow> ('k \<times> 'v) list \<Rightarrow> ('k \<times> 'v) list" where
  "obj_del k es = filter (\<lambda>e. fst e \<noteq> k) es"

lemma map_of_obj_put [simp]: "map_of (obj_put k v es) = (map_of es)(k \<mapsto> v)"
  by (induction es) auto

lemma map_of_obj_del [simp]: "map_of (obj_del k es) = (map_of es)(k := None)"
  by (induction es) (auto simp: obj_del_def)

lemma keys_obj_put [simp]: "fst ` set (obj_put k v es) = insert k (fst ` set es)"
  by (induction es) auto

lemma distinct_obj_put [simp]: "distinct (map fst (obj_put k v es)) = distinct (map fst es)"
  by (induction es) auto

lemma distinct_obj_del [simp]: "distinct (map fst es) \<Longrightarrow> distinct (map fst (obj_del k es))"
  by (simp add: obj_del_def distinct_map_filter)

lemma obj_put_new: "k \<notin> fst ` set es \<Longrightarrow> obj_put k v es = es @ [(k, v)]"
  by (induction es) auto

lemma set_obj_put: "distinct (map fst es) \<Longrightarrow> set (obj_put k v es) = insert (k, v) {e \<in> set es. fst e \<noteq> k}"
  by (induction es) force+

lemma one_name: "distinct (map snd es) \<Longrightarrow> (a, v) \<in> set es \<Longrightarrow> (b, v) \<in> set es \<Longrightarrow> a = b"
  by (metis distinct_map inj_on_eq_iff prod.inject snd_conv)

section \<open>Operations (subclusters.ts)\<close>

definition getSubclusters :: "ctx \<Rightarrow> subcluster list" where
  "getSubclusters s = (case subclusters (cache s) of None \<Rightarrow> [] | Some scs \<Rightarrow> scs)"

definition saveAllSubclustersToStorage :: "subcluster list \<Rightarrow> unit store" where
  "saveAllSubclustersToStorage scs = cached_set (subclusters_update (\<lambda>_. Some scs))"

definition getVatToSubclusterMap :: "ctx \<Rightarrow> (string \<times> string) list" where
  "getVatToSubclusterMap s = (case vatToSubclusterMap (cache s) of None \<Rightarrow> [] | Some m \<Rightarrow> m)"

definition saveVatToSubclusterMapToStorage :: "(string \<times> string) list \<Rightarrow> unit store" where
  "saveVatToSubclusterMapToStorage m = cached_set (vatToSubclusterMap_update (\<lambda>_. Some m))"

definition addSubcluster :: "string \<Rightarrow> string store" where
  "addSubcluster config =
     bnd (gets getSubclusters) (\<lambda>current.
       bnd (incCounter (\<lambda>s. nextSubclusterId (cache s))
              (\<lambda>n s. snd (cached_set (nextSubclusterId_update (\<lambda>_. Some n)) s))) (\<lambda>n.
         let newId = ''s'' @ nat_text n in
         thn (saveAllSubclustersToStorage (current @ [\<lparr>sc_id = newId, sc_config = config, sc_vats = []\<rparr>]))
           (ret newId)))"

definition getSubcluster :: "string \<Rightarrow> ctx \<Rightarrow> subcluster option" where
  "getSubcluster sid s = find (\<lambda>sc. sc_id sc = sid) (getSubclusters s)"

text \<open>The edit of the record \<open>find\<close> returned, in the list it was found in.\<close>

fun edit_first :: "string \<Rightarrow> (subcluster \<Rightarrow> subcluster) \<Rightarrow> subcluster list \<Rightarrow> subcluster list" where
  "edit_first sid f [] = []"
| "edit_first sid f (sc # scs) = (if sc_id sc = sid then f sc # scs else sc # edit_first sid f scs)"

definition addSubclusterVat :: "string \<Rightarrow> string \<Rightarrow> string \<Rightarrow> unit store" where
  "addSubclusterVat sid vatName vatId =
     bnd (gets getSubclusters) (\<lambda>current.
       case find (\<lambda>sc. sc_id sc = sid) current of None \<Rightarrow> fail (SubclusterNotFound sid)
       | Some sc \<Rightarrow>
           bnd (gets getVatToSubclusterMap) (\<lambda>currentMap.
             thn (require (map_of currentMap vatId = None \<or> map_of currentMap vatId = Some '''' \<or>
                           map_of currentMap vatId = Some sid)
                    (JsError ''vat already belongs to a subcluster'' [vatId, sid]))
               (thn (saveVatToSubclusterMapToStorage (obj_put vatId sid currentMap))
                 (saveAllSubclustersToStorage
                   (edit_first sid
                     (\<lambda>sc. if map_of (sc_vats sc) vatName \<noteq> Some vatId
                           then sc\<lparr>sc_vats := obj_put vatName vatId (sc_vats sc)\<rparr> else sc) current)))))"

definition getSubclusterVats :: "string \<Rightarrow> string list store" where
  "getSubclusterVats sid =
     bnd (gets (getSubcluster sid)) (\<lambda>sc.
       case sc of None \<Rightarrow> fail (SubclusterNotFound sid) | Some c \<Rightarrow> ret (map snd (sc_vats c)))"

definition deleteSubclusterVat :: "string \<Rightarrow> string \<Rightarrow> unit store" where
  "deleteSubclusterVat sid vatId =
     bnd (gets getSubclusters) (\<lambda>current.
       thn (case find (\<lambda>sc. sc_id sc = sid) current of None \<Rightarrow> ret ()
            | Some sc \<Rightarrow>
                (case find (\<lambda>e. snd e = vatId) (sc_vats sc) of None \<Rightarrow> ret ()
                 | Some e \<Rightarrow>
                     saveAllSubclustersToStorage
                       (edit_first sid (\<lambda>c. c\<lparr>sc_vats := obj_del (fst e) (sc_vats c)\<rparr>) current)))
         (bnd (gets getVatToSubclusterMap) (\<lambda>currentMap.
            whenM (map_of currentMap vatId = Some sid)
              (saveVatToSubclusterMapToStorage (obj_del vatId currentMap)))))"

definition deleteSubcluster :: "string \<Rightarrow> unit store" where
  "deleteSubcluster sid =
     bnd (gets getSubclusters) (\<lambda>current.
       case find (\<lambda>sc. sc_id sc = sid) current of None \<Rightarrow> ret ()
       | Some sc \<Rightarrow>
           thn (saveAllSubclustersToStorage (filter (\<lambda>c. sc_id c \<noteq> sid) current))
             (bnd (gets getVatToSubclusterMap) (\<lambda>currentMap.
                let vatsToRemove = filter (\<lambda>v. map_of currentMap v = Some sid) (map snd (sc_vats sc)) in
                whenM (vatsToRemove \<noteq> [])
                  (saveVatToSubclusterMapToStorage (foldl (\<lambda>m v. obj_del v m) currentMap vatsToRemove)))))"

definition getVatSubcluster :: "string \<Rightarrow> string store" where
  "getVatSubcluster vatId =
     bnd (gets (\<lambda>s. map_of (getVatToSubclusterMap s) vatId))
       (ofOption (Fail ''Vat has no subcluster'' [vatId]))"

definition clearEmptySubclusters :: "unit store" where
  "clearEmptySubclusters =
     bnd (gets getSubclusters) (\<lambda>current.
       let nonEmpty = filter (\<lambda>sc. length (sc_vats sc) > 0) current in
       whenM (length nonEmpty \<noteq> length current) (saveAllSubclustersToStorage nonEmpty))"

definition removeVatFromSubcluster :: "string \<Rightarrow> unit store" where
  "removeVatFromSubcluster vatId =
     bnd (gets (\<lambda>s. map_of (getVatToSubclusterMap s) vatId)) (\<lambda>sid.
       case sid of None \<Rightarrow> ret () | Some i \<Rightarrow> whenM (i \<noteq> '''') (deleteSubclusterVat i vatId))"

definition getSystemSubclusterMapping :: "string \<Rightarrow> ctx \<Rightarrow> string option" where
  "getSystemSubclusterMapping name s = tget (systemSubclusters (db s)) name"

definition setSystemSubclusterMapping :: "string \<Rightarrow> string \<Rightarrow> unit store" where
  "setSystemSubclusterMapping name sid = kvWrite (systemSubclusters_update (tput name sid))"

definition deleteSystemSubclusterMapping :: "string \<Rightarrow> unit store" where
  "deleteSystemSubclusterMapping name = kvWrite (systemSubclusters_update (tdel name))"

definition getAllSystemSubclusterMappings :: "ctx \<Rightarrow> (string \<times> string) list" where
  "getAllSystemSubclusterMappings s = filter (\<lambda>e. snd e \<noteq> '''') (tlist (systemSubclusters (db s)))"

section \<open>The two sides agree\<close>

text \<open>
  Subcluster ids are distinct and below the counter, no vat has two names, and a vat is in a
  subcluster's record exactly when the map sends it there.
\<close>

definition subcluster_wf :: "ctx \<Rightarrow> bool" where
  "subcluster_wf s \<longleftrightarrow>
     (\<exists>n. nextSubclusterId (cache s) = Some n \<and>
        (\<forall>sc \<in> set (getSubclusters s). \<exists>m < n. sc_id sc = ''s'' @ nat_text m)) \<and>
     distinct (map sc_id (getSubclusters s)) \<and>
     (\<forall>sc \<in> set (getSubclusters s). distinct (map fst (sc_vats sc)) \<and> distinct (map snd (sc_vats sc))) \<and>
     (\<forall>v i. map_of (getVatToSubclusterMap s) v = Some i \<longleftrightarrow>
        (\<exists>sc \<in> set (getSubclusters s). sc_id sc = i \<and> v \<in> snd ` set (sc_vats sc)))"

text \<open>Any operation on any arguments; one that fails leaves what it has written.\<close>

datatype sc_op = AddSubcluster string | AddVat string string string | DeleteVat string string
  | DeleteSubcluster string | ClearEmpty | RemoveVat string

fun sc_do :: "sc_op \<Rightarrow> ctx \<Rightarrow> ctx" where
  "sc_do (AddSubcluster config) s = snd (addSubcluster config s)"
| "sc_do (AddVat i name v) s = snd (addSubclusterVat i name v s)"
| "sc_do (DeleteVat i v) s = snd (deleteSubclusterVat i v s)"
| "sc_do (DeleteSubcluster i) s = snd (deleteSubcluster i s)"
| "sc_do ClearEmpty s = snd (clearEmptySubclusters s)"
| "sc_do (RemoveVat v) s = snd (removeVatFromSubcluster v s)"

fun sc_run :: "sc_op list \<Rightarrow> ctx \<Rightarrow> ctx" where
  "sc_run [] s = s"
| "sc_run (op # ops) s = sc_run ops (sc_do op s)"

text \<open>
  A vat that is in no subcluster is added under a name its new subcluster does not use; one that is in
  the subcluster already is added under the name it has. Everything else a caller may do freely.
\<close>

fun tidy :: "sc_op \<Rightarrow> ctx \<Rightarrow> bool" where
  "tidy (AddVat i name v) s = (case getSubcluster i s of None \<Rightarrow> True
     | Some sc \<Rightarrow> (case map_of (getVatToSubclusterMap s) v of None \<Rightarrow> map_of (sc_vats sc) name = None
         | Some j \<Rightarrow> j \<noteq> i \<or> map_of (sc_vats sc) name = Some v))"
| "tidy _ s = True"

fun tidy_run :: "sc_op list \<Rightarrow> ctx \<Rightarrow> bool" where
  "tidy_run [] s = True"
| "tidy_run (op # ops) s = (tidy op s \<and> tidy_run ops (sc_do op s))"

text \<open>What the operations read and write: the two lists and the counter.\<close>

definition sc_view :: "ctx \<Rightarrow> nat option \<times> subcluster list \<times> (string \<times> string) list" where
  "sc_view s = (nextSubclusterId (cache s), getSubclusters s, getVatToSubclusterMap s)"

definition sc_wf :: "nat option \<Rightarrow> subcluster list \<Rightarrow> (string \<Rightarrow> string option) \<Rightarrow> bool" where
  "sc_wf c scs m \<longleftrightarrow>
     (\<exists>n. c = Some n \<and> (\<forall>sc \<in> set scs. \<exists>k < n. sc_id sc = ''s'' @ nat_text k)) \<and>
     distinct (map sc_id scs) \<and>
     (\<forall>sc \<in> set scs. distinct (map fst (sc_vats sc)) \<and> distinct (map snd (sc_vats sc))) \<and>
     (\<forall>v i. m v = Some i \<longleftrightarrow> (\<exists>sc \<in> set scs. sc_id sc = i \<and> v \<in> snd ` set (sc_vats sc)))"

lemma subcluster_wf_view: "subcluster_wf s = sc_wf (nextSubclusterId (cache s)) (getSubclusters s) (map_of (getVatToSubclusterMap s))"
  by (simp add: subcluster_wf_def sc_wf_def)

lemma sc_save [simp]:
  "getSubclusters (snd (saveAllSubclustersToStorage scs s)) = scs"
  "getVatToSubclusterMap (snd (saveAllSubclustersToStorage scs s)) = getVatToSubclusterMap s"
  "nextSubclusterId (cache (snd (saveAllSubclustersToStorage scs s))) = nextSubclusterId (cache s)"
  "getSubclusters (snd (saveVatToSubclusterMapToStorage m s)) = getSubclusters s"
  "getVatToSubclusterMap (snd (saveVatToSubclusterMapToStorage m s)) = m"
  "nextSubclusterId (cache (snd (saveVatToSubclusterMapToStorage m s))) = nextSubclusterId (cache s)"
  by (simp_all add: saveAllSubclustersToStorage_def saveVatToSubclusterMapToStorage_def
      getSubclusters_def getVatToSubclusterMap_def)

lemma sc_save_run:
  "saveAllSubclustersToStorage scs s = (Inr (), snd (saveAllSubclustersToStorage scs s))"
  "saveVatToSubclusterMapToStorage m s = (Inr (), snd (saveVatToSubclusterMapToStorage m s))"
  by (simp_all add: saveAllSubclustersToStorage_def saveVatToSubclusterMapToStorage_def)

lemma find_id: "find (\<lambda>sc. sc_id sc = i) scs = Some sc \<Longrightarrow> sc \<in> set scs \<and> sc_id sc = i"
  by (metis (mono_tags, lifting) find_Some_iff nth_mem)

lemma find_id_none: "find (\<lambda>sc. sc_id sc = i) scs = None \<Longrightarrow> sc \<in> set scs \<Longrightarrow> sc_id sc \<noteq> i"
  by (metis (mono_tags, lifting) find_None_iff)

lemma set_edit_first:
  assumes "distinct (map sc_id scs)" and "sc \<in> set scs" and "sc_id sc = i"
  shows "set (edit_first i f scs) = insert (f sc) (set scs - {sc})"
  using assms
proof (induction scs)
  case (Cons a scs)
  show ?case
  proof (cases "sc_id a = i")
    case True
    have "sc = a"
    proof (rule ccontr)
      assume "sc \<noteq> a"
      then have "sc \<in> set scs" using Cons.prems(2) by simp
      then have "sc_id sc \<in> set (map sc_id scs)" by simp
      with Cons.prems(1,3) True show False by simp
    qed
    moreover have "a \<notin> set scs" using Cons.prems(1) by (metis distinct.simps(2) image_eqI list.set_map list.simps(9))
    ultimately show ?thesis using True by simp
  next
    case False
    then have "sc \<in> set scs" "sc \<noteq> a" using Cons.prems(2,3) by auto
    with Cons False show ?thesis by auto
  qed
qed simp

lemma ids_edit_first: "(\<And>sc. sc_id (f sc) = sc_id sc) \<Longrightarrow> map sc_id (edit_first i f scs) = map sc_id scs"
  by (induction scs) auto

lemma sc_id_unique: "distinct (map sc_id scs) \<Longrightarrow> a \<in> set scs \<Longrightarrow> b \<in> set scs \<Longrightarrow> sc_id a = sc_id b \<Longrightarrow> a = b"
  by (metis distinct_map inj_onD)

section \<open>Every operation keeps them agreeing\<close>

lemma sc_wf_add:
  assumes "sc_wf (Some n) scs m"
  shows "sc_wf (Some (Suc n)) (scs @ [\<lparr>sc_id = ''s'' @ nat_text n, sc_config = c, sc_vats = []\<rparr>]) m"
proof -
  have "''s'' @ nat_text n \<notin> sc_id ` set scs"
  proof
    assume "''s'' @ nat_text n \<in> sc_id ` set scs"
    then obtain sc where "sc \<in> set scs" "sc_id sc = ''s'' @ nat_text n" by (auto simp: image_iff)
    with assms show False unfolding sc_wf_def by (metis append_same_eq less_irrefl nat_text_inj option.inject same_append_eq)
  qed
  with assms show ?thesis
    unfolding sc_wf_def by (auto simp: less_Suc_eq)
qed

lemma sc_wf_edit:
  assumes wf: "sc_wf c scs m" and sc: "sc \<in> set scs" "sc_id sc = i" and f: "f sc = sc\<lparr>sc_vats := vs\<rparr>"
    and ids: "\<And>x. sc_id (f x) = sc_id x"
    and d: "distinct (map fst vs)" "distinct (map snd vs)"
    and m': "\<And>v j. m' v = Some j \<longleftrightarrow> (j = i \<and> v \<in> snd ` set vs) \<or> (j \<noteq> i \<and> m v = Some j)"
  shows "sc_wf c (edit_first i f scs) m'"
proof -
  have dist: "distinct (map sc_id scs)" using wf by (simp add: sc_wf_def)
  have set: "set (edit_first i f scs) = insert (sc\<lparr>sc_vats := vs\<rparr>) (set scs - {sc})"
    using set_edit_first [OF dist sc, of f] f by simp
  have map: "map sc_id (edit_first i f scs) = map sc_id scs" by (rule ids_edit_first) (rule ids)
  obtain n where n: "c = Some n" "\<And>x. x \<in> set scs \<Longrightarrow> \<exists>k<n. sc_id x = ''s'' @ nat_text k"
    using wf by (auto simp: sc_wf_def)
  have other: "x \<in> set scs - {sc} \<Longrightarrow> sc_id x \<noteq> i" for x
    using sc_id_unique [OF dist _ sc(1), of x] sc(2) by auto
  have m: "m v = Some j \<longleftrightarrow> (\<exists>x \<in> set scs. sc_id x = j \<and> v \<in> snd ` set (sc_vats x))" for v j
    using wf by (simp add: sc_wf_def)
  show ?thesis
    unfolding sc_wf_def map
  proof (intro conjI allI)
    show "\<exists>n. c = Some n \<and> (\<forall>x \<in> set (edit_first i f scs). \<exists>k<n. sc_id x = ''s'' @ nat_text k)"
      using n n(2) [OF sc(1)] by (auto simp: set)
    show "distinct (map sc_id scs)" by (rule dist)
    show "\<forall>x \<in> set (edit_first i f scs). distinct (map fst (sc_vats x)) \<and> distinct (map snd (sc_vats x))"
      using wf d by (auto simp: set sc_wf_def)
    fix v j
    show "m' v = Some j \<longleftrightarrow> (\<exists>x \<in> set (edit_first i f scs). sc_id x = j \<and> v \<in> snd ` set (sc_vats x))"
    proof (cases "j = i")
      case True
      then show ?thesis using m' [of v j] other sc(2) by (auto simp: set)
    next
      case False
      then show ?thesis using m' [of v j] m [of v j] sc by (auto simp: set)
    qed
  qed
qed

lemma sc_wf_delete:
  assumes wf: "sc_wf c scs m" and m': "\<And>v. m' v = (if m v = Some i then None else m v)"
  shows "sc_wf c (filter (\<lambda>x. sc_id x \<noteq> i) scs) m'"
proof -
  have m: "m v = Some j \<longleftrightarrow> (\<exists>x \<in> set scs. sc_id x = j \<and> v \<in> snd ` set (sc_vats x))" for v j
    using wf by (simp add: sc_wf_def)
  have "m' v = Some j \<longleftrightarrow> j \<noteq> i \<and> m v = Some j" for v j using m' [of v] by auto
  then have "m' v = Some j \<longleftrightarrow> (\<exists>x \<in> set (filter (\<lambda>x. sc_id x \<noteq> i) scs). sc_id x = j \<and> v \<in> snd ` set (sc_vats x))" for v j
    by (auto simp: m)
  with wf show ?thesis unfolding sc_wf_def by (auto simp: distinct_map_filter)
qed

lemma sc_wf_clear:
  assumes "sc_wf c scs m"
  shows "sc_wf c (filter (\<lambda>x. length (sc_vats x) > 0) scs) m"
  using assms unfolding sc_wf_def
  by (auto simp: distinct_map_filter)

lemma addSubcluster_wf:
  assumes "subcluster_wf s" and "addSubcluster config s = (Inr i, s')"
  shows "subcluster_wf s'"
proof -
  obtain n where n: "nextSubclusterId (cache s) = Some n" using assms(1) by (auto simp: subcluster_wf_def)
  have "getSubclusters s' = getSubclusters s @ [\<lparr>sc_id = ''s'' @ nat_text n, sc_config = config, sc_vats = []\<rparr>]"
    "getVatToSubclusterMap s' = getVatToSubclusterMap s" "nextSubclusterId (cache s') = Some (Suc n)"
    using assms(2) n
    by (auto simp: addSubcluster_def incCounter_def Let_def sm_simps saveAllSubclustersToStorage_def
        getSubclusters_def getVatToSubclusterMap_def)
  with assms(1) n sc_wf_add show ?thesis by (simp add: subcluster_wf_view)
qed

lemma map_add_vat:
  assumes wf: "sc_wf c scs m" and sc: "sc \<in> set scs" "sc_id sc = i"
    and name: "map_of (sc_vats sc) name = Some v \<or> map_of (sc_vats sc) name = None \<and> m v = None"
  shows "sc_wf c (edit_first i (\<lambda>sc. if map_of (sc_vats sc) name \<noteq> Some v
      then sc\<lparr>sc_vats := obj_put name v (sc_vats sc)\<rparr> else sc) scs) (m(v \<mapsto> i))"
proof -
  have d: "distinct (map fst (sc_vats sc))" "distinct (map snd (sc_vats sc))" using wf sc by (auto simp: sc_wf_def)
  have m: "m w = Some j \<longleftrightarrow> (\<exists>x \<in> set scs. sc_id x = j \<and> w \<in> snd ` set (sc_vats x))" for w j
    using wf by (simp add: sc_wf_def)
  have mi: "m w = Some i \<longleftrightarrow> w \<in> snd ` set (sc_vats sc)" for w
  proof -
    have "distinct (map sc_id scs)" using wf by (simp add: sc_wf_def)
    then show ?thesis using m [of w i] sc sc_id_unique [of scs] by blast
  qed
  show ?thesis
  proof (cases "map_of (sc_vats sc) name = Some v")
    case True
    then have v: "v \<in> snd ` set (sc_vats sc)" by (metis image_eqI map_of_SomeD snd_conv)
    have "m v = Some i" using mi v by simp
    then have "(m(v \<mapsto> i)) w = Some j \<longleftrightarrow> j = i \<and> w \<in> snd ` set (sc_vats sc) \<or> j \<noteq> i \<and> m w = Some j" for w j
      using mi [of w] by auto
    then show ?thesis
      by (intro sc_wf_edit [OF wf sc, of _ "sc_vats sc"]) (use True d in auto)
  next
    case False
    then have new: "map_of (sc_vats sc) name = None" "m v = None" using name by auto
    then have n1: "name \<notin> fst ` set (sc_vats sc)" by (simp add: map_of_eq_None_iff)
    have n2: "v \<notin> snd ` set (sc_vats sc)" using mi [of v] new(2) by auto
    show ?thesis
      by (rule sc_wf_edit [OF wf sc, of _ "sc_vats sc @ [(name, v)]"])
        (use False d n1 n2 mi new(2) in \<open>auto simp: obj_put_new split: if_splits\<close>)
  qed
qed

lemma addSubclusterVat_wf:
  assumes wf: "subcluster_wf s" and run: "addSubclusterVat i name v s = (Inr (), s')"
    and sc: "getSubcluster i s = Some sc"
    and name: "map_of (sc_vats sc) name = Some v \<or>
      map_of (sc_vats sc) name = None \<and> map_of (getVatToSubclusterMap s) v = None"
  shows "subcluster_wf s'"
proof -
  let ?scs = "edit_first i (\<lambda>sc. if map_of (sc_vats sc) name \<noteq> Some v
      then sc\<lparr>sc_vats := obj_put name v (sc_vats sc)\<rparr> else sc) (getSubclusters s)"
  have mem: "sc \<in> set (getSubclusters s)" "sc_id sc = i"
    using sc find_id by (auto simp: getSubcluster_def)
  have "s' = snd (saveAllSubclustersToStorage ?scs
      (snd (saveVatToSubclusterMapToStorage (obj_put v i (getVatToSubclusterMap s)) s)))"
    using run sc sc_save_run
    by (auto simp: addSubclusterVat_def getSubcluster_def thn_run saveAllSubclustersToStorage_def
        saveVatToSubclusterMapToStorage_def split: if_splits)
  with map_add_vat [OF wf [unfolded subcluster_wf_view] mem name] show ?thesis
    by (simp add: subcluster_wf_view)
qed

text \<open>Removing a vat from the record and from the map.\<close>

lemma find_vat:
  assumes "find (\<lambda>e. snd e = v) es = Some e"
  shows "e \<in> set es" and "snd e = v"
  using assms by (auto simp: find_Some_iff)

lemma vals_obj_del:
  assumes "distinct (map fst es)" and "distinct (map snd es)" and "e \<in> set es"
  shows "snd ` set (obj_del (fst e) es) = snd ` set es - {snd e}" and "distinct (map snd (obj_del (fst e) es))"
proof -
  have eq: "x = e" if "x \<in> set es" "fst x = fst e \<or> snd x = snd e" for x
    using that assms by (auto simp: distinct_map dest: inj_onD)
  show "snd ` set (obj_del (fst e) es) = snd ` set es - {snd e}"
    using eq by (fastforce simp: obj_del_def image_iff)
  show "distinct (map snd (obj_del (fst e) es))" using assms(2) by (simp add: obj_del_def distinct_map_filter)
qed

lemma deleteSubclusterVat_wf:
  assumes wf: "subcluster_wf s" and run: "deleteSubclusterVat i v s = (Inr (), s')"
  shows "subcluster_wf s'"
proof -
  let ?scs = "getSubclusters s" and ?m = "getVatToSubclusterMap s"
  note w = wf [unfolded subcluster_wf_view]
  have m: "map_of ?m v' = Some j \<longleftrightarrow> (\<exists>x \<in> set ?scs. sc_id x = j \<and> v' \<in> snd ` set (sc_vats x))" for v' j
    using w by (simp add: sc_wf_def)
  have dist: "distinct (map sc_id ?scs)" using w by (simp add: sc_wf_def)
  show ?thesis
  proof (cases "map_of ?m v = Some i")
    case False
    have "find (\<lambda>e. snd e = v) (sc_vats sc) = None" if "find (\<lambda>sc. sc_id sc = i) ?scs = Some sc" for sc
    proof -
      have "v \<notin> snd ` set (sc_vats sc)" using False m [of v i] find_id [OF that] by blast
      then show ?thesis by (force simp: find_None_iff)
    qed
    then have "s' = s" using run False
      by (auto simp: deleteSubclusterVat_def thn_run bnd_run split: option.splits)
    with wf show ?thesis by simp
  next
    case True
    then obtain sc where sc: "sc \<in> set ?scs" "sc_id sc = i" "v \<in> snd ` set (sc_vats sc)" using m by blast
    have "find (\<lambda>sc. sc_id sc = i) ?scs = Some sc"
      using sc find_id find_id_none sc_id_unique [OF dist] by (metis not_None_eq)
    moreover obtain e where e: "find (\<lambda>e. snd e = v) (sc_vats sc) = Some e"
      using sc(3) by (cases "find (\<lambda>e. snd e = v) (sc_vats sc)") (auto simp: find_None_iff)
    ultimately have s': "s' = snd (saveVatToSubclusterMapToStorage (obj_del v ?m)
        (snd (saveAllSubclustersToStorage (edit_first i (\<lambda>c. c\<lparr>sc_vats := obj_del (fst e) (sc_vats c)\<rparr>) ?scs) s)))"
      using run True
      by (auto simp: deleteSubclusterVat_def thn_run bnd_run saveAllSubclustersToStorage_def
          saveVatToSubclusterMapToStorage_def getVatToSubclusterMap_def)
    have d: "distinct (map fst (sc_vats sc))" "distinct (map snd (sc_vats sc))" using w sc(1) by (auto simp: sc_wf_def)
    note del = vals_obj_del [OF d find_vat(1) [OF e]]
    have mi: "map_of ?m x = Some i \<longleftrightarrow> x \<in> snd ` set (sc_vats sc)" for x
      using m [of x i] sc sc_id_unique [OF dist] by blast
    have "sc_wf (nextSubclusterId (cache s)) (edit_first i (\<lambda>c. c\<lparr>sc_vats := obj_del (fst e) (sc_vats c)\<rparr>) ?scs)
        ((map_of ?m)(v := None))"
    proof (rule sc_wf_edit [OF w sc(1,2), of _ "obj_del (fst e) (sc_vats sc)"])
      fix x j
      show "((map_of ?m)(v := None)) x = Some j \<longleftrightarrow>
          j = i \<and> x \<in> snd ` set (obj_del (fst e) (sc_vats sc)) \<or> j \<noteq> i \<and> map_of ?m x = Some j"
        using del(1) find_vat(2) [OF e] mi [of x] True by auto
    qed (use d del(2) in simp_all)
    then show ?thesis by (simp add: s' subcluster_wf_view)
  qed
qed

lemma map_of_del_all: "map_of (foldl (\<lambda>m v. obj_del v m) m vs) x = (if x \<in> set vs then None else map_of m x)"
  by (induction vs arbitrary: m) auto

lemma deleteSubcluster_wf:
  assumes wf: "subcluster_wf s" and run: "deleteSubcluster i s = (Inr (), s')"
  shows "subcluster_wf s'"
proof (cases "find (\<lambda>sc. sc_id sc = i) (getSubclusters s)")
  case None
  with run have "s' = s" by (simp add: deleteSubcluster_def)
  with wf show ?thesis by simp
next
  case (Some sc)
  let ?scs = "getSubclusters s" and ?m = "getVatToSubclusterMap s"
  note w = wf [unfolded subcluster_wf_view]
  define rm where "rm = filter (\<lambda>v. map_of ?m v = Some i) (map snd (sc_vats sc))"
  have dist: "distinct (map sc_id ?scs)" using w by (simp add: sc_wf_def)
  have mi: "map_of ?m x = Some i \<longleftrightarrow> x \<in> snd ` set (sc_vats sc)" for x
    using w find_id [OF Some] sc_id_unique [OF dist] unfolding sc_wf_def by blast
  let ?s1 = "snd (saveAllSubclustersToStorage (filter (\<lambda>c. sc_id c \<noteq> i) ?scs) s)"
  have s': "s' = (if rm \<noteq> [] then snd (saveVatToSubclusterMapToStorage (foldl (\<lambda>m v. obj_del v m) ?m rm) ?s1) else ?s1)"
    using run Some
    by (auto simp: deleteSubcluster_def thn_run bnd_run rm_def saveAllSubclustersToStorage_def Let_def
        saveVatToSubclusterMapToStorage_def getVatToSubclusterMap_def split: if_splits)
  have "sc_wf (nextSubclusterId (cache s)) (filter (\<lambda>c. sc_id c \<noteq> i) ?scs) (\<lambda>v. if v \<in> set rm then None else map_of ?m v)"
    by (rule sc_wf_delete [OF w]) (use mi in \<open>auto simp: rm_def\<close>)
  moreover have "map_of (getVatToSubclusterMap s') = (\<lambda>v. if v \<in> set rm then None else map_of ?m v)"
    by (auto simp: s' map_of_del_all fun_eq_iff)
  moreover have "getSubclusters s' = filter (\<lambda>c. sc_id c \<noteq> i) ?scs" "nextSubclusterId (cache s') = nextSubclusterId (cache s)"
    by (simp_all add: s')
  ultimately show ?thesis by (simp add: subcluster_wf_view)
qed

lemma clearEmptySubclusters_wf:
  assumes wf: "subcluster_wf s" and run: "clearEmptySubclusters s = (Inr (), s')"
  shows "subcluster_wf s'"
proof -
  let ?f = "filter (\<lambda>sc. length (sc_vats sc) > 0) (getSubclusters s)"
  have "s' = s \<or> s' = snd (saveAllSubclustersToStorage ?f s)"
    using run by (auto simp: clearEmptySubclusters_def Let_def saveAllSubclustersToStorage_def split: if_splits)
  then show ?thesis using wf sc_wf_clear [OF wf [unfolded subcluster_wf_view]] by (auto simp: subcluster_wf_view)
qed

lemma removeVatFromSubcluster_wf:
  assumes "subcluster_wf s" and "removeVatFromSubcluster v s = (Inr (), s')"
  shows "subcluster_wf s'"
  using assms deleteSubclusterVat_wf [OF assms(1)]
  by (auto simp: removeVatFromSubcluster_def split: option.splits if_splits)

text \<open>A vat added under a name taken by another, or under a second name.\<close>

lemma addSubclusterVat_effect:
  assumes "getSubcluster i s = Some sc" and "map_of (getVatToSubclusterMap s) v = None \<or> map_of (getVatToSubclusterMap s) v = Some i"
  shows "\<exists>s'. addSubclusterVat i name v s = (Inr (), s') \<and> getVatToSubclusterMap s' = obj_put v i (getVatToSubclusterMap s) \<and>
    getSubclusters s' = edit_first i (\<lambda>sc. if map_of (sc_vats sc) name \<noteq> Some v
      then sc\<lparr>sc_vats := obj_put name v (sc_vats sc)\<rparr> else sc) (getSubclusters s)"
  using assms
  by (auto simp: addSubclusterVat_def getSubcluster_def thn_run saveAllSubclustersToStorage_def
      saveVatToSubclusterMapToStorage_def getSubclusters_def getVatToSubclusterMap_def)

lemma addSubclusterVat_refused:
  assumes "getSubcluster i s = None \<or> (\<exists>j. map_of (getVatToSubclusterMap s) v = Some j \<and> j \<noteq> i \<and> j \<noteq> [])"
  shows "snd (addSubclusterVat i name v s) = s"
  using assms by (auto simp: addSubclusterVat_def getSubcluster_def thn_run split: option.splits)

lemma find_edit_first:
  "find (\<lambda>sc. sc_id sc = i) scs = Some sc \<Longrightarrow> sc_id (f sc) = i \<Longrightarrow> find (\<lambda>sc. sc_id sc = i) (edit_first i f scs) = Some (f sc)"
  by (induction scs) (auto split: if_splits)

lemma subcluster_wf_members:
  assumes "subcluster_wf s" and "getSubcluster i s = Some sc"
  shows "map_of (getVatToSubclusterMap s) v = Some i \<longleftrightarrow> v \<in> snd ` set (sc_vats sc)"
    and "distinct (map fst (sc_vats sc))" and "distinct (map snd (sc_vats sc))" and "i \<noteq> []"
proof -
  have sc: "sc \<in> set (getSubclusters s)" "sc_id sc = i" using assms(2) find_id by (auto simp: getSubcluster_def)
  have "distinct (map sc_id (getSubclusters s))" using assms(1) by (simp add: subcluster_wf_def)
  then show "map_of (getVatToSubclusterMap s) v = Some i \<longleftrightarrow> v \<in> snd ` set (sc_vats sc)"
    using assms(1) sc sc_id_unique unfolding subcluster_wf_def by blast
  show "distinct (map fst (sc_vats sc))" "distinct (map snd (sc_vats sc))" using assms(1) sc(1) by (auto simp: subcluster_wf_def)
  show "i \<noteq> []" using assms(1) sc by (auto simp: subcluster_wf_def)
qed

lemma map_to_id: "subcluster_wf s \<Longrightarrow> map_of (getVatToSubclusterMap s) v \<noteq> Some []"
  by (auto simp: subcluster_wf_def)

lemma addSubclusterVat_taken:
  assumes wf: "subcluster_wf s" and sc: "getSubcluster i s = Some sc" and taken: "map_of (sc_vats sc) name = Some w" "w \<noteq> v"
    and new: "map_of (getVatToSubclusterMap s) v = None"
  shows "\<exists>s' vs. addSubclusterVat i name v s = (Inr (), s') \<and> getVatSubcluster w s' = (Inr i, s') \<and>
    getSubclusterVats i s' = (Inr vs, s') \<and> v \<in> set vs \<and> w \<notin> set vs"
proof -
  let ?f = "\<lambda>sc. if map_of (sc_vats sc) name \<noteq> Some v then sc\<lparr>sc_vats := obj_put name v (sc_vats sc)\<rparr> else sc"
  obtain s' where s': "addSubclusterVat i name v s = (Inr (), s')" "getVatToSubclusterMap s' = obj_put v i (getVatToSubclusterMap s)"
    "getSubclusters s' = edit_first i ?f (getSubclusters s)"
    using addSubclusterVat_effect [OF sc, of v name] new by blast
  note m = subcluster_wf_members [OF wf sc]
  have w: "map_of (getVatToSubclusterMap s) w = Some i" using m(1) [of w] taken(1) by (metis image_eqI map_of_SomeD snd_conv)
  have id: "sc_id sc = i" using sc find_id by (auto simp: getSubcluster_def)
  have g: "getSubcluster i s' = Some (sc\<lparr>sc_vats := obj_put name v (sc_vats sc)\<rparr>)"
    using find_edit_first [of i "getSubclusters s" sc ?f] sc id taken unfolding getSubcluster_def s'(3) by simp
  have "w \<notin> snd ` set (obj_put name v (sc_vats sc))"
  proof
    assume "w \<in> snd ` set (obj_put name v (sc_vats sc))"
    then obtain n where n: "(n, w) \<in> set (sc_vats sc)" "n \<noteq> name" using taken(2) by (auto simp: set_obj_put [OF m(2)])
    moreover have "(name, w) \<in> set (sc_vats sc)" using taken(1) by (rule map_of_SomeD)
    ultimately show False using one_name [OF m(3)] by metis
  qed
  moreover have "v \<in> snd ` set (obj_put name v (sc_vats sc))" by (force simp: set_obj_put [OF m(2)])
  ultimately show ?thesis using s'(1,2) w g taken(2)
    by (intro exI [of _ s'] exI [of _ "map snd (obj_put name v (sc_vats sc))"])
      (simp add: getVatSubcluster_def getSubclusterVats_def)
qed

lemma addSubclusterVat_second_name:
  assumes wf: "subcluster_wf s" and sc: "getSubcluster i s = Some sc" and old: "map_of (getVatToSubclusterMap s) v = Some i"
    and name: "map_of (sc_vats sc) name \<noteq> Some v"
  shows "\<not> subcluster_wf (snd (addSubclusterVat i name v s))"
proof
  let ?f = "\<lambda>sc. if map_of (sc_vats sc) name \<noteq> Some v then sc\<lparr>sc_vats := obj_put name v (sc_vats sc)\<rparr> else sc"
  assume wf': "subcluster_wf (snd (addSubclusterVat i name v s))"
  obtain s' where s': "addSubclusterVat i name v s = (Inr (), s')" "getSubclusters s' = edit_first i ?f (getSubclusters s)"
    using addSubclusterVat_effect [OF sc, of v name] old by blast
  note m = subcluster_wf_members [OF wf sc]
  have id: "sc_id sc = i" using sc find_id by (auto simp: getSubcluster_def)
  have g: "getSubcluster i s' = Some (sc\<lparr>sc_vats := obj_put name v (sc_vats sc)\<rparr>)"
    using find_edit_first [of i "getSubclusters s" sc ?f] sc id name unfolding getSubcluster_def s'(2) by simp
  have d: "distinct (map snd (obj_put name v (sc_vats sc)))"
    using subcluster_wf_members(3) [OF _ g] wf' s'(1) by simp
  obtain n where n: "(n, v) \<in> set (sc_vats sc)" using m(1) [of v] old by auto
  have ne: "n \<noteq> name" using n name m(2) by (metis map_of_eq_Some_iff)
  have "(n, v) \<in> set (obj_put name v (sc_vats sc))" "(name, v) \<in> set (obj_put name v (sc_vats sc))"
    using n ne by (simp_all add: set_obj_put [OF m(2)])
  with one_name [OF d] ne show False by metis
qed

lemma vat_lookups_agree:
  assumes wf: "subcluster_wf s"
  shows "getVatSubcluster v s = (Inr i, s) \<longleftrightarrow> (\<exists>vs. getSubclusterVats i s = (Inr vs, s) \<and> v \<in> set vs)"
proof -
  have dist: "distinct (map sc_id (getSubclusters s))" using wf by (simp add: subcluster_wf_def)
  have "getVatSubcluster v s = (Inr i, s) \<longleftrightarrow> map_of (getVatToSubclusterMap s) v = Some i"
    by (simp add: getVatSubcluster_def split: option.split)
  also have "\<dots> \<longleftrightarrow> (\<exists>sc \<in> set (getSubclusters s). sc_id sc = i \<and> v \<in> snd ` set (sc_vats sc))"
    using wf by (simp add: subcluster_wf_def)
  also have "\<dots> \<longleftrightarrow> (\<exists>sc. getSubcluster i s = Some sc \<and> v \<in> snd ` set (sc_vats sc))"
    unfolding getSubcluster_def
    using find_id find_id_none sc_id_unique [OF dist] by (metis not_None_eq)
  also have "\<dots> \<longleftrightarrow> (\<exists>vs. getSubclusterVats i s = (Inr vs, s) \<and> v \<in> set vs)"
    by (auto simp: getSubclusterVats_def split: option.splits)
  finally show ?thesis .
qed

text \<open>The condition is exact: an operation keeps the two sides agreeing just when it is tidy.\<close>

lemma addSubclusterVat_tidy:
  assumes wf: "subcluster_wf s"
  shows "subcluster_wf (snd (addSubclusterVat i name v s)) \<longleftrightarrow> tidy (AddVat i name v) s"
proof (cases "getSubcluster i s")
  case None
  then show ?thesis using wf by (simp add: addSubclusterVat_refused)
next
  case (Some sc)
  note m = subcluster_wf_members [OF wf Some]
  show ?thesis
  proof (cases "map_of (getVatToSubclusterMap s) v")
    case None
    obtain s' where s': "addSubclusterVat i name v s = (Inr (), s')" using addSubclusterVat_effect [OF Some, of v name] None by blast
    show ?thesis
    proof (cases "map_of (sc_vats sc) name")
      case free: None
      then have "subcluster_wf s'" using addSubclusterVat_wf [OF wf s' Some] None by blast
      then show ?thesis using s' Some None free by simp
    next
      case taken: (Some w)
      have "w \<noteq> v" using taken None m(1) [of v] by (metis image_eqI map_of_SomeD option.distinct(1) snd_conv)
      with addSubclusterVat_taken [OF wf Some taken this None] s' vat_lookups_agree [of s' w i] have "\<not> subcluster_wf s'" by auto
      then show ?thesis using s' Some None taken by simp
    qed
  next
    case j: (Some j)
    show ?thesis
    proof (cases "j = i")
      case False
      then show ?thesis using j Some wf map_to_id [OF wf, of v] by (simp add: addSubclusterVat_refused)
    next
      case True
      then obtain s' where s': "addSubclusterVat i name v s = (Inr (), s')" using addSubclusterVat_effect [OF Some, of v name] j by blast
      show ?thesis using addSubclusterVat_wf [OF wf s' Some] addSubclusterVat_second_name [OF wf Some, of v name] s' Some j True by auto
    qed
  qed
qed

lemma sc_do_tidy: "subcluster_wf s \<Longrightarrow> subcluster_wf (sc_do op s) \<longleftrightarrow> tidy op s"
proof (cases op)
  case (AddSubcluster config)
  assume wf: "subcluster_wf s"
  then obtain i s' where "addSubcluster config s = (Inr i, s')"
    by (auto simp: subcluster_wf_def addSubcluster_def incCounter_def Let_def sm_simps saveAllSubclustersToStorage_def)
  then show ?thesis using addSubcluster_wf [OF wf] AddSubcluster by simp
next
  case (AddVat i name v)
  assume "subcluster_wf s"
  then show ?thesis using addSubclusterVat_tidy AddVat by simp
next
  case (DeleteVat i v)
  assume wf: "subcluster_wf s"
  have "fst (deleteSubclusterVat i v s) = Inr ()"
    by (auto simp: deleteSubclusterVat_def thn_run bnd_run saveAllSubclustersToStorage_def saveVatToSubclusterMapToStorage_def split: option.splits)
  then show ?thesis using deleteSubclusterVat_wf [OF wf, of i v] DeleteVat by (metis prod.collapse sc_do.simps(3) tidy.simps(3))
next
  case (DeleteSubcluster i)
  assume wf: "subcluster_wf s"
  have "fst (deleteSubcluster i s) = Inr ()"
    by (auto simp: deleteSubcluster_def thn_run bnd_run Let_def saveAllSubclustersToStorage_def saveVatToSubclusterMapToStorage_def split: option.splits)
  then show ?thesis using deleteSubcluster_wf [OF wf, of i] DeleteSubcluster by (metis prod.collapse sc_do.simps(4) tidy.simps(4))
next
  case ClearEmpty
  assume wf: "subcluster_wf s"
  have "fst (clearEmptySubclusters s) = Inr ()"
    by (auto simp: clearEmptySubclusters_def Let_def saveAllSubclustersToStorage_def)
  then show ?thesis using clearEmptySubclusters_wf [OF wf] ClearEmpty by (metis prod.collapse sc_do.simps(5) tidy.simps(5))
next
  case (RemoveVat v)
  assume wf: "subcluster_wf s"
  have "fst (removeVatFromSubcluster v s) = Inr ()"
    by (auto simp: removeVatFromSubcluster_def deleteSubclusterVat_def thn_run bnd_run saveAllSubclustersToStorage_def
        saveVatToSubclusterMapToStorage_def split: option.splits)
  then show ?thesis using removeVatFromSubcluster_wf [OF wf, of v] RemoveVat by (metis prod.collapse sc_do.simps(6) tidy.simps(6))
qed

lemma sc_run_wf: "subcluster_wf s \<Longrightarrow> tidy_run ops s \<Longrightarrow> subcluster_wf (sc_run ops s)"
  by (induction ops arbitrary: s) (simp_all add: sc_do_tidy)

lemma fresh_subclusters: "subcluster_wf (makeKernelStore empty_kdb)"
  unfolding makeKernelStore_fresh
  by (simp add: subcluster_wf_def getSubclusters_def getVatToSubclusterMap_def init_cached_rows_def
      init_row_def empty_kdb_def)

section \<open>Properties\<close>


text \<open>Two operations on a new store.\<close>

definition demo_sub1 :: ctx where
  "demo_sub1 = snd (addSubcluster ''cfg'' (makeKernelStore empty_kdb))"

definition demo_sub2 :: ctx where
  "demo_sub2 = snd (addSubclusterVat ''s1'' ''bob'' ''v1'' demo_sub1)"

lemma demo_sub1_run: "addSubcluster ''cfg'' (makeKernelStore empty_kdb) = (Inr ''s1'', demo_sub1)"
  "getSubclusters demo_sub1 = [\<lparr>sc_id = ''s1'', sc_config = ''cfg'', sc_vats = []\<rparr>]"
  "getVatToSubclusterMap demo_sub1 = []"
  unfolding demo_sub1_def makeKernelStore_fresh
  by (simp_all add: addSubcluster_def incCounter_def Let_def sm_simps saveAllSubclustersToStorage_def
      getSubclusters_def getVatToSubclusterMap_def init_cached_rows_def init_row_def empty_kdb_def nat_text_eval)

lemma demo_sub2_run: "addSubclusterVat ''s1'' ''bob'' ''v1'' demo_sub1 = (Inr (), demo_sub2)"
  "getSubclusters demo_sub2 = [\<lparr>sc_id = ''s1'', sc_config = ''cfg'', sc_vats = [(''bob'', ''v1'')]\<rparr>]"
  "getVatToSubclusterMap demo_sub2 = [(''v1'', ''s1'')]"
  unfolding demo_sub2_def using demo_sub1_run(2,3)
  by (simp_all add: addSubclusterVat_def sm_simps saveVatToSubclusterMapToStorage_def saveAllSubclustersToStorage_def
      getSubclusters_def getVatToSubclusterMap_def)


end
