(* ===== verification/Vats.thy ===== *)
theory Vats
  imports Promises Remotes Subclusters
begin

text \<open>
  Vats and endpoints in the store (\<open>store/methods/vat.ts\<close>): their configurations, who imports an
  object, what an endpoint exports, and the teardown of an endpoint's c-list when its vat
  terminates or its peer restarts; and the whole-store operations of \<open>store/index.ts\<close>. A
  loop of the code over the live keys of a c-list is \<open>forSlots\<close>, which asks the store for
  the next key after each turn as the code's generator does.
\<close>

section \<open>Walking a c-list\<close>

text \<open>\<open>getNextKey\<close> within an endpoint's c-list.\<close>

definition next_slot :: "string \<Rightarrow> string \<Rightarrow> ctx \<Rightarrow> string option" where
  "next_slot ep prev s =
     (case next_key (clists (db s)) (ep, prev) of None \<Rightarrow> None
      | Some k \<Rightarrow> if fst k = ep then Some (snd k) else None)"

text \<open>
  \<open>for (const key of getPrefixedKeys(prefix)) body\<close>, counting the turns. The bodies delete keys and
  add none, so that the number of keys at the start, and one, is fuel enough.
\<close>

primrec forSlots :: "nat \<Rightarrow> string \<Rightarrow> string \<Rightarrow> (string \<Rightarrow> unit store) \<Rightarrow> string \<Rightarrow> nat store" where
  "forSlots 0 ep pre visit prev = fail OutOfFuel"
| "forSlots (Suc n) ep pre visit prev =
     bnd (gets (next_slot ep prev)) (\<lambda>k.
       case k of None \<Rightarrow> ret 0
       | Some slot \<Rightarrow>
           if starts_with pre slot
           then thn (visit slot) (bnd (forSlots n ep pre visit slot) (\<lambda>c. ret (c + 1)))
           else ret 0)"

definition forPrefix :: "string \<Rightarrow> string \<Rightarrow> (string \<Rightarrow> unit store) \<Rightarrow> nat store" where
  "forPrefix ep pre visit =
     bnd (gets (\<lambda>s. length (tkeys (clists (db s))))) (\<lambda>n. forSlots (Suc n) ep pre visit pre)"

section \<open>Vat records (vat.ts)\<close>

definition deleteEndpoint :: "string \<Rightarrow> unit store" where
  "deleteEndpoint ep =
     bnd (gets (endpoint_slots ep)) (\<lambda>snapshot.
       thn (forEach snapshot (\<lambda>ref.
              bnd (lift (parseRef ref)) (\<lambda>p. whenM (rcontext p = KernelCtx) (forgetKref ep ref))))
         (thn (thn (forPrefix ep '''' (\<lambda>slot. kvWrite (clists_update (tdel (ep, slot))))) (ret ()))
           (thn (kvWrite (nextObjectIds_update (tdel ep)))
             (kvWrite (nextPromiseIds_update (tdel ep))))))"

definition getVatIDs :: "ctx \<Rightarrow> string list" where
  "getVatIDs s = tkeys (vatConfigs (db s))"

definition getVatConfig :: "string \<Rightarrow> string store" where
  "getVatConfig vatID = getRequired [''vatConfig'', vatID] (\<lambda>d. tget (vatConfigs d) vatID)"

definition getAllVatRecords :: "(string \<times> string) list store" where
  "getAllVatRecords =
     bnd (gets getVatIDs) (mapEach (\<lambda>vatID. bnd (getVatConfig vatID) (\<lambda>c. ret (vatID, c))))"

definition isVatActive :: "string \<Rightarrow> ctx \<Rightarrow> bool" where
  "isVatActive vatID s \<longleftrightarrow> has (vatConfigs (db s)) vatID"

definition setVatConfig :: "string \<Rightarrow> string \<Rightarrow> unit store" where
  "setVatConfig vatID config = kvWrite (vatConfigs_update (tput vatID config))"

definition deleteVatConfig :: "string \<Rightarrow> unit store" where
  "deleteVatConfig vatID = kvWrite (vatConfigs_update (tdel vatID))"

definition importsKernelSlot :: "string \<Rightarrow> string \<Rightarrow> bool store" where
  "importsKernelSlot ep slot =
     bnd (gets (\<lambda>s. tget (clists (db s)) (ep, slot))) (\<lambda>data.
       case data of None \<Rightarrow> ret False
       | Some text \<Rightarrow>
           if text = '''' then ret False
           else bnd (lift (parseReachableAndVatSlot text)) (\<lambda>(_, vatSlot).
             bnd (lift (parseRef vatSlot)) (\<lambda>p. ret (rdirection p = Some Import))))"

definition getTerminatedVats :: "ctx \<Rightarrow> string list" where
  "getTerminatedVats s = (case terminatedVats (cache s) of None \<Rightarrow> [] | Some vs \<Rightarrow> vs)"

primrec filterEach :: "('a \<Rightarrow> bool store) \<Rightarrow> 'a list \<Rightarrow> 'a list store" where
  "filterEach p [] = ret []"
| "filterEach p (x # xs) = bnd (p x) (\<lambda>b. bnd (filterEach p xs) (\<lambda>ys. ret (if b then x # ys else ys)))"

definition getImporters :: "string \<Rightarrow> string list store" where
  "getImporters koid =
     bnd (gets (\<lambda>s. foldl (\<lambda>a x. set_add x a) [] (getVatIDs s @ getTerminatedVats s @ getRemoteIDs s)))
       (\<lambda>endpointIds. bnd (filterEach (\<lambda>ep. importsKernelSlot ep koid) endpointIds)
         (\<lambda>importers. ret (sort_strings importers)))"

definition isVatTerminated :: "string \<Rightarrow> ctx \<Rightarrow> bool" where
  "isVatTerminated vatID s \<longleftrightarrow> vatID \<in> set (getTerminatedVats s)"

definition markVatAsTerminated :: "string \<Rightarrow> unit store" where
  "markVatAsTerminated vatID =
     bnd (gets getTerminatedVats) (\<lambda>vs.
       whenM (vatID \<notin> set vs) (cached_set (terminatedVats_update (\<lambda>_. Some (vs @ [vatID])))))"

definition forgetTerminatedVat :: "string \<Rightarrow> unit store" where
  "forgetTerminatedVat vatID =
     bnd (gets getTerminatedVats) (\<lambda>vs.
       cached_set (terminatedVats_update (\<lambda>_. Some (filter (\<lambda>i. i \<noteq> vatID) vs))))"

section \<open>Teardown of a terminated vat (vat.ts)\<close>

record cleanup_work =
  w_exports :: nat
  w_imports :: nat
  w_promises :: nat
  w_kv :: nat

text \<open>
  One export: its owner row and both halves of its entry go, and the object, orphaned, is a
  candidate for collection. An export entry holds no count.
\<close>

definition cleanup_export :: "string \<Rightarrow> string \<Rightarrow> unit store" where
  "cleanup_export vatID vref =
     bnd (gets (\<lambda>s. tget (clists (db s)) (vatID, vref))) (\<lambda>row.
       thn (require (truthy row) (AssertErr vref))
         (let kref = the row in
          bnd (gets (\<lambda>s. tget (owners (db s)) kref)) (\<lambda>ownerVat.
            thn (require (ownerVat = Some vatID) (Fail ''export not owned by old vat'' [kref]))
              (thn (kvWrite (owners_update (tdel kref)))
                (bnd (getReachableAndVatSlot vatID kref) (\<lambda>(_, vatSlot).
                  thn (kvWrite (clists_update (tdel (vatID, kref))))
                    (thn (kvWrite (clists_update (tdel (vatID, vatSlot))))
                      (addMaybeFree kref))))))))"

text \<open>An import or a promise: as if the vat had dropped and retired it.\<close>

definition cleanup_entry :: "string \<Rightarrow> string \<Rightarrow> unit store" where
  "cleanup_entry vatID vref =
     bnd (bnd (gets (\<lambda>s. tget (clists (db s)) (vatID, vref))) (ofOption (Fail ''getNextKey ensures get'' [])))
       (\<lambda>kref. deleteCListEntry vatID kref vref)"

definition cleanupTerminatedVat :: "string \<Rightarrow> cleanup_work store" where
  "cleanupTerminatedVat vatID =
     bnd (gets (isVatTerminated vatID)) (\<lambda>t.
       if \<not> t then ret \<lparr>w_exports = 0, w_imports = 0, w_promises = 0, w_kv = 0\<rparr>
       else
         bnd (forPrefix vatID ''o+'' (cleanup_export vatID)) (\<lambda>exports.
           bnd (forPrefix vatID ''o-'' (cleanup_entry vatID)) (\<lambda>imports.
             bnd (forPrefix vatID ''p'' (cleanup_entry vatID)) (\<lambda>promises.
               bnd (forPrefix vatID '''' (\<lambda>slot. kvWrite (clists_update (tdel (vatID, slot))))) (\<lambda>kv.
                 thn (deleteEndpoint vatID)
                   (thn (deleteVatConfig vatID)
                     (thn (forgetTerminatedVat vatID)
                       (ret \<lparr>w_exports = exports, w_imports = imports, w_promises = promises, w_kv = kv\<rparr>))))))))"

definition nextTerminatedVatCleanup :: "bool store" where
  "nextTerminatedVatCleanup =
     bnd (gets getTerminatedVats) (\<lambda>vs.
       thn (case vs of [] \<Rightarrow> ret ()
            | v # _ \<Rightarrow> whenM (v \<noteq> '''') (thn (cleanupTerminatedVat v) (ret ())))
         (bnd (gets getTerminatedVats) (\<lambda>vs'. ret (vs' \<noteq> []))))"

section \<open>An endpoint that starts over (vat.ts)\<close>

definition forget_import :: "string \<Rightarrow> string \<Rightarrow> unit store" where
  "forget_import ep eref =
     bnd (gets (\<lambda>s. tget (clists (db s)) (ep, eref))) (\<lambda>row.
       if \<not> truthy row then ret ()
       else
         let kref = the row in
         bnd (lift (parseRef eref)) (\<lambda>p.
           if risPromise p then deleteCListEntry ep kref eref
           else
             bnd (gets (\<lambda>s. tget (owners (db s)) kref)) (\<lambda>currentOwner.
               thn (whenM (currentOwner = Some ep) (kvWrite (owners_update (tdel kref))))
                 (bnd (getReachableAndVatSlot ep kref) (\<lambda>(_, vatSlot).
                   thn (kvWrite (clists_update (tdel (ep, kref))))
                     (thn (kvWrite (clists_update (tdel (ep, vatSlot))))
                       (addMaybeFree kref)))))))"

definition forgetEndpointImports :: "string \<Rightarrow> unit store" where
  "forgetEndpointImports ep =
     bnd (gets (endpoint_slots ep)) (\<lambda>refs.
       bnd (filterEach (\<lambda>ref.
              if starts_with ''k'' ref then ret False
              else bnd (lift (parseRef ref)) (\<lambda>p. ret (rdirection p = Some Export))) refs)
         (\<lambda>erefsToForget. forEach erefsToForget (forget_import ep)))"

section \<open>Exports (vat.ts)\<close>

definition exportFromEndpoint :: "string \<Rightarrow> string \<Rightarrow> string store" where
  "exportFromEndpoint ep eref =
     bnd (lift (parseRef eref)) (\<lambda>p.
       thn (require (rcontext p = VatCtx \<or> rcontext p = RemoteCtx) (AssertErr ''not an ERef''))
         (thn (require (rdirection p = Some Export) (AssertErr ''not an export reference''))
           (bnd (if risPromise p
                 then bnd initKernelPromise (\<lambda>kp. thn (setPromiseDecider (fst kp) ep) (ret (fst kp)))
                 else initKernelObject ep) (\<lambda>kref.
              thn (addCListEntry ep kref eref)
                (thn (whenM (rcontext p = RemoteCtx \<and> risPromise p) (addPromiseSubscriber ep kref))
                  (ret kref))))))"

section \<open>The whole store (index.ts)\<close>

text \<open>\<open>kdb.deleteVatStore(vatId)\<close>: the rows of a vat's own store.\<close>

definition deleteVatStore :: "string \<Rightarrow> unit store" where
  "deleteVatStore vatId =
     kvWrite (vatStores_update (\<lambda>t. foldl (\<lambda>t k. tdel k t) t (filter (\<lambda>k. fst k = vatId) (tkeys t))))"

definition deleteVat :: "string \<Rightarrow> unit store" where
  "deleteVat vatId =
     thn (deleteVatStore vatId) (thn (removeVatFromSubcluster vatId) (deleteVatConfig vatId))"

definition discardCachedState :: "unit store" where
  "discardCachedState =
     thn (modify (\<lambda>s. s\<lparr>maybeFreeKrefs := [], crankBuffer := []\<rparr>))
       (thn refreshRunQueue
         (thn (modify (runQueueLengthCache_update (\<lambda>_. - 1))) refreshCachedValues))"

definition clear :: "unit store" where
  "clear = thn (kvWrite (\<lambda>_. empty_kdb)) discardCachedState"

text \<open>
  \<open>reset({ except })\<close>: the kept keys are read before the database is emptied and written back
  after, those with a value. The model keeps rows of \<open>scalars\<close>, the identity and incarnation
  rows that the kernel's reset names.
\<close>

definition reset :: "string list \<Rightarrow> unit store" where
  "reset except =
     bnd (gets (\<lambda>s. map (\<lambda>k. (k, tget (scalars (db s)) k)) except)) (\<lambda>preserved.
       thn (kvWrite (\<lambda>_. empty_kdb))
         (thn discardCachedState
           (forEach preserved (\<lambda>(k, v).
              case v of None \<Rightarrow> ret ()
              | Some x \<Rightarrow> whenM (x \<noteq> '''') (kvWrite (scalars_update (tput k x)))))))"

text \<open>The fresh id is \<open>crypto.randomUUID()\<close>, an argument here.\<close>

definition provideIncarnationId :: "string \<Rightarrow> string store" where
  "provideIncarnationId fresh =
     bnd (gets (\<lambda>s. tget (scalars (db s)) ''incarnationId'')) (\<lambda>existing.
       if truthy existing then ret (the existing)
       else thn (kvWrite (scalars_update (tput ''incarnationId'' fresh))) (ret fresh))"

section \<open>Facts on the walk\<close>

lemma next_slot_Some:
  assumes "next_slot ep prev s = Some slot"
  shows "prev < slot" and "has (clists (db s)) (ep, slot)"
    and "prev < r \<Longrightarrow> r < slot \<Longrightarrow> \<not> has (clists (db s)) (ep, r)"
proof -
  have k: "next_key (clists (db s)) (ep, prev) = Some (ep, slot)"
    using assms by (auto simp: next_slot_def split: option.splits if_splits)
  note n = next_key_Some [OF k]
  show "prev < slot" using n by auto
  show "has (clists (db s)) (ep, slot)" using n by (simp add: has_def)
  show "prev < r \<Longrightarrow> r < slot \<Longrightarrow> \<not> has (clists (db s)) (ep, r)" using n by (auto simp: has_def)
qed

lemma next_slot_None:
  assumes "next_slot ep prev s = None" and "prev < r"
  shows "\<not> has (clists (db s)) (ep, r)"
proof (cases "next_key (clists (db s)) (ep, prev)")
  case None
  from next_key_None [OF this, of "(ep, r)"] assms(2) show ?thesis by (simp add: has_def)
next
  case (Some k)
  have ne: "fst k \<noteq> ep" using assms(1) Some by (simp add: next_slot_def split: if_splits)
  note n = next_key_Some [OF Some]
  have "ep < fst k" using n ne by (cases k) auto
  then have "(ep, r) < k" by (cases k) auto
  moreover have "(ep, prev) < (ep, r)" using assms(2) by simp
  ultimately show ?thesis using n by (auto simp: has_def)
qed

text \<open>
  A walk whose turns keep an invariant, delete the slot they are at and add none visits every slot
  with the prefix, so that none is left.
\<close>

definition only_deletes :: "string \<Rightarrow> ctx \<Rightarrow> ctx \<Rightarrow> bool" where
  "only_deletes ep s s' \<longleftrightarrow> (\<forall>r. has (clists (db s')) (ep, r) \<longrightarrow> has (clists (db s)) (ep, r))"

lemma forSlots_run:
  assumes step: "\<And>s slot. I s \<Longrightarrow> has (clists (db s)) (ep, slot) \<Longrightarrow> starts_with pre slot \<Longrightarrow>
      \<exists>s'. visit slot s = (Inr (), s') \<and> I s' \<and> \<not> has (clists (db s')) (ep, slot) \<and> only_deletes ep s s'"
  shows "I s \<Longrightarrow> pre \<le> prev \<Longrightarrow> card {r. has (clists (db s)) (ep, r) \<and> prev < r} < n \<Longrightarrow>
    \<exists>c s'. forSlots n ep pre visit prev s = (Inr c, s') \<and> I s' \<and> only_deletes ep s s' \<and>
      (\<forall>r. starts_with pre r \<and> prev < r \<longrightarrow> \<not> has (clists (db s')) (ep, r))"
proof (induction n arbitrary: prev s)
  case 0
  then show ?case by simp
next
  case (Suc n)
  have fin: "finite {r. has (clists (db s)) (ep, r) \<and> p < r}" for p
  proof -
    have "{r. has (clists (db s)) (ep, r) \<and> p < r} \<subseteq> snd ` {k. has (clists (db s)) k}" by force
    then show ?thesis using finite_has finite_surj by blast
  qed
  show ?case
  proof (cases "next_slot ep prev s")
    case None
    then show ?thesis
      using Suc.prems(1) next_slot_None [OF None] by (auto simp: only_deletes_def)
  next
    case (Some slot)
    note sl = next_slot_Some [OF Some]
    show ?thesis
    proof (cases "starts_with pre slot")
      case False
      have "\<not> has (clists (db s)) (ep, r)" if "starts_with pre r" "prev < r" for r
      proof
        assume h: "has (clists (db s)) (ep, r)"
        have "r \<noteq> slot" using False that(1) by auto
        then have "slot < r" using h sl(3) [OF that(2)] by force
        moreover have "pre < slot" using Suc.prems(2) sl(1) by simp
        ultimately have "starts_with pre slot" using starts_with_convex that(1) by blast
        with False show False ..
      qed
      then show ?thesis using False Some Suc.prems(1) by (auto simp: only_deletes_def)
    next
      case True
      obtain s1 where s1: "visit slot s = (Inr (), s1)" "I s1" "\<not> has (clists (db s1)) (ep, slot)" "only_deletes ep s s1"
        using step [OF Suc.prems(1) sl(2) True] by blast
      have "{r. has (clists (db s1)) (ep, r) \<and> slot < r} \<subset> {r. has (clists (db s)) (ep, r) \<and> prev < r}"
        using s1(4) sl(1,2) by (auto simp: only_deletes_def)
      from psubset_card_mono [OF fin this] Suc.prems(3)
      have "card {r. has (clists (db s1)) (ep, r) \<and> slot < r} < n" by linarith
      moreover have "pre \<le> slot" using Suc.prems(2) sl(1) by simp
      ultimately obtain c s' where s': "forSlots n ep pre visit slot s1 = (Inr c, s')" "I s'" "only_deletes ep s1 s'"
        and gone: "\<And>r. starts_with pre r \<Longrightarrow> slot < r \<Longrightarrow> \<not> has (clists (db s')) (ep, r)"
        using Suc.IH [OF s1(2)] by blast
      have od: "only_deletes ep s s'" using s1(4) s'(3) by (auto simp: only_deletes_def)
      have "\<not> has (clists (db s')) (ep, r)" if r: "starts_with pre r" "prev < r" for r
      proof (cases "slot < r")
        case False
        then consider "r = slot" | "r < slot" by force
        then show ?thesis
        proof cases
          case 1
          with s1(3) s'(3) show ?thesis by (auto simp: only_deletes_def)
        next
          case 2
          with sl(3) [OF r(2)] od show ?thesis by (auto simp: only_deletes_def)
        qed
      qed (use gone r in blast)
      moreover have "forSlots (Suc n) ep pre visit prev s = (Inr (c + 1), s')"
        using Some True s1(1) s'(1) by simp
      ultimately show ?thesis using s'(2) od by blast
    qed
  qed
qed

lemma forPrefix_run:
  assumes "I s"
    and "\<And>s slot. I s \<Longrightarrow> has (clists (db s)) (ep, slot) \<Longrightarrow> starts_with pre slot \<Longrightarrow>
      \<exists>s'. visit slot s = (Inr (), s') \<and> I s' \<and> \<not> has (clists (db s')) (ep, slot) \<and> only_deletes ep s s'"
  shows "\<exists>c s'. forPrefix ep pre visit s = (Inr c, s') \<and> I s' \<and> only_deletes ep s s' \<and>
      (\<forall>r. starts_with pre r \<and> r \<noteq> pre \<longrightarrow> \<not> has (clists (db s')) (ep, r))"
proof -
  have sub: "{r. has (clists (db s)) (ep, r) \<and> pre < r} \<subseteq> snd ` set (tkeys (clists (db s)))"
  proof
    fix r assume "r \<in> {r. has (clists (db s)) (ep, r) \<and> pre < r}"
    then have "(ep, r) \<in> set (tkeys (clists (db s)))" by simp
    then show "r \<in> snd ` set (tkeys (clists (db s)))" by (rule image_eqI [rotated]) simp
  qed
  have "card {r. has (clists (db s)) (ep, r) \<and> pre < r} \<le> card (snd ` set (tkeys (clists (db s))))"
    by (rule card_mono [OF _ sub]) simp
  also have "\<dots> \<le> card (set (tkeys (clists (db s))))" by (rule card_image_le) simp
  also have "\<dots> \<le> length (tkeys (clists (db s)))" by (rule card_length)
  finally have "card {r. has (clists (db s)) (ep, r) \<and> pre < r} < Suc (length (tkeys (clists (db s))))" by simp
  then obtain c s' where "forSlots (Suc (length (tkeys (clists (db s))))) ep pre visit pre s = (Inr c, s')" "I s'"
    "only_deletes ep s s'" "\<forall>r. starts_with pre r \<and> pre < r \<longrightarrow> \<not> has (clists (db s')) (ep, r)"
    using forSlots_run [where I = I, OF assms(2) assms(1) order_refl] by blast
  then show ?thesis using starts_with_le [of pre] by (auto simp: forPrefix_def simp del: forSlots.simps)
qed

section \<open>Which count rows exist\<close>

text \<open>Releasing a reference and tearing an entry down delete no count row and make none.\<close>

definition live_same :: "'a store \<Rightarrow> bool" where
  "live_same m \<longleftrightarrow> (\<forall>s j. live j (snd (m s)) = live j s)"

lemma live_sameD: "live_same m \<Longrightarrow> m s = (r, s') \<Longrightarrow> live j s' = live j s"
  unfolding live_same_def by (metis snd_conv)

lemma live_same_bnd:
  assumes "live_same m" and "\<And>x. live_same (f x)"
  shows "live_same (bnd m f)"
  unfolding live_same_def
proof (intro allI)
  fix s j
  obtain r t where r: "m s = (r, t)" by fastforce
  have "live j t = live j s" using live_sameD [OF assms(1) r] .
  with r assms(2) show "live j (snd (bnd m f s)) = live j s" by (cases r) (auto simp: bnd_def live_same_def)
qed

lemma live_same_thn: "live_same m \<Longrightarrow> live_same n \<Longrightarrow> live_same (thn m n)"
  unfolding thn_def by (rule live_same_bnd)

lemma live_same_basic [simp]:
  "live_same (ret x)" "live_same (fail e)" "live_same (gets f)" "live_same (lift r)"
  "live_same (require b e)" "live_same (addMaybeFree k)" "live_same (kvWrite (clists_update g))"
  by (simp_all add: live_same_def addMaybeFree_def) (simp add: live_def)

lemma live_same_whenM: "live_same m \<Longrightarrow> live_same (whenM b m)"
  by (simp add: whenM_def)

lemma live_put:
  "live k s \<Longrightarrow> live j (db_update (refCounts_update (tput k v)) s) = live j s"
  by (auto simp: live_def)

lemma kernelRefExists_live: "kernelRefExists k s \<Longrightarrow> live k s"
  by (auto simp: kernelRefExists_def live_def has_def split: option.splits)

lemma getObjectRefCount_state: "snd (getObjectRefCount k s) = s"
  by (auto simp: getObjectRefCount_def Let_def sm_simps split: option.splits if_splits)

lemma setObjectRefCount_live:
  "live k s \<Longrightarrow> live j (snd (setObjectRefCount k c s)) = live j s"
  by (cases c) (auto simp: setObjectRefCount_def thn_run live_put)

lemma live_set_then:
  assumes "live k s" and "\<And>t. live j (snd (m t)) = live j t"
  shows "live j (snd (thn (setObjectRefCount k c) m s)) = live j s"
proof -
  obtain r t where r: "setObjectRefCount k c s = (r, t)" by fastforce
  then have "live j t = live j s" using setObjectRefCount_live [OF assms(1), of j c] by simp
  with r assms(2) show ?thesis by (cases r) (simp_all add: thn_run)
qed

lemma live_maybe [simp]: "live j (snd (addMaybeFree k s)) = live j s"
  by (simp add: addMaybeFree_def)

lemma adjust_live:
  assumes "live k s" and "\<And>c t. live k t \<Longrightarrow> live j (snd (f c t)) = live j t"
  shows "live j (snd (bnd (getObjectRefCount k) f s)) = live j s"
proof -
  obtain r where "getObjectRefCount k s = (r, s)" using getObjectRefCount_state [of k s] by (metis prod.collapse)
  with assms show ?thesis by (cases r) (auto simp: bnd_def)
qed

lemma live_same_decrement [simp]: "live_same (decrementRefCount k x w)"
  unfolding live_same_def
proof (intro allI)
  fix s j
  show "live j (snd (decrementRefCount k x w s)) = live j s"
  proof (cases "kernelRefExists k s")
    case True
    note lk = kernelRefExists_live [OF True]
    have "live j (snd (bnd (getObjectRefCount k) (\<lambda>(reachable, recognizable).
        let reachable' = (if w then reachable else reachable - 1); recognizable' = recognizable - 1
        in thn (whenM (reachable' = 0 \<or> recognizable' = 0) (addMaybeFree k))
             (thn (setObjectRefCount k (reachable', recognizable')) (ret False))) s)) = live j s"
    proof (rule adjust_live [OF lk])
      fix c t assume lt: "live k t"
      have lt': "live k (maybeFreeKrefs_update (set_add k) t)" using lt by simp
      show "live j (snd ((case c of (reachable, recognizable) \<Rightarrow>
        let reachable' = (if w then reachable else reachable - 1); recognizable' = recognizable - 1
        in thn (whenM (reachable' = 0 \<or> recognizable' = 0) (addMaybeFree k))
             (thn (setObjectRefCount k (reachable', recognizable')) (ret False))) t)) = live j t"
        using live_set_then [OF lt, of j "ret False"] live_set_then [OF lt', of j "ret False"]
        by (cases c) (simp add: Let_def thn_run [of "whenM _ _"] addMaybeFree_def)
    qed
    with True lk show ?thesis
      by (auto simp: decrementRefCount_def bnd_run thn_run live_put addMaybeFree_def split: option.split sum.split)
  next
    case False
    then have "getRefCount k s = None \<or> getRefCount k s = Some 0"
      by (auto simp: kernelRefExists_def getRefCount_def Number_def split: option.splits)
    with False show ?thesis
      by (auto simp: decrementRefCount_def bnd_run thn_run split: option.split sum.split)
  qed
qed

lemma live_same_clear [simp]: "live_same (clearReachableFlag ep k)"
  unfolding live_same_def
proof (intro allI)
  fix s j
  have adj: "live j (snd (bnd (getObjectRefCount k) (\<lambda>(reachable, recognizable).
      thn (setObjectRefCount k (reachable - 1, recognizable)) (whenM (reachable - 1 = 0) (addMaybeFree k))) t)) = live j t"
    if "kernelRefExists k t" for t
  proof (rule adjust_live [OF kernelRefExists_live [OF that]])
    fix c t assume "live k t"
    from live_set_then [OF this, of j "whenM b (addMaybeFree k)" for b]
    show "live j (snd ((case c of (reachable, recognizable) \<Rightarrow>
      thn (setObjectRefCount k (reachable - 1, recognizable)) (whenM (reachable - 1 = 0) (addMaybeFree k))) t)) = live j t"
      by (cases c) (simp add: addMaybeFree_def)
  qed
  have fl: "live j (db_update (clists_update g) s) = live j s" for g by (simp add: live_def)
  show "live j (snd (clearReachableFlag ep k s)) = live j s"
    using adj fl
    by (auto simp: clearReachableFlag_def getReachableAndVatSlot_def getRequired_def bnd_run thn_run
        split: option.split sum.split prod.split)
qed

lemma live_same_deleteCListEntry [simp]: "live_same (deleteCListEntry ep k v)"
  by (auto simp: deleteCListEntry_def intro!: live_same_bnd live_same_thn)

text \<open>Likewise, no operation on entries takes a candidate for collection back.\<close>

definition candidates_kept :: "'a store \<Rightarrow> bool" where
  "candidates_kept m \<longleftrightarrow> (\<forall>s. set (maybeFreeKrefs s) \<subseteq> set (maybeFreeKrefs (snd (m s))))"

lemma candidates_keptD: "candidates_kept m \<Longrightarrow> m s = (r, s') \<Longrightarrow> set (maybeFreeKrefs s) \<subseteq> set (maybeFreeKrefs s')"
  unfolding candidates_kept_def by (metis snd_conv)

lemma candidates_kept_bnd:
  assumes "candidates_kept m" and "\<And>x. candidates_kept (f x)"
  shows "candidates_kept (bnd m f)"
  unfolding candidates_kept_def
proof
  fix s
  obtain r t where r: "m s = (r, t)" by fastforce
  have "set (maybeFreeKrefs s) \<subseteq> set (maybeFreeKrefs t)" by (rule candidates_keptD [OF assms(1) r])
  with r assms(2) show "set (maybeFreeKrefs s) \<subseteq> set (maybeFreeKrefs (snd (bnd m f s)))"
    by (cases r) (force simp: bnd_def candidates_kept_def)+
qed

lemma candidates_kept_thn: "candidates_kept m \<Longrightarrow> candidates_kept n \<Longrightarrow> candidates_kept (thn m n)"
  unfolding thn_def by (rule candidates_kept_bnd)

lemma candidates_kept_basic [simp]:
  "candidates_kept (ret x)" "candidates_kept (fail e)" "candidates_kept (gets f)" "candidates_kept (lift r)"
  "candidates_kept (require b e)" "candidates_kept (addMaybeFree k)" "candidates_kept (kvWrite g)"
  by (auto simp: candidates_kept_def addMaybeFree_def set_add_def)

lemma candidates_kept_whenM: "candidates_kept m \<Longrightarrow> candidates_kept (whenM b m)"
  by (simp add: whenM_def)

lemmas candidates = candidates_kept_bnd candidates_kept_thn candidates_kept_whenM

lemma candidates_kept_counts [simp]:
  "candidates_kept (getObjectRefCount k)" "candidates_kept (setObjectRefCount k c)"
  by (auto simp: candidates_kept_def getObjectRefCount_def setObjectRefCount_def Let_def bnd_run thn_run
      split: option.split sum.split prod.split)

lemma candidates_kept_decrement [simp]: "candidates_kept (decrementRefCount k x w)"
  by (auto simp: decrementRefCount_def Let_def intro!: candidates split: option.split prod.split)

lemma candidates_kept_deleteCListEntry [simp]: "candidates_kept (deleteCListEntry ep k v)"
  by (auto simp: deleteCListEntry_def clearReachableFlag_def getReachableAndVatSlot_def getRequired_def ofOption_def
      intro!: candidates split: option.split prod.split)

section \<open>Tearing a vat's c-list down\<close>

definition owns_exports :: "string \<Rightarrow> ctx \<Rightarrow> bool" where
  "owns_exports v s \<longleftrightarrow>
     (\<forall>r k. tget (clists (db s)) (v, r) = Some k \<longrightarrow> starts_with ''o+'' r \<longrightarrow> tget (owners (db s)) k = Some v)"

definition vat_slots_ok :: "string \<Rightarrow> ctx \<Rightarrow> bool" where
  "vat_slots_ok v s \<longleftrightarrow> (\<forall>r. has (clists (db s)) (v, r) \<longrightarrow> (isKRef r \<or> isVRef r) \<and> retired_ok v r s)"

definition vat_inv :: "string \<Rightarrow> unit_ref multiset \<Rightarrow> ctx \<Rightarrow> bool" where
  "vat_inv v M s \<longleftrightarrow> clist_wf s \<and> acct M s \<and> vat_slots_ok v s \<and> owns_exports v s"

text \<open>What a teardown leaves alone: the other endpoints' c-lists, and the cached values.\<close>

definition others_same :: "string \<Rightarrow> ctx \<Rightarrow> ctx \<Rightarrow> bool" where
  "others_same v s s' \<longleftrightarrow> (\<forall>e r. e \<noteq> v \<longrightarrow> tget (clists (db s')) (e, r) = tget (clists (db s)) (e, r)) \<and>
     cache s' = cache s \<and> vatConfigs (db s') = vatConfigs (db s) \<and> remoteInfos (db s') = remoteInfos (db s)"

lemma others_same_refl [simp]: "others_same v s s"
  by (simp add: others_same_def)

lemma others_same_trans: "others_same v s t \<Longrightarrow> others_same v t u \<Longrightarrow> others_same v s u"
  by (simp add: others_same_def)

lemma others_same_counts: "same_but_counts s s' \<Longrightarrow> others_same v s s'"
  using same_but_counts_clists [of s s'] same_but_countsD [of s s' cache]
    same_but_countsD [of s s' "\<lambda>t. vatConfigs (db t)"] same_but_countsD [of s s' "\<lambda>t. remoteInfos (db t)"]
  by (simp add: others_same_def without_counts_def)

lemma others_same_drop: "others_same v s (drop_entry v k r s)"
  by (simp add: others_same_def drop_entry_def)

lemma slot_kind:
  assumes "isVRef r"
  shows "starts_with ''o+'' r \<longleftrightarrow> eref_exports r \<and> \<not> eref_promise r"
    and "starts_with ''o-'' r \<longleftrightarrow> \<not> eref_exports r \<and> \<not> eref_promise r"
    and "starts_with ''p'' r \<longleftrightarrow> eref_promise r"
proof -
  obtain t d ds where "r = t # d # ds" "t = CHR ''o'' \<or> t = CHR ''p''" "d = CHR ''+'' \<or> d = CHR ''-''"
    using assms by (rule isVRefE)
  then show "starts_with ''o+'' r \<longleftrightarrow> eref_exports r \<and> \<not> eref_promise r"
    and "starts_with ''o-'' r \<longleftrightarrow> \<not> eref_exports r \<and> \<not> eref_promise r"
    and "starts_with ''p'' r \<longleftrightarrow> eref_promise r"
    using parseRef_vref [OF assms]
    by (auto simp: starts_with_def eref_exports_def eref_promise_def)
qed

lemma has_drop_entry: "has (clists (db (drop_entry v k r s))) (e, x) \<longleftrightarrow>
    has (clists (db s)) (e, x) \<and> \<not> (e = v \<and> (x = k \<or> x = r))"
  by (auto simp: drop_entry_def)

lemma tget_drop_entry: "tget (clists (db (drop_entry v k r s))) (e, x) =
    (if e = v \<and> (x = k \<or> x = r) then None else tget (clists (db s)) (e, x))"
  by (auto simp: drop_entry_def)

lemma isKRef_head: "isKRef r \<Longrightarrow> starts_with ''k'' r"
  by (auto elim!: isKRefE simp: starts_with_def)

lemma slot_entry:
  assumes inv: "vat_inv v M s" and h: "has (clists (db s)) (v, r)" and nk: "\<not> starts_with ''k'' r"
  obtains k b where "tget (clists (db s)) (v, r) = Some k" and "entry v k b r s" and "isVRef r"
    and "retired_ok v k s" and "clist_wf s" and "acct M s"
proof -
  have vr: "isVRef r" using inv h nk isKRef_head by (auto simp: vat_inv_def vat_slots_ok_def)
  then have er: "isERef r" by (simp add: isERef_def)
  obtain k where k: "tget (clists (db s)) (v, r) = Some k" using h by (auto simp: has_def)
  have wf: "clist_wf s" using inv by (simp add: vat_inv_def)
  obtain b where b: "entry v k b r s" using clist_wfD_eref [OF wf k er] by blast
  then have "has (clists (db s)) (v, k)" by (simp add: entry_def has_def)
  then have "retired_ok v k s" using inv by (simp add: vat_inv_def vat_slots_ok_def)
  then show ?thesis using that k b vr wf inv by (simp add: vat_inv_def)
qed

lemma vat_inv_drop:
  assumes inv: "vat_inv v M s" and e: "entry v k b r s" and kr: "isERef r"
    and cl: "\<And>e x. tget (clists (db s')) (e, x) = (if e = v \<and> (x = k \<or> x = r) then None else tget (clists (db s)) (e, x))"
    and a: "acct M s'" and lv: "\<And>j. live j s' = live j s" and gc: "gc_action_list s' = gc_action_list s"
    and ow: "\<And>j. j \<noteq> k \<Longrightarrow> tget (owners (db s')) j = tget (owners (db s)) j"
  shows "vat_inv v M s'"
proof -
  have wf: "clist_wf s" using inv by (simp add: vat_inv_def)
  have "clists (db s') = clists (db (drop_entry v k r s))"
  proof (rule tbl_eqI)
    fix q show "tget (clists (db s')) q = tget (clists (db (drop_entry v k r s))) q"
      by (cases q) (simp only: cl tget_drop_entry)
  qed
  then have "clist_wf s'" using clist_wf_drop_entry [OF wf e] clist_wf_cong by metis
  moreover have "vat_slots_ok v s'"
    using inv by (auto simp: vat_inv_def vat_slots_ok_def has_def cl retired_ok_def lv gc)
  moreover have "owns_exports v s'"
    unfolding owns_exports_def
  proof (intro allI impI)
    fix x j assume x: "tget (clists (db s')) (v, x) = Some j" and o: "starts_with ''o+'' x"
    then have x': "tget (clists (db s)) (v, x) = Some j" and ne: "x \<noteq> r" by (auto simp: cl split: if_splits)
    have "\<not> isKRef x" using o isKRef_head [of x] by (cases x) (auto simp: starts_with_def)
    then have "isERef x" using inv x' by (auto simp: vat_inv_def vat_slots_ok_def has_def isERef_def)
    then obtain c where "entry v j c x s" using clist_wfD_eref [OF wf x'] by blast
    then have "j \<noteq> k" using e ne entry_unique by blast
    then show "tget (owners (db s')) j = Some v"
      using inv x' o ow by (auto simp: vat_inv_def owns_exports_def)
  qed
  ultimately show ?thesis using a by (simp add: vat_inv_def)
qed

lemma cleanup_entry_step:
  assumes inv: "vat_inv v M s" and h: "has (clists (db s)) (v, r)" and nk: "\<not> starts_with ''k'' r"
  shows "\<exists>s'. cleanup_entry v r s = (Inr (), s') \<and> vat_inv v M s' \<and> \<not> has (clists (db s')) (v, r) \<and>
    only_deletes v s s' \<and> others_same v s s' \<and> owners (db s') = owners (db s) \<and>
    set (maybeFreeKrefs s) \<subseteq> set (maybeFreeKrefs s') \<and> (\<forall>j. live j s' = live j s)"
proof -
  obtain k b where k: "tget (clists (db s)) (v, r) = Some k" and e: "entry v k b r s" and ok: "retired_ok v k s"
    and wf: "clist_wf s" and a: "acct M s"
    using slot_entry [OF assms] by blast
  obtain s' where s': "deleteCListEntry v k r s = (Inr (), s')" and a': "acct M s'"
    and f: "same_but_counts (drop_entry v k r s) s'"
    using deleteCListEntry_run [OF e a ok] by blast
  have cl: "tget (clists (db s')) (ep, x) = (if ep = v \<and> (x = k \<or> x = r) then None else tget (clists (db s)) (ep, x))" for ep x
    using same_but_counts_clists [OF f] by (simp add: tget_drop_entry)
  have lv: "live j s' = live j s" for j by (rule live_sameD [OF live_same_deleteCListEntry s'])
  have ow: "owners (db s') = owners (db s)"
    using same_but_countsD [OF f, of "\<lambda>t. owners (db t)"] by (simp add: without_counts_def drop_entry_def)
  have gc: "gc_action_list s' = gc_action_list s"
    using same_but_counts_gc_actions [OF f] by (simp add: drop_entry_def)
  have "cleanup_entry v r s = (Inr (), s')" using k s' by (simp add: cleanup_entry_def)
  moreover have "vat_inv v M s'"
    by (rule vat_inv_drop [OF inv e _ cl a' lv gc]) (use e ow in \<open>simp_all add: entry_def\<close>)
  moreover have "others_same v s s'"
    using others_same_trans [OF others_same_drop others_same_counts [OF f]] .
  moreover have "set (maybeFreeKrefs s) \<subseteq> set (maybeFreeKrefs s')"
    by (rule candidates_keptD [OF candidates_kept_deleteCListEntry s'])
  ultimately show ?thesis using cl ow lv by (auto simp: has_def only_deletes_def)
qed

text \<open>
  How far the exports the vat had in \<open>s\<close> are orphaned: those whose entry is gone have no owner and are
  candidates for collection, every other kref has the owner it had.
\<close>

definition orphaned :: "string \<Rightarrow> ctx \<Rightarrow> ctx \<Rightarrow> bool" where
  "orphaned v s t \<longleftrightarrow>
     (\<forall>r. has (clists (db t)) (v, r) \<longrightarrow> tget (clists (db t)) (v, r) = tget (clists (db s)) (v, r)) \<and>
     (\<forall>j. if \<exists>r. starts_with ''o+'' r \<and> tget (clists (db s)) (v, r) = Some j \<and> \<not> has (clists (db t)) (v, r)
       then tget (owners (db t)) j = None \<and> j \<in> set (maybeFreeKrefs t)
       else tget (owners (db t)) j = tget (owners (db s)) j)"

lemma orphaned_refl [simp]: "orphaned v s s"
  by (auto simp: orphaned_def has_def)

lemma orphaned_step:
  assumes o: "orphaned v s t" and r: "tget (clists (db t)) (v, r) = Some k" "starts_with ''o+'' r" and k: "\<not> starts_with ''o+'' k"
    and cl: "\<And>x. tget (clists (db t')) (v, x) = (if x = k \<or> x = r then None else tget (clists (db t)) (v, x))"
    and ow: "owners (db t') = tdel k (owners (db t))" and m: "set (maybeFreeKrefs t') = insert k (set (maybeFreeKrefs t))"
  shows "orphaned v s t'"
  unfolding orphaned_def
proof (intro conjI allI)
  have old: "tget (clists (db s)) (v, x) = tget (clists (db t)) (v, x)" if "has (clists (db t)) (v, x)" for x
    using o that by (simp add: orphaned_def)
  show "has (clists (db t')) (v, x) \<longrightarrow> tget (clists (db t')) (v, x) = tget (clists (db s)) (v, x)" for x
    using old [of x] by (auto simp: has_def cl)
  fix j
  let ?E = "\<lambda>u. \<exists>x. starts_with ''o+'' x \<and> tget (clists (db s)) (v, x) = Some j \<and> \<not> has (clists (db u)) (v, x)"
  have E: "?E t' \<longleftrightarrow> j = k \<or> ?E t"
  proof
    assume "?E t'"
    then obtain x where x: "starts_with ''o+'' x" "tget (clists (db s)) (v, x) = Some j" "\<not> has (clists (db t')) (v, x)" by blast
    then have "x \<noteq> k" using k by blast
    with x show "j = k \<or> ?E t" using old [of r] r(1) by (cases "x = r") (auto simp: has_def cl)
  next
    assume "j = k \<or> ?E t"
    then show "?E t'"
    proof
      assume "j = k"
      moreover have "tget (clists (db s)) (v, r) = Some k" using old [of r] r(1) by (simp add: has_def)
      ultimately show "?E t'" using r(2) cl [of r] by (auto simp: has_def intro: exI [of _ r])
    next
      assume "?E t"
      then show "?E t'" by (auto simp: has_def cl)
    qed
  qed
  show "if ?E t' then tget (owners (db t')) j = None \<and> j \<in> set (maybeFreeKrefs t') else tget (owners (db t')) j = tget (owners (db s)) j"
    using o unfolding E ow m by (auto simp: orphaned_def split: if_splits)
qed

text \<open>Once no export is left, later steps keep the orphans.\<close>

lemma orphaned_kept:
  assumes "orphaned v s t" and "\<And>r. starts_with ''o+'' r \<Longrightarrow> \<not> has (clists (db t)) (v, r)"
    and "owners (db u) = owners (db t)" and "set (maybeFreeKrefs t) \<subseteq> set (maybeFreeKrefs u)"
  shows "if \<exists>r. starts_with ''o+'' r \<and> tget (clists (db s)) (v, r) = Some j
    then tget (owners (db u)) j = None \<and> j \<in> set (maybeFreeKrefs u) else tget (owners (db u)) j = tget (owners (db s)) j"
proof -
  have "(\<exists>r. starts_with ''o+'' r \<and> tget (clists (db s)) (v, r) = Some j \<and> \<not> has (clists (db t)) (v, r)) \<longleftrightarrow>
      (\<exists>r. starts_with ''o+'' r \<and> tget (clists (db s)) (v, r) = Some j)"
    using assms(2) by blast
  with assms(1,3,4) show ?thesis unfolding orphaned_def by (auto split: if_splits)
qed

lemma cleanup_export_step:
  assumes inv: "vat_inv v M s" and h: "has (clists (db s)) (v, r)" and o: "starts_with ''o+'' r"
  shows "\<exists>s'. cleanup_export v r s = (Inr (), s') \<and> vat_inv v M s' \<and> \<not> has (clists (db s')) (v, r) \<and>
    only_deletes v s s' \<and> others_same v s s' \<and> (\<forall>j. live j s' = live j s) \<and>
    (\<forall>u. orphaned v u s \<longrightarrow> orphaned v u s')"
proof -
  have nk: "\<not> starts_with ''k'' r" using o by (cases r) (auto simp: starts_with_def)
  obtain k b where k: "tget (clists (db s)) (v, r) = Some k" and e: "entry v k b r s" and vr: "isVRef r"
    and ok: "retired_ok v k s" and wf: "clist_wf s" and a: "acct M s"
    using slot_entry [OF inv h nk] by blast
  have kk: "isKRef k" using e by (simp add: entry_def)
  have own: "tget (owners (db s)) k = Some v" using inv k o by (auto simp: vat_inv_def owns_exports_def)
  let ?s1 = "db_update (owners_update (tdel k)) s"
  have e1: "entry v k b r ?s1" using e by (simp add: entry_def)
  let ?s2 = "maybeFreeKrefs_update (set_add k) (drop_entry v k r ?s1)"
  have run: "cleanup_export v r s = (Inr (), ?s2)"
    using k own isKRef_nonempty [OF kk] getReachableAndVatSlot_entry [OF e1]
    by (simp add: cleanup_export_def truthy_def drop_entry_def addMaybeFree_def)
  have ex: "eref_exports r" "\<not> isPromiseRef k" using slot_kind(1) [OF vr] o e by (auto simp: entry_def)
  have a': "acct M ?s2"
  proof -
    have "credits (drop_entry v k r s) = credits s"
      using credits_drop_entry [OF e] ex by (simp add: entry_credit_def)
    moreover have "credits (drop_entry v k r ?s1) = credits (drop_entry v k r s)"
      by (rule credits_cong) (simp_all add: drop_entry_def)
    moreover have "exact C ?s2 = exact C s" for C
      by (simp add: drop_entry_def exact_def row_exact_def)
    ultimately show ?thesis using a by (simp add: acct_def)
  qed
  have cl: "tget (clists (db ?s2)) (ep, x) = (if ep = v \<and> (x = k \<or> x = r) then None else tget (clists (db s)) (ep, x))" for ep x
    by (auto simp: drop_entry_def)
  have "vat_inv v M ?s2"
    by (rule vat_inv_drop [OF inv e _ cl a'])
      (use e in \<open>simp_all add: entry_def live_def drop_entry_def gc_action_list_def\<close>)
  moreover have "others_same v s ?s2" by (simp add: others_same_def drop_entry_def)
  moreover have "\<forall>j. live j ?s2 = live j s" by (simp add: live_def drop_entry_def)
  moreover have "orphaned v u ?s2" if "orphaned v u s" for u
  proof (rule orphaned_step [OF that k o])
    show "\<not> starts_with ''o+'' k" using kk by (auto elim!: isKRefE simp: starts_with_def)
    show "tget (clists (db ?s2)) (v, x) = (if x = k \<or> x = r then None else tget (clists (db s)) (v, x))" for x
      using cl [of v x] by simp
    show "owners (db ?s2) = tdel k (owners (db s))" by (simp add: drop_entry_def)
    show "set (maybeFreeKrefs ?s2) = insert k (set (maybeFreeKrefs s))" by (auto simp: drop_entry_def set_add_def)
  qed
  moreover have "\<not> has (clists (db ?s2)) (v, r)" "only_deletes v s ?s2" using cl by (auto simp: has_def only_deletes_def)
  ultimately show ?thesis using run by blast
qed

text \<open>What is left when no export, import or promise is.\<close>

lemma vat_empty:
  assumes inv: "vat_inv v M s"
    and "\<And>r. starts_with ''o+'' r \<Longrightarrow> \<not> has (clists (db s)) (v, r)"
    and "\<And>r. starts_with ''o-'' r \<Longrightarrow> \<not> has (clists (db s)) (v, r)"
    and "\<And>r. starts_with ''p'' r \<Longrightarrow> \<not> has (clists (db s)) (v, r)"
  shows "\<not> has (clists (db s)) (v, r)"
proof
  assume h: "has (clists (db s)) (v, r)"
  have none: "\<not> isVRef x" if "has (clists (db s)) (v, x)" for x
    using that assms(2-4) slot_kind [of x] by blast
  then have "isKRef r" using inv h by (auto simp: vat_inv_def vat_slots_ok_def)
  moreover have "clist_wf s" using inv by (simp add: vat_inv_def)
  moreover obtain t where "tget (clists (db s)) (v, r) = Some t" using h by (auto simp: has_def)
  ultimately obtain b w where "entry v r b w s" "tget (clists (db s)) (v, w) = Some r"
    using clist_wfD_kref by blast
  then have "has (clists (db s)) (v, w)" by (simp add: has_def)
  then have "\<not> isVRef w" "isKRef w \<or> isVRef w" using none inv by (auto simp: vat_inv_def vat_slots_ok_def)
  moreover have "isERef w" using \<open>entry v r b w s\<close> by (simp add: entry_def)
  ultimately show False using isERef_not_isKRef by blast
qed

lemma endpoint_slots_mem: "r \<in> set (endpoint_slots ep s) \<longleftrightarrow> has (clists (db s)) (ep, r)"
proof
  assume "has (clists (db s)) (ep, r)"
  then have "(ep, r) \<in> set (filter (\<lambda>k. fst k = ep) (tkeys (clists (db s))))" by simp
  then show "r \<in> set (endpoint_slots ep s)" unfolding endpoint_slots_def by (force simp: image_iff)
qed (auto simp: endpoint_slots_def)

lemma forPrefix_none:
  assumes "\<And>r. \<not> has (clists (db s)) (ep, r)"
  shows "forPrefix ep pre visit s = (Inr 0, s)"
proof -
  have "next_slot ep pre s = None"
    using next_slot_Some(2) [of ep pre s] assms by (cases "next_slot ep pre s") auto
  then show ?thesis by (simp add: forPrefix_def)
qed

definition drop_counters :: "string \<Rightarrow> ctx \<Rightarrow> ctx" where
  "drop_counters ep s = db_update (\<lambda>d. nextPromiseIds_update (tdel ep) (nextObjectIds_update (tdel ep) d)) s"

lemma deleteEndpoint_none:
  assumes "\<And>r. \<not> has (clists (db s)) (ep, r)"
  shows "deleteEndpoint ep s = (Inr (), drop_counters ep s)"
proof -
  have "endpoint_slots ep s = []" using endpoint_slots_mem [of _ ep s] assms by (cases "endpoint_slots ep s") auto
  then show ?thesis
    using forPrefix_none [OF assms]
    by (simp add: deleteEndpoint_def drop_counters_def comp_def)
qed

lemma prefix_alone: "vat_inv v M s \<Longrightarrow> pre = ''o+'' \<or> pre = ''o-'' \<or> pre = ''p'' \<Longrightarrow> \<not> has (clists (db s)) (v, pre)"
  by (auto simp: vat_inv_def vat_slots_ok_def all_digits_def isVirtualSuffix_def)

lemma exports_loop:
  assumes inv: "vat_inv v M s"
  obtains c s' where "forPrefix v ''o+'' (cleanup_export v) s = (Inr c, s')" and "vat_inv v M s'"
    and "others_same v s s'" and "orphaned v s s'" and "\<And>r. starts_with ''o+'' r \<Longrightarrow> \<not> has (clists (db s')) (v, r)"
proof -
  have "\<exists>c s'. forPrefix v ''o+'' (cleanup_export v) s = (Inr c, s') \<and> (vat_inv v M s' \<and> others_same v s s' \<and> orphaned v s s') \<and>
      only_deletes v s s' \<and> (\<forall>r. starts_with ''o+'' r \<and> r \<noteq> ''o+'' \<longrightarrow> \<not> has (clists (db s')) (v, r))"
  proof (rule forPrefix_run)
    fix t slot assume "vat_inv v M t \<and> others_same v s t \<and> orphaned v s t" "has (clists (db t)) (v, slot)" "starts_with ''o+'' slot"
    then show "\<exists>s'. cleanup_export v slot t = (Inr (), s') \<and> (vat_inv v M s' \<and> others_same v s s' \<and> orphaned v s s') \<and>
        \<not> has (clists (db s')) (v, slot) \<and> only_deletes v t s'"
      using cleanup_export_step [of v M t slot] others_same_trans [of v s t] by blast
  qed (simp add: inv)
  then show ?thesis using that prefix_alone by metis
qed

lemma entries_loop:
  assumes inv: "vat_inv v M s" and pre: "pre = ''o-'' \<or> pre = ''p''"
  obtains c s' where "forPrefix v pre (cleanup_entry v) s = (Inr c, s')" and "vat_inv v M s'"
    and "others_same v s s'" and "owners (db s') = owners (db s)" and "set (maybeFreeKrefs s) \<subseteq> set (maybeFreeKrefs s')" and "only_deletes v s s'" and "\<And>r. starts_with pre r \<Longrightarrow> \<not> has (clists (db s')) (v, r)"
proof -
  let ?I = "\<lambda>t. vat_inv v M t \<and> others_same v s t \<and> owners (db t) = owners (db s) \<and> set (maybeFreeKrefs s) \<subseteq> set (maybeFreeKrefs t)"
  have nk: "starts_with pre r \<Longrightarrow> \<not> starts_with ''k'' r" for r using pre by (cases r) (auto simp: starts_with_def)
  have "\<exists>c s'. forPrefix v pre (cleanup_entry v) s = (Inr c, s') \<and> ?I s' \<and>
      only_deletes v s s' \<and> (\<forall>r. starts_with pre r \<and> r \<noteq> pre \<longrightarrow> \<not> has (clists (db s')) (v, r))"
  proof (rule forPrefix_run)
    fix t slot assume "?I t" "has (clists (db t)) (v, slot)" "starts_with pre slot"
    then show "\<exists>s'. cleanup_entry v slot t = (Inr (), s') \<and> ?I s' \<and>
        \<not> has (clists (db s')) (v, slot) \<and> only_deletes v t s'"
      using cleanup_entry_step [of v M t slot] others_same_trans [of v s t] nk by (elim conjE) fastforce
  qed (simp add: inv)
  then obtain c s' where s': "forPrefix v pre (cleanup_entry v) s = (Inr c, s')" "vat_inv v M s'" "others_same v s s'"
    "owners (db s') = owners (db s)" "set (maybeFreeKrefs s) \<subseteq> set (maybeFreeKrefs s')" "only_deletes v s s'" and gone: "\<forall>r. starts_with pre r \<and> r \<noteq> pre \<longrightarrow> \<not> has (clists (db s')) (v, r)" by blast
  have "\<not> has (clists (db s')) (v, r)" if "starts_with pre r" for r
    using gone prefix_alone [OF s'(2), of pre] pre that by blast
  with s' that show ?thesis by blast
qed

section \<open>Properties\<close>

text \<open>
  C19. Cleaning up a terminated vat that owns what its c-list exports always completes. Every export is orphaned: it has no
  owner any more and is a candidate for collection, while every other kref keeps its owner. Every
  import and promise is released, so every count stays exact; nothing of the vat is left in its c-list, its
  counters, its configuration or the list of terminated vats; the c-lists of all other
  endpoints are untouched and the c-lists stay a bijection.
\<close>

theorem cleanupTerminatedVat_correct:
  assumes "vat_inv v M s" and "isVatTerminated v s"
  shows "\<exists>w s'. cleanupTerminatedVat v s = (Inr w, s') \<and> acct M s' \<and> clist_wf s' \<and>
    (\<forall>k. if \<exists>r. starts_with ''o+'' r \<and> tget (clists (db s)) (v, r) = Some k
      then tget (owners (db s')) k = None \<and> k \<in> set (maybeFreeKrefs s')
      else tget (owners (db s')) k = tget (owners (db s)) k) \<and>
    (\<forall>e r. tget (clists (db s')) (e, r) = (if e = v then None else tget (clists (db s)) (e, r))) \<and>
    \<not> has (nextObjectIds (db s')) v \<and> \<not> has (nextPromiseIds (db s')) v \<and>
    \<not> isVatActive v s' \<and> getTerminatedVats s' = filter (\<lambda>i. i \<noteq> v) (getTerminatedVats s)"
proof -
  obtain c1 s1 where 1: "forPrefix v ''o+'' (cleanup_export v) s = (Inr c1, s1)" "vat_inv v M s1" "others_same v s s1" "orphaned v s s1"
    and g1: "\<And>r. starts_with ''o+'' r \<Longrightarrow> \<not> has (clists (db s1)) (v, r)" using exports_loop [OF assms(1)] by blast
  obtain c2 s2 where 2: "forPrefix v ''o-'' (cleanup_entry v) s1 = (Inr c2, s2)" "vat_inv v M s2" "others_same v s1 s2"
    and k2: "owners (db s2) = owners (db s1)" "set (maybeFreeKrefs s1) \<subseteq> set (maybeFreeKrefs s2)"
    and d2: "only_deletes v s1 s2" and g2: "\<And>r. starts_with ''o-'' r \<Longrightarrow> \<not> has (clists (db s2)) (v, r)"
    by (rule entries_loop [OF 1(2), of "''o-''"], simp, rule that, assumption+)
  obtain c3 s3 where 3: "forPrefix v ''p'' (cleanup_entry v) s2 = (Inr c3, s3)" "vat_inv v M s3" "others_same v s2 s3"
    and k3: "owners (db s3) = owners (db s2)" "set (maybeFreeKrefs s2) \<subseteq> set (maybeFreeKrefs s3)"
    and d3: "only_deletes v s2 s3" and g3: "\<And>r. starts_with ''p'' r \<Longrightarrow> \<not> has (clists (db s3)) (v, r)"
    by (rule entries_loop [OF 2(2), of "''p''"], simp, rule that, assumption+)
  have empty: "\<not> has (clists (db s3)) (v, r)" for r
    by (rule vat_empty [OF 3(2)]) (use g1 g2 g3 d2 d3 in \<open>auto simp: only_deletes_def\<close>)
  have o: "others_same v s s3" using 1(3) 2(3) 3(3) others_same_trans by blast
  let ?s4 = "db_update (vatConfigs_update (tdel v)) (drop_counters v s3)"
  let ?t = "filter (\<lambda>i. i \<noteq> v) (getTerminatedVats s)"
  let ?s5 = "cache_update (terminatedVats_update (\<lambda>_. Some ?t)) (db_update (cachedRows_update (terminatedVats_update (\<lambda>_. Some ?t))) ?s4)"
  have tv: "getTerminatedVats ?s4 = getTerminatedVats s"
    using o by (simp add: getTerminatedVats_def others_same_def drop_counters_def)
  have run: "cleanupTerminatedVat v s = (Inr \<lparr>w_exports = c1, w_imports = c2, w_promises = c3, w_kv = 0\<rparr>, ?s5)"
    using assms(2) 1(1) 2(1) 3(1) forPrefix_none [OF empty] deleteEndpoint_none [OF empty] tv
    by (simp add: cleanupTerminatedVat_def deleteVatConfig_def forgetTerminatedVat_def)
  have "acct M ?s5"
  proof -
    have "credits ?s5 = credits s3" by (rule credits_cong) (simp_all add: drop_counters_def)
    moreover have "acct M s3" using 3(2) by (simp add: vat_inv_def)
    ultimately show ?thesis using exact_cong [of s3 ?s5] by (simp add: acct_def drop_counters_def)
  qed
  moreover have cl: "clists (db ?s5) = clists (db s3)" by (simp add: drop_counters_def)
  moreover have "clist_wf ?s5" using 3(2) clist_wf_cong [OF cl] by (simp add: vat_inv_def)
  moreover have "\<forall>e r. tget (clists (db ?s5)) (e, r) = (if e = v then None else tget (clists (db s)) (e, r))"
    unfolding cl using o empty by (auto simp: others_same_def has_def)
  moreover have "\<not> has (nextObjectIds (db ?s5)) v" "\<not> has (nextPromiseIds (db ?s5)) v" "\<not> isVatActive v ?s5"
    by (simp_all add: drop_counters_def isVatActive_def)
  moreover have "getTerminatedVats ?s5 = ?t" by (simp add: getTerminatedVats_def)
  moreover have "\<forall>k. if \<exists>r. starts_with ''o+'' r \<and> tget (clists (db s)) (v, r) = Some k
      then tget (owners (db ?s5)) k = None \<and> k \<in> set (maybeFreeKrefs ?s5) else tget (owners (db ?s5)) k = tget (owners (db s)) k"
  proof
    fix k
    have "owners (db ?s5) = owners (db s1)" "set (maybeFreeKrefs s1) \<subseteq> set (maybeFreeKrefs ?s5)"
      using k2 k3 by (auto simp: drop_counters_def)
    from orphaned_kept [OF 1(4) g1 this, of k]
    show "if \<exists>r. starts_with ''o+'' r \<and> tget (clists (db s)) (v, r) = Some k
      then tget (owners (db ?s5)) k = None \<and> k \<in> set (maybeFreeKrefs ?s5) else tget (owners (db ?s5)) k = tget (owners (db s)) k" .
  qed
  ultimately show ?thesis using run by blast
qed

definition demo_terminated :: ctx where
  "demo_terminated = snd (markVatAsTerminated ''v1'' demo_store)"

lemma demo_terminated_eq:
  "demo_terminated = cache_update (terminatedVats_update (\<lambda>_. Some [''v1'']))
     (db_update (cachedRows_update (terminatedVats_update (\<lambda>_. Some [''v1'']))) demo_store)"
proof -
  have "getTerminatedVats demo_store = []"
    unfolding demo_store_eq makeKernelStore_fresh
    by (simp add: getTerminatedVats_def init_cached_rows_def init_row_def empty_kdb_def)
  then show ?thesis by (simp add: demo_terminated_def markVatAsTerminated_def)
qed

lemma demo_terminated_inv: "vat_inv ''v1'' {#} demo_terminated"
proof -
  have "clist_wf demo_terminated" using demo_wf clist_wf_cong [of demo_store demo_terminated]
    by (simp add: demo_terminated_eq)
  moreover have "acct {#} demo_terminated"
  proof -
    have "credits demo_terminated = credits demo_store" by (rule credits_cong) (simp_all add: demo_terminated_eq)
    then show ?thesis using demo_acct exact_cong [of demo_store demo_terminated]
      by (simp add: acct_def demo_terminated_eq)
  qed
  moreover have "vat_slots_ok ''v1'' demo_terminated"
  proof -
    have "gc_action_list demo_terminated = []" using demo_gc by (simp add: demo_terminated_eq gc_action_list_def)
    moreover have "isVRef ''o+0''" by (simp add: all_digits_def is_digit_def)
    ultimately show ?thesis using demo_ids(3)
      by (auto simp: vat_slots_ok_def demo_terminated_eq demo_clists retired_ok_def retiring_def)
  qed
  moreover have "owns_exports ''v1'' demo_terminated"
    unfolding owns_exports_def
  proof (intro allI impI)
    fix r k assume "tget (clists (db demo_terminated)) (''v1'', r) = Some k" "starts_with ''o+'' r"
    then have "k = ''ko1''" by (auto simp: demo_terminated_eq demo_clists starts_with_def split: if_splits)
    then show "tget (owners (db demo_terminated)) k = Some ''v1''" by (simp add: demo_terminated_eq demo_store_eq)
  qed
  ultimately show ?thesis by (simp add: vat_inv_def)
qed

theorem cleanupTerminatedVat_correct_witness:
  "\<exists>w s'. cleanupTerminatedVat ''v1'' demo_terminated = (Inr w, s') \<and> acct {#} s' \<and> clist_wf s' \<and>
    tget (owners (db demo_terminated)) ''ko1'' = Some ''v1'' \<and> tget (owners (db s')) ''ko1'' = None \<and> ''ko1'' \<in> set (maybeFreeKrefs s') \<and>
    (\<forall>e r. tget (clists (db s')) (e, r) = (if e = ''v1'' then None else tget (clists (db demo_terminated)) (e, r))) \<and>
    \<not> has (nextObjectIds (db s')) ''v1'' \<and> \<not> has (nextPromiseIds (db s')) ''v1'' \<and>
    \<not> isVatActive ''v1'' s' \<and> getTerminatedVats s' = []"
proof -
  have "isVatTerminated ''v1'' demo_terminated" and t: "getTerminatedVats demo_terminated = [''v1'']"
    by (simp_all add: isVatTerminated_def getTerminatedVats_def demo_terminated_eq)
  from cleanupTerminatedVat_correct [OF demo_terminated_inv this(1)] obtain w s'
    where c: "cleanupTerminatedVat ''v1'' demo_terminated = (Inr w, s')" "acct {#} s'" "clist_wf s'"
      "if \<exists>r. starts_with ''o+'' r \<and> tget (clists (db demo_terminated)) (''v1'', r) = Some ''ko1''
        then tget (owners (db s')) ''ko1'' = None \<and> ''ko1'' \<in> set (maybeFreeKrefs s')
        else tget (owners (db s')) ''ko1'' = tget (owners (db demo_terminated)) ''ko1''"
      "\<forall>e r. tget (clists (db s')) (e, r) = (if e = ''v1'' then None else tget (clists (db demo_terminated)) (e, r))"
      "\<not> has (nextObjectIds (db s')) ''v1''" "\<not> has (nextPromiseIds (db s')) ''v1''" "\<not> isVatActive ''v1'' s'"
      "getTerminatedVats s' = filter (\<lambda>i. i \<noteq> ''v1'') (getTerminatedVats demo_terminated)"
    by (elim exE conjE) (rule that, assumption+, erule spec, assumption+)
  have e: "\<exists>r. starts_with ''o+'' r \<and> tget (clists (db demo_terminated)) (''v1'', r) = Some ''ko1''"
    by (rule exI [of _ "''o+0''"]) (simp add: demo_terminated_eq demo_clists starts_with_def)
  moreover have "tget (owners (db demo_terminated)) ''ko1'' = Some ''v1''" by (simp add: demo_terminated_eq demo_store_eq)
  ultimately show ?thesis using c unfolding t by (intro exI [of _ w] exI [of _ s']) simp
qed

section \<open>Exports\<close>

text \<open>A kref no c-list and no queued retirement has named yet; the counters are ahead of all others.\<close>

definition unseen :: "string \<Rightarrow> ctx \<Rightarrow> bool" where
  "unseen k s \<longleftrightarrow> (\<forall>ep. \<not> has (clists (db s)) (ep, k) \<and> \<not> retiring (gc_action_list s) ep k)"

definition krefs_fresh :: "ctx \<Rightarrow> bool" where
  "krefs_fresh s \<longleftrightarrow> promise_ids_fresh s \<and>
     (\<forall>n. nextObjectId (cache s) = Some n \<longrightarrow> (\<forall>m\<ge>n. unseen (object_slot m) s)) \<and>
     (\<forall>n. nextPromiseId (cache s) = Some n \<longrightarrow> (\<forall>m\<ge>n. unseen (promise_slot m) s))"

text \<open>The invariant of the store that translating references keeps.\<close>

definition store_ok :: "unit_ref multiset \<Rightarrow> ctx \<Rightarrow> bool" where
  "store_ok M s \<longleftrightarrow> clist_wf s \<and> acct M s \<and> promise_wf s \<and> krefs_fresh s"

lemma unseen_put:
  assumes "clists (db s') = tput (ep, v) k (tput (ep, k) t (clists (db s)))" and "gc_action_list s' = gc_action_list s"
    and "unseen j s" and "j \<noteq> k" and "j \<noteq> v"
  shows "unseen j s'"
  using assms by (auto simp: unseen_def)

lemma live_same_increment [simp]: "live_same (incrementRefCount k x w)"
  unfolding live_same_def
proof (intro allI)
  fix s j
  have "live j (snd (bnd (getObjectRefCount k) (\<lambda>(reachable, recognizable).
      setObjectRefCount k (if w then reachable else reachable + 1, recognizable + 1)) s)) = live j s"
    if "kernelRefExists k s"
    by (rule adjust_live [OF kernelRefExists_live [OF that]]) (auto simp: setObjectRefCount_live split: prod.split)
  then show "live j (snd (incrementRefCount k x w s)) = live j s"
    using kernelRefExists_live [of k s]
    by (auto simp: incrementRefCount_def bnd_run thn_run live_put split: option.split sum.split)
qed

lemma live_same_addCListEntry [simp]: "live_same (addCListEntry ep k v)"
  by (auto simp: addCListEntry_def Let_def intro!: live_same_bnd live_same_thn)

text \<open>What \<open>promise_wf\<close> looks at.\<close>

definition promise_rows :: "ctx \<Rightarrow> _" where
  "promise_rows s = (pstates (db s), pvalues (db s), psubscribers (db s), pdeciders (db s), qheads (db s), qtails (db s), qentries (db s))"

lemma promise_rows_cong:
  assumes "promise_rows s = promise_rows s'"
  shows "unsettled k s = unsettled k s'" and "promise_wf s = promise_wf s'"
    and "queue_items q s = queue_items q s'" and "pstates (db s) = pstates (db s')"
proof -
  have q: "queue_ok False k s = queue_ok False k s'" "queue_items k s = queue_items k s'" for k
    using assms by (simp_all add: promise_rows_def queue_ok_def queue_items_def cong: option.case_cong)
  show "queue_items q s = queue_items q s'" by (rule q)
  show "pstates (db s) = pstates (db s')" using assms by (simp add: promise_rows_def)
  show u: "unsettled k s = unsettled k s'" for k
    using assms q by (simp add: promise_rows_def unsettled_def)
  show "promise_wf s = promise_wf s'"
    using assms q u by (simp add: promise_rows_def promise_wf_def settled_def bare_def)
qed

lemma promise_rows_counts: "same_but_counts s s' \<Longrightarrow> promise_rows s' = promise_rows s"
  using same_but_counts_rows [of s s'] by (simp add: promise_rows_def)

lemma promise_rows_put [simp]: "promise_rows (put_entry_rows ep k b v s) = promise_rows s"
  by (simp add: promise_rows_def put_entry_rows_def set_flag_def)

text \<open>The counters keep ahead when an entry of an older kref is added.\<close>

lemma krefs_fresh_put:
  assumes kf: "krefs_fresh s1" and v: "isERef v" and k: "isKRef k"
    and cl: "clists (db s2) = tput (ep, v) k (tput (ep, k) t (clists (db s1)))"
    and cache: "cache s2 = cache s1" and lv: "\<And>j. live j s2 = live j s1" and ps: "pstates (db s2) = pstates (db s1)"
    and older: "\<And>n m. nextObjectId (cache s1) = Some n \<Longrightarrow> n \<le> m \<Longrightarrow> k \<noteq> object_slot m"
      "\<And>n m. nextPromiseId (cache s1) = Some n \<Longrightarrow> n \<le> m \<Longrightarrow> k \<noteq> promise_slot m"
  shows "krefs_fresh s2"
proof -
  have gc: "gc_action_list s2 = gc_action_list s1" by (simp add: gc_action_list_def cache)
  have ne: "object_slot m \<noteq> v" "promise_slot m \<noteq> v" for m
    using isKRef_neq_isERef [OF slot_kref(1) v] isKRef_neq_isERef [OF slot_kref(2) v] by blast+
  have "promise_ids_fresh s2"
    using kf by (simp add: krefs_fresh_def promise_ids_fresh_def ids_fresh_def cache lv ps)
  moreover have "unseen (object_slot m) s2" if "nextObjectId (cache s1) = Some n" "n \<le> m" for n m
    using kf that older(1) [OF that] ne by (intro unseen_put [OF cl gc]) (auto simp: krefs_fresh_def)
  moreover have "unseen (promise_slot m) s2" if "nextPromiseId (cache s1) = Some n" "n \<le> m" for n m
    using kf that older(2) [OF that] ne by (intro unseen_put [OF cl gc]) (auto simp: krefs_fresh_def)
  ultimately show ?thesis by (simp add: krefs_fresh_def cache)
qed

lemma addCListEntry_export_run:
  assumes wf: "clist_wf s1" and a1: "acct M s1" and kf: "krefs_fresh s1" and ep: "isEndpointId ep" and k: "isKRef k"
    and v: "isERef v" "eref_exports v" "eref_promise v = isPromiseRef k"
    and new: "\<not> has (clists (db s1)) (ep, v)" and un: "unseen k s1" and l1: "live k s1"
    and older: "\<And>n m. nextObjectId (cache s1) = Some n \<Longrightarrow> n \<le> m \<Longrightarrow> k \<noteq> object_slot m"
      "\<And>n m. nextPromiseId (cache s1) = Some n \<Longrightarrow> n \<le> m \<Longrightarrow> k \<noteq> promise_slot m"
  shows "\<exists>s2. addCListEntry ep k v s1 = (Inr (), s2) \<and> clist_wf s2 \<and> acct M s2 \<and> krefs_fresh s2 \<and> live k s2 \<and>
    clists (db s2) = tput (ep, v) k (tput (ep, k) (buildReachableAndVatSlot True v) (clists (db s1))) \<and>
    promise_rows s2 = promise_rows s1 \<and> owners (db s2) = owners (db s1)"
proof -
  have fresh: "\<not> has (clists (db s1)) (ep, k)" "\<not> has (clists (db s1)) (ep, v)"
    using un new by (auto simp: unseen_def)
  obtain s2 where s2: "addCListEntry ep k v s1 = (Inr (), s2)" and a2: "acct M s2"
    and f2: "same_but_counts (put_entry_rows ep k True v s1) s2"
    using addCListEntry_run [OF ep k v(1,3) fresh _ a1 l1] v(2) un by (auto simp: unseen_def)
  have cl: "clists (db s2) = tput (ep, v) k (tput (ep, k) (buildReachableAndVatSlot True v) (clists (db s1)))"
    using same_but_counts_clists [OF f2] by (simp add: put_entry_rows_def set_flag_def)
  have lv: "live j s2 = live j s1" for j by (rule live_sameD [OF live_same_addCListEntry s2])
  have cache: "cache s2 = cache s1"
    using same_but_countsD [OF f2, of cache] by (simp add: without_counts_def put_entry_rows_def set_flag_def)
  have ow: "owners (db s2) = owners (db s1)"
    using same_but_countsD [OF f2, of "\<lambda>t. owners (db t)"] by (simp add: without_counts_def put_entry_rows_def set_flag_def)
  have pr: "promise_rows s2 = promise_rows s1" using promise_rows_counts [OF f2] by simp
  have "krefs_fresh s2"
    by (rule krefs_fresh_put [OF kf v(1) k cl cache lv]) (use pr older in \<open>simp_all add: promise_rows_def\<close>)
  moreover have "clist_wf s2"
    using clist_wf_put_entry_rows [OF wf ep k v(1,3) fresh] same_but_counts_wf [OF f2] by simp
  ultimately show ?thesis using s2 a2 cl lv l1 pr ow by blast
qed

lemma cached_gc:
  "gcActions (cache s') = gcActions (cache s) \<Longrightarrow> gc_action_list s' = gc_action_list s"
  by (simp add: gc_action_list_def)

lemma export_object_run:
  assumes ok: "store_ok M s" and ep: "isEndpointId ep" and v: "isERef v" "eref_exports v" "\<not> eref_promise v"
    and new: "\<not> has (clists (db s)) (ep, v)"
  shows "\<exists>k s'. exportFromEndpoint ep v s = (Inr k, s') \<and> isKRef k \<and> \<not> isPromiseRef k \<and> \<not> live k s \<and> live k s' \<and>
    clists (db s') = tput (ep, v) k (tput (ep, k) (buildReachableAndVatSlot True v) (clists (db s))) \<and>
    tget (owners (db s')) k = Some ep \<and> promise_rows s' = promise_rows s \<and> store_ok M s'"
proof -
  have wf: "clist_wf s" and a: "acct M s" and pw: "promise_wf s" and kf: "krefs_fresh s"
    using ok by (simp_all add: store_ok_def)
  then have f: "ids_fresh s" by (simp add: krefs_fresh_def promise_ids_fresh_def)
  obtain n s1 where n: "nextObjectId (cache s) = Some n" and s1: "initKernelObject ep s = (Inr (object_slot n), s1)"
    and a1: "acct M s1" and i1: "ids_fresh s1" and l1: "live (object_slot n) s1" and l0: "\<not> live (object_slot n) s"
    and e1: "s1 = s\<lparr>cache := (cache s)\<lparr>nextObjectId := Some (n + 1)\<rparr>,
           db := (db s)\<lparr>cachedRows := (cachedRows (db s))\<lparr>nextObjectId := Some (n + 1)\<rparr>,
             owners := tput (object_slot n) ep (owners (db s)),
             refCounts := tput (object_slot n) (count_text (object_slot n) 0 0) (refCounts (db s))\<rparr>\<rparr>"
    using initKernelObject_run [OF a f] by blast
  let ?k = "object_slot n"
  have un0: "unseen ?k s" using kf n by (simp add: krefs_fresh_def)
  have cl1: "clists (db s1) = clists (db s)" and gc1: "gc_action_list s1 = gc_action_list s"
    and pr1: "promise_rows s1 = promise_rows s" and ow1: "tget (owners (db s1)) ?k = Some ep"
    and c1: "nextObjectId (cache s1) = Some (n + 1)" "nextPromiseId (cache s1) = nextPromiseId (cache s)"
    by (simp_all add: e1 gc_action_list_def promise_rows_def)
  have un: "unseen j s \<Longrightarrow> unseen j s1" for j by (simp add: unseen_def cl1 gc1)
  have kf1: "krefs_fresh s1"
    using kf i1 n un promise_rows_cong(4) [OF pr1] by (simp add: krefs_fresh_def promise_ids_fresh_def c1)
  have wf1: "clist_wf s1" using wf clist_wf_cong [of s s1] cl1 by simp
  obtain s2 where s2: "addCListEntry ep ?k v s1 = (Inr (), s2)" "clist_wf s2" "acct M s2" "krefs_fresh s2" "live ?k s2"
    "clists (db s2) = tput (ep, v) ?k (tput (ep, ?k) (buildReachableAndVatSlot True v) (clists (db s1)))"
    "promise_rows s2 = promise_rows s1" "owners (db s2) = owners (db s1)"
    using addCListEntry_export_run [OF wf1 a1 kf1 ep _ v(1,2) _ _ un [OF un0] l1] v(3) new c1 by (auto simp: cl1)
  obtain p where p: "parseRef v = Inr p" "risPromise p = False" "rdirection p = Some Export"
    using eref_direction [OF v(1)] v by metis
  have "rcontext p = VatCtx \<or> rcontext p = RemoteCtx"
    using parseRef_eref [OF v(1)] p(1) by (metis Inr_inject ref_context.exhaust)
  then have run: "exportFromEndpoint ep v s = (Inr ?k, s2)"
    using p s1 s2(1) by (simp add: exportFromEndpoint_def)
  have "promise_wf s2" using pw promise_rows_cong(2) [of s2 s] s2(7) pr1 by simp
  then have "store_ok M s2" using s2 by (simp add: store_ok_def)
  with run s2 l0 cl1 ow1 pr1 show ?thesis by auto
qed

lemma initKernelPromise_cache:
  assumes "initKernelPromise s = (Inr r, s')" and "nextPromiseId (cache s) = Some n"
  shows "cache s' = (cache s)\<lparr>nextPromiseId := Some (n + 1)\<rparr>"
    and "tget (psubscribers (db s')) (promise_slot n) = Some []" and "pdeciders (db s') = pdeciders (db s)"
  using assms
  by (auto simp: initKernelPromise_def getNextPromiseId_def incCounter_def promise_slot_def [symmetric]
      provideStoredQueue_def thn_run bnd_run simp del: makeKernelSlot.simps)

text \<open>The decider and the subscribers of an unsettled promise may be set.\<close>

lemma unsettled_rows:
  assumes "unsettled k s" and "d = ''kernel'' \<or> isEndpointId d"
  shows "unsettled k (db_update (pdeciders_update (tput k d)) s)"
    and "unsettled k (db_update (psubscribers_update (tput k subs)) s)"
  using assms by (auto simp: unsettled_def queue_ok_def queue_items_def split: option.splits)

lemma promise_wf_rows:
  assumes "promise_wf s" and "unsettled k s" and "d = ''kernel'' \<or> isEndpointId d"
  shows "promise_wf (db_update (pdeciders_update (tput k d)) s)"
    and "promise_wf (db_update (psubscribers_update (tput k subs)) s)"
proof -
  have o: "other_promises_same k s (db_update (pdeciders_update (tput k d)) s)"
    "other_promises_same k s (db_update (psubscribers_update (tput k subs)) s)"
    by (simp_all add: other_promises_same_def other_queues_same_def)
  show "promise_wf (db_update (pdeciders_update (tput k d)) s)"
    using promise_wf_other [OF assms(1) o(1)] unsettled_rows(1) [OF assms(2,3)] by blast
  show "promise_wf (db_update (psubscribers_update (tput k subs)) s)"
    using promise_wf_other [OF assms(1) o(2)] unsettled_rows(2) [OF assms(2,3)] by blast
qed

lemma acct_promise_rows [simp]:
  "acct M (db_update (pdeciders_update f) s) = acct M s"
  "acct M (db_update (psubscribers_update g) s) = acct M s"
  "live k (db_update (pdeciders_update f) s) = live k s"
  "live k (db_update (psubscribers_update g) s) = live k s"
  by (simp_all add: acct_def exact_def row_exact_def credits_def gc_action_list_def live_def)

lemma krefs_fresh_rows [simp]:
  "krefs_fresh (db_update (pdeciders_update f) s) = krefs_fresh s"
  "krefs_fresh (db_update (psubscribers_update g) s) = krefs_fresh s"
  by (simp_all add: krefs_fresh_def promise_ids_fresh_def ids_fresh_def unseen_def live_def)

lemma addPromiseSubscriber_run:
  assumes "unsettled k s" and "tget (psubscribers (db s)) k = Some subs"
  shows "addPromiseSubscriber ep k s = (Inr (), db_update (psubscribers_update (tput k
    (sort_strings (set_add ep (foldl (\<lambda>a x. set_add x a) [] subs))))) s)"
  using getKernelPromise_unsettled [OF assms(1)] assms(2) by (auto simp: addPromiseSubscriber_def)

lemma export_promise_run:
  assumes ok: "store_ok M s" and ep: "isEndpointId ep" and v: "isERef v" "eref_exports v" "eref_promise v"
    and new: "\<not> has (clists (db s)) (ep, v)"
  shows "\<exists>k s'. exportFromEndpoint ep v s = (Inr k, s') \<and> isKRef k \<and> isPromiseRef k \<and> \<not> live k s \<and> live k s' \<and>
    clists (db s') = tput (ep, v) k (tput (ep, k) (buildReachableAndVatSlot True v) (clists (db s))) \<and>
    tget (pdeciders (db s')) k = Some ep \<and> unsettled k s' \<and> queue_items k s' = [] \<and>
    tget (psubscribers (db s')) k = Some (if isRRef v then [ep] else []) \<and> store_ok M s'"
proof -
  have wf: "clist_wf s" and a: "acct M s" and pw: "promise_wf s" and kf: "krefs_fresh s"
    using ok by (simp_all add: store_ok_def)
  then have f: "promise_ids_fresh s" by (simp add: krefs_fresh_def)
  obtain n pr s1 where n: "nextPromiseId (cache s) = Some n"
    and s1: "initKernelPromise s = (Inr (promise_slot n, pr), s1)"
    and a1: "acct M s1" and pw1: "promise_wf s1" and i1: "promise_ids_fresh s1" and u1: "unsettled (promise_slot n) s1"
    and q1: "queue_items (promise_slot n) s1 = []" and l1: "live (promise_slot n) s1" and l0: "\<not> live (promise_slot n) s"
    and cl1: "clists (db s1) = clists (db s)"
    using initKernelPromise_run [OF a pw f] by blast
  let ?k = "promise_slot n"
  note c = initKernelPromise_cache [OF s1 n]
  have gc1: "gc_action_list s1 = gc_action_list s" by (simp add: gc_action_list_def c)
  have un: "unseen j s \<Longrightarrow> unseen j s1" for j by (simp add: unseen_def cl1 gc1)
  have un0: "unseen ?k s" using kf n by (simp add: krefs_fresh_def)
  have kf1: "krefs_fresh s1" using kf i1 n un by (simp add: krefs_fresh_def c)
  let ?t = "db_update (pdeciders_update (tput ?k ep)) s1"
  have wf1: "clist_wf ?t" using wf clist_wf_cong [of s ?t] cl1 by simp
  have unt: "unseen ?k ?t" using un [OF un0] by (simp add: unseen_def)
  obtain s2 where s2: "addCListEntry ep ?k v ?t = (Inr (), s2)" "clist_wf s2" "acct M s2" "krefs_fresh s2" "live ?k s2"
    "clists (db s2) = tput (ep, v) ?k (tput (ep, ?k) (buildReachableAndVatSlot True v) (clists (db ?t)))"
    "promise_rows s2 = promise_rows ?t"
    using addCListEntry_export_run [of ?t M ep ?k v] wf1 a1 kf1 ep v unt new l1 n by (auto simp: cl1 c)
  have u2: "unsettled ?k s2" using promise_rows_cong(1) [OF s2(7)] unsettled_rows(1) [OF u1] ep by simp
  have w2: "promise_wf s2" using promise_rows_cong(2) [OF s2(7)] promise_wf_rows(1) [OF pw1 u1] ep by simp
  have d2: "pdeciders (db s2) = tput ?k ep (pdeciders (db s1))" "psubscribers (db s2) = psubscribers (db s1)"
    using s2(7) by (simp_all add: promise_rows_def)
  have q2: "queue_items ?k s2 = []"
    using promise_rows_cong(3) [OF s2(7), of ?k] q1 by (simp add: queue_items_def split: option.splits)
  obtain p where p: "parseRef v = Inr p" "risPromise p" "rdirection p = Some Export"
    using eref_direction [OF v(1)] v by metis
  have ctx: "rcontext p = (if isRRef v then RemoteCtx else VatCtx)"
  proof (cases "isRRef v")
    case True
    then show ?thesis using p(1) parseRef_rref by fastforce
  next
    case False
    then have "isVRef v" using v(1) by (simp add: isERef_def)
    then show ?thesis using p(1) parseRef_vref False by fastforce
  qed
  have kne: "?k \<noteq> ''''" using isKRef_nonempty [of ?k] by simp
  show ?thesis
  proof (cases "isRRef v")
    case False
    have "exportFromEndpoint ep v s = (Inr ?k, s2)"
      using p ctx s1 s2(1) False kne by (simp add: exportFromEndpoint_def setPromiseDecider_def)
    moreover have "store_ok M s2" using s2 w2 by (simp add: store_ok_def)
    ultimately show ?thesis using s2 u2 q2 d2 c(2) l0 cl1 False by auto
  next
    case True
    let ?u = "db_update (psubscribers_update (tput ?k [ep])) s2"
    have sub: "addPromiseSubscriber ep ?k s2 = (Inr (), ?u)"
      using addPromiseSubscriber_run [OF u2, of "[]" ep] d2 c(2) by (simp add: set_add_def)
    have "exportFromEndpoint ep v s = (Inr ?k, ?u)"
      using p ctx s1 s2(1) True kne sub by (simp add: exportFromEndpoint_def setPromiseDecider_def)
    moreover have "store_ok M ?u"
      using s2 w2 promise_wf_rows(2) [OF w2 u2, of ep "[ep]"] ep clist_wf_cong [of s2 ?u] by (simp add: store_ok_def)
    moreover have "unsettled ?k ?u" using unsettled_rows(2) [OF u2, of ep] ep by simp
    moreover have "queue_items ?k ?u = []" using q2 by (simp add: queue_items_def cong: option.case_cong)
    ultimately show ?thesis using s2 d2 l0 cl1 True by auto
  qed
qed

text \<open>
  C20. Exporting a reference an endpoint has not exported yet always succeeds and mints a kref no one
  has seen: the reference and the kref name each other in the endpoint's c-list, reachable, and
  no other entry of any c-list changes; the endpoint owns the new object or decides the new
  promise, and a remote also subscribes to it; the store's invariant is kept.
\<close>

theorem exportFromEndpoint_correct:
  assumes "store_ok M s" and "isEndpointId ep" and "isERef v" and "eref_exports v"
    and "\<not> has (clists (db s)) (ep, v)"
  shows "\<exists>k s'. exportFromEndpoint ep v s = (Inr k, s') \<and> isKRef k \<and> isPromiseRef k = eref_promise v \<and>
    \<not> live k s \<and> live k s' \<and> store_ok M s' \<and>
    clists (db s') = tput (ep, v) k (tput (ep, k) (buildReachableAndVatSlot True v) (clists (db s))) \<and>
    (if eref_promise v
     then tget (pdeciders (db s')) k = Some ep \<and> tget (psubscribers (db s')) k = Some (if isRRef v then [ep] else [])
     else tget (owners (db s')) k = Some ep)"
proof (cases "eref_promise v")
  case True
  show ?thesis using export_promise_run [OF assms(1-4) True assms(5)] True by (elim exE conjE) (intro exI conjI, assumption+, simp_all)
next
  case False
  show ?thesis using export_object_run [OF assms(1-4) False assms(5)] False by (elim exE conjE) (intro exI conjI, assumption+, simp_all)
qed

lemma fresh_clists [simp]: "clists (db (makeKernelStore empty_kdb)) = tempty"
  unfolding makeKernelStore_fresh by (simp add: empty_kdb_def)

lemma fresh_store_ok: "store_ok {#} (makeKernelStore empty_kdb)"
proof -
  have "clist_wf (makeKernelStore empty_kdb)" "unseen k (makeKernelStore empty_kdb)" for k
    by (simp_all add: clist_wf_def unseen_def has_def retiring_def)
  then show ?thesis
    using fresh_store_acct fresh_promise_wf fresh_promise_ids by (simp add: store_ok_def krefs_fresh_def)
qed

theorem exportFromEndpoint_correct_witness:
  "\<exists>k s'. exportFromEndpoint ''r1'' ''rp+4'' (makeKernelStore empty_kdb) = (Inr k, s') \<and> isKRef k \<and>
    isPromiseRef k = eref_promise ''rp+4'' \<and> \<not> live k (makeKernelStore empty_kdb) \<and> live k s' \<and> store_ok {#} s' \<and>
    clists (db s') = tput (''r1'', ''rp+4'') k (tput (''r1'', k) (buildReachableAndVatSlot True ''rp+4'')
      (clists (db (makeKernelStore empty_kdb)))) \<and>
    (if eref_promise ''rp+4''
     then tget (pdeciders (db s')) k = Some ''r1'' \<and>
       tget (psubscribers (db s')) k = Some (if isRRef ''rp+4'' then [''r1''] else [])
     else tget (owners (db s')) k = Some ''r1'')"
proof (rule exportFromEndpoint_correct [OF fresh_store_ok])
  show "isEndpointId ''r1''" "isERef ''rp+4''" "eref_exports ''rp+4''" by code_simp+
qed simp

end
