(* ===== verification/Translators.thy ===== *)
theory Translators
  imports Vats
begin

text \<open>
  Translation of references, messages and syscalls between kernel space and an endpoint's space
  (\<open>store/methods/translators.ts\<close>). Handing an endpoint a kref allocates an entry when it has
  none, and marks it reachable; a reference an endpoint sends that is not in its c-list is
  exported. A remote's reference is written in the receiver's frame, so that its direction is
  flipped on the way out and not on the way in. Kernel and endpoint messages have one type here,
  as their references are all text.
\<close>

section \<open>Kernel to endpoint\<close>

definition find_or_import :: "string \<Rightarrow> string \<Rightarrow> bool \<Rightarrow> string store" where
  "find_or_import ep kref importIfNeeded =
     bnd (krefToEref ep kref) (\<lambda>found.
       if truthy found then ret (the found)
       else if importIfNeeded then
         bnd (gets (kernelRefExists kref)) (\<lambda>ex.
           thn (require ex (Fail ''cannot import deleted kref'' [kref, ep]))
             (allocateErefForKref ep kref))
       else fail (Fail ''unmapped kref'' [kref, ep]))"

definition translateRefKtoE :: "string \<Rightarrow> string \<Rightarrow> bool \<Rightarrow> string store" where
  "translateRefKtoE ep kref importIfNeeded =
     bnd (find_or_import ep kref importIfNeeded) (\<lambda>eref.
       thn (setReachableFlag ep kref)
         (if isRemoteId ep then thn (lift (insistRRef eref)) (lift (invertRRef eref)) else ret eref))"

definition translateCapDataKtoE :: "string \<Rightarrow> capdata \<Rightarrow> capdata store" where
  "translateCapDataKtoE ep c =
     bnd (mapEach (\<lambda>slot. translateRefKtoE ep slot True) (slots c)) (\<lambda>ss. ret (c\<lparr>slots := ss\<rparr>))"

definition translateMessageKtoE :: "string \<Rightarrow> message \<Rightarrow> message store" where
  "translateMessageKtoE ep m =
     bnd (translateCapDataKtoE ep (methargs m)) (\<lambda>args.
       case result m of
         Result r \<Rightarrow> bnd (translateRefKtoE ep r True) (\<lambda>r'. ret \<lparr>methargs = args, result = Result r'\<rparr>)
       | NullResult \<Rightarrow> ret \<lparr>methargs = args, result = NullResult\<rparr>
       | NoResult \<Rightarrow> ret \<lparr>methargs = args, result = NoResult\<rparr>)"

section \<open>Endpoint to kernel\<close>

definition translateRefEtoK :: "string \<Rightarrow> string \<Rightarrow> string store" where
  "translateRefEtoK ep eref =
     bnd (erefToKref ep eref) (\<lambda>kref. case kref of None \<Rightarrow> exportFromEndpoint ep eref | Some k \<Rightarrow> ret k)"

definition translateCapDataEtoK :: "string \<Rightarrow> capdata \<Rightarrow> capdata store" where
  "translateCapDataEtoK ep c =
     bnd (mapEach (translateRefEtoK ep) (slots c)) (\<lambda>ss. ret (c\<lparr>slots := ss\<rparr>))"

definition translateMessageEtoK :: "string \<Rightarrow> message \<Rightarrow> message store" where
  "translateMessageEtoK ep m =
     bnd (translateCapDataEtoK ep (methargs m)) (\<lambda>args.
       case result m of
         Result r \<Rightarrow> thn (lift (insistERef r))
           (bnd (translateRefEtoK ep r) (\<lambda>r'. ret \<lparr>methargs = args, result = Result r'\<rparr>))
       | _ \<Rightarrow> fail (TypeErr ''message result must be a string''))"

section \<open>Syscalls\<close>

text \<open>\<open>VatSyscallObject\<close> and, with krefs for vrefs, \<open>KernelSyscallObject\<close>, which has no \<open>OtherSyscall\<close>.\<close>

datatype syscall =
    SendCall string message
  | SubscribeCall string
  | ResolveCall "(string \<times> bool \<times> capdata) list"
  | ExitCall bool capdata
  | DropImports "string list"
  | RetireImportsCall "string list"
  | RetireExportsCall "string list"
  | AbandonExports "string list"
  | OtherSyscall string

text \<open>\<open>coerceEndpointMessage\<close>: the superstruct schema asks for erefs in every slot and in the result.\<close>

definition insistEndpointMessage :: "message \<Rightarrow> kerror + unit" where
  "insistEndpointMessage m =
     (if list_all isERef (slots (methargs m)) \<and> (case result m of Result r \<Rightarrow> isERef r | _ \<Rightarrow> True)
      then Inr () else Inl (Fail ''not a valid endpoint message'' []))"

definition coerceEndpointMessage :: "message \<Rightarrow> kerror + message" where
  "coerceEndpointMessage m = (case insistEndpointMessage m of Inl e \<Rightarrow> Inl e | Inr _ \<Rightarrow> Inr m)"

definition translate_checked :: "string \<Rightarrow> string \<Rightarrow> string store" where
  "translate_checked vat ref = thn (lift (insistERef ref)) (translateRefEtoK vat ref)"

fun translateSyscallVtoK :: "string \<Rightarrow> syscall \<Rightarrow> syscall store" where
  "translateSyscallVtoK vat (SendCall target m) =
     bnd (translate_checked vat target) (\<lambda>k.
       bnd (lift (coerceEndpointMessage m)) (\<lambda>m'.
         bnd (translateMessageEtoK vat m') (\<lambda>km. ret (SendCall k km))))"
| "translateSyscallVtoK vat (SubscribeCall promise) =
     bnd (translate_checked vat promise) (\<lambda>k. ret (SubscribeCall k))"
| "translateSyscallVtoK vat (ResolveCall resolutions) =
     bnd (mapEach (\<lambda>(vpid, rejected, value).
            bnd (translate_checked vat vpid) (\<lambda>k.
              bnd (translateCapDataEtoK vat value) (\<lambda>v. ret (k, rejected, v)))) resolutions)
       (\<lambda>rs. ret (ResolveCall rs))"
| "translateSyscallVtoK vat (ExitCall isFailure info) =
     bnd (translateCapDataEtoK vat info) (\<lambda>i. ret (ExitCall isFailure i))"
| "translateSyscallVtoK vat (DropImports vrefs) =
     bnd (mapEach (translate_checked vat) vrefs) (\<lambda>ks. ret (DropImports ks))"
| "translateSyscallVtoK vat (RetireImportsCall vrefs) =
     bnd (mapEach (translate_checked vat) vrefs) (\<lambda>ks. ret (RetireImportsCall ks))"
| "translateSyscallVtoK vat (RetireExportsCall vrefs) =
     bnd (mapEach (translate_checked vat) vrefs) (\<lambda>ks. ret (RetireExportsCall ks))"
| "translateSyscallVtoK vat (AbandonExports vrefs) =
     bnd (mapEach (translate_checked vat) vrefs) (\<lambda>ks. ret (AbandonExports ks))"
| "translateSyscallVtoK vat (OtherSyscall call) =
     fail (if call \<in> {''callNow'', ''vatstoreGet'', ''vatstoreGetNextKey'', ''vatstoreSet'', ''vatstoreDelete''}
           then JsError ''vat issued invalid syscall'' [vat, call] else JsError ''vat issued unknown syscall'' [vat, call])"

section \<open>What an endpoint is ready to be handed\<close>

text \<open>
  No retirement of a live kref is queued; the endpoint's counters are ahead of the erefs it has;
  and those erefs are remote references exactly when the endpoint is a remote.
\<close>

definition handing_ok :: "string \<Rightarrow> ctx \<Rightarrow> bool" where
  "handing_ok ep s \<longleftrightarrow>
     (\<forall>e k. isEndpointId e \<and> retiring (gc_action_list s) e k \<longrightarrow> \<not> isPromiseRef k \<and> \<not> live k s) \<and>
     counters_ahead ep s \<and>
     (\<forall>v. has (clists (db s)) (ep, v) \<and> isERef v \<longrightarrow> (isRRef v \<longleftrightarrow> isRemoteId ep))"

text \<open>How the endpoint sees its eref on the wire.\<close>

definition wire :: "string \<Rightarrow> string \<Rightarrow> string" where
  "wire ep v = (if isRemoteId ep then (case invertRRef v of Inr w \<Rightarrow> w | Inl _ \<Rightarrow> v) else v)"

lemma wire_flips:
  assumes "isRRef v" and "isRemoteId ep"
  shows "invertRRef v = Inr (wire ep v)" and "isERef (wire ep v)" and "invertRRef (wire ep v) = Inr v"
  using invertRRef_flips [OF assms(1)] assms(2) by (auto simp: wire_def isERef_def)

lemma live_same_setReachableFlag [simp]: "live_same (setReachableFlag ep k)"
  unfolding live_same_def
proof (intro allI)
  fix s j
  have "live j (snd (bnd (getObjectRefCount k) (\<lambda>(reachable, recognizable).
      setObjectRefCount k (reachable + 1, recognizable)) t)) = live j t" if "kernelRefExists k t" for t
    by (rule adjust_live [OF kernelRefExists_live [OF that]]) (auto simp: setObjectRefCount_live split: prod.split)
  moreover have "live j (db_update (clists_update g) s) = live j s" for g by (simp add: live_def)
  ultimately show "live j (snd (setReachableFlag ep k s)) = live j s"
    by (auto simp: setReachableFlag_def getReachableAndVatSlot_def getRequired_def bnd_run thn_run
        split: option.split sum.split prod.split)
qed

text \<open>Marking an entry the endpoint has reachable.\<close>

lemma store_ok_flag:
  assumes ok: "store_ok M s" and e: "entry ep k b v s" and a: "acct M s'"
    and f: "same_but_counts (set_flag ep k True v s) s'" and lv: "\<And>j. live j s' = live j s"
  shows "store_ok M s'" and "entry ep k True v s'"
    and "handing_ok ep s \<Longrightarrow> handing_ok ep s'"
    and "tget (clists (db s')) (e, x) = (if e = ep \<and> x = k then Some (buildReachableAndVatSlot True v) else tget (clists (db s)) (e, x))"
proof -
  have cl: "clists (db s') = tput (ep, k) (buildReachableAndVatSlot True v) (clists (db s))"
    using same_but_counts_clists [OF f] by (simp add: set_flag_def)
  have hs: "has (clists (db s')) q = has (clists (db s)) q" for q
    using e by (cases q) (auto simp: cl entry_def has_def)
  have gc: "gc_action_list s' = gc_action_list s" using same_but_counts_gc_actions [OF f] by simp
  have un: "unseen j s' = unseen j s" for j by (simp add: unseen_def hs gc)
  have cache: "cache s' = cache s"
    using same_but_countsD [OF f, of cache] by (simp add: without_counts_def set_flag_def)
  have rows: "promise_rows s' = promise_rows s"
    using promise_rows_counts [OF f] by (simp add: promise_rows_def set_flag_def)
  have ctr: "nextObjectIds (db s') = nextObjectIds (db s)" "nextPromiseIds (db s') = nextPromiseIds (db s)"
    using same_but_countsD [OF f, of "\<lambda>t. nextObjectIds (db t)"] same_but_countsD [OF f, of "\<lambda>t. nextPromiseIds (db t)"]
    by (simp_all add: without_counts_def set_flag_def)
  have "krefs_fresh s'"
    using ok promise_rows_cong(4) [OF rows]
    by (simp add: store_ok_def krefs_fresh_def promise_ids_fresh_def ids_fresh_def un cache lv)
  moreover have "clist_wf s'"
    using clist_wf_set_flag [OF _ e, of True] ok same_but_counts_wf [OF f] by (simp add: store_ok_def)
  ultimately show "store_ok M s'" using ok a promise_rows_cong(2) [OF rows] by (simp add: store_ok_def)
  show "entry ep k True v s'" using set_flag_entry [OF e] same_but_counts_entry [OF f] by simp
  show "handing_ok ep s \<Longrightarrow> handing_ok ep s'"
    by (simp add: handing_ok_def gc lv hs counters_ahead_def ctr)
  show "tget (clists (db s')) (e, x) = (if e = ep \<and> x = k then Some (buildReachableAndVatSlot True v) else tget (clists (db s)) (e, x))"
    by (simp add: cl)
qed

text \<open>What is kept of the c-lists: every name an endpoint has, and every reachable entry.\<close>

definition names_kept :: "ctx \<Rightarrow> ctx \<Rightarrow> bool" where
  "names_kept s s' \<longleftrightarrow>
     (\<forall>e v k. isERef v \<and> tget (clists (db s)) (e, v) = Some k \<longrightarrow> tget (clists (db s')) (e, v) = Some k) \<and>
     (\<forall>e k v. entry e k True v s \<longrightarrow> entry e k True v s')"

lemma names_kept_refl [simp]: "names_kept s s"
  by (simp add: names_kept_def)

lemma names_kept_trans: "names_kept s t \<Longrightarrow> names_kept t u \<Longrightarrow> names_kept s u"
  by (simp add: names_kept_def)

text \<open>A kref the endpoint has no entry for, allocated.\<close>

lemma allocate_store_ok:
  assumes ok: "store_ok M s" and ep: "isEndpointId ep" and h: "handing_ok ep s"
    and k: "isKRef k" and l: "live k s" and new: "\<not> has (clists (db s)) (ep, k)"
  shows "\<exists>v s'. allocateErefForKref ep k s = (Inr v, s') \<and> entry ep k False v s' \<and> store_ok M s' \<and> handing_ok ep s' \<and>
    (\<forall>j. live j s' = live j s) \<and> names_kept s s'"
proof -
  have wf: "clist_wf s" and a: "acct M s" and pw: "promise_wf s" and kf: "krefs_fresh s"
    using ok by (simp_all add: store_ok_def)
  have ahead: "counters_ahead ep s" and nr: "\<not> retiring (gc_action_list s) ep k"
    using h l ep by (auto simp: handing_ok_def)
  obtain v s' n where r: "allocateErefForKref ep k s = (Inr v, s')" and v: "isERef v" "eref_promise v = isPromiseRef k"
    and nv: "\<not> has (clists (db s)) (ep, v)"
    and cl: "clists (db s') = tput (ep, v) k (tput (ep, k) (buildReachableAndVatSlot False v) (clists (db s)))"
    and ok': "clist_wf s'" "acct M s'" "counters_ahead ep s'"
    and vn: "v = alloc_eref ep (kref_type k) n"
    and f: "same_but_counts (put_entry_rows ep k False v (bump_eref ep k n s)) s'"
    using allocate_run [OF wf a ep ahead k l new nr] by blast
  have kv: "k \<noteq> v" using isKRef_neq_isERef [OF k v(1)] .
  have fr: "gc_action_list s' = gc_action_list s" "cache s' = cache s" "promise_rows s' = promise_rows s"
    using same_but_counts_gc_actions [OF f] same_but_countsD [OF f, of cache] promise_rows_counts [OF f]
    by (simp_all add: without_counts_def put_entry_rows_def set_flag_def bump_eref_def promise_rows_def)
  have lv: "live j s' = live j s" for j
  proof -
    have "live_same (allocateErefForKref ep k)"
    proof -
      have "live_same (kvWrite (nextPromiseIds_update g))" "live_same (kvWrite (nextObjectIds_update g))" for g
        by (simp_all add: live_same_def live_def)
      moreover have "live_same (ofOption e x :: nat store)" for e x by (simp add: ofOption_def split: option.split)
      ultimately show ?thesis
        by (auto simp: allocateErefForKref_def Let_def intro!: live_same_bnd live_same_thn)
    qed
    from live_sameD [OF this r] show ?thesis .
  qed
  have older: "nextObjectId (cache s) = Some n' \<Longrightarrow> n' \<le> m \<Longrightarrow> k \<noteq> object_slot m"
    "nextPromiseId (cache s) = Some n' \<Longrightarrow> n' \<le> m \<Longrightarrow> k \<noteq> promise_slot m" for n' m
    using l kf by (auto simp: krefs_fresh_def promise_ids_fresh_def ids_fresh_def)
  have "krefs_fresh s'"
    by (rule krefs_fresh_put [OF kf v(1) k cl fr(2) lv]) (use fr(3) older in \<open>simp_all add: promise_rows_def\<close>)
  then have "store_ok M s'" using ok' pw promise_rows_cong(2) [OF fr(3)] by (simp add: store_ok_def)
  moreover have "entry ep k False v s'" using ep k v kv by (simp add: entry_def cl)
  moreover have "names_kept s s'" using new nv kv k v isKRef_neq_isERef by (auto simp: names_kept_def cl entry_def has_def)
  moreover have "isRRef v \<longleftrightarrow> isRemoteId ep"
  proof -
    have c: "kref_type k = ''o'' \<or> kref_type k = ''p''" by (simp add: kref_type_def)
    show ?thesis
    proof (cases "isRemoteId ep")
      case True
      then have "eref_tag ep = ''r''" by (cases ep) (auto simp: eref_tag_def starts_with_def)
      then show ?thesis using True c by (auto simp: vn alloc_eref_def)
    next
      case False
      then have "isVatId ep" using ep by (simp add: isEndpointId_def)
      then have "eref_tag ep = ''''" by (cases ep) (auto simp: eref_tag_def starts_with_def)
      moreover have "\<not> isRRef (CHR ''o'' # x)" "\<not> isRRef (CHR ''p'' # x)" for x
        using isRRefE [of "CHR ''o'' # x"] isRRefE [of "CHR ''p'' # x"] by auto
      ultimately show ?thesis using False c by (auto simp: vn alloc_eref_def)
    qed
  qed
  then have "handing_ok ep s'"
    using h ok' isKRef_not_isERef [OF k] by (auto simp: handing_ok_def fr lv cl)
  ultimately show ?thesis using r lv by blast
qed

lemma KtoE_run:
  assumes ok: "store_ok M s" and ep: "isEndpointId ep" and h: "handing_ok ep s"
    and k: "isKRef k" and l: "live k s"
  shows "\<exists>v s'. translateRefKtoE ep k True s = (Inr (wire ep v), s') \<and> entry ep k True v s' \<and> store_ok M s' \<and> handing_ok ep s' \<and>
    (\<forall>j. live j s' = live j s) \<and> names_kept s s'"
proof -
  have ex: "kernelRefExists k s" using l ok kernelRefExists_exact unfolding store_ok_def acct_def by blast
  have "\<exists>v b t. find_or_import ep k True s = (Inr v, t) \<and>
      entry ep k b v t \<and> store_ok M t \<and> handing_ok ep t \<and> (\<forall>j. live j t = live j s) \<and> names_kept s t"
  proof (cases "has (clists (db s)) (ep, k)")
    case True
    then obtain b v where e: "entry ep k b v s"
      using ok k clist_wfD_kref [of s ep k] by (auto simp: store_ok_def has_def)
    then have "truthy (Some v)" by (auto simp: entry_def truthy_def isERef_def)
    then show ?thesis using krefToEref_entry [OF e] e ok h by (auto simp: find_or_import_def)
  next
    case False
    then show ?thesis
      using allocate_store_ok [OF ok ep h k l False] krefToEref_none [OF False] ex
      by (auto simp: truthy_def find_or_import_def)
  qed
  then obtain v b t where t: "find_or_import ep k True s = (Inr v, t)"
    and e: "entry ep k b v t" and okt: "store_ok M t" and ht: "handing_ok ep t"
    and lt: "\<forall>j. live j t = live j s" and nt: "names_kept s t" by blast
  have "retired_ok ep k t" using ht ep by (auto simp: handing_ok_def retired_ok_def)
  then obtain u where u: "setReachableFlag ep k t = (Inr (), u)" "acct M u" and f: "same_but_counts (set_flag ep k True v t) u"
    using setReachableFlag_run [OF e] okt by (auto simp: store_ok_def)
  have lu: "live j u = live j t" for j by (rule live_sameD [OF live_same_setReachableFlag u(1)])
  note fl = store_ok_flag [OF okt e u(2) f lu]
  have nu: "names_kept t u"
  proof -
    have "isERef x \<Longrightarrow> tget (clists (db u)) (e', x) = tget (clists (db t)) (e', x)" for e' x
      using fl(4) isKRef_neq_isERef [OF k] by auto
    moreover have "entry e' j True w u" if "entry e' j True w t" for e' j w
      using that fl(2,4) entry_unique [OF e] by (cases "e' = ep \<and> j = k") (auto simp: entry_def)
    ultimately show ?thesis by (simp add: names_kept_def)
  qed
  have hv: "has (clists (db t)) (ep, v)" "isERef v"
    using clist_wf_entry [OF _ e] okt e by (auto simp: store_ok_def has_def entry_def)
  have rr: "isRRef v \<longleftrightarrow> isRemoteId ep" using ht hv by (auto simp: handing_ok_def)
  have "translateRefKtoE ep k True s = (Inr (wire ep v), u)"
  proof (cases "isRemoteId ep")
    case True
    then show ?thesis
      using t u(1) rr wire_flips(1) [of v ep] by (simp add: translateRefKtoE_def insistRRef_def)
  next
    case False
    then show ?thesis using t u(1) by (simp add: translateRefKtoE_def wire_def)
  qed
  moreover have "names_kept s u" using names_kept_trans [OF nt nu] .
  ultimately show ?thesis using fl(1-3) ht lt lu by blast
qed

text \<open>Handing over a list of krefs, and hearing of them again.\<close>

definition slots_krefs :: "message \<Rightarrow> string list" where
  "slots_krefs m = slots (methargs m) @ (case result m of Result r \<Rightarrow> [r] | _ \<Rightarrow> [])"

definition rename_capdata :: "(string \<Rightarrow> string) \<Rightarrow> capdata \<Rightarrow> capdata" where
  "rename_capdata f c = c\<lparr>slots := map f (slots c)\<rparr>"

definition rename_message :: "(string \<Rightarrow> string) \<Rightarrow> message \<Rightarrow> message" where
  "rename_message f m = \<lparr>methargs = rename_capdata f (methargs m),
     result = (case result m of Result r \<Rightarrow> Result (f r) | NullResult \<Rightarrow> NullResult | NoResult \<Rightarrow> NoResult)\<rparr>"

lemma KtoE_all:
  assumes "store_ok M s" and ep: "isEndpointId ep" and "handing_ok ep s" and "\<And>k. k \<in> set ks \<Longrightarrow> isKRef k \<and> live k s"
  shows "\<exists>vs s'. mapEach (\<lambda>k. translateRefKtoE ep k True) ks s = (Inr (map (wire ep) vs), s') \<and>
    list_all2 (\<lambda>k v. entry ep k True v s') ks vs \<and> store_ok M s' \<and> handing_ok ep s' \<and>
    (\<forall>j. live j s' = live j s) \<and> names_kept s s'"
  using assms(1,3,4)
proof (induction ks arbitrary: s)
  case Nil
  then show ?case by auto
next
  case (Cons k ks)
  obtain v t where t: "translateRefKtoE ep k True s = (Inr (wire ep v), t)" "entry ep k True v t" "store_ok M t"
    "handing_ok ep t" "\<forall>j. live j t = live j s" "names_kept s t"
    using KtoE_run [OF Cons.prems(1) ep Cons.prems(2), of k] Cons.prems(3) by auto
  then have "\<And>k. k \<in> set ks \<Longrightarrow> isKRef k \<and> live k t" using Cons.prems(3) by auto
  from Cons.IH [OF t(3,4) this] obtain vs s' where s': "mapEach (\<lambda>k. translateRefKtoE ep k True) ks t = (Inr (map (wire ep) vs), s')"
    "list_all2 (\<lambda>k v. entry ep k True v s') ks vs" "store_ok M s'" "handing_ok ep s'" "\<forall>j. live j s' = live j t" "names_kept t s'"
    by blast
  have "entry ep k True v s'" using s'(6) t(2) by (simp add: names_kept_def)
  then have "list_all2 (\<lambda>k v. entry ep k True v s') (k # ks) (v # vs)" using s'(2) by simp
  moreover have "mapEach (\<lambda>k. translateRefKtoE ep k True) (k # ks) s = (Inr (map (wire ep) (v # vs)), s')"
    using t(1) s'(1) by simp
  moreover have "names_kept s s'" using t(6) s'(6) by (rule names_kept_trans)
  ultimately show ?case using s'(3-5) t(5) by metis
qed

lemma EtoK_known: "clist_wf s \<Longrightarrow> entry ep k b v s \<Longrightarrow> translateRefEtoK ep v s = (Inr k, s)"
  by (simp add: translateRefEtoK_def erefToKref_run clist_wf_entry)

lemma EtoK_known_all:
  assumes "clist_wf s" and "list_all2 (\<lambda>k v. entry ep k True v s) ks vs"
  shows "mapEach (translateRefEtoK ep) vs s = (Inr ks, s)"
  using assms(2) by (induction rule: list_all2_induct) (simp_all add: EtoK_known [OF assms(1)])

lemma wire_wire: "isERef v \<Longrightarrow> (isRRef v \<longleftrightarrow> isRemoteId ep) \<Longrightarrow> wire ep (wire ep v) = v"
  using wire_flips [of v ep] by (auto simp: wire_def split: sum.splits)

lemma entries_wire:
  assumes "list_all2 (\<lambda>k v. entry ep k True v s) ks vs" and "clist_wf s" and "handing_ok ep s"
  shows "map (wire ep) (map (wire ep) vs) = vs"
proof -
  have "wire ep (wire ep v) = v" if "entry ep k True v s" for k v
  proof (rule wire_wire)
    show "isERef v" using that by (simp add: entry_def)
    then show "isRRef v \<longleftrightarrow> isRemoteId ep"
      using clist_wf_entry [OF assms(2) that] assms(3) by (auto simp: handing_ok_def has_def)
  qed
  with assms(1) show ?thesis by (induction rule: list_all2_induct) simp_all
qed

lemma mapEach_append:
  "mapEach f (xs @ ys) s = bnd (mapEach f xs) (\<lambda>us. bnd (mapEach f ys) (\<lambda>vs. ret (us @ vs))) s"
  by (induction xs arbitrary: s) (auto simp: bnd_run split: sum.splits prod.splits)

text \<open>A message is translated by handing over its slots and then its result.\<close>

lemma messageKtoE_run:
  assumes "mapEach (\<lambda>k. translateRefKtoE ep k True) (slots_krefs m) s = (Inr (map f (slots_krefs m)), s')"
  shows "translateMessageKtoE ep m s = (Inr (rename_message f m), s')"
proof (cases "result m")
  case (Result r)
  with assms show ?thesis
    by (auto simp: slots_krefs_def mapEach_append translateMessageKtoE_def translateCapDataKtoE_def rename_message_def
        rename_capdata_def bnd_run split: sum.splits prod.splits)
qed (use assms in \<open>auto simp: slots_krefs_def translateMessageKtoE_def translateCapDataKtoE_def rename_message_def
        rename_capdata_def bnd_run\<close>)

lemma messageEtoK_run:
  assumes "mapEach (translateRefEtoK ep) (slots_krefs m) s = (Inr (map f (slots_krefs m)), s')"
    and "result m = Result r" and "isERef r"
  shows "translateMessageEtoK ep m s = (Inr (rename_message f m), s')"
  using assms
  by (auto simp: slots_krefs_def mapEach_append translateMessageEtoK_def translateCapDataEtoK_def rename_message_def
        rename_capdata_def insistERef_def bnd_run split: sum.splits prod.splits)

definition eref_of :: "string \<Rightarrow> ctx \<Rightarrow> string \<Rightarrow> string" where
  "eref_of ep s k = (case tget (clists (db s)) (ep, k) of None \<Rightarrow> '''' | Some row \<Rightarrow> drop 2 row)"

lemma eref_of_entry: "entry ep k b v s \<Longrightarrow> eref_of ep s k = v"
  by (simp add: eref_of_def entry_def buildReachableAndVatSlot_def)

lemma eref_of_all: "list_all2 (\<lambda>k v. entry ep k True v s) ks vs \<Longrightarrow> map (eref_of ep s) ks = vs"
  by (induction rule: list_all2_induct) (simp_all add: eref_of_entry)

lemma rename_rename: "rename_message f (rename_message g m) = rename_message (f \<circ> g) m"
  by (simp add: rename_message_def rename_capdata_def split: msg_result.split)

lemma rename_id: "(\<And>k. k \<in> set (slots_krefs m) \<Longrightarrow> f k = k) \<Longrightarrow> rename_message f m = m"
  by (cases m; cases "result m") (auto simp: slots_krefs_def rename_message_def rename_capdata_def map_idI)

lemma slots_krefs_rename: "slots_krefs (rename_message f m) = map f (slots_krefs m)"
  by (simp add: slots_krefs_def rename_message_def rename_capdata_def split: msg_result.split)

section \<open>Properties\<close>

text \<open>
  C27. Handing an endpoint a message of live krefs always succeeds and keeps the store's invariant: the
  message arrives with each kref renamed to the endpoint's eref for it, seen in the receiver's
  frame if it is a remote; every kref of it is reachable by the endpoint from then on and no
  name any endpoint has changes. The endpoint's own names for the same references translate
  back to the very message, provided it asks for a result, which a message from an endpoint must.
\<close>

theorem translateMessage_roundtrip:
  assumes "store_ok M s" and "isEndpointId ep" and "handing_ok ep s"
    and "\<And>k. k \<in> set (slots_krefs m) \<Longrightarrow> isKRef k \<and> live k s"
  shows "\<exists>m' s'. translateMessageKtoE ep m s = (Inr m', s') \<and> store_ok M s' \<and> handing_ok ep s' \<and> names_kept s s' \<and>
    m' = rename_message (\<lambda>k. wire ep (eref_of ep s' k)) m \<and>
    (\<forall>k\<in>set (slots_krefs m). getReachableFlag ep k s' = (Inr True, s')) \<and>
    translateMessageEtoK ep (rename_message (wire ep) m') s' =
      (case result m of Result _ \<Rightarrow> Inr m | _ \<Rightarrow> Inl (TypeErr ''message result must be a string''), s')"
proof -
  obtain vs s' where r: "mapEach (\<lambda>k. translateRefKtoE ep k True) (slots_krefs m) s = (Inr (map (wire ep) vs), s')"
    and e: "list_all2 (\<lambda>k v. entry ep k True v s') (slots_krefs m) vs" and ok: "store_ok M s'"
    and h: "handing_ok ep s'" and n: "names_kept s s'"
    using KtoE_all [OF assms] by blast
  have wf: "clist_wf s'" using ok by (simp add: store_ok_def)
  let ?f = "\<lambda>k. wire ep (eref_of ep s' k)"
  let ?m = "rename_message ?f m"
  have vs: "vs = map (eref_of ep s') (slots_krefs m)" using eref_of_all [OF e] by simp
  have each: "entry ep k True (eref_of ep s' k) s'" if "k \<in> set (slots_krefs m)" for k
    using that e by (auto simp: list_all2_conv_all_nth in_set_conv_nth eref_of_entry)
  have "translateMessageKtoE ep m s = (Inr ?m, s')"
    by (rule messageKtoE_run) (use r vs in \<open>simp add: comp_def\<close>)
  moreover have "\<forall>k\<in>set (slots_krefs m). getReachableFlag ep k s' = (Inr True, s')"
    using each by (fastforce simp: getReachableFlag_def getRequired_def entry_def bnd_run)
  moreover have "translateMessageEtoK ep (rename_message (wire ep) ?m) s' =
      (case result m of Result _ \<Rightarrow> Inr m | _ \<Rightarrow> Inl (TypeErr ''message result must be a string''), s')"
  proof -
    have echo: "rename_message (wire ep) ?m = rename_message (eref_of ep s') m"
    proof -
      have "map (wire ep \<circ> ?f) (slots_krefs m) = map (eref_of ep s') (slots_krefs m)"
        using entries_wire [OF e wf h] by (simp add: vs comp_def)
      then show ?thesis
        by (cases "result m") (auto simp: slots_krefs_def rename_message_def rename_capdata_def comp_def)
    qed
    have k: "mapEach (translateRefEtoK ep) (map (eref_of ep s') (slots_krefs m)) s' = (Inr (slots_krefs m), s')"
      using EtoK_known_all [OF wf e] by (simp add: vs)
    show ?thesis
    proof (cases "\<exists>r. result m = Result r")
      case True
      then obtain r where res: "result m = Result r" ..
      have "isERef (eref_of ep s' r)"
        using each [of r] res by (simp add: slots_krefs_def entry_def)
      define g where "g = the_inv_into (set (slots_krefs m)) (eref_of ep s')"
      have "inj_on (eref_of ep s') (set (slots_krefs m))"
      proof (rule inj_onI)
        fix j k assume "j \<in> set (slots_krefs m)" "k \<in> set (slots_krefs m)" and eq: "eref_of ep s' j = eref_of ep s' k"
        then show "j = k" using each clist_wf_entry [OF wf] by (metis option.inject)
      qed
      then have g: "g (eref_of ep s' k) = k" if "k \<in> set (slots_krefs m)" for k
        using that by (simp add: g_def the_inv_into_f_f)
      then have "map g (map (eref_of ep s') (slots_krefs m)) = slots_krefs m" by (simp add: map_idI)
      then have "translateMessageEtoK ep (rename_message (eref_of ep s') m) s' =
          (Inr (rename_message g (rename_message (eref_of ep s') m)), s')"
        using k \<open>isERef (eref_of ep s' r)\<close>
        by (intro messageEtoK_run [where r = "eref_of ep s' r"])
          (simp_all add: slots_krefs_rename, simp add: rename_message_def res)
      moreover have "rename_message g (rename_message (eref_of ep s') m) = m"
        unfolding rename_rename by (rule rename_id) (simp add: g)
      ultimately show ?thesis using echo res by simp
    next
      case False
      then have "mapEach (translateRefEtoK ep) (map (eref_of ep s') (slots (methargs m))) s' = (Inr (slots (methargs m)), s')"
        using k by (cases "result m") (auto simp: slots_krefs_def)
      with False show ?thesis unfolding echo
        by (cases "result m") (auto simp: translateMessageEtoK_def translateCapDataEtoK_def rename_message_def rename_capdata_def)
    qed
  qed
  ultimately show ?thesis using ok h n by blast
qed

lemma object_slot_1: "object_slot 1 = ''ko1''"
  by (simp add: object_slot_def nat_text_eval)

lemma demo_store_ok: "store_ok {#} demo_store"
proof -
  have rows: "promise_rows demo_store = promise_rows (makeKernelStore empty_kdb)"
    by (simp add: promise_rows_def demo_store_eq)
  have c: "cache demo_store = (cache (makeKernelStore empty_kdb))\<lparr>nextObjectId := Some 2\<rparr>"
    by (simp add: demo_store_eq)
  have p: "nextPromiseId (cache (makeKernelStore empty_kdb)) = Some 1"
    unfolding makeKernelStore_fresh by (simp add: init_cached_rows_def init_row_def empty_kdb_def)
  have lv: "live j demo_store \<longleftrightarrow> j = ''ko1''" for j
    unfolding demo_store_eq makeKernelStore_fresh by (simp add: live_def empty_kdb_def)
  have un: "j \<noteq> ''ko1'' \<Longrightarrow> isKRef j \<Longrightarrow> unseen j demo_store" for j
    using isKRef_head [of j] by (auto simp: unseen_def demo_clists retiring_def)
  have o: "object_slot m \<noteq> ''ko1''" if "2 \<le> m" for m
    using that unfolding object_slot_1 [symmetric] by simp
  have q: "promise_slot m \<noteq> ''ko1''" for m
    by (simp add: promise_slot_def)
  have "pstates (db demo_store) = tempty"
    using promise_rows_cong(4) [OF rows] unfolding makeKernelStore_fresh by (simp add: empty_kdb_def)
  then have "krefs_fresh demo_store"
    using o q by (simp add: krefs_fresh_def promise_ids_fresh_def ids_fresh_def c p lv un)
  then show ?thesis
    using demo_wf demo_acct promise_rows_cong(2) [OF rows] fresh_promise_wf by (simp add: store_ok_def)
qed

lemma demo_handing: "handing_ok ''v2'' demo_store"
  using demo_counters by (auto simp: handing_ok_def retiring_def demo_clists)

theorem translateMessage_roundtrip_witness:
  "\<exists>m' s'. translateMessageKtoE ''v2'' \<lparr>methargs = \<lparr>body = ''#[]'', slots = [''ko1'']\<rparr>, result = Result ''ko1''\<rparr> demo_store = (Inr m', s') \<and>
    store_ok {#} s' \<and> handing_ok ''v2'' s' \<and> names_kept demo_store s' \<and>
    m' = rename_message (\<lambda>k. wire ''v2'' (eref_of ''v2'' s' k)) \<lparr>methargs = \<lparr>body = ''#[]'', slots = [''ko1'']\<rparr>, result = Result ''ko1''\<rparr> \<and>
    (\<forall>k\<in>set (slots_krefs \<lparr>methargs = \<lparr>body = ''#[]'', slots = [''ko1'']\<rparr>, result = Result ''ko1''\<rparr>). getReachableFlag ''v2'' k s' = (Inr True, s')) \<and>
    translateMessageEtoK ''v2'' (rename_message (wire ''v2'') m') s' =
      (case result \<lparr>methargs = \<lparr>body = ''#[]'', slots = [''ko1'']\<rparr>, result = Result ''ko1''\<rparr> of
         Result _ \<Rightarrow> Inr \<lparr>methargs = \<lparr>body = ''#[]'', slots = [''ko1'']\<rparr>, result = Result ''ko1''\<rparr>
       | _ \<Rightarrow> Inl (TypeErr ''message result must be a string''), s')"
  by (rule translateMessage_roundtrip [OF demo_store_ok demo_ids(2) demo_handing])
    (use demo_ids demo_live in \<open>auto simp: slots_krefs_def\<close>)

section \<open>Syscalls are renamings\<close>

definition erefs_kept :: "ctx \<Rightarrow> ctx \<Rightarrow> bool" where
  "erefs_kept s s' \<longleftrightarrow>
     (\<forall>e v k. isERef v \<and> tget (clists (db s)) (e, v) = Some k \<longrightarrow> tget (clists (db s')) (e, v) = Some k)"

definition kref_in :: "string \<Rightarrow> ctx \<Rightarrow> string \<Rightarrow> string" where
  "kref_in ep s v = (case tget (clists (db s)) (ep, v) of None \<Rightarrow> '''' | Some k \<Rightarrow> k)"

lemma EtoK_run:
  assumes ok: "store_ok M s" and ep: "isEndpointId ep" and v: "isERef v"
    and c: "has (clists (db s)) (ep, v) \<or> eref_exports v"
  shows "\<exists>k s'. translateRefEtoK ep v s = (Inr k, s') \<and> tget (clists (db s')) (ep, v) = Some k \<and> store_ok M s' \<and> erefs_kept s s'"
proof (cases "has (clists (db s)) (ep, v)")
  case True
  then obtain k where "tget (clists (db s)) (ep, v) = Some k" by (auto simp: has_def)
  then show ?thesis using ok by (auto simp: translateRefEtoK_def erefToKref_run erefs_kept_def)
next
  case False
  obtain k s' b where r: "exportFromEndpoint ep v s = (Inr k, s')" and k: "isKRef k" and ok': "store_ok M s'"
    and cl: "clists (db s') = tput (ep, v) k (tput (ep, k) (buildReachableAndVatSlot b v) (clists (db s)))"
    using export_object_run [OF ok ep v _ _ False] export_promise_run [OF ok ep v _ _ False] c False by metis
  have "translateRefEtoK ep v s = (Inr k, s')"
    using r False by (simp add: translateRefEtoK_def erefToKref_run has_def)
  moreover have "erefs_kept s s'"
    using False isKRef_neq_isERef [OF k] by (auto simp: erefs_kept_def cl has_def)
  ultimately show ?thesis using ok' cl by auto
qed

text \<open>
  A computation that replaces the erefs \<open>vs\<close> of its argument by the krefs the c-list ends up naming
  them by: \<open>r f\<close> is its result when \<open>f\<close> is that renaming.
\<close>

definition renames :: "unit_ref multiset \<Rightarrow> string \<Rightarrow> string list \<Rightarrow> 'a store \<Rightarrow> ((string \<Rightarrow> string) \<Rightarrow> 'a) \<Rightarrow> bool" where
  "renames M ep vs m r \<longleftrightarrow> (\<forall>f g. (\<forall>v\<in>set vs. f v = g v) \<longrightarrow> r f = r g) \<and>
     (\<forall>s. store_ok M s \<and> (\<forall>v\<in>set vs. has (clists (db s)) (ep, v) \<or> eref_exports v) \<longrightarrow>
       (\<exists>s'. m s = (Inr (r (kref_in ep s')), s') \<and> store_ok M s' \<and> erefs_kept s s' \<and>
         (\<forall>v\<in>set vs. isERef v \<and> has (clists (db s')) (ep, v))))"

lemma renames_ret: "renames M ep [] (ret x) (\<lambda>_. x)"
  by (simp add: renames_def erefs_kept_def)

lemma renames_ref:
  assumes "isEndpointId ep" and "isERef v"
  shows "renames M ep [v] (translateRefEtoK ep v) (\<lambda>f. f v)"
  using EtoK_run [OF _ assms] assms(2) by (fastforce simp: renames_def kref_in_def has_def)

lemma erefs_kept_has: "erefs_kept s s' \<Longrightarrow> isERef v \<Longrightarrow> has (clists (db s)) (e, v) \<Longrightarrow> has (clists (db s')) (e, v)"
  by (auto simp: erefs_kept_def has_def)

lemma erefs_kept_kref_in: "erefs_kept s s' \<Longrightarrow> isERef v \<Longrightarrow> has (clists (db s)) (e, v) \<Longrightarrow> kref_in e s' v = kref_in e s v"
  by (fastforce simp: erefs_kept_def has_def kref_in_def)

lemma renames_bnd:
  assumes m: "renames M ep vs m r" and n: "\<And>f. renames M ep ws (n (r f)) (q (r f))"
    and v: "\<And>v. v \<in> set ws \<Longrightarrow> isERef v"
  shows "renames M ep (vs @ ws) (bnd m n) (\<lambda>f. q (r f) f)"
  unfolding renames_def
proof (intro conjI allI impI)
  fix f g :: "string \<Rightarrow> string" assume "\<forall>v\<in>set (vs @ ws). f v = g v"
  then have eq: "\<forall>v\<in>set vs. f v = g v" "\<forall>v\<in>set ws. f v = g v" by auto
  have "r f = r g" using m eq(1) unfolding renames_def by blast
  moreover have "q (r g) f = q (r g) g" using n eq(2) unfolding renames_def by blast
  ultimately show "q (r f) f = q (r g) g" by simp
next
  fix s assume s: "store_ok M s \<and> (\<forall>v\<in>set (vs @ ws). has (clists (db s)) (ep, v) \<or> eref_exports v)"
  then obtain t where t: "m s = (Inr (r (kref_in ep t)), t)" "store_ok M t" "erefs_kept s t"
    "\<forall>v\<in>set vs. isERef v \<and> has (clists (db t)) (ep, v)"
    using m unfolding renames_def by (metis UnI1 set_append)
  have "\<forall>v\<in>set ws. has (clists (db t)) (ep, v) \<or> eref_exports v"
    using s erefs_kept_has [OF t(3) v] by fastforce
  then obtain u where u: "n (r (kref_in ep t)) t = (Inr (q (r (kref_in ep t)) (kref_in ep u)), u)" "store_ok M u" "erefs_kept t u"
    "\<forall>v\<in>set ws. isERef v \<and> has (clists (db u)) (ep, v)"
    using n [of "kref_in ep t"] t(2) unfolding renames_def by blast
  have "\<forall>v\<in>set vs. kref_in ep t v = kref_in ep u v" using t(4) u(3) erefs_kept_kref_in by metis
  then have "r (kref_in ep t) = r (kref_in ep u)" using m unfolding renames_def by blast
  moreover have "erefs_kept s u" using t(3) u(3) by (simp add: erefs_kept_def)
  moreover have "\<forall>v\<in>set (vs @ ws). isERef v \<and> has (clists (db u)) (ep, v)"
    using t(4) u(3,4) erefs_kept_has by auto
  ultimately show "\<exists>s'. bnd m n s = (Inr (q (r (kref_in ep s')) (kref_in ep s')), s') \<and> store_ok M s' \<and> erefs_kept s s' \<and>
      (\<forall>v\<in>set (vs @ ws). isERef v \<and> has (clists (db s')) (ep, v))"
    using t(1) u(1,2) by auto
qed

lemma renames_then_ret:
  assumes "renames M ep vs m r"
  shows "renames M ep vs (bnd m (\<lambda>x. ret (h x))) (\<lambda>f. h (r f))"
proof -
  have "renames M ep (vs @ []) (bnd m (\<lambda>x. ret (h x))) (\<lambda>f. (\<lambda>x _. h x) (r f) f)"
    by (rule renames_bnd [OF assms]) (simp_all only: renames_ret list.set empty_iff)
  then show ?thesis by simp
qed

lemma renames_mapEach:
  assumes "\<And>x. x \<in> set xs \<Longrightarrow> renames M ep (vs x) (h x) (r x)" and "\<And>x v. x \<in> set xs \<Longrightarrow> v \<in> set (vs x) \<Longrightarrow> isERef v"
  shows "renames M ep (concat (map vs xs)) (mapEach h xs) (\<lambda>f. map (\<lambda>x. r x f) xs)"
  using assms
proof (induction xs)
  case Nil
  then show ?case using renames_ret [of M ep "[]"] by (simp del: ret_run add: ret_def [symmetric])
next
  case (Cons x xs)
  have tl: "renames M ep (concat (map vs xs)) (mapEach h xs) (\<lambda>f. map (\<lambda>x. r x f) xs)"
    by (rule Cons.IH) (use Cons.prems in auto)
  have "renames M ep (vs x @ concat (map vs xs)) (bnd (h x) (\<lambda>y. bnd (mapEach h xs) (\<lambda>ys. ret (y # ys))))
      (\<lambda>f. r x f # map (\<lambda>x. r x f) xs)"
  proof (rule renames_bnd [where q = "\<lambda>y f. y # map (\<lambda>x. r x f) xs"])
    show "renames M ep (vs x) (h x) (r x)" using Cons.prems by simp
    show "renames M ep (concat (map vs xs)) (bnd (mapEach h xs) (\<lambda>ys. ret (r x f # ys))) (\<lambda>g. r x f # map (\<lambda>x. r x g) xs)" for f
      using renames_then_ret [OF tl] .
  qed (use Cons.prems in auto)
  then show ?case by simp
qed

lemma renames_capdata:
  assumes "isEndpointId ep" and "list_all isERef (slots c)"
  shows "renames M ep (slots c) (translateCapDataEtoK ep c) (\<lambda>f. rename_capdata f c)"
proof -
  have "renames M ep (concat (map (\<lambda>v. [v]) (slots c))) (mapEach (translateRefEtoK ep) (slots c)) (\<lambda>f. map (\<lambda>v. f v) (slots c))"
    by (rule renames_mapEach [where r = "\<lambda>v f. f v"]) (use assms in \<open>auto simp: list_all_iff renames_ref\<close>)
  from renames_then_ret [OF this, of "\<lambda>ss. c\<lparr>slots := ss\<rparr>"] show ?thesis
    by (simp add: translateCapDataEtoK_def rename_capdata_def)
qed

lemma renames_checked:
  assumes "isEndpointId ep" and "isERef v"
  shows "renames M ep [v] (translate_checked ep v) (\<lambda>f. f v)"
  using renames_ref [OF assms] assms(2) by (simp add: translate_checked_def thn_def bnd_def insistERef_def lift_def)

lemma renames_checked_all:
  assumes "isEndpointId ep" and "list_all isERef vs"
  shows "renames M ep vs (mapEach (translate_checked ep) vs) (\<lambda>f. map f vs)"
proof -
  have "renames M ep (concat (map (\<lambda>v. [v]) vs)) (mapEach (translate_checked ep) vs) (\<lambda>f. map (\<lambda>v. f v) vs)"
    by (rule renames_mapEach [where r = "\<lambda>v f. f v"]) (use assms in \<open>auto simp: list_all_iff renames_checked\<close>)
  then show ?thesis by simp
qed

lemma renames_message:
  assumes "isEndpointId ep" and "list_all isERef (slots_krefs m)" and "result m = Result r"
  shows "renames M ep (slots_krefs m) (translateMessageEtoK ep m) (\<lambda>f. rename_message f m)"
proof -
  have e: "list_all isERef (slots (methargs m))" "isERef r" using assms(2,3) by (auto simp: slots_krefs_def)
  have "renames M ep (slots (methargs m) @ [r])
      (bnd (translateCapDataEtoK ep (methargs m)) (\<lambda>args. bnd (translateRefEtoK ep r) (\<lambda>r'. ret \<lparr>methargs = args, result = Result r'\<rparr>)))
      (\<lambda>f. \<lparr>methargs = rename_capdata f (methargs m), result = Result (f r)\<rparr>)"
    by (rule renames_bnd [where q = "\<lambda>args f. \<lparr>methargs = args, result = Result (f r)\<rparr>", OF renames_capdata [OF assms(1) e(1)]])
      (use renames_then_ret [OF renames_ref [OF assms(1) e(2)]] e(2) in auto)
  then show ?thesis using assms(3) e(2)
    by (simp add: translateMessageEtoK_def rename_message_def slots_krefs_def thn_def bnd_def insistERef_def lift_def)
qed

text \<open>The references a syscall names, in the order they are translated, and a syscall renamed.\<close>

fun call_refs :: "syscall \<Rightarrow> string list" where
  "call_refs (SendCall target m) = target # slots_krefs m"
| "call_refs (SubscribeCall p) = [p]"
| "call_refs (ResolveCall rs) = concat (map (\<lambda>(p, _, v). p # slots v) rs)"
| "call_refs (ExitCall _ info) = slots info"
| "call_refs (DropImports vs) = vs"
| "call_refs (RetireImportsCall vs) = vs"
| "call_refs (RetireExportsCall vs) = vs"
| "call_refs (AbandonExports vs) = vs"
| "call_refs (OtherSyscall _) = []"

fun rename_call :: "(string \<Rightarrow> string) \<Rightarrow> syscall \<Rightarrow> syscall" where
  "rename_call f (SendCall target m) = SendCall (f target) (rename_message f m)"
| "rename_call f (SubscribeCall p) = SubscribeCall (f p)"
| "rename_call f (ResolveCall rs) = ResolveCall (map (\<lambda>(p, rejected, v). (f p, rejected, rename_capdata f v)) rs)"
| "rename_call f (ExitCall b info) = ExitCall b (rename_capdata f info)"
| "rename_call f (DropImports vs) = DropImports (map f vs)"
| "rename_call f (RetireImportsCall vs) = RetireImportsCall (map f vs)"
| "rename_call f (RetireExportsCall vs) = RetireExportsCall (map f vs)"
| "rename_call f (AbandonExports vs) = AbandonExports (map f vs)"
| "rename_call f (OtherSyscall c) = OtherSyscall c"

text \<open>A syscall a vat may make: not a storage one, and a send asks for a result.\<close>

fun valid_call :: "syscall \<Rightarrow> bool" where
  "valid_call (SendCall _ m) \<longleftrightarrow> (case result m of Result _ \<Rightarrow> True | _ \<Rightarrow> False)"
| "valid_call (OtherSyscall _) \<longleftrightarrow> False"
| "valid_call _ \<longleftrightarrow> True"

lemma renames_syscall:
  assumes ep: "isEndpointId vat" and e: "list_all isERef (call_refs call)" and v: "valid_call call"
  shows "renames M vat (call_refs call) (translateSyscallVtoK vat call) (\<lambda>f. rename_call f call)"
proof (cases call)
  case (SendCall target m)
  then obtain r where r: "result m = Result r" using v by (auto split: msg_result.splits)
  have em: "isERef target" "list_all isERef (slots_krefs m)" using e SendCall by auto
  then have ok: "coerceEndpointMessage m = Inr m"
    using r by (simp add: coerceEndpointMessage_def insistEndpointMessage_def slots_krefs_def)
  have "renames M vat ([target] @ slots_krefs m)
      (bnd (translate_checked vat target) (\<lambda>k. bnd (translateMessageEtoK vat m) (\<lambda>km. ret (SendCall k km))))
      (\<lambda>f. SendCall (f target) (rename_message f m))"
    by (rule renames_bnd [where q = "\<lambda>k f. SendCall k (rename_message f m)", OF renames_checked [OF ep em(1)]])
      (use renames_then_ret [OF renames_message [OF ep em(2) r]] em(2) in \<open>auto simp: list_all_iff\<close>)
  then show ?thesis using SendCall ok by (simp add: bnd_def lift_def)
next
  case (SubscribeCall p)
  then show ?thesis using renames_then_ret [OF renames_checked [OF ep, of p], where h = SubscribeCall] e by simp
next
  case (ResolveCall rs)
  have "renames M vat (concat (map (\<lambda>x. fst x # slots (snd (snd x))) rs))
      (mapEach (\<lambda>(vpid, rejected, value). bnd (translate_checked vat vpid) (\<lambda>k.
         bnd (translateCapDataEtoK vat value) (\<lambda>v. ret (k, rejected, v)))) rs)
      (\<lambda>f. map (\<lambda>x. (f (fst x), fst (snd x), rename_capdata f (snd (snd x)))) rs)"
  proof (rule renames_mapEach)
    fix x assume x: "x \<in> set rs"
    obtain p b c where xe: "x = (p, b, c)" by (cases x) auto
    have ex: "isERef p" "list_all isERef (slots c)" using e x xe ResolveCall by (fastforce simp: list_all_iff)+
    have "renames M vat ([p] @ slots c)
        (bnd (translate_checked vat p) (\<lambda>k. bnd (translateCapDataEtoK vat c) (\<lambda>v. ret (k, b, v))))
        (\<lambda>f. (f p, b, rename_capdata f c))"
      by (rule renames_bnd [where q = "\<lambda>k f. (k, b, rename_capdata f c)", OF renames_checked [OF ep ex(1)]])
        (use renames_then_ret [OF renames_capdata [OF ep ex(2)]] ex(2) in \<open>auto simp: list_all_iff\<close>)
    then show "renames M vat (fst x # slots (snd (snd x))) (case x of (vpid, rejected, value) \<Rightarrow>
        bnd (translate_checked vat vpid) (\<lambda>k. bnd (translateCapDataEtoK vat value) (\<lambda>v. ret (k, rejected, v))))
        (\<lambda>f. (f (fst x), fst (snd x), rename_capdata f (snd (snd x))))" by (simp add: xe)
    fix v assume "v \<in> set (fst x # slots (snd (snd x)))"
    then show "isERef v" using ex xe by (auto simp: list_all_iff)
  qed
  from renames_then_ret [OF this, where h = ResolveCall] show ?thesis
    by (simp add: ResolveCall case_prod_beta')
next
  case (ExitCall b info)
  then show ?thesis using renames_then_ret [OF renames_capdata [OF ep, of info], where h = "ExitCall b"] e by simp
next
  case (DropImports vs)
  then show ?thesis using renames_then_ret [OF renames_checked_all [OF ep, of vs], where h = DropImports] e by simp
next
  case (RetireImportsCall vs)
  then show ?thesis using renames_then_ret [OF renames_checked_all [OF ep, of vs], where h = RetireImportsCall] e by simp
next
  case (RetireExportsCall vs)
  then show ?thesis using renames_then_ret [OF renames_checked_all [OF ep, of vs], where h = RetireExportsCall] e by simp
next
  case (AbandonExports vs)
  then show ?thesis using renames_then_ret [OF renames_checked_all [OF ep, of vs], where h = AbandonExports] e by simp
qed (use v in simp)

text \<open>
  C28. Every well-formed syscall of a vat that names only references the vat knows or exports is
  translated: each reference in it becomes the kref the vat's c-list ends up naming it by,
  wherever it occurs, and nothing else changes; references seen for the first time are
  exported, those already known keep their krefs, and the store's invariant is kept.
\<close>

theorem translateSyscallVtoK_correct:
  assumes "store_ok M s" and "isEndpointId vat" and "valid_call call" and "list_all isERef (call_refs call)"
    and "\<forall>v\<in>set (call_refs call). has (clists (db s)) (vat, v) \<or> eref_exports v"
  shows "\<exists>s'. translateSyscallVtoK vat call s = (Inr (rename_call (kref_in vat s') call), s') \<and> store_ok M s' \<and>
    erefs_kept s s' \<and> (\<forall>v\<in>set (call_refs call). has (clists (db s')) (vat, v))"
  using renames_syscall [OF assms(2,4,3), of M] assms(1,5) unfolding renames_def by blast

theorem translateSyscallVtoK_correct_witness:
  "\<exists>s'. translateSyscallVtoK ''v1'' (SendCall ''o+0'' \<lparr>methargs = \<lparr>body = ''#[]'', slots = [''o+7'', ''o+7'']\<rparr>, result = Result ''p+5''\<rparr>) demo_store =
      (Inr (rename_call (kref_in ''v1'' s') (SendCall ''o+0'' \<lparr>methargs = \<lparr>body = ''#[]'', slots = [''o+7'', ''o+7'']\<rparr>, result = Result ''p+5''\<rparr>)), s') \<and>
    store_ok {#} s' \<and> erefs_kept demo_store s' \<and>
    (\<forall>v\<in>set (call_refs (SendCall ''o+0'' \<lparr>methargs = \<lparr>body = ''#[]'', slots = [''o+7'', ''o+7'']\<rparr>, result = Result ''p+5''\<rparr>)).
       has (clists (db s')) (''v1'', v))"
proof (rule translateSyscallVtoK_correct [OF demo_store_ok demo_ids(1)])
  have "list_all isERef [''o+0'', ''o+7'', ''o+7'', ''p+5'']" "list_all eref_exports [''o+7'', ''p+5'']" by code_simp+
  then show "list_all isERef (call_refs (SendCall ''o+0'' \<lparr>methargs = \<lparr>body = ''#[]'', slots = [''o+7'', ''o+7'']\<rparr>, result = Result ''p+5''\<rparr>))"
    and "\<forall>v\<in>set (call_refs (SendCall ''o+0'' \<lparr>methargs = \<lparr>body = ''#[]'', slots = [''o+7'', ''o+7'']\<rparr>, result = Result ''p+5''\<rparr>)).
       has (clists (db demo_store)) (''v1'', v) \<or> eref_exports v"
    by (simp_all add: slots_krefs_def demo_clists)
qed simp

text \<open>
  A kref the endpoint has no entry for is refused, with nothing changed, when no import is
  wanted, and also when one is if the kernel has deleted the kref: no entry is made that
  would count as a holder of it.
\<close>

theorem translateRefKtoE_refuses:
  assumes "\<not> has (clists (db s)) (ep, k)" and "\<not> live k s"
  shows "translateRefKtoE ep k False s = (Inl (Fail ''unmapped kref'' [k, ep]), s) \<and>
    translateRefKtoE ep k True s = (Inl (Fail ''cannot import deleted kref'' [k, ep]), s)"
  using assms krefToEref_none [OF assms(1)]
  by (simp_all add: translateRefKtoE_def find_or_import_def truthy_def live_def has_def kernelRefExists_none)

theorem translateRefKtoE_refuses_witness:
  "translateRefKtoE ''v2'' ''ko9'' False demo_store = (Inl (Fail ''unmapped kref'' [''ko9'', ''v2'']), demo_store) \<and>
   translateRefKtoE ''v2'' ''ko9'' True demo_store = (Inl (Fail ''cannot import deleted kref'' [''ko9'', ''v2'']), demo_store)"
proof -
  have h: "\<not> has (clists (db demo_store)) (''v2'', ''ko9'')" by (simp add: demo_clists)
  have l: "\<not> live ''ko9'' demo_store"
    unfolding demo_store_eq makeKernelStore_fresh by (simp add: live_def empty_kdb_def)
  show ?thesis using translateRefKtoE_refuses [OF h l] by blast
qed

end
