(* ===== verification/RefAudit.thy ===== *)
theory RefAudit
  imports Vats Pins
begin

text \<open>
  The audit of reference counts (\<open>store/methods/refcount-audit.ts\<close>): every reference the store
  holds is found again by walking the whole store, the counts they imply are compared with the
  counts stored, and a repair writes the implied counts. The audit is proved to report nothing
  exactly when the store is \<open>acct {#}\<close>, which ties the invariant every other theory keeps to a
  check the program itself makes.

  The code credits references one by one while it walks the keys in their order; here each row
  gives the list of its credits, and the lists are then tallied in the same order: promise
  states, queue entries by the text of their keys, c-list entries, then the crank buffer and
  the pins. Every table is one family of keys, so that the patterns matched against a key are
  conditions on its parts.
\<close>

section \<open>Credits (computeExpectedRefCounts)\<close>

text \<open>One call of \<open>credit\<close>: the kref, its holder, and \<open>onlyRecognizable\<close>.\<close>

type_synonym credit_call = "string \<times> string \<times> bool"

definition direction_text :: "direction option \<Rightarrow> string" where
  "direction_text d = (case d of None \<Rightarrow> ''undefined'' | Some Import \<Rightarrow> ''import'' | Some Export \<Rightarrow> ''export'')"

definition message_calls :: "string \<Rightarrow> message \<Rightarrow> credit_call list" where
  "message_calls holder m =
     (case result_ref (result m) of None \<Rightarrow> [] | Some r \<Rightarrow> [(r, holder @ '' result'', False)]) @
     map (\<lambda>slot. (slot, holder @ '' slot'', False)) (slots (methargs m))"

definition clist_calls :: "string list \<Rightarrow> (string \<times> string) \<times> string \<Rightarrow> credit_call list store" where
  "clist_calls acts row =
     (let ep = fst (fst row); kref = snd (fst row); text = snd row in
      if isEndpointId ep \<and> isKRef kref then
        thn (require (text \<noteq> '''') (NoValue [ep, ''c'', kref]))
          (bnd (lift (parseReachableAndVatSlot text)) (\<lambda>(isReachable, vatSlot).
             bnd (lift (parseRef vatSlot)) (\<lambda>p.
               let holder = ep @ '' c-list '' @ direction_text (rdirection p) @ '' '' @ vatSlot in
               ret (if isPromiseRef kref then [(kref, holder, False)]
                    else if rdirection p = Some Import \<and> \<not> retiring acts ep kref
                    then [(kref, holder, \<not> isReachable)] else []))))
      else ret [])"

definition queue_calls :: "(string \<times> nat) \<times> queue_entry \<Rightarrow> credit_call list store" where
  "queue_calls row =
     (let name = fst (fst row); seq = nat_text (snd (fst row)) in
      if name = '''' \<or> CHR ''.'' \<in> set name then ret []
      else if name = ''run'' then
        (let holder = ''run queue #'' @ seq in
         case snd row of
           QRun (Send target m) \<Rightarrow> ret ((target, holder @ '' send target'', False) # message_calls (holder @ '' send'') m)
         | QRun (Notify ep kpid) \<Rightarrow> ret [(kpid, holder @ '' notify'', False)]
         | _ \<Rightarrow> ret [])
      else
        (let holder = name @ '' queue #'' @ seq in
         case snd row of
           QMsg m \<Rightarrow> ret ((name, holder @ '' target'', False) # message_calls holder m)
         | QRun _ \<Rightarrow> fail (TypeErr ''not a message'')))"

definition promise_calls :: "(string, capdata) tbl \<Rightarrow> string \<times> promise_state \<Rightarrow> credit_call list" where
  "promise_calls vs row =
     (let kpid = fst row in
      if isKRef kpid \<and> isPromiseRef kpid then
        (if snd row = Unresolved then [(kpid, ''unsettled promise'', False)]
         else map (\<lambda>slot. (slot, kpid @ '' resolution slot'', False)) (value_slots vs kpid))
      else [])"

definition buffer_calls :: "nat \<times> run_item \<Rightarrow> credit_call list store" where
  "buffer_calls item =
     (let holder = ''crank buffer #'' @ nat_text (fst item) in
      case snd item of
        Send target m \<Rightarrow> ret ((target, holder @ '' send target'', False) # message_calls (holder @ '' send'') m)
      | Notify ep kpid \<Rightarrow> ret [(kpid, holder @ '' notify'', False)]
      | _ \<Rightarrow> fail (TypeErr ''not a kref''))"

definition pin_calls :: "ctx \<Rightarrow> credit_call list" where
  "pin_calls s = concat (map (\<lambda>kref. replicate (getPinCount kref s) (kref, ''pin'', False)) (getPinnedObjects s))"

definition by_key_text :: "((string \<times> nat) \<times> 'v) list \<Rightarrow> ((string \<times> nat) \<times> 'v) list" where
  "by_key_text = sort_key (\<lambda>row. (fst (fst row), nat_text (snd (fst row))))"

definition all_calls :: "credit_call list store" where
  "all_calls =
     bnd (gets (\<lambda>s. s)) (\<lambda>s.
       bnd (mapEach queue_calls (by_key_text (tlist (qentries (db s))))) (\<lambda>qs.
         bnd (mapEach (clist_calls (gc_action_list s)) (tlist (clists (db s)))) (\<lambda>cs.
           bnd (mapEach buffer_calls (List.enumerate 0 (crankBuffer s))) (\<lambda>bs.
             ret (concat (map (promise_calls (pvalues (db s))) (tlist (pstates (db s)))) @
                  concat qs @ concat cs @ concat bs @ pin_calls s)))))"

record tally =
  t_reachable :: nat
  t_recognizable :: nat
  t_holders :: "string list"

definition no_tally :: tally where
  "no_tally = \<lparr>t_reachable = 0, t_recognizable = 0, t_holders = []\<rparr>"

definition tally_of :: "(string, tally) tbl \<Rightarrow> string \<Rightarrow> tally" where
  "tally_of ts k = (case tget ts k of None \<Rightarrow> no_tally | Some t \<Rightarrow> t)"

definition credit :: "(string, tally) tbl \<Rightarrow> credit_call \<Rightarrow> (string, tally) tbl" where
  "credit ts c =
     (let kref = fst c; holder = fst (snd c); onlyRecognizable = snd (snd c); t = tally_of ts kref;
          t' = t\<lparr>t_holders := t_holders t @ [holder]\<rparr>
      in tput kref
           (if isPromiseRef kref then t'\<lparr>t_reachable := t_reachable t + 1\<rparr>
            else t'\<lparr>t_reachable := (if onlyRecognizable then t_reachable t else t_reachable t + 1),
                    t_recognizable := t_recognizable t + 1\<rparr>) ts)"

definition computeExpectedRefCounts :: "(string, tally) tbl store" where
  "computeExpectedRefCounts = bnd all_calls (\<lambda>cs. ret (foldl credit tempty cs))"

section \<open>The audit\<close>

definition renderCounts :: "string \<Rightarrow> tally \<Rightarrow> string" where
  "renderCounts kref t =
     (if isPromiseRef kref then nat_text (t_reachable t)
      else nat_text (t_reachable t) @ '','' @ nat_text (t_recognizable t))"

record violation =
  v_kref :: string
  v_stored :: string
  v_expected :: string
  v_holders :: "string list"

definition getCountedKrefs :: "ctx \<Rightarrow> string list" where
  "getCountedKrefs s = filter isKRef (tkeys (refCounts (db s)))"

definition audit_kref :: "(string, tally) tbl \<Rightarrow> ctx \<Rightarrow> string \<Rightarrow> violation list" where
  "audit_kref expected s kref =
     (let t = tally_of expected kref;
          report = (\<lambda>stored. \<lparr>v_kref = kref, v_stored = stored, v_expected = renderCounts kref t, v_holders = t_holders t\<rparr>)
      in case tget (refCounts (db s)) kref of
           None \<Rightarrow> if t_holders t \<noteq> [] then [report ''(deleted)''] else []
         | Some text \<Rightarrow> if text \<noteq> renderCounts kref t then [report text] else [])"

definition audited_krefs :: "(string, tally) tbl \<Rightarrow> ctx \<Rightarrow> string list" where
  "audited_krefs expected s = sort_strings (foldl (\<lambda>a x. set_add x a) [] (tkeys expected @ getCountedKrefs s))"

definition run_audit :: "violation list store" where
  "run_audit =
     bnd computeExpectedRefCounts (\<lambda>expected.
       gets (\<lambda>s. concat (map (audit_kref expected s) (audited_krefs expected s))))"

section \<open>Repair and assertion\<close>

definition repair :: "violation \<Rightarrow> unit store" where
  "repair v =
     thn (kvWrite (refCounts_update (tput (v_kref v) (v_expected v))))
       (whenM (starts_with ''0'' (v_expected v)) (addMaybeFree (v_kref v)))"

definition recomputeRefCounts :: "(violation list \<times> violation list) store" where
  "recomputeRefCounts =
     bnd run_audit (\<lambda>vs.
       let unfixable = filter (\<lambda>v. v_stored v = ''(deleted)'') vs;
           fixable = filter (\<lambda>v. v_stored v \<noteq> ''(deleted)'') vs
       in thn (forEach fixable repair) (ret (fixable, unfixable)))"

definition commas :: "string list \<Rightarrow> string" where
  "commas xs = concat (map (\<lambda>(i, x). if i = 0 then x else '', '' @ x) (List.enumerate 0 xs))"

definition format_violation :: "violation \<Rightarrow> string" where
  "format_violation v = v_kref v @ '': stored '' @ v_stored v @ '', expected '' @ v_expected v @
     '' (held by: '' @ (if v_holders v = [] then ''nothing'' else commas (v_holders v)) @ '')''"

definition formatRefCountViolations :: "violation list \<Rightarrow> string list" where
  "formatRefCountViolations vs = map format_violation vs"

definition assertRefCountsIfAuditing :: "unit store" where
  "assertRefCountsIfAuditing =
     bnd (gets auditRefCounts) (\<lambda>on.
       if \<not> on then ret ()
       else bnd run_audit (\<lambda>vs.
         require (vs = []) (JsError ''reference count invariant violated'' (formatRefCountViolations vs))))"

definition setRefCountAuditing :: "bool \<Rightarrow> unit store" where
  "setRefCountAuditing enabled = modify (auditRefCounts_update (\<lambda>_. enabled))"

section \<open>What the credits amount to\<close>

definition units :: "credit_call list \<Rightarrow> unit_ref multiset" where
  "units cs = image_mset (\<lambda>c. (fst c, snd (snd c))) (mset cs)"

lemma units_simps [simp]:
  "units [] = {#}" "units (c # cs) = add_mset (fst c, snd (snd c)) (units cs)" "units (cs @ ds) = units cs + units ds"
  by (simp_all add: units_def)

lemma units_concat: "units (concat css) = sum_list (map units css)"
  by (induction css) simp_all

lemma units_map [simp]: "units (map (\<lambda>x. (f x, h x, False)) xs) = refs (map f xs)"
  by (induction xs) (simp_all add: refs_def)

lemma units_message [simp]: "units (message_calls h m) = refs (message_refs m)"
  by (simp add: message_calls_def message_refs_def refs_def units_def image_mset.compositionality comp_def split: option.split)

lemma mapEach_pure:
  assumes "\<And>x. x \<in> set xs \<Longrightarrow> \<exists>y. f x s = (Inr y, s) \<and> g y = h x"
  shows "\<exists>ys. mapEach f xs s = (Inr ys, s) \<and> map g ys = map h xs"
  using assms
proof (induction xs)
  case Nil
  then show ?case by simp
next
  case (Cons x xs)
  obtain y where "f x s = (Inr y, s)" "g y = h x" using Cons.prems [of x] by auto
  moreover obtain ys where "mapEach f xs s = (Inr ys, s)" "map g ys = map h xs"
    using Cons.IH Cons.prems by (metis list.set_intros(2))
  ultimately have "mapEach f (x # xs) s = (Inr (y # ys), s) \<and> map g (y # ys) = map h (x # xs)" by simp
  then show ?case by blast
qed

text \<open>
  A store the audit can walk: its c-lists are well formed, only the run queue and promises have
  queues, of the entries they are meant for, the buffer holds sends and notifications, and only
  krefs have counts.
\<close>

definition auditable :: "ctx \<Rightarrow> bool" where
  "auditable s \<longleftrightarrow> clist_wf s \<and>
     (\<forall>q n e. tget (qentries (db s)) (q, n) = Some e \<longrightarrow> q = ''run'' \<or> isKRef q \<and> (\<exists>m. e = QMsg m)) \<and>
     (\<forall>i\<in>set (crankBuffer s). (\<exists>t m. i = Send t m) \<or> (\<exists>e k. i = Notify e k)) \<and>
     (\<forall>k. live k s \<longrightarrow> isKRef k)"

lemma kref_no_dot: "isKRef q \<Longrightarrow> CHR ''.'' \<notin> set q"
proof (cases q rule: isKRef.cases)
  case (1 c t ds)
  assume "isKRef q"
  with 1 have "c = CHR ''k''" "t = CHR ''o'' \<or> t = CHR ''p''" "all_digits ds" by auto
  then show ?thesis using 1 by (auto simp: all_digits_def list_all_iff is_digit_def)
qed auto

lemma queue_calls_run:
  assumes "q = ''run'' \<or> isKRef q \<and> (\<exists>m. e = QMsg m)"
  shows "\<exists>cs. queue_calls ((q, n), e) s = (Inr cs, s) \<and> units cs = queue_credit (q, n) e"
proof (cases "q = ''run''")
  case True
  then show ?thesis
    by (cases e; simp add: queue_calls_def queue_credit_def Let_def)
      (auto split: run_item.split simp: refs_def)
next
  case False
  then have "isKRef q" and "\<exists>m. e = QMsg m" using assms by auto
  then show ?thesis using False kref_no_dot [of q] isKRef_nonempty [of q]
    by (auto simp: queue_calls_def queue_credit_def Let_def refs_def)
qed

lemma clist_calls_run:
  assumes wf: "clist_wf s" and row: "tget (clists (db s)) (ep, r) = Some text"
  shows "\<exists>cs. clist_calls acts ((ep, r), text) s = (Inr cs, s) \<and> units cs = clist_credit acts (ep, r) text"
proof (cases "isEndpointId ep \<and> isKRef r")
  case True
  obtain b v where e: "entry ep r b v s" using clist_wfD_kref [OF wf row] True by blast
  then have t: "text = buildReachableAndVatSlot b v" and v: "isERef v" using row by (auto simp: entry_def)
  obtain p where "parseRef v = Inr p" using eref_direction [OF v] by blast
  then show ?thesis
    using True v by (auto simp: t clist_calls_def clist_credit_def Let_def bnd_run thn_run)
next
  case False
  then show ?thesis by (auto simp: clist_calls_def clist_credit_def Let_def)
qed

lemma sum_list_map_sort_key:
  fixes f :: "'a \<Rightarrow> 'm::comm_monoid_add"
  shows "sum_list (map f (sort_key k xs)) = sum_list (map f xs)"
proof -
  have "sum_mset (image_mset f (mset (sort_key k xs))) = sum_mset (image_mset f (mset xs))" by simp
  then show ?thesis by (simp only: mset_map [symmetric] sum_mset_sum_list)
qed

lemma tlist_row: "row \<in> set (tlist t) \<Longrightarrow> tget t (fst row) = Some (snd row)"
  by (cases row) (simp add: tlist_tget [symmetric])

lemma units_promises:
  "units (concat (map (promise_calls vs) (tlist ps))) = tsum (promise_credit vs) ps"
proof -
  have "units (promise_calls vs row) = promise_credit vs (fst row) (snd row)" for row
    by (simp add: promise_calls_def promise_credit_def Let_def)
  then show ?thesis by (simp add: units_concat tsum_def comp_def)
qed

lemma units_replicate [simp]: "units (replicate n c) = replicate_mset n (fst c, snd (snd c))"
  by (induction n) simp_all

lemma units_pins: "units (pin_calls s) = tsum pin_credit (pinned (db s))"
proof -
  have "map (\<lambda>e. replicate_mset (getPinCount (fst e) s) (fst e, False)) (tlist (pinned (db s))) =
      map (\<lambda>e. pin_credit (fst e) (snd e)) (tlist (pinned (db s)))"
    by (rule map_cong) (auto simp: pin_credit_def getPinCount_def tlist_row)
  then show ?thesis
    unfolding tsum_def by (simp only: pin_calls_def getPinnedObjects_def tkeys_def units_concat map_map comp_def
        units_replicate fst_conv snd_conv)
qed

lemma all_calls_run:
  assumes "auditable s"
  shows "\<exists>cs. all_calls s = (Inr cs, s) \<and> units cs = credits s"
proof -
  note a = assms [unfolded auditable_def]
  have "\<exists>qs. mapEach queue_calls (by_key_text (tlist (qentries (db s)))) s = (Inr qs, s) \<and>
      map units qs = map (\<lambda>row. queue_credit (fst row) (snd row)) (by_key_text (tlist (qentries (db s))))"
  proof (rule mapEach_pure)
    fix row assume "row \<in> set (by_key_text (tlist (qentries (db s))))"
    then have "tget (qentries (db s)) (fst (fst row), snd (fst row)) = Some (snd row)"
      by (simp add: by_key_text_def tlist_row)
    then show "\<exists>cs. queue_calls row s = (Inr cs, s) \<and> units cs = queue_credit (fst row) (snd row)"
      using queue_calls_run [of "fst (fst row)" "snd row"] a by (metis prod.collapse)
  qed
  then obtain qs where qs: "mapEach queue_calls (by_key_text (tlist (qentries (db s)))) s = (Inr qs, s)"
    and uq: "map units qs = map (\<lambda>row. queue_credit (fst row) (snd row)) (by_key_text (tlist (qentries (db s))))" by blast
  have "\<exists>cs. mapEach (clist_calls (gc_action_list s)) (tlist (clists (db s))) s = (Inr cs, s) \<and>
      map units cs = map (\<lambda>row. clist_credit (gc_action_list s) (fst row) (snd row)) (tlist (clists (db s)))"
  proof (rule mapEach_pure)
    fix row assume "row \<in> set (tlist (clists (db s)))"
    then have "tget (clists (db s)) (fst (fst row), snd (fst row)) = Some (snd row)" by (simp add: tlist_row)
    then show "\<exists>cs. clist_calls (gc_action_list s) row s = (Inr cs, s) \<and> units cs = clist_credit (gc_action_list s) (fst row) (snd row)"
      using clist_calls_run [of s "fst (fst row)" "snd (fst row)" "snd row"] a by simp
  qed
  then obtain cs where cs: "mapEach (clist_calls (gc_action_list s)) (tlist (clists (db s))) s = (Inr cs, s)"
    and uc: "map units cs = map (\<lambda>row. clist_credit (gc_action_list s) (fst row) (snd row)) (tlist (clists (db s)))" by blast
  have "\<exists>bs. mapEach buffer_calls (List.enumerate 0 (crankBuffer s)) s = (Inr bs, s) \<and>
      map units bs = map (\<lambda>i. refs (item_refs (snd i))) (List.enumerate 0 (crankBuffer s))"
  proof (rule mapEach_pure)
    fix i assume "i \<in> set (List.enumerate 0 (crankBuffer s))"
    then have "snd i \<in> set (crankBuffer s)" using nth_mem [of "fst i" "crankBuffer s"] by (simp add: in_set_enumerate_eq)
    then show "\<exists>cs. buffer_calls i s = (Inr cs, s) \<and> units cs = refs (item_refs (snd i))"
      using a by (auto simp: buffer_calls_def Let_def refs_def split: run_item.split)
  qed
  then obtain bs where bs: "mapEach buffer_calls (List.enumerate 0 (crankBuffer s)) s = (Inr bs, s)"
    and ub: "map units bs = map (\<lambda>i. refs (item_refs (snd i))) (List.enumerate 0 (crankBuffer s))" by blast
  have "sum_list (map (\<lambda>i. refs (item_refs (snd i))) (List.enumerate 0 xs)) = buffer_credit xs" for xs
  proof -
    have "map (\<lambda>i. refs (item_refs (snd i))) (List.enumerate 0 xs) = map (\<lambda>i. refs (item_refs i)) (map snd (List.enumerate 0 xs))"
      by (simp only: map_map comp_def)
    moreover have "sum_list (map (\<lambda>i. refs (item_refs i)) ys) = buffer_credit ys" for ys
      by (induction ys) (simp_all add: buffer_credit_def refs_def)
    ultimately show ?thesis by (simp add: map_snd_enumerate)
  qed
  then have "units (concat bs) = buffer_credit (crankBuffer s)" by (simp add: units_concat ub)
  moreover have "units (concat qs) = tsum queue_credit (qentries (db s))"
    unfolding units_concat uq tsum_def by_key_text_def by (rule sum_list_map_sort_key)
  moreover have "units (concat cs) = tsum (clist_credit (gc_action_list s)) (clists (db s))"
    by (simp add: units_concat uc tsum_def)
  ultimately show ?thesis
    using qs cs bs by (simp add: all_calls_def credits_def units_promises units_pins ac_simps)
qed

section \<open>Tallies\<close>

lemma credit_tally:
  "tally_of (credit ts c) k =
     (if k = fst c
      then \<lparr>t_reachable = t_reachable (tally_of ts k) + reach k (units [c]),
            t_recognizable = t_recognizable (tally_of ts k) + (if isPromiseRef k then 0 else recog k (units [c])),
            t_holders = t_holders (tally_of ts k) @ [fst (snd c)]\<rparr>
      else tally_of ts k)"
proof (cases "k = fst c")
  case True
  then show ?thesis
    by (cases "tally_of ts k") (auto simp: credit_def Let_def tally_of_def [of "tput _ _ _"] reach_def recog_def)
next
  case False
  then show ?thesis by (simp add: credit_def Let_def tally_of_def)
qed

lemma units_elsewhere: "k \<noteq> fst c \<Longrightarrow> reach k (units [c]) = 0 \<and> recog k (units [c]) = 0"
  by (simp add: reach_def recog_def)

lemma tally_run:
  "t_reachable (tally_of (foldl credit ts cs) k) = t_reachable (tally_of ts k) + reach k (units cs)"
  "t_recognizable (tally_of (foldl credit ts cs) k) =
     t_recognizable (tally_of ts k) + (if isPromiseRef k then 0 else recog k (units cs))"
  "t_holders (tally_of (foldl credit ts cs) k) = [] \<longleftrightarrow> t_holders (tally_of ts k) = [] \<and> recog k (units cs) = 0"
  "has (foldl credit ts cs) k \<longleftrightarrow> has ts k \<or> recog k (units cs) > 0"
proof (induction cs arbitrary: ts)
  case (Cons c cs)
  have u: "units (c # cs) = units [c] + units cs" by simp
  have h: "has (credit ts c) k \<longleftrightarrow> has ts k \<or> k = fst c" for ts by (auto simp: credit_def Let_def)
  have one: "recog (fst c) (units [c]) = 1" by (auto simp: recog_def)
  {
    case 1
    show ?case using Cons(1) [of "credit ts c"] units_elsewhere [of k c] unfolding u by (auto simp: credit_tally simp del: units_simps)
  next
    case 2
    show ?case using Cons(2) [of "credit ts c"] units_elsewhere [of k c] unfolding u by (auto simp: credit_tally simp del: units_simps)
  next
    case 3
    show ?case using Cons(3) [of "credit ts c"] units_elsewhere [of k c] one unfolding u by (auto simp: credit_tally simp del: units_simps)
  next
    case 4
    show ?case
      using Cons(4) [of "credit ts c"] units_elsewhere [of k c] one h [of ts] unfolding u
      by (cases "k = fst c") (simp_all del: units_simps)
  }
qed (simp_all add: reach_def recog_def)

text \<open>The tallies of a store: for every kref, the counts its references imply.\<close>

definition tallies_ok :: "unit_ref multiset \<Rightarrow> (string, tally) tbl \<Rightarrow> bool" where
  "tallies_ok M ts \<longleftrightarrow> (\<forall>k. renderCounts k (tally_of ts k) = count_text k (reach k M) (recog k M) \<and>
     (t_holders (tally_of ts k) = [] \<longleftrightarrow> recog k M = 0) \<and> (has ts k \<longleftrightarrow> recog k M > 0))"

lemma computeExpectedRefCounts_run:
  assumes "auditable s"
  shows "\<exists>ts. computeExpectedRefCounts s = (Inr ts, s) \<and> tallies_ok (credits s) ts"
proof -
  obtain cs where cs: "all_calls s = (Inr cs, s)" "units cs = credits s" using all_calls_run [OF assms] by blast
  have "tallies_ok (credits s) (foldl credit tempty cs)"
    using tally_run [of tempty cs] cs(2)
    by (simp add: tallies_ok_def renderCounts_def count_text_def tally_of_def [of tempty] no_tally_def)
  then show ?thesis using cs(1) by (simp add: computeExpectedRefCounts_def)
qed

lemma audit_kref_exact:
  assumes "tallies_ok (credits s) ts" and "\<forall>k. live k s \<longrightarrow> isKRef k"
  shows "audit_kref ts s k = [] \<longleftrightarrow> row_exact (credits s) s k"
  using assms
  by (auto simp: audit_kref_def Let_def tallies_ok_def row_exact_def has_def live_def split: option.split)

lemma set_foldl_set_add [simp]: "set (foldl (\<lambda>a x. set_add x a) acc xs) = set acc \<union> set xs"
  by (induction xs arbitrary: acc) auto

lemma distinct_foldl_set_add [simp]: "distinct (foldl (\<lambda>a x. set_add x a) acc xs) = distinct acc"
  by (induction xs arbitrary: acc) auto

lemma audited_krefs_mem:
  assumes "tallies_ok (credits s) ts" and "\<forall>k. live k s \<longrightarrow> isKRef k"
  shows "k \<in> set (audited_krefs ts s) \<longleftrightarrow> recog k (credits s) > 0 \<or> live k s"
  using assms by (auto simp: audited_krefs_def getCountedKrefs_def tallies_ok_def live_def)

lemma run_audit_run:
  assumes "auditable s"
  shows "\<exists>ts. tallies_ok (credits s) ts \<and>
    run_audit s = (Inr (concat (map (audit_kref ts s) (audited_krefs ts s))), s)"
  using computeExpectedRefCounts_run [OF assms] by (auto simp: run_audit_def)

lemma audit_empty_iff:
  assumes "auditable s" and "tallies_ok (credits s) ts"
  shows "concat (map (audit_kref ts s) (audited_krefs ts s)) = [] \<longleftrightarrow> acct {#} s"
proof -
  have lk: "\<forall>k. live k s \<longrightarrow> isKRef k" using assms(1) by (simp add: auditable_def)
  have "audit_kref ts s k = []" if "k \<notin> set (audited_krefs ts s)" for k
    using that audited_krefs_mem [OF assms(2) lk, of k] audit_kref_exact [OF assms(2) lk, of k]
    by (auto simp: row_exact_def live_def)
  then have "concat (map (audit_kref ts s) (audited_krefs ts s)) = [] \<longleftrightarrow> (\<forall>k. audit_kref ts s k = [])"
    by auto
  then show ?thesis using audit_kref_exact [OF assms(2) lk] by (simp add: acct_def exact_def)
qed

section \<open>Properties\<close>

text \<open>
  C29. The audit agrees with the accounting invariant: on any store it can walk it finishes, changes
  nothing, and reports no violation exactly when every stored count is the number of references
  the store holds and nothing refers to a deleted kref; with auditing on, the per-crank
  assertion throws in exactly the other case, and with auditing off never.
\<close>

theorem audit_correct:
  assumes "auditable s"
  shows "\<exists>vs. run_audit s = (Inr vs, s) \<and> (vs = [] \<longleftrightarrow> acct {#} s) \<and>
    assertRefCountsIfAuditing s =
      (if auditRefCounts s \<and> \<not> acct {#} s
       then Inl (JsError ''reference count invariant violated'' (formatRefCountViolations vs)) else Inr (), s)"
proof -
  obtain ts where "tallies_ok (credits s) ts"
    "run_audit s = (Inr (concat (map (audit_kref ts s) (audited_krefs ts s))), s)"
    using run_audit_run [OF assms] by blast
  with audit_empty_iff [OF assms this(1)] show ?thesis
    by (intro exI [of _ "concat (map (audit_kref ts s) (audited_krefs ts s))"])
      (simp add: assertRefCountsIfAuditing_def del: concat_eq_Nil_conv)
qed

lemma demo_auditable: "auditable demo_store"
proof -
  have "qentries (db demo_store) = tempty" "crankBuffer demo_store = []"
    unfolding demo_store_eq makeKernelStore_fresh by (simp_all add: empty_kdb_def)
  moreover have "live k demo_store \<Longrightarrow> isKRef k" for k
    using demo_acct by (auto simp: acct_def exact_def row_exact_def live_def split: if_splits)
  ultimately show ?thesis using demo_wf by (simp add: auditable_def)
qed

theorem audit_correct_witness:
  "\<exists>vs. run_audit demo_store = (Inr vs, demo_store) \<and> (vs = [] \<longleftrightarrow> acct {#} demo_store) \<and>
    assertRefCountsIfAuditing demo_store =
      (if auditRefCounts demo_store \<and> \<not> acct {#} demo_store
       then Inl (JsError ''reference count invariant violated'' (formatRefCountViolations vs)) else Inr (), demo_store)"
  by (rule audit_correct [OF demo_auditable])

section \<open>The repair\<close>

text \<open>A computation that neither reads nor changes the state.\<close>

definition stateless :: "'a store \<Rightarrow> bool" where
  "stateless m \<longleftrightarrow> (\<exists>r. m = lift r)"

lemma stateless_intros:
  "stateless (ret x)" "stateless (fail e)" "stateless (lift r)" "stateless (require b e)"
proof -
  show "stateless (ret x)" unfolding stateless_def by (intro exI [of _ "Inr x"]) (simp add: fun_eq_iff)
  show "stateless (fail e)" unfolding stateless_def by (intro exI [of _ "Inl e"]) (simp add: fun_eq_iff)
  show "stateless (lift r)" unfolding stateless_def by blast
  show "stateless (require b e)"
    unfolding stateless_def by (intro exI [of _ "if b then Inr () else Inl e"]) (simp add: fun_eq_iff)
qed

lemma stateless_bnd:
  assumes "stateless m" and "\<And>x. stateless (f x)"
  shows "stateless (bnd m f)"
proof -
  obtain r where r: "m = lift r" using assms(1) by (auto simp: stateless_def)
  show ?thesis
  proof (cases r)
    case (Inl e)
    then have "bnd m f = lift (Inl e)" by (simp add: r fun_eq_iff bnd_run)
    then show ?thesis unfolding stateless_def by blast
  next
    case (Inr x)
    then have "bnd m f = f x" by (simp add: r fun_eq_iff bnd_run)
    then show ?thesis using assms(2) by simp
  qed
qed

lemma stateless_thn: "stateless m \<Longrightarrow> stateless n \<Longrightarrow> stateless (thn m n)"
  unfolding thn_def by (rule stateless_bnd)

lemma stateless_mapEach: "(\<And>x. stateless (f x)) \<Longrightarrow> stateless (mapEach f xs)"
  by (induction xs) (auto intro!: stateless_bnd stateless_intros simp del: ret_run)

lemma statelessD: "stateless m \<Longrightarrow> m s = (r, s') \<Longrightarrow> m t = (r, t)"
  by (auto simp: stateless_def)

lemma stateless_calls: "stateless (queue_calls q)" "stateless (clist_calls acts c)" "stateless (buffer_calls b)"
proof -
  show "stateless (queue_calls q)"
    by (auto simp: queue_calls_def Let_def stateless_intros split: queue_entry.split run_item.split simp del: ret_run)
  show "stateless (buffer_calls b)"
    by (auto simp: buffer_calls_def Let_def stateless_intros split: run_item.split simp del: ret_run)
  show "stateless (clist_calls acts c)"
    by (auto simp: clist_calls_def Let_def intro!: stateless_intros stateless_thn stateless_bnd split: prod.split simp del: ret_run)
qed

lemma same_expected:
  assumes "same_but_counts s s'" and "computeExpectedRefCounts s = (Inr ts, s)"
  shows "computeExpectedRefCounts s' = (Inr ts, s')"
proof -
  have eq: "qentries (db s') = qentries (db s)" "clists (db s') = clists (db s)" "crankBuffer s' = crankBuffer s"
    "pvalues (db s') = pvalues (db s)" "pstates (db s') = pstates (db s)" "pinned (db s') = pinned (db s)"
    "gc_action_list s' = gc_action_list s"
    using same_but_countsD [OF assms(1), of "\<lambda>t. qentries (db t)"] same_but_countsD [OF assms(1), of "\<lambda>t. clists (db t)"]
      same_but_countsD [OF assms(1), of crankBuffer] same_but_countsD [OF assms(1), of "\<lambda>t. pvalues (db t)"]
      same_but_countsD [OF assms(1), of "\<lambda>t. pstates (db t)"] same_but_countsD [OF assms(1), of "\<lambda>t. pinned (db t)"]
      same_but_counts_gc_actions [OF assms(1)]
    by (simp_all add: without_counts_def)
  have "stateless (bnd (mapEach queue_calls (by_key_text (tlist (qentries (db s))))) (\<lambda>qs.
         bnd (mapEach (clist_calls (gc_action_list s)) (tlist (clists (db s)))) (\<lambda>cs.
           bnd (mapEach buffer_calls (List.enumerate 0 (crankBuffer s))) (\<lambda>bs.
             ret (concat (map (promise_calls (pvalues (db s))) (tlist (pstates (db s)))) @
                  concat qs @ concat cs @ concat bs @ pin_calls s)))))" (is "stateless ?m")
    by (intro stateless_bnd stateless_mapEach stateless_calls stateless_intros)
  moreover have "pin_calls s' = pin_calls s"
    by (simp add: pin_calls_def getPinnedObjects_def getPinCount_def eq)
  then have "all_calls s' = ?m s'" by (simp add: all_calls_def eq)
  moreover obtain cs where "all_calls s = (Inr cs, s)" "ts = foldl credit tempty cs"
    using assms(2) by (auto simp: computeExpectedRefCounts_def elim!: bnd_InrE)
  ultimately have "all_calls s' = (Inr cs, s')" using statelessD [of ?m s "Inr cs" s s'] by (simp add: all_calls_def)
  then show ?thesis using \<open>ts = _\<close> by (simp add: computeExpectedRefCounts_def)
qed

lemma repair_all:
  assumes "\<And>v. v \<in> set vs \<Longrightarrow> v_expected v = f (v_kref v)"
  shows "\<exists>s'. forEach vs repair s = (Inr (), s') \<and> same_but_counts s s' \<and>
    (\<forall>k. tget (refCounts (db s')) k = (if k \<in> v_kref ` set vs then Some (f k) else tget (refCounts (db s)) k)) \<and>
    set (maybeFreeKrefs s') = set (maybeFreeKrefs s) \<union> v_kref ` {v \<in> set vs. starts_with ''0'' (v_expected v)}"
  using assms
proof (induction vs arbitrary: s)
  case Nil
  then show ?case by simp
next
  case (Cons v vs)
  let ?t = "db_update (refCounts_update (tput (v_kref v) (v_expected v))) s"
  let ?u = "if starts_with ''0'' (v_expected v) then maybeFreeKrefs_update (set_add (v_kref v)) ?t else ?t"
  have r: "repair v s = (Inr (), ?u)" by (simp add: repair_def addMaybeFree_def)
  have sb: "same_but_counts s ?u" by simp
  obtain s' where "forEach vs repair ?u = (Inr (), s')" "same_but_counts ?u s'"
    "\<forall>k. tget (refCounts (db s')) k = (if k \<in> v_kref ` set vs then Some (f k) else tget (refCounts (db ?u)) k)"
    "set (maybeFreeKrefs s') = set (maybeFreeKrefs ?u) \<union> v_kref ` {v \<in> set vs. starts_with ''0'' (v_expected v)}"
    using Cons.IH [of ?u] Cons.prems by auto
  then show ?case using r same_but_counts_trans [OF sb] Cons.prems [of v]
    by (intro exI [of _ s']) (auto split: if_splits)
qed

lemma sort_strings_unique: "distinct xs \<Longrightarrow> distinct ys \<Longrightarrow> set xs = set ys \<Longrightarrow> sort_strings xs = sort_strings ys"
  by (rule sorted_distinct_set_unique) simp_all

lemma audit_kref_shape:
  "audit_kref ts s k = [] \<or> (\<exists>v. audit_kref ts s k = [v] \<and> v_kref v = k \<and> v_expected v = renderCounts k (tally_of ts k) \<and>
     (v_stored v = ''(deleted)'' \<or> live k s))"
  by (auto simp: audit_kref_def Let_def live_def has_def split: option.split)

text \<open>
  C30. The repair gives every kref that has a count the count the references the store holds amount to,
  whatever it was (a stored text \<open>(deleted)\<close>, which the audit takes for a missing row, is left alone), and creates or
  deletes no count. It returns the violations the audit finds, those with a stored count as
  fixed, those without one as unfixable; auditing the repaired store again finds exactly the unfixable ones, so that the
  counts are then exact just when there are none. Exactly the krefs whose count was put right at zero become candidates for
  collection; nothing but counts and candidates changes.
\<close>

theorem recomputeRefCounts_repairs:
  assumes "auditable s"
  shows "\<exists>vs fixed left s'. run_audit s = (Inr vs, s) \<and> fixed = filter (\<lambda>v. v_stored v \<noteq> ''(deleted)'') vs \<and>
    left = filter (\<lambda>v. v_stored v = ''(deleted)'') vs \<and>
    recomputeRefCounts s = (Inr (fixed, left), s') \<and> run_audit s' = (Inr left, s') \<and> (left = [] \<longleftrightarrow> acct {#} s') \<and>
    (\<forall>k. tget (refCounts (db s')) k = (case tget (refCounts (db s)) k of None \<Rightarrow> None
      | Some t \<Rightarrow> Some (if t = ''(deleted)'' then t else count_text k (reach k (credits s)) (recog k (credits s))))) \<and>
    same_but_counts s s' \<and>
    set (maybeFreeKrefs s') = set (maybeFreeKrefs s) \<union> v_kref ` {v \<in> set fixed. starts_with ''0'' (v_expected v)}"
proof -
  obtain ts where e: "computeExpectedRefCounts s = (Inr ts, s)" and ok: "tallies_ok (credits s) ts"
    using computeExpectedRefCounts_run [OF assms] by blast
  let ?d = "''(deleted)''"
  define vs where "vs = concat (map (audit_kref ts s) (audited_krefs ts s))"
  let ?fixed = "filter (\<lambda>v. v_stored v \<noteq> ?d) vs" and ?left = "filter (\<lambda>v. v_stored v = ?d) vs"
  have lk: "\<forall>k. live k s \<longrightarrow> isKRef k" using assms by (simp add: auditable_def)
  have shape: "v_expected v = renderCounts (v_kref v) (tally_of ts (v_kref v)) \<and> (v_stored v = ?d \<or> live (v_kref v) s) \<and>
      audit_kref ts s (v_kref v) = [v]" if "v \<in> set vs" for v
  proof -
    obtain k where "v \<in> set (audit_kref ts s k)" using \<open>v \<in> set vs\<close> by (auto simp: vs_def)
    then show ?thesis using audit_kref_shape [of ts s k] by auto
  qed
  obtain s' where s': "forEach ?fixed repair s = (Inr (), s')" "same_but_counts s s'"
    and row: "\<And>k. tget (refCounts (db s')) k =
        (if k \<in> v_kref ` set ?fixed then Some (renderCounts k (tally_of ts k)) else tget (refCounts (db s)) k)"
    and mf: "set (maybeFreeKrefs s') = set (maybeFreeKrefs s) \<union> v_kref ` {v \<in> set ?fixed. starts_with ''0'' (v_expected v)}"
    using repair_all [of ?fixed "\<lambda>k. renderCounts k (tally_of ts k)" s] shape by auto
  have counts: "tget (refCounts (db s')) k = (case tget (refCounts (db s)) k of None \<Rightarrow> None
      | Some t \<Rightarrow> Some (if t = ?d then t else count_text k (reach k (credits s)) (recog k (credits s))))" for k
  proof -
    have stored: "tget (refCounts (db s)) k = Some (v_stored v) \<and> v_stored v \<noteq> ?d" if "v \<in> set ?fixed" "v_kref v = k" for v
    proof -
      have "audit_kref ts s k = [v]" using shape [of v] that by simp
      with that(1) show ?thesis by (auto simp: audit_kref_def Let_def split: option.splits if_splits)
    qed
    have unfixed: "k \<notin> v_kref ` set ?fixed" if "tget (refCounts (db s)) k = None \<or> tget (refCounts (db s)) k = Some ?d"
    proof
      assume "k \<in> v_kref ` set ?fixed"
      then obtain v where "v \<in> set ?fixed" "k = v_kref v" by (rule imageE)
      with stored [of v] that show False by simp
    qed
    show ?thesis
    proof (cases "tget (refCounts (db s)) k")
      case None
      then show ?thesis using row [of k] unfixed by simp
    next
      case (Some t)
      have kk: "isKRef k" using Some lk by (simp add: live_def has_def)
      have r: "renderCounts k (tally_of ts k) = count_text k (reach k (credits s)) (recog k (credits s))"
        using ok kk by (simp add: tallies_ok_def)
      have k: "k \<in> set (audited_krefs ts s)" using Some audited_krefs_mem [OF ok lk] by (simp add: live_def has_def)
      show ?thesis
      proof (cases "t = ?d \<or> t = renderCounts k (tally_of ts k)")
        case True
        then have "k \<notin> v_kref ` set ?fixed \<or> t = renderCounts k (tally_of ts k)" using unfixed Some by blast
        then show ?thesis using row [of k] Some True r unfixed by (cases "t = ?d") simp_all
      next
        case False
        then obtain v where v: "audit_kref ts s k = [v]" "v_kref v = k" "v_stored v = t"
          using Some by (auto simp: audit_kref_def Let_def)
        then have "v \<in> set vs" using k by (auto simp: vs_def intro!: bexI [of _ k])
        then have "k \<in> v_kref ` set ?fixed" using v False by auto
        then show ?thesis using row [of k] Some False r by simp
      qed
    qed
  qed
  have lv: "live k s' = live k s" for k using row [of k] shape by (auto simp: live_def has_def)
  have cr: "credits s' = credits s" by (rule same_but_counts_credits [OF s'(2)])
  have ok': "tallies_ok (credits s') ts" using ok cr by simp
  have au': "auditable s'"
    using assms same_but_counts_wf [OF s'(2)] same_but_countsD [OF s'(2), of "\<lambda>t. qentries (db t)"]
      same_but_countsD [OF s'(2), of crankBuffer] lv
    by (simp add: auditable_def without_counts_def)
  have lk': "\<forall>k. live k s' \<longrightarrow> isKRef k" using lk lv by simp
  have ks: "audited_krefs ts s' = audited_krefs ts s"
    unfolding audited_krefs_def
  proof (rule sort_strings_unique)
    show "set (foldl (\<lambda>a x. set_add x a) [] (tkeys ts @ getCountedKrefs s')) =
        set (foldl (\<lambda>a x. set_add x a) [] (tkeys ts @ getCountedKrefs s))"
      using lv by (auto simp: getCountedKrefs_def live_def)
  qed simp_all
  have each: "audit_kref ts s' k = filter (\<lambda>v. v_stored v = ?d) (audit_kref ts s k)" if k: "k \<in> set (audited_krefs ts s)" for k
  proof (cases "k \<in> v_kref ` set ?fixed")
    case True
    then obtain v where "v \<in> set vs" "v_kref v = k" "v_stored v \<noteq> ?d" by auto
    then have "audit_kref ts s k = [v]" using shape by blast
    moreover have "audit_kref ts s' k = []" using row [of k] True by (simp add: audit_kref_def Let_def)
    ultimately show ?thesis using \<open>v_stored v \<noteq> ?d\<close> by simp
  next
    case False
    then have "audit_kref ts s' k = audit_kref ts s k" using row [of k] by (simp add: audit_kref_def Let_def)
    moreover have "v_stored v = ?d" if "v \<in> set (audit_kref ts s k)" for v
    proof -
      have "v_kref v = k" using that audit_kref_shape [of ts s k] by auto
      moreover have "v \<in> set vs" using that k by (auto simp: vs_def)
      ultimately show ?thesis using False by auto
    qed
    ultimately show ?thesis by (simp add: filter_id_conv)
  qed
  have left: "concat (map (audit_kref ts s') (audited_krefs ts s')) = ?left"
    unfolding ks vs_def filter_concat map_map comp_def using each by (simp cong: map_cong)
  have "run_audit s' = (Inr ?left, s')"
    using same_expected [OF s'(2) e] left by (simp add: run_audit_def)
  moreover have "recomputeRefCounts s = (Inr (?fixed, ?left), s')"
    using e s'(1) by (simp add: recomputeRefCounts_def run_audit_def Let_def vs_def [symmetric])
  moreover have "?left = [] \<longleftrightarrow> acct {#} s'" using audit_empty_iff [OF au' ok'] left by simp
  moreover have "run_audit s = (Inr vs, s)" using e by (simp add: run_audit_def vs_def)
  ultimately show ?thesis using s'(2) counts mf by (intro exI [of _ vs] exI [of _ ?fixed] exI [of _ ?left] exI [of _ s'] conjI) (rule refl | assumption | rule allI)+
qed

text \<open>A store whose one object has a count too many.\<close>

definition drifted :: ctx where
  "drifted = db_update (refCounts_update (tput ''ko1'' ''1,1'')) demo_store"

lemma drifted_auditable: "auditable drifted"
proof -
  have "same_but_counts demo_store drifted" by (simp add: drifted_def)
  moreover have "live k drifted = live k demo_store" for k
    using demo_live by (auto simp: drifted_def live_def)
  ultimately show ?thesis
    using demo_auditable same_but_counts_wf same_but_countsD [of demo_store drifted "\<lambda>t. qentries (db t)"]
      same_but_countsD [of demo_store drifted crankBuffer]
    by (simp add: auditable_def without_counts_def)
qed

theorem recomputeRefCounts_repairs_witness:
  "\<exists>fixed left s'. recomputeRefCounts drifted = (Inr (fixed, left), s') \<and> acct {#} s' \<and>
    tget (refCounts (db drifted)) ''ko1'' = Some ''1,1'' \<and> tget (refCounts (db s')) ''ko1'' = Some ''0,0''"
proof -
  from recomputeRefCounts_repairs [OF drifted_auditable] obtain fixed left s'
    where run: "recomputeRefCounts drifted = (Inr (fixed, left), s')" and f: "same_but_counts drifted s'"
      and row: "\<forall>k. tget (refCounts (db s')) k = (case tget (refCounts (db drifted)) k of None \<Rightarrow> None
        | Some t \<Rightarrow> Some (if t = ''(deleted)'' then t else count_text k (reach k (credits drifted)) (recog k (credits drifted))))"
    by (elim exE conjE) (rule that)
  have c: "credits drifted = credits demo_store" by (rule credits_cong) (simp_all add: drifted_def)
  have one: "tget (refCounts (db demo_store)) k = (if k = ''ko1'' then Some ''0,0'' else None)" for k
    by (simp add: demo_store_eq)
  have "row_exact (credits demo_store) demo_store k" for k using demo_acct by (simp add: acct_def exact_def)
  then have t: "count_text ''ko1'' (reach ''ko1'' (credits demo_store)) (recog ''ko1'' (credits demo_store)) = ''0,0''"
    using one [of "''ko1''"] unfolding row_exact_def has_def by (metis option.inject option.distinct(1))
  have rows: "tget (refCounts (db s')) k = tget (refCounts (db demo_store)) k" for k
    using row [rule_format, of k] one [of k] t unfolding c by (simp add: drifted_def)
  then have "acct {#} s'"
    using demo_acct same_but_counts_credits [OF f] c by (simp add: acct_def exact_def row_exact_def has_def)
  then show ?thesis using run rows [of "''ko1''"] one [of "''ko1''"]
    by (intro exI [of _ fixed] exI [of _ left] exI [of _ s']) (simp add: drifted_def)
qed

end
