(* ===== verification/GC.thy ===== *)
theory GC
  imports Translators
begin

text \<open>
  Garbage collection: the set of queued actions, the reap queue and the collector of
  \<open>store/methods/gc.ts\<close>; the choice of the next action (\<open>processGCActionSet\<close> of
  \<open>garbage-collection/garbage-collection.ts\<close>); and the syscalls by which an endpoint gives up
  imports and exports (\<open>garbage-collection/gc-handlers.ts\<close>). The collector walks a set that
  grows while it is walked; its loop is given the number of krefs that could ever enter the
  set as fuel, and theorem \<open>collectGarbage_correct\<close> shows that it is enough.
\<close>

section \<open>Actions (types.ts)\<close>

datatype gc_action_type = DropExport | RetireExport | RetireImport

definition actionTypePriorities :: "gc_action_type list" where
  "actionTypePriorities = [DropExport, RetireExport, RetireImport]"

fun action_text :: "gc_action_type \<Rightarrow> string" where
  "action_text DropExport = ''dropExport''"
| "action_text RetireExport = ''retireExport''"
| "action_text RetireImport = ''retireImport''"

fun queueTypeFromActionType :: "gc_action_type \<Rightarrow> GCRunQueueType" where
  "queueTypeFromActionType DropExport = DropExports"
| "queueTypeFromActionType RetireExport = RetireExports"
| "queueTypeFromActionType RetireImport = RetireImports"

definition insistGCActionType :: "string \<Rightarrow> kerror + gc_action_type" where
  "insistGCActionType t =
     (if t = ''dropExport'' then Inr DropExport
      else if t = ''retireExport'' then Inr RetireExport
      else if t = ''retireImport'' then Inr RetireImport
      else Inl (Fail ''not a valid GCActionType'' [t]))"

definition gc_action :: "string \<Rightarrow> gc_action_type \<Rightarrow> string \<Rightarrow> string" where
  "gc_action ep ty kref = ep @ '' '' @ action_text ty @ '' '' @ kref"

definition makeGCAction :: "string \<Rightarrow> gc_action_type \<Rightarrow> string \<Rightarrow> string store" where
  "makeGCAction ep ty kref =
     thn (require (starts_with ''ko'' kref) (Fail ''GC actions only apply to objects:'' [kref]))
       (ret (gc_action ep ty kref))"

section \<open>The action set and the reap queue (gc.ts)\<close>

definition getGCActions :: "ctx \<Rightarrow> string list" where
  "getGCActions s = foldl (\<lambda>a x. set_add x a) [] (gc_action_list s)"

definition setGCActions :: "string list \<Rightarrow> unit store" where
  "setGCActions actions = cached_set (gcActions_update (\<lambda>_. Some (sort_strings actions)))"

definition addGCActions :: "string list \<Rightarrow> unit store" where
  "addGCActions newActions =
     bnd (gets getGCActions) (\<lambda>actions. setGCActions (foldl (\<lambda>a x. set_add x a) actions newActions))"

definition reap_list :: "ctx \<Rightarrow> string list" where
  "reap_list s = (case reapQueue (cache s) of None \<Rightarrow> [] | Some q \<Rightarrow> q)"

definition scheduleReap :: "string \<Rightarrow> unit store" where
  "scheduleReap ep =
     bnd (gets reap_list) (\<lambda>queue.
       whenM (ep \<notin> set queue) (cached_set (reapQueue_update (\<lambda>_. Some (queue @ [ep])))))"

definition nextReapAction :: "run_item option store" where
  "nextReapAction =
     bnd (gets reap_list) (\<lambda>queue.
       case queue of [] \<Rightarrow> ret None
       | ep # rest \<Rightarrow> thn (cached_set (reapQueue_update (\<lambda>_. Some rest))) (ret (Some (BringOutYourDead ep))))"

section \<open>Orphans and retirement (gc.ts)\<close>

definition orphanKernelObject :: "string \<Rightarrow> string \<Rightarrow> unit store" where
  "orphanKernelObject kref expectedOwner =
     bnd (getOwner kref) (\<lambda>owner.
       thn (require (owner = None \<or> owner = Some expectedOwner) (Fail ''cannot orphan'' [kref, expectedOwner, the owner]))
         (thn (kvWrite (owners_update (tdel kref))) (addMaybeFree kref)))"

definition retire_one :: "string \<Rightarrow> string list store" where
  "retire_one koid =
     bnd (getImporters koid) (\<lambda>importers.
       bnd (mapEach (\<lambda>ep. makeGCAction ep RetireImport koid) importers) (\<lambda>acts.
         thn (deleteKernelObject koid) (ret acts)))"

definition retireKernelObjects :: "string list \<Rightarrow> unit store" where
  "retireKernelObjects koids = bnd (mapEach retire_one koids) (\<lambda>acts. addGCActions (concat acts))"

section \<open>The collector (gc.ts)\<close>

definition collect_promise :: "string \<Rightarrow> string list store" where
  "collect_promise kpid =
     bnd (getKernelPromise kpid) (\<lambda>kp.
       bnd (gets (getRefCount kpid)) (\<lambda>refCount.
         if refCount = Some 0 then
           thn (whenM (kp_state kp = Fulfilled \<or> kp_state kp = Rejected)
                  (forEach (case kp_value kp of None \<Rightarrow> [] | Some v \<Rightarrow> slots v) decrement))
             (thn (deleteKernelPromise kpid) (ret []))
         else ret []))"

text \<open>An orphan with no reachable holder: the rest of the visit once the owner is gone.\<close>

definition collect_orphan :: "string \<Rightarrow> int \<Rightarrow> unit store" where
  "collect_orphan kref recognizable =
     (if recognizable \<noteq> 0 then retireKernelObjects [kref] else deleteKernelObject kref)"

definition collect_object :: "string \<Rightarrow> string list store" where
  "collect_object kref =
     bnd (getObjectRefCount kref) (\<lambda>(reachable, recognizable).
       if reachable \<noteq> 0 then ret []
       else bnd (getOwner kref) (\<lambda>owner.
         if owner = Some ''kernel'' then ret []
         else if owner = None \<or> owner = Some '''' then thn (collect_orphan kref recognizable) (ret [])
         else let ep = the owner in
           bnd (gets (hasCListEntry ep kref)) (\<lambda>hasEntry.
             bnd (gets (\<lambda>s. isVatId ep \<and> isVatTerminated ep s)) (\<lambda>terminated.
               if \<not> hasEntry then
                 thn (orphanKernelObject kref ep) (thn (collect_orphan kref recognizable) (ret []))
               else if \<not> terminated then
                 bnd (getReachableFlag ep kref) (\<lambda>vatConsidersReachable.
                   bnd (if vatConsidersReachable then bnd (makeGCAction ep DropExport kref) (\<lambda>a. ret [a]) else ret []) (\<lambda>ds.
                     bnd (if recognizable = 0 then bnd (makeGCAction ep RetireExport kref) (\<lambda>a. ret [a]) else ret [])
                       (\<lambda>rs. ret (ds @ rs))))
               else
                 bnd (getReachableAndVatSlot ep kref) (\<lambda>(_, vatSlot).
                   thn (kvWrite (owners_update (tdel kref)))
                     (thn (kvWrite (clists_update (tdel (ep, kref))))
                       (thn (kvWrite (clists_update (tdel (ep, vatSlot))))
                         (thn (collect_orphan kref recognizable) (ret [])))))))))"

definition collect_one :: "string \<Rightarrow> string list store" where
  "collect_one kref =
     bnd (lift (parseKernelSlot kref)) (\<lambda>(type, _).
       case type of SlotPromise \<Rightarrow> collect_promise kref | SlotObject \<Rightarrow> collect_object kref)"

text \<open>\<open>for (const kref of ctx.maybeFreeKrefs.values())\<close>, over a set that members may be added to.\<close>

primrec collect_from :: "nat \<Rightarrow> nat \<Rightarrow> string list \<Rightarrow> string list store" where
  "collect_from 0 i actions = fail OutOfFuel"
| "collect_from (Suc n) i actions =
     bnd (gets maybeFreeKrefs) (\<lambda>krefs.
       if i < length krefs then
         bnd (collect_one (krefs ! i)) (\<lambda>new. collect_from n (Suc i) (foldl (\<lambda>a x. set_add x a) actions new))
       else ret actions)"

definition collectable :: "ctx \<Rightarrow> nat" where
  "collectable s = length (maybeFreeKrefs s) + length (tkeys (refCounts (db s)))"

definition collectGarbage :: "unit store" where
  "collectGarbage =
     bnd (gets collectable) (\<lambda>n.
       bnd (collect_from (Suc n) 0 []) (\<lambda>actions.
         thn (addGCActions actions)
           (thn (modify (maybeFreeKrefs_update (\<lambda>_. []))) clearEmptySubclusters)))"

section \<open>The next action (garbage-collection.ts)\<close>

record gc_parsed =
  a_text :: string
  a_endpoint :: string
  a_type :: gc_action_type
  a_kref :: string

definition parseAction :: "string \<Rightarrow> kerror + gc_parsed" where
  "parseAction action =
     (let parts = split_at (CHR '' '') action;
          ep = parts ! 0;
          ty = (if 1 < length parts then parts ! 1 else ''undefined'');
          kref = (if 2 < length parts then parts ! 2 else ''undefined'')
      in case insistEndpointId ep of Inl e \<Rightarrow> Inl e
       | Inr _ \<Rightarrow> (case insistGCActionType ty of Inl e \<Rightarrow> Inl e
         | Inr t \<Rightarrow> (case insistKRef kref of Inl e \<Rightarrow> Inl e
           | Inr _ \<Rightarrow> (case insistKernelType SlotObject (Some kref) of Inl e \<Rightarrow> Inl e
             | Inr _ \<Rightarrow> Inr \<lparr>a_text = action, a_endpoint = ep, a_type = t, a_kref = kref\<rparr>))))"

definition shouldProcessAction :: "string \<Rightarrow> gc_action_type \<Rightarrow> string \<Rightarrow> bool store" where
  "shouldProcessAction ep ty kref =
     bnd (gets (hasCListEntry ep kref)) (\<lambda>hasCList.
       bnd (if hasCList then getReachableFlag ep kref else ret False) (\<lambda>isReachable.
         bnd (gets (kernelRefExists kref)) (\<lambda>ex.
           bnd (if ex then getObjectRefCount kref else ret (0, 0)) (\<lambda>(reachable, recognizable).
             ret (case ty of
                    DropExport \<Rightarrow> ex \<and> reachable = 0 \<and> hasCList \<and> isReachable
                  | RetireExport \<Rightarrow> ex \<and> reachable = 0 \<and> recognizable = 0 \<and> hasCList
                  | RetireImport \<Rightarrow> hasCList)))))"

text \<open>The krefs of a group whose action still applies, sorted.\<close>

definition filterActionsForProcessing :: "gc_parsed list \<Rightarrow> string list store" where
  "filterActionsForProcessing grp =
     bnd (filterEach (\<lambda>a. shouldProcessAction (a_endpoint a) (a_type a) (a_kref a)) grp)
       (\<lambda>kept. ret (sort_strings (map a_kref kept)))"

definition action_group :: "gc_parsed list \<Rightarrow> string \<times> gc_action_type \<Rightarrow> gc_parsed list" where
  "action_group parsed g = filter (\<lambda>a. a_endpoint a = fst g \<and> a_type a = snd g) parsed"

text \<open>Groups in the order they are tried: by endpoint, and within an endpoint by priority.\<close>

definition group_order :: "gc_parsed list \<Rightarrow> (string \<times> gc_action_type) list" where
  "group_order parsed =
     filter (\<lambda>g. action_group parsed g \<noteq> [])
       (List.product (sort_strings (foldl (\<lambda>a x. set_add x a) [] (map a_endpoint parsed))) actionTypePriorities)"

primrec process_groups :: "gc_parsed list \<Rightarrow> string list \<Rightarrow> bool \<Rightarrow> (string \<times> gc_action_type) list \<Rightarrow> run_item option store" where
  "process_groups parsed all updated [] =
     thn (whenM updated (setGCActions all)) (ret None)"
| "process_groups parsed all updated (g # gs) =
     (let grp = action_group parsed g; rest = filter (\<lambda>a. a \<notin> a_text ` set grp) all in
      bnd (filterActionsForProcessing grp) (\<lambda>krefs.
        if krefs \<noteq> [] then
          thn (setGCActions rest) (ret (Some (GCAction (queueTypeFromActionType (snd g)) (fst g) krefs)))
        else process_groups parsed rest True gs))"

definition processGCActionSet :: "run_item option store" where
  "processGCActionSet =
     bnd (gets getGCActions) (\<lambda>all.
       bnd (mapEach (\<lambda>a. lift (parseAction a)) all) (\<lambda>parsed.
         process_groups parsed all False (group_order parsed)))"

section \<open>Syscalls of an endpoint (gc-handlers.ts)\<close>

definition performDropImports :: "string list \<Rightarrow> string \<Rightarrow> unit store" where
  "performDropImports krefs ep = forEach krefs (clearReachableFlag ep)"

definition retire_import :: "string \<Rightarrow> string \<Rightarrow> unit store" where
  "retire_import ep kref =
     bnd (lift (parseRef kref)) (\<lambda>p.
       thn (require (\<not> risPromise p) (JsError ''invalid retireImports'' [ep, kref]))
         (bnd (getReachableFlag ep kref) (\<lambda>r.
            thn (require (\<not> r) (JsError ''retireImports but still reachable'' [kref]))
              (forgetKref ep kref))))"

definition performRetireImports :: "string list \<Rightarrow> string \<Rightarrow> unit store" where
  "performRetireImports krefs ep = forEach krefs (retire_import ep)"

definition cleanup_one :: "bool \<Rightarrow> string \<Rightarrow> string \<Rightarrow> unit store" where
  "cleanup_one checkReachable ep kref =
     bnd (lift (parseRef kref)) (\<lambda>p.
       thn (require (\<not> risPromise p) (JsError ''invalid export cleanup'' [ep, kref]))
         (bnd (getOwner kref) (\<lambda>owner.
            thn (require (owner = None \<or> owner = Some ep) (JsError ''export owned by another'' [ep, kref]))
              (bnd (krefToEref ep kref) (\<lambda>eref.
                 bnd (case eref of None \<Rightarrow> ret False
                      | Some e \<Rightarrow> bnd (lift (parseRef e)) (\<lambda>q. ret (rdirection q = Some Export))) (\<lambda>exports.
                   thn (require exports (JsError ''does not export'' [ep, kref]))
                     (thn (if checkReachable
                           then bnd (getReachableFlag ep kref) (\<lambda>r. require (\<not> r) (JsError ''export is still reachable'' [kref]))
                           else ret ())
                       (thn (forgetKref ep kref) (orphanKernelObject kref ep)))))))))"

definition performExportCleanup :: "string list \<Rightarrow> bool \<Rightarrow> string \<Rightarrow> unit store" where
  "performExportCleanup krefs checkReachable ep = forEach krefs (cleanup_one checkReachable ep)"

section \<open>Actions as text\<close>

lemma all_digits_no_space: "all_digits ds \<Longrightarrow> CHR '' '' \<notin> set ds"
  by (auto simp: all_digits_def list_all_iff is_digit_def)

lemma kref_no_space: "isKRef k \<Longrightarrow> CHR '' '' \<notin> set k"
  by (erule isKRefE) (auto dest: all_digits_no_space)

lemma endpoint_no_space: "isEndpointId e \<Longrightarrow> CHR '' '' \<notin> set e"
  by (cases e) (auto simp: isEndpointId_def dest: all_digits_no_space)

lemma action_text_no_space: "CHR '' '' \<notin> set (action_text t)"
  by (cases t) simp_all

lemma action_text_inj: "action_text t = action_text t' \<longleftrightarrow> t = t'"
  by (cases t; cases t') simp_all

lemma append_sep_eq: "c \<notin> set xs \<Longrightarrow> c \<notin> set xs' \<Longrightarrow> xs @ c # ys = xs' @ c # ys' \<longleftrightarrow> xs = xs' \<and> ys = ys'"
proof (induction xs arbitrary: xs')
  case Nil
  then show ?case by (cases xs') auto
next
  case (Cons x xs)
  then show ?case by (cases xs') auto
qed

lemma gc_action_inj:
  assumes "isEndpointId e" and "isEndpointId e'"
  shows "gc_action e t k = gc_action e' t' k' \<longleftrightarrow> e = e' \<and> t = t' \<and> k = k'"
proof -
  have "gc_action e t k = gc_action e' t' k' \<longleftrightarrow> e = e' \<and> action_text t @ '' '' @ k = action_text t' @ '' '' @ k'"
    using append_sep_eq [OF endpoint_no_space [OF assms(1)] endpoint_no_space [OF assms(2)]]
    by (simp add: gc_action_def)
  also have "\<dots> \<longleftrightarrow> e = e' \<and> t = t' \<and> k = k'"
    using append_sep_eq [OF action_text_no_space action_text_no_space] by (simp add: action_text_inj)
  finally show ?thesis .
qed

lemma retiring_action: "retiring acts e k \<longleftrightarrow> gc_action e RetireImport k \<in> set acts"
  by (simp add: retiring_def gc_action_def)

lemma parse_gc_action:
  assumes "isEndpointId e" and "isKRef k" and "\<not> isPromiseRef k"
  shows "parseAction (gc_action e t k) = Inr \<lparr>a_text = gc_action e t k, a_endpoint = e, a_type = t, a_kref = k\<rparr>"
proof -
  have "split_at (CHR '' '') (gc_action e t k) = [e, action_text t, k]"
    using endpoint_no_space [OF assms(1)] action_text_no_space [of t] kref_no_space [OF assms(2)]
    by (simp add: gc_action_def split_at_append split_at_none)
  moreover have "insistGCActionType (action_text t) = Inr t" by (cases t) (simp_all add: insistGCActionType_def)
  moreover have "insistKernelType SlotObject (Some k) = Inr ()"
    using assms(2,3) by (auto elim!: isKRefE simp: insistKernelType_def parseKernelSlot_def isPromiseRef_def char_at_def numeral_2_eq_2)
  ultimately show ?thesis
    using assms(1,2) by (simp add: parseAction_def Let_def insistEndpointId_def insistKRef_def numeral_2_eq_2)
qed

text \<open>The store with another action set.\<close>

definition with_actions :: "string list \<Rightarrow> ctx \<Rightarrow> ctx" where
  "with_actions acts s =
     cache_update (gcActions_update (\<lambda>_. Some acts)) (db_update (cachedRows_update (gcActions_update (\<lambda>_. Some acts))) s)"

lemma with_actions_frame [simp]:
  "gc_action_list (with_actions acts s) = acts"
  "clists (db (with_actions acts s)) = clists (db s)" "refCounts (db (with_actions acts s)) = refCounts (db s)"
  "owners (db (with_actions acts s)) = owners (db s)" "maybeFreeKrefs (with_actions acts s) = maybeFreeKrefs s"
  "vatConfigs (db (with_actions acts s)) = vatConfigs (db s)" "remoteInfos (db (with_actions acts s)) = remoteInfos (db s)"
  "getTerminatedVats (with_actions acts s) = getTerminatedVats s" "pstates (db (with_actions acts s)) = pstates (db s)"
  "promise_rows (with_actions acts s) = promise_rows s" "live j (with_actions acts s) = live j s"
  "exact C (with_actions acts s) = exact C s" "entry e k b v (with_actions acts s) = entry e k b v s"
  "clist_wf (with_actions acts s) = clist_wf s" "hasCListEntry e k (with_actions acts s) = hasCListEntry e k s"
  "getVatIDs (with_actions acts s) = getVatIDs s" "getRemoteIDs (with_actions acts s) = getRemoteIDs s"
  by (simp_all add: with_actions_def gc_action_list_def getTerminatedVats_def promise_rows_def live_def exact_def
      row_exact_def entry_def clist_wf_def hasCListEntry_def getVatIDs_def getRemoteIDs_def)

lemma setGCActions_run: "setGCActions acts s = (Inr (), with_actions (sort_strings acts) s)"
  by (simp add: setGCActions_def with_actions_def)

lemma foldl_set_add_mem [simp]: "set (foldl (\<lambda>a x. set_add x a) acc xs) = set acc \<union> set xs"
  by (induction xs arbitrary: acc) auto

lemma foldl_set_add_distinct [simp]: "distinct (foldl (\<lambda>a x. set_add x a) acc xs) = distinct acc"
  by (induction xs arbitrary: acc) auto

lemma getGCActions_set [simp]: "set (getGCActions s) = set (gc_action_list s)" "distinct (getGCActions s)"
  by (simp_all add: getGCActions_def)

lemma addGCActions_run:
  "\<exists>acts. addGCActions new s = (Inr (), with_actions acts s) \<and> set acts = set (gc_action_list s) \<union> set new"
  by (intro exI [of _ "sort_strings (foldl (\<lambda>a x. set_add x a) (getGCActions s) new)"])
    (simp add: addGCActions_def setGCActions_run)

text \<open>Only queued retirements of imports bear on what is owed.\<close>

lemma credits_with_actions:
  assumes "\<And>e k. isEndpointId e \<Longrightarrow> retiring acts e k = retiring (gc_action_list s) e k"
  shows "credits (with_actions acts s) = credits s"
proof -
  have "clist_credit acts q t = clist_credit (gc_action_list s) q t" for q t
  proof (cases "isEndpointId (fst q)")
    case True
    show ?thesis unfolding clist_credit_def Let_def assms [OF True] ..
  next
    case False
    then show ?thesis by (simp add: clist_credit_def)
  qed
  then have "clist_credit acts = clist_credit (gc_action_list s)" by blast
  then show ?thesis by (simp add: credits_def) (simp add: with_actions_def)
qed

section \<open>The invariant of collection\<close>

text \<open>Every endpoint with a c-list is a vat, running or terminated, or a remote.\<close>

definition endpoints_known :: "ctx \<Rightarrow> bool" where
  "endpoints_known s \<longleftrightarrow>
     (\<forall>ep r. has (clists (db s)) (ep, r) \<longrightarrow> ep \<in> set (getVatIDs s @ getTerminatedVats s @ getRemoteIDs s))"

text \<open>An owner is the kernel or an endpoint, whose entry for the object, if it has one, is an export.\<close>

definition owners_ok :: "ctx \<Rightarrow> bool" where
  "owners_ok s \<longleftrightarrow> (\<forall>k ep. tget (owners (db s)) k = Some ep \<longrightarrow>
     ep = ''kernel'' \<or> (isEndpointId ep \<and> (\<forall>b v. entry ep k b v s \<longrightarrow> eref_exports v)))"

definition gc_inv :: "ctx \<Rightarrow> bool" where
  "gc_inv s \<longleftrightarrow> clist_wf s \<and> acct {#} s \<and> promise_wf s \<and> endpoints_known s \<and> owners_ok s \<and>
     (\<forall>e k. isEndpointId e \<and> retiring (gc_action_list s) e k \<longrightarrow> \<not> isPromiseRef k \<and> \<not> live k s) \<and>
     (\<forall>k. live k s \<and> isPromiseRef k \<longrightarrow> has (pstates (db s)) k)"

text \<open>How the candidates grow while one of them is visited: by live krefs, at the end.\<close>

definition grows :: "ctx \<Rightarrow> ctx \<Rightarrow> bool" where
  "grows s s' \<longleftrightarrow> (\<forall>j. live j s' \<longrightarrow> live j s) \<and>
     (\<exists>zs. maybeFreeKrefs s' = maybeFreeKrefs s @ zs \<and> (\<forall>z\<in>set zs. live z s)) \<and>
     (distinct (maybeFreeKrefs s) \<longrightarrow> distinct (maybeFreeKrefs s'))"

lemma grows_refl [simp]: "grows s s"
  by (simp add: grows_def)

lemma grows_trans: "grows s t \<Longrightarrow> grows t u \<Longrightarrow> grows s u"
  unfolding grows_def by (elim conjE exE) (auto intro!: exI)

lemma decrementRefCount_grows:
  assumes r: "decrementRefCount k x w s = (r, s')"
  shows "grows s s'"
proof -
  have lv: "live j s' = live j s" for j using r by (rule live_sameD [OF live_same_decrement])
  have "maybeFreeKrefs s' = maybeFreeKrefs s \<or> (maybeFreeKrefs s' = set_add k (maybeFreeKrefs s) \<and> live k s)"
  proof (cases "kernelRefExists k s")
    case True
    then have "live k s" by (rule kernelRefExists_live)
    moreover have "maybeFreeKrefs s' = maybeFreeKrefs s \<or> maybeFreeKrefs s' = set_add k (maybeFreeKrefs s)"
      using r
      by (auto simp: decrementRefCount_def bnd_run thn_run addMaybeFree_def setObjectRefCount_def getObjectRefCount_def Let_def
          split: if_splits option.splits sum.splits prod.splits)
    ultimately show ?thesis by blast
  next
    case False
    then have "getRefCount k s = None \<or> getRefCount k s = Some 0"
      by (auto simp: kernelRefExists_def getRefCount_def Number_def split: option.splits)
    with False r show ?thesis
      by (auto simp: decrementRefCount_def bnd_run thn_run split: option.splits sum.splits if_splits)
  qed
  then show ?thesis
    using lv by (auto simp: grows_def set_add_def intro: exI [of _ "[]"])
qed

lemma forEach_decrement_grows:
  "forEach ks decrement s = (r, s') \<Longrightarrow> grows s s'"
proof (induction ks arbitrary: s)
  case Nil
  then show ?case by simp
next
  case (Cons k ks)
  obtain q t where q: "decrementRefCount k False False s = (q, t)" by fastforce
  show ?case
  proof (cases q)
    case (Inl e)
    then have "decrement k s = (Inl e, t)" using q by simp
    then show ?thesis using Cons.prems decrementRefCount_grows [OF q] by (simp del: ret_run)
  next
    case (Inr b)
    then have "decrement k s = (Inr (), t)" using q by simp
    then have "forEach ks decrement t = (r, s')" using Cons.prems by (simp del: ret_run)
    then show ?thesis using grows_trans [OF decrementRefCount_grows [OF q] Cons.IH] by blast
  qed
qed

lemma forEach_decrement_exact: "total (exact (refs ks + C)) (forEach ks decrement) (\<lambda>_. exact C)"
proof -
  have one: "total (exact (refs (k # ks) + C)) (decrement k) (\<lambda>_. exact (refs ks + C))" for k ks
  proof (rule hoare_thn)
    show "total (exact (refs (k # ks) + C)) (decrementRefCount k False False) (\<lambda>_. exact (refs ks + C))"
      by (rule hoare_pre [OF decrementRefCount_exact [of k False False "refs ks + C"]]) (simp_all add: refs_def)
  qed (simp add: hoare_def)
  have "total (exact (refs ks + C)) (forEach ks decrement) (\<lambda>_. exact (refs [] + C))"
    by (rule hoare_forEach_list) (rule one)
  then show ?thesis by (simp add: refs_def)
qed

section \<open>A visit\<close>

text \<open>What the collector deletes: a promise nobody names, an object no one reaches and no living endpoint owns.\<close>

definition doomed :: "string \<Rightarrow> ctx \<Rightarrow> bool" where
  "doomed k s \<longleftrightarrow>
     (if isPromiseRef k then recog k (credits s) = 0
      else reach k (credits s) = 0 \<and>
        (case tget (owners (db s)) k of None \<Rightarrow> True
         | Some ep \<Rightarrow> ep \<noteq> ''kernel'' \<and> (\<not> hasCListEntry ep k s \<or> isVatId ep \<and> isVatTerminated ep s)))"

text \<open>What it tells a living owner: to drop an object no one reaches, to retire one no one recognizes.\<close>

definition tells :: "string \<Rightarrow> gc_action_type \<Rightarrow> string \<Rightarrow> ctx \<Rightarrow> bool" where
  "tells ep t k s \<longleftrightarrow> \<not> isPromiseRef k \<and> reach k (credits s) = 0 \<and> tget (owners (db s)) k = Some ep \<and> ep \<noteq> ''kernel'' \<and>
     \<not> (isVatId ep \<and> isVatTerminated ep s) \<and>
     (\<exists>b v. entry ep k b v s \<and> (t = DropExport \<and> b \<or> t = RetireExport \<and> recog k (credits s) = 0))"

text \<open>What the visit of one kref leaves of the others.\<close>

definition apart :: "string \<Rightarrow> ctx \<Rightarrow> ctx \<Rightarrow> bool" where
  "apart k s s' \<longleftrightarrow> credits s' \<subseteq># credits s \<and> getTerminatedVats s' = getTerminatedVats s \<and>
     (\<forall>j. j \<noteq> k \<longrightarrow> live j s' = live j s \<and> tget (owners (db s')) j = tget (owners (db s)) j) \<and>
     (\<forall>e j. isKRef j \<and> j \<noteq> k \<longrightarrow> tget (clists (db s')) (e, j) = tget (clists (db s)) (e, j))"

lemma reach_mono: "M \<subseteq># N \<Longrightarrow> reach k M \<le> reach k N"
  by (auto simp: subset_mset.le_iff_add)

lemma recog_mono: "M \<subseteq># N \<Longrightarrow> recog k M \<le> recog k N"
  by (auto simp: subset_mset.le_iff_add)

lemma doomed_apart:
  assumes "apart j s s'" and "j \<noteq> k" and "isKRef k" and "doomed k s"
  shows "doomed k s'"
proof -
  have "reach k (credits s') \<le> reach k (credits s)" "recog k (credits s') \<le> recog k (credits s)"
    using assms(1) by (simp_all add: apart_def reach_mono recog_mono)
  moreover have "tget (owners (db s')) k = tget (owners (db s)) k"
    "\<And>e. hasCListEntry e k s' = hasCListEntry e k s" "\<And>e. isVatTerminated e s' = isVatTerminated e s"
    using assms(1-3) by (auto simp: apart_def hasCListEntry_def has_def isVatTerminated_def)
  ultimately show ?thesis using assms(4) by (auto simp: doomed_def split: if_splits option.splits)
qed

lemma tells_apart:
  assumes "apart j s s'" and "j \<noteq> k" and "isKRef k" and "tells ep t k s"
  shows "tells ep t k s'"
proof -
  have "reach k (credits s') \<le> reach k (credits s)" "recog k (credits s') \<le> recog k (credits s)"
    using assms(1) by (simp_all add: apart_def reach_mono recog_mono)
  moreover have "tget (owners (db s')) k = tget (owners (db s)) k" "\<And>b v. entry ep k b v s' = entry ep k b v s"
    "isVatTerminated ep s' = isVatTerminated ep s"
    using assms(1-3) by (auto simp: apart_def entry_def isVatTerminated_def)
  ultimately show ?thesis using assms(4) by (auto simp: tells_def)
qed

text \<open>Actions for living owners do not retire imports.\<close>

definition telling :: "string list \<Rightarrow> bool" where
  "telling acts \<longleftrightarrow> (\<forall>a\<in>set acts. \<exists>e t k. isEndpointId e \<and> t \<noteq> RetireImport \<and> a = gc_action e t k)"

definition visits :: "string \<Rightarrow> ctx \<Rightarrow> string list \<Rightarrow> ctx \<Rightarrow> bool" where
  "visits k s acts s' \<longleftrightarrow> gc_inv s' \<and> grows s s' \<and> apart k s s' \<and> telling acts \<and> (doomed k s \<longrightarrow> \<not> live k s') \<and>
     (\<forall>ep t. tells ep t k s \<longrightarrow> gc_action ep t k \<in> set acts)"

lemma gc_inv_flags:
  assumes inv: "gc_inv s" and wf: "clist_wf s'" and x: "acct {#} s'" and p: "promise_wf s'"
    and c: "\<And>e r. has (clists (db s')) (e, r) \<Longrightarrow> has (clists (db s)) (e, r)"
    and o: "\<And>k ep. tget (owners (db s')) k = Some ep \<Longrightarrow> tget (owners (db s)) k = Some ep"
    and e: "\<And>ep k b v. entry ep k b v s' \<Longrightarrow> \<exists>c. entry ep k c v s"
    and v: "getVatIDs s' = getVatIDs s" "getTerminatedVats s' = getTerminatedVats s" "getRemoteIDs s' = getRemoteIDs s"
    and l: "\<And>k. live k s' \<Longrightarrow> live k s"
    and r: "\<And>ep k. isEndpointId ep \<Longrightarrow> retiring (gc_action_list s') ep k \<Longrightarrow>
        retiring (gc_action_list s) ep k \<or> \<not> isPromiseRef k \<and> \<not> live k s'"
    and q: "\<And>k. live k s' \<Longrightarrow> isPromiseRef k \<Longrightarrow> has (pstates (db s)) k \<Longrightarrow> has (pstates (db s')) k"
  shows "gc_inv s'"
  unfolding gc_inv_def
proof (intro conjI allI impI)
  show "endpoints_known s'" using inv c unfolding gc_inv_def endpoints_known_def v by blast
  show "owners_ok s'" unfolding owners_ok_def
  proof (intro allI impI)
    fix k ep assume "tget (owners (db s')) k = Some ep"
    then have "ep = ''kernel'' \<or> isEndpointId ep \<and> (\<forall>b v. entry ep k b v s \<longrightarrow> eref_exports v)"
      using inv o unfolding gc_inv_def owners_ok_def by blast
    then show "ep = ''kernel'' \<or> isEndpointId ep \<and> (\<forall>b v. entry ep k b v s' \<longrightarrow> eref_exports v)" using e by blast
  qed
  show "has (pstates (db s')) k" if "live k s' \<and> isPromiseRef k" for k
    using inv that q [of k] l [of k] unfolding gc_inv_def by blast
  fix ep k assume h: "isEndpointId ep \<and> retiring (gc_action_list s') ep k"
  then have "\<not> isPromiseRef k \<and> \<not> live k s \<or> \<not> isPromiseRef k \<and> \<not> live k s'"
    using inv r [of ep k] unfolding gc_inv_def by blast
  then show "\<not> isPromiseRef k" "\<not> live k s'" using l [of k] by blast+
qed (use wf x p in blast)+

text \<open>Where no entry changes its flag:\<close>

lemma gc_inv_step:
  assumes inv: "gc_inv s" and wf: "clist_wf s'" and x: "acct {#} s'" and p: "promise_wf s'"
    and c: "\<And>e r. has (clists (db s')) (e, r) \<Longrightarrow> has (clists (db s)) (e, r)"
    and o: "\<And>k ep. tget (owners (db s')) k = Some ep \<Longrightarrow> tget (owners (db s)) k = Some ep"
    and e: "\<And>ep k b v. entry ep k b v s' \<Longrightarrow> entry ep k b v s"
    and v: "getVatIDs s' = getVatIDs s" "getTerminatedVats s' = getTerminatedVats s" "getRemoteIDs s' = getRemoteIDs s"
    and l: "\<And>k. live k s' \<Longrightarrow> live k s"
    and r: "\<And>ep k. isEndpointId ep \<Longrightarrow> retiring (gc_action_list s') ep k \<Longrightarrow>
        retiring (gc_action_list s) ep k \<or> \<not> isPromiseRef k \<and> \<not> live k s'"
    and q: "\<And>k. live k s' \<Longrightarrow> isPromiseRef k \<Longrightarrow> has (pstates (db s)) k \<Longrightarrow> has (pstates (db s')) k"
  shows "gc_inv s'"
proof (rule gc_inv_flags [OF inv wf x p c o _ v l r q])
  show "\<exists>c. entry ep k c v s" if "entry ep k b v s'" for ep k b v using e [OF that] by blast
qed


lemma decrements_run:
  assumes x: "exact (refs ks + C) s"
  shows "\<exists>s'. forEach ks decrement s = (Inr (), s') \<and> exact C s' \<and> same_but_counts s s' \<and> grows s s' \<and>
    (\<forall>j. live j s' = live j s)"
proof -
  obtain s' where run: "forEach ks decrement s = (Inr (), s')" and x': "exact C s'"
    using totalD [OF forEach_decrement_exact x] by auto
  have "counts_only (forEach ks decrement)" by (intro counts_only_forEach counts_only_thn) simp_all
  then have "same_but_counts s s'" using run by (rule counts_onlyD)
  moreover have "grows s s'" using run by (rule forEach_decrement_grows)
  moreover have "live_same (forEach ks decrement)"
    by (induction ks) (simp_all add: live_same_basic live_same_thn live_same_decrement del: ret_run)
  then have "live j s' = live j s" for j using run by (rule live_sameD)
  ultimately show ?thesis using run x' by blast
qed

lemma credits_unsettled:
  assumes "unsettled k s"
  shows "0 < recog k (credits s)"
proof -
  have "promise_credit (pvalues (db s)) k Unresolved = {#(k, False)#}"
    using assms by (simp add: unsettled_def promise_credit_def)
  then have "tsum (promise_credit (pvalues (db s))) (tdel k (pstates (db s))) + {#(k, False)#} =
      tsum (promise_credit (pvalues (db s))) (pstates (db s))"
    using assms tsum_tdel_old [of "pstates (db s)" k Unresolved "promise_credit (pvalues (db s))"]
    by (simp add: unsettled_def)
  then have "(k, False) \<in># tsum (promise_credit (pvalues (db s))) (pstates (db s))"
    by (metis union_single_eq_member add.commute add_mset_add_single union_iff)
  then have "(k, False) \<in># credits s" by (simp add: credits_def)
  then show ?thesis by (auto simp: recog_def)
qed

lemma visit_keep:
  assumes "gc_inv s" and "\<not> doomed k s" and "\<And>ep t. \<not> tells ep t k s"
  shows "visits k s [] s"
  using assms by (simp add: visits_def apart_def telling_def)

lemma collect_promise_visits:
  assumes inv: "gc_inv s" and k: "isKRef k" "isPromiseRef k" and lv: "live k s"
  shows "\<exists>s'. collect_promise k s = (Inr [], s') \<and> visits k s [] s' \<and> owners (db s') = owners (db s) \<and>
    (\<forall>st v. doomed k s \<and> settled k st v s \<longrightarrow> credits s' + refs (slots v) = credits s)"
proof -
  have a: "acct {#} s" and wf: "promise_wf s" and ps: "has (pstates (db s)) k"
    using inv k lv by (simp_all add: gc_inv_def)
  have x: "exact (credits s) s" using a by (simp add: acct_def)
  have rc: "getRefCount k s = Some (int (reach k (credits s)))"
    using exact_row [OF x lv] getRefCount_text [of s k] k by simp
  have rr: "reach k (credits s) = recog k (credits s)" using k by (simp add: reach_def recog_def)
  have nt: "\<not> tells ep t k s" for ep t using k by (simp add: tells_def)
  obtain p where gp: "getKernelPromise k s = (Inr p, s)" using getKernelPromise_known [OF wf k(1) ps] by blast
  show ?thesis
  proof (cases "recog k (credits s) = 0")
    case False
    then have "collect_promise k s = (Inr [], s)" using rc gp rr by (simp add: collect_promise_def)
    moreover have "\<not> doomed k s" using k False by (simp add: doomed_def)
    ultimately show ?thesis using visit_keep [OF inv _ nt] by blast
  next
    case True
    then have "\<not> unsettled k s" using credits_unsettled by force
    then obtain st v where st: "settled k st v s"
      using wf k(1) ps isKRef_not_run [OF k(1)] unfolding promise_wf_def by (auto simp: bare_def)
    obtain f0 where c0: "credits (db_update f0 s) + refs (slots v) = credits s"
      using deleteKernelPromise_rows [OF st] by blast
    define C where "C = credits (db_update f0 s)"
    have C: "C + refs (slots v) = credits s" using c0 by (simp add: C_def)
    then have "exact (refs (slots v) + C) s" using x by (simp add: add.commute)
    then obtain s1 where s1: "forEach (slots v) decrement s = (Inr (), s1)" and x1: "exact C s1"
      and f1: "same_but_counts s s1" and g1: "grows s s1" and l1: "\<And>j. live j s1 = live j s"
      using decrements_run by blast
    have st1: "settled k st v s1" using st same_but_counts_promises(2) [OF f1] by simp
    obtain f where d: "deleteKernelPromise k s1 = (Inr (), db_update f s1)"
      and c1: "credits (db_update f s1) + refs (slots v) = credits s1"
      and rc1: "refCounts (f (db s1)) = tdel k (refCounts (db s1))"
      and b1: "bare k (db_update f s1)" and o1: "other_promises_same k s1 (db_update f s1)"
      and cl: "clists (f (db s1)) = clists (db s1)" and ow: "owners (f (db s1)) = owners (db s1)"
      and vc: "vatConfigs (f (db s1)) = vatConfigs (db s1)" "remoteInfos (f (db s1)) = remoteInfos (db s1)"
      using deleteKernelPromise_rows [OF st1] by blast
    let ?s2 = "db_update f s1"
    have kp: "getKernelPromise k s = (Inr \<lparr>kp_state = st, kp_decider = None, kp_subscribers = None, kp_value = Some v\<rparr>, s)"
      using st by (rule getKernelPromise_settled)
    have "st = Fulfilled \<or> st = Rejected" using st by (cases st) (simp_all add: settled_def)
    then have run: "collect_promise k s = (Inr [], ?s2)"
      using kp rc rr True s1 d by (simp add: collect_promise_def thn_run del: ret_run) (simp add: thn_run)
    have c2: "credits ?s2 = C" using c1 C same_but_counts_credits [OF f1] by (metis add_right_cancel)
    have rk: "recog k C = 0" using True arg_cong [OF C, of "recog k"] by simp
    have "row_exact C ?s2 j" for j
    proof -
      have "row_exact C s1 j" using x1 by (simp add: exact_def)
      then show ?thesis using rk by (cases "j = k") (auto simp: row_exact_def rc1 split: if_splits)
    qed
    then have a2: "acct {#} ?s2" by (simp add: acct_def exact_def c2)
    have l2: "live j ?s2 \<longleftrightarrow> live j s \<and> j \<noteq> k" for j using l1 [of j] by (auto simp: live_def rc1)
    note frame = same_but_counts_rows [OF f1] same_but_counts_clists [OF f1]
    have rows: "clists (db s1) = clists (db s)" "owners (db s1) = owners (db s)" "vatConfigs (db s1) = vatConfigs (db s)"
      "remoteInfos (db s1) = remoteInfos (db s)" "cache s1 = cache s"
      by (rule same_but_countsD [OF f1], simp add: without_counts_def)+
    have inv2: "gc_inv ?s2"
    proof (rule gc_inv_step [OF inv])
      show "clist_wf ?s2" using inv clist_wf_cong [of ?s2 s] by (simp add: gc_inv_def cl rows)
      show "promise_wf ?s2" using promise_wf_other [OF _ o1] wf same_but_counts_promises(3) [OF f1] b1 by blast
      show "entry ep j b w s" if "entry ep j b w ?s2" for ep j b w
        using that entry_cong [of ?s2 s] by (simp add: cl rows)
      show "has (pstates (db ?s2)) j" if "live j ?s2" "has (pstates (db s)) j" for j
        using that o1 l2 [of j] same_but_counts_rows [OF f1] by (simp add: other_promises_same_def has_def)
    qed (use a2 l2 in \<open>simp_all add: cl ow vc rows getVatIDs_def getTerminatedVats_def getRemoteIDs_def gc_action_list_def\<close>)
    have "grows s1 ?s2" using l2 l1 by (auto simp: grows_def)
    then have "grows s ?s2" by (rule grows_trans [OF g1])
    moreover have "apart k s ?s2"
    proof -
      have "C \<subseteq># credits s" unfolding C [symmetric] by simp
      moreover have "getTerminatedVats ?s2 = getTerminatedVats s" by (simp add: getTerminatedVats_def rows)
      ultimately show ?thesis using l2 by (simp add: apart_def c2 rows cl ow)
    qed
    ultimately have "visits k s [] ?s2" using inv2 l2 [of k] nt by (simp add: visits_def telling_def)
    moreover have "w = v" if "settled k st' w s" for st' w using that st by (simp add: settled_def)
    ultimately show ?thesis using run C by (auto simp: c2 ow rows)
  qed
qed

section \<open>Deleting an object\<close>

definition gone :: "string \<Rightarrow> ctx \<Rightarrow> ctx" where
  "gone k s = db_update (\<lambda>d. d\<lparr>owners := tdel k (owners d), refCounts := tdel k (refCounts d), revokeds := tdel k (revokeds d)\<rparr>) s"

lemma gone_frame [simp]:
  "credits (gone k s) = credits s" "clists (db (gone k s)) = clists (db s)" "gc_action_list (gone k s) = gc_action_list s"
  "maybeFreeKrefs (gone k s) = maybeFreeKrefs s" "getTerminatedVats (gone k s) = getTerminatedVats s"
  "live j (gone k s) \<longleftrightarrow> j \<noteq> k \<and> live j s" "tget (owners (db (gone k s))) j = (if j = k then None else tget (owners (db s)) j)"
  "entry ep j b v (gone k s) = entry ep j b v s" "clist_wf (gone k s) = clist_wf s"
  "promise_rows (gone k s) = promise_rows s" "pstates (db (gone k s)) = pstates (db s)"
  "getVatIDs (gone k s) = getVatIDs s" "getRemoteIDs (gone k s) = getRemoteIDs s" "promise_wf (gone k s) = promise_wf s"
  "hasCListEntry ep j (gone k s) = hasCListEntry ep j s"
  by (simp_all add: gone_def credits_def gc_action_list_def getTerminatedVats_def live_def entry_def clist_wf_def
      promise_rows_def getVatIDs_def getRemoteIDs_def hasCListEntry_def promise_wf_rows
      promise_rows_cong(2) [of "gone k s" s, unfolded gone_def])

lemma deleteKernelObject_run: "deleteKernelObject k s = (Inr (), gone k s)"
  by (simp add: deleteKernelObject_def gone_def)

lemma exact_gone_object:
  assumes "exact C s" and "\<And>j. j \<noteq> k \<Longrightarrow> reach j D = reach j C \<and> recog j D = recog j C" and "recog k D = 0"
  shows "exact D (gone k s)"
  unfolding exact_def
proof
  fix j
  have "row_exact C s j" using assms(1) by (simp add: exact_def)
  with assms(2) [of j] assms(3) show "row_exact D (gone k s) j"
    by (cases "j = k") (auto simp: row_exact_def gone_def split: if_splits)
qed

section \<open>Importers\<close>

definition importing :: "string \<Rightarrow> ctx \<Rightarrow> string \<Rightarrow> bool" where
  "importing k s ep \<longleftrightarrow> (\<exists>b v. entry ep k b v s \<and> \<not> eref_exports v)"

lemma filterEach_run:
  "(\<And>x. x \<in> set xs \<Longrightarrow> p x s = (Inr (q x), s)) \<Longrightarrow> filterEach p xs s = (Inr (filter q xs), s)"
  by (induction xs) simp_all

lemma importsKernelSlot_run:
  assumes wf: "clist_wf s" and k: "isKRef k"
  shows "importsKernelSlot ep k s = (Inr (importing k s ep), s)"
proof (cases "tget (clists (db s)) (ep, k)")
  case None
  then have "\<not> importing k s ep" by (auto simp: importing_def entry_def)
  with None show ?thesis by (simp add: importsKernelSlot_def)
next
  case (Some t)
  then obtain b v where e: "entry ep k b v s" using clist_wfD_kref [OF wf _ k] by blast
  then have "isERef v" by (simp add: entry_def)
  then obtain p where p: "parseRef v = Inr p" "rdirection p = Some (if eref_exports v then Export else Import)"
    by (rule eref_direction)
  have "importing k s ep \<longleftrightarrow> \<not> eref_exports v" unfolding importing_def using e by (blast dest: entry_unique [OF e])
  with e p show ?thesis by (simp add: importsKernelSlot_def entry_def)
qed

lemma getImporters_run:
  assumes "clist_wf s" and "isKRef k" and "endpoints_known s"
  shows "\<exists>eps. getImporters k s = (Inr eps, s) \<and> set eps = {ep. importing k s ep}"
proof -
  let ?all = "foldl (\<lambda>a x. set_add x a) [] (getVatIDs s @ getTerminatedVats s @ getRemoteIDs s)"
  have "filterEach (\<lambda>ep. importsKernelSlot ep k) ?all s = (Inr (filter (importing k s) ?all), s)"
    by (rule filterEach_run) (rule importsKernelSlot_run [OF assms(1,2)])
  then have run: "getImporters k s = (Inr (sort_strings (filter (importing k s) ?all)), s)"
    by (simp add: getImporters_def del: foldl_append)
  have "ep \<in> set ?all" if "importing k s ep" for ep
  proof -
    obtain b v where "entry ep k b v s" using \<open>importing k s ep\<close> by (auto simp: importing_def)
    then have "has (clists (db s)) (ep, k)" by (simp add: entry_def has_def)
    then show ?thesis using assms(3) unfolding endpoints_known_def by (auto simp del: foldl_append)
  qed
  then have "set (sort_strings (filter (importing k s) ?all)) = {ep. importing k s ep}" by auto
  with run show ?thesis by blast
qed

lemma mapEach_ret:
  "(\<And>x. x \<in> set xs \<Longrightarrow> f x s = (Inr (g x), s)) \<Longrightarrow> mapEach f xs s = (Inr (map g xs), s)"
  by (induction xs) simp_all

lemma makeGCAction_run: "isKRef k \<Longrightarrow> \<not> isPromiseRef k \<Longrightarrow> makeGCAction ep t k s = (Inr (gc_action ep t k), s)"
  by (auto elim!: isKRefE simp: makeGCAction_def starts_with_def isPromiseRef_def char_at_def)

text \<open>Once all importers of an unreachable object are queued for retirement, nothing is owed to it.\<close>

lemma filter_tsum:
  fixes f :: "'k::linorder \<Rightarrow> 'v \<Rightarrow> 'b multiset"
  shows "filter_mset P (tsum f t) = tsum (\<lambda>k v. filter_mset P (f k v)) t"
proof -
  have "filter_mset P (sum_list ms) = sum_list (map (filter_mset P) ms)" for ms :: "'b multiset list"
    by (induction ms) simp_all
  then show ?thesis by (simp add: tsum_def comp_def)
qed

lemma filter_all: "(\<And>u. u \<in># M \<Longrightarrow> P u) \<Longrightarrow> filter_mset P M = M"
  by (simp add: filter_mset_eq_conv)

lemma in_sum_list: "u \<in># sum_list ms \<longleftrightarrow> (\<exists>m\<in>set ms. u \<in># m)"
  by (induction ms) auto

lemma in_tsumE:
  fixes f :: "'k::linorder \<Rightarrow> 'v \<Rightarrow> 'b multiset"
  assumes "u \<in># tsum f t"
  obtains a b where "tget t a = Some b" and "u \<in># f a b"
  using assms by (auto simp: tsum_def in_sum_list tlist_tget)

lemma strong_refs: "u \<in># refs ks \<Longrightarrow> \<not> snd u"
  by (auto simp: refs_def)

text \<open>Only c-list entries recognize without reaching.\<close>

lemma rest_strong:
  assumes "u \<in># tsum queue_credit q + tsum (promise_credit vs) p + buffer_credit b + tsum pin_credit n"
  shows "\<not> snd u"
proof -
  have "\<not> snd u" if "u \<in># tsum queue_credit q"
    using that by (elim in_tsumE) (auto simp: queue_credit_def strong_refs split: if_splits queue_entry.splits)
  moreover have "\<not> snd u" if "u \<in># tsum (promise_credit vs) p"
    using that by (elim in_tsumE) (auto simp: promise_credit_def strong_refs split: if_splits)
  moreover have "\<not> snd u" if "u \<in># buffer_credit b"
    using that unfolding buffer_credit_def by (rule strong_refs)
  moreover have "\<not> snd u" if "u \<in># tsum pin_credit n"
    using that by (elim in_tsumE) (auto simp: pin_credit_def split: if_splits)
  ultimately show ?thesis using assms by auto
qed

lemma credits_retired:
  assumes wf: "clist_wf s" and np: "\<not> isPromiseRef k" and z: "reach k (credits s) = 0"
    and r: "\<And>e j. isEndpointId e \<Longrightarrow> retiring acts e j \<longleftrightarrow> retiring (gc_action_list s) e j \<or> j = k \<and> importing k s e"
  shows "credits (with_actions acts s) = filter_mset (\<lambda>u. fst u \<noteq> k) (credits s)"
proof -
  let ?P = "\<lambda>u. fst u \<noteq> k"
  let ?cl = "\<lambda>a. tsum (clist_credit a) (clists (db s))"
  let ?rest = "tsum queue_credit (qentries (db s)) + tsum (promise_credit (pvalues (db s))) (pstates (db s)) +
     buffer_credit (crankBuffer s) + tsum pin_credit (pinned (db s))"
  have split: "credits (with_actions a s) = ?cl a + ?rest" for a
    by (simp add: credits_def ac_simps) (simp add: with_actions_def ac_simps)
  have split': "credits s = ?cl (gc_action_list s) + ?rest" by (simp add: credits_def ac_simps)
  have strong: "u \<in># ?rest \<Longrightarrow> fst u \<noteq> k" for u
  proof
    assume u: "u \<in># ?rest" and "fst u = k"
    then have "u = (k, False)" using rest_strong by (cases u) fastforce
    with u have "(k, False) \<in># credits s" by (simp add: split')
    then show False using z np by (simp add: reach_def count_eq_zero_iff)
  qed
  have fr: "filter_mset ?P ?rest = ?rest" by (rule filter_all) (rule strong)
  have "?cl acts = filter_mset ?P (?cl (gc_action_list s))"
    unfolding filter_tsum
  proof (rule tsum_cong)
    fix q t assume q: "tget (clists (db s)) q = Some t"
    show "clist_credit acts q t = filter_mset ?P (clist_credit (gc_action_list s) q t)"
    proof (cases "isKRef (snd q)")
      case False
      then show ?thesis by (simp add: clist_credit_def Let_def)
    next
      case True
      then obtain b v where e: "entry (fst q) (snd q) b v s" using clist_wfD_kref [OF wf, of "fst q" "snd q"] q by auto
      then have p: "isEndpointId (fst q)" "isKRef (snd q)" "isERef v" and t: "t = buildReachableAndVatSlot b v"
        using q by (simp_all add: entry_def)
      have cc: "clist_credit (gc_action_list s') q t = entry_credit s' (fst q) (snd q) b v" for s'
        using clist_credit_build [OF p, of s' b] by (simp add: t)
      have imp: "importing k s (fst q) \<longleftrightarrow> \<not> eref_exports v" if "snd q = k"
        unfolding importing_def using e that by (blast dest: entry_unique [OF e])
      show ?thesis
        using cc [of s] cc [of "with_actions acts s"] r [OF p(1), of "snd q"] imp np
        by (cases "snd q = k") (auto simp: entry_credit_def)
    qed
  qed
  with fr show ?thesis unfolding split split' by simp
qed

section \<open>Orphans\<close>

lemma gc_inv_gone:
  assumes inv: "gc_inv s" and k: "isKRef k" "\<not> isPromiseRef k" and a: "acct {#} (with_actions acts (gone k s))"
    and r: "\<And>e j. isEndpointId e \<Longrightarrow> retiring acts e j \<Longrightarrow> retiring (gc_action_list s) e j \<or> j = k"
  shows "gc_inv (with_actions acts (gone k s))"
proof (rule gc_inv_step [OF inv])
  show "promise_wf (with_actions acts (gone k s))"
    using inv promise_rows_cong(2) [of "with_actions acts (gone k s)" s] by (simp add: gc_inv_def)
  show "retiring (gc_action_list s) ep j \<or> \<not> isPromiseRef j \<and> \<not> live j (with_actions acts (gone k s))"
    if "isEndpointId ep" "retiring (gc_action_list (with_actions acts (gone k s))) ep j" for ep j
    using r [OF that(1), of j] that k by auto
qed (use inv a in \<open>simp_all add: gc_inv_def split: if_splits\<close>)

lemma with_actions_same: "gcActions (cache s) = Some acts \<Longrightarrow> gcActions (cachedRows (db s)) = Some acts \<Longrightarrow> with_actions acts s = s"
  by (simp add: with_actions_def)

text \<open>An object no one reaches whose owner row is dealt with: gone, its importers told.\<close>

lemma collect_orphan_run:
  assumes inv: "gc_inv s" and k: "isKRef k" "\<not> isPromiseRef k" and z: "reach k (credits s) = 0"
    and rc: "recognizable = int (recog k (credits s)) \<or> \<not> live k s \<and> recognizable = 0"
  shows "\<exists>s'. collect_orphan k recognizable s = (Inr (), s') \<and> gc_inv s' \<and> \<not> live k s' \<and>
    (\<forall>j. j \<noteq> k \<longrightarrow> live j s' = live j s \<and> tget (owners (db s')) j = tget (owners (db s)) j) \<and>
    clists (db s') = clists (db s) \<and> maybeFreeKrefs s' = maybeFreeKrefs s \<and> credits s' \<subseteq># credits s \<and>
    getTerminatedVats s' = getTerminatedVats s"
proof -
  have a: "acct {#} s" and x: "exact (credits s) s" and wf: "clist_wf s" and ek: "endpoints_known s"
    using inv by (simp_all add: gc_inv_def acct_def)
  show ?thesis
  proof (cases "recognizable = 0")
    case True
    have rk: "recog k (credits s) = 0" using rc True acct_gone [OF a] by auto
    have "exact (credits s) (gone k s)" by (rule exact_gone_object [OF x]) (simp_all add: rk)
    then have a': "acct {#} (gone k s)" by (simp add: acct_def)
    have "gc_inv (gone k s)"
      by (rule gc_inv_step [OF inv]) (use inv a' in \<open>simp_all add: gc_inv_def split: if_splits\<close>)
    then show ?thesis using True by (simp add: collect_orphan_def deleteKernelObject_run)
  next
    case False
    obtain eps where imps: "getImporters k s = (Inr eps, s)" and eps: "set eps = {ep. importing k s ep}"
      using getImporters_run [OF wf k(1) ek] by blast
    let ?new = "map (\<lambda>ep. gc_action ep RetireImport k) eps"
    obtain acts where add: "addGCActions ?new (gone k s) = (Inr (), with_actions acts (gone k s))"
      and acts: "set acts = set (gc_action_list s) \<union> set ?new"
      using addGCActions_run [of ?new "gone k s"] by auto
    let ?s' = "with_actions acts (gone k s)"
    have "mapEach (\<lambda>ep. makeGCAction ep RetireImport k) eps s = (Inr ?new, s)"
      by (rule mapEach_ret) (rule makeGCAction_run [OF k])
    then have "retire_one k s = (Inr ?new, gone k s)"
      using imps by (simp add: retire_one_def deleteKernelObject_run)
    then have "retireKernelObjects [k] s = (Inr (), ?s')" using add by (simp add: retireKernelObjects_def)
    then have run: "collect_orphan k recognizable s = (Inr (), ?s')" using False by (simp add: collect_orphan_def)
    have ep: "importing k s ep \<Longrightarrow> isEndpointId ep" for ep by (auto simp: importing_def entry_def)
    have r: "retiring acts e j \<longleftrightarrow> retiring (gc_action_list s) e j \<or> j = k \<and> importing k s e" if "isEndpointId e" for e j
      using that ep gc_action_inj by (auto simp: retiring_action acts eps)
    have c: "credits ?s' = filter_mset (\<lambda>u. fst u \<noteq> k) (credits s)"
      using credits_retired [of "gone k s" k acts] wf k(2) z r by (simp add: importing_def)
    have "exact (credits ?s') (gone k s)"
      by (rule exact_gone_object [OF x]) (simp_all add: c reach_def recog_def)
    then have "acct {#} ?s'" by (simp add: acct_def)
    then have "gc_inv ?s'" using gc_inv_gone [OF inv k] r by blast
    moreover have "credits ?s' \<subseteq># credits s" unfolding c by (rule multiset_filter_subset)
    ultimately show ?thesis using run by simp
  qed
qed

section \<open>Visiting an object\<close>

lemma orphan_visits:
  assumes inv: "gc_inv s1" and k: "isKRef k" "\<not> isPromiseRef k" and z: "reach k (credits s) = 0"
    and c: "credits s1 = credits s" and l: "\<And>j. live j s1 = live j s" and m: "maybeFreeKrefs s1 = maybeFreeKrefs s"
    and t: "getTerminatedVats s1 = getTerminatedVats s"
    and o: "\<And>j. j \<noteq> k \<Longrightarrow> tget (owners (db s1)) j = tget (owners (db s)) j"
    and cl: "\<And>e j. isKRef j \<Longrightarrow> j \<noteq> k \<Longrightarrow> tget (clists (db s1)) (e, j) = tget (clists (db s)) (e, j)"
    and nt: "\<And>ep t. \<not> tells ep t k s"
  shows "\<exists>s'. collect_orphan k (int (recog k (credits s))) s1 = (Inr (), s') \<and> visits k s [] s'"
proof -
  have z1: "reach k (credits s1) = 0" using z c by simp
  have "int (recog k (credits s)) = int (recog k (credits s1))" by (simp add: c)
  then obtain s' where run: "collect_orphan k (int (recog k (credits s))) s1 = (Inr (), s')" and i: "gc_inv s'"
    and g: "\<not> live k s'" and o': "\<forall>j. j \<noteq> k \<longrightarrow> live j s' = live j s1 \<and> tget (owners (db s')) j = tget (owners (db s1)) j"
    and f: "clists (db s') = clists (db s1)" "maybeFreeKrefs s' = maybeFreeKrefs s1" "credits s' \<subseteq># credits s1"
    "getTerminatedVats s' = getTerminatedVats s1"
    using collect_orphan_run [OF inv k z1] by blast
  have "live j s' \<Longrightarrow> live j s" for j using o' g l by (cases "j = k") auto
  then have "grows s s'" by (simp add: grows_def f m)
  moreover have "apart k s s'" using o' o l cl c t f by (simp add: apart_def)
  ultimately have "visits k s [] s'" using i g nt by (simp add: visits_def telling_def)
  with run show ?thesis by blast
qed

lemma gc_inv_disown:
  assumes "gc_inv s"
  shows "gc_inv (db_update (owners_update (tdel k)) s)"
proof (rule gc_inv_step [OF assms])
  let ?t = "db_update (owners_update (tdel k)) s"
  have "credits ?t = credits s" by (simp add: credits_def)
  then show "acct {#} ?t" using assms by (simp add: gc_inv_def acct_def exact_def row_exact_def)
  show "clist_wf ?t" using assms clist_wf_cong [of ?t s] by (simp add: gc_inv_def)
  show "promise_wf ?t" using assms promise_rows_cong(2) [of ?t s] by (simp add: gc_inv_def promise_rows_def)
qed (simp_all add: live_def entry_def getVatIDs_def getRemoteIDs_def getTerminatedVats_def split: if_splits)

lemma gc_inv_drop_export:
  assumes inv: "gc_inv s" and e: "entry ep k b v s" and np: "\<not> isPromiseRef k" and x: "eref_exports v"
  shows "gc_inv (drop_entry ep k v s)" and "credits (drop_entry ep k v s) = credits s"
proof -
  let ?t = "drop_entry ep k v s"
  show c: "credits ?t = credits s" using credits_drop_entry [OF e] np x by (simp add: entry_credit_def)
  show "gc_inv ?t"
  proof (rule gc_inv_step [OF inv])
    show "acct {#} ?t" using inv by (simp add: gc_inv_def acct_def c)
    show "clist_wf ?t" using inv clist_wf_drop_entry [OF _ e] by (simp add: gc_inv_def)
    show "promise_wf ?t" using inv promise_rows_cong(2) [of ?t s] by (simp add: gc_inv_def promise_rows_def drop_entry_def)
    show "has (clists (db s)) (d, r)" if "has (clists (db ?t)) (d, r)" for d r using that by (simp add: has_drop_entry)
    show "entry d j c w s" if "entry d j c w ?t" for d j c w
      using that by (simp add: entry_def tget_drop_entry split: if_splits)
  qed (simp_all add: getVatIDs_def getRemoteIDs_def getTerminatedVats_def drop_entry_def live_def)
qed

lemma ctx_maybe_same: "g (maybeFreeKrefs s) = maybeFreeKrefs s \<Longrightarrow> maybeFreeKrefs_update g s = s"
  by simp

lemma getOwner_run:
  assumes "owners_ok s"
  shows "getOwner k s = (Inr (tget (owners (db s)) k), s)"
  using assms unfolding owners_ok_def
  by (auto simp: getOwner_def insistEndpointId_def thn_run split: option.splits)

lemma collect_object_visits:
  assumes inv: "gc_inv s" and k: "isKRef k" "\<not> isPromiseRef k" and m: "k \<in> set (maybeFreeKrefs s)"
  shows "\<exists>acts s'. collect_object k s = (Inr acts, s') \<and> visits k s acts s'"
proof -
  have a: "acct {#} s" and x: "exact (credits s) s" and wf: "clist_wf s" and oo: "owners_ok s"
    using inv by (simp_all add: gc_inv_def acct_def)
  let ?r = "int (reach k (credits s))" and ?c = "int (recog k (credits s))"
  have rc: "getObjectRefCount k s = (Inr (?r, ?c), s)"
  proof (cases "live k s")
    case True
    then show ?thesis using getObjectRefCount_exact [OF x _ k(2)] by blast
  next
    case False
    then have "recog k (credits s) = 0" using acct_gone [OF a, of k] by simp
    then show ?thesis using False reach_le_recog [of k "credits s"] getObjectRefCount_none [of s k]
      by (simp add: live_def has_def)
  qed
  note ow = getOwner_run [OF oo, of k]
  show ?thesis
  proof (cases "reach k (credits s) = 0")
    case False
    then have "collect_object k s = (Inr [], s)" using rc by (simp add: collect_object_def)
    then show ?thesis using visit_keep [OF inv] False k by (auto simp: doomed_def tells_def)
  next
    case z: True
    show ?thesis
    proof (cases "tget (owners (db s)) k")
      case None
      then have nt: "\<not> tells ep t k s" for ep t by (simp add: tells_def)
      obtain s' where "collect_orphan k ?c s = (Inr (), s')" "visits k s [] s'"
        using orphan_visits [OF inv k z refl refl refl refl refl refl nt] by blast
      then show ?thesis using rc z ow None by (simp add: collect_object_def)
    next
      case ep: (Some ep)
      show ?thesis
      proof (cases "ep = ''kernel''")
        case True
        then have "collect_object k s = (Inr [], s)" using rc z ow ep by (simp add: collect_object_def)
        then show ?thesis using visit_keep [OF inv] ep True k by (auto simp: doomed_def tells_def)
      next
        case nk: False
        then have id: "isEndpointId ep" and ex: "entry ep k b v s \<Longrightarrow> eref_exports v" for b v
          using oo ep unfolding owners_ok_def by blast+
        have ne: "ep \<noteq> []" using id by (auto simp: isEndpointId_def)
        let ?t = "db_update (owners_update (tdel k)) s"
        have ct: "credits ?t = credits s" by (simp add: credits_def)
        show ?thesis
        proof (cases "hasCListEntry ep k s")
          case False
          have nt: "\<not> tells e t k s" for e t using False ep by (auto simp: tells_def hasCListEntry_def entry_def has_def)
          have "set_add k (maybeFreeKrefs s) = maybeFreeKrefs s" using m by (simp add: set_add_def)
          then have s1: "orphanKernelObject k ep s = (Inr (), ?t)"
            using ow ep by (simp add: orphanKernelObject_def addMaybeFree_def ctx_maybe_same)
          obtain s' where "collect_orphan k ?c ?t = (Inr (), s')" "visits k s [] s'"
            using orphan_visits [OF gc_inv_disown [OF inv] k z ct _ _ _ _ _ nt]
            by (auto simp: live_def getTerminatedVats_def)
          then show ?thesis using rc z ow ep nk ne False s1 by (simp add: collect_object_def)
        next
          case has: True
          then obtain y where "tget (clists (db s)) (ep, k) = Some y" by (auto simp: hasCListEntry_def has_def)
          then obtain b v where e: "entry ep k b v s" using clist_wfD_kref [OF wf _ k(1)] by blast
          show ?thesis
          proof (cases "isVatId ep \<and> isVatTerminated ep s")
            case True
            have nt: "\<not> tells d t k s" for d t using True ep by (auto simp: tells_def)
            let ?u = "drop_entry ep k v ?t"
            have et: "entry ep k b v ?t" using e entry_cong [of ?t s] by simp
            have iu: "gc_inv ?u" and cu: "credits ?u = credits s"
              using gc_inv_drop_export [OF gc_inv_disown [OF inv] et k(2) ex [OF e]] ct by simp_all
            have "isERef v" using e by (simp add: entry_def)
            then have cl: "tget (clists (db ?u)) (d, j) = tget (clists (db s)) (d, j)" if "isKRef j" "j \<noteq> k" for d j
              using that isKRef_not_isERef by (auto simp: tget_drop_entry)
            obtain s' where s': "collect_orphan k ?c ?u = (Inr (), s')" "visits k s [] s'"
              using orphan_visits [OF iu k z cu _ _ _ _ cl nt]
              by (auto simp: live_def getTerminatedVats_def drop_entry_def)
            have "collect_object k s = (Inr [], s')"
              using rc z ow ep nk ne has True e s'(1)
              by (simp add: collect_object_def getReachableAndVatSlot_entry drop_entry_def)
            then show ?thesis using s'(2) by blast
          next
            case False
            let ?acts = "(if b then [gc_action ep DropExport k] else []) @ (if ?c = 0 then [gc_action ep RetireExport k] else [])"
            have "collect_object k s = (Inr ?acts, s)"
              using rc z ow ep nk ne has False getReachableFlag_entry [OF e] makeGCAction_run [OF k]
              by (simp add: collect_object_def del: isVatId.simps)
            moreover have "telling ?acts" using id by (auto simp: telling_def)
            moreover have "\<not> doomed k s" using ep has False k by (simp add: doomed_def)
            moreover have "gc_action d t k \<in> set ?acts" if told: "tells d t k s" for d t
            proof -
              have "d = ep" using told ep by (simp add: tells_def)
              then obtain c w where "entry ep k c w s" and t: "t = DropExport \<and> c \<or> t = RetireExport \<and> recog k (credits s) = 0"
                using told unfolding tells_def by blast
              then have "c = b" using entry_unique [OF e] by blast
              with t \<open>d = ep\<close> show ?thesis by auto
            qed
            ultimately have "visits k s ?acts s" using inv by (simp add: visits_def apart_def)
            then show ?thesis using \<open>collect_object k s = (Inr ?acts, s)\<close> by blast
          qed
        qed
      qed
    qed
  qed
qed

section \<open>The collector's loop\<close>

lemma parseKernelSlot_kref:
  assumes "isKRef k"
  shows "\<exists>n. parseKernelSlot k = Inr (if isPromiseRef k then SlotPromise else SlotObject, n)"
  using assms by (auto elim!: isKRefE simp: parseKernelSlot_def isPromiseRef_def char_at_def)

lemma collect_one_visits:
  assumes "gc_inv s" and "isKRef k" and "isPromiseRef k \<Longrightarrow> live k s" and "k \<in> set (maybeFreeKrefs s)"
  shows "\<exists>acts s'. collect_one k s = (Inr acts, s') \<and> visits k s acts s'"
proof -
  obtain n where "parseKernelSlot k = Inr (if isPromiseRef k then SlotPromise else SlotObject, n)"
    using parseKernelSlot_kref [OF assms(2)] by blast
  then show ?thesis
    using collect_promise_visits [OF assms(1,2) _ assms(3)] collect_object_visits [OF assms(1,2) _ assms(4)]
    by (cases "isPromiseRef k") (auto simp: collect_one_def)
qed

text \<open>From index \<open>i\<close> on: the candidates still to be visited.\<close>

definition collecting :: "nat \<Rightarrow> ctx \<Rightarrow> bool" where
  "collecting i s \<longleftrightarrow> gc_inv s \<and> distinct (maybeFreeKrefs s) \<and>
     (\<forall>k\<in>set (drop i (maybeFreeKrefs s)). isKRef k \<and> (isPromiseRef k \<longrightarrow> live k s))"

lemma collecting_step:
  assumes c: "collecting i s" and i: "i < length (maybeFreeKrefs s)" and v: "visits (maybeFreeKrefs s ! i) s acts s'"
  shows "collecting (Suc i) s'" and "\<forall>j\<in>set (drop (Suc i) (maybeFreeKrefs s)). isKRef j \<and> j \<noteq> maybeFreeKrefs s ! i"
    and "set (drop (Suc i) (maybeFreeKrefs s)) \<subseteq> set (drop (Suc i) (maybeFreeKrefs s'))"
proof -
  let ?k = "maybeFreeKrefs s ! i"
  have inv: "gc_inv s'" and g: "grows s s'" and ap: "apart ?k s s'" using v by (simp_all add: visits_def)
  obtain zs where m: "maybeFreeKrefs s' = maybeFreeKrefs s @ zs" and z: "\<forall>z\<in>set zs. live z s"
    using g by (auto simp: grows_def)
  have d: "distinct (maybeFreeKrefs s')" using g c by (simp add: grows_def collecting_def)
  have dr: "drop i (maybeFreeKrefs s) = ?k # drop (Suc i) (maybeFreeKrefs s)" using i by (rule Cons_nth_drop_Suc [symmetric])
  have old: "isKRef j \<and> (isPromiseRef j \<longrightarrow> live j s)" if "j \<in> set (drop (Suc i) (maybeFreeKrefs s))" for j
    using c that unfolding collecting_def dr by simp
  have "distinct (drop i (maybeFreeKrefs s))" using c by (simp add: collecting_def)
  then have nk: "j \<noteq> ?k" if "j \<in> set (drop (Suc i) (maybeFreeKrefs s))" for j using that unfolding dr by auto
  show "\<forall>j\<in>set (drop (Suc i) (maybeFreeKrefs s)). isKRef j \<and> j \<noteq> ?k" using old nk by blast
  have dm: "drop (Suc i) (maybeFreeKrefs s') = drop (Suc i) (maybeFreeKrefs s) @ zs" using i by (simp add: m)
  then show "set (drop (Suc i) (maybeFreeKrefs s)) \<subseteq> set (drop (Suc i) (maybeFreeKrefs s'))" by simp
  have "isKRef j \<and> (isPromiseRef j \<longrightarrow> live j s')" if "j \<in> set (drop (Suc i) (maybeFreeKrefs s'))" for j
  proof (cases "j \<in> set zs")
    case True
    then have "live j s" using z by blast
    moreover have "?k \<in> set (maybeFreeKrefs s)" using i by simp
    then have "j \<noteq> ?k" using d True unfolding m by auto
    ultimately show ?thesis using ap acct_row [of "{#}" s j] c by (simp add: apart_def collecting_def gc_inv_def)
  next
    case False
    then show ?thesis using that old [of j] nk [of j] ap by (simp add: dm apart_def)
  qed
  with inv d show "collecting (Suc i) s'" by (simp add: collecting_def)
qed

lemma collect_from_run:
  assumes fin: "finite B"
  shows "collecting i s \<Longrightarrow> i \<le> length (maybeFreeKrefs s) \<Longrightarrow> telling acts \<Longrightarrow> set (maybeFreeKrefs s) \<subseteq> B \<Longrightarrow> (\<And>j. live j s \<Longrightarrow> j \<in> B) \<Longrightarrow> card B < n + i \<Longrightarrow>
    \<exists>acts' s'. collect_from n i acts s = (Inr acts', s') \<and> gc_inv s' \<and> telling acts' \<and> set acts \<subseteq> set acts' \<and>
      (\<forall>j. live j s' \<longrightarrow> live j s) \<and>
      (\<forall>k\<in>set (drop i (maybeFreeKrefs s)). (doomed k s \<longrightarrow> \<not> live k s') \<and>
        (\<forall>ep t. tells ep t k s \<longrightarrow> gc_action ep t k \<in> set acts'))"
proof (induction n arbitrary: i acts s)
  case 0
  have "length (maybeFreeKrefs s) = card (set (maybeFreeKrefs s))" using 0(1) by (simp add: collecting_def distinct_card)
  also have "\<dots> \<le> card B" using fin 0(4) by (rule card_mono)
  finally show ?case using 0(2,6) by simp
next
  case (Suc n)
  show ?case
  proof (cases "i < length (maybeFreeKrefs s)")
    case False
    then have "collect_from (Suc n) i acts s = (Inr acts, s)" by simp
    then show ?thesis using Suc.prems(1,3) False by (simp add: collecting_def)
  next
    case True
    let ?k = "maybeFreeKrefs s ! i"
    let ?rest = "drop (Suc i) (maybeFreeKrefs s)"
    have dr: "drop i (maybeFreeKrefs s) = ?k # ?rest" using True by (rule Cons_nth_drop_Suc [symmetric])
    have "isKRef ?k" "isPromiseRef ?k \<Longrightarrow> live ?k s" "?k \<in> set (maybeFreeKrefs s)" "gc_inv s"
      using Suc.prems(1) True unfolding collecting_def dr by simp_all
    then obtain new s1 where one: "collect_one ?k s = (Inr new, s1)" and v: "visits ?k s new s1"
      using collect_one_visits by blast
    let ?acts = "foldl (\<lambda>a x. set_add x a) acts new"
    note step = collecting_step [OF Suc.prems(1) True v]
    obtain zs where m1: "maybeFreeKrefs s1 = maybeFreeKrefs s @ zs" and zl: "\<forall>z\<in>set zs. live z s"
      and l1: "\<And>j. live j s1 \<Longrightarrow> live j s" using v unfolding visits_def grows_def by blast
    have "set (maybeFreeKrefs s1) \<subseteq> B" using Suc.prems(4,5) zl by (auto simp: m1)
    moreover have "telling ?acts" using Suc.prems(3) v by (auto simp: telling_def visits_def)
    moreover have "Suc i \<le> length (maybeFreeKrefs s1)" using True by (simp add: m1)
    ultimately obtain acts' s' where run: "collect_from n (Suc i) ?acts s1 = (Inr acts', s')" and inv: "gc_inv s'" and tl: "telling acts'"
      and sub: "set ?acts \<subseteq> set acts'" and l': "\<And>j. live j s' \<Longrightarrow> live j s1"
      and post: "\<And>k. k \<in> set (drop (Suc i) (maybeFreeKrefs s1)) \<Longrightarrow> (doomed k s1 \<longrightarrow> \<not> live k s') \<and>
        (\<forall>ep t. tells ep t k s1 \<longrightarrow> gc_action ep t k \<in> set acts')"
      using Suc.IH [OF step(1), of ?acts] Suc.prems(5,6) l1 by auto
    have ap: "apart ?k s s1" using v by (simp add: visits_def)
    have "(doomed k s \<longrightarrow> \<not> live k s') \<and> (\<forall>ep t. tells ep t k s \<longrightarrow> gc_action ep t k \<in> set acts')"
      if k: "k \<in> set (drop i (maybeFreeKrefs s))" for k
    proof (cases "k = ?k")
      case True
      then show ?thesis using v l' [of k] sub by (auto simp: visits_def)
    next
      case False
      then have r: "k \<in> set ?rest" using k unfolding dr by simp
      then have "isKRef k" "?k \<noteq> k" using step(2) by auto
      then show ?thesis using post [of k] step(3) r doomed_apart [OF ap] tells_apart [OF ap] by blast
    qed
    moreover have "collect_from (Suc n) i acts s = (Inr acts', s')" using True one run by simp
    moreover have "set acts \<subseteq> set acts'" using sub by simp
    ultimately show ?thesis using inv tl l1 l' by blast
  qed
qed

lemma gc_inv_frame:
  assumes "gc_inv s" and "clists (db s') = clists (db s)" and "refCounts (db s') = refCounts (db s)" and "owners (db s') = owners (db s)"
    and "getVatIDs s' = getVatIDs s" and "getTerminatedVats s' = getTerminatedVats s" and "getRemoteIDs s' = getRemoteIDs s"
    and "promise_rows s' = promise_rows s" and "credits s' = credits s"
    and "\<And>ep k. isEndpointId ep \<Longrightarrow> retiring (gc_action_list s') ep k = retiring (gc_action_list s) ep k"
  shows "gc_inv s'"
proof (rule gc_inv_step [OF assms(1)])
  show "acct {#} s'" using assms(1,3,9) by (simp add: gc_inv_def acct_def exact_def row_exact_def)
  show "clist_wf s'" using assms(1) clist_wf_cong [OF assms(2)] by (simp add: gc_inv_def)
  show "promise_wf s'" using assms(1) promise_rows_cong(2) [OF assms(8)] by (simp add: gc_inv_def)
  show "entry ep k b v s" if "entry ep k b v s'" for ep k b v using that entry_cong [OF assms(2)] by simp
qed (use assms in \<open>simp_all add: live_def promise_rows_def\<close>)

lemma clearEmptySubclusters_run:
  "\<exists>scs. clearEmptySubclusters s = (Inr (), s) \<or>
     clearEmptySubclusters s = (Inr (), cache_update (subclusters_update (\<lambda>_. scs)) (db_update (cachedRows_update (subclusters_update (\<lambda>_. scs))) s))"
  by (auto simp: clearEmptySubclusters_def Let_def saveAllSubclustersToStorage_def)

section \<open>Properties\<close>

text \<open>What follows the loop.\<close>

lemma collectGarbage_tail:
  assumes run: "collect_from (Suc (collectable s)) 0 [] s = (Inr acts, s1)" and i1: "gc_inv s1" and tl: "telling acts"
  shows "\<exists>s'. collectGarbage s = (Inr (), s') \<and> gc_inv s' \<and> maybeFreeKrefs s' = [] \<and> (\<forall>j. live j s' = live j s1) \<and>
    credits s' = credits s1 \<and> owners (db s') = owners (db s1) \<and> set (gc_action_list s') = set (gc_action_list s1) \<union> set acts"
proof -
  obtain all where add: "addGCActions acts s1 = (Inr (), with_actions all s1)" and all: "set all = set (gc_action_list s1) \<union> set acts"
    using addGCActions_run by blast
  have ret: "retiring all e k = retiring (gc_action_list s1) e k" if "isEndpointId e" for e k
    using that tl gc_action_inj by (fastforce simp: retiring_action all telling_def)
  let ?s2 = "with_actions all s1"
  let ?s3 = "maybeFreeKrefs_update (\<lambda>_. []) ?s2"
  obtain s' where clear: "clearEmptySubclusters ?s3 = (Inr (), s')"
    and s': "s' = ?s3 \<or> (\<exists>scs. s' = cache_update (subclusters_update (\<lambda>_. scs)) (db_update (cachedRows_update (subclusters_update (\<lambda>_. scs))) ?s3))"
    using clearEmptySubclusters_run [of ?s3] by blast
  have frame: "clists (db s') = clists (db s1)" "refCounts (db s') = refCounts (db s1)" "owners (db s') = owners (db s1)"
    "getVatIDs s' = getVatIDs s1" "getTerminatedVats s' = getTerminatedVats s1" "getRemoteIDs s' = getRemoteIDs s1"
    "promise_rows s' = promise_rows s1" "gc_action_list s' = all" "maybeFreeKrefs s' = []"
    using s' by (auto simp: with_actions_def getVatIDs_def getTerminatedVats_def getRemoteIDs_def promise_rows_def gc_action_list_def)
  have "credits s' = credits ?s2" using s' by (auto simp: credits_def gc_action_list_def)
  also have "\<dots> = credits s1" using ret by (rule credits_with_actions)
  finally have cr: "credits s' = credits s1" .
  have "gc_inv s'" by (rule gc_inv_frame [OF i1 frame(1-7) cr]) (simp add: frame ret)
  moreover have "collectGarbage s = (Inr (), s')" using run add clear by (simp add: collectGarbage_def del: collect_from.simps)
  ultimately show ?thesis by (auto simp: live_def frame all cr)
qed

lemma collectGarbage_run:
  assumes inv: "gc_inv s" and d: "distinct (maybeFreeKrefs s)"
    and c: "\<forall>k\<in>set (maybeFreeKrefs s). isKRef k \<and> (isPromiseRef k \<longrightarrow> live k s)"
  shows "\<exists>s'. collectGarbage s = (Inr (), s') \<and> gc_inv s' \<and> maybeFreeKrefs s' = [] \<and> (\<forall>j. live j s' \<longrightarrow> live j s) \<and>
    (\<forall>k\<in>set (maybeFreeKrefs s). (doomed k s \<longrightarrow> \<not> live k s') \<and>
      (\<forall>ep t. tells ep t k s \<longrightarrow> gc_action ep t k \<in> set (gc_action_list s')))"
proof -
  let ?B = "set (maybeFreeKrefs s) \<union> set (tkeys (refCounts (db s)))"
  have "card ?B \<le> card (set (maybeFreeKrefs s)) + card (set (tkeys (refCounts (db s))))" by (rule card_Un_le)
  also have "\<dots> \<le> collectable s" unfolding collectable_def by (intro add_mono card_length)
  finally have card: "card ?B < Suc (collectable s) + 0" by simp
  have "collecting 0 s" using inv d c by (simp add: collecting_def)
  then obtain acts s1 where run: "collect_from (Suc (collectable s)) 0 [] s = (Inr acts, s1)" and i1: "gc_inv s1" and tl: "telling acts"
    and l1: "\<And>j. live j s1 \<Longrightarrow> live j s"
    and post: "\<And>k. k \<in> set (maybeFreeKrefs s) \<Longrightarrow> (doomed k s \<longrightarrow> \<not> live k s1) \<and> (\<forall>ep t. tells ep t k s \<longrightarrow> gc_action ep t k \<in> set acts)"
    using collect_from_run [of ?B 0 s "[]" "Suc (collectable s)", OF _ _ _ _ _ _ card] by (auto simp: telling_def live_def)
  show ?thesis using collectGarbage_tail [OF run i1 tl] l1 post by auto
qed

text \<open>A settled promise nobody names, whose value names an object; the object is the first candidate.\<close>

definition demo_late :: ctx where
  "demo_late = (makeKernelStore empty_kdb)\<lparr>
     db := empty_kdb\<lparr>refCounts := tput ''kp1'' ''0'' (tput ''ko1'' ''1,1'' tempty), pstates := tput ''kp1'' Fulfilled tempty,
       pvalues := tput ''kp1'' \<lparr>body = ''x'', slots = [''ko1'']\<rparr> tempty\<rparr>,
     maybeFreeKrefs := [''ko1'', ''kp1'']\<rparr>"

lemma demo_late_rows:
  "refCounts (db demo_late) = tput ''kp1'' ''0'' (tput ''ko1'' ''1,1'' tempty)" "pstates (db demo_late) = tput ''kp1'' Fulfilled tempty"
  "pvalues (db demo_late) = tput ''kp1'' \<lparr>body = ''x'', slots = [''ko1'']\<rparr> tempty" "maybeFreeKrefs demo_late = [''ko1'', ''kp1'']"
  "clists (db demo_late) = tempty" "owners (db demo_late) = tempty" "qentries (db demo_late) = tempty" "pinned (db demo_late) = tempty"
  "crankBuffer demo_late = []" "gc_action_list demo_late = []" "psubscribers (db demo_late) = tempty" "pdeciders (db demo_late) = tempty"
  "qheads (db demo_late) = tempty" "qtails (db demo_late) = tempty" "subclusters (cache demo_late) = None \<or> subclusters (cache demo_late) = Some []"
  unfolding demo_late_def makeKernelStore_fresh
  by (simp_all add: empty_kdb_def gc_action_list_def init_cached_rows_def init_row_def)

lemma demo_late_credits: "credits demo_late = {#(''ko1'', False)#}"
  by (simp add: credits_def demo_late_rows tsum_tput_new promise_credit_def value_slots_def buffer_credit_def isPromiseRef_def
      char_at_def all_digits_def is_digit_def)

lemma demo_late_live: "live k demo_late \<longleftrightarrow> k = ''ko1'' \<or> k = ''kp1''"
  by (auto simp: live_def demo_late_rows)

lemma demo_krefs: "isKRef ''ko1''" "isKRef ''kp1''" "\<not> isPromiseRef ''ko1''" "isPromiseRef ''kp1''"
  by (simp_all add: isPromiseRef_def char_at_def all_digits_def is_digit_def)

lemma demo_late_inv: "gc_inv demo_late"
proof -
  have "row_exact {#(''ko1'', False)#} demo_late k" for k
    using demo_krefs by (cases "k = ''kp1''"; cases "k = ''ko1''") (simp_all add: row_exact_def demo_late_rows count_text_def nat_text_eval)
  then have "acct {#} demo_late" by (simp add: acct_def exact_def demo_late_credits)
  moreover have "settled ''kp1'' Fulfilled \<lparr>body = ''x'', slots = [''ko1'']\<rparr> demo_late"
    using demo_krefs by (simp add: settled_def demo_late_rows)
  then have "promise_wf demo_late" unfolding promise_wf_def
    by (auto simp: bare_def demo_late_rows)
  moreover have "clist_wf demo_late" "endpoints_known demo_late" "owners_ok demo_late"
    by (simp_all add: clist_wf_def endpoints_known_def owners_ok_def demo_late_rows)
  ultimately show ?thesis using demo_krefs
    by (simp add: gc_inv_def demo_late_rows retiring_def demo_late_live) (auto simp: isPromiseRef_def char_at_def)
qed

text \<open>
  C31. On a store whose counts are exact, with distinct candidates none of which is a deleted
  promise, \<open>collectGarbage\<close> returns: the fuel of the model is enough, since every candidate it
  adds was alive. The counts stay exact, nothing is left dangling and the c-lists, promises and
  owners stay well formed; nothing comes to life. Every candidate that was garbage when collection started is
  deleted: a promise without a reference, an object no one reaches that no living endpoint
  owns, its importers being told to retire it. For every unreachable candidate a living endpoint
  owns, the action set holds the drop and, if nobody recognizes it either, the retirement.
\<close>

theorem collectGarbage_correct:
  assumes "gc_inv s" and "distinct (maybeFreeKrefs s)"
    and "\<forall>k\<in>set (maybeFreeKrefs s). isKRef k \<and> (isPromiseRef k \<longrightarrow> live k s)"
  shows "\<exists>s'. collectGarbage s = (Inr (), s') \<and> gc_inv s' \<and> maybeFreeKrefs s' = [] \<and> (\<forall>j. live j s' \<longrightarrow> live j s) \<and>
    (\<forall>k\<in>set (maybeFreeKrefs s). (doomed k s \<longrightarrow> \<not> live k s') \<and>
      (\<forall>ep t. tells ep t k s \<longrightarrow> gc_action ep t k \<in> set (gc_action_list s')))"
  using assms by (rule collectGarbage_run)

theorem collectGarbage_correct_witness:
  "\<exists>s'. collectGarbage demo_late = (Inr (), s') \<and> gc_inv s' \<and> \<not> live ''kp1'' s'"
proof -
  have "\<forall>k\<in>set (maybeFreeKrefs demo_late). isKRef k \<and> (isPromiseRef k \<longrightarrow> live k demo_late)"
    using demo_krefs by (simp add: demo_late_rows demo_late_live)
  moreover have "distinct (maybeFreeKrefs demo_late)" by (simp add: demo_late_rows)
  moreover have "doomed ''kp1'' demo_late" using demo_krefs by (simp add: doomed_def demo_late_credits)
  ultimately show ?thesis using collectGarbage_correct [OF demo_late_inv] by (auto simp: demo_late_rows)
qed

lemma demo_counts: "int_text 0 = ''0''" "Number ''0'' = Some 0"
  using int_text_nat [of 0] Number_int_text [of 0] by (simp_all add: nat_text_eval)

lemma demo_late_ko1: "collect_one ''ko1'' demo_late = (Inr [], demo_late)"
proof -
  have x: "exact {#(''ko1'', False)#} demo_late" using demo_late_inv by (simp add: gc_inv_def acct_def demo_late_credits)
  obtain n where "parseKernelSlot ''ko1'' = Inr (SlotObject, n)" using parseKernelSlot_kref [OF demo_krefs(1)] demo_krefs by auto
  then show ?thesis
    using getObjectRefCount_exact [OF x _ demo_krefs(3)] demo_krefs by (simp add: collect_one_def collect_object_def demo_late_live)
qed

text \<open>The promise is deleted, and with it the last reference to the object.\<close>

lemma demo_late_kp1:
  "\<exists>s'. collect_one ''kp1'' demo_late = (Inr [], s') \<and> gc_inv s' \<and> live ''ko1'' s' \<and> credits s' = {#} \<and> owners (db s') = tempty \<and>
    maybeFreeKrefs s' = [''ko1'', ''kp1'']"
proof -
  obtain n where p: "parseKernelSlot ''kp1'' = Inr (SlotPromise, n)" using parseKernelSlot_kref [OF demo_krefs(2)] demo_krefs by auto
  let ?v = "\<lparr>body = ''x'', slots = [''ko1'']\<rparr>"
  have st: "settled ''kp1'' Fulfilled ?v demo_late" using demo_krefs by (simp add: settled_def demo_late_rows)
  have dm: "doomed ''kp1'' demo_late" using demo_krefs by (simp add: doomed_def demo_late_credits)
  obtain s' where s': "collect_promise ''kp1'' demo_late = (Inr [], s')" and v: "visits ''kp1'' demo_late [] s'"
    and o: "owners (db s') = owners (db demo_late)" and c: "credits s' + refs (slots ?v) = credits demo_late"
    using collect_promise_visits [OF demo_late_inv demo_krefs(2,4)] st dm demo_late_live by blast
  have "credits s' = {#}" using c by (simp add: demo_late_credits)
  moreover have "live ''ko1'' s'" using v by (simp add: visits_def apart_def demo_late_live)
  moreover have "maybeFreeKrefs s' = [''ko1'', ''kp1'']"
  proof -
    obtain zs where m: "maybeFreeKrefs s' = [''ko1'', ''kp1''] @ zs" and z: "\<forall>z\<in>set zs. z = ''ko1'' \<or> z = ''kp1''"
      and d: "distinct (maybeFreeKrefs s')"
      using v by (auto simp: visits_def grows_def demo_late_rows demo_late_live)
    from z d m have "zs = []" by (cases zs) auto
    with m show ?thesis by simp
  qed
  ultimately show ?thesis using p s' v o by (simp add: collect_one_def visits_def demo_late_rows)
qed

text \<open>
  C32. The collector forgets an object whose last reference it releases after having visited it:
  of the candidates \<open>ko1\<close> and \<open>kp1\<close>, the object is visited while the value of the promise
  still names it; then the promise is deleted and the object's count falls to zero, but it is a
  member of the set already, is not visited again, and is removed from it with the others. It
  stays in the store, unowned, unreferenced and no candidate.
\<close>

theorem collectGarbage_forgets:
  "\<exists>s'. collectGarbage demo_late = (Inr (), s') \<and> live ''ko1'' s' \<and> doomed ''ko1'' s' \<and> recog ''ko1'' (credits s') = 0 \<and>
    maybeFreeKrefs s' = []"
proof -
  obtain s1 where s1: "collect_one ''kp1'' demo_late = (Inr [], s1)" and i1: "gc_inv s1" and l1: "live ''ko1'' s1" and c1: "credits s1 = {#}"
    and o1: "owners (db s1) = tempty" and m1: "maybeFreeKrefs s1 = [''ko1'', ''kp1'']"
    using demo_late_kp1 by blast
  obtain n where n: "Suc (collectable demo_late) = Suc (Suc (Suc n))" by (simp add: collectable_def demo_late_rows)
  have run: "collect_from (Suc (collectable demo_late)) 0 [] demo_late = (Inr [], s1)"
    unfolding n by (simp add: demo_late_rows demo_late_ko1 s1 m1)
  have "telling []" by (simp add: telling_def)
  then obtain s' where "collectGarbage demo_late = (Inr (), s')" "maybeFreeKrefs s' = []" "live ''ko1'' s'" "credits s' = {#}" "owners (db s') = tempty"
    using collectGarbage_tail [OF run i1] l1 c1 o1 by auto
  then show ?thesis using demo_krefs by (simp add: doomed_def)
qed

end
