(* ===== verification/GCActions.thy ===== *)
theory GCActions
  imports GC
begin

text \<open>
  What becomes of queued actions and of the syscalls by which an endpoint gives references up:
  \<open>processGCActionSet\<close> takes the first group of actions that still has a point, in the order
  of endpoints and priorities, and the three handlers keep the invariant of collection
  whether they return or throw.
\<close>

section \<open>The next action\<close>

lemma sort_nil: "sort_strings xs = [] \<longleftrightarrow> xs = []"
  by (metis length_sort length_0_conv)

fun priority :: "gc_action_type \<Rightarrow> nat" where
  "priority DropExport = 0"
| "priority RetireExport = 1"
| "priority RetireImport = 2"

definition before :: "string \<times> gc_action_type \<Rightarrow> string \<times> gc_action_type \<Rightarrow> bool" where
  "before g h \<longleftrightarrow> fst g < fst h \<or> fst g = fst h \<and> priority (snd g) < priority (snd h)"

text \<open>Whether an action still has a point.\<close>

definition applies :: "string \<Rightarrow> gc_action_type \<Rightarrow> string \<Rightarrow> ctx \<Rightarrow> bool" where
  "applies ep t k s \<longleftrightarrow> (\<exists>b v. entry ep k b v s \<and>
     (t = RetireImport \<or> live k s \<and> reach k (credits s) = 0 \<and> (t = DropExport \<and> b \<or> t = RetireExport \<and> recog k (credits s) = 0)))"

lemma shouldProcessAction_run:
  assumes wf: "clist_wf s" and a: "acct {#} s" and k: "isKRef k" "\<not> isPromiseRef k"
  shows "shouldProcessAction ep t k s = (Inr (applies ep t k s), s)"
proof -
  have x: "exact (credits s) s" using a by (simp add: acct_def)
  have ex: "kernelRefExists k s = live k s" using x by (rule kernelRefExists_exact)
  note rc = getObjectRefCount_exact [OF x _ k(2)]
  show ?thesis
  proof (cases "tget (clists (db s)) (ep, k)")
    case None
    then have "\<not> hasCListEntry ep k s" "\<not> applies ep t k s" by (auto simp: hasCListEntry_def has_def applies_def entry_def)
    then show ?thesis using ex rc by (cases "live k s"; cases t) (simp_all add: shouldProcessAction_def)
  next
    case (Some y)
    then obtain b v where e: "entry ep k b v s" using clist_wfD_kref [OF wf _ k(1)] by blast
    have h: "hasCListEntry ep k s" using Some by (simp add: hasCListEntry_def has_def)
    have "applies ep t k s \<longleftrightarrow> t = RetireImport \<or>
        live k s \<and> reach k (credits s) = 0 \<and> (t = DropExport \<and> b \<or> t = RetireExport \<and> recog k (credits s) = 0)"
      unfolding applies_def using e by (blast dest: entry_unique [OF e])
    then show ?thesis using ex rc h getReachableFlag_entry [OF e]
      by (cases "live k s"; cases t) (simp_all add: shouldProcessAction_def)
  qed
qed

lemma process_groups_run:
  assumes run: "\<And>p. p \<in> set parsed \<Longrightarrow> shouldProcessAction (a_endpoint p) (a_type p) (a_kref p) s = (Inr (ap p), s)"
  defines "kept \<equiv> \<lambda>g. filter ap (action_group parsed g)"
    and "without \<equiv> \<lambda>G all. filter (\<lambda>a. \<forall>g\<in>G. a \<notin> a_text ` set (action_group parsed g)) all"
  shows "\<exists>r s'. process_groups parsed all upd gs s = (Inr r, s') \<and>
     (r = None \<and> (\<forall>g\<in>set gs. kept g = []) \<and> (gs = [] \<and> \<not> upd \<and> s' = s \<or> s' = with_actions (sort_strings (without (set gs) all)) s) \<or>
     (\<exists>xs g ys. gs = xs @ g # ys \<and> (\<forall>h\<in>set xs. kept h = []) \<and> kept g \<noteq> [] \<and>
        r = Some (GCAction (queueTypeFromActionType (snd g)) (fst g) (sort_strings (map a_kref (kept g)))) \<and>
        s' = with_actions (sort_strings (without (set (xs @ [g])) all)) s))"
proof (induction gs arbitrary: all upd)
  case Nil
  then show ?case by (cases upd) (simp_all add: setGCActions_run thn_run without_def)
next
  case (Cons g gs)
  let ?rest = "filter (\<lambda>a. a \<notin> a_text ` set (action_group parsed g)) all"
  have grp: "p \<in> set (action_group parsed g) \<Longrightarrow> p \<in> set parsed" for p by (simp add: action_group_def)
  have f: "filterActionsForProcessing (action_group parsed g) s = (Inr (sort_strings (map a_kref (kept g))), s)"
    unfolding filterActionsForProcessing_def kept_def
    using filterEach_run [of "action_group parsed g" "\<lambda>a. shouldProcessAction (a_endpoint a) (a_type a) (a_kref a)" s ap] run [OF grp] by simp
  have w: "without (set gs) ?rest = without (set (g # gs)) all" "without (set (xs @ [h])) ?rest = without (set ((g # xs) @ [h])) all" for xs h
    by (auto simp: without_def intro: filter_cong)
  show ?case
  proof (cases "kept g = []")
    case False
    then have "process_groups parsed all upd (g # gs) s =
        (Inr (Some (GCAction (queueTypeFromActionType (snd g)) (fst g) (sort_strings (map a_kref (kept g))))), with_actions (sort_strings ?rest) s)"
      using f by (simp add: Let_def setGCActions_run thn_run sort_nil)
    moreover have "\<exists>xs h ys. g # gs = xs @ h # ys \<and> (\<forall>h\<in>set xs. kept h = []) \<and> kept h \<noteq> [] \<and>
        Some (GCAction (queueTypeFromActionType (snd g)) (fst g) (sort_strings (map a_kref (kept g)))) =
          Some (GCAction (queueTypeFromActionType (snd h)) (fst h) (sort_strings (map a_kref (kept h)))) \<and>
        with_actions (sort_strings ?rest) s = with_actions (sort_strings (without (set (xs @ [h])) all)) s"
      by (rule exI [of _ "[]"], rule exI [of _ g], rule exI [of _ gs]) (simp add: False without_def)
    ultimately show ?thesis by blast
  next
    case True
    then have step: "process_groups parsed all upd (g # gs) s = process_groups parsed ?rest True gs s"
      using f by (simp add: Let_def)
    obtain r s' where ih: "process_groups parsed ?rest True gs s = (Inr r, s')"
      "r = None \<and> (\<forall>g\<in>set gs. kept g = []) \<and>
        (gs = [] \<and> \<not> True \<and> s' = s \<or> s' = with_actions (sort_strings (without (set gs) ?rest)) s) \<or>
       (\<exists>xs h ys. gs = xs @ h # ys \<and> (\<forall>h\<in>set xs. kept h = []) \<and> kept h \<noteq> [] \<and>
        r = Some (GCAction (queueTypeFromActionType (snd h)) (fst h) (sort_strings (map a_kref (kept h)))) \<and>
        s' = with_actions (sort_strings (without (set (xs @ [h])) ?rest)) s)"
      using Cons.IH [of ?rest True] by blast
    from ih(2) show ?thesis
    proof (elim disjE exE conjE)
      assume "\<not> True"
      then show ?thesis by simp
    next
      assume "r = None" "\<forall>g\<in>set gs. kept g = []" "s' = with_actions (sort_strings (without (set gs) ?rest)) s"
      then show ?thesis using step ih(1) True w(1) by auto
    next
      fix xs h ys
      assume h: "gs = xs @ h # ys" "\<forall>h\<in>set xs. kept h = []" "kept h \<noteq> []"
        "r = Some (GCAction (queueTypeFromActionType (snd h)) (fst h) (sort_strings (map a_kref (kept h))))"
        "s' = with_actions (sort_strings (without (set (xs @ [h])) ?rest)) s"
      have "process_groups parsed all upd (g # gs) s = (Inr r, s')" using step ih(1) by simp
      moreover have "\<exists>xs h ys. g # gs = xs @ h # ys \<and> (\<forall>h\<in>set xs. kept h = []) \<and> kept h \<noteq> [] \<and>
          r = Some (GCAction (queueTypeFromActionType (snd h)) (fst h) (sort_strings (map a_kref (kept h)))) \<and>
          s' = with_actions (sort_strings (without (set (xs @ [h])) all)) s"
        by (rule exI [of _ "g # xs"], rule exI [of _ h], rule exI [of _ ys]) (use h True w(2) in simp)
      ultimately show ?thesis by blast
    qed
  qed
qed

definition queued :: "string \<Rightarrow> gc_action_type \<Rightarrow> string \<Rightarrow> ctx \<Rightarrow> bool" where
  "queued e t k s \<longleftrightarrow> isEndpointId e \<and> gc_action e t k \<in> set (gc_action_list s)"

definition actions_wf :: "ctx \<Rightarrow> bool" where
  "actions_wf s \<longleftrightarrow> (\<forall>a\<in>set (gc_action_list s). \<exists>e t k. isEndpointId e \<and> isKRef k \<and> \<not> isPromiseRef k \<and> a = gc_action e t k)"

abbreviation action_of :: "string \<Rightarrow> gc_action_type \<Rightarrow> string \<Rightarrow> gc_parsed" where
  "action_of e t k \<equiv> \<lparr>a_text = gc_action e t k, a_endpoint = e, a_type = t, a_kref = k\<rparr>"

definition parsed_actions :: "ctx \<Rightarrow> gc_parsed list" where
  "parsed_actions s = map (\<lambda>a. projr (parseAction a)) (getGCActions s)"

lemma queued_kref: "actions_wf s \<Longrightarrow> queued e t k s \<Longrightarrow> isKRef k \<and> \<not> isPromiseRef k"
  unfolding actions_wf_def queued_def using gc_action_inj by metis

lemma parsed_mem:
  assumes "actions_wf s"
  shows "p \<in> set (parsed_actions s) \<longleftrightarrow> (\<exists>e t k. queued e t k s \<and> p = action_of e t k)"
proof
  assume "p \<in> set (parsed_actions s)"
  then obtain a where a: "a \<in> set (gc_action_list s)" "p = projr (parseAction a)" by (auto simp: parsed_actions_def)
  then obtain e t k where "isEndpointId e" "isKRef k" "\<not> isPromiseRef k" "a = gc_action e t k" using assms by (auto simp: actions_wf_def)
  then show "\<exists>e t k. queued e t k s \<and> p = action_of e t k" using a parse_gc_action by (auto simp: queued_def)
next
  assume "\<exists>e t k. queued e t k s \<and> p = action_of e t k"
  then obtain e t k where q: "queued e t k s" and p: "p = action_of e t k" by blast
  have "projr (parseAction (gc_action e t k)) = p"
    using parse_gc_action [of e k t] queued_kref [OF assms q] q p by (simp add: queued_def)
  moreover have "gc_action e t k \<in> set (getGCActions s)" using q by (simp add: queued_def)
  ultimately show "p \<in> set (parsed_actions s)" unfolding parsed_actions_def by (force simp del: getGCActions_set)
qed

lemma parse_actions_run:
  assumes "actions_wf s"
  shows "mapEach (\<lambda>a. lift (parseAction a)) (getGCActions s) s = (Inr (parsed_actions s), s)"
  unfolding parsed_actions_def
proof (rule mapEach_ret)
  fix a assume "a \<in> set (getGCActions s)"
  then obtain e t k where "isEndpointId e" "isKRef k" "\<not> isPromiseRef k" "a = gc_action e t k" using assms by (auto simp: actions_wf_def)
  then show "lift (parseAction a) s = (Inr (projr (parseAction a)), s)" using parse_gc_action by simp
qed

lemma group_mem:
  assumes "actions_wf s"
  shows "p \<in> set (action_group (parsed_actions s) g) \<longleftrightarrow> (\<exists>k. queued (fst g) (snd g) k s \<and> p = action_of (fst g) (snd g) k)"
  unfolding action_group_def using parsed_mem [OF assms] by auto

lemma group_texts:
  assumes "actions_wf s" and "isEndpointId e"
  shows "gc_action e t k \<in> a_text ` set (action_group (parsed_actions s) g) \<longleftrightarrow> (e, t) = g \<and> queued e t k s"
proof
  assume "gc_action e t k \<in> a_text ` set (action_group (parsed_actions s) g)"
  then obtain j where "queued (fst g) (snd g) j s" "gc_action e t k = gc_action (fst g) (snd g) j"
    using group_mem [OF assms(1), of _ g] by auto
  then show "(e, t) = g \<and> queued e t k s" using gc_action_inj assms(2) by (auto simp: queued_def prod_eq_iff)
next
  assume "(e, t) = g \<and> queued e t k s"
  then have "action_of e t k \<in> set (action_group (parsed_actions s) g)" using group_mem [OF assms(1), of "action_of e t k" g] by auto
  then show "gc_action e t k \<in> a_text ` set (action_group (parsed_actions s) g)" by force
qed

lemma group_order_mem:
  assumes "actions_wf s"
  shows "g \<in> set (group_order (parsed_actions s)) \<longleftrightarrow> (\<exists>k. queued (fst g) (snd g) k s)"
proof -
  have "action_group (parsed_actions s) g \<noteq> [] \<longleftrightarrow> (\<exists>k. queued (fst g) (snd g) k s)"
    using group_mem [OF assms, of _ g] by (metis list.set_intros(1) neq_Nil_conv list.set(1) empty_iff)
  moreover have "snd g \<in> set actionTypePriorities" by (cases "snd g") (simp_all add: actionTypePriorities_def)
  moreover have "fst g \<in> a_endpoint ` set (parsed_actions s)" if "queued (fst g) (snd g) k s" for k
    using parsed_mem [OF assms, of "action_of (fst g) (snd g) k"] that by (force simp: image_iff)
  ultimately show ?thesis by (cases g) (auto simp: group_order_def)
qed

lemma product_before: "sorted_wrt (<) es \<Longrightarrow> sorted_wrt before (List.product es actionTypePriorities)"
proof (induction es)
  case (Cons e es)
  have "sorted_wrt before (map (Pair e) actionTypePriorities)" by (simp add: actionTypePriorities_def before_def)
  moreover have "before (e, t) (e', t')" if "e' \<in> set es" for e' t t' using Cons.prems that by (simp add: before_def)
  ultimately show ?case using Cons by (auto simp: sorted_wrt_append)
qed simp

lemma group_order_sorted: "sorted_wrt before (group_order parsed)"
proof -
  have "distinct (foldl (\<lambda>a x. set_add x a) [] (map a_endpoint parsed))" by simp
  then have "sorted_wrt (<) (sort_strings (foldl (\<lambda>a x. set_add x a) [] (map a_endpoint parsed)))"
    by (simp add: strict_sorted_iff)
  then show ?thesis unfolding group_order_def by (intro sorted_wrt_filter product_before)
qed

lemma kept_krefs:
  assumes "actions_wf s"
  defines "kept \<equiv> \<lambda>g. filter (\<lambda>p. applies (a_endpoint p) (a_type p) (a_kref p) s) (action_group (parsed_actions s) g)"
  shows "set (map a_kref (kept g)) = {k. queued (fst g) (snd g) k s \<and> applies (fst g) (snd g) k s}"
    and "distinct (map a_kref (kept g))" and "kept g = [] \<longleftrightarrow> (\<forall>k. queued (fst g) (snd g) k s \<longrightarrow> \<not> applies (fst g) (snd g) k s)"
proof -
  have m: "p \<in> set (kept g) \<longleftrightarrow> (\<exists>k. queued (fst g) (snd g) k s \<and> applies (fst g) (snd g) k s \<and> p = action_of (fst g) (snd g) k)" for p
    unfolding kept_def using group_mem [OF assms(1), of p g] by auto
  show "set (map a_kref (kept g)) = {k. queued (fst g) (snd g) k s \<and> applies (fst g) (snd g) k s}"
  proof (intro set_eqI iffI)
    fix x assume "x \<in> set (map a_kref (kept g))"
    then obtain p where "p \<in> set (kept g)" and x: "x = a_kref p" by auto
    then obtain k where "queued (fst g) (snd g) k s" "applies (fst g) (snd g) k s" "p = action_of (fst g) (snd g) k"
      unfolding m by blast
    with x show "x \<in> {k. queued (fst g) (snd g) k s \<and> applies (fst g) (snd g) k s}" by simp
  next
    fix x assume "x \<in> {k. queued (fst g) (snd g) k s \<and> applies (fst g) (snd g) k s}"
    then have "action_of (fst g) (snd g) x \<in> set (kept g)" unfolding m by blast
    then have "a_kref (action_of (fst g) (snd g) x) \<in> set (map a_kref (kept g))" unfolding set_map by (rule imageI)
    then show "x \<in> set (map a_kref (kept g))" by simp
  qed
  show "kept g = [] \<longleftrightarrow> (\<forall>k. queued (fst g) (snd g) k s \<longrightarrow> \<not> applies (fst g) (snd g) k s)"
  proof -
    have "kept g = [] \<longleftrightarrow> \<not> (\<exists>p. p \<in> set (kept g))" by (cases "kept g") auto
    then show ?thesis unfolding m by blast
  qed
  have at: "a_text (projr (parseAction a)) = a" if "a \<in> set (getGCActions s)" for a
    using that assms(1) parse_gc_action by (fastforce simp: actions_wf_def)
  have "map a_text (parsed_actions s) = getGCActions s" unfolding parsed_actions_def map_map comp_def by (rule map_idI) (rule at)
  then have "distinct (map a_text (parsed_actions s))" by simp
  then have "distinct (parsed_actions s)" by (simp add: distinct_map)
  then have "distinct (kept g)" by (simp add: kept_def action_group_def)
  moreover have "inj_on a_kref (set (kept g))" by (auto simp: inj_on_def m)
  ultimately show "distinct (map a_kref (kept g))" by (simp add: distinct_map)
qed

lemma processGCActionSet_run:
  assumes wf: "clist_wf s" and a: "acct {#} s" and act: "actions_wf s"
  shows "\<exists>r s'. processGCActionSet s = (Inr r, s') \<and> (s' = s \<or> (\<exists>acts. s' = with_actions acts s)) \<and>
    (case r of None \<Rightarrow> gc_action_list s' = [] \<and> (\<forall>e t k. queued e t k s \<longrightarrow> \<not> applies e t k s)
     | Some i \<Rightarrow> (\<exists>ep ty ks. i = GCAction (queueTypeFromActionType ty) ep ks \<and> ks \<noteq> [] \<and> sorted ks \<and> distinct ks \<and>
         set ks = {k. queued ep ty k s \<and> applies ep ty k s} \<and>
         (\<forall>e t k. queued e t k s \<and> before (e, t) (ep, ty) \<longrightarrow> \<not> applies e t k s) \<and>
         (\<forall>e t k. queued e t k s' \<longleftrightarrow> queued e t k s \<and> before (ep, ty) (e, t))))"
proof -
  let ?ps = "parsed_actions s" and ?all = "getGCActions s"
  define ap where "ap p = applies (a_endpoint p) (a_type p) (a_kref p) s" for p :: gc_parsed
  define kept where "kept g = filter ap (action_group ?ps g)" for g
  define without where "without G all = filter (\<lambda>a. \<forall>g\<in>G. a \<notin> a_text ` set (action_group ?ps g)) all" for G and all :: "string list"
  have run: "shouldProcessAction (a_endpoint p) (a_type p) (a_kref p) s = (Inr (ap p), s)" if ps: "p \<in> set ?ps" for p
  proof -
    obtain e t k where q: "queued e t k s" and p: "p = action_of e t k" using ps parsed_mem [OF act] by blast
    show ?thesis using shouldProcessAction_run [OF wf a, of k e t] queued_kref [OF act q] by (simp add: ap_def p)
  qed
  note kk = kept_krefs [OF act, folded ap_def, folded kept_def]
  have pr: "processGCActionSet s = process_groups ?ps ?all False (group_order ?ps) s"
    using parse_actions_run [OF act] by (simp add: processGCActionSet_def)
  obtain r s' where rs: "process_groups ?ps ?all False (group_order ?ps) s = (Inr r, s')"
    and c: "r = None \<and> (\<forall>g\<in>set (group_order ?ps). kept g = []) \<and>
        (group_order ?ps = [] \<and> \<not> False \<and> s' = s \<or> s' = with_actions (sort_strings (without (set (group_order ?ps)) ?all)) s) \<or>
     (\<exists>xs g ys. group_order ?ps = xs @ g # ys \<and> (\<forall>h\<in>set xs. kept h = []) \<and> kept g \<noteq> [] \<and>
        r = Some (GCAction (queueTypeFromActionType (snd g)) (fst g) (sort_strings (map a_kref (kept g)))) \<and>
        s' = with_actions (sort_strings (without (set (xs @ [g])) ?all)) s)"
    using process_groups_run [of ?ps s ap ?all False "group_order ?ps", OF run, folded kept_def, folded without_def] by blast
  have q: "queued e t k s" if "isEndpointId e" "gc_action e t k \<in> set ?all" for e t k using that by (simp add: queued_def)
  from c show ?thesis
  proof (elim disjE exE conjE)
    assume r: "r = None" "\<forall>g\<in>set (group_order ?ps). kept g = []" and s': "group_order ?ps = []" "s' = s"
    have "\<not> queued e t k s" for e t k using group_order_mem [OF act, of "(e, t)"] s' by auto
    then have "x \<notin> set (gc_action_list s)" for x using act unfolding actions_wf_def queued_def by fastforce
    then have "gc_action_list s = []" by (meson last_in_set)
    then show ?thesis using pr rs r(1) s'(2) by (simp add: queued_def)
  next
    assume r: "r = None" "\<forall>g\<in>set (group_order ?ps). kept g = []"
      and s': "s' = with_actions (sort_strings (without (set (group_order ?ps)) ?all)) s"
    have "\<not> applies e t k s" if "queued e t k s" for e t k
      using r(2) group_order_mem [OF act, of "(e, t)"] kk(3) [of "(e, t)"] that by auto
    moreover have "without (set (group_order ?ps)) ?all = []"
    proof -
      have "\<exists>g\<in>set (group_order ?ps). x \<in> a_text ` set (action_group ?ps g)" if "x \<in> set ?all" for x
      proof -
        obtain e t k where x: "isEndpointId e" "x = gc_action e t k" using act \<open>x \<in> set ?all\<close> by (auto simp: actions_wf_def)
        then have "queued e t k s" using q \<open>x \<in> set ?all\<close> by blast
        then show ?thesis using group_order_mem [OF act, of "(e, t)"] group_texts [OF act x(1), of t k "(e, t)"] x(2) by auto
      qed
      then show ?thesis by (simp add: without_def filter_empty_conv)
    qed
    ultimately show ?thesis using pr rs r(1) s' by (intro exI [of _ r] exI [of _ s']) (simp, blast)
  next
    fix xs g ys
    assume o: "group_order ?ps = xs @ g # ys" and x: "\<forall>h\<in>set xs. kept h = []" and g: "kept g \<noteq> []"
      and r: "r = Some (GCAction (queueTypeFromActionType (snd g)) (fst g) (sort_strings (map a_kref (kept g))))"
      and s': "s' = with_actions (sort_strings (without (set (xs @ [g])) ?all)) s"
    let ?ks = "sort_strings (map a_kref (kept g))"
    have srt: "sorted_wrt before (xs @ g # ys)" using group_order_sorted [of ?ps] by (simp only: o)
    have irr: "\<not> before h h" for h by (simp add: before_def)
    have asym: "before h i \<Longrightarrow> \<not> before i h" for h i by (auto simp: before_def)
    have mem: "queued e t k s \<Longrightarrow> (e, t) \<in> set xs \<or> (e, t) = g \<or> (e, t) \<in> set ys" for e t k
      using group_order_mem [OF act, of "(e, t)"] o by auto
    have "?ks \<noteq> []" "sorted ?ks" "distinct ?ks" "set ?ks = {k. queued (fst g) (snd g) k s \<and> applies (fst g) (snd g) k s}"
      using g kk(1,2) [of g] by (simp_all add: sort_nil)
    moreover have "\<not> applies e t k s" if "queued e t k s" "before (e, t) (fst g, snd g)" for e t k
    proof -
      have "(e, t) \<in> set xs" using mem [OF that(1)] that(2) srt irr [of g] asym [of "(e, t)" g] by (auto simp: sorted_wrt_append)
      then show ?thesis using x kk(3) [of "(e, t)"] that(1) by auto
    qed
    moreover have "queued e t k s' \<longleftrightarrow> queued e t k s \<and> before (fst g, snd g) (e, t)" for e t k
    proof -
      have "queued e t k s' \<longleftrightarrow> queued e t k s \<and> (e, t) \<notin> set (xs @ [g])"
      proof (cases "isEndpointId e")
        case True
        have "queued e t k s' \<longleftrightarrow> queued e t k s \<and> (\<forall>h\<in>set (xs @ [g]). gc_action e t k \<notin> a_text ` set (action_group ?ps h))"
          using True by (simp add: queued_def s' without_def)
        then show ?thesis unfolding group_texts [OF act True] by blast
      qed (simp add: queued_def)
      moreover have "(e, t) \<notin> set (xs @ [g]) \<longleftrightarrow> before g (e, t)" if "queued e t k s"
        using mem [OF that] srt irr [of g] asym [of "(e, t)" g] by (auto simp: sorted_wrt_append)
      ultimately show ?thesis by auto
    qed
    ultimately have "\<exists>ep ty ks. the r = GCAction (queueTypeFromActionType ty) ep ks \<and> ks \<noteq> [] \<and> sorted ks \<and> distinct ks \<and>
         set ks = {k. queued ep ty k s \<and> applies ep ty k s} \<and>
         (\<forall>e t k. queued e t k s \<and> before (e, t) (ep, ty) \<longrightarrow> \<not> applies e t k s) \<and>
         (\<forall>e t k. queued e t k s' \<longleftrightarrow> queued e t k s \<and> before (ep, ty) (e, t))"
      using r by (intro exI [of _ "fst g"] exI [of _ "snd g"] exI [of _ ?ks]) simp
    then show ?thesis using pr rs r s' by (intro exI [of _ r] exI [of _ s']) auto
  qed
qed

section \<open>Giving references up\<close>

text \<open>\<open>D\<close>: the krefs the endpoint has no entry for; \<open>W\<close>: those nobody owns.\<close>

definition given_up :: "string \<Rightarrow> string set \<Rightarrow> string set \<Rightarrow> ctx \<Rightarrow> bool" where
  "given_up ep D W s \<longleftrightarrow> gc_inv s \<and> (\<forall>j\<in>D. \<not> hasCListEntry ep j s) \<and> (\<forall>j\<in>W. \<not> has (owners (db s)) j)"

lemma gc_inv_retired_ok: "gc_inv s \<Longrightarrow> isEndpointId ep \<Longrightarrow> retired_ok ep k s"
  unfolding gc_inv_def retired_ok_def by blast

text \<open>Changes to the c-list of an endpoint and the counts, and to nothing else.\<close>

lemma gc_inv_clist_change:
  assumes inv: "gc_inv s" and f: "same_but_counts (db_update (clists_update g) s) s'" and a: "acct {#} s'"
    and wf: "clist_wf (db_update (clists_update g) s)" and l: "\<And>j. live j s' = live j s"
    and c: "\<And>e r. has (g (clists (db s))) (e, r) \<Longrightarrow> has (clists (db s)) (e, r)"
    and e: "\<And>ep k b v. entry ep k b v (db_update (clists_update g) s) \<Longrightarrow> \<exists>c. entry ep k c v s"
  shows "gc_inv s'"
proof -
  let ?t = "db_update (clists_update g) s"
  have rows: "clists (db s') = g (clists (db s))" "owners (db s') = owners (db s)" "vatConfigs (db s') = vatConfigs (db s)"
    "remoteInfos (db s') = remoteInfos (db s)" "cache s' = cache s" "promise_rows s' = promise_rows s"
    using same_but_countsD [OF f, of "\<lambda>t. clists (db t)"] same_but_countsD [OF f, of "\<lambda>t. owners (db t)"]
      same_but_countsD [OF f, of "\<lambda>t. vatConfigs (db t)"] same_but_countsD [OF f, of "\<lambda>t. remoteInfos (db t)"]
      same_but_countsD [OF f, of cache] same_but_countsD [OF f, of promise_rows]
    by (simp_all add: without_counts_def promise_rows_def)
  show ?thesis
  proof (rule gc_inv_flags [OF inv _ a])
    show "clist_wf s'" using wf same_but_counts_wf [OF f] by simp
    show "promise_wf s'" using inv promise_rows_cong(2) [OF rows(6)] by (simp add: gc_inv_def)
    show "\<exists>c. entry ep k c v s" if "entry ep k b v s'" for ep k b v
      using e that same_but_counts_entry [OF f] by simp
    show "has (pstates (db s')) k" if "has (pstates (db s)) k" for k using that rows(6) by (simp add: promise_rows_def)
  qed (use c l in \<open>simp_all add: rows getVatIDs_def getTerminatedVats_def getRemoteIDs_def gc_action_list_def\<close>)
qed


lemma entry_of_row: "clist_wf s \<Longrightarrow> isKRef k \<Longrightarrow> hasCListEntry ep k s \<Longrightarrow> \<exists>b v. entry ep k b v s"
  using clist_wfD_kref [of s ep k] unfolding hasCListEntry_def has_def by (metis not_None_eq)

lemma clearReachableFlag_gc:
  assumes k: "isKRef k"
  shows "hoare (given_up ep D W) (clearReachableFlag ep k) (\<lambda>_ s. given_up ep D W s \<and> (\<forall>b v. entry ep k b v s \<longrightarrow> \<not> b)) (\<lambda>_. given_up ep D W)"
  unfolding hoare_def
proof (intro allI impI)
  fix s assume g: "given_up ep D W s"
  then have inv: "gc_inv s" and wf: "clist_wf s" and a: "acct {#} s" by (simp_all add: given_up_def gc_inv_def)
  show "case clearReachableFlag ep k s of (Inr x, s') \<Rightarrow> given_up ep D W s' \<and> (\<forall>b v. entry ep k b v s' \<longrightarrow> \<not> b) | (Inl e, s') \<Rightarrow> given_up ep D W s'"
  proof (cases "hasCListEntry ep k s")
    case False
    then have "\<exists>e. clearReachableFlag ep k s = (Inl e, s)"
      by (simp add: clearReachableFlag_def getReachableAndVatSlot_def getRequired_def hasCListEntry_def has_def bnd_run)
    then show ?thesis using g by auto
  next
    case True
    then obtain b v where e: "entry ep k b v s" using entry_of_row [OF wf k] by blast
    have id: "isEndpointId ep" using e by (simp add: entry_def)
    obtain s' where run: "clearReachableFlag ep k s = (Inr (), s')" and a': "acct {#} s'" and f: "same_but_counts (set_flag ep k False v s) s'"
      using clearReachableFlag_run [OF e a gc_inv_retired_ok [OF inv id]] by blast
    have l: "live j s' = live j s" for j using live_sameD [OF live_same_clear run] .
    have "gc_inv s'"
    proof (rule gc_inv_clist_change [OF inv f [unfolded set_flag_def] a'])
      show "clist_wf (db_update (clists_update (tput (ep, k) (buildReachableAndVatSlot False v))) s)"
        using clist_wf_set_flag [OF wf e, of False] by (simp add: set_flag_def)
      show "has (clists (db s)) (d, r)" if "has (tput (ep, k) (buildReachableAndVatSlot False v) (clists (db s))) (d, r)" for d r
        using that True by (auto simp: hasCListEntry_def)
      show "\<exists>c. entry d j c w s" if "entry d j c' w (db_update (clists_update (tput (ep, k) (buildReachableAndVatSlot False v))) s)" for d j c' w
        using that e by (cases "d = ep \<and> j = k") (auto simp: entry_def)
    qed (rule l)
    moreover have "hasCListEntry ep j s' = hasCListEntry ep j s" for j
      using True by (auto simp: hasCListEntry_def same_but_counts_clists [OF f] set_flag_def)
    moreover have "\<not> c" if "entry ep k c w s'" for c w
      using that by (simp add: entry_def same_but_counts_clists [OF f] set_flag_def)
    moreover have "owners (db s') = owners (db s)" using same_but_countsD [OF f, of "\<lambda>t. owners (db t)"] by (simp add: without_counts_def set_flag_def)
    ultimately show ?thesis using g run by (auto simp: given_up_def)
  qed
qed

lemma forgetKref_gc:
  assumes k: "isKRef k"
  shows "hoare (given_up ep D W) (forgetKref ep k) (\<lambda>_. given_up ep (insert k D) W) (\<lambda>_. given_up ep D W)"
  unfolding hoare_def
proof (intro allI impI)
  fix s assume g: "given_up ep D W s"
  then have inv: "gc_inv s" and wf: "clist_wf s" and a: "acct {#} s" by (simp_all add: given_up_def gc_inv_def)
  show "case forgetKref ep k s of (Inr x, s') \<Rightarrow> given_up ep (insert k D) W s' | (Inl e, s') \<Rightarrow> given_up ep D W s'"
  proof (cases "hasCListEntry ep k s")
    case False
    then have "forgetKref ep k s = (Inr (), s)" using krefToEref_none [of s ep k] by (simp add: forgetKref_def hasCListEntry_def)
    then show ?thesis using g False by (simp add: given_up_def)
  next
    case True
    then obtain b v where e: "entry ep k b v s" using entry_of_row [OF wf k] by blast
    have id: "isEndpointId ep" and "v \<noteq> []" using e by (auto simp: entry_def isERef_def elim!: isVRefE isRRefE)
    obtain s' where run: "deleteCListEntry ep k v s = (Inr (), s')" and a': "acct {#} s'" and f: "same_but_counts (drop_entry ep k v s) s'"
      using deleteCListEntry_run [OF e a gc_inv_retired_ok [OF inv id]] by blast
    have l: "live j s' = live j s" for j using live_sameD [OF live_same_deleteCListEntry run] .
    let ?g = "\<lambda>c. tdel (ep, v) (tdel (ep, k) c)"
    have d: "drop_entry ep k v s = db_update (clists_update ?g) s" by (simp add: drop_entry_def)
    have "gc_inv s'"
    proof (rule gc_inv_clist_change [OF inv f [unfolded d] a'])
      show "clist_wf (db_update (clists_update ?g) s)" using clist_wf_drop_entry [OF wf e] by (simp add: d)
      show "\<exists>c. entry d j c w s" if "entry d j c' w (db_update (clists_update ?g) s)" for d j c' w
        using that by (auto simp: entry_def split: if_splits)
    qed (simp_all add: l)
    moreover have "hasCListEntry ep j s' \<longleftrightarrow> hasCListEntry ep j s \<and> j \<noteq> k \<and> j \<noteq> v" for j
      by (auto simp: hasCListEntry_def same_but_counts_clists [OF f] has_drop_entry)
    moreover have "owners (db s') = owners (db s)" using same_but_countsD [OF f, of "\<lambda>t. owners (db t)"] by (simp add: without_counts_def drop_entry_def)
    moreover have "forgetKref ep k s = (Inr (), s')"
      using krefToEref_entry [OF e] \<open>v \<noteq> []\<close> run by (simp add: forgetKref_def)
    ultimately show ?thesis using g by (auto simp: given_up_def)
  qed
qed


lemma orphanKernelObject_gc:
  "hoare (given_up ep D W) (orphanKernelObject k ep) (\<lambda>_. given_up ep D (insert k W)) (\<lambda>_. given_up ep D W)"
  unfolding hoare_def
proof (intro allI impI)
  fix s assume g: "given_up ep D W s"
  then have inv: "gc_inv s" and oo: "owners_ok s" by (simp_all add: given_up_def gc_inv_def)
  let ?t = "db_update (owners_update (tdel k)) s"
  have "gc_inv (maybeFreeKrefs_update (set_add k) ?t)"
    by (rule gc_inv_frame [OF gc_inv_disown [OF inv, of k]])
      (simp_all add: getVatIDs_def getTerminatedVats_def getRemoteIDs_def promise_rows_def gc_action_list_def)
  then show "case orphanKernelObject k ep s of (Inr x, s') \<Rightarrow> given_up ep D (insert k W) s' | (Inl e, s') \<Rightarrow> given_up ep D W s'"
    using g getOwner_run [OF oo, of k]
    by (auto simp: orphanKernelObject_def addMaybeFree_def given_up_def hasCListEntry_def)
qed

lemma hoare_read: "(\<And>s. snd (m s) = s) \<Longrightarrow> hoare P m (\<lambda>_. P) (\<lambda>_. P)"
  unfolding hoare_def by (auto split: prod.splits sum.splits) (metis snd_conv)+

lemma reads [simp]:
  "snd (lift r s) = s" "snd (require b e s) = s" "snd (ret x s) = s" "snd (getReachableFlag ep k s) = s" "snd (getOwner k s) = s"
  "snd (krefToEref ep k s) = s"
  by (simp_all add: getReachableFlag_def getOwner_def krefToEref_def getRequired_def bnd_run thn_run split: option.splits sum.splits prod.splits)

lemma retire_import_gc:
  assumes "isKRef k"
  shows "hoare (given_up ep D W) (retire_import ep k) (\<lambda>_. given_up ep (insert k D) W) (\<lambda>_. given_up ep D W)"
  unfolding retire_import_def
  by (intro hoare_bnd [OF hoare_read] hoare_thn [OF hoare_read] forgetKref_gc assms) simp_all

lemma cleanup_one_gc:
  assumes "isKRef k"
  shows "hoare (given_up ep D D) (cleanup_one chk ep k) (\<lambda>_. given_up ep (insert k D) (insert k D)) (\<lambda>_. gc_inv)"
proof -
  have weak: "hoare P m Q (\<lambda>_. given_up ep A B) \<Longrightarrow> hoare P m Q (\<lambda>_. gc_inv)" for P m Q A B
    by (erule hoare_conseq) (simp_all add: given_up_def)
  have rd: "hoare (given_up ep A B) m (\<lambda>_. given_up ep A B) (\<lambda>_. gc_inv)" if "\<And>s. snd (m s) = s" for m A B
    by (rule weak [OF hoare_read]) (rule that)
  have last: "hoare (given_up ep D D) (thn (forgetKref ep k) (orphanKernelObject k ep)) (\<lambda>_. given_up ep (insert k D) (insert k D)) (\<lambda>_. gc_inv)"
    by (rule hoare_thn [OF weak [OF forgetKref_gc [OF assms]] weak [OF orphanKernelObject_gc]])
  have flag: "snd (bnd (getReachableFlag ep k) (\<lambda>r. require (\<not> r) e) s) = s" for s e
    using reads(4) [of ep k s] by (cases "getReachableFlag ep k s") (auto simp: bnd_run split: sum.splits)
  have chk: "snd ((if chk then bnd (getReachableFlag ep k) (\<lambda>r. require (\<not> r) e) else ret ()) s) = s" for s e
    by (simp add: flag)
  show ?thesis
    unfolding cleanup_one_def
    by (rule last | rule hoare_bnd [OF rd] | rule hoare_thn [OF rd] | rule chk
      | fastforce simp: bnd_run split: option.split sum.splits)+
qed

text \<open>Over a list.\<close>

lemma hoare_forEach_done:
  assumes "\<And>x D. x \<in> set xs \<Longrightarrow> hoare (I D) (f x) (\<lambda>_. I (insert x D)) R"
  shows "hoare (I D) (forEach xs f) (\<lambda>_. I (set xs \<union> D)) R"
  using assms
proof (induction xs arbitrary: D)
  case Nil
  then show ?case by (simp add: hoare_def)
next
  case (Cons x xs)
  have "hoare (I (insert x D)) (forEach xs f) (\<lambda>_. I (set xs \<union> insert x D)) R" by (rule Cons.IH) (simp add: Cons.prems)
  then show ?case unfolding forEach.simps using hoare_thn [OF Cons.prems [of x D]] by simp
qed

section \<open>A store with an action queued\<close>

text \<open>One vat, the owner of an object nobody holds, with the two actions the collector queues for it.\<close>

definition demo_offer :: ctx where
  "demo_offer = with_actions [''v1 dropExport ko1'', ''v1 retireExport ko1''] (db_update (vatConfigs_update (tput ''v1'' ''{}'')) demo_store)"

lemma demo_offer_rows:
  "clists (db demo_offer) = clists (db demo_store)" "refCounts (db demo_offer) = refCounts (db demo_store)"
  "owners (db demo_offer) = tput ''ko1'' ''v1'' tempty" "promise_rows demo_offer = promise_rows demo_store"
  "gc_action_list demo_offer = [gc_action ''v1'' DropExport ''ko1'', gc_action ''v1'' RetireExport ''ko1'']"
  by (simp_all add: demo_offer_def gc_action_def) (simp_all add: promise_rows_def demo_store_eq)

lemma demo_offer_vats: "set (getVatIDs demo_offer) = {''v1''}" "\<not> isVatTerminated ''v1'' demo_offer"
  unfolding demo_offer_def demo_store_eq makeKernelStore_fresh
  by (auto simp: getVatIDs_def with_actions_def isVatTerminated_def getTerminatedVats_def empty_kdb_def init_cached_rows_def init_row_def)

lemma demo_v1: "isEndpointId ''v1''"
  by (simp add: isEndpointId_def all_digits_def is_digit_def)

lemma demo_offer_quiet: "isEndpointId e \<Longrightarrow> \<not> retiring (gc_action_list demo_offer) e k"
  using gc_action_inj [of e "''v1''"] demo_v1 by (simp add: retiring_action demo_offer_rows)

lemma demo_offer_credits: "credits demo_offer = {#}"
proof -
  let ?t = "db_update (vatConfigs_update (tput ''v1'' ''{}'')) demo_store"
  have "credits demo_offer = credits ?t" unfolding demo_offer_def
    by (rule credits_with_actions) (use demo_offer_quiet in \<open>simp add: demo_offer_def retiring_def\<close>)
  then show ?thesis using demo_credits by (simp add: credits_def)
qed

lemma demo_offer_live: "live k demo_offer \<longleftrightarrow> k = ''ko1''"
proof -
  have "live k demo_store \<longleftrightarrow> k = ''ko1''"
    unfolding demo_store_eq makeKernelStore_fresh by (simp add: live_def empty_kdb_def)
  then show ?thesis by (simp add: live_def demo_offer_rows)
qed

lemma demo_offer_inv: "gc_inv demo_offer"
proof -
  have "store_ok {#} demo_store" by (rule demo_store_ok)
  then have p: "promise_wf demo_store" "acct {#} demo_store" by (simp_all add: store_ok_def)
  have "promise_wf demo_offer" using p(1) promise_rows_cong(2) [OF demo_offer_rows(4)] by simp
  moreover have "acct {#} demo_offer" using p(2) by (simp add: acct_def exact_def row_exact_def demo_offer_credits demo_credits demo_offer_rows)
  moreover have "clist_wf demo_offer" using demo_wf clist_wf_cong [OF demo_offer_rows(1)] by simp
  moreover have "endpoints_known demo_offer" by (auto simp: endpoints_known_def demo_offer_rows demo_offer_vats demo_clists split: if_splits)
  moreover have "owners_ok demo_offer"
  proof -
    have "eref_exports v" if "entry ''v1'' ''ko1'' b v demo_offer" for b v
    proof -
      have "entry ''v1'' ''ko1'' b v demo_store" using that entry_cong [OF demo_offer_rows(1)] by simp
      then have "v = ''o+0''" using entry_unique [OF demo_entry] by blast
      then show ?thesis by (simp add: eref_exports_def parseRef_def Let_def numeral_2_eq_2 all_digits_def is_digit_def)
    qed
    then show ?thesis by (simp add: owners_ok_def demo_offer_rows demo_v1)
  qed
  ultimately show ?thesis using demo_offer_quiet demo_offer_live demo_krefs by (auto simp: gc_inv_def)
qed

lemma demo_offer_queued: "queued e t k demo_offer \<longleftrightarrow> e = ''v1'' \<and> k = ''ko1'' \<and> t \<noteq> RetireImport"
  using gc_action_inj [of e "''v1''"] demo_v1 by (cases t) (auto simp: queued_def demo_offer_rows)

lemma demo_offer_applies: "applies ''v1'' DropExport ''ko1'' demo_offer"
  using demo_entry entry_cong [OF demo_offer_rows(1)] by (auto simp: applies_def demo_offer_live demo_offer_credits)

lemma demo_offer_actions: "actions_wf demo_offer"
  using demo_v1 demo_krefs(1,3) unfolding actions_wf_def demo_offer_rows list.set by blast

section \<open>Properties\<close>

text \<open>
  C33. On a store whose counts are exact and whose queued actions are well formed,
  \<open>processGCActionSet\<close> returns the krefs of the first group of actions, by endpoint and priority
  (drops before retirements of exports before retirements of imports), in which some action still
  applies: exactly those krefs, in order, each once. The groups tried before it had nothing left to do and are
  removed from the durable set with it; the later groups stay. It returns nothing only when no queued
  action applies, and then leaves no action queued.
\<close>

theorem processGCActionSet_correct:
  assumes "clist_wf s" and "acct {#} s" and "actions_wf s"
  shows "\<exists>r s'. processGCActionSet s = (Inr r, s') \<and> (s' = s \<or> (\<exists>acts. s' = with_actions acts s)) \<and>
    (case r of None \<Rightarrow> gc_action_list s' = [] \<and> (\<forall>e t k. queued e t k s \<longrightarrow> \<not> applies e t k s)
     | Some i \<Rightarrow> (\<exists>ep ty ks. i = GCAction (queueTypeFromActionType ty) ep ks \<and> ks \<noteq> [] \<and> sorted ks \<and> distinct ks \<and>
         set ks = {k. queued ep ty k s \<and> applies ep ty k s} \<and>
         (\<forall>e t k. queued e t k s \<and> before (e, t) (ep, ty) \<longrightarrow> \<not> applies e t k s) \<and>
         (\<forall>e t k. queued e t k s' \<longleftrightarrow> queued e t k s \<and> before (ep, ty) (e, t))))"
  using assms by (rule processGCActionSet_run)

theorem processGCActionSet_correct_witness:
  "\<exists>ks s'. processGCActionSet demo_offer = (Inr (Some (GCAction DropExports ''v1'' ks)), s') \<and> set ks = {''ko1''} \<and>
    \<not> queued ''v1'' DropExport ''ko1'' s' \<and> queued ''v1'' RetireExport ''ko1'' s'"
proof -
  have "clist_wf demo_offer" "acct {#} demo_offer" using demo_offer_inv by (simp_all add: gc_inv_def)
  then obtain r s' where run: "processGCActionSet demo_offer = (Inr r, s')"
    and c: "case r of None \<Rightarrow> gc_action_list s' = [] \<and> (\<forall>e t k. queued e t k demo_offer \<longrightarrow> \<not> applies e t k demo_offer)
     | Some i \<Rightarrow> (\<exists>ep ty ks. i = GCAction (queueTypeFromActionType ty) ep ks \<and> ks \<noteq> [] \<and> sorted ks \<and> distinct ks \<and>
         set ks = {k. queued ep ty k demo_offer \<and> applies ep ty k demo_offer} \<and>
         (\<forall>e t k. queued e t k demo_offer \<and> before (e, t) (ep, ty) \<longrightarrow> \<not> applies e t k demo_offer) \<and>
         (\<forall>e t k. queued e t k s' \<longleftrightarrow> queued e t k demo_offer \<and> before (ep, ty) (e, t)))"
    using processGCActionSet_correct [OF _ _ demo_offer_actions] by blast
  have q: "queued ''v1'' DropExport ''ko1'' demo_offer" by (simp add: demo_offer_queued)
  then obtain i where r: "r = Some i" using c demo_offer_applies by (cases r) auto
  then obtain ep ty ks where i: "i = GCAction (queueTypeFromActionType ty) ep ks" and ne: "ks \<noteq> []"
    and ks: "set ks = {k. queued ep ty k demo_offer \<and> applies ep ty k demo_offer}"
    and b: "\<forall>e t k. queued e t k demo_offer \<and> before (e, t) (ep, ty) \<longrightarrow> \<not> applies e t k demo_offer"
    and a: "\<forall>e t k. queued e t k s' \<longleftrightarrow> queued e t k demo_offer \<and> before (ep, ty) (e, t)" using c by auto
  have "hd ks \<in> set ks" using ne by simp
  then have e: "ep = ''v1''" "ty \<noteq> RetireImport" unfolding ks demo_offer_queued by simp_all
  moreover have "ty \<noteq> RetireExport" using b [rule_format, of "''v1''" DropExport "''ko1''"] q demo_offer_applies e by (auto simp: before_def)
  ultimately have ty: "ty = DropExport" by (cases ty) simp_all
  have "set ks = {''ko1''}" unfolding ks using e ty q demo_offer_applies by (auto simp: demo_offer_queued)
  moreover have "\<not> queued ''v1'' DropExport ''ko1'' s'" "queued ''v1'' RetireExport ''ko1'' s'"
    using a e ty by (simp_all add: before_def demo_offer_queued)
  ultimately show ?thesis using run r i e ty by auto
qed

text \<open>
  The endpoint's entries for the krefs of \<open>D\<close> are there, marked unreachable; every other row of every
  c-list is as it was in \<open>s0\<close>.
\<close>

definition dropped :: "string \<Rightarrow> ctx \<Rightarrow> string set \<Rightarrow> ctx \<Rightarrow> bool" where
  "dropped ep s0 D s \<longleftrightarrow> (\<forall>j\<in>D. \<exists>v. entry ep j False v s) \<and>
     (\<forall>e r. (e = ep \<and> r \<in> D) \<or> tget (clists (db s)) (e, r) = tget (clists (db s0)) (e, r)) \<and> owners (db s) = owners (db s0)"

lemma clearReachableFlag_dropped:
  assumes k: "isKRef k" and d: "dropped ep s0 D s" and inv: "gc_inv s" and run: "clearReachableFlag ep k s = (Inr x, s')"
  shows "dropped ep s0 (insert k D) s'"
proof -
  have wf: "clist_wf s" and a: "acct {#} s" using inv by (simp_all add: gc_inv_def)
  have "hasCListEntry ep k s"
    using run by (auto simp: clearReachableFlag_def getReachableAndVatSlot_def getRequired_def hasCListEntry_def has_def bnd_run split: option.splits)
  then obtain b v where e: "entry ep k b v s" using entry_of_row [OF wf k] by blast
  have id: "isEndpointId ep" using e by (simp add: entry_def)
  have f: "same_but_counts (set_flag ep k False v s) s'"
    using clearReachableFlag_run [OF e a gc_inv_retired_ok [OF inv id]] run by auto
  have cl: "clists (db s') = clists (db (set_flag ep k False v s))" using same_but_counts_clists [OF f] by (simp add: fun_eq_iff)
  have kept: "entry ep j c w s'" if "entry ep j c w s" "j \<noteq> k" for j c w
  proof -
    have "w \<noteq> k" using that(1) isKRef_neq_isERef [OF k] by (auto simp: entry_def)
    then show ?thesis using that by (simp add: entry_def cl set_flag_def)
  qed
  have "entry ep k False v s'"
    using set_flag_entry [OF e, of False] entry_cong [OF cl] by blast
  moreover have "owners (db s') = owners (db s)"
    using same_but_countsD [OF f, of "\<lambda>t. owners (db t)"] by (simp add: without_counts_def set_flag_def)
  moreover have "\<exists>w. entry ep j False w s'" if "j \<in> D" "j \<noteq> k" for j using d that kept unfolding dropped_def by blast
  moreover have "(e = ep \<and> r \<in> insert k D) \<or> tget (clists (db s')) (e, r) = tget (clists (db s0)) (e, r)" for e r
    using d by (auto simp: dropped_def cl set_flag_def)
  ultimately show ?thesis using d unfolding dropped_def by (metis insertE)
qed

lemma performDropImports_dropped:
  assumes k: "\<forall>k\<in>set krefs. isKRef k"
  shows "hoare (\<lambda>s. gc_inv s \<and> s = s0) (performDropImports krefs ep) (\<lambda>_ s. gc_inv s \<and> dropped ep s0 (set krefs) s) (\<lambda>_. gc_inv)"
proof -
  have "hoare (\<lambda>s. given_up ep {} {} s \<and> dropped ep s0 {} s) (forEach krefs (clearReachableFlag ep))
      (\<lambda>_ s. given_up ep {} {} s \<and> dropped ep s0 (set krefs \<union> {}) s) (\<lambda>_. gc_inv)"
  proof (rule hoare_forEach_done [where I = "\<lambda>D s. given_up ep {} {} s \<and> dropped ep s0 D s"])
    fix x D assume "x \<in> set krefs"
    then have x: "isKRef x" using k by blast
    show "hoare (\<lambda>s. given_up ep {} {} s \<and> dropped ep s0 D s) (clearReachableFlag ep x)
        (\<lambda>_ s. given_up ep {} {} s \<and> dropped ep s0 (insert x D) s) (\<lambda>_. gc_inv)"
      using clearReachableFlag_gc [OF x, of ep "{}" "{}"] clearReachableFlag_dropped [OF x, of ep s0 D]
      unfolding hoare_def by (auto simp: given_up_def split: prod.splits sum.splits)
  qed
  then show ?thesis unfolding performDropImports_def by (rule hoare_conseq) (auto simp: given_up_def dropped_def)
qed

lemma dropped_flag: "dropped ep s0 D s \<Longrightarrow> k \<in> D \<Longrightarrow> getReachableFlag ep k s = (Inr False, s)"
  unfolding dropped_def using getReachableFlag_entry by blast

text \<open>
  C34. The three syscalls by which an endpoint gives references up, on krefs: dropping and
  retiring imports, retiring or abandoning exports. Whether a call returns or throws partway
  through its list, the counts are exact and the store is well formed afterwards. A call that
  returns has done it for the whole list: what was dropped is still in the endpoint's c-list, marked unreachable, with
  no other row of any c-list and no owner changed; no entry is left for what was retired, no owner for
  exports that were given up.
\<close>

theorem endpoint_gc_syscalls:
  assumes "\<forall>k\<in>set krefs. isKRef k"
  shows "hoare (\<lambda>s. gc_inv s \<and> s = s0) (performDropImports krefs ep)
      (\<lambda>_ s. gc_inv s \<and> (\<forall>k\<in>set krefs. getReachableFlag ep k s = (Inr False, s)) \<and> owners (db s) = owners (db s0) \<and>
        (\<forall>e r. (e = ep \<and> r \<in> set krefs) \<or> tget (clists (db s)) (e, r) = tget (clists (db s0)) (e, r))) (\<lambda>_. gc_inv) \<and>
    hoare gc_inv (performRetireImports krefs ep) (\<lambda>_ s. gc_inv s \<and> (\<forall>k\<in>set krefs. \<not> hasCListEntry ep k s)) (\<lambda>_. gc_inv) \<and>
    hoare gc_inv (performExportCleanup krefs chk ep)
      (\<lambda>_ s. gc_inv s \<and> (\<forall>k\<in>set krefs. \<not> hasCListEntry ep k s \<and> \<not> has (owners (db s)) k)) (\<lambda>_. gc_inv)"
proof (intro conjI)
  show "hoare (\<lambda>s. gc_inv s \<and> s = s0) (performDropImports krefs ep)
      (\<lambda>_ s. gc_inv s \<and> (\<forall>k\<in>set krefs. getReachableFlag ep k s = (Inr False, s)) \<and> owners (db s) = owners (db s0) \<and>
        (\<forall>e r. (e = ep \<and> r \<in> set krefs) \<or> tget (clists (db s)) (e, r) = tget (clists (db s0)) (e, r))) (\<lambda>_. gc_inv)"
  proof (rule hoare_conseq [OF performDropImports_dropped [OF assms, of s0 ep]])
    fix x s assume d: "gc_inv s \<and> dropped ep s0 (set krefs) s"
    then have "\<forall>k\<in>set krefs. getReachableFlag ep k s = (Inr False, s)" using dropped_flag by blast
    with d show "gc_inv s \<and> (\<forall>k\<in>set krefs. getReachableFlag ep k s = (Inr False, s)) \<and> owners (db s) = owners (db s0) \<and>
        (\<forall>e r. (e = ep \<and> r \<in> set krefs) \<or> tget (clists (db s)) (e, r) = tget (clists (db s0)) (e, r))"
      unfolding dropped_def by blast
  qed simp_all
  have "hoare (given_up ep {} {}) (forEach krefs (retire_import ep)) (\<lambda>_. given_up ep (set krefs \<union> {}) {}) (\<lambda>_. gc_inv)"
  proof (rule hoare_forEach_done [where I = "\<lambda>D. given_up ep D {}"])
    fix x D assume "x \<in> set krefs"
    then have "isKRef x" using assms by blast
    then show "hoare (given_up ep D {}) (retire_import ep x) (\<lambda>_. given_up ep (insert x D) {}) (\<lambda>_. gc_inv)"
      by (rule hoare_conseq [OF retire_import_gc [of x ep D "{}"]]) (simp_all add: given_up_def)
  qed
  then show "hoare gc_inv (performRetireImports krefs ep) (\<lambda>_ s. gc_inv s \<and> (\<forall>k\<in>set krefs. \<not> hasCListEntry ep k s)) (\<lambda>_. gc_inv)"
    unfolding performRetireImports_def by (rule hoare_conseq) (simp_all add: given_up_def)
  have "hoare (given_up ep {} {}) (forEach krefs (cleanup_one chk ep)) (\<lambda>_. given_up ep (set krefs \<union> {}) (set krefs \<union> {})) (\<lambda>_. gc_inv)"
    by (rule hoare_forEach_done [where I = "\<lambda>D. given_up ep D D"], rule cleanup_one_gc) (use assms in simp)
  then show "hoare gc_inv (performExportCleanup krefs chk ep)
      (\<lambda>_ s. gc_inv s \<and> (\<forall>k\<in>set krefs. \<not> hasCListEntry ep k s \<and> \<not> has (owners (db s)) k)) (\<lambda>_. gc_inv)"
    unfolding performExportCleanup_def by (rule hoare_conseq) (simp_all add: given_up_def)
qed

theorem endpoint_gc_syscalls_witness:
  "(\<exists>s'. performDropImports [''ko1''] ''v1'' demo_offer = (Inr (), s') \<and> gc_inv s' \<and>
      getReachableFlag ''v1'' ''ko1'' demo_offer = (Inr True, demo_offer) \<and> getReachableFlag ''v1'' ''ko1'' s' = (Inr False, s')) \<and>
    (\<exists>s'. performExportCleanup [''ko1''] False ''v1'' demo_offer = (Inr (), s') \<and> gc_inv s' \<and> \<not> hasCListEntry ''v1'' ''ko1'' s')"
proof -
  have e: "entry ''v1'' ''ko1'' True ''o+0'' demo_offer" using demo_entry entry_cong [OF demo_offer_rows(1)] by simp
  have "\<exists>s'. performExportCleanup [''ko1''] False ''v1'' demo_offer = (Inr (), s')"
  proof -
    have inv: "gc_inv demo_offer" by (rule demo_offer_inv)
    then have "acct {#} demo_offer" "owners_ok demo_offer" by (simp_all add: gc_inv_def)
    obtain s1 where d: "deleteCListEntry ''v1'' ''ko1'' ''o+0'' demo_offer = (Inr (), s1)" and f: "same_but_counts (drop_entry ''v1'' ''ko1'' ''o+0'' demo_offer) s1"
      using deleteCListEntry_run [OF e \<open>acct {#} demo_offer\<close> gc_inv_retired_ok [OF inv demo_v1]] by blast
    have "owners (db s1) = owners (db demo_offer)" using same_but_countsD [OF f, of "\<lambda>t. owners (db t)"] by (simp add: without_counts_def drop_entry_def)
    then have o: "getOwner ''ko1'' s1 = (Inr (Some ''v1''), s1)" using demo_v1
      by (simp add: getOwner_def demo_offer_rows insistEndpointId_def thn_run)
    have p: "parseRef ''ko1'' = Inr \<lparr>rcontext = KernelCtx, rdirection = None, risPromise = False, rindex = ''1''\<rparr>"
      using parseRef_kref [OF demo_krefs(1)] by simp
    have "parseRef ''o+0'' = Inr \<lparr>rcontext = VatCtx, rdirection = Some Export, risPromise = False, rindex = ''0''\<rparr>"
      by (simp add: parseRef_def Let_def numeral_2_eq_2 all_digits_def is_digit_def)
    then have "cleanup_one False ''v1'' ''ko1'' demo_offer = orphanKernelObject ''ko1'' ''v1'' s1"
      using p getOwner_run [OF \<open>owners_ok demo_offer\<close>, of "''ko1''"] krefToEref_entry [OF e] d
      by (simp add: cleanup_one_def forgetKref_def demo_offer_rows)
    also have "\<exists>s'. \<dots> = (Inr (), s')" using o by (simp add: orphanKernelObject_def addMaybeFree_def)
    finally show ?thesis by (auto simp: performExportCleanup_def)
  qed
  then obtain s' where run: "performExportCleanup [''ko1''] False ''v1'' demo_offer = (Inr (), s')" by blast
  have "hoare gc_inv (performExportCleanup [''ko1''] False ''v1'')
      (\<lambda>_ s. gc_inv s \<and> (\<forall>k\<in>set [''ko1'']. \<not> hasCListEntry ''v1'' k s \<and> \<not> has (owners (db s)) k)) (\<lambda>_. gc_inv)"
    using endpoint_gc_syscalls [of "[''ko1'']" demo_offer "''v1''" False] demo_krefs(1) by simp
  from hoareD [OF this demo_offer_inv run] run
  have cleanup: "\<exists>s'. performExportCleanup [''ko1''] False ''v1'' demo_offer = (Inr (), s') \<and> gc_inv s' \<and> \<not> hasCListEntry ''v1'' ''ko1'' s'" by auto
  have "acct {#} demo_offer" using demo_offer_inv by (simp add: gc_inv_def)
  then obtain s1 where "clearReachableFlag ''v1'' ''ko1'' demo_offer = (Inr (), s1)"
    using clearReachableFlag_run [OF e _ gc_inv_retired_ok [OF demo_offer_inv demo_v1]] by blast
  then have drop: "performDropImports [''ko1''] ''v1'' demo_offer = (Inr (), s1)" by (simp add: performDropImports_def)
  have "hoare (\<lambda>s. gc_inv s \<and> s = demo_offer) (performDropImports [''ko1''] ''v1'')
      (\<lambda>_ s. gc_inv s \<and> (\<forall>k\<in>set [''ko1'']. getReachableFlag ''v1'' k s = (Inr False, s)) \<and> owners (db s) = owners (db demo_offer) \<and>
        (\<forall>e r. (e = ''v1'' \<and> r \<in> set [''ko1'']) \<or> tget (clists (db s)) (e, r) = tget (clists (db demo_offer)) (e, r))) (\<lambda>_. gc_inv)"
    using endpoint_gc_syscalls [of "[''ko1'']" demo_offer "''v1''" False] demo_krefs(1) by simp
  from hoareD [OF this _ drop] drop getReachableFlag_entry [OF e] cleanup demo_offer_inv show ?thesis by auto
qed

end
