(* ===== verification/Transactions.thy ===== *)
theory Transactions
  imports Prelude
begin

text \<open>
  Transactions and savepoints over a SQLite connection (\<open>makeTransactionMethods\<close> of
  \<open>kernel-store/src/sqlite/transactions.ts\<close>). The connection is a parameter, a \<open>driver\<close> whose
  statements may fail; locale \<open>sqlite\<close> states what SQLite documents of them, and \<open>mem_driver\<close>
  is a reference engine with it, in which any statement may be made to fail, with or without
  SQLite rolling the transaction back by itself. Errors carry no cause: \<open>abortFailure\<close> and
  \<open>lossCause\<close> are kept as the code keeps them, and only ever become the cause of another error.
\<close>

section \<open>The connection\<close>

record 'd driver =
  dr_inTransaction :: "'d \<Rightarrow> bool"
  dr_begin :: "('d, unit) sm"
  dr_commit :: "('d, unit) sm"
  dr_abort :: "('d, unit) sm"
  dr_savepoint :: "string \<Rightarrow> ('d, unit) sm"
  dr_rollback :: "string \<Rightarrow> ('d, unit) sm"
  dr_release :: "string \<Rightarrow> ('d, unit) sm"

record 'd tx =
  engine :: 'd
  spStack :: "string list"
  txAbandoned :: bool
  abortFailure :: "kerror option"
  lossCause :: "kerror option"

text \<open>A statement run on the connection.\<close>

definition onEngine :: "('d, 'a) sm \<Rightarrow> ('d tx, 'a) sm" where
  "onEngine m = (\<lambda>t. case m (engine t) of (r, d) \<Rightarrow> (r, t\<lparr>engine := d\<rparr>))"

text \<open>\<open>assertSafeIdentifier\<close>: \<open>/^[A-Za-z_]\w*$/\<close>\<close>

definition is_letter :: "char \<Rightarrow> bool" where
  "is_letter c \<longleftrightarrow> (CHR ''A'' \<le> c \<and> c \<le> CHR ''Z'') \<or> (CHR ''a'' \<le> c \<and> c \<le> CHR ''z'') \<or> c = CHR ''_''"

definition safeIdentifier :: "string \<Rightarrow> bool" where
  "safeIdentifier name \<longleftrightarrow> (case name of [] \<Rightarrow> False | c # cs \<Rightarrow> is_letter c \<and> list_all (\<lambda>c. is_letter c \<or> is_digit c) cs)"

definition assertSafeIdentifier :: "string \<Rightarrow> ('d tx, unit) sm" where
  "assertSafeIdentifier name = require (safeIdentifier name) (JsError ''Invalid identifier'' [name])"

section \<open>Guards\<close>

definition assertNotAbandoned :: "('d tx, unit) sm" where
  "assertNotAbandoned = bnd (gets txAbandoned) (\<lambda>ab. require (\<not> ab) (JsError ''transaction cannot be ended'' []))"

definition isTransactionLost :: "'d driver \<Rightarrow> 'd tx \<Rightarrow> bool" where
  "isTransactionLost dr t \<longleftrightarrow> 0 < length (spStack t) \<and> \<not> dr_inTransaction dr (engine t)"

definition assertWritable :: "'d driver \<Rightarrow> ('d tx, unit) sm" where
  "assertWritable dr = thn assertNotAbandoned
     (bnd (gets (\<lambda>t. (isTransactionLost dr t, take 1 (spStack t)))) (\<lambda>(lost, top).
        require (\<not> lost) (JsError ''SQLite ended the transaction holding savepoint'' top)))"

definition rollbackIfNeeded :: "'d driver \<Rightarrow> ('d tx, unit) sm" where
  "rollbackIfNeeded dr = bnd (gets (\<lambda>t. dr_inTransaction dr (engine t))) (\<lambda>inTx.
     if \<not> inTx then ret ()
     else thn (tryCatch (onEngine (dr_abort dr)) (\<lambda>e. thn (modify (\<lambda>t. t\<lparr>txAbandoned := True, abortFailure := Some e\<rparr>)) (fail e)))
       (modify (\<lambda>t. t\<lparr>spStack := [], txAbandoned := dr_inTransaction dr (engine t)\<rparr>)))"

definition discardTransaction :: "'d driver \<Rightarrow> ('d tx, unit) sm" where
  "discardTransaction dr = thn (modify (spStack_update (\<lambda>_. []))) (tryCatch (rollbackIfNeeded dr) (\<lambda>_. ret ()))"

text \<open>\<open>guardWrite\<close>, around a write the driver runs.\<close>

definition guardWrite :: "'d driver \<Rightarrow> ('d, 'a) sm \<Rightarrow> ('d tx, 'a) sm" where
  "guardWrite dr wr = thn (assertWritable dr)
     (tryCatch (onEngine wr) (\<lambda>e. bnd (gets (\<lambda>t. t)) (\<lambda>t.
        thn (if isTransactionLost dr t then modify (lossCause_update (\<lambda>_. Some e))
             else if \<not> txAbandoned t \<and> dr_inTransaction dr (engine t) \<and> length (spStack t) = 0 then discardTransaction dr
             else ret ())
          (fail e))))"

definition assertSavepointLive :: "'d driver \<Rightarrow> string \<Rightarrow> ('d tx, unit) sm" where
  "assertSavepointLive dr name = bnd (gets (\<lambda>t. dr_inTransaction dr (engine t))) (\<lambda>inTx.
     if inTx then ret ()
     else thn (modify (\<lambda>t. t\<lparr>spStack := [], lossCause := None\<rparr>))
       (fail (JsError ''SQLite already ended the transaction holding savepoint'' [name])))"

section \<open>Transactions\<close>

definition beginIfNeeded :: "'d driver \<Rightarrow> ('d tx, bool) sm" where
  "beginIfNeeded dr = thn (assertWritable dr)
     (bnd (gets (\<lambda>t. dr_inTransaction dr (engine t))) (\<lambda>inTx.
        if inTx then ret False else thn (onEngine (dr_begin dr)) (ret True)))"

definition commitIfNeeded :: "'d driver \<Rightarrow> ('d tx, unit) sm" where
  "commitIfNeeded dr = thn assertNotAbandoned
     (bnd (gets (\<lambda>t. \<not> dr_inTransaction dr (engine t) \<or> 0 < length (spStack t))) (\<lambda>skip.
        if skip then ret ()
        else tryCatch (onEngine (dr_commit dr)) (\<lambda>e. thn (discardTransaction dr) (fail e))))"

section \<open>Savepoints\<close>

text \<open>\<open>lastIndexOf\<close>\<close>

fun last_index :: "'a \<Rightarrow> 'a list \<Rightarrow> nat option" where
  "last_index x [] = None"
| "last_index x (y # ys) = (case last_index x ys of Some i \<Rightarrow> Some (Suc i) | None \<Rightarrow> if x = y then Some 0 else None)"

definition requireSavepoint :: "'d driver \<Rightarrow> string \<Rightarrow> ('d tx, nat) sm" where
  "requireSavepoint dr name = thn assertNotAbandoned (thn (assertSafeIdentifier name)
     (bnd (gets (\<lambda>t. last_index name (spStack t))) (\<lambda>idx.
        case idx of None \<Rightarrow> fail (JsError ''No such savepoint'' [name])
        | Some i \<Rightarrow> thn (assertSavepointLive dr name) (ret i))))"

definition createSavepoint :: "'d driver \<Rightarrow> string \<Rightarrow> ('d tx, unit) sm" where
  "createSavepoint dr name = thn (assertSafeIdentifier name)
     (bnd (beginIfNeeded dr) (\<lambda>started.
        thn (tryCatch (onEngine (dr_savepoint dr name)) (\<lambda>e. thn (if started then discardTransaction dr else ret ()) (fail e)))
          (modify (spStack_update (\<lambda>st. st @ [name])))))"

definition rollbackSavepoint :: "'d driver \<Rightarrow> string \<Rightarrow> ('d tx, unit) sm" where
  "rollbackSavepoint dr name = bnd (requireSavepoint dr name) (\<lambda>idx.
     thn (tryCatch (onEngine (dr_rollback dr name)) (\<lambda>e. thn (discardTransaction dr) (fail e)))
       (thn (modify (spStack_update (take idx)))
         (bnd (gets spStack) (\<lambda>st. if length st = 0 then rollbackIfNeeded dr else ret ()))))"

definition releaseSavepoint :: "'d driver \<Rightarrow> string \<Rightarrow> ('d tx, unit) sm" where
  "releaseSavepoint dr name = bnd (requireSavepoint dr name) (\<lambda>idx.
     thn (tryCatch (onEngine (dr_release dr name)) (\<lambda>e. thn (if idx = 0 then discardTransaction dr else ret ()) (fail e)))
       (thn (modify (spStack_update (take idx)))
         (bnd (gets spStack) (\<lambda>st. if length st = 0 then commitIfNeeded dr else ret ()))))"

lemma last_index_None: "last_index n xs = None \<longleftrightarrow> n \<notin> set xs"
  by (induction xs) (auto split: option.splits)

lemma last_index_Some: "n \<notin> set ys \<Longrightarrow> last_index n (xs @ n # ys) = Some (length xs)"
proof (induction xs)
  case Nil
  then show ?case by (simp add: last_index_None [THEN iffD2])
qed simp

section \<open>What SQLite documents\<close>

text \<open>
  \<open>rows\<close> is what the connection reads, \<open>base\<close> what it read when the open transaction began, and
  \<open>marks\<close> SQLite's stack of savepoints, each with what rolling back to it restores. A statement
  that fails leaves the transaction as it was, unless SQLite has rolled it back.
\<close>

definition untouched :: "('d \<Rightarrow> bool) \<Rightarrow> ('d \<Rightarrow> 'r) \<Rightarrow> ('d \<Rightarrow> 'r) \<Rightarrow> ('d \<Rightarrow> (string \<times> 'r) list) \<Rightarrow> 'd \<Rightarrow> 'd \<Rightarrow> bool" where
  "untouched inTx rows base marks d d' \<longleftrightarrow> inTx d' \<and> rows d' = rows d \<and> base d' = base d \<and> marks d' = marks d"

definition undone :: "('d \<Rightarrow> bool) \<Rightarrow> ('d \<Rightarrow> 'r) \<Rightarrow> ('d \<Rightarrow> 'r) \<Rightarrow> 'd \<Rightarrow> 'd \<Rightarrow> bool" where
  "undone inTx rows base d d' \<longleftrightarrow> \<not> inTx d' \<and> rows d' = base d"

locale sqlite =
  fixes dr :: "'d driver" and rows :: "'d \<Rightarrow> 'r" and base :: "'d \<Rightarrow> 'r" and marks :: "'d \<Rightarrow> (string \<times> 'r) list"
  assumes begin_ok: "\<not> dr_inTransaction dr d \<Longrightarrow> dr_begin dr d = (Inr u, d') \<Longrightarrow>
      dr_inTransaction dr d' \<and> rows d' = rows d \<and> base d' = rows d \<and> marks d' = []"
    and begin_err: "\<not> dr_inTransaction dr d \<Longrightarrow> dr_begin dr d = (Inl e, d') \<Longrightarrow> \<not> dr_inTransaction dr d' \<and> rows d' = rows d"
    and commit_ok: "dr_inTransaction dr d \<Longrightarrow> dr_commit dr d = (Inr u, d') \<Longrightarrow> \<not> dr_inTransaction dr d' \<and> rows d' = rows d"
    and commit_err: "dr_inTransaction dr d \<Longrightarrow> dr_commit dr d = (Inl e, d') \<Longrightarrow>
      untouched (dr_inTransaction dr) rows base marks d d' \<or> undone (dr_inTransaction dr) rows base d d'"
    and abort_ok: "dr_inTransaction dr d \<Longrightarrow> dr_abort dr d = (Inr u, d') \<Longrightarrow> undone (dr_inTransaction dr) rows base d d'"
    and abort_err: "dr_inTransaction dr d \<Longrightarrow> dr_abort dr d = (Inl e, d') \<Longrightarrow>
      untouched (dr_inTransaction dr) rows base marks d d' \<or> undone (dr_inTransaction dr) rows base d d'"
    and savepoint_ok: "dr_inTransaction dr d \<Longrightarrow> dr_savepoint dr n d = (Inr u, d') \<Longrightarrow>
      dr_inTransaction dr d' \<and> rows d' = rows d \<and> base d' = base d \<and> marks d' = marks d @ [(n, rows d)]"
    and savepoint_err: "dr_inTransaction dr d \<Longrightarrow> dr_savepoint dr n d = (Inl e, d') \<Longrightarrow>
      untouched (dr_inTransaction dr) rows base marks d d' \<or> undone (dr_inTransaction dr) rows base d d'"
    and rollback_ok: "dr_inTransaction dr d \<Longrightarrow> dr_rollback dr n d = (Inr u, d') \<Longrightarrow> marks d = xs @ (n, r) # ys \<Longrightarrow>
      n \<notin> fst ` set ys \<Longrightarrow> dr_inTransaction dr d' \<and> rows d' = r \<and> base d' = base d \<and> marks d' = xs @ [(n, r)]"
    and rollback_err: "dr_inTransaction dr d \<Longrightarrow> dr_rollback dr n d = (Inl e, d') \<Longrightarrow>
      untouched (dr_inTransaction dr) rows base marks d d' \<or> undone (dr_inTransaction dr) rows base d d'"
    and release_ok: "dr_inTransaction dr d \<Longrightarrow> dr_release dr n d = (Inr u, d') \<Longrightarrow> marks d = xs @ (n, r) # ys \<Longrightarrow>
      n \<notin> fst ` set ys \<Longrightarrow> dr_inTransaction dr d' \<and> rows d' = rows d \<and> base d' = base d \<and> marks d' = xs"
    and release_err: "dr_inTransaction dr d \<Longrightarrow> dr_release dr n d = (Inl e, d') \<Longrightarrow>
      untouched (dr_inTransaction dr) rows base marks d d' \<or> undone (dr_inTransaction dr) rows base d d'"


section \<open>The stack of savepoints\<close>

text \<open>
  The savepoints on the stack, with what each restores, against SQLite's own: SQLite keeps the
  one it rolled back to, so leftovers lie between, none under a name on the stack below it.
\<close>

inductive aligned :: "(string \<times> 'r) list \<Rightarrow> (string \<times> 'r) list \<Rightarrow> bool" where
  bottom: "aligned ms []"
| push: "aligned xs vs \<Longrightarrow> n \<notin> fst ` set vs \<Longrightarrow> fst ` set ys \<inter> insert n (fst ` set vs) = {} \<Longrightarrow>
    aligned (xs @ (n, r) # ys) (vs @ [(n, r)])"

inductive_cases aligned_snocE: "aligned ms (vs @ [v])"

lemma aligned_distinct: "aligned ms vs \<Longrightarrow> distinct (map fst vs)"
  by (induction rule: aligned.induct) auto

lemma aligned_split:
  "aligned ms vs \<Longrightarrow> vs = a @ (n, r) # b \<Longrightarrow> \<exists>xs ys. ms = xs @ (n, r) # ys \<and> n \<notin> fst ` set ys \<and> aligned xs a"
proof (induction arbitrary: b rule: aligned.induct)
  case (bottom ms)
  then show ?case by simp
next
  case (push xs vs m ys q)
  show ?case
  proof (cases b rule: rev_cases)
    case Nil
    then have "vs = a" "m = n" "q = r" using push.prems by simp_all
    then show ?thesis using push.hyps by (intro exI [of _ xs] exI [of _ ys]) auto
  next
    case (snoc c w)
    then have v: "vs = a @ (n, r) # c" using push.prems by simp
    obtain us ws where u: "xs = us @ (n, r) # ws" "n \<notin> fst ` set ws" "aligned us a" using push.IH [OF v] by blast
    have "n \<noteq> m" "n \<notin> fst ` set ys" using push.hyps(2,3) v by auto
    then show ?thesis using u by (intro exI [of _ us] exI [of _ "ws @ (m, q) # ys"]) auto
  qed
qed

lemma aligned_left: "aligned xs a \<Longrightarrow> n \<notin> fst ` set a \<Longrightarrow> aligned (xs @ [(n, r)]) a"
proof (induction rule: aligned.induct)
  case (bottom ms)
  show ?case by (rule aligned.bottom)
next
  case (push xs vs m ys q)
  have "aligned (xs @ (m, q) # (ys @ [(n, r)])) (vs @ [(m, q)])" using push.hyps push.prems by (intro aligned.push) auto
  then show ?case by simp
qed


section \<open>What a client sees\<close>

text \<open>What the database holds if the connection is lost now.\<close>

definition durable :: "'d driver \<Rightarrow> ('d \<Rightarrow> 'r) \<Rightarrow> ('d \<Rightarrow> 'r) \<Rightarrow> 'd tx \<Rightarrow> 'r" where
  "durable dr rows base t = (if dr_inTransaction dr (engine t) then base (engine t) else rows (engine t))"

text \<open>
  The savepoints \<open>vs\<close> are taken, each with what it restores; SQLite may have rolled their
  transaction back already, and then every write is refused until one of them is given up.
\<close>

definition holding :: "'d driver \<Rightarrow> ('d \<Rightarrow> 'r) \<Rightarrow> ('d \<Rightarrow> 'r) \<Rightarrow> ('d \<Rightarrow> (string \<times> 'r) list) \<Rightarrow> (string \<times> 'r) list \<Rightarrow> 'd tx \<Rightarrow> bool" where
  "holding dr rows base marks vs t \<longleftrightarrow> \<not> txAbandoned t \<and> spStack t = map fst vs \<and> distinct (map fst vs) \<and>
     (if dr_inTransaction dr (engine t) then vs \<noteq> [] \<and> base (engine t) = snd (hd vs) \<and> aligned (marks (engine t)) vs
      else vs \<noteq> [] \<longrightarrow> rows (engine t) = snd (hd vs))"

definition abandoned :: "'d tx \<Rightarrow> bool" where
  "abandoned t \<longleftrightarrow> txAbandoned t \<and> spStack t = []"

lemma holding_durable: "holding dr rows base marks vs t \<Longrightarrow> vs \<noteq> [] \<Longrightarrow> durable dr rows base t = snd (hd vs)"
  by (auto simp: holding_def durable_def split: if_splits)

text \<open>A write: one statement of the driver, atomic, on its own or in the open transaction.\<close>

definition atomic_write :: "'d driver \<Rightarrow> ('d \<Rightarrow> 'r) \<Rightarrow> ('d \<Rightarrow> 'r) \<Rightarrow> ('d \<Rightarrow> (string \<times> 'r) list) \<Rightarrow> ('d, unit) sm \<Rightarrow> bool" where
  "atomic_write dr rows base marks wr \<longleftrightarrow> (\<forall>d r d'. wr d = (r, d') \<longrightarrow>
     (if dr_inTransaction dr d
      then (dr_inTransaction dr d' \<and> base d' = base d \<and> marks d' = marks d) \<or> (\<exists>e. r = Inl e) \<and> undone (dr_inTransaction dr) rows base d d'
      else \<not> dr_inTransaction dr d' \<and> ((\<exists>e. r = Inl e) \<longrightarrow> rows d' = rows d)))"

context sqlite
begin

abbreviation H :: "(string \<times> 'r) list \<Rightarrow> 'd tx \<Rightarrow> bool" where
  "H \<equiv> holding dr rows base marks"

abbreviation D :: "'d tx \<Rightarrow> 'r" where
  "D \<equiv> durable dr rows base"

text \<open>Giving the open transaction up.\<close>

lemma discard_run:
  assumes "\<not> txAbandoned t"
  shows "\<exists>t'. discardTransaction dr t = (Inr (), t') \<and> D t' = D t \<and> (H [] t' \<or> abandoned t')"
proof (cases "dr_inTransaction dr (engine t)")
  case False
  then show ?thesis using assms
    by (simp add: discardTransaction_def rollbackIfNeeded_def tryCatch_def thn_run bnd_run durable_def holding_def)
next
  case True
  obtain r d where ab: "dr_abort dr (engine t) = (r, d)" by fastforce
  show ?thesis
  proof (cases r)
    case (Inl e)
    then have "untouched (dr_inTransaction dr) rows base marks (engine t) d \<or> undone (dr_inTransaction dr) rows base (engine t) d"
      using abort_err [OF True] ab by blast
    then show ?thesis using True ab Inl assms
      by (auto simp: discardTransaction_def rollbackIfNeeded_def tryCatch_def thn_run bnd_run onEngine_def durable_def untouched_def undone_def abandoned_def)
  next
    case (Inr u)
    then have "undone (dr_inTransaction dr) rows base (engine t) d" using abort_ok [OF True] ab by blast
    then show ?thesis using True ab Inr assms
      by (auto simp: discardTransaction_def rollbackIfNeeded_def tryCatch_def thn_run bnd_run onEngine_def durable_def undone_def holding_def)
  qed
qed

text \<open>A failed statement leaves the savepoints as they were, for whoever took them.\<close>

lemma failed_holding:
  assumes "H vs t" and "dr_inTransaction dr (engine t)"
    and "untouched (dr_inTransaction dr) rows base marks (engine t) d \<or> undone (dr_inTransaction dr) rows base (engine t) d"
  shows "H vs (t\<lparr>engine := d\<rparr>)" and "D (t\<lparr>engine := d\<rparr>) = D t" and "dr_inTransaction dr d \<longrightarrow> rows d = rows (engine t)"
  using assms by (auto simp: holding_def durable_def untouched_def undone_def)

lemma create_run:
  assumes h: "H vs t" and n: "n \<notin> fst ` set vs" and run: "createSavepoint dr n t = (r, t')"
  shows "case r of Inr _ \<Rightarrow> H (vs @ [(n, rows (engine t))]) t' \<and> dr_inTransaction dr (engine t') \<and> rows (engine t') = rows (engine t) \<and> D t' = D t
    | Inl _ \<Rightarrow> D t' = D t \<and> (H vs t' \<and> (dr_inTransaction dr (engine t') \<longrightarrow> rows (engine t') = rows (engine t)) \<or> abandoned t')"
proof (cases "safeIdentifier n \<and> \<not> isTransactionLost dr t")
  case False
  then have "\<exists>e. createSavepoint dr n t = (Inl e, t)"
    using h by (auto simp: createSavepoint_def assertSafeIdentifier_def beginIfNeeded_def assertWritable_def assertNotAbandoned_def
        bnd_run thn_run holding_def)
  with run h show ?thesis by auto
next
  case ok: True
  have nab: "\<not> txAbandoned t" using h by (simp add: holding_def)
  have w: "assertWritable dr t = (Inr (), t)" using ok nab by (simp add: assertWritable_def assertNotAbandoned_def bnd_run thn_run)
  show ?thesis
  proof (cases "dr_inTransaction dr (engine t)")
    case inTx: True
    obtain q d where sp: "dr_savepoint dr n (engine t) = (q, d)" by fastforce
    show ?thesis
    proof (cases q)
      case (Inl e)
      then have f: "untouched (dr_inTransaction dr) rows base marks (engine t) d \<or> undone (dr_inTransaction dr) rows base (engine t) d"
        using savepoint_err [OF inTx] sp by blast
      have "createSavepoint dr n t = (Inl e, t\<lparr>engine := d\<rparr>)"
        using ok w inTx sp Inl by (simp add: createSavepoint_def assertSafeIdentifier_def beginIfNeeded_def tryCatch_def onEngine_def bnd_run thn_run)
      then show ?thesis using run failed_holding [OF h inTx f] by auto
    next
      case (Inr u)
      then have d: "dr_inTransaction dr d" "rows d = rows (engine t)" "base d = base (engine t)" "marks d = marks (engine t) @ [(n, rows (engine t))]"
        using savepoint_ok [OF inTx] sp by blast+
      have c: "createSavepoint dr n t = (Inr (), t\<lparr>engine := d, spStack := spStack t @ [n]\<rparr>)"
        using ok w inTx sp Inr by (simp add: createSavepoint_def assertSafeIdentifier_def beginIfNeeded_def tryCatch_def onEngine_def bnd_run thn_run)
      have "aligned (marks d) (vs @ [(n, rows (engine t))])"
        using h inTx n aligned.push [of "marks (engine t)" vs n "[]" "rows (engine t)"] by (simp add: d holding_def)
      then have "H (vs @ [(n, rows (engine t))]) (t\<lparr>engine := d, spStack := spStack t @ [n]\<rparr>)"
        using h inTx n by (simp add: holding_def d)
      then show ?thesis using run c inTx by (auto simp: d durable_def)
    qed
  next
    case out: False
    then have vs: "vs = []" using h ok by (auto simp: holding_def isTransactionLost_def)
    obtain p d where b: "dr_begin dr (engine t) = (p, d)" by fastforce
    show ?thesis
    proof (cases p)
      case (Inl e)
      then have d: "\<not> dr_inTransaction dr d" "rows d = rows (engine t)" using begin_err [OF out] b by blast+
      have "createSavepoint dr n t = (Inl e, t\<lparr>engine := d\<rparr>)"
        using ok w out b Inl by (simp add: createSavepoint_def assertSafeIdentifier_def beginIfNeeded_def tryCatch_def onEngine_def bnd_run thn_run)
      then show ?thesis using run h d out by (auto simp: holding_def durable_def vs)
    next
      case (Inr u)
      then have d: "dr_inTransaction dr d" "rows d = rows (engine t)" "base d = rows (engine t)" "marks d = []"
        using begin_ok [OF out] b by blast+
      obtain q d' where sp: "dr_savepoint dr n d = (q, d')" by fastforce
      show ?thesis
      proof (cases q)
        case (Inl e)
        then have f: "untouched (dr_inTransaction dr) rows base marks d d' \<or> undone (dr_inTransaction dr) rows base d d'"
          using savepoint_err [OF d(1)] sp by blast
        obtain t'' where disc: "discardTransaction dr (t\<lparr>engine := d'\<rparr>) = (Inr (), t'')" and dt: "D t'' = D (t\<lparr>engine := d'\<rparr>)"
          and k: "H [] t'' \<or> abandoned t''"
          using discard_run [of "t\<lparr>engine := d'\<rparr>"] nab by auto
        have "createSavepoint dr n t = (Inl e, t'')"
          using ok w out b \<open>p = Inr u\<close> sp Inl disc
          by (simp add: createSavepoint_def assertSafeIdentifier_def beginIfNeeded_def tryCatch_def onEngine_def bnd_run thn_run)
        moreover have "D (t\<lparr>engine := d'\<rparr>) = D t" using f d out by (auto simp: durable_def untouched_def undone_def)
        ultimately show ?thesis using run dt k by (auto simp: vs holding_def)
      next
        case (Inr v)
        then have d': "dr_inTransaction dr d'" "rows d' = rows (engine t)" "base d' = rows (engine t)" "marks d' = [(n, rows (engine t))]"
          using savepoint_ok [OF d(1)] sp d by force+
        have "createSavepoint dr n t = (Inr (), t\<lparr>engine := d', spStack := spStack t @ [n]\<rparr>)"
          using ok w out b \<open>p = Inr u\<close> sp Inr
          by (simp add: createSavepoint_def assertSafeIdentifier_def beginIfNeeded_def tryCatch_def onEngine_def bnd_run thn_run)
        moreover have "aligned (marks d') [(n, rows (engine t))]"
          using aligned.push [OF aligned.bottom, of n "[]" "[]" "rows (engine t)"] by (simp add: d')
        ultimately show ?thesis using run h out d' by (auto simp: holding_def durable_def vs)
      qed
    qed
  qed
qed

text \<open>A savepoint that is not there, or not live.\<close>

lemma require_savepoint_run:
  assumes h: "H vs t" and run: "requireSavepoint dr n t = (r, t')"
  shows "case r of Inr i \<Rightarrow> t' = t \<and> dr_inTransaction dr (engine t) \<and> safeIdentifier n \<and>
      (\<exists>a q b. vs = a @ (n, q) # b \<and> n \<notin> fst ` set b \<and> i = length a)
    | Inl _ \<Rightarrow> D t' = D t \<and> (H vs t' \<or> H [] t')"
proof (cases "safeIdentifier n \<and> n \<in> fst ` set vs")
  case False
  have nab: "\<not> txAbandoned t" using h by (simp add: holding_def)
  have "n \<notin> fst ` set vs \<Longrightarrow> last_index n (spStack t) = None" using h by (simp add: holding_def last_index_None)
  then have "\<exists>e. requireSavepoint dr n t = (Inl e, t)"
    using False nab by (auto simp: requireSavepoint_def assertNotAbandoned_def assertSafeIdentifier_def bnd_run thn_run)
  then show ?thesis using run h by auto
next
  case True
  then obtain a q b where v: "vs = a @ (n, q) # b" by (auto dest: split_list)
  have nb: "n \<notin> fst ` set b" "n \<notin> set (map fst b)" using h v by (auto simp: holding_def)
  have nab: "\<not> txAbandoned t" and st: "spStack t = map fst a @ n # map fst b" using h v by (simp_all add: holding_def)
  have li: "last_index n (spStack t) = Some (length a)" unfolding st using last_index_Some [OF nb(2), of "map fst a"] by simp
  show ?thesis
  proof (cases "dr_inTransaction dr (engine t)")
    case inTx: True
    then have "requireSavepoint dr n t = (Inr (length a), t)"
      using True nab li by (simp add: requireSavepoint_def assertNotAbandoned_def assertSafeIdentifier_def assertSavepointLive_def bnd_run thn_run)
    then show ?thesis using run inTx v nb True by auto
  next
    case False
    then have "requireSavepoint dr n t = (Inl (JsError ''SQLite already ended the transaction holding savepoint'' [n]), t\<lparr>spStack := [], lossCause := None\<rparr>)"
      using True nab li by (simp add: requireSavepoint_def assertNotAbandoned_def assertSafeIdentifier_def assertSavepointLive_def bnd_run thn_run)
    then show ?thesis using run h False by (auto simp: holding_def durable_def)
  qed
qed

lemma rollback_run:
  assumes h: "H vs t" and run: "rollbackSavepoint dr n t = (r, t')"
  shows "D t' = D t \<and> (case r of Inr _ \<Rightarrow> (\<exists>a q b. vs = a @ (n, q) # b \<and> n \<notin> fst ` set b \<and> H a t' \<and> (a \<noteq> [] \<longrightarrow> dr_inTransaction dr (engine t')) \<and> rows (engine t') = q)
    | Inl _ \<Rightarrow> H vs t' \<or> H [] t' \<or> abandoned t')"
proof -
  obtain p s where req: "requireSavepoint dr n t = (p, s)" by fastforce
  note rr = require_savepoint_run [OF h req]
  show ?thesis
  proof (cases p)
    case (Inl e)
    then have "rollbackSavepoint dr n t = (Inl e, s)" using req by (simp add: rollbackSavepoint_def)
    then show ?thesis using run rr Inl by auto
  next
    case (Inr i)
    then obtain a q b where s: "s = t" and inTx: "dr_inTransaction dr (engine t)" and v: "vs = a @ (n, q) # b"
      and nb: "n \<notin> fst ` set b" and i: "i = length a" using rr by auto
    have nab: "\<not> txAbandoned t" and st: "spStack t = map fst vs" and al: "aligned (marks (engine t)) vs" and bs: "base (engine t) = snd (hd vs)"
      using h inTx by (simp_all add: holding_def)
    obtain xs ys where m: "marks (engine t) = xs @ (n, q) # ys" "n \<notin> fst ` set ys" "aligned xs a" using aligned_split [OF al v] by blast
    obtain w d where rb: "dr_rollback dr n (engine t) = (w, d)" by fastforce
    show ?thesis
    proof (cases w)
      case (Inl e)
      then have f: "untouched (dr_inTransaction dr) rows base marks (engine t) d \<or> undone (dr_inTransaction dr) rows base (engine t) d"
        using rollback_err [OF inTx] rb by blast
      obtain t'' where disc: "discardTransaction dr (t\<lparr>engine := d\<rparr>) = (Inr (), t'')" and dt: "D t'' = D (t\<lparr>engine := d\<rparr>)"
        and k: "H [] t'' \<or> abandoned t''" using discard_run [of "t\<lparr>engine := d\<rparr>"] nab by auto
      have "rollbackSavepoint dr n t = (Inl e, t'')"
        using req \<open>p = Inr i\<close> s rb Inl disc by (simp add: rollbackSavepoint_def tryCatch_def onEngine_def bnd_run thn_run)
      then show ?thesis using run dt k failed_holding(2) [OF h inTx f] by auto
    next
      case (Inr u)
      then have d: "dr_inTransaction dr d" "rows d = q" "base d = base (engine t)" "marks d = xs @ [(n, q)]"
        using rollback_ok [OF inTx _ m(1,2)] rb by blast+
      let ?t = "t\<lparr>engine := d, spStack := map fst a\<rparr>"
      have red: "rollbackSavepoint dr n t = (if a = [] then rollbackIfNeeded dr ?t else (Inr (), ?t))"
        using req \<open>p = Inr i\<close> s rb Inr i by (simp add: rollbackSavepoint_def tryCatch_def onEngine_def bnd_run thn_run st v)
      show ?thesis
      proof (cases "a = []")
        case False
        have "n \<notin> fst ` set a" "distinct (map fst a)" using h v by (auto simp: holding_def)
        then have "H a ?t" using False nab bs v m(3) aligned_left [OF m(3), of n q] by (simp add: holding_def d)
        then have "\<exists>a q b. vs = a @ (n, q) # b \<and> n \<notin> fst ` set b \<and> H a ?t \<and> (a \<noteq> [] \<longrightarrow> dr_inTransaction dr (engine ?t)) \<and> rows (engine ?t) = q"
          by (intro exI [of _ a] exI [of _ q] exI [of _ b]) (use v nb d in simp)
        moreover have "D ?t = D t" using d inTx by (simp add: durable_def)
        moreover have "r = Inr ()" "t' = ?t" using run red False by simp_all
        ultimately show ?thesis by simp
      next
        case True
        obtain z d' where ab: "dr_abort dr d = (z, d')" by fastforce
        have q: "base d = q" using d(3) bs v True by simp
        show ?thesis
        proof (cases z)
          case (Inl e)
          then have "untouched (dr_inTransaction dr) rows base marks d d' \<or> undone (dr_inTransaction dr) rows base d d'"
            using abort_err [OF d(1)] ab by blast
          moreover have "rollbackSavepoint dr n t = (Inl e, ?t\<lparr>engine := d', txAbandoned := True, abortFailure := Some e\<rparr>)"
            using red True ab Inl d(1) by (simp add: rollbackIfNeeded_def tryCatch_def onEngine_def bnd_run thn_run)
          ultimately show ?thesis using run inTx d True by (auto simp: durable_def untouched_def undone_def abandoned_def)
        next
          case (Inr u)
          then have u: "undone (dr_inTransaction dr) rows base d d'" using abort_ok [OF d(1)] ab by blast
          then have "rollbackSavepoint dr n t = (Inr (), ?t\<lparr>engine := d', spStack := [], txAbandoned := False\<rparr>)"
            using red True ab Inr d(1) by (simp add: rollbackIfNeeded_def tryCatch_def onEngine_def bnd_run thn_run undone_def)
          then show ?thesis using run u inTx d q v nb True by (auto simp: durable_def undone_def holding_def)
        qed
      qed
    qed
  qed
qed

lemma release_run:
  assumes h: "H vs t" and run: "releaseSavepoint dr n t = (r, t')"
  shows "case r of Inr _ \<Rightarrow> (\<exists>a q b. vs = a @ (n, q) # b \<and> n \<notin> fst ` set b \<and> H a t' \<and> rows (engine t') = rows (engine t) \<and>
        D t' = (if a = [] then rows (engine t) else D t))
    | Inl _ \<Rightarrow> D t' = D t \<and> (H vs t' \<or> H [] t' \<or> abandoned t')"
proof -
  obtain p s where req: "requireSavepoint dr n t = (p, s)" by fastforce
  note rr = require_savepoint_run [OF h req]
  show ?thesis
  proof (cases p)
    case (Inl e)
    then have "releaseSavepoint dr n t = (Inl e, s)" using req by (simp add: releaseSavepoint_def)
    then show ?thesis using run rr Inl by auto
  next
    case (Inr i)
    then obtain a q b where s: "s = t" and inTx: "dr_inTransaction dr (engine t)" and v: "vs = a @ (n, q) # b"
      and nb: "n \<notin> fst ` set b" and i: "i = length a" using rr by auto
    have nab: "\<not> txAbandoned t" and st: "spStack t = map fst vs" and al: "aligned (marks (engine t)) vs" and bs: "base (engine t) = snd (hd vs)"
      using h inTx by (simp_all add: holding_def)
    obtain xs ys where m: "marks (engine t) = xs @ (n, q) # ys" "n \<notin> fst ` set ys" "aligned xs a" using aligned_split [OF al v] by blast
    obtain w d where rl: "dr_release dr n (engine t) = (w, d)" by fastforce
    show ?thesis
    proof (cases w)
      case (Inl e)
      then have f: "untouched (dr_inTransaction dr) rows base marks (engine t) d \<or> undone (dr_inTransaction dr) rows base (engine t) d"
        using release_err [OF inTx] rl by blast
      obtain t'' where disc: "discardTransaction dr (t\<lparr>engine := d\<rparr>) = (Inr (), t'')" and dt: "D t'' = D (t\<lparr>engine := d\<rparr>)"
        and k: "H [] t'' \<or> abandoned t''" using discard_run [of "t\<lparr>engine := d\<rparr>"] nab by auto
      have "releaseSavepoint dr n t = (Inl e, if a = [] then t'' else t\<lparr>engine := d\<rparr>)"
        using req \<open>p = Inr i\<close> s rl Inl disc i by (simp add: releaseSavepoint_def tryCatch_def onEngine_def bnd_run thn_run)
      then show ?thesis using run dt k failed_holding [OF h inTx f] by auto
    next
      case (Inr u)
      then have d: "dr_inTransaction dr d" "rows d = rows (engine t)" "base d = base (engine t)" "marks d = xs"
        using release_ok [OF inTx _ m(1,2)] rl by blast+
      let ?t = "t\<lparr>engine := d, spStack := map fst a\<rparr>"
      have red: "releaseSavepoint dr n t = (if a = [] then commitIfNeeded dr ?t else (Inr (), ?t))"
        using req \<open>p = Inr i\<close> s rl Inr i by (simp add: releaseSavepoint_def tryCatch_def onEngine_def bnd_run thn_run st v)
      show ?thesis
      proof (cases "a = []")
        case False
        have "distinct (map fst a)" using h v by (auto simp: holding_def)
        then have "H a ?t" using False nab bs v m(3) by (simp add: holding_def d)
        moreover have "D ?t = D t" using d inTx by (simp add: durable_def)
        ultimately have "\<exists>a q b. vs = a @ (n, q) # b \<and> n \<notin> fst ` set b \<and> H a ?t \<and> rows (engine ?t) = rows (engine t) \<and>
            D ?t = (if a = [] then rows (engine t) else D t)"
          by (intro exI [of _ a] exI [of _ q] exI [of _ b]) (use v nb d False in simp)
        moreover have "r = Inr ()" "t' = ?t" using run red False by simp_all
        ultimately show ?thesis by simp
      next
        case True
        obtain z d' where cm: "dr_commit dr d = (z, d')" by fastforce
        show ?thesis
        proof (cases z)
          case (Inl e)
          then have f: "untouched (dr_inTransaction dr) rows base marks d d' \<or> undone (dr_inTransaction dr) rows base d d'"
            using commit_err [OF d(1)] cm by blast
          obtain t'' where disc: "discardTransaction dr (?t\<lparr>engine := d'\<rparr>) = (Inr (), t'')" and dt: "D t'' = D (?t\<lparr>engine := d'\<rparr>)"
            and k: "H [] t'' \<or> abandoned t''" using discard_run [of "?t\<lparr>engine := d'\<rparr>"] nab by auto
          have "releaseSavepoint dr n t = (Inl e, t'')"
            using red True cm Inl disc d(1) nab
            by (simp add: commitIfNeeded_def assertNotAbandoned_def tryCatch_def onEngine_def bnd_run thn_run)
          moreover have "D (?t\<lparr>engine := d'\<rparr>) = D t" using f d inTx by (auto simp: durable_def untouched_def undone_def)
          ultimately show ?thesis using run dt k by auto
        next
          case (Inr u)
          then have c: "\<not> dr_inTransaction dr d'" "rows d' = rows d" using commit_ok [OF d(1)] cm by blast+
          let ?u = "?t\<lparr>engine := d'\<rparr>"
          have "releaseSavepoint dr n t = (Inr (), ?u)"
            using red True cm Inr d(1) nab
            by (simp add: commitIfNeeded_def assertNotAbandoned_def tryCatch_def onEngine_def bnd_run thn_run)
          then have "r = Inr ()" "t' = ?u" using run by simp_all
          moreover have "\<exists>a q b. vs = a @ (n, q) # b \<and> n \<notin> fst ` set b \<and> H a ?u \<and> rows (engine ?u) = rows (engine t) \<and>
              D ?u = (if a = [] then rows (engine t) else D t)"
            by (intro exI [of _ "[]"] exI [of _ q] exI [of _ b]) (use v nb True c d nab in \<open>simp add: holding_def durable_def\<close>)
          ultimately show ?thesis by simp
        qed
      qed
    qed
  qed
qed

text \<open>A rollback or a commit that fails gives every savepoint up.\<close>

lemma rollback_if_stack:
  assumes "spStack t = []"
  shows "spStack (snd (rollbackIfNeeded dr t)) = []"
proof (cases "dr_abort dr (engine t)")
  case (Pair r d)
  then show ?thesis using assms by (cases r) (simp_all add: rollbackIfNeeded_def tryCatch_def thn_run onEngine_def)
qed

lemma discard_run_stack: "\<exists>t'. discardTransaction dr t = (Inr (), t') \<and> spStack t' = []"
proof (cases "rollbackIfNeeded dr (t\<lparr>spStack := []\<rparr>)")
  case (Pair r u)
  then show ?thesis using rollback_if_stack [of "t\<lparr>spStack := []\<rparr>"] by (cases r) (simp_all add: discardTransaction_def tryCatch_def)
qed

lemma required:
  assumes "H vs t" and "dr_inTransaction dr (engine t)" and "vs = a @ (n, q) # b" and "safeIdentifier n" and "n \<notin> fst ` set b"
  shows "requireSavepoint dr n t = (Inr (length a), t)"
proof -
  have "spStack t = map fst a @ n # map fst b" "n \<notin> set (map fst b)" "\<not> txAbandoned t" using assms by (simp_all add: holding_def)
  then show ?thesis using assms(2,4) last_index_Some [of n "map fst b" "map fst a"]
    by (simp add: requireSavepoint_def assertNotAbandoned_def assertSafeIdentifier_def assertSavepointLive_def bnd_run thn_run)
qed

lemma rollback_gone:
  assumes req: "requireSavepoint dr n t = (Inr i, t)" and run: "rollbackSavepoint dr n t = (Inl e, t')"
  shows "spStack t' = []"
proof -
  obtain r d where rb: "dr_rollback dr n (engine t) = (r, d)" by fastforce
  show ?thesis
  proof (cases r)
    case (Inl e)
    obtain u where "discardTransaction dr (t\<lparr>engine := d\<rparr>) = (Inr (), u)" "spStack u = []" using discard_run_stack by blast
    then show ?thesis using run req rb Inl by (simp add: rollbackSavepoint_def tryCatch_def onEngine_def thn_run)
  next
    case (Inr x)
    let ?u = "t\<lparr>engine := d, spStack := take i (spStack t)\<rparr>"
    have "rollbackSavepoint dr n t = (if take i (spStack t) = [] then rollbackIfNeeded dr ?u else (Inr (), ?u))"
      using req rb Inr by (cases t) (simp add: rollbackSavepoint_def tryCatch_def onEngine_def thn_run)
    moreover have "take i (spStack t) = [] \<Longrightarrow> spStack (snd (rollbackIfNeeded dr ?u)) = []" by (rule rollback_if_stack) simp
    ultimately show ?thesis using run by (metis Inl_not_Inr prod.inject snd_conv)
  qed
qed

lemma release_gone:
  assumes req: "requireSavepoint dr n t = (Inr 0, t)" and run: "releaseSavepoint dr n t = (Inl e, t')"
  shows "spStack t' = []"
proof -
  obtain r d where rl: "dr_release dr n (engine t) = (r, d)" by fastforce
  show ?thesis
  proof (cases r)
    case (Inl e)
    obtain u where "discardTransaction dr (t\<lparr>engine := d\<rparr>) = (Inr (), u)" "spStack u = []" using discard_run_stack by blast
    then show ?thesis using run req rl Inl by (simp add: releaseSavepoint_def tryCatch_def onEngine_def thn_run)
  next
    case (Inr x)
    let ?u = "t\<lparr>engine := d, spStack := []\<rparr>"
    have red: "releaseSavepoint dr n t = commitIfNeeded dr ?u"
      using req rl Inr by (simp add: releaseSavepoint_def tryCatch_def onEngine_def thn_run)
    obtain q d' where cm: "dr_commit dr d = (q, d')" by fastforce
    obtain u where "discardTransaction dr (?u\<lparr>engine := d'\<rparr>) = (Inr (), u)" "spStack u = []" using discard_run_stack by blast
    then show ?thesis using run red cm by (cases q) (auto simp: commitIfNeeded_def assertNotAbandoned_def tryCatch_def onEngine_def thn_run split: if_splits)
  qed
qed

lemma write_run:
  assumes h: "H vs t" and w: "atomic_write dr rows base marks wr" and run: "guardWrite dr wr t = (r, t')"
  shows "(D t' = D t \<or> vs = [] \<and> r = Inr ()) \<and> H vs t'"
proof (cases "isTransactionLost dr t")
  case True
  then have "\<exists>e. guardWrite dr wr t = (Inl e, t)"
    using h by (auto simp: guardWrite_def assertWritable_def assertNotAbandoned_def bnd_run thn_run holding_def)
  then show ?thesis using run h by auto
next
  case False
  have nab: "\<not> txAbandoned t" using h by (simp add: holding_def)
  have aw: "assertWritable dr t = (Inr (), t)" using False nab by (simp add: assertWritable_def assertNotAbandoned_def bnd_run thn_run)
  obtain q d where q: "wr (engine t) = (q, d)" by fastforce
  note wq = w [unfolded atomic_write_def, rule_format, OF q]
  let ?u = "t\<lparr>engine := d\<rparr>"
  have inTx: "dr_inTransaction dr (engine t) \<longleftrightarrow> vs \<noteq> []" using h False by (auto simp: holding_def isTransactionLost_def split: if_splits)
  show ?thesis
  proof (cases q)
    case (Inr x)
    then have "guardWrite dr wr t = (Inr (), ?u)" using aw q by (simp add: guardWrite_def tryCatch_def onEngine_def bnd_run thn_run)
    moreover have "H vs ?u" "vs \<noteq> [] \<Longrightarrow> D ?u = D t"
      using h inTx wq Inr by (auto simp: holding_def durable_def split: if_splits)
    ultimately show ?thesis using run by auto
  next
    case (Inl e)
    have st: "spStack ?u = map fst vs" using h by (simp add: holding_def)
    have hu: "H vs ?u" "D ?u = D t"
      using h inTx wq Inl by (auto simp: holding_def durable_def undone_def split: if_splits)
    have "vs = [] \<Longrightarrow> \<not> dr_inTransaction dr d" using wq inTx by (auto split: if_splits)
    then have "guardWrite dr wr t = (Inl e, ?u) \<or> guardWrite dr wr t = (Inl e, ?u\<lparr>lossCause := Some e\<rparr>)"
      using aw q Inl st nab by (auto simp: guardWrite_def tryCatch_def onEngine_def bnd_run thn_run)
    moreover have "H vs (?u\<lparr>lossCause := Some e\<rparr>)" "D (?u\<lparr>lossCause := Some e\<rparr>) = D t"
      using hu by (auto simp: holding_def durable_def split: if_splits)
    ultimately show ?thesis using run hu by auto
  qed
qed

end

section \<open>Any client\<close>

datatype 'd tx_op = Create string | RollbackTo string | Release string | Write "('d, unit) sm"

fun run_op :: "'d driver \<Rightarrow> 'd tx_op \<Rightarrow> ('d tx, unit) sm" where
  "run_op dr (Create n) = createSavepoint dr n"
| "run_op dr (RollbackTo n) = rollbackSavepoint dr n"
| "run_op dr (Release n) = releaseSavepoint dr n"
| "run_op dr (Write wr) = guardWrite dr wr"

text \<open>No savepoint is opened under a name already on the stack.\<close>

fun usable :: "'d driver \<Rightarrow> ('d \<Rightarrow> 'r) \<Rightarrow> ('d \<Rightarrow> 'r) \<Rightarrow> ('d \<Rightarrow> (string \<times> 'r) list) \<Rightarrow> 'd tx_op \<Rightarrow> 'd tx \<Rightarrow> bool" where
  "usable dr rows base marks (Create n) t = (n \<notin> set (spStack t))"
| "usable dr rows base marks (Write wr) t = atomic_write dr rows base marks wr"
| "usable dr rows base marks (RollbackTo n) t = True"
| "usable dr rows base marks (Release n) t = True"

definition tx_ok :: "'d driver \<Rightarrow> ('d \<Rightarrow> 'r) \<Rightarrow> ('d \<Rightarrow> 'r) \<Rightarrow> ('d \<Rightarrow> (string \<times> 'r) list) \<Rightarrow> 'd tx \<Rightarrow> bool" where
  "tx_ok dr rows base marks t \<longleftrightarrow> abandoned t \<or> (\<exists>vs. holding dr rows base marks vs t)"

text \<open>The operation that makes the open transaction's work durable.\<close>

definition commits :: "'d tx_op \<Rightarrow> 'd tx \<Rightarrow> bool" where
  "commits op t \<longleftrightarrow> (\<exists>n ns. op = Release n \<and> spStack t = n # ns)"

lemma split_at_name:
  "vs @ (n, r) # c = a @ (n, q) # b \<Longrightarrow> n \<notin> fst ` set vs \<Longrightarrow> n \<notin> fst ` set c \<Longrightarrow> n \<notin> fst ` set b \<Longrightarrow> a = vs \<and> q = r"
proof (induction vs arbitrary: a)
  case Nil
  then show ?case by (cases a) auto
next
  case (Cons v vs)
  then show ?case by (cases a) auto
qed

lemma run_op_abandoned: "abandoned t \<Longrightarrow> \<exists>e. run_op dr op t = (Inl e, t)"
  by (cases op) (auto simp: abandoned_def createSavepoint_def rollbackSavepoint_def releaseSavepoint_def guardWrite_def requireSavepoint_def
      assertSafeIdentifier_def beginIfNeeded_def assertWritable_def assertNotAbandoned_def bnd_run thn_run)

context sqlite
begin

lemma step_run:
  assumes h: "H vs t" and u: "usable dr rows base marks op t" and run: "run_op dr op t = (r, t')"
  shows "(D t' = D t \<or> r = Inr () \<and> commits op t \<and> D t' = rows (engine t) \<or> r = Inr () \<and> (\<exists>wr. op = Write wr) \<and> vs = []) \<and>
    (H vs t' \<or> H [] t' \<or> abandoned t' \<or> (\<exists>v. H (vs @ [v]) t') \<or> (\<exists>a v b. vs = a @ v # b \<and> H a t'))"
proof (cases op)
  case (Create n)
  then have "n \<notin> fst ` set vs" using u h by (auto simp: holding_def)
  then show ?thesis using create_run [OF h _ run [unfolded Create run_op.simps]] by (cases r) auto
next
  case (RollbackTo n)
  note rb = rollback_run [OF h run [unfolded RollbackTo run_op.simps]]
  show ?thesis
  proof (cases r)
    case (Inr x)
    then obtain a q b where "vs = a @ (n, q) # b" "H a t'" using rb by auto
    then have "\<exists>a v b. vs = a @ v # b \<and> H a t'" by blast
    then show ?thesis using rb by blast
  qed (use rb in auto)
next
  case (Release n)
  have st: "spStack t = map fst vs" using h by (simp add: holding_def)
  from release_run [OF h run [unfolded Release run_op.simps]] show ?thesis
  proof (cases r)
    case (Inr x)
    then obtain a q b where v: "vs = a @ (n, q) # b" and ha: "H a t'" and d: "D t' = (if a = [] then rows (engine t) else D t)"
      using release_run [OF h run [unfolded Release run_op.simps]] by auto
    have "a = [] \<Longrightarrow> commits op t" using st v Release by (simp add: commits_def)
    then have "D t' = D t \<or> r = Inr () \<and> commits op t \<and> D t' = rows (engine t)" using d Inr by (cases "a = []") auto
    moreover have "\<exists>a v b. vs = a @ v # b \<and> H a t'" using v ha by blast
    ultimately show ?thesis by blast
  qed auto
next
  case (Write wr)
  then show ?thesis using write_run [OF h _ run [unfolded Write run_op.simps]] u by auto
qed

text \<open>A savepoint on the stack keeps what it restores.\<close>

lemma step_keeps:
  assumes h: "H (vs @ (n, q) # c) t" and u: "usable dr rows base marks op t" and run: "run_op dr op t = (r, t')" and n: "n \<in> set (spStack t')"
  shows "\<exists>c'. H (vs @ (n, q) # c') t'"
proof -
  have d: "n \<notin> fst ` set vs" "n \<notin> fst ` set c" using h by (auto simp: holding_def)
  have st: "H us t' \<Longrightarrow> n \<in> fst ` set us" for us using n by (simp add: holding_def)
  from step_run [OF h u run, THEN conjunct2] show ?thesis
  proof (elim disjE exE conjE)
    show ?thesis if "H [] t'" using st [OF that] by simp
    show ?thesis if "abandoned t'" using that n by (simp add: abandoned_def)
    fix a v b assume ab: "vs @ (n, q) # c = a @ v # b" and ha: "H a t'"
    have "n \<in> fst ` set a" using st [OF ha] .
    with ab d show ?thesis using ha by (auto simp: append_eq_append_conv2 Cons_eq_append_conv)
  qed auto
qed

end

primrec run_ops :: "'d driver \<Rightarrow> 'd tx_op list \<Rightarrow> 'd tx \<Rightarrow> 'd tx" where
  "run_ops dr [] t = t"
| "run_ops dr (op # ops) t = run_ops dr ops (snd (run_op dr op t))"

primrec kept :: "'d driver \<Rightarrow> ('d \<Rightarrow> 'r) \<Rightarrow> ('d \<Rightarrow> 'r) \<Rightarrow> ('d \<Rightarrow> (string \<times> 'r) list) \<Rightarrow> string \<Rightarrow> 'd tx_op list \<Rightarrow> 'd tx \<Rightarrow> bool" where
  "kept dr rows base marks n [] t = (n \<in> set (spStack t))"
| "kept dr rows base marks n (op # ops) t =
     (n \<in> set (spStack t) \<and> usable dr rows base marks op t \<and> kept dr rows base marks n ops (snd (run_op dr op t)))"

context sqlite
begin

lemma kept_run:
  "kept dr rows base marks n ops t \<Longrightarrow> H (vs @ (n, q) # c) t \<Longrightarrow> \<exists>c'. H (vs @ (n, q) # c') (run_ops dr ops t)"
proof (induction ops arbitrary: t c)
  case (Cons op ops)
  obtain r t' where run: "run_op dr op t = (r, t')" by fastforce
  have k: "kept dr rows base marks n ops t'" using Cons.prems(1) run by simp
  then have "n \<in> set (spStack t')" by (cases ops) simp_all
  then obtain c' where "H (vs @ (n, q) # c') t'" using step_keeps [OF Cons.prems(2) _ run] Cons.prems(1) by auto
  then show ?case using Cons.IH [OF k] run by simp
qed auto

lemma restores:
  assumes ok: "tx_ok dr rows base marks t" and u: "n \<notin> set (spStack t)" and c: "createSavepoint dr n t = (Inr (), t1)"
    and k: "kept dr rows base marks n ops t1" and rb: "rollbackSavepoint dr n (run_ops dr ops t1) = (Inr (), t2)"
  shows "rows (engine t2) = rows (engine t) \<and> spStack t2 = spStack t \<and> durable dr rows base t2 = durable dr rows base (run_ops dr ops t1)"
proof -
  have "\<not> abandoned t" using run_op_abandoned [of t dr "Create n"] c by auto
  then obtain vs where h: "H vs t" using ok by (auto simp: tx_ok_def)
  then have "n \<notin> fst ` set vs" using u by (simp add: holding_def)
  from create_run [OF h this c] have h1: "H (vs @ [(n, rows (engine t))]) t1" by simp
  obtain c' where h2: "H (vs @ (n, rows (engine t)) # c') (run_ops dr ops t1)" using kept_run [OF k h1] by auto
  obtain a q b where ab: "vs @ (n, rows (engine t)) # c' = a @ (n, q) # b" "n \<notin> fst ` set b" and ha: "H a t2" and q: "rows (engine t2) = q"
    and d: "D t2 = D (run_ops dr ops t1)"
    using rollback_run [OF h2 rb] by auto
  have dist: "distinct (map fst (vs @ (n, rows (engine t)) # c'))" using h2 by (simp add: holding_def)
  have "a = vs \<and> q = rows (engine t)"
    using split_at_name [OF ab(1)] ab(2) dist by auto
  then show ?thesis using ha h q d by (simp add: holding_def)
qed

end

section \<open>A reference engine\<close>

text \<open>
  An engine with the documented behaviour, in which statements fail as told: the statement alone,
  or with SQLite rolling the open transaction back.
\<close>

record 'r mem =
  m_rows :: 'r
  m_begun :: "'r option"
  m_marks :: "(string \<times> 'r) list"

datatype stmt = SBegin | SCommit | SAbort | SSavepoint string | SRollback string | SRelease string

datatype fault = Works | Fails | FailsEnding

definition mem_base :: "'r mem \<Rightarrow> 'r" where
  "mem_base d = (case m_begun d of None \<Rightarrow> m_rows d | Some b \<Rightarrow> b)"

definition mem_end :: "'r \<Rightarrow> 'r mem \<Rightarrow> 'r mem" where
  "mem_end r d = d\<lparr>m_rows := r, m_begun := None, m_marks := []\<rparr>"

definition mem_exec :: "fault \<Rightarrow> ('r mem, unit) sm \<Rightarrow> ('r mem, unit) sm" where
  "mem_exec f m = (case f of Works \<Rightarrow> m | Fails \<Rightarrow> fail (JsError ''statement failed'' [])
     | FailsEnding \<Rightarrow> thn (modify (\<lambda>d. mem_end (mem_base d) d)) (fail (JsError ''statement failed'' [])))"

definition mem_mark :: "string \<Rightarrow> (nat \<Rightarrow> 'r mem \<Rightarrow> 'r mem) \<Rightarrow> ('r mem, unit) sm" where
  "mem_mark n f = bnd (gets (\<lambda>d. last_index n (map fst (m_marks d)))) (\<lambda>i.
     case i of None \<Rightarrow> fail (JsError ''no such savepoint'' [n]) | Some i \<Rightarrow> modify (f i))"

definition mem_driver :: "(stmt \<Rightarrow> fault) \<Rightarrow> 'r mem driver" where
  "mem_driver faults = \<lparr>
     dr_inTransaction = (\<lambda>d. m_begun d \<noteq> None),
     dr_begin = mem_exec (faults SBegin) (modify (\<lambda>d. d\<lparr>m_begun := Some (m_rows d), m_marks := []\<rparr>)),
     dr_commit = mem_exec (faults SCommit) (modify (\<lambda>d. mem_end (m_rows d) d)),
     dr_abort = mem_exec (faults SAbort) (modify (\<lambda>d. mem_end (mem_base d) d)),
     dr_savepoint = (\<lambda>n. mem_exec (faults (SSavepoint n)) (modify (\<lambda>d. d\<lparr>m_marks := m_marks d @ [(n, m_rows d)]\<rparr>))),
     dr_rollback = (\<lambda>n. mem_exec (faults (SRollback n))
       (mem_mark n (\<lambda>i d. d\<lparr>m_rows := snd (m_marks d ! i), m_marks := take (Suc i) (m_marks d)\<rparr>))),
     dr_release = (\<lambda>n. mem_exec (faults (SRelease n)) (mem_mark n (\<lambda>i d. d\<lparr>m_marks := take i (m_marks d)\<rparr>)))\<rparr>"

lemma mem_exec_cases:
  assumes "mem_exec f m d = (r, d')"
  shows "f = Works \<and> m d = (r, d') \<or> (\<exists>e. r = Inl e) \<and> (d' = d \<or> d' = mem_end (mem_base d) d)"
  using assms by (cases f) (auto simp: mem_exec_def thn_run)

lemma mem_mark_at:
  assumes "m_marks d = xs @ (n, q) # ys" and "n \<notin> fst ` set ys"
  shows "mem_mark n f d = (Inr (), f (length xs) d)"
proof -
  have "last_index n (map fst (m_marks d)) = Some (length xs)"
    using assms last_index_Some [of n "map fst ys" "map fst xs"] by simp
  then show ?thesis by (simp add: mem_mark_def)
qed

lemma mem_fault:
  assumes "m_begun d = Some b" and "d' = d \<or> d' = mem_end (mem_base d) d"
  shows "untouched (\<lambda>d. m_begun d \<noteq> None) m_rows mem_base m_marks d d' \<or> undone (\<lambda>d. m_begun d \<noteq> None) m_rows mem_base d d'"
  using assms by (auto simp: untouched_def undone_def mem_end_def mem_base_def)

lemma mem_mark_fault: "mem_mark n f d = (Inl e, d') \<Longrightarrow> d' = d"
  by (auto simp: mem_mark_def split: option.splits)

lemma mem_error:
  assumes "mem_exec f m d = (Inl e, d')" and "\<And>e d'. m d = (Inl e, d') \<Longrightarrow> d' = d"
  shows "d' = d \<or> d' = mem_end (mem_base d) d"
  using mem_exec_cases [OF assms(1)] assms(2) by blast

lemma mem_success: "mem_exec f m d = (Inr u, d') \<Longrightarrow> m d = (Inr u, d')"
  using mem_exec_cases [of f m d "Inr u" d'] by simp

lemma mem_failed:
  assumes "dr_inTransaction (mem_driver faults) d" and "d' = d \<or> d' = mem_end (mem_base d) d"
  shows "untouched (dr_inTransaction (mem_driver faults)) m_rows mem_base m_marks d d' \<or>
    undone (dr_inTransaction (mem_driver faults)) m_rows mem_base d d'"
  using assms by (auto simp: untouched_def undone_def mem_end_def mem_base_def mem_driver_def)

lemmas mem_fields = mem_driver_def [THEN arg_cong [of _ _ dr_inTransaction]] mem_driver_def [THEN arg_cong [of _ _ dr_begin]]
  mem_driver_def [THEN arg_cong [of _ _ dr_commit]] mem_driver_def [THEN arg_cong [of _ _ dr_abort]]
  mem_driver_def [THEN arg_cong [of _ _ dr_savepoint]] mem_driver_def [THEN arg_cong [of _ _ dr_rollback]]
  mem_driver_def [THEN arg_cong [of _ _ dr_release]]

interpretation mem: sqlite "mem_driver faults" m_rows mem_base m_marks for faults
proof (unfold_locales, goal_cases)
  case (1 d u d')
  then show ?case by (auto simp: mem_fields mem_base_def dest!: mem_success)
next
  case (2 d e d')
  then have "d' = d \<or> d' = mem_end (mem_base d) d" by (auto simp: mem_fields dest!: mem_error)
  then show ?case using 2 by (auto simp: mem_fields mem_end_def mem_base_def)
next
  case (3 d u d')
  then show ?case by (auto simp: mem_fields mem_end_def dest!: mem_success)
next
  case (4 d e d')
  then have "d' = d \<or> d' = mem_end (mem_base d) d" by (auto simp: mem_fields dest!: mem_error)
  then show ?case using mem_failed [OF 4(1)] by blast
next
  case (5 d u d')
  then show ?case by (auto simp: mem_fields mem_end_def undone_def dest!: mem_success)
next
  case (6 d e d')
  then have "d' = d \<or> d' = mem_end (mem_base d) d" by (auto simp: mem_fields dest!: mem_error)
  then show ?case using mem_failed [OF 6(1)] by blast
next
  case (7 d n u d')
  then show ?case by (auto simp: mem_fields mem_base_def dest!: mem_success split: option.splits)
next
  case (8 d n e d')
  then have "d' = d \<or> d' = mem_end (mem_base d) d" by (auto simp: mem_fields dest!: mem_error)
  then show ?case using mem_failed [OF 8(1)] by blast
next
  case (9 d n u d' xs r ys)
  then show ?case using mem_mark_at [OF 9(3,4)] by (auto simp: mem_fields mem_base_def dest!: mem_success)
next
  case (10 d n e d')
  then have "d' = d \<or> d' = mem_end (mem_base d) d" using mem_mark_fault by (fastforce simp: mem_fields dest!: mem_error)
  then show ?case using mem_failed [OF 10(1)] by blast
next
  case (11 d n u d' xs r ys)
  then show ?case using mem_mark_at [OF 11(3,4)] by (auto simp: mem_fields mem_base_def dest!: mem_success)
next
  case (12 d n e d')
  then have "d' = d \<or> d' = mem_end (mem_base d) d" using mem_mark_fault by (fastforce simp: mem_fields dest!: mem_error)
  then show ?case using mem_failed [OF 12(1)] by blast
qed

section \<open>Properties\<close>

text \<open>
  C35. What a crash would leave changes only when the outermost savepoint is released with success, and is
  then what the connection read at that moment, or when a write succeeds with no savepoint open: no
  other operation changes it, however any statement fails, and even if SQLite rolls the transaction
  back by itself or a failed transaction cannot be ended. After such an end no operation
  succeeds any more. Savepoints must not be opened under a name already on the stack.
\<close>

theorem transactions_atomic:
  assumes "sqlite dr rows base marks" and "tx_ok dr rows base marks t" and "usable dr rows base marks op t" and "run_op dr op t = (r, t')"
  shows "tx_ok dr rows base marks t' \<and>
    (durable dr rows base t' = durable dr rows base t \<or>
     r = Inr () \<and> commits op t \<and> durable dr rows base t' = rows (engine t) \<or>
     r = Inr () \<and> (\<exists>wr. op = Write wr) \<and> spStack t = []) \<and>
    (txAbandoned t \<longrightarrow> r \<noteq> Inr () \<and> t' = t)"
proof (cases "abandoned t")
  case True
  then show ?thesis using run_op_abandoned [OF True, of dr op] assms(4) by (auto simp: tx_ok_def)
next
  case False
  then obtain vs where h: "holding dr rows base marks vs t" using assms(2) by (auto simp: tx_ok_def)
  then have "\<not> txAbandoned t" "vs = [] \<Longrightarrow> spStack t = []" by (simp_all add: holding_def)
  moreover have "tx_ok dr rows base marks t'"
    using sqlite.step_run [OF assms(1) h assms(3,4)] unfolding tx_ok_def by blast
  ultimately show ?thesis using sqlite.step_run [OF assms(1) h assms(3,4)] by blast
qed

text \<open>A transaction with one savepoint and a write, whose commit fails.\<close>

definition demo_faults :: "stmt \<Rightarrow> fault" where
  "demo_faults st = (if st = SCommit then Fails else Works)"

definition demo_tx :: "nat mem tx" where
  "demo_tx = \<lparr>engine = \<lparr>m_rows = 8, m_begun = Some 7, m_marks = [(''t0'', 7)]\<rparr>, spStack = [''t0''], txAbandoned = False,
     abortFailure = None, lossCause = None\<rparr>"

lemma demo_tx_holding: "holding (mem_driver faults) m_rows mem_base m_marks [(''t0'', 7)] demo_tx"
  using aligned.push [OF aligned.bottom, of "''t0''" "[]" "[]" "7::nat"]
  by (simp add: holding_def demo_tx_def mem_fields mem_base_def)

theorem transactions_atomic_witness:
  "\<exists>e t'. run_op (mem_driver demo_faults) (Release ''t0'') demo_tx = (Inl e, t') \<and>
    tx_ok (mem_driver demo_faults) m_rows mem_base m_marks t' \<and> durable (mem_driver demo_faults) m_rows mem_base t' = 7"
proof -
  obtain r t' where run: "run_op (mem_driver demo_faults) (Release ''t0'') demo_tx = (r, t')" by fastforce
  have "tx_ok (mem_driver demo_faults) m_rows mem_base m_marks demo_tx" using demo_tx_holding unfolding tx_ok_def by blast
  from transactions_atomic [OF mem.sqlite_axioms this _ run]
  have "tx_ok (mem_driver demo_faults) m_rows mem_base m_marks t'"
    and d: "durable (mem_driver demo_faults) m_rows mem_base t' = durable (mem_driver demo_faults) m_rows mem_base demo_tx \<or> r = Inr ()"
    by auto
  moreover have "\<exists>e. r = Inl e" using run
    by (auto simp: demo_tx_def releaseSavepoint_def requireSavepoint_def assertNotAbandoned_def assertSafeIdentifier_def safeIdentifier_def
        is_letter_def is_digit_def assertSavepointLive_def commitIfNeeded_def tryCatch_def onEngine_def bnd_run thn_run mem_fields
        mem_exec_def mem_mark_def demo_faults_def discardTransaction_def rollbackIfNeeded_def split: prod.splits sum.splits)
  moreover have "durable (mem_driver demo_faults) m_rows mem_base demo_tx = 7" by (simp add: durable_def demo_tx_def mem_fields mem_base_def)
  ultimately show ?thesis using run by auto
qed

text \<open>
  Rolling back to a savepoint restores what the connection read when it was created, and the
  stack of savepoints, whatever operations came between that kept it on the stack: writes, failed statements, other
  savepoints taken, released and rolled back to, under names used before too.
\<close>

theorem savepoint_restores:
  assumes "sqlite dr rows base marks" and "tx_ok dr rows base marks t" and "n \<notin> set (spStack t)" and "createSavepoint dr n t = (Inr (), t1)"
    and "kept dr rows base marks n ops t1" and "rollbackSavepoint dr n (run_ops dr ops t1) = (Inr (), t2)"
  shows "rows (engine t2) = rows (engine t) \<and> spStack t2 = spStack t \<and> durable dr rows base t2 = durable dr rows base (run_ops dr ops t1)"
  using sqlite.restores [OF assms] .

definition demo_write :: "(nat mem, unit) sm" where
  "demo_write = modify (\<lambda>d. d\<lparr>m_rows := 9\<rparr>)"

theorem savepoint_restores_witness:
  "\<exists>t1 t2. createSavepoint (mem_driver demo_faults) ''t1'' demo_tx = (Inr (), t1) \<and>
    rollbackSavepoint (mem_driver demo_faults) ''t1'' (run_ops (mem_driver demo_faults) [Write demo_write] t1) = (Inr (), t2) \<and>
    m_rows (engine t2) = 8 \<and> spStack t2 = [''t0'']"
proof -
  let ?dr = "mem_driver demo_faults :: nat mem driver"
  let ?t1 = "demo_tx\<lparr>engine := \<lparr>m_rows = 8, m_begun = Some 7, m_marks = [(''t0'', 7), (''t1'', 8)]\<rparr>, spStack := [''t0'', ''t1'']\<rparr>"
  have id: "safeIdentifier ''t1''" by (simp add: safeIdentifier_def is_letter_def is_digit_def)
  have c: "createSavepoint ?dr ''t1'' demo_tx = (Inr (), ?t1)"
    by (simp add: demo_tx_def createSavepoint_def assertSafeIdentifier_def id beginIfNeeded_def assertWritable_def assertNotAbandoned_def
        isTransactionLost_def tryCatch_def onEngine_def bnd_run thn_run mem_fields mem_exec_def demo_faults_def)
  have w: "atomic_write ?dr m_rows mem_base m_marks demo_write"
    by (auto simp: atomic_write_def demo_write_def mem_fields mem_base_def split: option.splits)
  have r: "run_ops ?dr [Write demo_write] ?t1 = ?t1\<lparr>engine := \<lparr>m_rows = 9, m_begun = Some 7, m_marks = [(''t0'', 7), (''t1'', 8)]\<rparr>\<rparr>"
    by (simp add: demo_tx_def demo_write_def guardWrite_def assertWritable_def assertNotAbandoned_def isTransactionLost_def
        tryCatch_def onEngine_def bnd_run thn_run mem_fields)
  have k: "kept ?dr m_rows mem_base m_marks ''t1'' [Write demo_write] ?t1" using w r by simp
  have "\<exists>t2. rollbackSavepoint ?dr ''t1'' (run_ops ?dr [Write demo_write] ?t1) = (Inr (), t2)"
    unfolding r by (simp add: demo_tx_def rollbackSavepoint_def requireSavepoint_def assertNotAbandoned_def assertSafeIdentifier_def id
        assertSavepointLive_def tryCatch_def onEngine_def bnd_run thn_run mem_fields mem_exec_def mem_mark_def demo_faults_def)
  then obtain t2 where rb: "rollbackSavepoint ?dr ''t1'' (run_ops ?dr [Write demo_write] ?t1) = (Inr (), t2)" by blast
  have "tx_ok ?dr m_rows mem_base m_marks demo_tx" using demo_tx_holding unfolding tx_ok_def by blast
  from savepoint_restores [OF mem.sqlite_axioms this _ c k rb] show ?thesis using c rb by (simp add: demo_tx_def)
qed

end
