(* ===== verification/Crank.thy ===== *)
theory Crank
  imports Queues Transactions
begin

text \<open>
  Cranks (\<open>store/methods/crank.ts\<close>): the unit of work the kernel commits or abandons as a whole,
  over the savepoints of the database. A rollback undoes rows; the caches kept over them in
  memory (the run queue's indices, its length, the cached values), the collection candidates and
  the buffered outputs have to follow. The database is a parameter, a \<open>kernel_database\<close> with the
  promises of locale \<open>savepoint_store\<close>; theory \<open>Transactions\<close> provides one.
  \<open>waitForCrank\<close> waits for the promise that \<open>startCrank\<close> makes and \<open>endCrank\<close> settles, so
  it returns at once just when \<open>inCrank\<close> is unset.
\<close>

section \<open>The database (kernel-store/src/types.ts)\<close>

record kernel_database =
  kd_create :: "string \<Rightarrow> unit store"
  kd_rollback :: "string \<Rightarrow> unit store"
  kd_release :: "string \<Rightarrow> unit store"

section \<open>Operations\<close>

definition startCrank :: "unit store" where
  "startCrank = bnd (gets inCrank) (\<lambda>c.
     thn (require (\<not> c) (Fail ''startCrank while already in a crank'' [])) (modify (inCrank_update (\<lambda>_. True))))"

text \<open>\<open>`t${ordinal}`\<close>\<close>

definition save_name :: "nat \<Rightarrow> string" where
  "save_name ordinal = CHR ''t'' # nat_text ordinal"

definition createCrankSavepoint :: "kernel_database \<Rightarrow> string \<Rightarrow> unit store" where
  "createCrankSavepoint kd name = bnd (gets inCrank) (\<lambda>c.
     thn (require c (Fail ''createCrankSavepoint outside of crank'' []))
       (bnd (gets (\<lambda>s. length (savepoints s))) (\<lambda>ordinal.
         thn (kd_create kd (save_name ordinal))
           (modify (\<lambda>s. s\<lparr>savepoints := savepoints s @ [(name, maybeFreeKrefs s)]\<rparr>)))))"

text \<open>
  \<open>revertStateBeneathRollback(restored, rollbackError)\<close>; of \<open>restored\<close> it reads the snapshot of
  the collection candidates.
\<close>

definition revertStateBeneathRollback :: "string list \<Rightarrow> kerror option \<Rightarrow> unit store" where
  "revertStateBeneathRollback restored rollbackError =
     thn (modify (maybeFreeKrefs_update (\<lambda>_. restored)))
       (tryCatch (thn refreshRunQueue (thn (modify (runQueueLengthCache_update (\<lambda>_. - 1))) refreshCachedValues))
         (\<lambda>revertError. case rollbackError of None \<Rightarrow> fail revertError
            | Some _ \<Rightarrow> fail (JsError ''savepoints were lost and the caches could not be reverted'' [])))"

text \<open>The loop over the savepoints, outermost first: the first with the name, and its ordinal.\<close>

fun find_savepoint :: "string \<Rightarrow> nat \<Rightarrow> (string \<times> string list) list \<Rightarrow> (nat \<times> string list) option" where
  "find_savepoint name ordinal [] = None"
| "find_savepoint name ordinal (p # ps) =
     (if fst p = name then Some (ordinal, snd p) else find_savepoint name (Suc ordinal) ps)"

definition rollbackCrank :: "kernel_database \<Rightarrow> string \<Rightarrow> unit store" where
  "rollbackCrank kd name = bnd (gets inCrank) (\<lambda>c.
     thn (require c (Fail ''rollbackCrank outside of crank'' []))
       (thn (modify (crankBuffer_update (\<lambda>_. [])))
         (bnd (gets (\<lambda>s. find_savepoint name 0 (savepoints s))) (\<lambda>found.
           case found of None \<Rightarrow> fail (Fail ''no such savepoint as'' [name])
           | Some (ordinal, restored) \<Rightarrow>
               thn (tryCatch (thn (kd_rollback kd (save_name ordinal)) (modify (savepoints_update (take ordinal))))
                     (\<lambda>e. bnd (gets (\<lambda>s. case savepoints s of [] \<Rightarrow> restored | p # _ \<Rightarrow> snd p)) (\<lambda>outermost.
                        thn (modify (savepoints_update (\<lambda>_. [])))
                          (thn (revertStateBeneathRollback outermost (Some e)) (fail e)))))
                 (revertStateBeneathRollback restored None)))))"

definition releaseAllSavepoints :: "kernel_database \<Rightarrow> unit store" where
  "releaseAllSavepoints kd = bnd (gets savepoints) (\<lambda>sps.
     case sps of [] \<Rightarrow> ret ()
     | outermost # _ \<Rightarrow>
         thn (tryCatch (kd_release kd (save_name 0)) (\<lambda>e.
               thn (modify (savepoints_update (\<lambda>_. [])))
                 (thn (revertStateBeneathRollback (snd outermost) (Some e)) (fail e))))
           (modify (savepoints_update (\<lambda>_. []))))"

definition endCrank :: "kernel_database \<Rightarrow> unit store" where
  "endCrank kd = bnd (gets inCrank) (\<lambda>c.
     thn (require c (Fail ''endCrank outside of crank'' []))
       (tryFinally (releaseAllSavepoints kd) (inCrank_update (\<lambda>_. False))))"

definition bufferCrankOutput :: "run_item \<Rightarrow> unit store" where
  "bufferCrankOutput item = modify (crankBuffer_update (\<lambda>b. b @ [item]))"

definition flushCrankBuffer :: "run_item list store" where
  "flushCrankBuffer = bnd (gets crankBuffer) (\<lambda>items. thn (modify (crankBuffer_update (\<lambda>_. []))) (ret items))"

definition isInCrank :: "ctx \<Rightarrow> bool" where
  "isInCrank s = inCrank s"

section \<open>What memory holds over the rows\<close>

text \<open>Every row the context caches is there, as \<open>makeKernelStore\<close> leaves them.\<close>

definition provided :: "kdb \<Rightarrow> bool" where
  "provided d \<longleftrightarrow> tget (qheads d) ''run'' \<noteq> None \<and> tget (qtails d) ''run'' \<noteq> None \<and> init_cached_rows (cachedRows d) = cachedRows d"

definition coherent :: "ctx \<Rightarrow> bool" where
  "coherent s \<longleftrightarrow> provided (db s) \<and> cache s = cachedRows (db s) \<and>
     rqHead s = tget (qheads (db s)) ''run'' \<and> rqTail s = tget (qtails (db s)) ''run'' \<and>
     (0 \<le> runQueueLengthCache s \<longrightarrow> getQueueLength ''run'' s = (Inr (runQueueLengthCache s), s))"

lemma init_row_idem [simp]: "init_row i (init_row i x) = init_row i x"
  by (simp add: init_row_def split: option.splits)

lemma coherent_settle: "coherent s \<Longrightarrow> coherent (s\<lparr>inCrank := c\<rparr>)"
  by (cases "tget (qheads (db s)) ''run''"; cases "tget (qtails (db s)) ''run''")
    (simp_all add: coherent_def getQueueLength_def provided_def)

lemma makeKernelStore_coherent: "coherent (makeKernelStore d)"
  by (simp add: coherent_def provided_def makeKernelStore_simps split: option.splits)

text \<open>The caches re-read over a database that holds every row: nothing is written.\<close>

lemma reread_run:
  assumes "provided (db s)"
  shows "revertStateBeneathRollback krefs err s =
    (Inr (), s\<lparr>maybeFreeKrefs := krefs, rqHead := tget (qheads (db s)) ''run'', rqTail := tget (qtails (db s)) ''run'',
       runQueueLengthCache := - 1, cache := cachedRows (db s)\<rparr>)"
proof -
  obtain h t where "tget (qheads (db s)) ''run'' = Some h" "tget (qtails (db s)) ''run'' = Some t"
    "init_cached_rows (cachedRows (db s)) = cachedRows (db s)" using assms by (auto simp: provided_def)
  then show ?thesis
    by (simp add: revertStateBeneathRollback_def refreshRunQueue_def provideStoredQueue_def refreshCachedValues_def put_if_absent_def
        tryCatch_def thn_run Let_def)
qed

lemma reread_coherent:
  assumes "provided (db s)" and "revertStateBeneathRollback krefs err s = (r, s')"
  shows "r = Inr () \<and> coherent s' \<and> db s' = db s \<and> session s' = session s \<and> maybeFreeKrefs s' = krefs \<and>
    savepoints s' = savepoints s \<and> inCrank s' = inCrank s \<and> crankBuffer s' = crankBuffer s"
  using assms by (auto simp: reread_run coherent_def)

section \<open>What the database promises\<close>

text \<open>
  \<open>live vs s\<close>: the savepoints \<open>vs\<close> are taken, each with the rows it restores, and writes are
  accepted. \<open>lost vs s\<close>: the database has rolled back the transaction holding them by itself, and
  refuses writes until one of them is given up. \<open>refused s\<close>: a transaction it could not end.
\<close>

locale savepoint_store =
  fixes kd :: kernel_database and live :: "(string \<times> kdb) list \<Rightarrow> ctx \<Rightarrow> bool"
    and lost :: "(string \<times> kdb) list \<Rightarrow> ctx \<Rightarrow> bool" and refused :: "ctx \<Rightarrow> bool"
  assumes create_frame: "kd_create kd n s = (r, s') \<Longrightarrow> \<exists>d ss. s' = s\<lparr>db := d, session := ss\<rparr>"
    and rollback_frame: "kd_rollback kd n s = (r, s') \<Longrightarrow> \<exists>d ss. s' = s\<lparr>db := d, session := ss\<rparr>"
    and release_frame: "kd_release kd n s = (r, s') \<Longrightarrow> \<exists>d ss. s' = s\<lparr>db := d, session := ss\<rparr>"
    and live_session: "live vs s \<Longrightarrow> session s' = session s \<Longrightarrow> live vs s'"
    and refused_session: "refused s \<Longrightarrow> session s' = session s \<Longrightarrow> refused s'"
    and lost_session: "lost vs s \<Longrightarrow> session s' = session s \<Longrightarrow> db s' = db s \<Longrightarrow> lost vs s'"
    and live_distinct: "live vs s \<Longrightarrow> distinct (map fst vs)"
    and create_ok: "live vs s \<Longrightarrow> n \<notin> fst ` set vs \<Longrightarrow> kd_create kd n s = (Inr u, s') \<Longrightarrow>
      live (vs @ [(n, db s)]) s' \<and> db s' = db s"
    and create_err: "live vs s \<Longrightarrow> n \<notin> fst ` set vs \<Longrightarrow> kd_create kd n s = (Inl e, s') \<Longrightarrow>
      live vs s' \<and> db s' = db s \<or> vs \<noteq> [] \<and> lost vs s' \<or> refused s'"
    and rollback_ok: "live (a @ (n, d) # b) s \<Longrightarrow> kd_rollback kd n s = (Inr u, s') \<Longrightarrow> live a s' \<and> db s' = d"
    and rollback_err: "live vs s \<Longrightarrow> safeIdentifier n \<Longrightarrow> n \<in> fst ` set vs \<Longrightarrow> kd_rollback kd n s = (Inl e, s') \<Longrightarrow>
      refused s' \<or> live [] s' \<and> db s' = snd (hd vs)"
    and release_ok: "live ((n, d) # b) s \<Longrightarrow> kd_release kd n s = (Inr u, s') \<Longrightarrow> live [] s' \<and> db s' = db s"
    and release_err: "live ((n, d) # b) s \<Longrightarrow> safeIdentifier n \<Longrightarrow> kd_release kd n s = (Inl e, s') \<Longrightarrow> refused s' \<or> live [] s' \<and> db s' = d"
    and lost_release: "lost ((n, d) # b) s \<Longrightarrow> safeIdentifier n \<Longrightarrow> \<exists>e s'. kd_release kd n s = (Inl e, s') \<and> live [] s' \<and> db s' = d"
    and refused_release: "refused s \<Longrightarrow> kd_release kd n s = (r, s') \<Longrightarrow> refused s'"

text \<open>A crank under way, with the rows each savepoint of the context goes back to.\<close>

fun saves_from :: "nat \<Rightarrow> kdb list \<Rightarrow> (string \<times> kdb) list" where
  "saves_from i [] = []"
| "saves_from i (d # ds) = (save_name i, d) # saves_from (Suc i) ds"

definition in_crank :: "((string \<times> kdb) list \<Rightarrow> ctx \<Rightarrow> bool) \<Rightarrow> kdb list \<Rightarrow> ctx \<Rightarrow> bool" where
  "in_crank live rows s \<longleftrightarrow> inCrank s \<and> length (savepoints s) = length rows \<and> live (saves_from 0 rows) s \<and> list_all provided rows"

lemma save_name_inj [simp]: "save_name i = save_name j \<longleftrightarrow> i = j"
  by (simp add: save_name_def)

lemma save_name_safe [simp]: "safeIdentifier (save_name i)"
  using nat_text_digits [of i] by (auto simp: save_name_def safeIdentifier_def is_letter_def list_all_iff)

lemma saves_from_append: "saves_from i (xs @ ys) = saves_from i xs @ saves_from (i + length xs) ys"
  by (induction xs arbitrary: i) auto

lemma saves_from_names: "n \<in> fst ` set (saves_from i xs) \<Longrightarrow> \<exists>j. n = save_name j \<and> i \<le> j \<and> j < i + length xs"
  by (induction xs arbitrary: i) fastforce+

lemma find_savepoint_found:
  "n \<notin> fst ` set xs \<Longrightarrow> find_savepoint n i (xs @ (n, k) # ys) = Some (i + length xs, k)"
  by (induction xs arbitrary: i) auto

lemma revert_run:
  "\<exists>d h t c. revertStateBeneathRollback krefs err s =
     (Inr (), s\<lparr>maybeFreeKrefs := krefs, db := d, rqHead := h, rqTail := t, runQueueLengthCache := - 1, cache := c\<rparr>)"
  by (cases s) (auto simp: revertStateBeneathRollback_def refreshRunQueue_def provideStoredQueue_def refreshCachedValues_def
      tryCatch_def thn_run Let_def)

context savepoint_store
begin

lemma create_crank:
  assumes h: "in_crank live rows s" and p: "provided (db s)" and run: "createCrankSavepoint kd n s = (Inr u, s')"
  shows "in_crank live (rows @ [db s]) s' \<and> db s' = db s \<and> savepoints s' = savepoints s @ [(n, maybeFreeKrefs s)]"
proof -
  have c: "inCrank s" and l: "length (savepoints s) = length rows" and lv: "live (saves_from 0 rows) s"
    and pr: "list_all provided rows" using h by (simp_all add: in_crank_def)
  obtain r t where k: "kd_create kd (save_name (length rows)) s = (r, t)" by fastforce
  from run c k l have r: "r = Inr ()" and s': "s' = t\<lparr>savepoints := savepoints t @ [(n, maybeFreeKrefs t)]\<rparr>"
    by (auto simp: createCrankSavepoint_def thn_run split: sum.splits)
  obtain d ss where t: "t = s\<lparr>db := d, session := ss\<rparr>" using create_frame [OF k] by blast
  have "save_name (length rows) \<notin> fst ` set (saves_from 0 rows)" using saves_from_names [of "save_name (length rows)" 0 rows] by auto
  from create_ok [OF lv this] k r have cr: "live (saves_from 0 rows @ [(save_name (length rows), db s)]) t" "db t = db s" by simp_all
  have "live (saves_from 0 (rows @ [db s])) s'" using live_session [OF cr(1)] s' by (simp add: saves_from_append)
  then show ?thesis using c l pr p cr(2) by (simp add: in_crank_def s' t)
qed

lemma create_crank_err:
  assumes h: "in_crank live rows s" and run: "createCrankSavepoint kd n s = (Inl e, s')"
  shows "inCrank s' \<and> savepoints s' = savepoints s \<and>
    (in_crank live rows s' \<and> db s' = db s \<or> rows \<noteq> [] \<and> lost (saves_from 0 rows) s' \<or> refused s')"
proof -
  have c: "inCrank s" and l: "length (savepoints s) = length rows" and lv: "live (saves_from 0 rows) s"
    and pr: "list_all provided rows" using h by (simp_all add: in_crank_def)
  obtain r t where k: "kd_create kd (save_name (length rows)) s = (r, t)" by fastforce
  from run c k l have r: "r = Inl e" and s': "s' = t" by (auto simp: createCrankSavepoint_def thn_run split: sum.splits)
  obtain d ss where t: "t = s\<lparr>db := d, session := ss\<rparr>" using create_frame [OF k] by blast
  have "save_name (length rows) \<notin> fst ` set (saves_from 0 rows)" using saves_from_names [of "save_name (length rows)" 0 rows] by auto
  from create_err [OF lv this] k r have "live (saves_from 0 rows) t \<and> db t = db s \<or> rows \<noteq> [] \<and> lost (saves_from 0 rows) t \<or> refused t"
    by (cases rows) auto
  then show ?thesis using c l pr by (auto simp: in_crank_def s') (simp_all add: t)
qed

lemma rollback_crank:
  assumes h: "in_crank live (xs @ d # ys) s" and sp: "savepoints s = us @ (n, k) # ws" and len: "length us = length xs" and nu: "n \<notin> fst ` set us"
    and run: "rollbackCrank kd n s = (r, s')"
  shows "crankBuffer s' = [] \<and> inCrank s' \<and> (case r of
      Inr _ \<Rightarrow> in_crank live xs s' \<and> db s' = d \<and> savepoints s' = us \<and> maybeFreeKrefs s' = k \<and> coherent s'
    | Inl _ \<Rightarrow> savepoints s' = [] \<and> (refused s' \<or>
        in_crank live [] s' \<and> db s' = hd (xs @ [d]) \<and> maybeFreeKrefs s' = snd (hd (savepoints s)) \<and> coherent s'))"
proof -
  let ?rows = "xs @ d # ys" and ?i = "length xs" and ?s = "s\<lparr>crankBuffer := []\<rparr>"
  have c: "inCrank s" and lv0: "live (saves_from 0 ?rows) s" and pr: "list_all provided ?rows" using h by (simp_all add: in_crank_def)
  have lv: "live (saves_from 0 xs @ (save_name ?i, d) # saves_from (Suc ?i) ys) ?s"
    using live_session [OF lv0, of ?s] by (simp add: saves_from_append)
  have f: "find_savepoint n 0 (savepoints s) = Some (?i, k)" using find_savepoint_found [OF nu, of 0 k ws] sp len by simp
  obtain q t where kr: "kd_rollback kd (save_name ?i) ?s = (q, t)" by fastforce
  obtain e ss where t: "t = ?s\<lparr>db := e, session := ss\<rparr>" using rollback_frame [OF kr] by blast
  show ?thesis
  proof (cases q)
    case (Inr u)
    then have cr: "live (saves_from 0 xs) t" "db t = d" using rollback_ok [OF lv] kr by blast+
    let ?t = "t\<lparr>savepoints := us\<rparr>"
    have upd: "t\<lparr>savepoints := take ?i (savepoints t)\<rparr> = ?t" using sp len by (simp add: t)
    have "rollbackCrank kd n s = revertStateBeneathRollback k None (t\<lparr>savepoints := take ?i (savepoints t)\<rparr>)"
      using c f kr Inr by (cases t) (simp add: rollbackCrank_def tryCatch_def thn_run)
    then have rv: "revertStateBeneathRollback k None ?t = (r, s')" using run upd by simp
    have pd: "provided (db ?t)" using cr pr by simp
    note rr = reread_coherent [OF pd rv]
    then have "live (saves_from 0 xs) s'" using live_session [OF cr(1), of s'] by simp
    then show ?thesis using rr cr c pr len by (simp add: in_crank_def t)
  next
    case (Inl z)
    let ?t = "t\<lparr>savepoints := []\<rparr>" and ?o = "snd (hd (savepoints s))"
    obtain v where rv: "revertStateBeneathRollback ?o (Some z) ?t = (Inr (), v)" using revert_run by blast
    have o: "(case savepoints t of [] \<Rightarrow> k | p # _ \<Rightarrow> snd p) = ?o" using sp by (cases us) (simp_all add: t)
    have "rollbackCrank kd n s = (Inl z, v)"
      using c f kr Inl rv o by (simp add: rollbackCrank_def tryCatch_def thn_run)
    then have r: "r = Inl z" "s' = v" using run by simp_all
    obtain d' h l ca where v: "v = ?t\<lparr>maybeFreeKrefs := ?o, db := d', rqHead := h, rqTail := l, runQueueLengthCache := - 1, cache := ca\<rparr>"
      using revert_run [of ?o "Some z" ?t] rv by auto
    have "save_name ?i \<in> fst ` set (saves_from 0 xs @ (save_name ?i, d) # saves_from (Suc ?i) ys)" by simp
    from rollback_err [OF lv save_name_safe this] kr Inl have alt: "refused t \<or> live [] t \<and> db t = hd (xs @ [d])"
      by (cases xs) simp_all
    show ?thesis
    proof (cases "refused t")
      case True
      then show ?thesis using refused_session [of t v] r c by (simp add: v) (simp add: t)
    next
      case False
      then have a: "live [] t" "db t = hd (xs @ [d])" using alt by simp_all
      have "provided (db ?t)" using a pr by (cases xs) simp_all
      from reread_coherent [OF this rv] a show ?thesis using live_session [of "[]" t v] r c by (simp add: in_crank_def t)
    qed
  qed
qed

text \<open>The end of a crank commits it, or leaves the rows its first savepoint was taken over.\<close>

lemma end_crank:
  assumes h: "in_crank live rows s" and run: "endCrank kd s = (r, s')"
  shows "\<not> inCrank s' \<and> savepoints s' = [] \<and> (case r of
      Inr _ \<Rightarrow> live [] s' \<and> (\<exists>ss. s' = s\<lparr>session := ss, inCrank := False, savepoints := []\<rparr>)
    | Inl _ \<Rightarrow> refused s' \<or> live [] s' \<and> db s' = hd rows \<and> maybeFreeKrefs s' = snd (hd (savepoints s)) \<and> coherent s')"
proof (cases rows)
  case Nil
  then have sp: "savepoints s = []" and c: "inCrank s" and lv: "live [] s" using h by (simp_all add: in_crank_def)
  then have r: "r = Inr ()" and s': "s' = s\<lparr>inCrank := False\<rparr>"
    using run by (simp_all add: endCrank_def releaseAllSavepoints_def tryFinally_def thn_run)
  have "s' = s\<lparr>session := session s, inCrank := False, savepoints := []\<rparr>" using sp s' by (cases s) simp
  moreover have "live [] s'" using live_session [OF lv, of s'] s' by simp
  moreover have "\<not> inCrank s'" "savepoints s' = []" using sp s' by simp_all
  ultimately show ?thesis unfolding r by (auto intro: exI [of _ "session s"])
next
  case (Cons d b)
  have c: "inCrank s" and lv: "live ((save_name 0, d) # saves_from (Suc 0) b) s" and pr: "provided d"
    using h Cons by (simp_all add: in_crank_def)
  obtain p sps where sp: "savepoints s = p # sps" using h Cons by (cases "savepoints s") (auto simp: in_crank_def)
  obtain q t where kr: "kd_release kd (save_name 0) s = (q, t)" by fastforce
  obtain e ss where t: "t = s\<lparr>db := e, session := ss\<rparr>" using release_frame [OF kr] by blast
  show ?thesis
  proof (cases q)
    case (Inr u)
    then have cr: "live [] t" "db t = db s" using release_ok [OF lv] kr by blast+
    have "r = Inr ()" "s' = t\<lparr>savepoints := [], inCrank := False\<rparr>"
      using run c sp kr Inr by (simp_all add: endCrank_def releaseAllSavepoints_def tryFinally_def tryCatch_def thn_run)
    moreover from this have "s' = s\<lparr>session := ss, inCrank := False, savepoints := []\<rparr>" using cr by (cases s) (simp add: t)
    ultimately show ?thesis using cr(1) live_session [of "[]" t s'] by (auto intro: exI [of _ ss])
  next
    case (Inl z)
    let ?t = "t\<lparr>savepoints := []\<rparr>"
    obtain v where rv: "revertStateBeneathRollback (snd p) (Some z) ?t = (Inr (), v)" using revert_run by blast
    have r: "r = Inl z" "s' = v\<lparr>inCrank := False\<rparr>"
      using run c sp kr Inl rv by (simp_all add: endCrank_def releaseAllSavepoints_def tryFinally_def tryCatch_def thn_run)
    obtain d' hd' l ca where v: "v = ?t\<lparr>maybeFreeKrefs := snd p, db := d', rqHead := hd', rqTail := l, runQueueLengthCache := - 1, cache := ca\<rparr>"
      using revert_run [of "snd p" "Some z" ?t] rv by auto
    show ?thesis
    proof (cases "refused t")
      case True
      then show ?thesis using refused_session [of t s'] r by (simp add: v)
    next
      case False
      then have a: "live [] t" "db t = d" using release_err [OF lv save_name_safe] kr Inl by blast+
      have "provided (db ?t)" using a pr by simp
      note rr = reread_coherent [OF this rv]
      then have "coherent s'" using r coherent_settle [of v] by simp
      then show ?thesis using rr a live_session [of "[]" t s'] r Cons sp by simp
    qed
  qed
qed

text \<open>A savepoint that could not be taken, with the database having dropped the crank's writes: its end says so.\<close>

lemma end_lost_crank:
  assumes c: "inCrank s" and sp: "savepoints s = p # sps" and l: "lost (saves_from 0 (d # b)) s" and pr: "provided d"
    and run: "endCrank kd s = (r, s')"
  shows "(\<exists>e. r = Inl e) \<and> \<not> inCrank s' \<and> savepoints s' = [] \<and> live [] s' \<and> db s' = d \<and> maybeFreeKrefs s' = snd p \<and> coherent s'"
proof -
  obtain z t where kr: "kd_release kd (save_name 0) s = (Inl z, t)" and a: "live [] t" "db t = d"
    using lost_release [OF l [unfolded saves_from.simps] save_name_safe] by blast
  obtain e ss where t: "t = s\<lparr>db := e, session := ss\<rparr>" using release_frame [OF kr] by blast
  let ?t = "t\<lparr>savepoints := []\<rparr>"
  obtain v where rv: "revertStateBeneathRollback (snd p) (Some z) ?t = (Inr (), v)" using revert_run by blast
  have r: "r = Inl z" "s' = v\<lparr>inCrank := False\<rparr>"
    using run c sp kr rv by (simp_all add: endCrank_def releaseAllSavepoints_def tryFinally_def tryCatch_def thn_run)
  have "provided (db ?t)" using a pr by simp
  note rr = reread_coherent [OF this rv]
  then have "coherent s'" using r coherent_settle [of v] by simp
  then show ?thesis using rr a live_session [of "[]" t s'] r by simp
qed

text \<open>A connection that refuses writes goes on refusing them.\<close>

lemma end_refused_crank:
  assumes c: "inCrank s" and f: "refused s" and run: "endCrank kd s = (r, s')"
  shows "\<not> inCrank s' \<and> savepoints s' = [] \<and> refused s'"
proof (cases "savepoints s")
  case Nil
  then have "s' = s\<lparr>inCrank := False\<rparr>" using run c by (simp add: endCrank_def releaseAllSavepoints_def tryFinally_def thn_run)
  then show ?thesis using Nil refused_session [OF f, of s'] by simp
next
  case (Cons p sps)
  obtain q t where kr: "kd_release kd (save_name 0) s = (q, t)" by fastforce
  have ft: "refused t" by (rule refused_release [OF f kr])
  show ?thesis
  proof (cases q)
    case (Inr u)
    then have "s' = t\<lparr>savepoints := [], inCrank := False\<rparr>"
      using run c Cons kr by (simp add: endCrank_def releaseAllSavepoints_def tryFinally_def tryCatch_def thn_run)
    then show ?thesis using refused_session [OF ft, of s'] by simp
  next
    case (Inl z)
    let ?t = "t\<lparr>savepoints := []\<rparr>"
    obtain d h l ca where rv: "revertStateBeneathRollback (snd p) (Some z) ?t =
        (Inr (), ?t\<lparr>maybeFreeKrefs := snd p, db := d, rqHead := h, rqTail := l, runQueueLengthCache := - 1, cache := ca\<rparr>)"
      using revert_run by blast
    then have "s' = ?t\<lparr>maybeFreeKrefs := snd p, db := d, rqHead := h, rqTail := l, runQueueLengthCache := - 1, cache := ca, inCrank := False\<rparr>"
      using run c Cons kr Inl by (simp add: endCrank_def releaseAllSavepoints_def tryFinally_def tryCatch_def thn_run)
    then show ?thesis using refused_session [OF ft, of s'] by simp
  qed
qed

text \<open>Work between a savepoint and its end touches rows and memory, not the savepoints.\<close>

lemma worked: "in_crank live rows t \<Longrightarrow> session u = session t \<Longrightarrow> savepoints u = savepoints t \<Longrightarrow> inCrank u \<Longrightarrow> in_crank live rows u"
  using live_session [of _ t u] by (simp add: in_crank_def)

lemma savepoint_rollback:
  assumes h: "in_crank live rows s" and co: "coherent s" and new: "n \<notin> fst ` set (savepoints s)"
    and cr: "createCrankSavepoint kd n s = (Inr (), t)"
    and work: "session u = session t" "savepoints u = savepoints t" "inCrank u" and rb: "rollbackCrank kd n u = (r, s')"
  shows "crankBuffer s' = [] \<and> (case r of
      Inr _ \<Rightarrow> in_crank live rows s' \<and> db s' = db s \<and> savepoints s' = savepoints s \<and> maybeFreeKrefs s' = maybeFreeKrefs s \<and> coherent s'
    | Inl _ \<Rightarrow> savepoints s' = [] \<and> (refused s' \<or>
        db s' = hd (rows @ [db s]) \<and> maybeFreeKrefs s' = snd (hd (savepoints s @ [(n, maybeFreeKrefs s)])) \<and> coherent s'))"
proof -
  have p: "provided (db s)" using co by (simp add: coherent_def)
  note c = create_crank [OF h p cr]
  then have "in_crank live (rows @ db s # []) u" using worked [OF _ work] by simp
  moreover have "savepoints u = savepoints s @ (n, maybeFreeKrefs s) # []" using c work(2) by simp
  moreover have "length (savepoints s) = length rows" using h by (simp add: in_crank_def)
  ultimately show ?thesis using rollback_crank [OF _ _ _ new rb] work(2) c by (cases r) auto
qed

lemma whole_crank:
  assumes l: "live [] s" and co: "coherent s" and sp: "savepoints s = []"
    and st: "startCrank s = (Inr (), a)" and cr: "createCrankSavepoint kd n a = (Inr (), t)"
    and work: "session u = session t" "savepoints u = savepoints t" "inCrank u" and en: "endCrank kd u = (r, s')"
  shows "\<not> inCrank s' \<and> savepoints s' = [] \<and> (case r of
      Inr _ \<Rightarrow> live [] s' \<and> db s' = db u \<and> maybeFreeKrefs s' = maybeFreeKrefs u
    | Inl _ \<Rightarrow> refused s' \<or> live [] s' \<and> db s' = db s \<and> maybeFreeKrefs s' = maybeFreeKrefs s \<and> coherent s')"
proof -
  have a: "a = s\<lparr>inCrank := True\<rparr>" using st by (auto simp: startCrank_def split: if_splits)
  then have "in_crank live [] a" using l sp live_session [OF l, of a] by (simp add: in_crank_def)
  moreover have "provided (db a)" using co a by (simp add: coherent_def)
  ultimately have c: "in_crank live ([] @ [db a]) t \<and> db t = db a \<and> savepoints t = savepoints a @ [(n, maybeFreeKrefs a)]"
    using create_crank cr by blast
  then have "in_crank live [db s] u" using worked [OF _ work] a by simp
  from end_crank [OF this en] have "\<not> inCrank s' \<and> savepoints s' = [] \<and> (case r of
      Inr _ \<Rightarrow> live [] s' \<and> (\<exists>ss. s' = u\<lparr>session := ss, inCrank := False, savepoints := []\<rparr>)
    | Inl _ \<Rightarrow> refused s' \<or> live [] s' \<and> db s' = db s \<and> maybeFreeKrefs s' = snd (hd (savepoints u)) \<and> coherent s')" by (cases r) simp_all
  moreover have "snd (hd (savepoints u)) = maybeFreeKrefs s" using c work(2) a sp by simp
  ultimately show ?thesis by (cases r) auto
qed

end

section \<open>The kernel's database\<close>

text \<open>
  The savepoints of \<open>makeSQLKernelDatabase\<close> (\<open>kernel-store/src/sqlite/nodejs.ts\<close>) are the
  operations of \<open>Transactions\<close>, over a connection on which any statement may fail. \<open>tx_of\<close> is
  the connection as the context has it.
\<close>

definition tx_of :: "ctx \<Rightarrow> kdb mem tx" where
  "tx_of s = \<lparr>engine = \<lparr>m_rows = db s, m_begun = txBase (session s), m_marks = txMarks (session s)\<rparr>,
     spStack = txNames (session s), txAbandoned = txRefuses (session s),
     abortFailure = txAbortFailure (session s), lossCause = txLossCause (session s)\<rparr>"

definition tx_back :: "kdb mem tx \<Rightarrow> ctx \<Rightarrow> ctx" where
  "tx_back t s = s\<lparr>db := m_rows (engine t),
     session := \<lparr>txBase = m_begun (engine t), txMarks = m_marks (engine t), txNames = spStack t,
       txRefuses = txAbandoned t, txAbortFailure = abortFailure t, txLossCause = lossCause t\<rparr>\<rparr>"

definition on_connection :: "(kdb mem tx, 'a) sm \<Rightarrow> 'a store" where
  "on_connection m = (\<lambda>s. case m (tx_of s) of (r, t) \<Rightarrow> (r, tx_back t s))"

definition sql_database :: "(stmt \<Rightarrow> fault) \<Rightarrow> kernel_database" where
  "sql_database faults = \<lparr>
     kd_create = (\<lambda>n. on_connection (createSavepoint (mem_driver faults) n)),
     kd_rollback = (\<lambda>n. on_connection (rollbackSavepoint (mem_driver faults) n)),
     kd_release = (\<lambda>n. on_connection (releaseSavepoint (mem_driver faults) n))\<rparr>"

lemma tx_of_back [simp]: "tx_of (tx_back t s) = t"
  by (simp add: tx_of_def tx_back_def)

lemma tx_back_of: "tx_back (tx_of s) s = s"
  by (simp add: tx_of_def tx_back_def)

definition sql_holding :: "(stmt \<Rightarrow> fault) \<Rightarrow> (string \<times> kdb) list \<Rightarrow> ctx \<Rightarrow> bool" where
  "sql_holding faults vs s \<longleftrightarrow> holding (mem_driver faults) m_rows mem_base m_marks vs (tx_of s)"

definition sql_live :: "(stmt \<Rightarrow> fault) \<Rightarrow> (string \<times> kdb) list \<Rightarrow> ctx \<Rightarrow> bool" where
  "sql_live faults vs s \<longleftrightarrow> sql_holding faults vs s \<and> (txBase (session s) = None \<longrightarrow> vs = [])"

definition sql_lost :: "(stmt \<Rightarrow> fault) \<Rightarrow> (string \<times> kdb) list \<Rightarrow> ctx \<Rightarrow> bool" where
  "sql_lost faults vs s \<longleftrightarrow> sql_holding faults vs s \<and> txBase (session s) = None \<and> vs \<noteq> []"

definition sql_refused :: "ctx \<Rightarrow> bool" where
  "sql_refused s \<longleftrightarrow> txRefuses (session s)"

lemma on_connectionD:
  assumes "on_connection m s = (r, s')"
  obtains t where "m (tx_of s) = (r, t)" and "s' = tx_back t s"
  using assms by (auto simp: on_connection_def split: prod.splits)

lemma on_connection_frame: "on_connection m s = (r, s') \<Longrightarrow> \<exists>d ss. s' = s\<lparr>db := d, session := ss\<rparr>"
  by (erule on_connectionD) (simp only: tx_back_def, blast)

lemma in_tx [simp]: "dr_inTransaction (mem_driver faults) (engine (tx_of s)) \<longleftrightarrow> txBase (session s) \<noteq> None"
  by (simp add: mem_driver_def tx_of_def)

lemma rows_of [simp]: "m_rows (engine (tx_of s)) = db s"
  by (simp add: tx_of_def)

lemma sql_holding_durable:
  assumes "sql_holding faults vs s" and "vs \<noteq> []"
  shows "durable (mem_driver faults) m_rows mem_base (tx_of s) = snd (hd vs)"
  using holding_durable [OF _ assms(2)] assms(1) by (simp add: sql_holding_def)

text \<open>Once a failed statement has given every savepoint up, the rows are those of the outermost.\<close>

lemma sql_gone:
  assumes h: "sql_holding faults vs s" and ne: "vs \<noteq> []"
    and d: "durable (mem_driver faults) m_rows mem_base (tx_of s') = durable (mem_driver faults) m_rows mem_base (tx_of s)"
    and alt: "sql_holding faults [] s' \<or> abandoned (tx_of s')"
  shows "sql_refused s' \<or> sql_live faults [] s' \<and> db s' = snd (hd vs)"
proof (cases "abandoned (tx_of s')")
  case True
  then show ?thesis by (simp add: abandoned_def sql_refused_def tx_of_def)
next
  case False
  then have k: "sql_holding faults [] s'" using alt by simp
  then have "txBase (session s') = None" by (auto simp: sql_holding_def holding_def split: if_splits)
  then have "durable (mem_driver faults) m_rows mem_base (tx_of s') = db s'" by (simp add: durable_def)
  then show ?thesis using k d sql_holding_durable [OF h ne] by (simp add: sql_live_def)
qed

interpretation sql: savepoint_store "sql_database faults" "sql_live faults" "sql_lost faults" sql_refused for faults
proof (unfold_locales, goal_cases)
  case (1 n s r s')
  then show ?case by (auto simp: sql_database_def intro: on_connection_frame)
next
  case (2 n s r s')
  then show ?case by (auto simp: sql_database_def intro: on_connection_frame)
next
  case (3 n s r s')
  then show ?case by (auto simp: sql_database_def intro: on_connection_frame)
next
  case (4 vs s s')
  then show ?case
    by (auto simp: sql_live_def sql_holding_def holding_def mem_driver_def tx_of_def mem_base_def split: if_splits)
next
  case (5 s s')
  then show ?case by (simp add: sql_refused_def)
next
  case (6 vs s s')
  then have "tx_of s' = tx_of s" by (simp add: tx_of_def)
  then show ?case using 6 by (simp add: sql_lost_def sql_holding_def)
next
  case (7 vs s)
  then show ?case by (simp add: sql_live_def sql_holding_def holding_def)
next
  case (8 vs s n u s')
  then obtain t where c: "createSavepoint (mem_driver faults) n (tx_of s) = (Inr u, t)" and s': "s' = tx_back t s"
    by (auto simp: sql_database_def elim: on_connectionD)
  have h: "sql_holding faults vs s" using 8 by (simp add: sql_live_def)
  have t: "t = tx_of s'" by (simp add: s')
  from mem.create_run [OF h [unfolded sql_holding_def] 8(2) c] show ?case by (simp add: t sql_live_def sql_holding_def)
next
  case (9 vs s n e s')
  then obtain t where c: "createSavepoint (mem_driver faults) n (tx_of s) = (Inl e, t)" and s': "s' = tx_back t s"
    by (auto simp: sql_database_def elim: on_connectionD)
  have h: "sql_holding faults vs s" using 9 by (simp add: sql_live_def)
  note cr = mem.create_run [OF h [unfolded sql_holding_def] 9(2) c, simplified]
  have t: "t = tx_of s'" by (simp add: s')
  have dur: "vs = [] \<Longrightarrow> durable (mem_driver faults) m_rows mem_base (tx_of s) = db s" using 9(1)
    by (auto simp: sql_live_def sql_holding_def holding_def durable_def split: if_splits)
  show ?case
  proof (cases "vs = []")
    case True
    then show ?thesis using cr dur sql_gone [of faults "[]" s s']
      by (auto simp: t sql_live_def sql_holding_def sql_refused_def abandoned_def holding_def durable_def tx_of_def split: if_splits)
  next
    case False
    then show ?thesis using cr
      by (auto simp: t sql_live_def sql_lost_def sql_holding_def sql_refused_def abandoned_def) (simp_all add: tx_of_def)
  qed
next
  case (10 a n d b s u s')
  then obtain t where c: "rollbackSavepoint (mem_driver faults) n (tx_of s) = (Inr u, t)" and s': "s' = tx_back t s"
    by (auto simp: sql_database_def elim: on_connectionD)
  have h: "sql_holding faults (a @ (n, d) # b) s" using 10 by (simp add: sql_live_def)
  then have di: "distinct (map fst (a @ (n, d) # b))" by (simp add: sql_holding_def holding_def)
  from mem.rollback_run [OF h [unfolded sql_holding_def] c] obtain a' q b' where
    e: "a @ (n, d) # b = a' @ (n, q) # b'" and nb: "n \<notin> fst ` set b'"
    and k: "holding (mem_driver faults) m_rows mem_base m_marks a' t" "a' \<noteq> [] \<longrightarrow> dr_inTransaction (mem_driver faults) (engine t)"
      "m_rows (engine t) = q" by auto
  have "a' = a \<and> d = q" using split_at_name [OF e] di nb by auto
  moreover have "t = tx_of s'" by (simp add: s')
  ultimately show ?case using k by (auto simp: sql_live_def sql_holding_def)
next
  case (11 vs s n e s')
  then obtain t where c: "rollbackSavepoint (mem_driver faults) n (tx_of s) = (Inl e, t)" and s': "s' = tx_back t s"
    by (auto simp: sql_database_def elim: on_connectionD)
  have h: "sql_holding faults vs s" and ne: "vs \<noteq> []" using 11 by (auto simp: sql_live_def)
  then have inTx: "dr_inTransaction (mem_driver faults) (engine (tx_of s))" using 11(1) by (auto simp: sql_live_def)
  obtain a q b where v: "vs = a @ (n, q) # b" using 11(3) by (auto dest: split_list)
  then have "n \<notin> fst ` set b" using h by (auto simp: sql_holding_def holding_def)
  from mem.required [OF h [unfolded sql_holding_def] inTx v 11(2) this] c have g: "spStack t = []" by (rule mem.rollback_gone)
  have "\<not> holding (mem_driver faults) m_rows mem_base m_marks vs t" using g ne by (auto simp: holding_def)
  with mem.rollback_run [OF h [unfolded sql_holding_def] c] show ?case
    by (intro sql_gone [OF h ne]) (auto simp: s' sql_holding_def)
next
  case (12 n d b s u s')
  then obtain t where c: "releaseSavepoint (mem_driver faults) n (tx_of s) = (Inr u, t)" and s': "s' = tx_back t s"
    by (auto simp: sql_database_def elim: on_connectionD)
  have h: "sql_holding faults ((n, d) # b) s" using 12 by (simp add: sql_live_def)
  then have di: "distinct (map fst ([] @ (n, d) # b))" by (simp add: sql_holding_def holding_def)
  from mem.release_run [OF h [unfolded sql_holding_def] c] obtain a' q b' where
    e: "[] @ (n, d) # b = a' @ (n, q) # b'" and nb: "n \<notin> fst ` set b'"
    and k: "holding (mem_driver faults) m_rows mem_base m_marks a' t" "m_rows (engine t) = db s" by auto
  have "a' = []" using split_at_name [OF e] di nb by auto
  moreover have "t = tx_of s'" by (simp add: s')
  ultimately show ?case using k by (auto simp: sql_live_def sql_holding_def)
next
  case (13 n d b s e s')
  then obtain t where c: "releaseSavepoint (mem_driver faults) n (tx_of s) = (Inl e, t)" and s': "s' = tx_back t s"
    by (auto simp: sql_database_def elim: on_connectionD)
  let ?vs = "(n, d) # b"
  have h: "sql_holding faults ?vs s" using 13 by (auto simp: sql_live_def)
  then have inTx: "dr_inTransaction (mem_driver faults) (engine (tx_of s))" using 13(1) by (auto simp: sql_live_def)
  have nb: "n \<notin> fst ` set b" using h by (auto simp: sql_holding_def holding_def)
  from mem.required [OF h [unfolded sql_holding_def] inTx _ 13(2) nb, of "[]" d] c have g: "spStack t = []"
    by (intro mem.release_gone) simp_all
  have "\<not> holding (mem_driver faults) m_rows mem_base m_marks ?vs t" using g by (auto simp: holding_def)
  with mem.release_run [OF h [unfolded sql_holding_def] c] have "sql_refused s' \<or> sql_live faults [] s' \<and> db s' = snd (hd ?vs)"
    by (intro sql_gone [OF h]) (auto simp: s' sql_holding_def)
  then show ?case by simp
next
  case (14 n d b s)
  have h: "sql_holding faults ((n, d) # b) s" and out: "txBase (session s) = None" using 14 by (auto simp: sql_lost_def)
  then have st: "txNames (session s) = n # map fst b" "n \<notin> set (map fst b)" "\<not> txRefuses (session s)" "db s = d"
    by (auto simp: sql_holding_def holding_def tx_of_def mem_driver_def)
  obtain i where i: "last_index n (txNames (session s)) = Some i" using last_index_Some [of n "map fst b" "[]"] st by simp
  have nt: "\<not> dr_inTransaction (mem_driver faults) (engine (tx_of s))" using out by simp
  let ?t = "(tx_of s)\<lparr>spStack := [], lossCause := None\<rparr>"
  have "releaseSavepoint (mem_driver faults) n (tx_of s) = (Inl (JsError ''SQLite already ended the transaction holding savepoint'' [n]), ?t)"
    using st i nt 14(2) by (simp add: releaseSavepoint_def requireSavepoint_def assertNotAbandoned_def assertSafeIdentifier_def
        assertSavepointLive_def bnd_run thn_run tx_of_def mem_fields)
  then show ?case using st out
    by (auto simp: sql_database_def on_connection_def sql_live_def sql_holding_def holding_def tx_of_def tx_back_def mem_fields)
next
  case (15 s n r s')
  then have "releaseSavepoint (mem_driver faults) n (tx_of s) = (Inl (JsError ''transaction cannot be ended'' []), tx_of s)"
    by (simp add: sql_refused_def releaseSavepoint_def requireSavepoint_def assertNotAbandoned_def bnd_run thn_run tx_of_def)
  then show ?case using 15 by (auto simp: sql_database_def on_connection_def sql_refused_def tx_back_def) (simp add: tx_of_def)
qed

section \<open>Examples\<close>

text \<open>A crank on a new store that records a vat, on a database whose statements work, or whose commit fails.\<close>

definition demo_db :: "bool \<Rightarrow> kernel_database" where
  "demo_db ok = sql_database (\<lambda>st. if st = SCommit \<and> \<not> ok then FailsEnding else Works)"

definition demo_start :: ctx where
  "demo_start = makeKernelStore empty_kdb"

definition demo_work :: "unit store" where
  "demo_work = kvWrite (vatConfigs_update (tput ''v1'' ''{}''))"

definition demo_session :: "kdb \<Rightarrow> db_session" where
  "demo_session d = \<lparr>txBase = Some d, txMarks = [(save_name 0, d)], txNames = [save_name 0], txRefuses = False, txAbortFailure = None, txLossCause = None\<rparr>"

lemma demo_create:
  assumes "inCrank s" and "savepoints s = []" and "session s = idle"
  shows "createCrankSavepoint (demo_db c) n s =
    (Inr (), s\<lparr>session := demo_session (db s), savepoints := [(n, maybeFreeKrefs s)]\<rparr>)"
  using assms by (simp add: createCrankSavepoint_def demo_db_def sql_database_def on_connection_def createSavepoint_def assertSafeIdentifier_def
      beginIfNeeded_def assertWritable_def assertNotAbandoned_def isTransactionLost_def tryCatch_def onEngine_def thn_run
      tx_of_def tx_back_def mem_fields mem_exec_def idle_def demo_session_def)

lemma demo_release:
  assumes "session s = demo_session d"
  shows "\<exists>e t. kd_release (demo_db c) (save_name 0) s = (if c then Inr () else Inl e, t)"
  using assms by (cases c) (auto simp: demo_db_def sql_database_def on_connection_def releaseSavepoint_def requireSavepoint_def commitIfNeeded_def
      assertSafeIdentifier_def assertSavepointLive_def assertNotAbandoned_def tryCatch_def onEngine_def thn_run bnd_run
      discardTransaction_def rollbackIfNeeded_def
      tx_of_def mem_fields mem_exec_def mem_mark_def mem_end_def demo_session_def split: prod.splits sum.splits)

lemma demo_rollback:
  assumes "session s = demo_session d"
  shows "\<exists>t. kd_rollback (demo_db True) (save_name 0) s = (Inr (), t)"
  using assms by (auto simp: demo_db_def sql_database_def on_connection_def rollbackSavepoint_def requireSavepoint_def rollbackIfNeeded_def
      assertSafeIdentifier_def assertSavepointLive_def assertNotAbandoned_def tryCatch_def onEngine_def thn_run bnd_run
      tx_of_def mem_fields mem_exec_def mem_mark_def mem_end_def demo_session_def split: prod.splits sum.splits)

lemma new_store_fields: "session demo_start = idle" "savepoints demo_start = []" "\<not> inCrank demo_start" "coherent demo_start"
  "maybeFreeKrefs demo_start = []"
  by (simp_all add: demo_start_def makeKernelStore_coherent) (simp_all add: makeKernelStore_fresh)

lemma idle_live: "session s = idle \<Longrightarrow> sql_live faults [] s"
  by (simp add: sql_live_def sql_holding_def holding_def tx_of_def idle_def mem_fields)

section \<open>Properties\<close>

text \<open>
  C36. A crank rolled back to a savepoint leaves nothing of what was done since: the rows, the
  savepoints and the collection candidates are those it was taken with, the caches in memory agree with
  the rows again, and no buffered output is left. If the database fails to roll back, no
  savepoint is left and all of it is as when the outermost one was taken, or the connection refuses further writes.
\<close>

theorem rollbackCrank_restores:
  assumes "savepoint_store kd live lost refused" and "in_crank live rows s" and "coherent s" and "n \<notin> fst ` set (savepoints s)"
    and "createCrankSavepoint kd n s = (Inr (), t)"
    and "session u = session t" and "savepoints u = savepoints t" and "inCrank u" and "rollbackCrank kd n u = (r, s')"
  shows "crankBuffer s' = [] \<and> (case r of
      Inr _ \<Rightarrow> in_crank live rows s' \<and> db s' = db s \<and> savepoints s' = savepoints s \<and> maybeFreeKrefs s' = maybeFreeKrefs s \<and> coherent s'
    | Inl _ \<Rightarrow> savepoints s' = [] \<and> (refused s' \<or>
        db s' = hd (rows @ [db s]) \<and> maybeFreeKrefs s' = snd (hd (savepoints s @ [(n, maybeFreeKrefs s)])) \<and> coherent s'))"
  using savepoint_store.savepoint_rollback [OF assms] .

theorem rollbackCrank_restores_witness:
  "\<exists>t s'. createCrankSavepoint (demo_db True) ''start'' (demo_start\<lparr>inCrank := True\<rparr>) = (Inr (), t) \<and>
    rollbackCrank (demo_db True) ''start'' (snd (demo_work t)) = (Inr (), s') \<and> db s' = db demo_start \<and> savepoints s' = []"
proof -
  let ?s = "demo_start\<lparr>inCrank := True\<rparr>"
  obtain t where t: "createCrankSavepoint (demo_db True) ''start'' ?s = (Inr (), t)" and ts: "session t = demo_session (db demo_start)"
    "savepoints t = [(''start'', [])]" "inCrank t"
    using demo_create [of ?s True "''start''"] by (simp add: new_store_fields)
  let ?u = "snd (demo_work t)"
  have u: "session ?u = session t" "savepoints ?u = savepoints t" "inCrank ?u" using ts by (simp_all add: demo_work_def)
  obtain v where v: "kd_rollback (demo_db True) (save_name 0) (?u\<lparr>crankBuffer := []\<rparr>) = (Inr (), v)"
    using demo_rollback [of "?u\<lparr>crankBuffer := []\<rparr>" "db demo_start"] u ts by auto
  have "rollbackCrank (demo_db True) ''start'' ?u = revertStateBeneathRollback [] None (savepoints_update (take 0) v)"
    using u ts v by (simp add: rollbackCrank_def tryCatch_def thn_run)
  then obtain s' where r: "rollbackCrank (demo_db True) ''start'' ?u = (Inr (), s')"
    using revert_run [of "[]" None "savepoints_update (take 0) v"] by auto
  have k: "in_crank (sql_live faults) [] ?s" for faults by (simp add: in_crank_def idle_live new_store_fields)
  have c: "coherent ?s" using new_store_fields(4) unfolding coherent_def getQueueLength_def by (simp split: option.splits)
  have "''start'' \<notin> fst ` set (savepoints ?s)" by (simp add: new_store_fields)
  from rollbackCrank_restores [OF sql.savepoint_store_axioms k c this t [unfolded demo_db_def] u r [unfolded demo_db_def]] t r show ?thesis
    by (auto simp: new_store_fields)
qed

text \<open>
  C37. A crank is all or nothing: when it ends without an error, the rows it wrote are the
  database's and no transaction is open; when it ends with one, the database and the caches are as before the
  crank, or the connection refuses further writes. Either way the crank is over and its savepoints are gone.
\<close>

theorem endCrank_settles:
  assumes "savepoint_store kd live lost refused" and "live [] s" and "coherent s" and "savepoints s = []"
    and "startCrank s = (Inr (), a)" and "createCrankSavepoint kd n a = (Inr (), t)"
    and "session u = session t" and "savepoints u = savepoints t" and "inCrank u" and "endCrank kd u = (r, s')"
  shows "\<not> inCrank s' \<and> savepoints s' = [] \<and> (case r of
      Inr _ \<Rightarrow> live [] s' \<and> db s' = db u \<and> maybeFreeKrefs s' = maybeFreeKrefs u
    | Inl _ \<Rightarrow> refused s' \<or> live [] s' \<and> db s' = db s \<and> maybeFreeKrefs s' = maybeFreeKrefs s \<and> coherent s')"
  using savepoint_store.whole_crank [OF assms] .

theorem endCrank_settles_witness:
  "\<exists>a t r s'. startCrank demo_start = (Inr (), a) \<and> createCrankSavepoint (demo_db False) ''start'' a = (Inr (), t) \<and>
    endCrank (demo_db False) (snd (demo_work t)) = (r, s') \<and> \<not> inCrank s' \<and> (r = Inr () \<or> sql_refused s' \<or> db s' = db demo_start \<and> coherent s')"
proof -
  let ?a = "demo_start\<lparr>inCrank := True\<rparr>"
  have a: "startCrank demo_start = (Inr (), ?a)" by (simp add: startCrank_def new_store_fields)
  obtain t where t: "createCrankSavepoint (demo_db False) ''start'' ?a = (Inr (), t)" and ts: "session t = demo_session (db demo_start)"
    "savepoints t = [(''start'', [])]" "inCrank t"
    using demo_create [of ?a False "''start''"] by (simp add: new_store_fields)
  let ?u = "snd (demo_work t)"
  have u: "session ?u = session t" "savepoints ?u = savepoints t" "inCrank ?u" using ts by (simp_all add: demo_work_def)
  obtain r s' where r: "endCrank (demo_db False) ?u = (r, s')" by fastforce
  from endCrank_settles [OF sql.savepoint_store_axioms idle_live [OF new_store_fields(1)] new_store_fields(4,2) a t [unfolded demo_db_def] u r [unfolded demo_db_def]]
  have "\<not> inCrank s' \<and> (r = Inr () \<or> sql_refused s' \<or> db s' = db demo_start \<and> coherent s')" by (cases r) auto
  then show ?thesis using a t r by blast
qed

end
