(* ===== verification/Keys.thy ===== *)
theory Keys
  imports StoreContext
begin

text \<open>
  The keys of the kernel store (the head of \<open>store/index.ts\<close> and the key functions of
  \<open>store/methods/base.ts\<close>, \<open>pinned.ts\<close>, \<open>vat.ts\<close>, \<open>remote.ts\<close>). The code keeps one
  string-keyed table; \<open>StoreContext\<close> keeps a table per family of rows. What makes the two the same
  is shown here: no two rows share a key, and each prefix the code walks selects one family.
\<close>

section \<open>The key of every row\<close>

text \<open>What a row is about, by family, as the code's templates are keyed.\<close>

datatype store_row =
    RefCountRow string | OwnerRow string | RevokedRow string
  | StateRow string | DeciderRow string | SubscribersRow string | ValueRow string
  | QueueHead string | QueueTail string | QueueEntry string nat
  | CListRow string string | NextObjectRow string | NextPromiseRow string
  | VatConfigRow string | RemoteInfoRow string
  | NextSendSeqRow string | HighestReceivedRow string | StartSeqRow string
  | RemotePendingRow string nat | PeerIncarnationRow string
  | PinnedRow string | OcapURLRow string | KernelServiceRow string | SystemSubclusterRow string
  | TerminatedVatsRow | ScalarRow string

definition getCListPrefix :: "string \<Rightarrow> string" where
  "getCListPrefix endpointId = endpointId @ ''.c.''"

definition getSlotKey :: "string \<Rightarrow> string \<Rightarrow> string" where
  "getSlotKey endpointId ref = getCListPrefix endpointId @ ref"

definition refCountKey :: "string \<Rightarrow> string" where
  "refCountKey kref = kref @ ''.refCount''"

definition getOwnerKey :: "string \<Rightarrow> string" where
  "getOwnerKey kref = kref @ ''.owner''"

definition getRevokedKey :: "string \<Rightarrow> string" where
  "getRevokedKey kref = kref @ ''.revoked''"

definition pinCountKey :: "string \<Rightarrow> string" where
  "pinCountKey kref = ''pinned.'' @ kref"

fun key_of :: "store_row \<Rightarrow> string" where
  "key_of (RefCountRow kref) = refCountKey kref"
| "key_of (OwnerRow kref) = getOwnerKey kref"
| "key_of (RevokedRow kref) = getRevokedKey kref"
| "key_of (StateRow kpid) = kpid @ ''.state''"
| "key_of (DeciderRow kpid) = kpid @ ''.decider''"
| "key_of (SubscribersRow kpid) = kpid @ ''.subscribers''"
| "key_of (ValueRow kpid) = kpid @ ''.value''"
| "key_of (QueueHead q) = ''queue.'' @ q @ ''.head''"
| "key_of (QueueTail q) = ''queue.'' @ q @ ''.tail''"
| "key_of (QueueEntry q n) = ''queue.'' @ q @ ''.'' @ nat_text n"
| "key_of (CListRow ep ref) = getSlotKey ep ref"
| "key_of (NextObjectRow ep) = ''e.nextObjectId.'' @ ep"
| "key_of (NextPromiseRow ep) = ''e.nextPromiseId.'' @ ep"
| "key_of (VatConfigRow v) = ''vatConfig.'' @ v"
| "key_of (RemoteInfoRow r) = ''remote.'' @ r"
| "key_of (NextSendSeqRow r) = ''remoteSeq.'' @ r @ ''.nextSendSeq''"
| "key_of (HighestReceivedRow r) = ''remoteSeq.'' @ r @ ''.highestReceivedSeq''"
| "key_of (StartSeqRow r) = ''remoteSeq.'' @ r @ ''.startSeq''"
| "key_of (RemotePendingRow r n) = ''remotePending.'' @ r @ ''.'' @ nat_text n"
| "key_of (PeerIncarnationRow p) = ''peerIncarnation.'' @ p"
| "key_of (PinnedRow kref) = pinCountKey kref"
| "key_of (OcapURLRow kref) = ''ocapURLObjects.'' @ kref"
| "key_of (KernelServiceRow n) = ''kernelService.'' @ n"
| "key_of (SystemSubclusterRow n) = ''systemSubcluster.'' @ n"
| "key_of TerminatedVatsRow = ''vats.terminated''"
| "key_of (ScalarRow n) = n"

text \<open>What the code names a row by: krefs, endpoints, queues, and for a single row a name with no dot.\<close>

definition dotless :: "string \<Rightarrow> bool" where
  "dotless s \<longleftrightarrow> CHR ''.'' \<notin> set s"

fun row_ok :: "store_row \<Rightarrow> bool" where
  "row_ok (RefCountRow k) \<longleftrightarrow> isKRef k"
| "row_ok (OwnerRow k) \<longleftrightarrow> isKRef k"
| "row_ok (RevokedRow k) \<longleftrightarrow> isKRef k"
| "row_ok (StateRow k) \<longleftrightarrow> isKRef k"
| "row_ok (DeciderRow k) \<longleftrightarrow> isKRef k"
| "row_ok (SubscribersRow k) \<longleftrightarrow> isKRef k"
| "row_ok (ValueRow k) \<longleftrightarrow> isKRef k"
| "row_ok (QueueHead q) \<longleftrightarrow> q = ''run'' \<or> isKRef q"
| "row_ok (QueueTail q) \<longleftrightarrow> q = ''run'' \<or> isKRef q"
| "row_ok (QueueEntry q n) \<longleftrightarrow> q = ''run'' \<or> isKRef q"
| "row_ok (CListRow ep ref) \<longleftrightarrow> isEndpointId ep"
| "row_ok (NextSendSeqRow r) \<longleftrightarrow> isRemoteId r"
| "row_ok (HighestReceivedRow r) \<longleftrightarrow> isRemoteId r"
| "row_ok (StartSeqRow r) \<longleftrightarrow> isRemoteId r"
| "row_ok (RemotePendingRow r n) \<longleftrightarrow> isRemoteId r"
| "row_ok (ScalarRow n) \<longleftrightarrow> dotless n"
| "row_ok _ \<longleftrightarrow> True"

section \<open>Reading a key back\<close>

text \<open>A key up to its first dot, and what follows it.\<close>

fun cut :: "string \<Rightarrow> string \<times> string option" where
  "cut [] = ([], None)"
| "cut (c # cs) = (if c = CHR ''.'' then ([], Some cs) else apfst ((#) c) (cut cs))"

definition rest_of :: "string \<Rightarrow> string" where
  "rest_of s = (case snd (cut s) of None \<Rightarrow> [] | Some t \<Rightarrow> t)"

definition kref_row :: "string \<Rightarrow> string \<Rightarrow> store_row option" where
  "kref_row k t = map_of [(''refCount'', RefCountRow k), (''owner'', OwnerRow k), (''revoked'', RevokedRow k), (''state'', StateRow k),
     (''decider'', DeciderRow k), (''subscribers'', SubscribersRow k), (''value'', ValueRow k)] t"

definition queue_row :: "string \<Rightarrow> store_row" where
  "queue_row t = (let q = fst (cut t); x = rest_of t in
     if x = ''head'' then QueueHead q else if x = ''tail'' then QueueTail q else QueueEntry q (digits_value x))"

definition seq_row :: "string \<Rightarrow> store_row option" where
  "seq_row t = (let r = fst (cut t) in
     map_of [(''nextSendSeq'', NextSendSeqRow r), (''highestReceivedSeq'', HighestReceivedRow r), (''startSeq'', StartSeqRow r)] (rest_of t))"

definition counter_row :: "string \<Rightarrow> store_row option" where
  "counter_row t = (let ep = rest_of t in
     map_of [(''nextObjectId'', NextObjectRow ep), (''nextPromiseId'', NextPromiseRow ep)] (fst (cut t)))"

definition named_row :: "string \<Rightarrow> string \<Rightarrow> store_row option" where
  "named_row seg t =
     (if seg = ''queue'' then Some (queue_row t)
      else if seg = ''e'' then counter_row t
      else if seg = ''remoteSeq'' then seq_row t
      else if seg = ''remotePending'' then Some (RemotePendingRow (fst (cut t)) (digits_value (rest_of t)))
      else if seg = ''vats'' then Some TerminatedVatsRow
      else map_option (\<lambda>f. f t) (map_of [(''vatConfig'', VatConfigRow), (''remote'', RemoteInfoRow), (''peerIncarnation'', PeerIncarnationRow),
        (''pinned'', PinnedRow), (''ocapURLObjects'', OcapURLRow), (''kernelService'', KernelServiceRow),
        (''systemSubcluster'', SystemSubclusterRow)] seg))"

definition row_at :: "string \<Rightarrow> string \<Rightarrow> store_row option" where
  "row_at seg t = (if isKRef seg then kref_row seg t
     else if isEndpointId seg then Some (CListRow seg (drop 2 t)) else named_row seg t)"

definition row_of :: "string \<Rightarrow> store_row option" where
  "row_of key = (case cut key of (seg, None) \<Rightarrow> Some (ScalarRow seg) | (seg, Some t) \<Rightarrow> row_at seg t)"

lemma cut_dot [simp]: "dotless a \<Longrightarrow> cut (a @ CHR ''.'' # b) = (a, Some b)"
  by (induction a) (auto simp: dotless_def)

lemma cut_dotless [simp]: "dotless a \<Longrightarrow> cut a = (a, None)"
  by (induction a) (auto simp: dotless_def)

lemma digits_dotless: "list_all is_digit ds \<Longrightarrow> dotless ds"
  by (auto simp: dotless_def list_all_iff is_digit_def)

lemma names_dotless [simp]:
  "isKRef k \<Longrightarrow> dotless k" "isEndpointId ep \<Longrightarrow> dotless ep" "isRemoteId ep \<Longrightarrow> dotless ep" "dotless (nat_text n)"
  using digits_dotless nat_text_digits
  by (auto simp: all_digits_def isEndpointId_def dotless_def elim!: isKRef.elims isVatId.elims isRemoteId.elims)

lemma endpoint_no_kref: "isEndpointId k \<Longrightarrow> \<not> isKRef k"
  by (auto simp: isEndpointId_def elim!: isKRef.elims)

lemma nat_text_word: "nat_text n \<noteq> c # cs \<or> is_digit c"
  using nat_text_digits [of n] by (cases "nat_text n") auto

lemma word_not_nat_text [simp]: "nat_text n \<noteq> ''head''" "nat_text n \<noteq> ''tail''" "''head'' \<noteq> nat_text n" "''tail'' \<noteq> nat_text n"
  using nat_text_word [of n "CHR ''h''" "''ead''"] nat_text_word [of n "CHR ''t''" "''ail''"] by (auto simp: is_digit_def)

text \<open>The first segment of each key, and the rest.\<close>

fun key_parts :: "store_row \<Rightarrow> string \<times> string option" where
  "key_parts (RefCountRow k) = (k, Some ''refCount'')"
| "key_parts (OwnerRow k) = (k, Some ''owner'')"
| "key_parts (RevokedRow k) = (k, Some ''revoked'')"
| "key_parts (StateRow k) = (k, Some ''state'')"
| "key_parts (DeciderRow k) = (k, Some ''decider'')"
| "key_parts (SubscribersRow k) = (k, Some ''subscribers'')"
| "key_parts (ValueRow k) = (k, Some ''value'')"
| "key_parts (QueueHead q) = (''queue'', Some (q @ CHR ''.'' # ''head''))"
| "key_parts (QueueTail q) = (''queue'', Some (q @ CHR ''.'' # ''tail''))"
| "key_parts (QueueEntry q n) = (''queue'', Some (q @ CHR ''.'' # nat_text n))"
| "key_parts (CListRow ep ref) = (ep, Some (CHR ''c'' # CHR ''.'' # ref))"
| "key_parts (NextObjectRow ep) = (''e'', Some (''nextObjectId'' @ CHR ''.'' # ep))"
| "key_parts (NextPromiseRow ep) = (''e'', Some (''nextPromiseId'' @ CHR ''.'' # ep))"
| "key_parts (VatConfigRow v) = (''vatConfig'', Some v)"
| "key_parts (RemoteInfoRow r) = (''remote'', Some r)"
| "key_parts (NextSendSeqRow r) = (''remoteSeq'', Some (r @ CHR ''.'' # ''nextSendSeq''))"
| "key_parts (HighestReceivedRow r) = (''remoteSeq'', Some (r @ CHR ''.'' # ''highestReceivedSeq''))"
| "key_parts (StartSeqRow r) = (''remoteSeq'', Some (r @ CHR ''.'' # ''startSeq''))"
| "key_parts (RemotePendingRow r n) = (''remotePending'', Some (r @ CHR ''.'' # nat_text n))"
| "key_parts (PeerIncarnationRow p) = (''peerIncarnation'', Some p)"
| "key_parts (PinnedRow k) = (''pinned'', Some k)"
| "key_parts (OcapURLRow k) = (''ocapURLObjects'', Some k)"
| "key_parts (KernelServiceRow n) = (''kernelService'', Some n)"
| "key_parts (SystemSubclusterRow n) = (''systemSubcluster'', Some n)"
| "key_parts TerminatedVatsRow = (''vats'', Some ''terminated'')"
| "key_parts (ScalarRow n) = (n, None)"

lemma cut_key_of: "row_ok r \<Longrightarrow> cut (key_of r) = key_parts r"
  by (cases r) (simp_all add: refCountKey_def getOwnerKey_def getRevokedKey_def getSlotKey_def getCListPrefix_def pinCountKey_def)

lemma row_of_parts:
  "cut key = (seg, Some t) \<Longrightarrow> row_of key = row_at seg t"
  "cut key = (seg, None) \<Longrightarrow> row_of key = Some (ScalarRow seg)"
  by (simp_all add: row_of_def)

lemmas row_parsers = kref_row_def queue_row_def counter_row_def seq_row_def named_row_def rest_of_def

lemma fixed_segments [simp]:
  "isEndpointId ''queue'' = False" "isEndpointId ''e'' = False" "isEndpointId ''remoteSeq'' = False" "isEndpointId ''vatConfig'' = False"
  "isEndpointId ''remote'' = False" "isEndpointId ''remotePending'' = False" "isEndpointId ''peerIncarnation'' = False"
  "isEndpointId ''pinned'' = False" "isEndpointId ''ocapURLObjects'' = False" "isEndpointId ''kernelService'' = False"
  "isEndpointId ''systemSubcluster'' = False" "isEndpointId ''vats'' = False"
  by (simp_all add: isEndpointId_def all_digits_def is_digit_def)

lemma dotless_words [simp]: "dotless ''run''" "dotless ''nextObjectId''" "dotless ''nextPromiseId''"
  by (simp_all add: dotless_def)

lemma row_of_key:
  assumes "row_ok r"
  shows "row_of (key_of r) = Some r"
proof (cases "snd (key_parts r)")
  case None
  then show ?thesis using row_of_parts(2) [of "key_of r" "fst (key_parts r)"] cut_key_of [OF assms] by (cases r) simp_all
next
  case (Some t)
  have k: "row_of (key_of r) = row_at (fst (key_parts r)) t"
    using row_of_parts(1) [of "key_of r" "fst (key_parts r)" t] cut_key_of [OF assms] Some by (cases "key_parts r") simp
  have "row_at (fst (key_parts r)) (the (snd (key_parts r))) = Some r" using assms Some
  proof (cases r)
    case (CListRow ep ref)
    then show ?thesis using assms by (simp add: row_at_def endpoint_no_kref)
  qed (auto simp: row_at_def row_parsers)
  then show ?thesis using k Some by simp
qed

section \<open>Prefixes\<close>

lemma starts_with_Cons [simp]: "starts_with (a # p) (b # s) \<longleftrightarrow> a = b \<and> starts_with p s" "\<not> starts_with (a # p) []" "starts_with [] s"
  by (auto simp: starts_with_def)

lemma starts_with_segment:
  assumes "dotless seg"
  shows "starts_with (seg @ CHR ''.'' # p) key \<longleftrightarrow> (\<exists>t. cut key = (seg, Some t) \<and> starts_with p t)"
  using assms
proof (induction seg arbitrary: key)
  case Nil
  show ?case by (cases key) (simp_all add: prod_eq_iff)
next
  case (Cons c seg)
  then show ?case by (cases key) (auto simp: dotless_def prod_eq_iff)
qed

text \<open>A row's first segment is one of its family's only.\<close>

lemma parts_endpoint:
  assumes "row_ok r" and "isEndpointId ep"
  shows "key_parts r = (ep, Some t) \<longleftrightarrow> (\<exists>ref. r = CListRow ep ref \<and> t = CHR ''c'' # CHR ''.'' # ref)"
  using assms endpoint_no_kref [OF assms(2)] by (cases r) (auto simp: isEndpointId_def all_digits_def is_digit_def)

lemma not_names [simp]:
  "isKRef ''vatConfig'' = False" "isKRef ''remote'' = False" "isKRef ''pinned'' = False" "isKRef ''ocapURLObjects'' = False"
  "isKRef ''systemSubcluster'' = False" "isKRef ''remotePending'' = False"
  by (simp_all add: all_digits_def is_digit_def)

lemma parts_named:
  assumes "row_ok r"
  shows "key_parts r = (''vatConfig'', Some t) \<longleftrightarrow> r = VatConfigRow t"
    "key_parts r = (''remote'', Some t) \<longleftrightarrow> r = RemoteInfoRow t"
    "key_parts r = (''pinned'', Some t) \<longleftrightarrow> r = PinnedRow t"
    "key_parts r = (''ocapURLObjects'', Some t) \<longleftrightarrow> r = OcapURLRow t"
    "key_parts r = (''systemSubcluster'', Some t) \<longleftrightarrow> r = SystemSubclusterRow t"
    "key_parts r = (''remotePending'', Some t) \<longleftrightarrow> (\<exists>i n. r = RemotePendingRow i n \<and> t = i @ CHR ''.'' # nat_text n)"
  using assms by (cases r; auto)+

lemma walk_endpoint:
  assumes "row_ok r" and "isEndpointId ep"
  shows "starts_with (getCListPrefix ep @ p) (key_of r) \<longleftrightarrow> (\<exists>ref. r = CListRow ep ref \<and> starts_with p ref)"
    "starts_with (ep @ ''.'') (key_of r) \<longleftrightarrow> (\<exists>ref. r = CListRow ep ref)"
  using starts_with_segment [of ep "CHR ''c'' # CHR ''.'' # p" "key_of r"] starts_with_segment [of ep "[]" "key_of r"] assms
  by (auto simp: getCListPrefix_def cut_key_of parts_endpoint)

lemma walk_named:
  assumes "row_ok r"
  shows "starts_with ''vatConfig.'' (key_of r) \<longleftrightarrow> (\<exists>v. r = VatConfigRow v)"
    "starts_with ''remote.'' (key_of r) \<longleftrightarrow> (\<exists>i. r = RemoteInfoRow i)"
    "starts_with ''pinned.'' (key_of r) \<longleftrightarrow> (\<exists>k. r = PinnedRow k)"
    "starts_with ''ocapURLObjects.'' (key_of r) \<longleftrightarrow> (\<exists>k. r = OcapURLRow k)"
    "starts_with ''systemSubcluster.'' (key_of r) \<longleftrightarrow> (\<exists>n. r = SystemSubclusterRow n)"
  using starts_with_segment [of "''vatConfig''" "[]" "key_of r"] starts_with_segment [of "''remote''" "[]" "key_of r"]
    starts_with_segment [of "''pinned''" "[]" "key_of r"] starts_with_segment [of "''ocapURLObjects''" "[]" "key_of r"]
    starts_with_segment [of "''systemSubcluster''" "[]" "key_of r"]
  by (simp_all add: cut_key_of [OF assms] parts_named [OF assms] dotless_def)

lemma walk_pending:
  assumes "row_ok r" and "isRemoteId i"
  shows "starts_with (''remotePending.'' @ i @ ''.'') (key_of r) \<longleftrightarrow> (\<exists>n. r = RemotePendingRow i n)"
proof -
  have "starts_with (''remotePending'' @ CHR ''.'' # (i @ ''.'')) (key_of r) \<longleftrightarrow>
      (\<exists>j n. r = RemotePendingRow j n \<and> starts_with (i @ ''.'') (j @ CHR ''.'' # nat_text n))"
    by (subst starts_with_segment) (auto simp: dotless_def cut_key_of [OF assms(1)] parts_named [OF assms(1)])
  moreover have "starts_with (i @ ''.'') (j @ CHR ''.'' # nat_text n) \<longleftrightarrow> j = i" if "isRemoteId j" for j n
    using starts_with_segment [of i "[]" "j @ CHR ''.'' # nat_text n"] that assms(2) by auto
  ultimately show ?thesis using assms(1) by auto
qed

section \<open>Property\<close>

text \<open>
  C38. No two rows of the store share a key, whatever their families: every key reads back as its row.
  And a walk of a prefix visits one family and no other row: an endpoint's c-list and the part of it a
  cleanup walks, everything of a vat, the vats' configurations, the remotes, the pins, the URL ledger, the system
  subclusters, and the messages pending for one remote.
\<close>

theorem store_keys_separate:
  assumes "row_ok r"
  shows "row_of (key_of r) = Some r \<and> (row_ok r' \<and> key_of r = key_of r' \<longrightarrow> r = r') \<and>
    (isEndpointId ep \<longrightarrow>
      (starts_with (getCListPrefix ep @ p) (key_of r) \<longleftrightarrow> (\<exists>ref. r = CListRow ep ref \<and> starts_with p ref)) \<and>
      (starts_with (ep @ ''.'') (key_of r) \<longleftrightarrow> (\<exists>ref. r = CListRow ep ref))) \<and>
    (starts_with ''vatConfig.'' (key_of r) \<longleftrightarrow> (\<exists>v. r = VatConfigRow v)) \<and>
    (starts_with ''remote.'' (key_of r) \<longleftrightarrow> (\<exists>i. r = RemoteInfoRow i)) \<and>
    (starts_with ''pinned.'' (key_of r) \<longleftrightarrow> (\<exists>k. r = PinnedRow k)) \<and>
    (starts_with ''ocapURLObjects.'' (key_of r) \<longleftrightarrow> (\<exists>k. r = OcapURLRow k)) \<and>
    (starts_with ''systemSubcluster.'' (key_of r) \<longleftrightarrow> (\<exists>n. r = SystemSubclusterRow n)) \<and>
    (isRemoteId i \<longrightarrow> (starts_with (''remotePending.'' @ i @ ''.'') (key_of r) \<longleftrightarrow> (\<exists>n. r = RemotePendingRow i n)))"
proof -
  have "r = r'" if "row_ok r'" "key_of r = key_of r'"
    using row_of_key [OF assms] row_of_key [OF that(1)] that(2) by (metis option.inject)
  then show ?thesis
    using row_of_key [OF assms] by (intro conjI impI) (simp_all only: walk_endpoint [OF assms] walk_named [OF assms] walk_pending [OF assms])
qed

theorem store_keys_separate_witness:
  "row_of ''remotePending.r1.12'' = Some (RemotePendingRow ''r1'' 12) \<and> \<not> starts_with ''remote.'' ''remotePending.r1.12''"
proof -
  let ?r = "RemotePendingRow ''r1'' 12"
  have k: "key_of ?r = ''remotePending.r1.12''" by (simp add: nat_text_eval)
  have "row_ok ?r" by (simp add: all_digits_def is_digit_def)
  from store_keys_separate [OF this]
  have "row_of (key_of ?r) = Some ?r" "starts_with ''remote.'' (key_of ?r) \<longleftrightarrow> (\<exists>i. ?r = RemoteInfoRow i)" by blast+
  then show ?thesis unfolding k by simp
qed

end
