(* ===== verification/VatKV.thy ===== *)
theory VatKV
  imports Subclusters
begin

text \<open>
  The key/value store a vat keeps in memory (\<open>store/vat-kv-store.ts\<close>, over \<open>utils/key-search.ts\<close>)
  and the rows it is opened from and saved to (\<open>makeVatStore\<close> of
  \<open>kernel-store/src/sqlite/nodejs.ts\<close>). A \<open>Map\<close> is the list of its entries in insertion order.
\<close>

section \<open>Binary search (key-search.ts)\<close>

function search_loop :: "string list \<Rightarrow> string \<Rightarrow> nat \<Rightarrow> nat \<Rightarrow> nat" where
  "search_loop arr key beg hi =
     (if beg < hi
      then (let mid = (beg + hi) div 2 in
        if arr ! mid = key then mid
        else if key < arr ! mid then search_loop arr key beg mid
        else search_loop arr key (mid + 1) hi)
      else beg)"
  by pat_completeness auto
termination by (relation "measure (\<lambda>(arr, key, beg, hi). hi - beg)") auto

declare search_loop.simps [simp del]

definition keySearch :: "string list \<Rightarrow> string \<Rightarrow> int" where
  "keySearch arr key =
     (if arr = [] then - 1
      else if key < arr ! 0 then 0
      else if key > arr ! (length arr - 1) then - 1
      else if key = arr ! 0 then 0
      else int (search_loop arr key 0 (length arr - 1)))"

section \<open>The store of a vat (vat-kv-store.ts)\<close>

record vat_kv =
  kvState :: "(string \<times> string) list"
  kvSets :: "(string \<times> string) list"
  kvDeletes :: "string list"
  keyCache :: "string list option"
  lastNextKey :: "string option"
  lastNextKeyIndex :: int

definition makeVatKVStore :: "(string \<times> string) list \<Rightarrow> vat_kv" where
  "makeVatKVStore state = \<lparr>kvState = state, kvSets = [], kvDeletes = [], keyCache = None, lastNextKey = None, lastNextKeyIndex = - 1\<rparr>"

definition vatGet :: "string \<Rightarrow> vat_kv \<Rightarrow> string option" where
  "vatGet key s = map_of (kvState s) key"

text \<open>\<open>if (result)\<close>: a key whose value is the empty text is refused too.\<close>

definition vatGetRequired :: "string \<Rightarrow> (vat_kv, string) sm" where
  "vatGetRequired key = bnd (gets (vatGet key)) (\<lambda>found.
     case found of Some v \<Rightarrow> if v = '''' then fail (JsError ''no value matching key'' [key]) else ret v
     | None \<Rightarrow> fail (JsError ''no value matching key'' [key]))"

text \<open>\<open>keyCache[index]\<close>, undefined out of range.\<close>

definition key_at :: "string list \<Rightarrow> int \<Rightarrow> string option" where
  "key_at arr i = (if 0 \<le> i \<and> i < int (length arr) then Some (arr ! nat i) else None)"

definition is_below :: "string \<Rightarrow> string option \<Rightarrow> bool" where
  "is_below key found \<longleftrightarrow> (case found of None \<Rightarrow> False | Some f \<Rightarrow> key < f)"

definition vatGetNextKey :: "string \<Rightarrow> (vat_kv, string option) sm" where
  "vatGetNextKey key =
     thn (modify (\<lambda>s. s\<lparr>keyCache := Some (case keyCache s of Some c \<Rightarrow> c | None \<Rightarrow> sort_strings (map fst (kvState s)))\<rparr>))
       (bnd (gets (\<lambda>s. the (keyCache s))) (\<lambda>cached.
         bnd (gets (\<lambda>s. if lastNextKey s = Some key then lastNextKeyIndex s else keySearch cached key)) (\<lambda>index.
           if index < 0 then thn (modify (\<lambda>s. s\<lparr>lastNextKey := None, lastNextKeyIndex := - 1\<rparr>)) (ret None)
           else if is_below key (key_at cached index)
           then thn (modify (\<lambda>s. s\<lparr>lastNextKey := key_at cached index, lastNextKeyIndex := index\<rparr>)) (ret (key_at cached index))
           else if index + 1 \<ge> int (length cached)
           then thn (modify (\<lambda>s. s\<lparr>lastNextKey := None, lastNextKeyIndex := - 1\<rparr>)) (ret None)
           else thn (modify (\<lambda>s. s\<lparr>lastNextKey := key_at cached (index + 1), lastNextKeyIndex := index + 1\<rparr>))
             (ret (key_at cached (index + 1))))))"

definition vatSet :: "string \<Rightarrow> string \<Rightarrow> (vat_kv, unit) sm" where
  "vatSet key v = modify (\<lambda>s. s\<lparr>kvState := obj_put key v (kvState s), kvSets := obj_put key v (kvSets s),
     kvDeletes := filter (\<lambda>k. k \<noteq> key) (kvDeletes s), keyCache := None\<rparr>)"

definition vatDelete :: "string \<Rightarrow> (vat_kv, unit) sm" where
  "vatDelete key = modify (\<lambda>s. s\<lparr>kvState := obj_del key (kvState s), kvSets := obj_del key (kvSets s),
     kvDeletes := set_add key (kvDeletes s), keyCache := None\<rparr>)"

definition checkpoint :: "(vat_kv, (string \<times> string) list \<times> string list) sm" where
  "checkpoint = bnd (gets (\<lambda>s. (kvSets s, kvDeletes s))) (\<lambda>r. thn (modify (\<lambda>s. s\<lparr>kvSets := [], kvDeletes := []\<rparr>)) (ret r))"

section \<open>The rows of a vat (nodejs.ts)\<close>

definition getKVData :: "string \<Rightarrow> (string \<times> string, string) tbl \<Rightarrow> (string \<times> string) list" where
  "getKVData vatID t = map (\<lambda>r. (snd (fst r), snd r)) (filter (\<lambda>r. fst (fst r) = vatID) (tlist t))"

definition updateKVData :: "string \<Rightarrow> (string \<times> string) list \<Rightarrow> string list \<Rightarrow>
    (string \<times> string, string) tbl \<Rightarrow> (string \<times> string, string) tbl" where
  "updateKVData vatID kvs dels t =
     foldl (\<lambda>t key. tdel (vatID, key) t) (foldl (\<lambda>t r. tput (vatID, fst r) (snd r) t) t kvs) dels"

section \<open>Where a key is found\<close>

lemma search_loop_spec:
  assumes "sorted_wrt (<) arr" and "beg \<le> hi" and "hi < length arr" and "key \<le> arr ! hi" and "\<And>i. i < beg \<Longrightarrow> arr ! i < key"
  shows "search_loop arr key beg hi \<le> hi \<and> key \<le> arr ! search_loop arr key beg hi \<and>
    (\<forall>i < search_loop arr key beg hi. arr ! i < key)"
  using assms
proof (induction arr key beg hi rule: search_loop.induct)
  case (1 arr key beg hi)
  let ?mid = "(beg + hi) div 2"
  have inc: "i < j \<Longrightarrow> j < length arr \<Longrightarrow> arr ! i < arr ! j" for i j
    using 1(3) by (simp add: sorted_wrt_iff_nth_less)
  show ?case
  proof (cases "beg < hi")
    case False
    then show ?thesis using 1(4-7) by (subst search_loop.simps) (auto simp: search_loop.simps)
  next
    case True
    then have m: "beg \<le> ?mid" "?mid < hi" by auto
    consider "arr ! ?mid = key" | "key < arr ! ?mid" | "arr ! ?mid < key" by fastforce
    then show ?thesis
    proof cases
      case a: 1
      then have "search_loop arr key beg hi = ?mid" using True by (subst search_loop.simps) (simp add: Let_def)
      then show ?thesis using a m inc [of _ ?mid] 1(5) by auto
    next
      case 2
      then have "search_loop arr key beg hi = search_loop arr key beg ?mid" using True by (subst search_loop.simps) (auto simp: Let_def)
      then show ?thesis using "1.IH"(1) [OF True refl] 2 m 1(3,5,7) by fastforce
    next
      case 3
      then have e: "search_loop arr key beg hi = search_loop arr key (?mid + 1) hi" using True by (subst search_loop.simps) (auto simp: Let_def)
      have "arr ! i < key" if "i < ?mid + 1" for i
        using that 3 inc [of i ?mid] m 1(5) by (cases "i = ?mid") auto
      then show ?thesis unfolding e using "1.IH"(2) [OF True refl] 3 m 1(3,5,6) by fastforce
    qed
  qed
qed

text \<open>How many keys lie below one; a strictly sorted list has it there.\<close>

definition rank :: "string \<Rightarrow> string list \<Rightarrow> nat" where
  "rank key arr = length (filter (\<lambda>x. x < key) arr)"

lemma rank_at:
  assumes "sorted_wrt (<) arr" and "i \<le> length arr" and "\<And>j. j < i \<Longrightarrow> arr ! j < key" and "i < length arr \<Longrightarrow> key \<le> arr ! i"
  shows "rank key arr = i"
proof -
  have "filter (\<lambda>x. x < key) (take i arr) = take i arr"
    using assms(2,3) by (intro filter_True) (auto simp: in_set_conv_nth)
  moreover have "filter (\<lambda>x. x < key) (drop i arr) = []"
  proof (rule filter_False, intro ballI)
    fix x assume "x \<in> set (drop i arr)"
    then obtain j where "j < length (drop i arr)" "x = drop i arr ! j" by (metis in_set_conv_nth)
    then have j: "i + j < length arr" "x = arr ! (i + j)" by auto
    have "key \<le> arr ! i" using j(1) assms(4) by simp
    also have "arr ! i \<le> arr ! (i + j)"
      using assms(1) j(1) by (cases "j = 0") (auto simp: sorted_wrt_iff_nth_less intro: less_imp_le)
    finally show "\<not> x < key" using j(2) by simp
  qed
  ultimately have "filter (\<lambda>x. x < key) (take i arr @ drop i arr) = take i arr" by (simp only: filter_append append_Nil2)
  then show ?thesis using assms(2) by (simp add: rank_def)
qed

lemma rank_below:
  assumes "sorted_wrt (<) arr"
  shows "j < rank key arr \<Longrightarrow> arr ! j < key" and "rank key arr < length arr \<Longrightarrow> key \<le> arr ! rank key arr"
proof -
  define i where "i = (LEAST i. i = length arr \<or> key \<le> arr ! i)"
  have i: "i = length arr \<or> key \<le> arr ! i" unfolding i_def by (rule LeastI [of _ "length arr"]) simp
  have le: "i \<le> length arr" unfolding i_def by (rule Least_le) simp
  have b: "arr ! j < key" if "j < i" for j using not_less_Least [of j "\<lambda>i. i = length arr \<or> key \<le> arr ! i"] that unfolding i_def by auto
  have "rank key arr = i" using rank_at [OF assms le b] i by auto
  then show "j < rank key arr \<Longrightarrow> arr ! j < key" and "rank key arr < length arr \<Longrightarrow> key \<le> arr ! rank key arr"
    using b i by auto
qed

lemma rank_le: "rank key arr \<le> length arr"
  by (simp add: rank_def)

lemma keySearch_rank:
  assumes "sorted_wrt (<) arr"
  shows "keySearch arr key = (if rank key arr = length arr then - 1 else int (rank key arr))"
proof (cases "arr = []")
  case True
  then show ?thesis by (simp add: keySearch_def rank_def)
next
  case False
  let ?n = "length arr - 1"
  have n: "?n < length arr" using False by simp
  have inc: "i < j \<Longrightarrow> j < length arr \<Longrightarrow> arr ! i < arr ! j" for i j
    using assms by (simp add: sorted_wrt_iff_nth_less)
  consider "key \<le> arr ! 0" | "arr ! 0 < key" "arr ! ?n < key" | "arr ! 0 < key" "key \<le> arr ! ?n" by fastforce
  then show ?thesis
  proof cases
    case 1
    then have "rank key arr = 0" using rank_at [OF assms, of 0 key] by simp
    moreover have "key \<le> arr ! ?n" using 1 inc [of 0 ?n] n by (cases "?n = 0") auto
    ultimately show ?thesis using 1 False by (auto simp: keySearch_def)
  next
    case 2
    have "arr ! j < key" if "j < length arr" for j proof (cases "j = ?n")
      case False
      with that have "j < ?n" by linarith
      then show ?thesis using inc [of j ?n] n 2(2) by simp
    qed (use 2(2) in simp)
    then have "rank key arr = length arr" using rank_at [OF assms, of "length arr" key] by simp
    then show ?thesis using 2 False by (auto simp: keySearch_def)
  next
    case 3
    let ?i = "search_loop arr key 0 ?n"
    have s: "?i \<le> ?n" "key \<le> arr ! ?i" "\<And>j. j < ?i \<Longrightarrow> arr ! j < key"
      using search_loop_spec [OF assms, of 0 ?n key] n 3(2) by auto
    then have "rank key arr = ?i" using rank_at [OF assms, of ?i key] n by simp
    then show ?thesis using 3 False s(1) n by (auto simp: keySearch_def)
  qed
qed

section \<open>The next key\<close>

definition keys_of :: "vat_kv \<Rightarrow> string list" where
  "keys_of s = sort_strings (map fst (kvState s))"

text \<open>The least key above one: what \<open>getNextKey\<close> is to return.\<close>

definition next_above :: "string \<Rightarrow> string list \<Rightarrow> string option" where
  "next_above key arr = find (\<lambda>k. key < k) arr"

text \<open>The remembered position is that of the remembered key, and what is cached is the keys.\<close>

definition cursor_ok :: "vat_kv \<Rightarrow> bool" where
  "cursor_ok s \<longleftrightarrow> distinct (map fst (kvState s)) \<and> (\<forall>c. keyCache s = Some c \<longrightarrow> c = keys_of s) \<and>
     (\<forall>k. lastNextKey s = Some k \<longrightarrow> lastNextKeyIndex s = int (rank k (map fst (kvState s))))"

lemma keys_sorted: "distinct (map fst (kvState s)) \<Longrightarrow> sorted_wrt (<) (keys_of s)"
  by (simp add: keys_of_def strict_sorted_iff)

lemma rank_keys: "rank k (keys_of s) = rank k (map fst (kvState s))"
  by (simp add: rank_def keys_of_def filter_sort)

lemma next_above_at:
  assumes "i < length arr" and "key < arr ! i" and "\<And>j. j < i \<Longrightarrow> arr ! j \<le> key"
  shows "next_above key arr = Some (arr ! i)"
  using assms by (auto simp: next_above_def find_Some_iff not_less)

lemma next_above_none: "(\<And>x. x \<in> set arr \<Longrightarrow> x \<le> key) \<Longrightarrow> next_above key arr = None"
  by (auto simp: next_above_def find_None_iff not_less)

lemma vatGetNextKey_run:
  assumes "cursor_ok s"
  shows "\<exists>s'. vatGetNextKey key s = (Inr (next_above key (keys_of s)), s') \<and> cursor_ok s' \<and>
    kvState s' = kvState s \<and> kvSets s' = kvSets s \<and> kvDeletes s' = kvDeletes s \<and> lastNextKey s' = next_above key (keys_of s)"
proof -
  let ?c = "keys_of s" and ?n = "rank key (keys_of s)"
  have d: "distinct (map fst (kvState s))" using assms by (simp add: cursor_ok_def)
  note st = keys_sorted [OF d]
  have inc: "i < j \<Longrightarrow> j < length ?c \<Longrightarrow> ?c ! i < ?c ! j" for i j
    using st by (simp add: sorted_wrt_iff_nth_less)
  have cached: "(case keyCache s of Some c \<Rightarrow> c | None \<Rightarrow> sort_strings (map fst (kvState s))) = ?c"
    using assms by (auto simp: cursor_ok_def keys_of_def split: option.split)
  have kt: "keys_of (s\<lparr>keyCache := x, lastNextKey := y, lastNextKeyIndex := z\<rparr>) = ?c" for x y z by (simp add: keys_of_def)
  have rk: "rank (?c ! i) ?c = i" if "i < length ?c" for i
    using rank_at [OF st, of i "?c ! i"] inc that by auto
  define index where "index = (if lastNextKey s = Some key then lastNextKeyIndex s else keySearch ?c key)"
  have ix: "index = int ?n \<or> index = - 1 \<and> ?n = length ?c"
    using assms keySearch_rank [OF st, of key] by (auto simp: index_def cursor_ok_def rank_keys)
  have run: "vatGetNextKey key s =
      (if index < 0 then (Inr None, s\<lparr>keyCache := Some ?c, lastNextKey := None, lastNextKeyIndex := - 1\<rparr>)
       else if is_below key (key_at ?c index)
       then (Inr (key_at ?c index), s\<lparr>keyCache := Some ?c, lastNextKey := key_at ?c index, lastNextKeyIndex := index\<rparr>)
       else if index + 1 \<ge> int (length ?c) then (Inr None, s\<lparr>keyCache := Some ?c, lastNextKey := None, lastNextKeyIndex := - 1\<rparr>)
       else (Inr (key_at ?c (index + 1)), s\<lparr>keyCache := Some ?c, lastNextKey := key_at ?c (index + 1), lastNextKeyIndex := index + 1\<rparr>))"
    by (simp add: vatGetNextKey_def cached index_def)
  have none: ?thesis if "\<And>x. x \<in> set ?c \<Longrightarrow> x \<le> key"
    "vatGetNextKey key s = (Inr None, s\<lparr>keyCache := Some ?c, lastNextKey := None, lastNextKeyIndex := - 1\<rparr>)"
    using that next_above_none [of ?c key] d kt by (simp add: cursor_ok_def)
  have some: ?thesis if i: "i < length ?c" "key < ?c ! i" "\<And>j. j < i \<Longrightarrow> ?c ! j \<le> key"
    and r: "vatGetNextKey key s = (Inr (Some (?c ! i)), s\<lparr>keyCache := Some ?c, lastNextKey := Some (?c ! i), lastNextKeyIndex := int i\<rparr>)" for i
    using r next_above_at [OF i] d kt rk [OF i(1)] by (simp add: cursor_ok_def rank_keys [symmetric])
  show ?thesis
  proof (cases "?n = length ?c")
    case True
    have "x \<le> key" if "x \<in> set ?c" for x
      using rank_below(1) [OF st, of _ key] True that by (auto simp: in_set_conv_nth intro: less_imp_le)
    moreover have "\<not> is_below key (key_at ?c index)" using ix True by (auto simp: key_at_def is_below_def)
    ultimately show ?thesis using ix True by (intro none) (auto simp: run)
  next
    case False
    then have n: "?n < length ?c" using rank_le [of key ?c] by simp
    then have i: "index = int ?n" and at: "key_at ?c index = Some (?c ! ?n)" using ix by (auto simp: key_at_def)
    have lo: "?c ! j < key" if "j < ?n" for j using rank_below(1) [OF st that] .
    show ?thesis
    proof (cases "key < ?c ! ?n")
      case True
      then show ?thesis using n at i lo by (intro some [of ?n]) (auto simp: run is_below_def intro: less_imp_le)
    next
      case e: False
      then have eq: "?c ! ?n = key" using rank_below(2) [OF st n] by simp
      show ?thesis
      proof (cases "?n + 1 < length ?c")
        case True
        then show ?thesis using eq e at i lo inc [of ?n "?n + 1"]
          by (intro some [of "?n + 1"]) (auto simp: run is_below_def key_at_def less_Suc_eq nat_add_distrib intro: less_imp_le)
      next
        case False
        have "x \<le> key" if x: "x \<in> set ?c" for x
        proof -
          obtain j where "j < length ?c" "x = ?c ! j" using x by (auto simp: in_set_conv_nth)
          then show ?thesis using False n lo [of j] eq by (cases "j = ?n") auto
        qed
        then show ?thesis using False n e at i by (intro none) (auto simp: run is_below_def)
      qed
    qed
  qed
qed

lemma getKVData_distinct [simp]: "distinct (map fst (getKVData vatID t))"
proof -
  have d: "distinct (tlist t)" using distinct_tlist [of t] by (simp only: distinct_map)
  have "inj_on (\<lambda>r. snd (fst r)) (set (filter (\<lambda>r. fst (fst r) = vatID) (tlist t)))"
    using distinct_tlist [of t] by (auto simp: distinct_map inj_on_def prod_eq_iff)
  then show ?thesis using d by (simp add: getKVData_def distinct_map comp_def)
qed

lemma map_of_getKVData [simp]: "map_of (getKVData vatID t) k = tget t (vatID, k)"
proof -
  have "map_of (map (\<lambda>r. (snd (fst r), snd r)) (filter (\<lambda>r. fst (fst r) = vatID) es)) k = map_of es (vatID, k)" for es
    by (induction es) (auto simp: prod_eq_iff)
  then show ?thesis by (simp add: getKVData_def tget_map_of)
qed

lemma getKVData_cong: "(\<And>k. tget t (w, k) = tget t' (w, k)) \<Longrightarrow> map_of (getKVData w t) = map_of (getKVData w t')"
  by (rule ext) simp

lemma tget_puts: "distinct (map fst kvs) \<Longrightarrow> tget (foldl (\<lambda>t r. tput (vatID, fst r) (snd r) t) t kvs) j =
    (if fst j = vatID \<and> snd j \<in> fst ` set kvs then map_of kvs (snd j) else tget t j)"
  by (induction kvs arbitrary: t) (auto simp: prod_eq_iff dest: map_of_SomeD)

lemma tget_dels: "tget (foldl (\<lambda>t key. tdel (vatID, key) t) t dels) j =
    (if fst j = vatID \<and> snd j \<in> set dels then None else tget t j)"
  by (induction dels arbitrary: t) (auto simp: prod_eq_iff)

lemma tget_updateKVData:
  assumes "distinct (map fst kvs)"
  shows "tget (updateKVData vatID kvs dels t) j =
    (if fst j \<noteq> vatID then tget t j else if snd j \<in> set dels then None
     else if snd j \<in> fst ` set kvs then map_of kvs (snd j) else tget t j)"
  using assms by (simp add: updateKVData_def tget_dels tget_puts)

section \<open>What a vat does between two checkpoints\<close>

datatype vat_op = NextKey string | SetKey string string | DelKey string

fun vat_do :: "vat_op \<Rightarrow> vat_kv \<Rightarrow> vat_kv" where
  "vat_do (NextKey key) s = snd (vatGetNextKey key s)"
| "vat_do (SetKey key v) s = snd (vatSet key v s)"
| "vat_do (DelKey key) s = snd (vatDelete key s)"

lemma map_fst_obj_put: "map fst (obj_put k v es) = (if k \<in> fst ` set es then map fst es else map fst es @ [k])"
  by (induction es) auto

lemma map_fst_obj_del: "map fst (obj_del k es) = filter (\<lambda>x. x \<noteq> k) (map fst es)"
  by (simp add: obj_del_def filter_map comp_def)

text \<open>Nothing is added or taken away below the remembered key.\<close>

fun harmless :: "vat_op \<Rightarrow> vat_kv \<Rightarrow> bool" where
  "harmless (NextKey key) s \<longleftrightarrow> True"
| "harmless (SetKey key v) s \<longleftrightarrow> key \<in> fst ` set (kvState s) \<or> (case lastNextKey s of None \<Rightarrow> True | Some l \<Rightarrow> l \<le> key)"
| "harmless (DelKey key) s \<longleftrightarrow> key \<notin> fst ` set (kvState s) \<or> (case lastNextKey s of None \<Rightarrow> True | Some l \<Rightarrow> l \<le> key)"

lemma rank_snoc: "l \<le> key \<Longrightarrow> rank l (ks @ [key]) = rank l ks"
  by (simp add: rank_def)

lemma rank_without: "l \<le> key \<or> key \<notin> set ks \<Longrightarrow> rank l (filter (\<lambda>x. x \<noteq> key) ks) = rank l ks"
proof -
  assume a: "l \<le> key \<or> key \<notin> set ks"
  have "filter (\<lambda>x. x \<noteq> key \<and> x < l) ks = filter (\<lambda>x. x < l) ks"
    using a by (intro filter_cong) auto
  then show ?thesis by (simp add: rank_def conj_commute)
qed

lemma cursor_ok_do: "cursor_ok s \<Longrightarrow> harmless op s \<Longrightarrow> cursor_ok (vat_do op s)"
proof (cases op)
  case (NextKey key)
  assume "cursor_ok s"
  then show ?thesis using vatGetNextKey_run [of s key] NextKey by auto
next
  case (SetKey key v)
  assume "cursor_ok s" "harmless op s"
  then show ?thesis using SetKey rank_snoc
    by (auto simp: vatSet_def cursor_ok_def map_fst_obj_put split: option.splits)
next
  case (DelKey key)
  assume a: "cursor_ok s" "harmless op s"
  have "rank l (filter (\<lambda>x. x \<noteq> key) (map fst (kvState s))) = rank l (map fst (kvState s))" if "lastNextKey s = Some l" for l
    using a(2) that DelKey by (intro rank_without) auto
  then show ?thesis using DelKey a(1)
    by (simp add: vatDelete_def cursor_ok_def map_fst_obj_del)
qed

fun harmless_run :: "vat_op list \<Rightarrow> vat_kv \<Rightarrow> bool" where
  "harmless_run [] s \<longleftrightarrow> True"
| "harmless_run (op # ops) s \<longleftrightarrow> harmless op s \<and> harmless_run ops (vat_do op s)"

text \<open>Every answer of \<open>getNextKey\<close> along a run is the least key above the one asked about.\<close>

fun answers_right :: "vat_op list \<Rightarrow> vat_kv \<Rightarrow> bool" where
  "answers_right [] s \<longleftrightarrow> True"
| "answers_right (op # ops) s \<longleftrightarrow>
     (case op of NextKey key \<Rightarrow> fst (vatGetNextKey key s) = Inr (next_above key (keys_of s)) | _ \<Rightarrow> True) \<and>
     answers_right ops (vat_do op s)"

lemma answers_right_run: "cursor_ok s \<Longrightarrow> harmless_run ops s \<Longrightarrow> answers_right ops s"
proof (induction ops arbitrary: s)
  case (Cons op ops)
  have "fst (vatGetNextKey key s) = Inr (next_above key (keys_of s))" for key
    using vatGetNextKey_run [OF Cons.prems(1), of key] by auto
  moreover have "answers_right ops (vat_do op s)"
    using Cons.prems by (intro Cons.IH cursor_ok_do) simp_all
  ultimately show ?case by (simp split: vat_op.split)
qed simp

lemma cursor_ok_make: "distinct (map fst st) \<Longrightarrow> cursor_ok (makeVatKVStore st)"
  by (simp add: cursor_ok_def makeVatKVStore_def)

section \<open>What a crank reports\<close>

text \<open>The rows as of the last checkpoint, with what is to be reported, are the state.\<close>

definition synced :: "string \<Rightarrow> (string \<times> string, string) tbl \<Rightarrow> vat_kv \<Rightarrow> bool" where
  "synced vatID t s \<longleftrightarrow> distinct (map fst (kvSets s)) \<and> fst ` set (kvSets s) \<inter> set (kvDeletes s) = {} \<and>
     (\<forall>k. map_of (kvState s) k = tget (updateKVData vatID (kvSets s) (kvDeletes s) t) (vatID, k))"

lemma synced_make: "synced vatID t (makeVatKVStore (getKVData vatID t))"
  by (simp add: synced_def makeVatKVStore_def updateKVData_def)

lemma vatGetNextKey_keeps:
  "kvState (snd (vatGetNextKey key s)) = kvState s \<and> kvSets (snd (vatGetNextKey key s)) = kvSets s \<and>
   kvDeletes (snd (vatGetNextKey key s)) = kvDeletes s"
  by (simp add: vatGetNextKey_def)

lemma fst_obj_del: "fst ` set (obj_del k es) = fst ` set es - {k}"
  by (auto simp: obj_del_def)

lemma synced_do: "synced vatID t s \<Longrightarrow> synced vatID t (vat_do op s)"
proof (cases op)
  case (NextKey key)
  assume "synced vatID t s"
  then show ?thesis using NextKey by (simp add: synced_def vatGetNextKey_keeps)
next
  case (SetKey key v)
  assume "synced vatID t s"
  then show ?thesis using SetKey
    by (auto simp: synced_def vatSet_def tget_updateKVData)
next
  case (DelKey key)
  assume "synced vatID t s"
  then show ?thesis using DelKey
    by (auto simp: synced_def vatDelete_def tget_updateKVData fst_obj_del)
qed

text \<open>A crank: the operations of the vat, then its checkpoint, saved by the kernel.\<close>

definition commit_crank :: "string \<Rightarrow> vat_op list \<Rightarrow> vat_kv \<times> (string \<times> string, string) tbl \<Rightarrow>
    vat_kv \<times> (string \<times> string, string) tbl" where
  "commit_crank vatID ops st =
     (let s = foldl (\<lambda>s op. vat_do op s) (fst st) ops in
      case checkpoint s of (Inr r, s') \<Rightarrow> (s', updateKVData vatID (fst r) (snd r) (snd st)) | (Inl _, s') \<Rightarrow> (s', snd st))"

lemma checkpoint_run: "checkpoint s = (Inr (kvSets s, kvDeletes s), s\<lparr>kvSets := [], kvDeletes := []\<rparr>)"
  by (simp add: checkpoint_def)

lemma synced_ops: "synced vatID t s \<Longrightarrow> synced vatID t (foldl (\<lambda>s op. vat_do op s) s ops)"
  by (induction ops arbitrary: s) (auto intro: synced_do)

lemma synced_commit:
  assumes "synced vatID t s"
  shows "synced vatID (snd (commit_crank vatID ops (s, t))) (fst (commit_crank vatID ops (s, t)))"
proof -
  have "synced vatID t (foldl (\<lambda>s op. vat_do op s) s ops)" using assms by (rule synced_ops)
  then show ?thesis
    by (simp add: commit_crank_def checkpoint_run synced_def updateKVData_def [of _ "[]" "[]"] Let_def)
qed

lemma synced_cranks:
  "synced vatID t s \<Longrightarrow> synced vatID (snd (foldl (\<lambda>st ops. commit_crank vatID ops st) (s, t) cranks))
     (fst (foldl (\<lambda>st ops. commit_crank vatID ops st) (s, t) cranks))"
proof (induction cranks arbitrary: s t)
  case (Cons ops cranks)
  show ?case using Cons.IH [OF synced_commit [OF Cons.prems, of ops]] by simp
qed simp

lemma commit_crank_clear: "kvSets (fst (commit_crank vatID ops st)) = [] \<and> kvDeletes (fst (commit_crank vatID ops st)) = []"
  by (simp add: commit_crank_def checkpoint_run Let_def)

lemma commit_crank_others:
  assumes "synced vatID (snd st) (fst st)" and "fst j \<noteq> vatID"
  shows "tget (snd (commit_crank vatID ops st)) j = tget (snd st) j"
  using synced_ops [OF assms(1), of ops] assms(2)
  by (simp add: commit_crank_def checkpoint_run synced_def tget_updateKVData Let_def)

lemma commit_cranks_others:
  assumes "synced vatID t s" and "fst j \<noteq> vatID"
  shows "tget (snd (foldl (\<lambda>st ops. commit_crank vatID ops st) (s, t) cranks)) j = tget t j"
  using assms(1)
proof (induction cranks arbitrary: s t)
  case (Cons ops cranks)
  show ?case using Cons.IH [OF synced_commit [OF Cons.prems, of ops]] commit_crank_others [of vatID "(s, t)" j ops] Cons.prems assms(2)
    by simp
qed simp

section \<open>Properties\<close>

text \<open>C39. A vat's \<open>getNextKey\<close> walks its keys in order. From a new store, as long as no key is added or taken away below the
  key it last answered with, every answer is the least key above the one asked about, or undefined when there is none. Once a
  key is added below the remembered one the walk stands still: with \<open>a\<close>, \<open>b\<close> and \<open>c\<close> stored, \<open>b\<close> follows \<open>a\<close>, and after \<open>aa\<close>
  is stored the key given as following \<open>b\<close> is \<open>b\<close> itself.\<close>

theorem vat_kv_walks:
  fixes st :: "(string \<times> string) list"
  assumes "distinct (map fst st)" and "harmless_run ops (makeVatKVStore st)"
  shows "answers_right ops (makeVatKVStore st) \<and>
    fst (vatGetNextKey ''b'' (foldl (\<lambda>s op. vat_do op s)
      (makeVatKVStore [(''a'', ''1''), (''b'', ''2''), (''c'', ''3'')]) [NextKey ''a'', SetKey ''aa'' ''4''])) = Inr (Some ''b'')"
proof
  show "answers_right ops (makeVatKVStore st)" using cursor_ok_make [OF assms(1)] assms(2) by (rule answers_right_run)
  have "vatGetNextKey ''a'' (makeVatKVStore [(''a'', ''1''), (''b'', ''2''), (''c'', ''3'')]) =
      (Inr (Some ''b''), (makeVatKVStore [(''a'', ''1''), (''b'', ''2''), (''c'', ''3'')])
        \<lparr>keyCache := Some [''a'', ''b'', ''c''], lastNextKey := Some ''b'', lastNextKeyIndex := 1\<rparr>)"
    by code_simp
  then show "fst (vatGetNextKey ''b'' (foldl (\<lambda>s op. vat_do op s)
      (makeVatKVStore [(''a'', ''1''), (''b'', ''2''), (''c'', ''3'')]) [NextKey ''a'', SetKey ''aa'' ''4''])) = Inr (Some ''b'')"
    by code_simp
qed

theorem vat_kv_walks_witness:
  "answers_right [NextKey ''a'', SetKey ''d'' ''4'', DelKey ''c'', NextKey ''b'', NextKey ''d'']
     (makeVatKVStore [(''a'', ''1''), (''b'', ''2''), (''c'', ''3'')])"
proof -
  have "harmless_run [NextKey ''a'', SetKey ''d'' ''4'', DelKey ''c'', NextKey ''b'', NextKey ''d'']
      (makeVatKVStore [(''a'', ''1''), (''b'', ''2''), (''c'', ''3'')])"
    by code_simp
  then show ?thesis by (rule vat_kv_walks [THEN conjunct1, rotated]) simp
qed

text \<open>C40. What a vat keeps in memory is what its rows hold after every crank. A vat store opened from the rows of a vat and
  taken through any number of cranks (each any operations, then the checkpoint the kernel saves with \<open>updateKVData\<close>) leaves
  rows that, reopened, give the same value for every key as the store in memory; nothing is left to report; and no row of
  another vat has changed.\<close>

theorem vat_kv_commits:
  "let st = foldl (\<lambda>st ops. commit_crank vatID ops st) (makeVatKVStore (getKVData vatID t), t) (cranks @ [ops])
   in (\<forall>key. vatGet key (makeVatKVStore (getKVData vatID (snd st))) = vatGet key (fst st)) \<and>
     kvSets (fst st) = [] \<and> kvDeletes (fst st) = [] \<and>
     (\<forall>w. w = vatID \<or> map_of (getKVData w (snd st)) = map_of (getKVData w t))"
proof -
  define st where "st = foldl (\<lambda>st ops. commit_crank vatID ops st) (makeVatKVStore (getKVData vatID t), t) (cranks @ [ops])"
  have s: "synced vatID (snd st) (fst st)" unfolding st_def by (rule synced_cranks) (rule synced_make)
  have c: "kvSets (fst st) = []" "kvDeletes (fst st) = []" unfolding st_def using commit_crank_clear by simp_all
  have o: "w = vatID \<or> map_of (getKVData w (snd st)) = map_of (getKVData w t)" for w
  proof (cases "w = vatID")
    case False
    then have "tget (snd st) (w, k) = tget t (w, k)" for k
      unfolding st_def by (intro commit_cranks_others [OF synced_make]) simp
    then show ?thesis by (blast intro: getKVData_cong)
  qed simp
  show ?thesis unfolding st_def [symmetric] Let_def
    using s c o by (auto simp: synced_def vatGet_def makeVatKVStore_def updateKVData_def)
qed

text \<open>The binary search ends, and finds where a key belongs. In a strictly sorted list it answers the number of keys below
  the one looked for (its own position when it is there, that of the next key when it is not), and \<open>-1\<close> when every key is below
  it.\<close>

theorem keySearch_correct:
  assumes "sorted_wrt (<) arr"
  shows "keySearch arr key = (if \<forall>x\<in>set arr. x < key then - 1 else int (length (filter (\<lambda>x. x < key) arr)))"
proof -
  have "rank key arr = length arr \<longleftrightarrow> (\<forall>x\<in>set arr. x < key)"
    by (metis filter_id_conv length_filter_less rank_def nat_neq_iff)
  then show ?thesis using keySearch_rank [OF assms, of key] by (simp add: rank_def)
qed

theorem keySearch_correct_witness: "keySearch [''a'', ''c'', ''e''] ''d'' = 2 \<and> keySearch [''a'', ''c'', ''e''] ''f'' = - 1"
  using keySearch_correct [of "[''a'', ''c'', ''e'']" "''d''"] keySearch_correct [of "[''a'', ''c'', ''e'']" "''f''"]
  by (simp add: less_char_def)

end
