(* ===== verification/Frames.thy ===== *)
theory Frames
  imports Crank GCActions RefAudit Subclusters Vats
begin

text \<open>
  What the operations of the store leave alone: none of them but those of \<open>crank.ts\<close> starts or
  ends a crank, or takes, releases or goes back to a savepoint. This is what makes a crank the unit of
  work: everything a delivery does lies between the savepoints the run loop took for it. Nor do they
  touch the sequence numbers of a remote, the messages written down for it or the incarnation last seen of its peer, which are those of \<open>remote.ts\<close>.
\<close>

text \<open>\<open>p\<close> is the part of the state an operation leaves as it was.\<close>

definition spares :: "('s \<Rightarrow> 'v) \<Rightarrow> ('s, 'a) sm \<Rightarrow> bool" where
  "spares p m \<longleftrightarrow> (\<forall>s. p (snd (m s)) = p s)"

abbreviation crank_part :: "ctx \<Rightarrow> db_session \<times> (string \<times> string list) list \<times> bool" where
  "crank_part s \<equiv> (session s, savepoints s, inCrank s)"

abbreviation remote_part :: "ctx \<Rightarrow> (string \<times> string, nat) tbl \<times> (string \<times> nat, string) tbl" where
  "remote_part s \<equiv> (remoteSeqs (db s), remotePendings (db s))"

abbreviation frame :: "'a store \<Rightarrow> bool" where
  "frame \<equiv> spares (\<lambda>s. (crank_part s, remote_part s, peerIncarnations (db s)))"

lemma sparesD: "spares p m \<Longrightarrow> m s = (r, s') \<Longrightarrow> p s' = p s"
  unfolding spares_def by (metis snd_conv)

named_theorems frames \<open>operations that leave the crank and its savepoints alone\<close>

lemma sparesI: "(\<And>s r s'. m s = (r, s') \<Longrightarrow> p s' = p s) \<Longrightarrow> spares p m"
  unfolding spares_def by (metis prod.collapse)

lemma spares_bnd [frames]:
  assumes "spares p m" and "\<And>x. spares p (f x)"
  shows "spares p (bnd m f)"
proof (rule sparesI)
  fix s r s' assume run: "bnd m f s = (r, s')"
  obtain q u where q: "m s = (q, u)" by fastforce
  then show "p s' = p s"
    using run sparesD [OF assms(1) q] sparesD [OF assms(2), of _ u r s'] by (cases q) (auto simp: bnd_run)
qed

lemma spares_thn [frames]: "spares p m \<Longrightarrow> spares p n \<Longrightarrow> spares p (thn m n)"
  unfolding thn_def by (rule spares_bnd)

lemma spares_tryCatch [frames]:
  assumes "spares p m" and "\<And>e. spares p (h e)"
  shows "spares p (tryCatch m h)"
proof (rule sparesI)
  fix s r s' assume run: "tryCatch m h s = (r, s')"
  obtain q u where q: "m s = (q, u)" by fastforce
  then show "p s' = p s"
    using run sparesD [OF assms(1) q] sparesD [OF assms(2), of _ u r s'] by (cases q) (auto simp: tryCatch_def)
qed

lemma spares_modify [frames]:
  "(\<And>s. p (f s) = p s) \<Longrightarrow> spares p (modify f)"
  by (simp add: spares_def)

lemma spares_tryFinally [frames]:
  assumes "spares p m"
    and "\<And>s. p (f s) = p s"
  shows "spares p (tryFinally m f)"
  using assms by (simp add: spares_def tryFinally_def split_beta)

lemma spares_ret [frames]: "spares p (ret x)"
  by (simp add: spares_def)

lemma spares_fail [frames]: "spares p (fail e)"
  by (simp add: spares_def)

lemma spares_gets [frames]: "spares p (gets f)"
  by (simp add: spares_def)

lemma spares_lift [frames]: "spares p (lift r)"
  by (simp add: spares_def)

lemma spares_require [frames]: "spares p (require b e)"
  by (simp add: spares_def)

lemma spares_ofOption [frames]: "spares p (ofOption e x)"
  by (simp add: spares_def split: option.split)

lemma spares_whenM [frames]: "spares p m \<Longrightarrow> spares p (whenM b m)"
  by (simp add: spares_def)

lemma spares_forEach [frames]: "(\<And>x. spares p (f x)) \<Longrightarrow> spares p (forEach xs f)"
  by (induction xs) (simp_all add: spares_ret spares_thn)

lemma spares_mapEach [frames]: "(\<And>x. spares p (f x)) \<Longrightarrow> spares p (mapEach f xs)"
  by (induction xs) (simp_all add: spares_ret spares_bnd)

lemma spares_filterEach [frames]: "(\<And>x. frame (f x)) \<Longrightarrow> frame (filterEach f xs)"
  by (induction xs) (simp_all add: spares_ret spares_bnd)

lemma spares_if [frames]: "(b \<Longrightarrow> spares p m) \<Longrightarrow> (\<not> b \<Longrightarrow> spares p n) \<Longrightarrow> spares p (if b then m else n)"
  by simp

lemma spares_Let [frames]: "(\<And>x. spares p (f x)) \<Longrightarrow> spares p (Let x f)"
  by (simp add: Let_def)

lemma spares_option [frames]: "spares p m \<Longrightarrow> (\<And>v. spares p (f v)) \<Longrightarrow> spares p (case x of None \<Rightarrow> m | Some v \<Rightarrow> f v)"
  by (cases x) simp_all

lemma spares_list [frames]: "spares p m \<Longrightarrow> (\<And>y ys. spares p (f y ys)) \<Longrightarrow> spares p (case xs of [] \<Rightarrow> m | y # ys \<Rightarrow> f y ys)"
  by (cases xs) simp_all

lemma spares_prod [frames]: "(\<And>x y. spares p (f x y)) \<Longrightarrow> spares p (case_prod f q)"
  by (cases q) simp

lemma spares_sum [frames]: "(\<And>e. spares p (f e)) \<Longrightarrow> (\<And>x. spares p (g x)) \<Longrightarrow> spares p (case r of Inl e \<Rightarrow> f e | Inr x \<Rightarrow> g x)"
  by (cases r) simp_all

lemma spares_entry [frames]: "(\<And>i. spares p (f i)) \<Longrightarrow> (\<And>m. spares p (g m)) \<Longrightarrow> spares p (case e of QRun i \<Rightarrow> f i | QMsg m \<Rightarrow> g m)"
  by (cases e) simp_all

lemma spares_msg_result [frames]:
  "(\<And>r. spares p (f r)) \<Longrightarrow> spares p m \<Longrightarrow> spares p n \<Longrightarrow> spares p (case x of NoResult \<Rightarrow> n | NullResult \<Rightarrow> m | Result r \<Rightarrow> f r)"
  by (cases x) simp_all

lemma spares_kernel_type [frames]: "spares p m \<Longrightarrow> spares p n \<Longrightarrow> spares p (case t of SlotObject \<Rightarrow> m | SlotPromise \<Rightarrow> n)"
  by (cases t) simp_all

lemma frame_incCounter [frames]:
  assumes "\<And>n s. (crank_part (wr n s), remote_part (wr n s), peerIncarnations (db (wr n s))) = (crank_part s, remote_part s, peerIncarnations (db s))"
  shows "frame (incCounter rd wr)"
  unfolding incCounter_def using assms by (intro frames; auto)

lemma frame_getRequired [frames]: "frame (getRequired key f)"
  unfolding getRequired_def by (intro frames)

lemma set_queue_frame [simp]:
  "crank_part (set_queue_head c q n s) = crank_part s" "crank_part (set_queue_tail c q n s) = crank_part s"
  "remote_part (set_queue_head c q n s) = remote_part s" "remote_part (set_queue_tail c q n s) = remote_part s"
  "peerIncarnations (db (set_queue_head c q n s)) = peerIncarnations (db s)" "peerIncarnations (db (set_queue_tail c q n s)) = peerIncarnations (db s)"
  by (simp_all add: set_queue_head_def set_queue_tail_def Let_def)

section \<open>Queues and counters\<close>

lemma frame_provideStoredQueue [frames]: "frame (provideStoredQueue q c)"
  unfolding provideStoredQueue_def by (intro frames; auto)

lemma frame_enqueue [frames]: "frame (enqueue c q item)"
  unfolding enqueue_def by (intro frames; auto)

lemma frame_dequeue [frames]: "frame (dequeue c q)"
  unfolding dequeue_def by (intro frames; auto)

lemma frame_delete_queue [frames]: "frame (delete_queue q)"
  unfolding delete_queue_def by (intro frames; auto)

lemma frame_getQueueLength [frames]: "frame (getQueueLength a)"
  unfolding getQueueLength_def by (intro frames; auto)

lemma frame_runQueueLength [frames]: "frame runQueueLength"
  unfolding runQueueLength_def by (intro frames; auto)

lemma frame_enqueueRun [frames]: "frame (enqueueRun a)"
  unfolding enqueueRun_def by (intro frames; auto)

lemma frame_dequeueRun [frames]: "frame dequeueRun"
  unfolding dequeueRun_def by (intro frames; auto)

section \<open>Objects and reference counts\<close>

lemma frame_setObjectRefCount [frames]: "frame (setObjectRefCount a b)"
  unfolding setObjectRefCount_def by (intro frames; auto)

lemma frame_getObjectRefCount [frames]: "frame (getObjectRefCount a)"
  unfolding getObjectRefCount_def by (intro frames; auto)

lemma frame_getOwner [frames]: "frame (getOwner a)"
  unfolding getOwner_def by (intro frames; auto)

lemma frame_deleteKernelObject [frames]: "frame (deleteKernelObject a)"
  unfolding deleteKernelObject_def by (intro frames; auto)

lemma frame_addMaybeFree [frames]: "frame (addMaybeFree a)"
  unfolding addMaybeFree_def by (intro frames; auto)

lemma frame_incrementRefCount [frames]: "frame (incrementRefCount a b c)"
  unfolding incrementRefCount_def by (intro frames; auto)

lemma frame_decrementRefCount [frames]: "frame (decrementRefCount a b c)"
  unfolding decrementRefCount_def by (intro frames; auto)

section \<open>C-lists\<close>

lemma frame_getReachableAndVatSlot [frames]: "frame (getReachableAndVatSlot a b)"
  unfolding getReachableAndVatSlot_def by (intro frames; auto)

lemma frame_getReachableFlag [frames]: "frame (getReachableFlag a b)"
  unfolding getReachableFlag_def by (intro frames; auto)

lemma frame_setReachableFlag [frames]: "frame (setReachableFlag a b)"
  unfolding setReachableFlag_def by (intro frames; auto)

lemma frame_clearReachableFlag [frames]: "frame (clearReachableFlag a b)"
  unfolding clearReachableFlag_def by (intro frames; auto)

lemma frame_addCListEntry [frames]: "frame (addCListEntry a b c)"
  unfolding addCListEntry_def by (intro frames; auto)

lemma frame_deleteCListEntry [frames]: "frame (deleteCListEntry a b c)"
  unfolding deleteCListEntry_def by (intro frames; auto)

lemma frame_allocateErefForKref [frames]: "frame (allocateErefForKref a b)"
  unfolding allocateErefForKref_def Let_def by (intro frames; auto)

lemma frame_krefToEref [frames]: "frame (krefToEref a b)"
  unfolding krefToEref_def by (intro frames; auto)

lemma frame_krefsToErefs [frames]: "frame (krefsToErefs a b)"
  unfolding krefsToErefs_def by (intro frames; auto)

lemma frame_forgetKref [frames]: "frame (forgetKref a b)"
  unfolding forgetKref_def by (intro frames; auto)

section \<open>Promises\<close>

lemma frame_getNextPromiseId [frames]: "frame getNextPromiseId"
  unfolding getNextPromiseId_def by (intro frames; auto)

lemma frame_initKernelPromise [frames]: "frame initKernelPromise"
  unfolding initKernelPromise_def by (intro frames; auto)

lemma frame_getKernelPromise [frames]: "frame (getKernelPromise a)"
  unfolding getKernelPromise_def by (intro frames; auto)

lemma frame_deleteKernelPromise [frames]: "frame (deleteKernelPromise a)"
  unfolding deleteKernelPromise_def by (intro frames; auto)

lemma frame_setPromiseDecider [frames]: "frame (setPromiseDecider a b)"
  unfolding setPromiseDecider_def by (intro frames; auto)

lemma frame_releaseQueuedMessageRefs [frames]: "frame (releaseQueuedMessageRefs a b)"
  unfolding releaseQueuedMessageRefs_def by (intro frames; auto)

lemma frame_enqueuePromiseMessage [frames]: "frame (enqueuePromiseMessage a b)"
  unfolding enqueuePromiseMessage_def by (intro frames; auto)

lemma frame_drain_messages [frames]: "frame (drain_messages a b)"
  by (induction a) (unfold drain_messages.simps, (intro frames; assumption?)+)

lemma frame_getKernelPromiseMessageQueue [frames]: "frame (getKernelPromiseMessageQueue a)"
  unfolding getKernelPromiseMessageQueue_def by (intro frames; auto)

lemma frame_resolveKernelPromise [frames]: "frame (resolveKernelPromise a b c)"
  unfolding resolveKernelPromise_def by (intro frames; auto)

lemma frame_scanSlots [frames]: "(\<And>k v seen. frame (f k v seen)) \<Longrightarrow> frame (scanSlots f xs seen)"
  by (induction xs arbitrary: seen) (unfold scanSlots.simps, (intro frames; blast)+)

lemma frame_scanPromise [frames]: "frame (scanPromise a b c d)"
  by (induction a arbitrary: b c d) (unfold scanPromise.simps, (intro frames; assumption?)+)

lemma frame_getKpidsToRetire [frames]: "frame (getKpidsToRetire a b)"
  unfolding getKpidsToRetire_def by (intro frames; auto)

section \<open>Subclusters\<close>

lemma frame_saveAllSubclustersToStorage [frames]: "frame (saveAllSubclustersToStorage a)"
  unfolding saveAllSubclustersToStorage_def by (intro frames; auto)

lemma frame_clearEmptySubclusters [frames]: "frame clearEmptySubclusters"
  unfolding clearEmptySubclusters_def by (intro frames; auto)

section \<open>Vats\<close>

lemma frame_forSlots [frames]: "(\<And>k. frame (v k)) \<Longrightarrow> frame (forSlots a b c v d)"
  by (induction a arbitrary: d) (unfold forSlots.simps, (intro frames; blast)+)

lemma frame_forPrefix [frames]: "(\<And>k. frame (v k)) \<Longrightarrow> frame (forPrefix a b v)"
  unfolding forPrefix_def by (intro frames; auto)

lemma frame_deleteEndpoint [frames]: "frame (deleteEndpoint a)"
  unfolding deleteEndpoint_def by (intro frames; auto)

lemma frame_deleteVatConfig [frames]: "frame (deleteVatConfig a)"
  unfolding deleteVatConfig_def by (intro frames; auto)

lemma frame_importsKernelSlot [frames]: "frame (importsKernelSlot a b)"
  unfolding importsKernelSlot_def by (intro frames; auto)

lemma frame_getImporters [frames]: "frame (getImporters a)"
  unfolding getImporters_def by (intro frames; auto)

lemma frame_forgetTerminatedVat [frames]: "frame (forgetTerminatedVat a)"
  unfolding forgetTerminatedVat_def by (intro frames; auto)

lemma frame_cleanup_export [frames]: "frame (cleanup_export a b)"
  unfolding cleanup_export_def by (intro frames; auto)

lemma frame_cleanup_entry [frames]: "frame (cleanup_entry a b)"
  unfolding cleanup_entry_def by (intro frames; auto)

lemma frame_cleanupTerminatedVat [frames]: "frame (cleanupTerminatedVat a)"
  unfolding cleanupTerminatedVat_def by (intro frames; auto)

lemma frame_nextTerminatedVatCleanup [frames]: "frame nextTerminatedVatCleanup"
  unfolding nextTerminatedVatCleanup_def by (intro frames; auto)

section \<open>Translators\<close>

lemma frame_find_or_import [frames]: "frame (find_or_import a b c)"
  unfolding find_or_import_def by (intro frames; auto)

lemma frame_translateRefKtoE [frames]: "frame (translateRefKtoE a b c)"
  unfolding translateRefKtoE_def by (intro frames; auto)

lemma frame_translateCapDataKtoE [frames]: "frame (translateCapDataKtoE a b)"
  unfolding translateCapDataKtoE_def by (intro frames; auto)

lemma frame_translateMessageKtoE [frames]: "frame (translateMessageKtoE a b)"
  unfolding translateMessageKtoE_def by (intro frames; auto)

lemma frame_getNextObjectId [frames]: "frame getNextObjectId"
  unfolding getNextObjectId_def by (intro frames; auto)

lemma frame_initKernelObject [frames]: "frame (initKernelObject ep)"
  unfolding initKernelObject_def by (intro frames; auto)

lemma frame_addPromiseSubscriber [frames]: "frame (addPromiseSubscriber ep kpid)"
  unfolding addPromiseSubscriber_def by (intro frames; auto)

lemma frame_exportFromEndpoint [frames]: "frame (exportFromEndpoint ep eref)"
  unfolding exportFromEndpoint_def by (intro frames; auto)

lemma frame_EtoK [frames]:
  "frame (translateRefEtoK ep eref)" "frame (translateCapDataEtoK ep c)" "frame (translateMessageEtoK ep m)"
proof -
  show r: "frame (translateRefEtoK ep eref)" for eref
    unfolding translateRefEtoK_def erefToKref_def by (intro frames)
  show c: "frame (translateCapDataEtoK ep c)" for c
    unfolding translateCapDataEtoK_def by (intro frames r)
  show "frame (translateMessageEtoK ep m)"
    unfolding translateMessageEtoK_def by (intro frames r c)
qed

lemma frame_translate_checked [frames]: "frame (translate_checked vat ref)"
  unfolding translate_checked_def by (intro frames)

lemma frame_translateSyscallVtoK [frames]: "frame (translateSyscallVtoK vat call)"
  by (cases call) (simp_all add: spares_fail, (intro frames; auto)+)

section \<open>The audit\<close>

lemma frame_clist_calls [frames]: "frame (clist_calls a b)"
  unfolding clist_calls_def by (intro frames; auto)

lemma frame_queue_calls [frames]: "frame (queue_calls a)"
  unfolding queue_calls_def by (intro frames; auto intro!: frames split: run_item.splits)

lemma frame_buffer_calls [frames]: "frame (buffer_calls a)"
  unfolding buffer_calls_def by (intro frames; auto simp: Let_def intro!: frames split: run_item.splits)

lemma frame_all_calls [frames]: "frame all_calls"
  unfolding all_calls_def by (intro frames; auto)

lemma frame_computeExpectedRefCounts [frames]: "frame computeExpectedRefCounts"
  unfolding computeExpectedRefCounts_def by (intro frames; auto)

lemma frame_run_audit [frames]: "frame run_audit"
  unfolding run_audit_def by (intro frames; auto)

lemma frame_assertRefCountsIfAuditing [frames]: "frame assertRefCountsIfAuditing"
  unfolding assertRefCountsIfAuditing_def by (intro frames; auto)

section \<open>Garbage collection\<close>

lemma frame_makeGCAction [frames]: "frame (makeGCAction a b c)"
  unfolding makeGCAction_def by (intro frames; auto)

lemma frame_setGCActions [frames]: "frame (setGCActions a)"
  unfolding setGCActions_def by (intro frames; auto)

lemma frame_addGCActions [frames]: "frame (addGCActions a)"
  unfolding addGCActions_def by (intro frames; auto)

lemma frame_nextReapAction [frames]: "frame nextReapAction"
  unfolding nextReapAction_def by (intro frames; auto)

lemma frame_orphanKernelObject [frames]: "frame (orphanKernelObject a b)"
  unfolding orphanKernelObject_def by (intro frames; auto)

lemma frame_retire_one [frames]: "frame (retire_one a)"
  unfolding retire_one_def by (intro frames; auto)

lemma frame_retireKernelObjects [frames]: "frame (retireKernelObjects a)"
  unfolding retireKernelObjects_def by (intro frames; auto)

lemma frame_collect_promise [frames]: "frame (collect_promise a)"
  unfolding collect_promise_def by (intro frames; auto)

lemma frame_collect_orphan [frames]: "frame (collect_orphan a b)"
  unfolding collect_orphan_def by (intro frames; auto)

lemma frame_collect_object [frames]: "frame (collect_object a)"
  unfolding collect_object_def by (intro frames; auto)

lemma frame_collect_one [frames]: "frame (collect_one a)"
  unfolding collect_one_def by (intro frames; auto)

lemma frame_collect_from [frames]: "frame (collect_from a b c)"
  by (induction a arbitrary: b c) (unfold collect_from.simps, (intro frames; assumption?)+)

lemma frame_collectGarbage [frames]: "frame collectGarbage"
  unfolding collectGarbage_def by (intro frames; auto)

lemma frame_shouldProcessAction [frames]: "frame (shouldProcessAction a b c)"
  unfolding shouldProcessAction_def by (intro frames; auto)

lemma frame_filterActionsForProcessing [frames]: "frame (filterActionsForProcessing a)"
  unfolding filterActionsForProcessing_def by (intro frames; auto)

lemma frame_process_groups [frames]: "frame (process_groups a b c d)"
  by (induction d arbitrary: b c) (unfold process_groups.simps Let_def, (intro frames; auto)+)

lemma frame_processGCActionSet [frames]: "frame processGCActionSet"
  unfolding processGCActionSet_def by (intro frames; auto)

section \<open>The crank buffer\<close>

lemma frame_bufferCrankOutput [frames]: "frame (bufferCrankOutput item)"
  unfolding bufferCrankOutput_def by (intro frames; auto)

lemma frame_flushCrankBuffer [frames]: "frame flushCrankBuffer"
  unfolding flushCrankBuffer_def by (intro frames; auto)

section \<open>Garbage collection syscalls\<close>

lemma frame_endpoint_gc [frames]:
  "frame (performDropImports krefs ep)" "frame (performRetireImports krefs ep)" "frame (performExportCleanup krefs b ep)"
  unfolding performDropImports_def performRetireImports_def performExportCleanup_def retire_import_def cleanup_one_def
  by (intro frames; auto)+

end
