(* ===== verification/KernelQueue.thy ===== *)
theory KernelQueue
  imports Frames
begin

text \<open>
  The kernel's run queue and run loop (\<open>KernelQueue.ts\<close>): what the kernel does next, the crank each
  item gets, and who is told what becomes of it.

  \<^item> \<open>kq\<close> is the queue's state over the store (\<open>kst\<close>); \<open>managers\<close> stands for whatever state the
    kernel's other parts keep. A caller waiting on a promise the kernel made for it is a number,
    and \<open>answers\<close> is the trace of what the callers have been told. The \<open>WeakMap\<close> of
    \<open>#takenAhead\<close> is a field of the restart it is keyed by.
  \<^item> What the queue is given (\<open>deliver\<close>, \<open>terminateVat\<close>, the database, the serialization of an
    \<open>Error\<close>) is an argument. An \<open>await\<close> lets callers in: what they do meanwhile is part of the
    effect of the function awaited.
  \<^item> Causes of errors and log messages are left out.
\<close>

section \<open>State\<close>

text \<open>\<open>PeerArrival\<close>: remote, peer, sequence number, message; or peer, incarnation, restart, taken ahead.\<close>

datatype arrival =
    RemoteInbound string string int string
  | PeerIncarnation string string bool nat

datatype loop_item = Run run_item | Arrival arrival | Control string

datatype answer = Answered "capdata option" | Refused "capdata option" | Threw kerror | Settled

datatype held_request = HeldRun run_item | HeldMessage string capdata nat | HeldWrite "unit store" nat

datatype run_loop_state = Idle | Running | Stopped | Failed kerror

record 'h kq =
  kst :: ctx
  subscriptions :: "(string \<times> nat) list"
  resolvedWithKernelSubscription :: "(string \<times> bool \<times> capdata) list"
  pendingWorkWaiters :: "nat list"
  heldRequests :: "held_request list"
  controlRequests :: "(string \<times> nat) list"
  controlInFlight :: "(string \<times> nat) option"
  ending :: bool
  endResolved :: bool
  asleep :: bool
  deliveryRollbackAllowed :: bool
  runLoopState :: run_loop_state
  arrivedFromRemotes :: "arrival list"
  tookArrivalLast :: bool
  answers :: "(nat \<times> answer) list"
  managers :: 'h

record 'h crank_result =
  didDelivery :: "string option"
  abort :: bool
  terminate :: "(string \<times> bool \<times> capdata) option"
  irrevocable :: bool
  afterCommit :: "('h kq, unit) sm option"

text \<open>What the queue is constructed with; \<open>kserError\<close> is \<open>kser(Error(message))\<close>.\<close>

record 'h host =
  database :: kernel_database
  kserError :: "string \<Rightarrow> capdata"
  terminateVat :: "string \<Rightarrow> capdata option \<Rightarrow> ('h kq, unit) sm"

text \<open>The constructor.\<close>

definition makeKernelQueue :: "ctx \<Rightarrow> 'h \<Rightarrow> 'h kq" where
  "makeKernelQueue s h = \<lparr>kst = s, subscriptions = [], resolvedWithKernelSubscription = [], pendingWorkWaiters = [], heldRequests = [],
     controlRequests = [], controlInFlight = None, ending = False, endResolved = False, asleep = False,
     deliveryRollbackAllowed = False, runLoopState = Idle, arrivedFromRemotes = [], tookArrivalLast = False, answers = [], managers = h\<rparr>"

definition onStore :: "'a store \<Rightarrow> ('h kq, 'a) sm" where
  "onStore m = (\<lambda>k. case m (kst k) of (r, s) \<Rightarrow> (r, k\<lparr>kst := s\<rparr>))"

definition tell :: "nat \<Rightarrow> answer \<Rightarrow> ('h kq, unit) sm" where
  "tell caller a = modify (\<lambda>k. k\<lparr>answers := answers k @ [(caller, a)]\<rparr>)"

text \<open>\<open>makeKernelError(code, detail)\<close> (\<open>liveslots/kernel-marshal.ts\<close>)\<close>

definition makeKernelError :: "'h host \<Rightarrow> string \<Rightarrow> string \<Rightarrow> capdata" where
  "makeKernelError H code detail = kserError H (''[KERNEL:'' @ code @ ''] '' @ detail)"

definition MAX_ARRIVALS_PER_REMOTE :: nat where
  "MAX_ARRIVALS_PER_REMOTE = 200"

section \<open>Enqueueing\<close>

definition wakeRunLoop :: "('h kq, unit) sm" where
  "wakeRunLoop = modify (asleep_update (\<lambda>_. False))"

text \<open>\<open>#enqueueRun\<close>\<close>

definition queueRun :: "run_item \<Rightarrow> ('h kq, unit) sm" where
  "queueRun item = thn (onStore (enqueueRun item)) (bnd (onStore runQueueLength) (\<lambda>n. whenM (n > 0) wakeRunLoop))"

definition enqueueSend :: "string \<Rightarrow> message \<Rightarrow> bool \<Rightarrow> ('h kq, unit) sm" where
  "enqueueSend target m immediate =
     thn (onStore (increment target))
       (thn (case result_ref (result m) of None \<Rightarrow> ret () | Some r \<Rightarrow> onStore (increment r))
         (thn (forEach (slots (methargs m)) (\<lambda>slot. onStore (increment slot)))
           (if immediate then queueRun (Send target m) else onStore (bufferCrankOutput (Send target m)))))"

definition enqueueNotify :: "string \<Rightarrow> string \<Rightarrow> bool \<Rightarrow> ('h kq, unit) sm" where
  "enqueueNotify ep kpid immediate =
     thn (onStore (increment kpid))
       (if immediate then queueRun (Notify ep kpid) else onStore (bufferCrankOutput (Notify ep kpid)))"

section \<open>Who is told what\<close>

definition assertRunLoopAlive :: "string \<Rightarrow> ('h kq, unit) sm" where
  "assertRunLoopAlive what = bnd (gets runLoopState) (\<lambda>st. case st of
     Failed _ \<Rightarrow> fail (JsError ''Kernel run loop died; cannot'' [what])
   | Stopped \<Rightarrow> fail (JsError ''Kernel run loop is stopped; cannot'' [what])
   | _ \<Rightarrow> ret ())"

definition settleKernelSubscription :: "string \<Rightarrow> bool \<Rightarrow> capdata option \<Rightarrow> ('h kq, unit) sm" where
  "settleKernelSubscription kpid rejected value = bnd (gets (\<lambda>k. map_of (subscriptions k) kpid)) (\<lambda>sub.
     case sub of None \<Rightarrow> ret ()
     | Some caller \<Rightarrow> thn (modify (subscriptions_update (obj_del kpid)))
         (tell caller (if rejected then Refused value else Answered value)))"

definition invokeKernelSubscription :: "string \<Rightarrow> ('h kq, unit) sm" where
  "invokeKernelSubscription kpid = bnd (gets (\<lambda>k. map_of (subscriptions k) kpid)) (\<lambda>sub.
     if sub = None then ret ()
     else bnd (onStore (getKernelPromise kpid)) (\<lambda>p. settleKernelSubscription kpid (kp_state p = Rejected) (kp_value p)))"

definition abandonSubscriptions :: "kerror \<Rightarrow> ('h kq, unit) sm" where
  "abandonSubscriptions e = bnd (gets subscriptions) (\<lambda>orphaned.
     thn (modify (\<lambda>k. k\<lparr>subscriptions := [], resolvedWithKernelSubscription := []\<rparr>))
       (forEach orphaned (\<lambda>p. tell (snd p) (Threw e))))"

text \<open>\<open>discardHeldRequests\<close>; a dying run loop tells a message's caller and a write's caller different things.\<close>

fun tell_held :: "kerror \<Rightarrow> kerror \<Rightarrow> held_request \<Rightarrow> ('h kq, unit) sm" where
  "tell_held e f (HeldMessage _ _ caller) = tell caller (Threw e)"
| "tell_held e f (HeldWrite _ caller) = tell caller (Threw f)"
| "tell_held e f (HeldRun _) = ret ()"

definition discardHeldRequests :: "kerror \<Rightarrow> ('h kq, unit) sm" where
  "discardHeldRequests e = bnd (gets heldRequests) (\<lambda>held.
     thn (modify (heldRequests_update (\<lambda>_. []))) (forEach held (tell_held e e)))"

definition dead_work :: kerror where
  "dead_work = JsError ''Kernel run loop died; this work will never be carried out'' []"

definition dead_result :: kerror where
  "dead_result = JsError ''Kernel run loop died; this message result will never be delivered'' []"

definition failRunLoop :: "kerror \<Rightarrow> ('h kq, kerror) sm" where
  "failRunLoop e =
     thn (modify (runLoopState_update (\<lambda>_. Failed e)))
       (thn (abandonSubscriptions dead_result)
         (bnd (gets heldRequests) (\<lambda>held.
           thn (modify (heldRequests_update (\<lambda>_. [])))
             (thn (forEach held (tell_held dead_result dead_work))
               (bnd (gets pendingWorkWaiters) (\<lambda>waiters.
                 thn (modify (pendingWorkWaiters_update (\<lambda>_. [])))
                   (thn (forEach waiters (\<lambda>c. tell c (Threw dead_work)))
                     (bnd (gets controlInFlight) (\<lambda>flying.
                       thn (case flying of None \<Rightarrow> ret () | Some (_, c) \<Rightarrow> tell c (Threw e))
                         (thn (modify (controlInFlight_update (\<lambda>_. None)))
                           (bnd (gets controlRequests) (\<lambda>controls.
                             thn (modify (controlRequests_update (\<lambda>_. [])))
                               (thn (forEach controls (\<lambda>p. tell (snd p) (Threw dead_work)))
                                 (thn (modify (\<lambda>k. if ending k then k\<lparr>endResolved := True\<rparr> else k))
                                   (ret e)))))))))))))))"

text \<open>\<open>onRunLoopDeath\<close>, and the function it returns; each waiter registers a function of its own.\<close>

definition onRunLoopDeath :: "nat \<Rightarrow> ('h kq, unit) sm" where
  "onRunLoopDeath caller = bnd (gets runLoopState) (\<lambda>st. case st of
     Failed _ \<Rightarrow> tell caller (Threw dead_work)
   | _ \<Rightarrow> modify (\<lambda>k. k\<lparr>pendingWorkWaiters := (if caller \<in> set (pendingWorkWaiters k) then pendingWorkWaiters k
       else pendingWorkWaiters k @ [caller])\<rparr>))"

definition unregisterWaiter :: "nat \<Rightarrow> ('h kq, unit) sm" where
  "unregisterWaiter caller = modify (pendingWorkWaiters_update (filter (\<lambda>c. c \<noteq> caller)))"

definition getRunLoopStatus :: "'h kq \<Rightarrow> run_loop_state" where
  "getRunLoopStatus k = runLoopState k"

section \<open>Requests from outside the run loop\<close>

text \<open>\<open>methargs\<close> is \<open>kser([method, args])\<close>. The promise made for the call is \<open>caller\<close>.\<close>

definition writeMessage :: "'h host \<Rightarrow> string \<Rightarrow> capdata \<Rightarrow> nat \<Rightarrow> ('h kq, unit) sm" where
  "writeMessage H target margs caller =
     bnd (gets (\<lambda>k. find (\<lambda>kref. \<not> kernelRefExists kref (kst k)) (target # slots margs))) (\<lambda>missing.
       case missing of
         Some kref \<Rightarrow> tell caller (Refused (Some (makeKernelError H ''OBJECT_DELETED'' (kref @ '' does not exist; it may have been deleted''))))
       | None \<Rightarrow>
           bnd (onStore initKernelPromise) (\<lambda>kp.
             thn (enqueueSend target \<lparr>methargs = margs, result = Result (fst kp)\<rparr> True)
               (modify (subscriptions_update (obj_put (fst kp) caller)))))"

text \<open>A write settles its own promise with what it did.\<close>

fun writeRequest :: "'h host \<Rightarrow> held_request \<Rightarrow> ('h kq, unit) sm" where
  "writeRequest H (HeldMessage target margs caller) = writeMessage H target margs caller"
| "writeRequest H (HeldWrite wr caller) =
     tryCatch (thn (onStore wr) (tell caller Settled)) (\<lambda>e. tell caller (Threw e))"
| "writeRequest H (HeldRun item) = queueRun item"

definition enqueueRequest :: "'h host \<Rightarrow> held_request \<Rightarrow> ('h kq, unit) sm" where
  "enqueueRequest H item = bnd (gets (\<lambda>k. isInCrank (kst k))) (\<lambda>inCrank.
     if inCrank then modify (heldRequests_update (\<lambda>held. held @ [item])) else writeRequest H item)"

text \<open>The writes reach only the store, so the list grows under no one's hand while it is written.\<close>

fun write_held :: "'h host \<Rightarrow> held_request list \<Rightarrow> ('h kq, unit) sm" where
  "write_held H [] = ret ()"
| "write_held H (item # items) = thn (writeRequest H item) (thn (modify (heldRequests_update tl)) (write_held H items))"

definition writeHeldRequests :: "'h host \<Rightarrow> ('h kq, unit) sm" where
  "writeHeldRequests H = bnd (gets heldRequests) (write_held H)"

definition enqueueMessage :: "'h host \<Rightarrow> string \<Rightarrow> capdata \<Rightarrow> nat \<Rightarrow> ('h kq, unit) sm" where
  "enqueueMessage H target margs caller =
     thn (assertRunLoopAlive ''queue a message'')
       (thn (lift (insistKRef target)) (enqueueRequest H (HeldMessage target margs caller)))"

definition writeOutsideCrank :: "'h host \<Rightarrow> unit store \<Rightarrow> nat \<Rightarrow> ('h kq, unit) sm" where
  "writeOutsideCrank H wr caller =
     thn (assertRunLoopAlive ''write outside a crank'') (enqueueRequest H (HeldWrite wr caller))"

definition enqueueRestartVat :: "'h host \<Rightarrow> string \<Rightarrow> ('h kq, unit) sm" where
  "enqueueRestartVat H vatId = thn (assertRunLoopAlive ''restart a vat'') (enqueueRequest H (HeldRun (RestartVat vatId)))"

definition enqueueTerminateVat :: "'h host \<Rightarrow> string \<Rightarrow> capdata option \<Rightarrow> ('h kq, unit) sm" where
  "enqueueTerminateVat H vatId reason =
     thn (assertRunLoopAlive ''terminate a vat'')
       (thn (require (case reason of None \<Rightarrow> True | Some r \<Rightarrow> slots r = []) (Fail ''a termination reason cannot carry slots'' []))
         (enqueueRequest H (HeldRun (TerminateVat vatId reason))))"

definition enqueueControl :: "string \<Rightarrow> nat \<Rightarrow> ('h kq, unit) sm" where
  "enqueueControl operation caller =
     bnd (gets runLoopState) (\<lambda>st. thn (require (st \<noteq> Idle) (Fail ''run loop has not started'' []))
       (thn (assertRunLoopAlive operation)
         (bnd (gets ending) (\<lambda>en. thn (require (\<not> en) (JsError ''Kernel run loop is stopping; cannot'' [operation]))
           (thn (modify (\<lambda>k. k\<lparr>controlRequests := controlRequests k @ [(operation, caller)]\<rparr>)) wakeRunLoop)))))"

text \<open>Every caller of \<open>endRunLoop\<close> waits for the one promise, settled once \<open>endResolved\<close> is set.\<close>

definition endRunLoop :: "('h kq, unit) sm" where
  "endRunLoop =
     bnd (gets runLoopState) (\<lambda>st. thn (require (st \<noteq> Idle) (Fail ''run loop has not started'' []))
       (if st \<noteq> Running then ret () else thn (modify (ending_update (\<lambda>_. True))) wakeRunLoop))"

section \<open>Arrivals from peers\<close>

definition is_restart :: "string \<Rightarrow> arrival \<Rightarrow> bool" where
  "is_restart peerId a = (case a of PeerIncarnation p _ r _ \<Rightarrow> p = peerId \<and> r | RemoteInbound _ _ _ _ \<Rightarrow> False)"

definition waitingRestart :: "string \<Rightarrow> 'h kq \<Rightarrow> arrival option" where
  "waitingRestart peerId k = find (is_restart peerId) (arrivedFromRemotes k)"

fun seq_held :: "string \<Rightarrow> string \<Rightarrow> int \<Rightarrow> arrival \<Rightarrow> int option" where
  "seq_held r p high (RemoteInbound r' p' seq _) = (if r' = r \<and> p' = p \<and> seq > high then Some seq else None)"
| "seq_held r p high (PeerIncarnation _ _ _ _) = None"

text \<open>The sequence numbers of the arrivals that take a slot.\<close>

definition held_seqs :: "string \<Rightarrow> string \<Rightarrow> int \<Rightarrow> arrival list \<Rightarrow> int list" where
  "held_seqs r p high arr = List.map_filter (seq_held r p high) arr"

text \<open>\<open>splice\<close> before the peer's waiting restart, which counts what is taken ahead of it.\<close>

fun put_ahead :: "string \<Rightarrow> arrival \<Rightarrow> arrival list \<Rightarrow> arrival list" where
  "put_ahead peerId a [] = []"
| "put_ahead peerId a (PeerIncarnation p i r n # xs) =
     (if p = peerId \<and> r then a # PeerIncarnation p i r (Suc n) # xs else PeerIncarnation p i r n # put_ahead peerId a xs)"
| "put_ahead peerId a (RemoteInbound r p seq m # xs) = RemoteInbound r p seq m # put_ahead peerId a xs"

fun taken_ahead :: "arrival \<Rightarrow> nat" where
  "taken_ahead (PeerIncarnation p i r n) = n"
| "taken_ahead (RemoteInbound r p seq m) = 0"

definition acceptRemoteInbound :: "string \<Rightarrow> string \<Rightarrow> int \<Rightarrow> string \<Rightarrow> int \<Rightarrow> ('h kq, bool) sm" where
  "acceptRemoteInbound remoteId peerId seq m high =
     thn (assertRunLoopAlive ''accept a remote message'')
       (if seq \<le> high then ret True
        else bnd (gets (\<lambda>k. held_seqs remoteId peerId high (arrivedFromRemotes k))) (\<lambda>held.
          if seq \<in> set held then ret True
          else if length held \<ge> MAX_ARRIVALS_PER_REMOTE then ret False
          else bnd (gets (waitingRestart peerId)) (\<lambda>restart.
            let arrival = RemoteInbound remoteId peerId seq m in
            case restart of
              None \<Rightarrow> thn (modify (arrivedFromRemotes_update (\<lambda>xs. xs @ [arrival]))) (thn wakeRunLoop (ret True))
            | Some w \<Rightarrow>
                if Suc (taken_ahead w) > MAX_ARRIVALS_PER_REMOTE then ret False
                else thn (modify (arrivedFromRemotes_update (put_ahead peerId arrival))) (thn wakeRunLoop (ret True)))))"

text \<open>\<open>waiting.incarnation = incarnation\<close>, of the first restart of the peer that waits.\<close>

fun replace_incarnation :: "string \<Rightarrow> string \<Rightarrow> arrival list \<Rightarrow> arrival list" where
  "replace_incarnation peerId inc [] = []"
| "replace_incarnation peerId inc (PeerIncarnation p i r n # xs) =
     (if p = peerId \<and> r then PeerIncarnation p inc r n # xs else PeerIncarnation p i r n # replace_incarnation peerId inc xs)"
| "replace_incarnation peerId inc (RemoteInbound r p seq m # xs) = RemoteInbound r p seq m # replace_incarnation peerId inc xs"

definition acceptPeerIncarnation :: "string \<Rightarrow> string \<Rightarrow> bool \<Rightarrow> ('h kq, unit) sm" where
  "acceptPeerIncarnation peerId incarnation restart =
     thn (assertRunLoopAlive ''accept a peer incarnation change'')
       (bnd (gets (waitingRestart peerId)) (\<lambda>waiting.
         thn (if \<not> restart \<or> waiting = None
              then modify (arrivedFromRemotes_update (\<lambda>xs. xs @ [PeerIncarnation peerId incarnation restart 0]))
              else modify (arrivedFromRemotes_update (replace_incarnation peerId incarnation)))
           wakeRunLoop))"

definition waitingIncarnations :: "string \<Rightarrow> 'h kq \<Rightarrow> string list" where
  "waitingIncarnations peerId k = List.map_filter (\<lambda>a. case a of PeerIncarnation p i _ _ \<Rightarrow> if p = peerId then Some i else None | _ \<Rightarrow> None)
     (arrivedFromRemotes k)"

definition discardArrivals :: "('h kq, unit) sm" where
  "discardArrivals = modify (arrivedFromRemotes_update (\<lambda>_. []))"

section \<open>Promise resolution\<close>

definition resolvePromise :: "string option \<Rightarrow> bool \<Rightarrow> string \<times> bool \<times> capdata \<Rightarrow> ('h kq, unit) sm" where
  "resolvePromise ep immediate res = (case res of (kpid, rejected, data) \<Rightarrow>
     bnd (onStore (getKernelPromise kpid)) (\<lambda>p.
       thn (require (kp_state p = Unresolved) (Fail ''already resolved'' [kpid]))
         (thn (require (kp_decider p = ep) (Fail ''not permitted to resolve'' [kpid]))
           (bnd (ofOption (Fail ''subscribers not set'' [kpid]) (kp_subscribers p)) (\<lambda>subscribers.
             thn (forEach (slots data) (\<lambda>slot. onStore (increment slot)))
               (thn (forEach subscribers (\<lambda>s. enqueueNotify s kpid immediate))
                 (bnd (onStore (resolveKernelPromise kpid rejected data)) (\<lambda>queued.
                   thn (forEach queued (\<lambda>q. enqueueSend (fst q) (snd q) immediate))
                     (if immediate then invokeKernelSubscription kpid
                      else bnd (gets (\<lambda>k. map_of (subscriptions k) kpid)) (\<lambda>sub.
                        whenM (sub \<noteq> None)
                          (modify (resolvedWithKernelSubscription_update (\<lambda>rs. rs @ [(kpid, rejected, data)])))))))))))))"

definition resolvePromises :: "string option \<Rightarrow> (string \<times> bool \<times> capdata) list \<Rightarrow> bool \<Rightarrow> ('h kq, unit) sm" where
  "resolvePromises ep resolutions immediate = forEach resolutions (resolvePromise ep immediate)"

text \<open>\<open>#flushCrankBuffer\<close>\<close>

fun flush_item :: "run_item \<Rightarrow> ('h kq, unit) sm" where
  "flush_item (Notify ep kpid) = thn (queueRun (Notify ep kpid)) (invokeKernelSubscription kpid)"
| "flush_item item = queueRun item"

definition flushBuffered :: "('h kq, unit) sm" where
  "flushBuffered =
     bnd (onStore flushCrankBuffer) (\<lambda>items.
       thn (forEach items flush_item)
         (bnd (gets resolvedWithKernelSubscription) (\<lambda>resolved.
           thn (forEach resolved (\<lambda>(kpid, rejected, data). settleKernelSubscription kpid rejected (Some data)))
             (modify (resolvedWithKernelSubscription_update (\<lambda>_. []))))))"

section \<open>The next item\<close>

definition takeArrival :: "('h kq, loop_item option) sm" where
  "takeArrival = bnd (gets arrivedFromRemotes) (\<lambda>arr.
     thn (modify (\<lambda>k. k\<lparr>arrivedFromRemotes := tl arr, tookArrivalLast := arr \<noteq> []\<rparr>))
       (ret (case arr of [] \<Rightarrow> None | a # _ \<Rightarrow> Some (Arrival a))))"

text \<open>The run queue, and an arrival if the queue has nothing.\<close>

definition take_queued :: "('h kq, loop_item option) sm" where
  "take_queued = bnd (onStore runQueueLength) (\<lambda>n.
     if n > 0 then bnd (onStore dequeueRun) (\<lambda>item. case item of Some i \<Rightarrow> ret (Some (Run i)) | None \<Rightarrow> takeArrival)
     else takeArrival)"

definition getNextRunQueueItem :: "('h kq, loop_item option) sm" where
  "getNextRunQueueItem = bnd (gets controlRequests) (\<lambda>controls.
     case controls of c # cs \<Rightarrow>
         thn (modify (\<lambda>k. k\<lparr>controlRequests := cs, controlInFlight := Some c\<rparr>)) (ret (Some (Control (fst c))))
     | [] \<Rightarrow> bnd (onStore processGCActionSet) (\<lambda>gcAction.
         case gcAction of Some i \<Rightarrow> ret (Some (Run i))
         | None \<Rightarrow> bnd (onStore nextReapAction) (\<lambda>reapAction.
             case reapAction of Some i \<Rightarrow> ret (Some (Run i))
             | None \<Rightarrow> bnd (gets tookArrivalLast) (\<lambda>last.
                 thn (modify (tookArrivalLast_update (\<lambda>_. False)))
                   (if \<not> last
                    then bnd takeArrival (\<lambda>arrival. case arrival of Some a \<Rightarrow> ret (Some a) | None \<Rightarrow> take_queued)
                    else take_queued)))))"

section \<open>A crank of the run loop\<close>

text \<open>
  \<open>#processCrankResult\<close>. A vat's termination and an irrevocable result forbid the rollback of the
  delivery whatever is thrown after, the throw of \<open>terminateVat\<close> itself included.
\<close>

definition is_abort :: "'h crank_result option \<Rightarrow> bool" where
  "is_abort cr = (case cr of None \<Rightarrow> False | Some c \<Rightarrow> abort c)"

definition no_rollback :: "'h kq \<Rightarrow> 'h kq" where
  "no_rollback k = k\<lparr>deliveryRollbackAllowed := False\<rparr>"

text \<open>The caller awaiting the result of a message whose vat is to be terminated.\<close>

fun terminated_result :: "'h crank_result option \<Rightarrow> loop_item \<Rightarrow> (string \<times> capdata) option" where
  "terminated_result (Some c) (Run (Send target m)) = (case (terminate c, result_ref (result m)) of
     (Some (_, _, info), Some r) \<Rightarrow> Some (r, info) | _ \<Rightarrow> None)"
| "terminated_result _ _ = None"

definition processCrankResult :: "'h host \<Rightarrow> 'h crank_result option \<Rightarrow> loop_item \<Rightarrow> ('h kq, unit) sm" where
  "processCrankResult H cr item =
     thn (whenM (is_abort cr)
           (thn (tryFinally (onStore (rollbackCrank (database H) ''delivery'')) no_rollback)
             (thn (modify (resolvedWithKernelSubscription_update (\<lambda>_. [])))
               (case terminated_result cr item of None \<Rightarrow> ret ()
                | Some (kpid, info) \<Rightarrow> settleKernelSubscription kpid True (Some info)))))
       (thn (case cr of None \<Rightarrow> ret ()
             | Some c \<Rightarrow>
                 thn (case terminate c of None \<Rightarrow> ret ()
                      | Some (vatId, _, info) \<Rightarrow> tryFinally (terminateVat H vatId (Some info)) no_rollback)
                   (whenM (irrevocable c) (modify no_rollback)))
         (thn (onStore collectGarbage)
           (bnd (gets deliveryRollbackAllowed) (\<lambda>auditBeforeFlush.
             thn (whenM auditBeforeFlush (onStore assertRefCountsIfAuditing))
               (thn (whenM (\<not> is_abort cr) flushBuffered)
                 (whenM (\<not> auditBeforeFlush) (onStore assertRefCountsIfAuditing)))))))"

type_synonym 'h deliver = "loop_item \<Rightarrow> ('h kq, 'h crank_result option) sm"

text \<open>What the crank does with the item it takes, or the wait for one.\<close>

definition take_delivery :: "'h host \<Rightarrow> 'h deliver \<Rightarrow> ('h kq, ('h kq, unit) sm option) sm" where
  "take_delivery H deliver = bnd getNextRunQueueItem (\<lambda>queueItem.
     case queueItem of
       Some item \<Rightarrow>
         thn (onStore nextTerminatedVatCleanup)
           (bnd (deliver item) (\<lambda>crankResult.
             thn (processCrankResult H crankResult item)
               (ret (if is_abort crankResult then None else Option.bind crankResult afterCommit))))
     | None \<Rightarrow> bnd (gets asleep) (\<lambda>a.
         thn (require (\<not> a) (Fail ''run queue already waiting to be woken'' []))
           (thn (modify (asleep_update (\<lambda>_. True))) (ret None))))"

definition crank_body :: "'h host \<Rightarrow> 'h deliver \<Rightarrow> ('h kq, ('h kq, unit) sm option) sm" where
  "crank_body H deliver =
     thn (onStore (createCrankSavepoint (database H) ''crank''))
       (thn (onStore (createCrankSavepoint (database H) ''delivery''))
         (tryCatch (take_delivery H deliver) (\<lambda>e.
           bnd (gets deliveryRollbackAllowed) (\<lambda>allowed.
             thn (whenM allowed (tryCatch (onStore (rollbackCrank (database H) ''delivery''))
                   (\<lambda>_. fail (JsError ''Run loop died and its crank could not be rolled back'' []))))
               (fail e)))))"

text \<open>The crank and its end: \<open>startCrank\<close> to \<open>#endCrank\<close>.\<close>

definition run_crank :: "'h host \<Rightarrow> 'h deliver \<Rightarrow> ('h kq, ('h kq, unit) sm option) sm" where
  "run_crank H deliver =
     thn (onStore startCrank)
       (thn (modify (deliveryRollbackAllowed_update (\<lambda>_. True)))
         (bnd (tryCatch (crank_body H deliver) (\<lambda>e.
                thn (tryCatch (onStore (endCrank (database H))) (\<lambda>_. fail (JsError ''Run loop died and its crank could not be ended'' [])))
                  (fail e)))
           (\<lambda>after. thn (onStore (endCrank (database H))) (ret after))))"

datatype turn = TurnDone | LoopEnded

text \<open>
  One turn of \<open>#runLoop\<close>. A turn that found nothing leaves the loop \<open>asleep\<close>: the next one runs
  once it has been woken. A held request that fails is reported after \<open>afterCommit\<close> has run and
  the control operation's caller has been told that its crank committed.
\<close>

definition run_turn :: "'h host \<Rightarrow> 'h deliver \<Rightarrow> ('h kq, turn) sm" where
  "run_turn H deliver =
     bnd (gets (\<lambda>k. ending k \<and> controlRequests k = [])) (\<lambda>done.
       if done then thn (modify (\<lambda>k. k\<lparr>runLoopState := Stopped, endResolved := True\<rparr>)) (ret LoopEnded)
       else bnd (run_crank H deliver) (\<lambda>after.
         bnd (tryCatch (thn (writeHeldRequests H) (ret None)) (\<lambda>e. ret (Some e))) (\<lambda>heldFailure.
           thn (case after of None \<Rightarrow> ret ()
                | Some f \<Rightarrow> tryCatch f (\<lambda>e. fail (if heldFailure = None then e
                    else JsError ''Run loop died writing a held request, and its crank failed after it committed'' [])))
             (bnd (gets controlInFlight) (\<lambda>control.
               thn (modify (controlInFlight_update (\<lambda>_. None)))
                 (thn (case control of None \<Rightarrow> ret () | Some (_, caller) \<Rightarrow> tell caller Settled)
                   (case heldFailure of Some e \<Rightarrow> fail e | None \<Rightarrow> ret TurnDone)))))))"

text \<open>The start of \<open>run\<close>, and a turn of it: the failure of one is the end of the run loop.\<close>

definition startRunLoop :: "('h kq, unit) sm" where
  "startRunLoop = bnd (gets runLoopState) (\<lambda>st.
     thn (require (st = Idle) (Fail ''run loop already started'' [])) (modify (runLoopState_update (\<lambda>_. Running))))"

definition run_step :: "'h host \<Rightarrow> 'h deliver \<Rightarrow> ('h kq, turn) sm" where
  "run_step H deliver = tryCatch (run_turn H deliver) (\<lambda>e. bnd (failRunLoop e) fail)"

end

