(* ===== verification/RunLoop.thy ===== *)
theory RunLoop
  imports KernelQueue
begin

text \<open>
  A crank of the run loop is all or nothing (\<open>run_crank\<close> of theory \<open>KernelQueue\<close> over the savepoints
  of theory \<open>Crank\<close>): the operations of the queue leave the crank's savepoints alone, so that the
  rollback of a delivery finds the one it was taken for, and a crank that dies before anything
  irrevocable was recorded leaves the database and the caches as it found them.
\<close>

section \<open>The queue's operations leave the savepoints alone\<close>

abbreviation kspares :: "('h kq, 'a) sm \<Rightarrow> bool" where
  "kspares \<equiv> spares (\<lambda>k. crank_part (kst k))"

lemma spares_onStore [frames]:
  assumes "frame m"
  shows "kspares (onStore m)"
proof (rule sparesI)
  fix k r k' assume run: "onStore m k = (r, k')"
  obtain q s where q: "m (kst k) = (q, s)" by fastforce
  then have "kst k' = s" using run by (auto simp: onStore_def)
  then show "crank_part (kst k') = crank_part (kst k)" using sparesD [OF assms q] by simp
qed

lemma spares_tell [frames]: "kspares (tell c a)"
  unfolding tell_def by (intro frames; auto)

lemma spares_wakeRunLoop [frames]: "kspares wakeRunLoop"
  unfolding wakeRunLoop_def by (intro frames; auto)

lemma spares_queueRun [frames]: "kspares (queueRun item)"
  unfolding queueRun_def by (intro frames; auto)

lemma spares_enqueueSend [frames]: "kspares (enqueueSend t m i)"
  unfolding enqueueSend_def by (intro frames; auto)

lemma spares_enqueueNotify [frames]: "kspares (enqueueNotify e p i)"
  unfolding enqueueNotify_def by (intro frames; auto)

lemma spares_settleKernelSubscription [frames]: "kspares (settleKernelSubscription p b v)"
  unfolding settleKernelSubscription_def by (intro frames; auto)

lemma spares_invokeKernelSubscription [frames]: "kspares (invokeKernelSubscription p)"
  unfolding invokeKernelSubscription_def by (intro frames; auto)

lemma spares_resolvePromises [frames]: "kspares (resolvePromises e rs i)"
  unfolding resolvePromises_def resolvePromise_def by (intro frames; auto)

lemma spares_flush_item [frames]: "kspares (flush_item item)"
  by (cases item) (simp_all add: frames)

lemma spares_flushBuffered [frames]: "kspares flushBuffered"
  unfolding flushBuffered_def by (intro frames; auto)

lemma spares_takeArrival [frames]: "kspares takeArrival"
  unfolding takeArrival_def by (intro frames; auto)

lemma spares_take_queued [frames]: "kspares take_queued"
  unfolding take_queued_def by (intro frames; auto)

lemma spares_getNextRunQueueItem [frames]: "kspares getNextRunQueueItem"
  unfolding getNextRunQueueItem_def by (intro frames; auto)

lemma spares_writeMessage [frames]: "kspares (writeMessage H t m c)"
  unfolding writeMessage_def by (intro frames; auto)

section \<open>Inside a crank\<close>

text \<open>
  The crank of a run loop over the rows \<open>d0\<close>: both savepoints taken; the delivery rolled back, with
  the crank's own savepoint left; and no savepoint left, the rows as they were or the connection refusing writes.
\<close>

definition opened :: "((string \<times> kdb) list \<Rightarrow> ctx \<Rightarrow> bool) \<Rightarrow> kdb \<Rightarrow> ctx \<Rightarrow> bool" where
  "opened taken d0 s \<longleftrightarrow> in_crank taken [d0, d0] s \<and> map fst (savepoints s) = [''crank'', ''delivery'']"

definition aborted :: "((string \<times> kdb) list \<Rightarrow> ctx \<Rightarrow> bool) \<Rightarrow> kdb \<Rightarrow> ctx \<Rightarrow> bool" where
  "aborted taken d0 s \<longleftrightarrow> in_crank taken [d0] s"

definition ruined :: "((string \<times> kdb) list \<Rightarrow> ctx \<Rightarrow> bool) \<Rightarrow> (ctx \<Rightarrow> bool) \<Rightarrow> kdb \<Rightarrow> ctx \<Rightarrow> bool" where
  "ruined taken refused d0 s \<longleftrightarrow> inCrank s \<and> savepoints s = [] \<and> (refused s \<or> taken [] s \<and> db s = d0 \<and> coherent s)"

text \<open>Whether the delivery was rolled back, after which the run loop may not roll it back again.\<close>

definition inside :: "((string \<times> kdb) list \<Rightarrow> ctx \<Rightarrow> bool) \<Rightarrow> kdb \<Rightarrow> bool \<Rightarrow> 'h kq \<Rightarrow> bool" where
  "inside taken d0 backed k \<longleftrightarrow>
     (if backed then aborted taken d0 (kst k) \<and> \<not> deliveryRollbackAllowed k else opened taken d0 (kst k))"

definition stays_backed :: "('h kq, 'a) sm \<Rightarrow> bool" where
  "stays_backed m \<longleftrightarrow> (\<forall>k. \<not> deliveryRollbackAllowed k \<longrightarrow> \<not> deliveryRollbackAllowed (snd (m k)))"

lemma stays_onStore [intro!]: "stays_backed (onStore m)"
  by (simp add: stays_backed_def onStore_def split_beta)

lemma stays_modify [intro!]:
  "(\<And>k. \<not> deliveryRollbackAllowed k \<Longrightarrow> \<not> deliveryRollbackAllowed (f k)) \<Longrightarrow> stays_backed (modify f)"
  by (simp add: stays_backed_def)

lemma stays_settle: "stays_backed (settleKernelSubscription kpid b v)"
  by (simp add: stays_backed_def settleKernelSubscription_def tell_def thn_run split: option.splits)

lemma stays_ret [intro!]: "stays_backed (ret x)"
  by (simp add: stays_backed_def)

lemma coherent_caches:
  assumes "coherent s" and "db s' = db s" and "cache s' = cache s" and "rqHead s' = rqHead s" and "rqTail s' = rqTail s"
    and "runQueueLengthCache s' = runQueueLengthCache s"
  shows "coherent s'"
  using assms by (cases "tget (qheads (db s)) ''run''"; cases "tget (qtails (db s)) ''run''")
    (simp_all add: coherent_def getQueueLength_def provided_def)

lemma kst_no_rollback [simp]: "kst (no_rollback k) = kst k"
  by (simp add: no_rollback_def)

lemma stays_no_rollback [intro!]: "stays_backed (tryFinally m no_rollback)"
  by (simp add: stays_backed_def tryFinally_def no_rollback_def split_beta)

context savepoint_store
begin

lemma inside_spared:
  assumes "kspares m" and "backed \<Longrightarrow> stays_backed m"
  shows "keeps (inside live d0 backed) m"
proof (rule hoareI)
  fix k x k' assume i: "inside live d0 backed k" and run: "m k = (Inr x, k')"
  have sp: "session (kst k') = session (kst k)" "savepoints (kst k') = savepoints (kst k)" "inCrank (kst k') = inCrank (kst k)"
    using sparesD [OF assms(1) run] by simp_all
  show "inside live d0 backed k'"
    using i assms(2) [unfolded stays_backed_def, rule_format, of k] worked [OF _ sp(1,2)] sp run
    by (auto simp: inside_def opened_def aborted_def in_crank_def split: if_splits intro: live_session)
next
  fix k e k' assume i: "inside live d0 backed k" and run: "m k = (Inl e, k')"
  have sp: "session (kst k') = session (kst k)" "savepoints (kst k') = savepoints (kst k)" "inCrank (kst k') = inCrank (kst k)"
    using sparesD [OF assms(1) run] by simp_all
  show "inside live d0 backed k'"
    using i assms(2) [unfolded stays_backed_def, rule_format, of k] sp run
    by (auto simp: inside_def opened_def aborted_def in_crank_def split: if_splits intro: live_session)
qed

text \<open>Rolling the delivery back.\<close>

lemma rollback_delivery:
  assumes o: "opened live d0 s" and run: "rollbackCrank kd ''delivery'' s = (r, s')"
  shows "case r of Inr _ \<Rightarrow> aborted live d0 s' \<and> db s' = d0 \<and> coherent s' | Inl _ \<Rightarrow> ruined live refused d0 s'"
proof -
  obtain a b where sp: "savepoints s = [(''crank'', a)] @ (''delivery'', b) # []"
    using o by (auto simp: opened_def map_eq_Cons_conv)
  from o have ic: "in_crank live ([d0] @ d0 # []) s" by (simp add: opened_def)
  from rollback_crank [OF ic sp _ _ run] show ?thesis
    by (cases r) (auto simp: aborted_def ruined_def in_crank_def)
qed

lemma abort_step:
  assumes "database H = kd"
  shows "hoare (inside live d0 False) (tryFinally (onStore (rollbackCrank (database H) ''delivery'')) no_rollback)
    (\<lambda>_. inside live d0 True) (\<lambda>_ k. ruined live refused d0 (kst k) \<and> \<not> deliveryRollbackAllowed k)"
proof (rule hoareI)
  fix k x k' assume i: "inside live d0 False k"
    and run: "tryFinally (onStore (rollbackCrank (database H) ''delivery'')) no_rollback k = (Inr x, k')"
  obtain q s where q: "rollbackCrank kd ''delivery'' (kst k) = (q, s)" by fastforce
  from run q have "q = Inr x" "kst k' = s" "\<not> deliveryRollbackAllowed k'"
    by (auto simp: assms tryFinally_def onStore_def no_rollback_def)
  then show "inside live d0 True k'" using rollback_delivery [OF _ q] i by (simp add: inside_def)
next
  fix k e k' assume i: "inside live d0 False k"
    and run: "tryFinally (onStore (rollbackCrank (database H) ''delivery'')) no_rollback k = (Inl e, k')"
  obtain q s where q: "rollbackCrank kd ''delivery'' (kst k) = (q, s)" by fastforce
  from run q have "q = Inl e" "kst k' = s" "\<not> deliveryRollbackAllowed k'"
    by (auto simp: assms tryFinally_def onStore_def no_rollback_def)
  then show "ruined live refused d0 (kst k') \<and> \<not> deliveryRollbackAllowed k'" using rollback_delivery [OF _ q] i by (simp add: inside_def)
qed

text \<open>What the crank's result leads to, and the crank's delivery.\<close>

definition left :: "kdb \<Rightarrow> 'h kq \<Rightarrow> bool" where
  "left d0 k \<longleftrightarrow> inside live d0 True k \<or> inside live d0 False k \<or> ruined live refused d0 (kst k) \<and> \<not> deliveryRollbackAllowed k"

lemma inside_left: "inside live d0 b k \<Longrightarrow> left d0 k"
  by (cases b) (simp_all add: left_def)

lemma keeps_inside:
  assumes "kspares m" and "b \<Longrightarrow> stays_backed m"
  shows "hoare (inside live d0 b) m (\<lambda>_. inside live d0 b) (\<lambda>_. left d0)"
  by (rule hoare_conseq [OF inside_spared [OF assms]]) (auto intro: inside_left)

lemma process_result:
  assumes kd: "database H = kd" and tv: "\<And>v x. kspares (terminateVat H v x)"
  shows "hoare (inside live d0 False) (processCrankResult H cr item) (\<lambda>_. inside live d0 (is_abort cr)) (\<lambda>_. left d0)"
proof -
  let ?i = "inside live d0 (is_abort cr)"
  have 1: "hoare (inside live d0 False) (whenM (is_abort cr)
       (thn (tryFinally (onStore (rollbackCrank (database H) ''delivery'')) no_rollback)
         (thn (modify (resolvedWithKernelSubscription_update (\<lambda>_. [])))
           (case terminated_result cr item of None \<Rightarrow> ret ()
            | Some (kpid, info) \<Rightarrow> settleKernelSubscription kpid True (Some info))))) (\<lambda>_. ?i) (\<lambda>_. left d0)"
  proof (cases "is_abort cr")
    case False
    then show ?thesis by (auto intro: hoare_whenM)
  next
    case True
    have a: "hoare (inside live d0 False) (tryFinally (onStore (rollbackCrank (database H) ''delivery'')) no_rollback)
        (\<lambda>_. inside live d0 True) (\<lambda>_. left d0)"
      by (rule hoare_conseq [OF abort_step [OF kd]]) (auto simp: left_def)
    have m: "hoare (inside live d0 True) (modify (resolvedWithKernelSubscription_update (\<lambda>_. []))) (\<lambda>_. inside live d0 True) (\<lambda>_. left d0)"
      by (rule keeps_inside) (auto intro!: frames)
    have t: "hoare (inside live d0 True) (case terminated_result cr item of None \<Rightarrow> ret ()
        | Some (kpid, info) \<Rightarrow> settleKernelSubscription kpid True (Some info)) (\<lambda>_. inside live d0 True) (\<lambda>_. left d0)"
      by (rule keeps_inside) (auto intro!: frames stays_settle simp: stays_backed_def split: option.splits
          dest: stays_settle [unfolded stays_backed_def, rule_format])
    show ?thesis unfolding whenM_def using True hoare_thn [OF a hoare_thn [OF m t]] by simp
  qed
  have 2: "hoare ?i (case cr of None \<Rightarrow> ret ()
       | Some c \<Rightarrow> thn (case terminate c of None \<Rightarrow> ret () | Some (vatId, _, info) \<Rightarrow> tryFinally (terminateVat H vatId (Some info)) no_rollback)
           (whenM (irrevocable c) (modify no_rollback))) (\<lambda>_. ?i) (\<lambda>_. left d0)"
  proof (cases cr)
    case None
    then show ?thesis by (auto intro!: keeps_inside frames)
  next
    case (Some c)
    have a: "hoare ?i (case terminate c of None \<Rightarrow> ret () | Some (vatId, _, info) \<Rightarrow> tryFinally (terminateVat H vatId (Some info)) no_rollback)
        (\<lambda>_. ?i) (\<lambda>_. left d0)"
      by (rule keeps_inside) (auto intro!: frames tv split: option.splits)
    have b: "hoare ?i (whenM (irrevocable c) (modify no_rollback)) (\<lambda>_. ?i) (\<lambda>_. left d0)"
      by (rule keeps_inside) (auto intro!: frames simp: no_rollback_def stays_backed_def)
    show ?thesis using hoare_thn [OF a b] Some by simp
  qed
  have 3: "hoare ?i (onStore collectGarbage) (\<lambda>_. ?i) (\<lambda>_. left d0)"
    by (rule keeps_inside) (auto intro!: frames)
  have 4: "hoare ?i (bnd (gets deliveryRollbackAllowed) (\<lambda>au. thn (whenM au (onStore assertRefCountsIfAuditing))
        (thn (whenM (\<not> is_abort cr) flushBuffered) (whenM (\<not> au) (onStore assertRefCountsIfAuditing))))) (\<lambda>_. ?i) (\<lambda>_. left d0)"
  proof (rule keeps_inside)
    assume "is_abort cr"
    then show "stays_backed (bnd (gets deliveryRollbackAllowed) (\<lambda>au. thn (whenM au (onStore assertRefCountsIfAuditing))
        (thn (whenM (\<not> is_abort cr) flushBuffered) (whenM (\<not> au) (onStore assertRefCountsIfAuditing)))))"
      by (auto simp: stays_backed_def thn_run onStore_def split: prod.splits sum.splits)
  qed (intro frames)
  show ?thesis unfolding processCrankResult_def by (rule hoare_thn [OF 1 hoare_thn [OF 2 hoare_thn [OF 3 4]]])
qed

lemma delivery_inside:
  assumes kd: "database H = kd" and tv: "\<And>v x. kspares (terminateVat H v x)" and dl: "\<And>i. kspares (deliver i)"
  shows "hoare (inside live d0 False) (take_delivery H deliver) (\<lambda>_. left d0) (\<lambda>_. left d0)"
proof -
  have 1: "hoare (inside live d0 False) getNextRunQueueItem (\<lambda>_. inside live d0 False) (\<lambda>_. left d0)"
    by (rule keeps_inside) (auto intro!: frames)
  have 2: "hoare (inside live d0 False) (onStore nextTerminatedVatCleanup) (\<lambda>_. inside live d0 False) (\<lambda>_. left d0)"
    by (rule keeps_inside) (auto intro!: frames)
  have 3: "hoare (inside live d0 False) (deliver i) (\<lambda>_. inside live d0 False) (\<lambda>_. left d0)" for i
    by (rule keeps_inside) (auto intro!: dl)
  have 4: "hoare (inside live d0 False) (bnd (gets asleep) (\<lambda>a. thn (require (\<not> a) e) (thn (modify (asleep_update (\<lambda>_. True))) (ret x))))
      (\<lambda>_. inside live d0 False) (\<lambda>_. left d0)" for e and x :: 'b
    by (rule keeps_inside) (auto intro!: frames)
  have 5: "hoare (inside live d0 False) (thn (processCrankResult H cr i) (ret x)) (\<lambda>_. left d0) (\<lambda>_. left d0)" for cr i and x :: 'b
    by (rule hoare_thn [OF process_result [OF kd tv]], rule hoare_pre [OF hoare_ret]) (auto intro: inside_left)
  show ?thesis unfolding take_delivery_def
  proof (rule hoare_bnd [OF 1])
    fix q
    show "hoare (inside live d0 False) (case q of
        Some item \<Rightarrow> thn (onStore nextTerminatedVatCleanup) (bnd (deliver item) (\<lambda>cr. thn (processCrankResult H cr item)
          (ret (if is_abort cr then None else Option.bind cr afterCommit))))
      | None \<Rightarrow> bnd (gets asleep) (\<lambda>a. thn (require (\<not> a) (Fail ''run queue already waiting to be woken'' []))
          (thn (modify (asleep_update (\<lambda>_. True))) (ret None)))) (\<lambda>_. left d0) (\<lambda>_. left d0)"
    proof (cases q)
      case None
      show ?thesis unfolding None option.case by (rule hoare_conseq [OF 4]) (auto intro: inside_left)
    next
      case (Some i)
      then show ?thesis using hoare_thn [OF 2 hoare_bnd [OF 3 5]] by simp
    qed
  qed
qed

text \<open>What a crank leaves behind for its end: what its failure may have undone is undone.\<close>

definition settled :: "kdb \<Rightarrow> ctx \<Rightarrow> bool" where
  "settled d0 s \<longleftrightarrow> aborted live d0 s \<and> db s = d0 \<and> coherent s \<or> ruined live refused d0 s"

definition unwound :: "kdb \<Rightarrow> 'h kq \<Rightarrow> bool" where
  "unwound d0 k \<longleftrightarrow> (deliveryRollbackAllowed k \<longrightarrow> settled d0 (kst k)) \<and>
     (opened live d0 (kst k) \<or> aborted live d0 (kst k) \<or> ruined live refused d0 (kst k))"

lemma unwind:
  assumes kd: "database H = kd" and l: "left d0 k"
  shows "\<exists>e' k'. bnd (gets deliveryRollbackAllowed) (\<lambda>allowed.
      thn (whenM allowed (tryCatch (onStore (rollbackCrank (database H) ''delivery'')) (\<lambda>_. fail f))) (fail e)) k = (Inl e', k') \<and> unwound d0 k'"
proof (cases "deliveryRollbackAllowed k")
  case False
  then show ?thesis using l by (auto simp: thn_run unwound_def left_def inside_def)
next
  case True
  then have o: "opened live d0 (kst k)" using l by (auto simp: left_def inside_def)
  obtain q s where q: "rollbackCrank kd ''delivery'' (kst k) = (q, s)" by fastforce
  note rb = rollback_delivery [OF o q]
  have "unwound d0 (k\<lparr>kst := s\<rparr>)" using rb by (cases q) (auto simp: unwound_def settled_def)
  then show ?thesis using True q kd by (cases q) (simp_all add: thn_run tryCatch_def onStore_def)
qed

lemma end_ruined:
  assumes c: "ruined live refused d0 s" and run: "endCrank kd s = (r, s')"
  shows "\<not> inCrank s' \<and> savepoints s' = [] \<and> (refused s' \<or> live [] s' \<and> db s' = d0 \<and> coherent s')"
proof (cases "refused s")
  case True
  then show ?thesis using end_refused_crank [OF _ True run] c by (simp add: ruined_def)
next
  case False
  then have "s' = s\<lparr>inCrank := False\<rparr>" "live [] s" "db s = d0" "coherent s" "savepoints s = []"
    using c run by (auto simp: ruined_def endCrank_def releaseAllSavepoints_def tryFinally_def thn_run)
  then show ?thesis using live_session [of "[]" s s'] coherent_settle by simp
qed

lemma end_inside:
  assumes ic: "in_crank live (d0 # ds) s" and run: "endCrank kd s = (r, s')"
  shows "\<not> inCrank s' \<and> savepoints s' = [] \<and> (refused s' \<or> live [] s' \<and>
    ((\<exists>e. r = Inl e) \<or> db s = d0 \<and> coherent s \<longrightarrow> db s' = d0 \<and> coherent s'))"
proof (cases r)
  case (Inl e)
  then show ?thesis using end_crank [OF ic run] by auto
next
  case (Inr u)
  then obtain ss where "live [] s'" and s': "s' = s\<lparr>session := ss, inCrank := False, savepoints := []\<rparr>"
    using end_crank [OF ic run] by auto
  moreover have "coherent s \<Longrightarrow> coherent s'" by (erule coherent_caches) (simp_all add: s')
  ultimately show ?thesis using Inr by simp
qed

lemma end_any:
  assumes "opened live d0 s \<or> aborted live d0 s \<or> ruined live refused d0 s" and "endCrank kd s = (r, s')"
  shows "\<not> inCrank s' \<and> savepoints s' = [] \<and> (refused s' \<or> live [] s' \<and>
    ((\<exists>e. r = Inl e) \<or> settled d0 s \<longrightarrow> db s' = d0 \<and> coherent s'))"
proof (cases "ruined live refused d0 s")
  case True
  then show ?thesis using end_ruined [OF True assms(2)] by blast
next
  case False
  then obtain ds where "in_crank live (d0 # ds) s" using assms(1) unfolding opened_def aborted_def by blast
  from end_inside [OF this assms(2)] False show ?thesis by (auto simp: settled_def)
qed

lemma create_coherent:
  assumes "coherent s" and run: "createCrankSavepoint kd n s = (r, s')" and "db s' = db s"
  shows "coherent s'"
proof -
  obtain q t where k: "kd_create kd (save_name (length (savepoints s))) s = (q, t)" by fastforce
  obtain d ss where t: "t = s\<lparr>db := d, session := ss\<rparr>" using create_frame [OF k] by blast
  have "inCrank s \<Longrightarrow> s' = t \<or> s' = t\<lparr>savepoints := savepoints t @ [(n, maybeFreeKrefs t)]\<rparr>" "\<not> inCrank s \<Longrightarrow> s' = s"
    using run k by (auto simp: createCrankSavepoint_def thn_run split: sum.splits)
  then show ?thesis by (cases "inCrank s") (intro coherent_caches [OF assms(1,3)]; auto simp: t)+
qed

lemma run_crank_atomic:
  assumes kd: "database H = kd" and tv: "\<And>v x. kspares (terminateVat H v x)" and dl: "\<And>i. kspares (deliver i)"
    and wf: "live [] (kst k)" "coherent (kst k)" "savepoints (kst k) = []" "\<not> inCrank (kst k)"
    and run: "run_crank H deliver k = (r, k')"
  shows "\<not> inCrank (kst k') \<and> savepoints (kst k') = [] \<and> (refused (kst k') \<or> live [] (kst k') \<and>
    ((\<exists>e. r = Inl e) \<and> deliveryRollbackAllowed k' \<longrightarrow> db (kst k') = db (kst k) \<and> coherent (kst k')))"
proof -
  let ?d0 = "db (kst k)" and ?s = "(kst k)\<lparr>inCrank := True\<rparr>"
  let ?k = "k\<lparr>kst := ?s, deliveryRollbackAllowed := True\<rparr>"
  let ?fin = "\<lambda>q. case q of (Inl e, k1) \<Rightarrow>
      thn (tryCatch (onStore (endCrank kd)) (\<lambda>_. fail (JsError ''Run loop died and its crank could not be ended'' []))) (fail e) k1
    | (Inr after, k1) \<Rightarrow> thn (onStore (endCrank kd)) (ret after) k1"
  have st: "startCrank (kst k) = (Inr (), ?s)" using wf(4) by (simp add: startCrank_def)
  have pv: "provided ?d0" using wf(2) by (simp add: coherent_def)
  have red: "run_crank H deliver k = ?fin (crank_body H deliver ?k)"
    using st kd by (auto simp: run_crank_def onStore_def thn_run bnd_run tryCatch_def split: prod.splits sum.splits)
  have fin: "kst k' = snd (endCrank kd (kst k1)) \<and> deliveryRollbackAllowed k' = deliveryRollbackAllowed k1 \<and>
      ((\<exists>e. r = Inl e) \<longleftrightarrow> (\<exists>e. q = Inl e) \<or> (\<exists>e. fst (endCrank kd (kst k1)) = Inl e))"
    if b: "crank_body H deliver ?k = (q, k1)" for q k1
    using run red b by (cases q; cases "endCrank kd (kst k1)"; cases "fst (endCrank kd (kst k1))")
      (auto simp: onStore_def thn_run tryCatch_def split: prod.splits sum.splits)
  have c0: "in_crank live [] ?s" using wf live_session [OF wf(1), of ?s] by (simp add: in_crank_def)
  have co: "coherent ?s" by (rule coherent_caches [OF wf(2)]) simp_all
  obtain q1 s1 where cr1: "createCrankSavepoint kd ''crank'' ?s = (q1, s1)" by fastforce
  show ?thesis
  proof (cases q1)
    case (Inl e)
    then have b: "crank_body H deliver ?k = (Inl e, ?k\<lparr>kst := s1\<rparr>)" using cr1 kd by (simp add: crank_body_def onStore_def)
    from create_crank_err [OF c0] cr1 Inl have i: "inCrank s1" "savepoints s1 = []" "in_crank live [] s1 \<and> db s1 = ?d0 \<or> refused s1"
      using wf(3) by auto
    obtain q s' where en: "endCrank kd s1 = (q, s')" by fastforce
    have s': "s' = s1\<lparr>inCrank := False\<rparr>" using en i by (simp add: endCrank_def releaseAllSavepoints_def tryFinally_def thn_run)
    note fr = create_coherent [OF co cr1]
    show ?thesis using fin [OF b] en s' i fr live_session [of "[]" s1 s'] refused_session [of s1 s'] coherent_settle [of s1 False]
      by (auto simp: in_crank_def)
  next
    case (Inr u)
    from create_crank [OF c0 _ cr1 [unfolded Inr]] pv
    have c1: "in_crank live [?d0] s1" "db s1 = ?d0" "map fst (savepoints s1) = [''crank'']" using wf(3) by simp_all
    obtain q2 s2 where cr2: "createCrankSavepoint kd ''delivery'' s1 = (q2, s2)" by fastforce
    show ?thesis
    proof (cases q2)
      case (Inl e)
      then have b: "crank_body H deliver ?k = (Inl e, ?k\<lparr>kst := s2\<rparr>)" using cr1 cr2 Inr kd by (simp add: crank_body_def onStore_def)
      from create_crank_err [OF c1(1)] cr2 Inl have i: "inCrank s2" "savepoints s2 = savepoints s1"
        and alt: "in_crank live [?d0] s2 \<and> db s2 = ?d0 \<or> lost (saves_from 0 [?d0]) s2 \<or> refused s2" using c1(2) by auto
      obtain q s' where en: "endCrank kd s2 = (q, s')" by fastforce
      obtain p ps where sp: "savepoints s2 = p # ps" using i c1(3) by (auto simp: map_eq_Cons_conv)
      have "\<not> inCrank s' \<and> savepoints s' = [] \<and> (refused s' \<or> live [] s' \<and> db s' = ?d0 \<and> coherent s')"
      proof (cases "refused s2")
        case True
        then show ?thesis using end_refused_crank [OF i(1) _ en] by simp
      next
        case False
        show ?thesis
        proof (cases "lost (saves_from 0 [?d0]) s2")
          case True
          then show ?thesis using end_lost_crank [OF i(1) sp True pv en] by simp
        next
          case f: False
          then have "in_crank live [?d0] s2" "db s2 = ?d0" using alt False by simp_all
          moreover have "coherent s2" by (rule create_coherent [OF create_coherent [OF co cr1] cr2]) (use \<open>db s2 = ?d0\<close> c1(2) in simp_all)
          ultimately show ?thesis using end_any [of ?d0 s2, OF _ en] by (simp add: aborted_def settled_def)
        qed
      qed
      then show ?thesis using fin [OF b] en by auto
    next
      case (Inr v)
      from create_crank [OF c1(1) _ cr2 [unfolded Inr]] pv c1
      have o: "opened live ?d0 s2" by (simp add: opened_def)
      let ?k2 = "?k\<lparr>kst := s2\<rparr>"
      obtain q k3 where td: "take_delivery H deliver ?k2 = (q, k3)" by fastforce
      have o2: "inside live ?d0 False ?k2" using o by (simp add: inside_def)
      have l: "left ?d0 k3"
      proof (cases q)
        case (Inl e)
        show ?thesis by (rule hoareD_err [OF delivery_inside [OF kd tv dl] o2 td [unfolded Inl]])
      next
        case (Inr x)
        show ?thesis by (rule hoareD [OF delivery_inside [OF kd tv dl] o2 td [unfolded Inr]])
      qed
      have body: "crank_body H deliver ?k = (case q of Inr a \<Rightarrow> (Inr a, k3) | Inl e \<Rightarrow> bnd (gets deliveryRollbackAllowed) (\<lambda>allowed.
          thn (whenM allowed (tryCatch (onStore (rollbackCrank (database H) ''delivery''))
            (\<lambda>_. fail (JsError ''Run loop died and its crank could not be rolled back'' [])))) (fail e)) k3)"
        using cr1 cr2 \<open>q1 = Inr u\<close> Inr kd td by (cases q) (simp_all add: crank_body_def onStore_def tryCatch_def thn_run)
      show ?thesis
      proof (cases q)
        case (Inr a)
        then have b: "crank_body H deliver ?k = (Inr a, k3)" using body by simp
        obtain q' s' where en: "endCrank kd (kst k3) = (q', s')" by fastforce
        have "opened live ?d0 (kst k3) \<or> aborted live ?d0 (kst k3) \<or> ruined live refused ?d0 (kst k3)"
          using l by (auto simp: left_def inside_def)
        from end_any [OF this en] show ?thesis using fin [OF b] en by auto
      next
        case (Inl e)
        then obtain e' k4 where b: "crank_body H deliver ?k = (Inl e', k4)" and w: "unwound ?d0 k4" using body unwind [OF kd l] by fastforce
        obtain q' s' where en: "endCrank kd (kst k4) = (q', s')" by fastforce
        from end_any [OF _ en, of ?d0] w show ?thesis using fin [OF b] en by (auto simp: unwound_def)
      qed
    qed
  qed
qed

end

section \<open>Properties\<close>

definition demo_host :: "unit host" where
  "demo_host = \<lparr>database = demo_db True, kserError = (\<lambda>m. \<lparr>body = m, slots = []\<rparr>), terminateVat = (\<lambda>_ _. ret ())\<rparr>"

text \<open>
  C9. A crank of the run loop is all or nothing, whatever the delivery does to the store: when it is
  over no savepoint is left and no transaction is open, and if it died while its delivery could still be rolled
  back, the rows and the caches are as they were before it. Else the connection refuses all further writes.
\<close>

theorem run_crank_all_or_nothing:
  assumes "savepoint_store (database H) taken lost refused"
    and "\<And>v x. kspares (terminateVat H v x)" and "\<And>i. kspares (deliver i)"
    and "taken [] (kst k)" and "coherent (kst k)" and "savepoints (kst k) = []" and "\<not> inCrank (kst k)"
    and "run_crank H deliver k = (r, k')"
  shows "\<not> inCrank (kst k') \<and> savepoints (kst k') = [] \<and> (refused (kst k') \<or> taken [] (kst k') \<and>
    ((\<exists>e. r = Inl e) \<and> deliveryRollbackAllowed k' \<longrightarrow> db (kst k') = db (kst k) \<and> coherent (kst k')))"
  using savepoint_store.run_crank_atomic [OF assms(1) refl assms(2-)] .

theorem run_crank_all_or_nothing_witness:
  "\<exists>r k'. run_crank demo_host (\<lambda>_. thn (onStore demo_work) (fail (JsError ''boom'' []))) (makeKernelQueue demo_start ()) = (r, k') \<and>
    savepoints (kst k') = [] \<and> (r = Inr None \<or> (\<exists>f. r = Inr (Some f)) \<or> sql_refused (kst k') \<or> \<not> deliveryRollbackAllowed k' \<or> db (kst k') = db demo_start)"
proof -
  let ?d = "\<lambda>_ :: loop_item. thn (onStore demo_work) (fail (JsError ''boom'' [])) :: (unit kq, unit crank_result option) sm"
  obtain r k' where r: "run_crank demo_host ?d (makeKernelQueue demo_start ()) = (r, k')" by fastforce
  have h: "savepoint_store (database demo_host) (sql_live (\<lambda>st. if st = SCommit \<and> \<not> True then FailsEnding else Works))
      (sql_lost (\<lambda>st. if st = SCommit \<and> \<not> True then FailsEnding else Works)) sql_refused"
    using sql.savepoint_store_axioms by (simp add: demo_host_def demo_db_def)
  have t: "kspares (terminateVat demo_host v x)" for v x by (simp add: demo_host_def spares_ret)
  have d: "kspares (?d i)" for i unfolding demo_work_def by (intro frames; auto)
  have w: "kst (makeKernelQueue demo_start ()) = demo_start" by (simp add: makeKernelQueue_def)
  note p = run_crank_all_or_nothing [OF h t d _ _ _ _ r, unfolded w, OF idle_live [OF new_store_fields(1)] new_store_fields(4,2,3)]
  show ?thesis
  proof (cases r)
    case (Inl e)
    then show ?thesis using p r by auto
  next
    case (Inr x)
    then show ?thesis using p r by (cases x) auto
  qed
qed

end
