(* ===== verification/Arrivals.thy ===== *)
theory Arrivals
  imports KernelQueue
begin

text \<open>
  What waits for the run loop: the arrivals from peers are bounded per remote, without copies, and
  wait behind at most one restart of their peer; and the run loop takes arrivals and the run
  queue's items in turns, so that neither holds the other up.
\<close>

section \<open>The arrivals\<close>

definition arrivals_ok :: "(string \<Rightarrow> string \<Rightarrow> int) \<Rightarrow> arrival list \<Rightarrow> bool" where
  "arrivals_ok high arr \<longleftrightarrow>
     (\<forall>r p. distinct (held_seqs r p (high r p) arr) \<and> length (held_seqs r p (high r p) arr) \<le> MAX_ARRIVALS_PER_REMOTE) \<and>
     (\<forall>p. length (filter (is_restart p) arr) \<le> 1) \<and> list_all (\<lambda>a. taken_ahead a \<le> MAX_ARRIVALS_PER_REMOTE) arr"

lemma held_seqs_simps [simp]:
  "held_seqs r p h [] = []"
  "held_seqs r p h (a # arr) = (case seq_held r p h a of None \<Rightarrow> held_seqs r p h arr | Some s \<Rightarrow> s # held_seqs r p h arr)"
  "held_seqs r p h (xs @ ys) = held_seqs r p h xs @ held_seqs r p h ys"
  by (simp_all add: held_seqs_def List.map_filter_simps List.map_filter_def split: option.splits)

lemma waitingRestart_None: "find (is_restart p) arr = None \<longleftrightarrow> filter (is_restart p) arr = []"
  by (auto simp: find_None_iff filter_empty_conv)

text \<open>An arrival put ahead of a waiting restart.\<close>

lemma put_ahead_seqs:
  assumes "find (is_restart q) arr \<noteq> None"
  shows "mset (held_seqs r p h (put_ahead q (RemoteInbound r' p' s m) arr)) = mset (held_seqs r p h (RemoteInbound r' p' s m # arr))"
  using assms
proof (induction q "RemoteInbound r' p' s m" arr rule: put_ahead.induct)
  case (2 q p1 i b n xs)
  then show ?case by (auto simp: is_restart_def split: option.splits if_splits)
qed (auto simp: is_restart_def split: option.splits if_splits)

lemma put_ahead_restarts:
  "map (is_restart x) (filter (is_restart x) (put_ahead q (RemoteInbound r p s m) arr)) = map (is_restart x) (filter (is_restart x) arr)"
  by (induction q "RemoteInbound r p s m" arr rule: put_ahead.induct) (auto simp: is_restart_def)

lemma put_ahead_taken:
  assumes "list_all (\<lambda>a. taken_ahead a \<le> n) arr" and "find (is_restart q) arr = Some w" and "Suc (taken_ahead w) \<le> n"
  shows "list_all (\<lambda>a. taken_ahead a \<le> n) (put_ahead q (RemoteInbound r p s m) arr)"
  using assms by (induction q "RemoteInbound r p s m" arr rule: put_ahead.induct) (auto simp: is_restart_def split: if_splits)

lemma replace_seqs: "held_seqs r p h (replace_incarnation q i arr) = held_seqs r p h arr"
  by (induction q i arr rule: replace_incarnation.induct) (auto split: option.splits)

lemma replace_restarts: "length (filter (is_restart x) (replace_incarnation q i arr)) = length (filter (is_restart x) arr)"
  by (induction q i arr rule: replace_incarnation.induct) (auto simp: is_restart_def)

lemma replace_taken: "list_all (\<lambda>a. taken_ahead a \<le> n) (replace_incarnation q i arr) = list_all (\<lambda>a. taken_ahead a \<le> n) arr"
  by (induction q i arr rule: replace_incarnation.induct) auto

lemma arrivals_ok_add:
  assumes ok: "arrivals_ok high arr"
    and seqs: "\<And>r' p'. mset (held_seqs r' p' (high r' p') arr') = mset (held_seqs r' p' (high r' p') (RemoteInbound r p s m # arr))"
    and rest: "\<And>x. length (filter (is_restart x) arr') = length (filter (is_restart x) arr)"
    and taken: "list_all (\<lambda>a. taken_ahead a \<le> MAX_ARRIVALS_PER_REMOTE) arr'"
    and new: "s \<notin> set (held_seqs r p (high r p) arr)" "length (held_seqs r p (high r p) arr) < MAX_ARRIVALS_PER_REMOTE"
  shows "arrivals_ok high arr'"
proof -
  have "distinct (held_seqs r' p' (high r' p') (RemoteInbound r p s m # arr)) \<and>
      length (held_seqs r' p' (high r' p') (RemoteInbound r p s m # arr)) \<le> MAX_ARRIVALS_PER_REMOTE" for r' p'
    using ok new by (auto simp: arrivals_ok_def split: option.splits if_splits)
  moreover have "distinct (held_seqs r' p' (high r' p') arr') = distinct (held_seqs r' p' (high r' p') (RemoteInbound r p s m # arr))"
    "length (held_seqs r' p' (high r' p') arr') = length (held_seqs r' p' (high r' p') (RemoteInbound r p s m # arr))" for r' p'
    using mset_eq_imp_distinct_iff [OF seqs] mset_eq_length [OF seqs] by blast+
  ultimately show ?thesis using ok rest taken by (simp add: arrivals_ok_def)
qed

lemma accept_ok:
  assumes ok: "arrivals_ok high (arrivedFromRemotes k)" and run: "acceptRemoteInbound r p s m (high r p) k = (x, k')"
  shows "arrivals_ok high (arrivedFromRemotes k')"
proof -
  let ?arr = "arrivedFromRemotes k" and ?a = "RemoteInbound r p s m"
  have "arrivedFromRemotes k' = ?arr \<or> s \<notin> set (held_seqs r p (high r p) ?arr) \<and>
      length (held_seqs r p (high r p) ?arr) < MAX_ARRIVALS_PER_REMOTE \<and>
      (find (is_restart p) ?arr = None \<and> arrivedFromRemotes k' = ?arr @ [?a] \<or>
       (\<exists>w. find (is_restart p) ?arr = Some w \<and> Suc (taken_ahead w) \<le> MAX_ARRIVALS_PER_REMOTE \<and> arrivedFromRemotes k' = put_ahead p ?a ?arr))"
    using run by (auto simp: acceptRemoteInbound_def assertRunLoopAlive_def waitingRestart_def wakeRunLoop_def thn_run Let_def
        split: run_loop_state.splits if_splits option.splits)
  then show ?thesis
  proof (elim disjE conjE exE)
    assume "arrivedFromRemotes k' = ?arr @ [?a]" and new: "s \<notin> set (held_seqs r p (high r p) ?arr)"
      "length (held_seqs r p (high r p) ?arr) < MAX_ARRIVALS_PER_REMOTE"
    then show ?thesis using ok
      by (intro arrivals_ok_add [OF ok _ _ _ new]) (auto simp: arrivals_ok_def is_restart_def split: option.splits)
  next
    fix w assume f: "find (is_restart p) ?arr = Some w" and t: "Suc (taken_ahead w) \<le> MAX_ARRIVALS_PER_REMOTE"
      and e: "arrivedFromRemotes k' = put_ahead p ?a ?arr"
      and new: "s \<notin> set (held_seqs r p (high r p) ?arr)" "length (held_seqs r p (high r p) ?arr) < MAX_ARRIVALS_PER_REMOTE"
    show ?thesis unfolding e
    proof (rule arrivals_ok_add [OF ok _ _ _ new])
      show "mset (held_seqs r' p' (high r' p') (put_ahead p ?a ?arr)) = mset (held_seqs r' p' (high r' p') (?a # ?arr))" for r' p'
        by (rule put_ahead_seqs) (simp add: f)
      show "length (filter (is_restart x) (put_ahead p ?a ?arr)) = length (filter (is_restart x) ?arr)" for x
        using arg_cong [OF put_ahead_restarts, of length] by simp
      show "list_all (\<lambda>a. taken_ahead a \<le> MAX_ARRIVALS_PER_REMOTE) (put_ahead p ?a ?arr)"
        by (rule put_ahead_taken [OF _ f t]) (use ok in \<open>simp add: arrivals_ok_def\<close>)
    qed
  qed (use ok in simp)
qed

lemma incarnation_ok:
  assumes ok: "arrivals_ok high (arrivedFromRemotes k)" and run: "acceptPeerIncarnation p i b k = (x, k')"
  shows "arrivals_ok high (arrivedFromRemotes k')"
proof -
  let ?arr = "arrivedFromRemotes k"
  have "arrivedFromRemotes k' = ?arr \<or> (\<not> b \<or> find (is_restart p) ?arr = None) \<and> arrivedFromRemotes k' = ?arr @ [PeerIncarnation p i b 0] \<or>
      arrivedFromRemotes k' = replace_incarnation p i ?arr"
    using run by (auto simp: acceptPeerIncarnation_def assertRunLoopAlive_def waitingRestart_def wakeRunLoop_def thn_run
        split: run_loop_state.splits if_splits)
  then show ?thesis
  proof (elim disjE conjE)
    assume "arrivedFromRemotes k' = replace_incarnation p i ?arr"
    then show ?thesis using ok by (simp add: arrivals_ok_def replace_seqs replace_restarts replace_taken)
  qed (use ok in \<open>auto simp: arrivals_ok_def waitingRestart_None is_restart_def MAX_ARRIVALS_PER_REMOTE_def\<close>)
qed

lemma filter_sub_ok:
  assumes "arrivals_ok high (xs @ ys)"
  shows "arrivals_ok high ys"
  unfolding arrivals_ok_def
proof (intro conjI allI)
  fix r p
  show "distinct (held_seqs r p (high r p) ys)" "length (held_seqs r p (high r p) ys) \<le> MAX_ARRIVALS_PER_REMOTE"
    using assms [unfolded arrivals_ok_def, THEN conjunct1, rule_format, of r p] by simp_all
next
  fix p
  show "length (filter (is_restart p) ys) \<le> 1"
    using assms [unfolded arrivals_ok_def, THEN conjunct2, THEN conjunct1, rule_format, of p] by simp
qed (use assms in \<open>simp add: arrivals_ok_def\<close>)

text \<open>A crank that commits moves the highest sequence number on: what it covers no longer takes a slot.\<close>

lemma held_seqs_mono: "h \<le> h' \<Longrightarrow> held_seqs r p h' arr = filter (\<lambda>s. h' < s) (held_seqs r p h arr)"
proof (induction arr)
  case (Cons a arr)
  then show ?case by (cases a) auto
qed simp

lemma high_ok:
  assumes ok: "arrivals_ok high arr" and mono: "\<And>r p. high r p \<le> high' r p"
  shows "arrivals_ok high' arr"
proof -
  have "distinct (held_seqs r p (high' r p) arr) \<and> length (held_seqs r p (high' r p) arr) \<le> MAX_ARRIVALS_PER_REMOTE" for r p
    using ok [unfolded arrivals_ok_def, THEN conjunct1, rule_format, of r p] length_filter_le [of "\<lambda>s. high' r p < s" "held_seqs r p (high r p) arr"]
    by (simp add: held_seqs_mono [OF mono] del: length_filter_le)
  then show ?thesis using ok by (simp add: arrivals_ok_def)
qed

text \<open>Whatever comes in, is taken, dropped or acknowledged, in whatever order.\<close>

datatype peer_event = Message string string int string | Incarnation string string bool | Take | Drop | Commit string string int

type_synonym 'h tracked = "(string \<Rightarrow> string \<Rightarrow> int) \<times> 'h kq"

fun peer_step :: "peer_event \<Rightarrow> 'h tracked \<Rightarrow> 'h tracked" where
  "peer_step (Message r p s m) (high, k) = (high, snd (acceptRemoteInbound r p s m (high r p) k))"
| "peer_step (Incarnation p i b) (high, k) = (high, snd (acceptPeerIncarnation p i b k))"
| "peer_step Take (high, k) = (high, snd (takeArrival k))"
| "peer_step Drop (high, k) = (high, snd (discardArrivals k))"
| "peer_step (Commit r p n) (high, k) = (high(r := (high r)(p := max n (high r p))), k)"

lemma peer_step_ok:
  assumes ok: "arrivals_ok (fst hk) (arrivedFromRemotes (snd hk))"
  shows "arrivals_ok (fst (peer_step st hk)) (arrivedFromRemotes (snd (peer_step st hk)))"
proof (cases hk)
  case (Pair high k)
  then have ok: "arrivals_ok high (arrivedFromRemotes k)" using assms by simp
  show ?thesis
  proof (cases st)
    case (Message r p s m)
    then show ?thesis using accept_ok [OF ok, of r p s m "fst (acceptRemoteInbound r p s m (high r p) k)"] Pair by simp
  next
    case (Incarnation p i b)
    then show ?thesis using incarnation_ok [OF ok, of p i b "fst (acceptPeerIncarnation p i b k)"] Pair by simp
  next
    case Take
    then show ?thesis using ok filter_sub_ok [of high "take 1 (arrivedFromRemotes k)" "tl (arrivedFromRemotes k)"] Pair
      by (cases "arrivedFromRemotes k") (simp_all add: takeArrival_def)
  next
    case Drop
    then show ?thesis using Pair by (simp add: discardArrivals_def arrivals_ok_def)
  next
    case (Commit r p n)
    then show ?thesis using high_ok [OF ok] Pair by simp
  qed
qed

section \<open>Turns\<close>

text \<open>What the run loop takes when no control operation, collection or reap is due.\<close>

definition calm :: "'h kq \<Rightarrow> bool" where
  "calm k \<longleftrightarrow> controlRequests k = [] \<and> getGCActions (kst k) = [] \<and> reap_list (kst k) = [] \<and> run_queue_ok (kst k)"

fun picks :: "nat \<Rightarrow> 'h kq \<Rightarrow> loop_item list" where
  "picks 0 k = []"
| "picks (Suc n) k = (case getNextRunQueueItem k of (Inr (Some i), k') \<Rightarrow> i # picks n k' | _ \<Rightarrow> [])"

text \<open>The schedule: an arrival, a queued item, an arrival, and so on while there are both.\<close>

fun turns :: "nat \<Rightarrow> bool \<Rightarrow> arrival list \<Rightarrow> run_item list \<Rightarrow> loop_item list" where
  "turns 0 took arr rn = []"
| "turns (Suc n) took arr rn =
     (if arr = [] \<and> rn = [] then []
      else if arr \<noteq> [] \<and> (\<not> took \<or> rn = []) then Arrival (hd arr) # turns n True (tl arr) rn
      else Run (hd rn) # turns n False arr (tl rn))"

lemma runQueueLength_cache: "snd (runQueueLength s) = s \<or> (\<exists>n. snd (runQueueLength s) = s\<lparr>runQueueLengthCache := n\<rparr>)"
  by (auto simp: runQueueLength_def getQueueLength_def bnd_run thn_run split: option.splits)

lemma runQueueLength_ok:
  assumes "run_queue_ok s"
  shows "\<exists>n. runQueueLength s = (Inr (int (length (run_queue_items s))), s\<lparr>runQueueLengthCache := n\<rparr>) \<and>
    run_queue_ok (s\<lparr>runQueueLengthCache := n\<rparr>) \<and> run_queue_items (s\<lparr>runQueueLengthCache := n\<rparr>) = run_queue_items s"
  using runQueueLength_spec [OF assms] length_run_queue_items [OF assms] assms
  by (auto simp: run_queue_ok_def run_queue_items_def)

lemma dequeue_cache: "cache (snd (dequeue c q s)) = cache s"
  by (auto simp: dequeue_def getRequired_def incCounter_def bnd_run thn_run set_queue_tail_def Let_def split: option.splits)

lemma dequeueRun_cache: "cache (snd (dequeueRun s)) = cache s"
proof -
  obtain r u where n: "runQueueLength s = (r, u)" by fastforce
  then have u: "cache u = cache s" using runQueueLength_cache [of s] by auto
  obtain x v where d: "dequeue True ''run'' (runQueueLengthCache_update (\<lambda>c. c - 1) u) = (x, v)" by fastforce
  then have "cache v = cache u" using dequeue_cache [of True "''run''" "runQueueLengthCache_update (\<lambda>c. c - 1) u"] by simp
  then show ?thesis using n d u
    by (cases r; cases x) (auto simp: dequeueRun_def thn_run bnd_run split: option.splits queue_entry.splits)
qed

lemma enqueue_cache: "cache (snd (enqueue c q x s)) = cache s"
  by (auto simp: enqueue_def getRequired_def incCounter_def bnd_run thn_run set_queue_head_def Let_def split: option.splits)

lemma enqueueRun_cache: "cache (snd (enqueueRun x s)) = cache s"
proof -
  obtain r u where n: "runQueueLength s = (r, u)" by fastforce
  then have u: "cache u = cache s" using runQueueLength_cache [of s] by auto
  obtain y v where d: "enqueue True ''run'' (QRun x) u = (y, v)" by fastforce
  then have "cache v = cache u" using enqueue_cache [of True "''run''" "QRun x" u] by simp
  then show ?thesis using n d u by (cases r; cases y) (auto simp: enqueueRun_def thn_run bnd_run)
qed

lemma calm_gc:
  assumes "getGCActions s = []"
  shows "processGCActionSet s = (Inr None, s)"
proof -
  have g: "group_order [] = []" by (simp add: group_order_def action_group_def)
  show ?thesis using assms by (simp add: processGCActionSet_def g bnd_run thn_run)
qed

lemma calm_cache:
  assumes "calm k" and "controlRequests k' = controlRequests k" and "cache (kst k') = cache (kst k)" and "run_queue_ok (kst k')"
  shows "calm k'"
  using assms by (simp add: calm_def getGCActions_def gc_action_list_def reap_list_def)

lemma take_queued_run:
  assumes ok: "run_queue_ok (kst k)" and ne: "run_queue_items (kst k) = r # rs"
  shows "\<exists>s. take_queued k = (Inr (Some (Run r)), k\<lparr>kst := s\<rparr>) \<and> run_queue_ok s \<and> run_queue_items s = rs \<and> cache s = cache (kst k)"
proof -
  obtain n where n: "runQueueLength (kst k) = (Inr (int (length (run_queue_items (kst k)))), (kst k)\<lparr>runQueueLengthCache := n\<rparr>)"
    "run_queue_ok ((kst k)\<lparr>runQueueLengthCache := n\<rparr>)" "run_queue_items ((kst k)\<lparr>runQueueLengthCache := n\<rparr>) = run_queue_items (kst k)"
    using runQueueLength_ok [OF ok] by blast
  from dequeueRun_spec [OF n(2)] obtain s where s: "dequeueRun ((kst k)\<lparr>runQueueLengthCache := n\<rparr>) = (Inr (Some r), s)"
    "run_queue_ok s" "run_queue_items s = rs" using n(3) ne by auto
  have "cache s = cache (kst k)" using dequeueRun_cache [of "(kst k)\<lparr>runQueueLengthCache := n\<rparr>"] s(1) by simp
  moreover have "take_queued k = (Inr (Some (Run r)), k\<lparr>kst := s\<rparr>)"
    using n(1) s(1) ne by (simp add: take_queued_def onStore_def)
  ultimately show ?thesis using s by blast
qed

lemma take_queued_none:
  assumes ok: "run_queue_ok (kst k)" and ne: "run_queue_items (kst k) = []"
  shows "\<exists>n. take_queued k = takeArrival (k\<lparr>kst := (kst k)\<lparr>runQueueLengthCache := n\<rparr>\<rparr>) \<and>
    run_queue_ok ((kst k)\<lparr>runQueueLengthCache := n\<rparr>) \<and> run_queue_items ((kst k)\<lparr>runQueueLengthCache := n\<rparr>) = []"
  using runQueueLength_ok [OF ok] ne by (auto simp: take_queued_def onStore_def)

text \<open>The next item of a calm queue.\<close>

lemma next_item:
  assumes c: "calm k"
  defines "arr \<equiv> arrivedFromRemotes k" and "rn \<equiv> run_queue_items (kst k)"
  shows "\<exists>k'. getNextRunQueueItem k =
      (Inr (if arr = [] \<and> rn = [] then None else if arr \<noteq> [] \<and> (\<not> tookArrivalLast k \<or> rn = []) then Some (Arrival (hd arr)) else Some (Run (hd rn))), k') \<and>
    calm k' \<and> tookArrivalLast k' = (arr \<noteq> [] \<and> (\<not> tookArrivalLast k \<or> rn = [])) \<and>
    arrivedFromRemotes k' = (if arr \<noteq> [] \<and> (\<not> tookArrivalLast k \<or> rn = []) then tl arr else arr) \<and>
    run_queue_items (kst k') = (if arr \<noteq> [] \<and> (\<not> tookArrivalLast k \<or> rn = []) then rn else tl rn)"
proof -
  let ?k = "k\<lparr>tookArrivalLast := False\<rparr>"
  have ok: "run_queue_ok (kst k)" and cr: "controlRequests k = []" and rl: "reap_list (kst k) = []" using c by (simp_all add: calm_def)
  have st: "onStore processGCActionSet k = (Inr None, k)" "onStore nextReapAction k = (Inr None, k)"
    using calm_gc [of "kst k"] c by (simp_all add: onStore_def calm_def nextReapAction_def)
  have red: "getNextRunQueueItem k = (if \<not> tookArrivalLast k
      then bnd takeArrival (\<lambda>a. case a of Some x \<Rightarrow> ret (Some x) | None \<Rightarrow> take_queued) ?k else take_queued ?k)"
    using cr st by (simp add: getNextRunQueueItem_def)
  show ?thesis
  proof (cases "arr \<noteq> [] \<and> (\<not> tookArrivalLast k \<or> rn = [])")
    case True
    then obtain a as where a: "arrivedFromRemotes k = a # as" by (cases "arrivedFromRemotes k") (auto simp: arr_def)
    show ?thesis
    proof (cases "tookArrivalLast k")
      case False
      let ?k' = "k\<lparr>arrivedFromRemotes := as, tookArrivalLast := True\<rparr>"
      have "getNextRunQueueItem k = (Inr (Some (Arrival a)), ?k')" using red False a by (simp add: takeArrival_def)
      moreover have "calm ?k'" by (rule calm_cache [OF c]) (simp_all add: ok)
      ultimately show ?thesis using True a by (intro exI [of _ ?k']) (simp add: arr_def rn_def)
    next
      case took: True
      obtain n where n: "take_queued ?k = takeArrival (?k\<lparr>kst := (kst k)\<lparr>runQueueLengthCache := n\<rparr>\<rparr>)"
        "run_queue_ok ((kst k)\<lparr>runQueueLengthCache := n\<rparr>)" "run_queue_items ((kst k)\<lparr>runQueueLengthCache := n\<rparr>) = []"
        using take_queued_none [of ?k] ok True took by (auto simp: rn_def)
      let ?k' = "k\<lparr>kst := (kst k)\<lparr>runQueueLengthCache := n\<rparr>, arrivedFromRemotes := as, tookArrivalLast := True\<rparr>"
      have "getNextRunQueueItem k = (Inr (Some (Arrival a)), ?k')" using red took a n(1) by (simp add: takeArrival_def)
      moreover have "calm ?k'" by (rule calm_cache [OF c]) (simp_all add: n)
      ultimately show ?thesis using True took a n by (intro exI [of _ ?k']) (simp add: arr_def rn_def)
    qed
  next
    case False
    have same: "getNextRunQueueItem k = take_queued ?k"
    proof (cases "tookArrivalLast k")
      case True
      then show ?thesis using red by simp
    next
      case f: False
      then have e: "arrivedFromRemotes k = []" using False by (simp add: arr_def)
      then have "k\<lparr>arrivedFromRemotes := [], tookArrivalLast := False\<rparr> = ?k" by (cases k) simp
      moreover have "getNextRunQueueItem k = take_queued (k\<lparr>arrivedFromRemotes := [], tookArrivalLast := False\<rparr>)"
        using red f e by (simp add: takeArrival_def)
      ultimately show ?thesis by (rule subst)
    qed
    show ?thesis
    proof (cases "run_queue_items (kst k)")
      case (Cons r rs)
      then obtain s where s: "take_queued ?k = (Inr (Some (Run r)), ?k\<lparr>kst := s\<rparr>)" "run_queue_ok s" "run_queue_items s = rs" "cache s = cache (kst k)"
        using take_queued_run [of ?k r rs] ok by auto
      have "calm (?k\<lparr>kst := s\<rparr>)" by (rule calm_cache [OF c]) (simp_all add: s)
      then show ?thesis using same s False Cons by (intro exI [of _ "?k\<lparr>kst := s\<rparr>"]) (auto simp: arr_def rn_def)
    next
      case Nil
      then have e: "arrivedFromRemotes k = []" using False by (auto simp: arr_def rn_def)
      obtain n where n: "take_queued ?k = takeArrival (?k\<lparr>kst := (kst k)\<lparr>runQueueLengthCache := n\<rparr>\<rparr>)"
        "run_queue_ok ((kst k)\<lparr>runQueueLengthCache := n\<rparr>)" "run_queue_items ((kst k)\<lparr>runQueueLengthCache := n\<rparr>) = []"
        using take_queued_none [of ?k] ok Nil by auto
      let ?k' = "k\<lparr>kst := (kst k)\<lparr>runQueueLengthCache := n\<rparr>, arrivedFromRemotes := [], tookArrivalLast := False\<rparr>"
      have "getNextRunQueueItem k = (Inr None, ?k')" using same n(1) e by (simp add: takeArrival_def)
      moreover have "calm ?k'" by (rule calm_cache [OF c]) (simp_all add: n)
      ultimately show ?thesis using Nil e n by (intro exI [of _ ?k']) (simp add: arr_def rn_def)
    qed
  qed
qed

lemma picks_turns:
  "calm k \<Longrightarrow> picks n k = turns n (tookArrivalLast k) (arrivedFromRemotes k) (run_queue_items (kst k))"
proof (induction n arbitrary: k)
  case (Suc n)
  from next_item [OF Suc.prems] Suc.IH show ?case by auto
qed simp

text \<open>Two turns take one of each, while there are both.\<close>

definition arrivals_of :: "loop_item list \<Rightarrow> arrival list" where
  "arrivals_of is = List.map_filter (\<lambda>i. case i of Arrival a \<Rightarrow> Some a | _ \<Rightarrow> None) is"

definition runs_of :: "loop_item list \<Rightarrow> run_item list" where
  "runs_of is = List.map_filter (\<lambda>i. case i of Run r \<Rightarrow> Some r | _ \<Rightarrow> None) is"

lemma of_simps [simp]:
  "arrivals_of [] = []" "runs_of [] = []" "arrivals_of (Arrival a # is) = a # arrivals_of is" "arrivals_of (Run r # is) = arrivals_of is"
  "runs_of (Run r # is) = r # runs_of is" "runs_of (Arrival a # is) = runs_of is"
  by (simp_all add: arrivals_of_def runs_of_def List.map_filter_simps)

lemma turns_arrivals: "turns n b arr [] = map Arrival (take n arr)"
  by (induction n arbitrary: b arr) (auto simp: take_Suc)

lemma turns_runs: "turns n b [] rn = map Run (take n rn)"
  by (induction n arbitrary: b rn) (auto simp: take_Suc)

lemma of_maps [simp]: "arrivals_of (map Arrival xs) = xs" "runs_of (map Arrival xs) = []" "arrivals_of (map Run ys) = []" "runs_of (map Run ys) = ys"
  by (induction xs; simp) (induction xs; simp | induction ys; simp)+

lemma turns_fair:
  "\<exists>i j. arrivals_of (turns (2 * n) b arr rn) = take i arr \<and> min n (length arr) \<le> i \<and>
     runs_of (turns (2 * n) b arr rn) = take j rn \<and> min n (length rn) \<le> j"
proof (induction n arbitrary: b arr rn)
  case 0
  show ?case by (rule exI [of _ 0], rule exI [of _ 0]) simp
next
  case (Suc n)
  show ?case
  proof (cases "arr = [] \<or> rn = []")
    case True
    then show ?thesis
    proof
      assume "arr = []"
      then show ?thesis by (intro exI [of _ "0"] exI [of _ "2 * Suc n"]) (simp only: turns_runs of_maps, simp)
    next
      assume "rn = []"
      then show ?thesis by (intro exI [of _ "2 * Suc n"] exI [of _ "0"]) (simp only: turns_arrivals of_maps, simp)
    qed
  next
    case False
    then obtain a as r rs where e: "arr = a # as" "rn = r # rs" by (auto simp: neq_Nil_conv)
    obtain i j where ij: "arrivals_of (turns (2 * n) b as rs) = take i as" "min n (length as) \<le> i"
      "runs_of (turns (2 * n) b as rs) = take j rs" "min n (length rs) \<le> j" using Suc.IH by blast
    have two: "2 * Suc n = Suc (Suc (2 * n))" by simp
    have "arrivals_of (turns (2 * Suc n) b arr rn) = a # arrivals_of (turns (2 * n) b as rs)"
      "runs_of (turns (2 * Suc n) b arr rn) = r # runs_of (turns (2 * n) b as rs)"
      unfolding two e by (cases b; simp)+
    then show ?thesis using ij by (intro exI [of _ "Suc i"] exI [of _ "Suc j"]) (simp add: e)
  qed
qed

section \<open>Properties\<close>

definition peer_steps :: "peer_event list \<Rightarrow> 'h tracked \<Rightarrow> 'h tracked" where
  "peer_steps es hk = foldl (\<lambda>hk e. peer_step e hk) hk es"

lemma peer_steps_ok:
  "arrivals_ok (fst hk) (arrivedFromRemotes (snd hk)) \<Longrightarrow> runLoopState (snd hk) = Idle \<Longrightarrow>
    arrivals_ok (fst (peer_steps es hk)) (arrivedFromRemotes (snd (peer_steps es hk))) \<and> runLoopState (snd (peer_steps es hk)) = Idle"
  unfolding peer_steps_def
proof (induction es arbitrary: hk)
  case (Cons e es)
  have "runLoopState (snd (peer_step e hk)) = Idle"
    using Cons.prems(2) by (cases hk; cases e)
      (auto simp: acceptRemoteInbound_def acceptPeerIncarnation_def takeArrival_def discardArrivals_def assertRunLoopAlive_def wakeRunLoop_def
        thn_run bnd_run Let_def split: option.splits)
  then show ?case using Cons.IH [OF peer_step_ok [OF Cons.prems(1)]] by simp
qed simp

lemma accept_answer:
  assumes "runLoopState k = Idle"
  shows "fst (acceptRemoteInbound r p s m h k) = Inr (s \<le> h \<or> s \<in> set (held_seqs r p h (arrivedFromRemotes (snd (acceptRemoteInbound r p s m h k)))))"
proof (cases "s \<le> h \<or> s \<in> set (held_seqs r p h (arrivedFromRemotes k)) \<or> MAX_ARRIVALS_PER_REMOTE \<le> length (held_seqs r p h (arrivedFromRemotes k))")
  case True
  then show ?thesis using assms by (auto simp: acceptRemoteInbound_def assertRunLoopAlive_def)
next
  case False
  show ?thesis
  proof (cases "find (is_restart p) (arrivedFromRemotes k)")
    case None
    then show ?thesis using False assms
      by (simp add: acceptRemoteInbound_def assertRunLoopAlive_def waitingRestart_def wakeRunLoop_def)
  next
    case (Some w)
    have "set (held_seqs r p h (put_ahead p (RemoteInbound r p s m) (arrivedFromRemotes k))) =
        set (held_seqs r p h (RemoteInbound r p s m # arrivedFromRemotes k))"
      by (rule mset_eq_setD [OF put_ahead_seqs]) (simp add: Some)
    then show ?thesis using Some False assms
      by (simp add: acceptRemoteInbound_def assertRunLoopAlive_def waitingRestart_def wakeRunLoop_def)
  qed
qed

text \<open>
  C11. Whatever peers send, acknowledge and restart, in whatever order it is taken or dropped: no remote
  ever has more than \<open>MAX_ARRIVALS_PER_REMOTE\<close> uncommitted messages waiting, nor two copies of one, no peer has two
  restarts waiting, and no restart is passed by more than that many messages. A message is
  refused just when it is neither committed nor, after the call, waiting.
\<close>

theorem arrivals_bounded:
  fixes s :: ctx and h :: 'h
  defines "hk \<equiv> \<lambda>es. peer_steps es (\<lambda>_ _. 0, makeKernelQueue s h)"
  shows "arrivals_ok (fst (hk es)) (arrivedFromRemotes (snd (hk es))) \<and>
    fst (acceptRemoteInbound r p n m (fst (hk es) r p) (snd (hk es))) =
      Inr (n \<le> fst (hk es) r p \<or>
        n \<in> set (held_seqs r p (fst (hk es) r p) (arrivedFromRemotes (snd (acceptRemoteInbound r p n m (fst (hk es) r p) (snd (hk es)))))))"
  using peer_steps_ok [of "(\<lambda>_ _. 0, makeKernelQueue s h)" es] unfolding hk_def
  by (simp add: accept_answer makeKernelQueue_def arrivals_ok_def)

text \<open>
  C10. The run loop is fair: while no control operation, collection or reap is due, of any \<open>2 * n\<close> items it takes at least \<open>n\<close>
  are arrivals and at least \<open>n\<close> are from the run queue, as long as there are that many, and each are taken in order. So
  every item waiting is taken.
\<close>

theorem run_loop_fair:
  assumes "calm k"
  shows "\<exists>i j. arrivals_of (picks (2 * n) k) = take i (arrivedFromRemotes k) \<and> min n (length (arrivedFromRemotes k)) \<le> i \<and>
    runs_of (picks (2 * n) k) = take j (run_queue_items (kst k)) \<and> min n (length (run_queue_items (kst k))) \<le> j"
  unfolding picks_turns [OF assms] by (rule turns_fair)

theorem run_loop_fair_witness:
  "\<exists>k :: unit kq. arrivedFromRemotes k = [PeerIncarnation ''p'' ''i'' True 0, RemoteInbound ''r1'' ''p'' 1 ''m''] \<and>
    run_queue_items (kst k) = [RestartVat ''v1'', BringOutYourDead ''v2''] \<and>
    RestartVat ''v1'' \<in> set (runs_of (picks (2 * 1) k)) \<and> PeerIncarnation ''p'' ''i'' True 0 \<in> set (arrivals_of (picks (2 * 1) k))"
proof -
  let ?s0 = "makeKernelStore empty_kdb"
  obtain s where s: "forEach [RestartVat ''v1'', BringOutYourDead ''v2''] enqueueRun ?s0 = (Inr (), s)" "run_queue_ok s"
    "run_queue_items s = [RestartVat ''v1'', BringOutYourDead ''v2'']"
    using run_queue.enq_all [OF run_queue_ok_empty, of "[RestartVat ''v1'', BringOutYourDead ''v2'']"] run_queue_items_empty by auto
  have "cache s = cache ?s0"
    using s(1) enqueueRun_cache [of "RestartVat ''v1''" ?s0] enqueueRun_cache [of "BringOutYourDead ''v2''" "snd (enqueueRun (RestartVat ''v1'') ?s0)"]
    by (auto simp: thn_run bnd_run split: sum.splits prod.splits)
  then have c: "gcActions (cache s) = Some []" "reapQueue (cache s) = Some []"
    unfolding makeKernelStore_fresh by (simp_all add: init_cached_rows_def init_row_def empty_kdb_def)
  let ?k = "(makeKernelQueue s ())\<lparr>arrivedFromRemotes := [PeerIncarnation ''p'' ''i'' True 0, RemoteInbound ''r1'' ''p'' 1 ''m'']\<rparr>"
  have "calm ?k"
    using s(2) c by (simp add: calm_def makeKernelQueue_def getGCActions_def gc_action_list_def reap_list_def)
  from run_loop_fair [OF this, of 1] obtain i j where p: "arrivals_of (picks (2 * 1) ?k) = take i (arrivedFromRemotes ?k)" "1 \<le> i"
    "runs_of (picks (2 * 1) ?k) = take j (run_queue_items (kst ?k))" "1 \<le> j" by (auto simp: s makeKernelQueue_def)
  moreover have "kst ?k = s" by (simp add: makeKernelQueue_def)
  ultimately show ?thesis
    using s(3) by (intro exI [of _ ?k]) (simp add: take_Cons' split: if_splits)
qed

end
