(* ===== verification/KernelRouter.thy ===== *)
theory KernelRouter
  imports Frames KernelQueue
begin

text \<open>
  The kernel router (\<open>KernelRouter.ts\<close>): what the run loop does with the item it took. Endpoints,
  kernel services and the managers the options name are the fields of \<open>router\<close>; an endpoint's
  delivery is any computation over the kernel's state. \<open>singleRef\<close> is \<open>extractSingleRef\<close>, which
  deserializes with \<open>@endo/marshal\<close>, and \<open>errorText\<close> and \<open>causeText\<close> read the messages of a
  caught error and of its cause.
\<close>

section \<open>Handles and options\<close>

text \<open>\<open>EndpointHandle\<close> and \<open>RemoteEndpointHandle\<close> of \<open>types.ts\<close>.\<close>

record 'h endpoint =
  deliverMessage :: "string \<Rightarrow> message \<Rightarrow> ('h kq, 'h crank_result) sm"
  deliverResolutions :: "(string \<times> bool \<times> capdata) list \<Rightarrow> ('h kq, 'h crank_result) sm"
  deliverGC :: "GCRunQueueType \<Rightarrow> string list \<Rightarrow> ('h kq, 'h crank_result) sm"
  deliverReap :: "('h kq, 'h crank_result) sm"
  peerOf :: string
  deliverInbound :: "string \<Rightarrow> ('h kq, 'h crank_result) sm"

text \<open>\<open>KernelRouterOptions\<close>\<close>

record 'h router =
  hostOf :: "'h host"
  getEndpoint :: "string \<Rightarrow> 'h kq \<Rightarrow> kerror + 'h endpoint"
  invokeKernelService :: "string \<Rightarrow> message \<Rightarrow> ('h kq, unit) sm"
  restartVat :: "string \<Rightarrow> ('h kq, 'h crank_result option) sm"
  endVat :: "string \<Rightarrow> capdata option \<Rightarrow> ('h kq, 'h crank_result option) sm"
  applyIncarnationChange :: "string \<Rightarrow> string \<Rightarrow> bool \<Rightarrow> ('h kq, 'h crank_result) sm"
  performControl :: "string \<Rightarrow> ('h kq, unit) sm"
  singleRef :: "capdata \<Rightarrow> kerror + string option"
  errorText :: "kerror \<Rightarrow> string"
  causeText :: "kerror \<Rightarrow> string"

text \<open>\<open>{ didDelivery: endpointId }\<close>\<close>

definition delivered :: "string \<Rightarrow> 'h crank_result" where
  "delivered ep = \<lparr>didDelivery = Some ep, abort = False, terminate = None, irrevocable = False, afterCommit = None\<rparr>"

text \<open>\<open>for (const slot of message.methargs.slots) decrementRefCount(slot)\<close>, and the same of the result.\<close>

definition releaseSlots :: "message \<Rightarrow> ('h kq, unit) sm" where
  "releaseSlots m = forEach (slots (methargs m)) (\<lambda>slot. onStore (decrement slot))"

definition releaseResult :: "message \<Rightarrow> ('h kq, unit) sm" where
  "releaseResult m = (case result_ref (result m) of None \<Rightarrow> ret () | Some r \<Rightarrow> onStore (decrement r))"

section \<open>Routing (\<open>#routeMessage\<close>)\<close>

datatype route = Splat | ToEndpoint string string | Requeue string

text \<open>The result is rejected by whoever decides it, if the message wants one.\<close>

definition rejectResult :: "message \<Rightarrow> capdata \<Rightarrow> ('h kq, unit) sm" where
  "rejectResult m e = (case result_ref (result m) of None \<Rightarrow> ret ()
     | Some r \<Rightarrow> bnd (onStore (getKernelPromise r)) (\<lambda>p. resolvePromises (kp_decider p) [(r, True, e)] True))"

definition routeAsSplat :: "message \<Rightarrow> capdata option \<Rightarrow> ('h kq, route) sm" where
  "routeAsSplat m e = thn (case e of None \<Rightarrow> ret () | Some e \<Rightarrow> rejectResult m e) (ret Splat)"

definition routeAsSend :: "'h host \<Rightarrow> message \<Rightarrow> string \<Rightarrow> ('h kq, route) sm" where
  "routeAsSend H m target = bnd (gets (\<lambda>k. isRevoked target (kst k))) (\<lambda>revoked.
     if revoked then routeAsSplat m (Some (makeKernelError H ''OBJECT_REVOKED'' ''Target object has been revoked''))
     else bnd (onStore (getOwner target)) (\<lambda>owner.
       case owner of None \<Rightarrow>
           routeAsSplat m (Some (makeKernelError H ''OBJECT_DELETED'' ''Target object has no owner; it may have been deleted''))
       | Some ep \<Rightarrow> ret (ToEndpoint ep target)))"

definition routeMessage :: "'h router \<Rightarrow> string \<Rightarrow> message \<Rightarrow> ('h kq, route) sm" where
  "routeMessage R target m =
     (if isPromiseRef target
      then bnd (onStore (getKernelPromise target)) (\<lambda>p.
        case kp_state p of
          Fulfilled \<Rightarrow>
            bnd (case kp_value p of None \<Rightarrow> ret None | Some v \<Rightarrow> lift (singleRef R v)) (\<lambda>found.
              if truthy found
              then (let object = the found in if isPromiseRef object then ret (Requeue object) else routeAsSend (hostOf R) m object)
              else routeAsSplat m (Some (makeKernelError (hostOf R) ''BAD_PROMISE_RESOLUTION''
                  ''Promise fulfilled but did not contain an object reference'')))
        | Rejected \<Rightarrow> routeAsSplat m (kp_value p)
        | Unresolved \<Rightarrow> ret (Requeue target))
      else routeAsSend (hostOf R) m target)"

section \<open>Deliveries whose vat may be lost (\<open>#deliverUnlessLost\<close>)\<close>

fun is_vat_not_found :: "kerror \<Rightarrow> bool" where
  "is_vat_not_found (VatNotFound v) \<longleftrightarrow> True"
| "is_vat_not_found _ \<longleftrightarrow> False"

definition isVatRunning :: "'h router \<Rightarrow> string \<Rightarrow> ('h kq, bool) sm" where
  "isVatRunning R vatId = bnd (gets (getEndpoint R vatId)) (\<lambda>handle.
     case handle of Inr _ \<Rightarrow> ret True | Inl e \<Rightarrow> if is_vat_not_found e then ret False else fail e)"

definition makeLostVatReason :: "'h router \<Rightarrow> string \<Rightarrow> kerror \<Rightarrow> capdata" where
  "makeLostVatReason R vatId e =
     makeKernelError (hostOf R) ''VAT_TERMINATED'' (''Vat '' @ vatId @ '' lost its channel: '' @ causeText R e)"

definition deliverUnlessLost :: "'h router \<Rightarrow> string \<Rightarrow> ('h kq, 'h crank_result) sm \<Rightarrow> ('h kq, 'h crank_result) sm" where
  "deliverUnlessLost R ep deliver = tryCatch deliver (\<lambda>e.
     if \<not> isVatId ep then fail e
     else bnd (isVatRunning R ep) (\<lambda>running.
       if running then fail e
       else bnd (gets (\<lambda>k. isVatActive ep (kst k))) (\<lambda>active.
         ret (if active
              then (delivered ep)\<lparr>abort := True, terminate := Some (ep, True, makeLostVatReason R ep e)\<rparr>
              else delivered ep))))"

section \<open>Sends (\<open>#deliverSend\<close>)\<close>

definition rejectResultIfPending :: "string \<Rightarrow> string \<Rightarrow> capdata \<Rightarrow> ('h kq, unit) sm" where
  "rejectResultIfPending ep kpid failure = bnd (onStore (getKernelPromise kpid)) (\<lambda>p.
     whenM (kp_state p = Unresolved) (resolvePromises (Some ep) [(kpid, True, failure)] True))"

text \<open>A message nobody is there to take.\<close>

definition deliverSplat :: "string \<Rightarrow> message \<Rightarrow> ('h kq, 'h crank_result option) sm" where
  "deliverSplat target m =
     thn (onStore (decrement target)) (thn (releaseResult m) (thn (releaseSlots m) (ret None)))"

text \<open>The endpoint named as the owner has no handle.\<close>

definition deliverUnreachable :: "'h router \<Rightarrow> string \<Rightarrow> message \<Rightarrow> ('h kq, 'h crank_result option) sm" where
  "deliverUnreachable R target m =
     thn (rejectResult m (makeKernelError (hostOf R) ''ENDPOINT_UNREACHABLE'' ''Target endpoint is unreachable (terminated or disconnected)''))
       (thn (releaseResult m)
         (thn (onStore (decrement target)) (thn (releaseSlots m) (ret None))))"

text \<open>The receiver now decides the result, and holds it.\<close>

definition handOverResult :: "string \<Rightarrow> message \<Rightarrow> ('h kq, unit) sm" where
  "handOverResult ep m = (case result_ref (result m) of None \<Rightarrow> ret ()
     | Some r \<Rightarrow> thn (onStore (setPromiseDecider r ep)) (onStore (decrement r)))"

definition deliverToEndpoint :: "'h router \<Rightarrow> 'h endpoint \<Rightarrow> string \<Rightarrow> string \<Rightarrow> message \<Rightarrow> ('h kq, 'h crank_result option) sm" where
  "deliverToEndpoint R endpoint ep target m =
     bnd (onStore (translateRefKtoE ep target False)) (\<lambda>endpointTarget.
       bnd (onStore (translateMessageKtoE ep m)) (\<lambda>endpointMessage.
         tryCatch
           (bnd (deliverUnlessLost R ep (deliverMessage endpoint endpointTarget endpointMessage)) (\<lambda>cr. ret (Some cr)))
           (\<lambda>e. thn (case result_ref (result m) of None \<Rightarrow> ret ()
                      | Some r \<Rightarrow> rejectResultIfPending ep r (makeKernelError (hostOf R) ''DELIVERY_FAILED'' (errorText R e)))
                  (ret None))))"

definition deliverKernelServiceMessage :: "'h router \<Rightarrow> string \<Rightarrow> message \<Rightarrow> ('h kq, 'h crank_result option) sm" where
  "deliverKernelServiceMessage R target m =
     thn (invokeKernelService R target m) (ret (Some (delivered ''kernel'')))"

text \<open>The message waits on the promise it was sent to: the new holder first.\<close>

definition deliverRequeue :: "string \<Rightarrow> string \<Rightarrow> message \<Rightarrow> ('h kq, 'h crank_result option) sm" where
  "deliverRequeue item_target target m =
     thn (onStore (enqueuePromiseMessage target m))
       (thn (onStore (decrement item_target)) (thn (releaseResult m) (thn (releaseSlots m) (ret None))))"

definition deliverSend :: "'h router \<Rightarrow> string \<Rightarrow> message \<Rightarrow> ('h kq, 'h crank_result option) sm" where
  "deliverSend R item_target m = bnd (routeMessage R item_target m) (\<lambda>route.
     case route of
       Splat \<Rightarrow> deliverSplat item_target m
     | Requeue target \<Rightarrow> deliverRequeue item_target target m
     | ToEndpoint ep target \<Rightarrow>
         if ep = ''kernel''
         then thn (handOverResult ep m)
           (bnd (deliverKernelServiceMessage R target m) (\<lambda>crankResult.
             thn (onStore (decrement item_target)) (thn (releaseSlots m) (ret crankResult))))
         else bnd (gets (getEndpoint R ep)) (\<lambda>handle.
           case handle of
             Inl _ \<Rightarrow> deliverUnreachable R item_target m
           | Inr endpoint \<Rightarrow>
               thn (handOverResult ep m)
                 (bnd (deliverToEndpoint R endpoint ep target m) (\<lambda>crankResult.
                   thn (onStore (decrement item_target)) (thn (releaseSlots m) (ret crankResult))))))"

section \<open>Notifications, collection and reaps\<close>

definition lookupEndpoint :: "'h router \<Rightarrow> string \<Rightarrow> bool \<Rightarrow> ('h kq, 'h endpoint option) sm" where
  "lookupEndpoint R ep discardable = bnd (gets (getEndpoint R ep)) (\<lambda>handle.
     case handle of
       Inr endpoint \<Rightarrow> ret (Some endpoint)
     | Inl e \<Rightarrow> if is_vat_not_found e \<or> discardable \<and> isRemoteId ep then ret None else fail e)"

text \<open>One resolution of a notification, in the endpoint's terms.\<close>

definition translateResolution :: "string \<Rightarrow> string \<Rightarrow> (string \<times> bool \<times> capdata) store" where
  "translateResolution ep toResolve =
     bnd (getKernelPromise toResolve) (\<lambda>p.
       thn (require (kp_state p \<noteq> Unresolved) (Fail ''target promise is unresolved'' [toResolve]))
         (bnd (ofOption (Fail ''target promise has no value'' [toResolve]) (kp_value p)) (\<lambda>v.
           bnd (translateRefKtoE ep toResolve True) (\<lambda>eref.
             bnd (translateCapDataKtoE ep v) (\<lambda>data. ret (eref, kp_state p = Rejected, data))))))"

definition deliverNotify :: "'h router \<Rightarrow> string \<Rightarrow> string \<Rightarrow> ('h kq, 'h crank_result) sm" where
  "deliverNotify R ep kpid =
     bnd (lift (parseRef kpid)) (\<lambda>ref.
       thn (require (rcontext ref = KernelCtx \<and> risPromise ref) (AssertErr ''not a kernel promise''))
         (bnd (onStore (getKernelPromise kpid)) (\<lambda>p.
           bnd (ofOption (AssertErr ''no value for promise'') (kp_value p)) (\<lambda>v.
             thn (require (kp_state p \<noteq> Unresolved) (Fail ''notification on unresolved promise'' [kpid]))
               (thn (onStore (decrement kpid))
                 (bnd (onStore (krefToEref ep kpid)) (\<lambda>known.
                   if \<not> truthy known then ret (delivered ep)
                   else bnd (onStore (getKpidsToRetire kpid v)) (\<lambda>targets.
                     if targets = [] then ret (delivered ep)
                     else bnd (lookupEndpoint R ep False) (\<lambda>endpoint.
                       case endpoint of
                         None \<Rightarrow> ret (delivered ep)
                       | Some h \<Rightarrow> bnd (onStore (mapEach (translateResolution ep) targets)) (\<lambda>resolutions.
                           deliverUnlessLost R ep (deliverResolutions h resolutions)))))))))))"

text \<open>Telling an endpoint to let go is also the kernel letting go.\<close>

fun let_go :: "GCRunQueueType \<Rightarrow> string \<Rightarrow> string \<times> string \<Rightarrow> unit store" where
  "let_go DropExports ep (kref, eref) = clearReachableFlag ep kref"
| "let_go RetireImports ep (kref, eref) = deleteCListEntry ep kref eref"
| "let_go RetireExports ep (kref, eref) = thn (deleteCListEntry ep kref eref) (orphanKernelObject kref ep)"

definition deliverGCAction :: "'h router \<Rightarrow> GCRunQueueType \<Rightarrow> string \<Rightarrow> string list \<Rightarrow> ('h kq, 'h crank_result) sm" where
  "deliverGCAction R type ep krefs =
     bnd (lookupEndpoint R ep False) (\<lambda>endpoint.
       bnd (gets (\<lambda>k. isVatTerminated ep (kst k))) (\<lambda>terminated.
         if endpoint = None \<and> \<not> terminated then ret (delivered ep)
         else bnd (onStore (krefsToErefs ep krefs)) (\<lambda>erefs.
           thn (forEach (zip krefs erefs) (\<lambda>p. onStore (let_go type ep p)))
             (case endpoint of
                None \<Rightarrow> ret (delivered ep)
              | Some h \<Rightarrow> bnd (if isRemoteId ep then mapEach (\<lambda>eref. lift (invertRRef eref)) erefs else ret erefs) (\<lambda>sent.
                  deliverUnlessLost R ep (deliverGC h type sent))))))"

definition deliverRemoteInbound :: "'h router \<Rightarrow> string \<Rightarrow> string \<Rightarrow> string \<Rightarrow> ('h kq, 'h crank_result) sm" where
  "deliverRemoteInbound R remoteId peerId m =
     bnd (lookupEndpoint R remoteId True) (\<lambda>remote.
       case remote of
         None \<Rightarrow> ret (delivered remoteId)
       | Some h \<Rightarrow>
           if peerOf h \<noteq> peerId then ret (delivered remoteId)
           else tryCatch (deliverInbound h m) (\<lambda>_. ret ((delivered remoteId)\<lparr>abort := True\<rparr>)))"

definition deliverBringOutYourDead :: "'h router \<Rightarrow> string \<Rightarrow> ('h kq, 'h crank_result) sm" where
  "deliverBringOutYourDead R ep =
     bnd (lookupEndpoint R ep True) (\<lambda>endpoint.
       case endpoint of
         None \<Rightarrow> ret (delivered ep)
       | Some h \<Rightarrow> deliverUnlessLost R ep (deliverReap h))"

section \<open>The delivery of the run loop (\<open>deliver\<close>)\<close>

definition some_result :: "('h kq, 'h crank_result) sm \<Rightarrow> ('h kq, 'h crank_result option) sm" where
  "some_result m = bnd m (\<lambda>cr. ret (Some cr))"

fun deliver :: "'h router \<Rightarrow> 'h deliver" where
  "deliver R (Run (Send target m)) = deliverSend R target m"
| "deliver R (Run (Notify ep kpid)) = some_result (deliverNotify R ep kpid)"
| "deliver R (Run (GCAction type ep krefs)) = some_result (deliverGCAction R type ep krefs)"
| "deliver R (Run (BringOutYourDead ep)) = some_result (deliverBringOutYourDead R ep)"
| "deliver R (Run (RestartVat v)) = restartVat R v"
| "deliver R (Run (TerminateVat v reason)) = endVat R v reason"
| "deliver R (Arrival (RemoteInbound r p seq m)) = some_result (deliverRemoteInbound R r p m)"
| "deliver R (Arrival (PeerIncarnation p inc restart ahead)) = some_result (applyIncarnationChange R p inc restart)"
| "deliver R (Control operation) = thn (performControl R operation) (ret None)"

end
