(* ===== verification/Resolution.thy ===== *)
theory Resolution
  imports KernelQueue Promises
begin

text \<open>
  What resolving a promise does. \<open>placed b s is s'\<close> is the whole of an operation that puts the
  items \<open>is\<close> at the end of the run queue, or of the crank's buffer when it is not to be immediate (\<open>b\<close>),
  and otherwise only counts references. Enqueueing is given its rules over it, and \<open>resolvePromises\<close>
  (\<open>KernelQueue.ts\<close>) its full effect.
\<close>

section \<open>Computations over the store\<close>

lemma onStore_thn: "onStore (thn a b) k = thn (onStore a) (onStore b) k"
  by (auto simp: onStore_def thn_run split: prod.split sum.split)

lemma onStore_forEach: "onStore (forEach xs f) k = forEach xs (\<lambda>x. onStore (f x)) k"
proof (induction xs arbitrary: k)
  case Nil
  then show ?case by (simp add: onStore_def)
next
  case (Cons x xs)
  show ?case unfolding forEach.simps onStore_thn by (rule thn_cong2) (rule Cons)
qed

lemma thn_ret_unit [simp]: "thn m (ret ()) = m"
  by (rule ext) (simp add: thn_run split: prod.split sum.split)

lemma ret_unit_thn [simp]: "thn (ret ()) m = m"
  by (rule ext) (simp add: thn_run)

lemma onStore_run: "m (kst k) = (r, s) \<Longrightarrow> onStore m k = (r, k\<lparr>kst := s\<rparr>)"
  by (simp add: onStore_def)

section \<open>Posting to the run queue or the crank's buffer\<close>

definition placed :: "bool \<Rightarrow> ctx \<Rightarrow> run_item list \<Rightarrow> ctx \<Rightarrow> bool" where
  "placed b s is s' \<longleftrightarrow> run_queue_ok s' \<and> run_queue_items s' = run_queue_items s @ (if b then is else []) \<and>
     crankBuffer s' = crankBuffer s @ (if b then [] else is) \<and> clists (db s') = clists (db s) \<and>
     other_promises_same ''run'' s s' \<and> (\<forall>j. live j s \<longrightarrow> live j s')"

abbreviation posted :: "ctx \<Rightarrow> run_item list \<Rightarrow> ctx \<Rightarrow> bool" where
  "posted \<equiv> placed True"

lemma posted_refl: "run_queue_ok s \<Longrightarrow> placed b s [] s"
  by (simp add: placed_def other_promises_same_def)

lemma posted_trans: "placed b s xs t \<Longrightarrow> placed b t ys u \<Longrightarrow> placed b s (xs @ ys) u"
  unfolding placed_def by (auto intro: other_promises_trans)

lemma posted_live: "placed b s xs s' \<Longrightarrow> live j s \<Longrightarrow> live j s'"
  by (simp add: placed_def)

lemma posted_ok: "placed b s xs s' \<Longrightarrow> run_queue_ok s'"
  by (simp add: placed_def)

text \<open>An operation on one promise does not touch the run queue.\<close>

lemma run_queue_kept:
  assumes "other_queues_same q s s'" and "q \<noteq> ''run''" and "rqHead s' = rqHead s" and "rqTail s' = rqTail s"
    and "runQueueLengthCache s' = runQueueLengthCache s"
  shows "run_queue_ok s' = run_queue_ok s" and "run_queue_items s' = run_queue_items s"
proof -
  have "queue_ok True ''run'' s' = queue_ok True ''run'' s" "queue_items ''run'' s' = queue_items ''run'' s"
    using assms by (auto simp: queue_ok_def queue_items_def other_queues_same_def has_def queue_head_def queue_tail_def split: option.splits)
  then show "run_queue_ok s' = run_queue_ok s" "run_queue_items s' = run_queue_items s"
    using assms(5) by (simp_all add: run_queue_ok_def run_queue_items_def)
qed

lemma posted_counts:
  assumes "same_but_counts s s'" and "run_queue_ok s" and "\<And>j. live j s \<Longrightarrow> live j s'"
  shows "placed b s [] s'"
proof -
  have "runQueueLengthCache s' = runQueueLengthCache s" "crankBuffer s' = crankBuffer s" "clists (db s') = clists (db s)"
    by (rule same_but_countsD [OF assms(1)], simp add: without_counts_def)+
  then show ?thesis using same_but_counts_queue [OF assms(1)] other_promises_counts [OF assms(1)] assms(2,3)
    by (simp add: placed_def run_queue_ok_def run_queue_items_def)
qed

lemma posted_length:
  assumes "placed b s xs s'"
  shows "placed b s xs (s'\<lparr>runQueueLengthCache := int (length (queue_items ''run'' s'))\<rparr>)"
  using assms by (auto simp: placed_def run_queue_ok_def run_queue_items_def other_promises_same_def other_queues_same_def live_def)

lemma credits_length [simp]: "credits (s\<lparr>runQueueLengthCache := n\<rparr>) = credits s"
  by (rule credits_cong) simp_all

lemma acct_length [simp]: "acct M (s\<lparr>runQueueLengthCache := n\<rparr>) = acct M s"
  by (simp add: acct_def exact_def row_exact_def)

lemma enqueueRun_posted:
  assumes ok: "run_queue_ok s" and a: "acct (refs (item_refs i) + M) s"
  shows "\<exists>s'. enqueueRun i s = (Inr (), s') \<and> acct M s' \<and> posted s [i] s'"
proof -
  let ?n = "int (length (queue_items ''run'' s))"
  let ?s = "s\<lparr>runQueueLengthCache := ?n\<rparr>"
  have len: "runQueueLength s = (Inr ?n, ?s)" using ok by (rule runQueueLength_spec)
  have "queue_ok True ''run'' ?s" using ok by (simp add: run_queue_ok_def)
  then obtain s1 where s1: "enqueue True ''run'' (QRun i) ?s = (Inr (), s1)" and f: "same_but_queues ?s s1"
    and c: "credits s1 = credits ?s + refs (item_refs i)" and o: "other_queues_same ''run'' ?s s1"
    using enqueue_full [of True "''run''" ?s "QRun i"] by auto
  let ?s' = "s1\<lparr>runQueueLengthCache := runQueueLengthCache s1 + 1\<rparr>"
  have run: "enqueueRun i s = (Inr (), ?s')" using len s1 by (simp add: enqueueRun_def)
  have "acct M ?s'"
    by (rule acct_same_rows [OF _ _ a]) (use same_but_queues_rows [OF f] c in \<open>simp_all add: ac_simps\<close>)
  moreover have "posted s [i] ?s'"
  proof -
    have "run_queue_ok ?s' \<and> run_queue_items ?s' = run_queue_items s @ [i]"
      using enqueueRun_spec [OF ok, of i] run by auto
    moreover have "other_promises_same ''run'' s ?s'" "\<forall>j. live j s \<longrightarrow> live j ?s'"
      using o same_but_queues_rows [OF f] by (simp_all add: other_promises_same_def other_queues_same_def live_def)
    moreover have "crankBuffer ?s' = crankBuffer s" "clists (db ?s') = clists (db s)"
      using same_but_queuesP [OF f, of crankBuffer] same_but_queues_rows(6) [OF f] by (simp_all add: without_queues_def)
    ultimately show ?thesis by (simp add: placed_def)
  qed
  ultimately show ?thesis using run by blast
qed

lemma queueRun_posted:
  assumes "run_queue_ok (kst k)" and "acct (refs (item_refs i) + M) (kst k)"
  shows "\<exists>s'. queueRun i k = (Inr (), k\<lparr>kst := s', asleep := False\<rparr>) \<and> acct M s' \<and> posted (kst k) [i] s'"
proof -
  obtain s1 where s1: "enqueueRun i (kst k) = (Inr (), s1)" "acct M s1" "posted (kst k) [i] s1"
    using enqueueRun_posted [OF assms] by blast
  let ?n = "int (length (queue_items ''run'' s1))"
  have ok: "run_queue_ok s1" using s1(3) by (rule posted_ok)
  have "run_queue_items s1 = run_queue_items (kst k) @ [i]" using s1(3) by (simp add: placed_def)
  then have "length (queue_items ''run'' s1) = Suc (length (run_queue_items (kst k)))"
    using length_run_queue_items [OF ok] by simp
  then have "queueRun i k = (Inr (), k\<lparr>kst := s1\<lparr>runQueueLengthCache := ?n\<rparr>, asleep := False\<rparr>)"
    using s1(1) runQueueLength_spec [OF ok] by (simp add: queueRun_def onStore_def wakeRunLoop_def)
  then show ?thesis using s1(2) posted_length [OF s1(3)] by auto
qed

text \<open>On the run queue at once, or in the buffer of the crank.\<close>

definition postItem :: "bool \<Rightarrow> run_item \<Rightarrow> ('h kq, unit) sm" where
  "postItem b item = (if b then queueRun item else onStore (bufferCrankOutput item))"

lemma postItem_placed:
  assumes "run_queue_ok (kst k)" and a: "acct (refs (item_refs i) + M) (kst k)"
  shows "\<exists>s'. postItem b i k = (Inr (), k\<lparr>kst := s', asleep := asleep k \<and> \<not> b\<rparr>) \<and> acct M s' \<and> placed b (kst k) [i] s'"
proof (cases b)
  case True
  then show ?thesis using queueRun_posted [OF assms] by (simp add: postItem_def)
next
  case False
  let ?s = "(kst k)\<lparr>crankBuffer := crankBuffer (kst k) @ [i]\<rparr>"
  have "acct M ?s" by (rule acct_same_rows [OF _ _ a]) (simp_all add: credits_def buffer_credit_def gc_action_list_def ac_simps)
  moreover have q: "queue_ok c q ?s = queue_ok c q (kst k)" "queue_items q ?s = queue_items q (kst k)" for c q
    by (simp_all add: queue_ok_def queue_items_def queue_head_def queue_tail_def split: option.split)
  then have "placed False (kst k) [i] ?s"
    using assms(1) by (simp add: placed_def run_queue_ok_def run_queue_items_def other_promises_same_def other_queues_same_def live_def)
  ultimately show ?thesis using False by (intro exI [of _ ?s]) (simp add: postItem_def bufferCrankOutput_def onStore_def)
qed

section \<open>Charged and posted\<close>

lemma charge_run:
  assumes "run_queue_ok (kst k)" and "acct M (kst k)" and "\<And>r. r \<in> set ks \<Longrightarrow> isKRef r \<and> live r (kst k)"
  shows "\<exists>s'. onStore (forEach ks increment) k = (Inr (), k\<lparr>kst := s'\<rparr>) \<and> acct (refs ks + M) s' \<and> placed b (kst k) [] s'"
proof -
  obtain s' where s': "forEach ks increment (kst k) = (Inr (), s')" "exact (refs ks + (credits (kst k) + M)) s'"
    "\<forall>j. live j (kst k) \<longrightarrow> live j s'" and f: "same_but_counts (kst k) s'"
    using forEach_increment_run [of "credits (kst k) + M" "kst k" ks] assms by (auto simp: acct_def)
  have "acct (refs ks + M) s'" using s'(2) by (simp add: acct_def same_but_counts_credits [OF f] ac_simps)
  then show ?thesis using s' posted_counts [OF f assms(1)] by (auto simp: onStore_def)
qed

text \<open>Charge the item's references, then post it.\<close>

lemma charged_post:
  assumes "run_queue_ok (kst k)" and "acct M (kst k)" and "\<And>r. r \<in> set (item_refs i) \<Longrightarrow> isKRef r \<and> live r (kst k)"
  shows "\<exists>s'. thn (onStore (forEach (item_refs i) increment)) (postItem b i) k = (Inr (), k\<lparr>kst := s', asleep := asleep k \<and> \<not> b\<rparr>) \<and>
    acct M s' \<and> placed b (kst k) [i] s'"
proof -
  obtain s1 where s1: "onStore (forEach (item_refs i) increment) k = (Inr (), k\<lparr>kst := s1\<rparr>)" "acct (refs (item_refs i) + M) s1"
    "placed b (kst k) [] s1" using charge_run [OF assms] by blast
  obtain s2 where s2: "postItem b i (k\<lparr>kst := s1\<rparr>) = (Inr (), k\<lparr>kst := s2, asleep := asleep k \<and> \<not> b\<rparr>)" "acct M s2" "placed b s1 [i] s2"
    using postItem_placed [of "k\<lparr>kst := s1\<rparr>" i M b] s1(2) posted_ok [OF s1(3)] by auto
  have "placed b (kst k) [i] s2" using posted_trans [OF s1(3) s2(3)] by simp
  then show ?thesis using s1(1) s2 by (intro exI [of _ s2]) simp
qed

lemma enqueueNotify_unfold: "enqueueNotify ep kpid b k = thn (onStore (forEach (item_refs (Notify ep kpid)) increment)) (postItem b (Notify ep kpid)) k"
  by (simp add: enqueueNotify_def postItem_def thn_run)

lemma enqueueSend_unfold: "enqueueSend target m b k = thn (onStore (forEach (item_refs (Send target m)) increment)) (postItem b (Send target m)) k"
proof -
  have *: "onStore (forEach (item_refs (Send target m)) increment) k =
      thn (onStore (increment target)) (thn (case result_ref (result m) of None \<Rightarrow> ret () | Some r \<Rightarrow> onStore (increment r))
        (forEach (slots (methargs m)) (\<lambda>slot. onStore (increment slot)))) k" for k :: "'h kq"
    unfolding onStore_forEach by (cases "result_ref (result m)") (simp_all add: message_refs_def thn_run)
  show ?thesis unfolding enqueueSend_def postItem_def by (subst thn_run, subst *) (auto simp: thn_run split: prod.split sum.split)
qed

text \<open>A loop that posts an item for each element of a list.\<close>

lemma forEach_posted:
  assumes "run_queue_ok (kst k)" and "acct M (kst k)" and "\<And>j. j \<in> L \<Longrightarrow> live j (kst k)"
    and step: "\<And>x k. x \<in> set xs \<Longrightarrow> run_queue_ok (kst k) \<Longrightarrow> acct M (kst k) \<Longrightarrow> (\<And>j. j \<in> L \<Longrightarrow> live j (kst k)) \<Longrightarrow>
      \<exists>s'. f x k = (Inr (), k\<lparr>kst := s', asleep := asleep k \<and> \<not> b\<rparr>) \<and> acct M s' \<and> placed b (kst k) [g x] s'"
  shows "\<exists>s'. forEach xs f k = (Inr (), k\<lparr>kst := s', asleep := asleep k \<and> (b \<longrightarrow> xs = [])\<rparr>) \<and> acct M s' \<and> placed b (kst k) (map g xs) s'"
  using assms
proof (induction xs arbitrary: k)
  case Nil
  then show ?case using posted_refl by (intro exI [of _ "kst k"]) simp
next
  case (Cons x xs)
  obtain s1 where s1: "f x k = (Inr (), k\<lparr>kst := s1, asleep := asleep k \<and> \<not> b\<rparr>)" "acct M s1" "placed b (kst k) [g x] s1"
    using Cons.prems(4) [of x k] Cons.prems(1-3) by auto
  let ?k = "k\<lparr>kst := s1, asleep := asleep k \<and> \<not> b\<rparr>"
  obtain s2 where s2: "forEach xs f ?k = (Inr (), ?k\<lparr>kst := s2, asleep := asleep ?k \<and> (b \<longrightarrow> xs = [])\<rparr>)" "acct M s2" "placed b s1 (map g xs) s2"
    using Cons.IH [of ?k] Cons.prems(3,4) s1(2) posted_ok [OF s1(3)] posted_live [OF s1(3)] by auto
  have "placed b (kst k) (map g (x # xs)) s2" using posted_trans [OF s1(3) s2(3)] by simp
  moreover have "(asleep k \<and> \<not> b) \<and> (b \<longrightarrow> xs = []) \<longleftrightarrow> asleep k \<and> (b \<longrightarrow> x # xs = [])" by auto
  ultimately show ?case using s1(1) s2 by (intro exI [of _ s2]) simp
qed

section \<open>A resolution\<close>

lemma asleep_last: "k\<lparr>asleep := a, kst := s\<rparr> = k\<lparr>kst := s, asleep := a\<rparr>"
  by simp

text \<open>Who may resolve a promise.\<close>

definition decider_of :: "string \<Rightarrow> ctx \<Rightarrow> string option" where
  "decider_of k s = (case tget (pdeciders (db s)) k of None \<Rightarrow> None | Some d \<Rightarrow> if d = '''' then None else Some d)"

lemma unsettled_kernel_promise:
  assumes "unsettled k s" and "tget (psubscribers (db s)) k = Some subs"
  shows "getKernelPromise k s = (Inr \<lparr>kp_state = Unresolved, kp_decider = decider_of k s, kp_subscribers = Some subs, kp_value = None\<rparr>, s)"
  using getKernelPromise_unsettled [OF assms(1)] assms(2) by (auto simp: decider_of_def)

text \<open>An unsettled promise is owed its decision.\<close>

lemma unsettled_live:
  assumes u: "unsettled k s" and a: "acct M s"
  shows "live k s"
proof (rule ccontr)
  assume "\<not> live k s"
  then have z: "recog k (credits s) = 0" using acct_gone [OF a] by simp
  have ps: "tget (pstates (db s)) k = Some Unresolved" "isPromiseRef k" "isKRef k" using u by (simp_all add: unsettled_def)
  have "tsum (promise_credit (pvalues (db s))) (pstates (db s)) =
      tsum (promise_credit (pvalues (db s))) (tdel k (pstates (db s))) + {#(k, False)#}"
    using tsum_tdel_old [OF ps(1), of "promise_credit (pvalues (db s))"] ps(2,3) by (simp add: promise_credit_def)
  then have "recog k (credits s) > 0" by (simp add: credits_def)
  with z show False by simp
qed

text \<open>What the references of the messages waiting on a promise are charged for.\<close>

lemma waiting_live:
  assumes u: "unsettled k s" and ms: "queue_items k s = map QMsg ms" and a: "acct M s"
    and m: "m \<in> set ms" and r: "r \<in> set (k # message_refs m)"
  shows "isKRef r \<and> live r s"
proof -
  have k: "isKRef k" and q: "queue_ok False k s" using u by (simp_all add: unsettled_def)
  obtain s1 where f1: "same_but_queues s s1" and c1: "credits s1 + held k ms = credits s"
    using getKernelPromiseMessageQueue_run [OF isKRef_not_run [OF k] q ms] by blast
  have "acct (held k ms + M) s1"
    by (rule acct_same_rows [OF same_but_queues_rows(1) [OF f1] _ a]) (simp add: c1 [symmetric] ac_simps)
  moreover have "(r, False) \<in># held k ms" using m r by (force simp: held_def refs_def)
  ultimately have "acct (add_mset (r, False) (held k ms + M - {#(r, False)#})) s1" by simp
  then have "live r s1" by (rule acct_in_hand)
  then have l: "live r s" using same_but_queues_rows(1) [OF f1] by (simp add: live_def)
  with acct_row [OF a l] show ?thesis by simp
qed

definition answered :: "string \<Rightarrow> bool \<Rightarrow> capdata \<Rightarrow> 'h kq \<Rightarrow> 'h kq" where
  "answered kpid rej v k = (case map_of (subscriptions k) kpid of None \<Rightarrow> k
     | Some c \<Rightarrow> k\<lparr>subscriptions := obj_del kpid (subscriptions k),
         answers := answers k @ [(c, if rej then Refused (Some v) else Answered (Some v))]\<rparr>)"

lemma invoke_settled:
  assumes "settled kpid (if rej then Rejected else Fulfilled) v (kst k)"
  shows "invokeKernelSubscription kpid k = (Inr (), answered kpid rej v k)"
  using getKernelPromise_settled [OF assms]
  by (auto simp: invokeKernelSubscription_def settleKernelSubscription_def answered_def onStore_def tell_def split: option.split)

lemma answered_kst [simp]: "kst (answered kpid rej v k) = kst k"
  by (simp add: answered_def split: option.split)

text \<open>The promises other than one, and their queues.\<close>

definition others_kept :: "string \<Rightarrow> ctx \<Rightarrow> ctx \<Rightarrow> bool" where
  "others_kept kpid s s' \<longleftrightarrow> (\<forall>r. r \<noteq> kpid \<longrightarrow> r \<noteq> ''run'' \<longrightarrow> unsettled r s' = unsettled r s \<and> queue_items r s' = queue_items r s \<and>
     decider_of r s' = decider_of r s \<and> tget (psubscribers (db s')) r = tget (psubscribers (db s)) r \<and>
     (\<forall>st v. settled r st v s' = settled r st v s))"

lemma others_keptI: "other_promises_same q s s' \<Longrightarrow> q = kpid \<or> q = ''run'' \<Longrightarrow> others_kept kpid s s'"
  using unsettled_other [of q s s'] settled_other [of q s s'] queue_ok_other(2) [of q s s']
  unfolding others_kept_def by (auto simp: other_promises_same_def decider_of_def)

lemma others_kept_trans: "others_kept k s t \<Longrightarrow> others_kept k t u \<Longrightarrow> others_kept k s u"
  unfolding others_kept_def by simp

text \<open>What a resolution means to the kernel caller waiting for it: the answer at once, or with the crank's flush.\<close>

definition told :: "bool \<Rightarrow> string \<Rightarrow> bool \<Rightarrow> capdata \<Rightarrow> 'h kq \<Rightarrow> 'h kq" where
  "told b kpid rej v k =
     (if b then answered kpid rej v k
      else if map_of (subscriptions k) kpid = None then k
      else k\<lparr>resolvedWithKernelSubscription := resolvedWithKernelSubscription k @ [(kpid, rej, v)]\<rparr>)"

lemma told_kst [simp]: "kst (told b kpid rej v k) = kst k"
  by (simp add: told_def)

text \<open>Settling a promise leaves the crank's buffer and the c-lists alone.\<close>

abbreviation aside_part :: "ctx \<Rightarrow> run_item list \<times> (string \<times> string, string) tbl" where
  "aside_part s \<equiv> (crankBuffer s, clists (db s))"

lemma aside_counts_only:
  assumes "counts_only m"
  shows "spares aside_part m"
proof (rule sparesI)
  fix s r s' assume "m s = (r, s')"
  then have f: "same_but_counts s s'" using assms by (rule counts_onlyD [rotated])
  show "aside_part s' = aside_part s" by (rule same_but_countsD [OF f]) (simp add: without_counts_def)
qed

lemma aside_provide [frames]: "spares aside_part (provideStoredQueue q c)"
  unfolding provideStoredQueue_def by (intro frames; auto)

lemma set_queue_aside [simp]:
  "crankBuffer (set_queue_head c q n s) = crankBuffer s" "crankBuffer (set_queue_tail c q n s) = crankBuffer s"
  "clists (db (set_queue_head c q n s)) = clists (db s)" "clists (db (set_queue_tail c q n s)) = clists (db s)"
  by (simp_all add: set_queue_head_def set_queue_tail_def Let_def)

lemma aside_dequeue [frames]: "spares aside_part (dequeue c q)"
  unfolding dequeue_def getRequired_def incCounter_def by (intro frames; auto)

lemma aside_delete [frames]: "spares aside_part (delete_queue q)"
  unfolding delete_queue_def by (intro frames; auto)

lemma aside_drain [frames]: "spares aside_part (drain_messages n q)"
  by (induction n) (unfold drain_messages.simps, (intro frames; assumption?)+)

lemma aside_resolve: "spares aside_part (resolveKernelPromise kpid rej v)"
  unfolding resolveKernelPromise_def getKernelPromiseMessageQueue_def
  by (intro frames aside_counts_only; auto)

lemma resolvePromise_run_any:
  assumes u: "unsettled kpid (kst k)" and d: "decider_of kpid (kst k) = ep"
    and subs: "tget (psubscribers (db (kst k))) kpid = Some subs" and ms: "queue_items kpid (kst k) = map QMsg ms"
    and ok: "run_queue_ok (kst k)" and a: "acct M (kst k)" and l: "\<And>r. r \<in> set (slots v) \<Longrightarrow> isKRef r \<and> live r (kst k)"
  shows "\<exists>s'. resolvePromise ep b (kpid, rej, v) k =
      (Inr (), told b kpid rej v (k\<lparr>kst := s', asleep := asleep k \<and> (b \<longrightarrow> subs = [] \<and> ms = [])\<rparr>)) \<and>
    acct M s' \<and> run_queue_ok s' \<and> settled kpid (if rej then Rejected else Fulfilled) v s' \<and>
    run_queue_items s' = run_queue_items (kst k) @ (if b then map (\<lambda>e. Notify e kpid) subs @ map (Send kpid) ms else []) \<and>
    crankBuffer s' = crankBuffer (kst k) @ (if b then [] else map (\<lambda>e. Notify e kpid) subs @ map (Send kpid) ms) \<and>
    clists (db s') = clists (db (kst k)) \<and> others_kept kpid (kst k) s' \<and> (\<forall>j. live j (kst k) \<longrightarrow> live j s')"
proof -
  let ?s = "kst k"
  have kr: "isKRef kpid" and nr: "kpid \<noteq> ''run''" using u isKRef_not_run by (auto simp: unsettled_def)
  have lk: "live kpid ?s" using unsettled_live [OF u a] .
  text \<open>The references of the value.\<close>
  obtain s1 where s1: "onStore (forEach (slots v) increment) k = (Inr (), k\<lparr>kst := s1\<rparr>)" "acct (refs (slots v) + M) s1" "placed b ?s [] s1"
    using charge_run [OF ok a l] by blast
  text \<open>A notification for each subscriber.\<close>
  let ?k1 = "k\<lparr>kst := s1\<rparr>"
  have "\<exists>s'. forEach subs (\<lambda>e. enqueueNotify e kpid b) ?k1 = (Inr (), ?k1\<lparr>kst := s', asleep := asleep ?k1 \<and> (b \<longrightarrow> subs = [])\<rparr>) \<and>
      acct (refs (slots v) + M) s' \<and> placed b (kst ?k1) (map (\<lambda>e. Notify e kpid) subs) s'"
  proof (rule forEach_posted [of _ _ "{kpid}"], unfold enqueueNotify_unfold)
    fix e and k' :: "'a kq"
    assume "run_queue_ok (kst k')" "acct (refs (slots v) + M) (kst k')" "\<And>j. j \<in> {kpid} \<Longrightarrow> live j (kst k')"
    then show "\<exists>s'. thn (onStore (forEach (item_refs (Notify e kpid)) increment)) (postItem b (Notify e kpid)) k' =
        (Inr (), k'\<lparr>kst := s', asleep := asleep k' \<and> \<not> b\<rparr>) \<and> acct (refs (slots v) + M) s' \<and> placed b (kst k') [Notify e kpid] s'"
      using kr by (intro charged_post) auto
  qed (use s1(2) posted_ok [OF s1(3)] posted_live [OF s1(3) lk] in simp_all)
  then obtain s2 where s2: "forEach subs (\<lambda>e. enqueueNotify e kpid b) ?k1 = (Inr (), k\<lparr>kst := s2, asleep := asleep k \<and> (b \<longrightarrow> subs = [])\<rparr>)"
    "acct (refs (slots v) + M) s2" "placed b s1 (map (\<lambda>e. Notify e kpid) subs) s2" by auto
  have p2: "placed b ?s (map (\<lambda>e. Notify e kpid) subs) s2" using posted_trans [OF s1(3) s2(3)] by simp
  then have o2: "other_promises_same ''run'' ?s s2" by (simp add: placed_def)
  text \<open>The promise settles and hands its messages back.\<close>
  have u2: "unsettled kpid s2" "queue_items kpid s2 = map QMsg ms"
    using u ms unsettled_other [OF o2 nr] queue_ok_other(2) [OF _ nr, of ?s s2] o2 by (simp_all add: other_promises_same_def)
  obtain s3 where s3: "resolveKernelPromise kpid rej v s2 = (Inr (map (Pair kpid) ms), s3)" "acct M s3"
    "settled kpid (if rej then Rejected else Fulfilled) v s3" and o3: "other_promises_same kpid s2 s3"
    and q3: "rqHead s3 = rqHead s2" "rqTail s3 = rqTail s2" "runQueueLengthCache s3 = runQueueLengthCache s2" and l3: "\<forall>j. live j s2 \<longrightarrow> live j s3"
    using resolveKernelPromise_run [OF u2 s2(2)] by blast
  have r3: "run_queue_ok s3" "run_queue_items s3 = run_queue_items s2"
    using run_queue_kept [of kpid s2 s3] o3 q3 nr posted_ok [OF p2] by (simp_all add: other_promises_same_def)
  have b3: "crankBuffer s3 = crankBuffer s2" "clists (db s3) = clists (db s2)" using sparesD [OF aside_resolve s3(1)] by simp_all
  text \<open>Each message goes where the notifications went.\<close>
  let ?k3 = "k\<lparr>kst := s3, asleep := asleep k \<and> (b \<longrightarrow> subs = [])\<rparr>"
  have w: "isKRef r \<and> live r s3" if "m \<in> set ms" "r \<in> set (item_refs (Send kpid m))" for m r
    using waiting_live [OF u ms a, of m r] that posted_live [OF p2] l3 by auto
  have "\<exists>s'. forEach ms (\<lambda>m. enqueueSend kpid m b) ?k3 = (Inr (), ?k3\<lparr>kst := s', asleep := asleep ?k3 \<and> (b \<longrightarrow> ms = [])\<rparr>) \<and>
      acct M s' \<and> placed b (kst ?k3) (map (Send kpid) ms) s'"
  proof (rule forEach_posted [of _ _ "{r. live r s3}"], unfold enqueueSend_unfold)
    fix m and k' :: "'a kq"
    assume "m \<in> set ms" "run_queue_ok (kst k')" "acct M (kst k')" "\<And>j. j \<in> {r. live r s3} \<Longrightarrow> live j (kst k')"
    then show "\<exists>s'. thn (onStore (forEach (item_refs (Send kpid m)) increment)) (postItem b (Send kpid m)) k' =
        (Inr (), k'\<lparr>kst := s', asleep := asleep k' \<and> \<not> b\<rparr>) \<and> acct M s' \<and> placed b (kst k') [Send kpid m] s'"
      using w by (intro charged_post) blast+
  qed (use s3(2) r3(1) in simp_all)
  moreover have "(asleep k \<and> (b \<longrightarrow> subs = [])) \<and> (b \<longrightarrow> ms = []) \<longleftrightarrow> asleep k \<and> (b \<longrightarrow> subs = [] \<and> ms = [])" by blast
  ultimately obtain s4 where s4: "forEach ms (\<lambda>m. enqueueSend kpid m b) ?k3 = (Inr (), k\<lparr>kst := s4, asleep := asleep k \<and> (b \<longrightarrow> subs = [] \<and> ms = [])\<rparr>)"
    "acct M s4" "placed b s3 (map (Send kpid) ms) s4" by auto
  let ?k4 = "k\<lparr>kst := s4, asleep := asleep k \<and> (b \<longrightarrow> subs = [] \<and> ms = [])\<rparr>"
  have st4: "settled kpid (if rej then Rejected else Fulfilled) v s4"
    using s3(3) settled_other [of "''run''" s3 s4 kpid] nr s4(3) by (simp add: placed_def)
  have sends: "forEach (map (Pair kpid) ms) (\<lambda>q. enqueueSend (fst q) (snd q) c) = forEach ms (\<lambda>m. enqueueSend kpid m c)" for c
    by (induction ms) simp_all
  note steps = unsettled_kernel_promise [OF u subs] d s1(1) s2(1) s3(1) s4(1)
  have "resolvePromise ep b (kpid, rej, v) k = (Inr (), told b kpid rej v ?k4)"
  proof (cases b)
    case True
    then show ?thesis using steps invoke_settled [of kpid rej v ?k4] st4
      by (simp add: resolvePromise_def onStore_run onStore_forEach [symmetric] sends asleep_last told_def)
  next
    case False
    then show ?thesis using steps
      by (simp add: resolvePromise_def onStore_run onStore_forEach [symmetric] sends asleep_last told_def)
  qed
  moreover have "run_queue_items s4 = run_queue_items ?s @ (if b then map (\<lambda>e. Notify e kpid) subs @ map (Send kpid) ms else [])"
    using p2 r3(2) s4(3) by (simp add: placed_def)
  moreover have "crankBuffer s4 = crankBuffer ?s @ (if b then [] else map (\<lambda>e. Notify e kpid) subs @ map (Send kpid) ms)"
    using p2 b3 s4(3) by (simp add: placed_def)
  moreover have "clists (db s4) = clists (db ?s)" using p2 b3 s4(3) by (simp add: placed_def)
  moreover have "others_kept kpid ?s s4"
    using others_keptI [OF o2, of kpid] others_keptI [OF o3, of kpid] others_keptI [of "''run''" s3 s4 kpid] s4(3)
    by (auto simp: placed_def intro: others_kept_trans)
  moreover have "\<forall>j. live j ?s \<longrightarrow> live j s4" using posted_live [OF p2] l3 posted_live [OF s4(3)] by blast
  ultimately show ?thesis using s4(2) st4 posted_ok [OF s4(3)] by blast
qed

lemma resolvePromise_run:
  assumes "unsettled kpid (kst k)" and "decider_of kpid (kst k) = ep"
    and "tget (psubscribers (db (kst k))) kpid = Some subs" and "queue_items kpid (kst k) = map QMsg ms"
    and "run_queue_ok (kst k)" and "acct M (kst k)" and "\<And>r. r \<in> set (slots v) \<Longrightarrow> isKRef r \<and> live r (kst k)"
  shows "\<exists>s'. resolvePromise ep True (kpid, rej, v) k =
      (Inr (), answered kpid rej v (k\<lparr>kst := s', asleep := asleep k \<and> subs = [] \<and> ms = []\<rparr>)) \<and>
    acct M s' \<and> run_queue_ok s' \<and> settled kpid (if rej then Rejected else Fulfilled) v s' \<and>
    run_queue_items s' = run_queue_items (kst k) @ map (\<lambda>e. Notify e kpid) subs @ map (Send kpid) ms \<and>
    others_kept kpid (kst k) s' \<and> (\<forall>j. live j (kst k) \<longrightarrow> live j s')"
  using resolvePromise_run_any [OF assms, where b = True and rej = rej] unfolding told_def simp_thms if_True append_Nil2 by blast

text \<open>A resolution that is refused changes nothing.\<close>

lemma resolvePromise_other:
  assumes "unsettled kpid (kst k)" and "decider_of kpid (kst k) \<noteq> ep"
  shows "resolvePromise ep i (kpid, rej, v) k = (Inl (Fail ''not permitted to resolve'' [kpid]), k)"
proof -
  obtain subs where "tget (psubscribers (db (kst k))) kpid = Some subs" using assms(1) by (auto simp: unsettled_def has_def)
  from unsettled_kernel_promise [OF assms(1) this] assms(2) show ?thesis
    by (simp add: resolvePromise_def onStore_def)
qed

lemma resolvePromise_again:
  assumes "settled kpid st w (kst k)"
  shows "resolvePromise ep i (kpid, rej, v) k = (Inl (Fail ''already resolved'' [kpid]), k)"
  using getKernelPromise_settled [OF assms] assms by (simp add: resolvePromise_def onStore_def settled_def)

section \<open>Property\<close>

text \<open>
  C1. Resolving a promise: only its decider can, and once; anyone else's attempt or a second one fails and changes
  nothing. The promise then has its value, whose references it holds. The run queue has gained a notification for
  each subscriber and, behind them, each message that waited on the promise, in order. A kernel caller waiting
  for it is answered, no other promise changes, and every count is exact.
\<close>

theorem resolvePromises_correct:
  fixes k :: "'h kq"
  assumes "unsettled kpid (kst k)" and "decider_of kpid (kst k) = ep"
    and "tget (psubscribers (db (kst k))) kpid = Some subs" and "queue_items kpid (kst k) = map QMsg ms"
    and "run_queue_ok (kst k)" and "acct M (kst k)" and "\<And>r. r \<in> set (slots v) \<Longrightarrow> isKRef r \<and> live r (kst k)"
  shows "\<exists>s' k'. k' = answered kpid rej v (k\<lparr>kst := s', asleep := asleep k \<and> subs = [] \<and> ms = []\<rparr>) \<and>
    resolvePromises ep [(kpid, rej, v)] True k = (Inr (), k') \<and>
    acct M s' \<and> run_queue_ok s' \<and> settled kpid (if rej then Rejected else Fulfilled) v s' \<and>
    run_queue_items s' = run_queue_items (kst k) @ map (\<lambda>e. Notify e kpid) subs @ map (Send kpid) ms \<and>
    others_kept kpid (kst k) s' \<and>
    (\<forall>x r w. x \<noteq> ep \<longrightarrow> resolvePromises x [(kpid, r, w)] True k = (Inl (Fail ''not permitted to resolve'' [kpid]), k)) \<and>
    (\<forall>x r w. resolvePromises x [(kpid, r, w)] True k' = (Inl (Fail ''already resolved'' [kpid]), k'))"
proof -
  obtain s' where s': "resolvePromise ep True (kpid, rej, v) k =
      (Inr (), answered kpid rej v (k\<lparr>kst := s', asleep := asleep k \<and> subs = [] \<and> ms = []\<rparr>))"
    "acct M s'" "run_queue_ok s'" "settled kpid (if rej then Rejected else Fulfilled) v s'"
    "run_queue_items s' = run_queue_items (kst k) @ map (\<lambda>e. Notify e kpid) subs @ map (Send kpid) ms" "others_kept kpid (kst k) s'"
    using resolvePromise_run [OF assms] by blast
  show ?thesis using s' resolvePromise_other [OF assms(1)] assms(2)
      resolvePromise_again [of kpid "if rej then Rejected else Fulfilled" v
        "answered kpid rej v (k\<lparr>kst := s', asleep := asleep k \<and> subs = [] \<and> ms = []\<rparr>)"]
    by (intro exI [of _ s'] exI conjI refl allI impI) (simp_all add: resolvePromises_def)
qed

text \<open>A store with a promise \<open>v2\<close> decides and \<open>v1\<close> subscribes to.\<close>

definition demo_decided :: ctx where
  "demo_decided = db_update (psubscribers_update (tput ''kp1'' [''v1''])) (db_update (pdeciders_update (tput ''kp1'' ''v2'')) demo_promise)"

lemma demo_promise_run_queue: "run_queue_ok demo_promise" "run_queue_items demo_promise = []"
proof -
  have n: "nextPromiseId (cache (makeKernelStore empty_kdb)) = Some 1"
    unfolding makeKernelStore_fresh by (simp add: init_cached_rows_def init_row_def empty_kdb_def)
  obtain s' where "initKernelPromise (makeKernelStore empty_kdb) = (Inr (''kp1'', \<lparr>kp_state = Unresolved, kp_decider = None, kp_subscribers = Some [], kp_value = None\<rparr>), s')"
    and o: "other_promises_same ''kp1'' (makeKernelStore empty_kdb) s'"
    using initKernelPromise_run [OF fresh_store_acct fresh_promise_wf fresh_promise_ids] promise_slot_1 n by auto
  then have d: "demo_promise = s'" by (simp add: demo_promise_def)
  have "rqHead demo_promise = Some 1 \<and> rqTail demo_promise = Some 1 \<and> runQueueLengthCache demo_promise = - 1"
    unfolding demo_promise_def initKernelPromise_def getNextPromiseId_def makeKernelStore_fresh
    by (simp add: incCounter_def provideStoredQueue_def thn_run bnd_run init_cached_rows_def init_row_def empty_kdb_def)
  moreover have "\<forall>i. tget (qentries (db demo_promise)) (''run'', i) = None" "tget (qheads (db demo_promise)) ''run'' = Some 1"
    "tget (qtails (db demo_promise)) ''run'' = Some 1"
    using o unfolding d other_promises_same_def other_queues_same_def makeKernelStore_fresh by (simp_all add: empty_kdb_def)
  ultimately have q: "queue_ok True ''run'' demo_promise" "queue_items ''run'' demo_promise = []"
    by (simp_all add: queue_ok_def queue_items_def queue_head_def queue_tail_def has_def)
  then show "run_queue_ok demo_promise" "run_queue_items demo_promise = []"
    using \<open>rqHead demo_promise = Some 1 \<and> _ \<and> _\<close> by (simp_all add: run_queue_ok_def run_queue_items_def List.map_filter_simps)
qed

lemma demo_decided_facts:
  "unsettled ''kp1'' demo_decided" "decider_of ''kp1'' demo_decided = Some ''v2''"
  "tget (psubscribers (db demo_decided)) ''kp1'' = Some [''v1'']" "queue_items ''kp1'' demo_decided = map QMsg []"
  "run_queue_ok demo_decided" "acct {#} demo_decided" "run_queue_items demo_decided = []"
proof -
  have q: "queue_ok c k demo_decided = queue_ok c k demo_promise" "queue_items k demo_decided = queue_items k demo_promise" for c k
    by (simp_all add: demo_decided_def queue_ok_def queue_items_def queue_head_def queue_tail_def split: option.split)
  show "unsettled ''kp1'' demo_decided"
    using demo_promise_facts(3) unfolding unsettled_def q
    by (simp add: demo_decided_def isEndpointId_def all_digits_def is_digit_def)
  show "decider_of ''kp1'' demo_decided = Some ''v2''" "tget (psubscribers (db demo_decided)) ''kp1'' = Some [''v1'']"
    by (simp_all add: demo_decided_def decider_of_def)
  show "queue_items ''kp1'' demo_decided = map QMsg []" using demo_promise_facts(4) q by simp
  show "run_queue_ok demo_decided" "run_queue_items demo_decided = []"
    using demo_promise_run_queue unfolding run_queue_ok_def run_queue_items_def q by (simp_all add: demo_decided_def)
  show "acct {#} demo_decided" unfolding demo_decided_def acct_promise_rows using demo_promise_facts(1) .
qed

theorem resolvePromises_correct_witness:
  "\<exists>k :: unit kq. \<exists>k'. resolvePromises (Some ''v2'') [(''kp1'', False, \<lparr>body = ''7'', slots = []\<rparr>)] True k = (Inr (), k') \<and>
    run_queue_items (kst k') = [Notify ''v1'' ''kp1''] \<and> acct {#} (kst k') \<and>
    resolvePromises (Some ''v1'') [(''kp1'', True, \<lparr>body = ''7'', slots = []\<rparr>)] True k = (Inl (Fail ''not permitted to resolve'' [''kp1'']), k) \<and>
    answers k' = [(4, Answered (Some \<lparr>body = ''7'', slots = []\<rparr>))]"
proof -
  let ?k = "(makeKernelQueue demo_decided ())\<lparr>subscriptions := [(''kp1'', 4)]\<rparr>" and ?v = "\<lparr>body = ''7'', slots = []\<rparr>"
  have k: "kst ?k = demo_decided" by (simp add: makeKernelQueue_def)
  obtain s' k' where k': "k' = answered ''kp1'' False ?v (?k\<lparr>kst := s', asleep := asleep ?k \<and> [''v1''] = [] \<and> ([] :: message list) = []\<rparr>)"
    and r: "resolvePromises (Some ''v2'') [(''kp1'', False, ?v)] True ?k = (Inr (), k')" and a: "acct {#} s'"
    and q: "run_queue_items s' = run_queue_items (kst ?k) @ map (\<lambda>e. Notify e ''kp1'') [''v1''] @ map (Send ''kp1'') []"
    and x: "\<forall>x r w. x \<noteq> Some ''v2'' \<longrightarrow> resolvePromises x [(''kp1'', r, w)] True ?k = (Inl (Fail ''not permitted to resolve'' [''kp1'']), ?k)"
    using resolvePromises_correct [of "''kp1''" ?k "Some ''v2''" "[''v1'']" "[]" "{#}" ?v False] demo_decided_facts
    unfolding k by auto
  have "kst k' = s'" "answers k' = [(4, Answered (Some ?v))]" unfolding k' by (simp_all add: answered_def makeKernelQueue_def)
  then show ?thesis using r a q x demo_decided_facts(7) unfolding k by (intro exI [of _ ?k] exI [of _ k']) simp
qed

end
