(* ===== verification/Routing.thy ===== *)
theory Routing
  imports KernelRouter Resolution
begin

text \<open>
  What becomes of a message the run loop takes (\<open>deliverSend\<close> of theory \<open>KernelRouter\<close>). The queue
  item's references are in the hand of the delivery; on the routes that involve no endpoint they are
  all accounted for: a message that cannot be delivered rejects its result, one to an unresolved promise
  waits on it.
\<close>

section \<open>Releasing the item's references\<close>

lemma counts_only_forEach_decrement: "counts_only (forEach ks decrement)"
  by (induction ks) (simp_all del: ret_run add: counts_only_thn)

lemma keeps_live_forEach_decrement: "keeps_live (forEach ks decrement)"
  by (intro keeps_live_forEach keeps_live_thn) simp_all

lemma release_refs_run:
  assumes "run_queue_ok (kst k)" and "acct (refs ks + M) (kst k)"
  shows "\<exists>s'. onStore (forEach ks decrement) k = (Inr (), k\<lparr>kst := s'\<rparr>) \<and> acct M s' \<and> posted (kst k) [] s'"
proof -
  obtain s' where s': "forEach ks decrement (kst k) = (Inr (), s')" "acct M s'"
    using forEach_decrement_acct assms(2) by (rule totalD) auto
  have "same_but_counts (kst k) s'" using counts_only_forEach_decrement s'(1) by (rule counts_onlyD)
  moreover have "live j s'" if "live j (kst k)" for j using keeps_live_forEach_decrement s'(1) that by (rule keeps_liveD)
  ultimately have "posted (kst k) [] s'" using assms(1) by (intro posted_counts)
  then show ?thesis using s' by (auto simp: onStore_def)
qed

lemma releaseResult_unfold: "releaseResult m = onStore (forEach (case result_ref (result m) of None \<Rightarrow> [] | Some r \<Rightarrow> [r]) decrement)"
  by (rule ext) (simp add: releaseResult_def onStore_def split: option.split)

lemma releaseSlots_unfold: "releaseSlots m = onStore (forEach (slots (methargs m)) decrement)"
  by (rule ext) (simp add: releaseSlots_def onStore_forEach)

lemma one_decrement: "onStore (decrement r) = onStore (forEach [r] decrement)"
  by simp

text \<open>Releases one after the other, in whatever order.\<close>

lemma releases_run:
  assumes "run_queue_ok (kst k)" and "acct (refs (xs @ ys @ zs) + M) (kst k)"
  shows "\<exists>s'. thn (onStore (forEach xs decrement)) (thn (onStore (forEach ys decrement)) (thn (onStore (forEach zs decrement)) (ret x))) k =
    (Inr x, k\<lparr>kst := s'\<rparr>) \<and> acct M s' \<and> posted (kst k) [] s'"
proof -
  obtain s1 where s1: "onStore (forEach xs decrement) k = (Inr (), k\<lparr>kst := s1\<rparr>)" "acct (refs (ys @ zs) + M) s1" "posted (kst k) [] s1"
    using release_refs_run [OF assms(1), of xs "refs (ys @ zs) + M"] assms(2) by (auto simp: ac_simps)
  obtain s2 where s2: "onStore (forEach ys decrement) (k\<lparr>kst := s1\<rparr>) = (Inr (), k\<lparr>kst := s2\<rparr>)" "acct (refs zs + M) s2" "posted s1 [] s2"
    using release_refs_run [of "k\<lparr>kst := s1\<rparr>" ys "refs zs + M"] s1(2) posted_ok [OF s1(3)] by (auto simp: ac_simps)
  obtain s3 where s3: "onStore (forEach zs decrement) (k\<lparr>kst := s2\<rparr>) = (Inr (), k\<lparr>kst := s3\<rparr>)" "acct M s3" "posted s2 [] s3"
    using release_refs_run [of "k\<lparr>kst := s2\<rparr>" zs M] s2(2) posted_ok [OF s2(3)] by auto
  have "posted (kst k) [] s3" using posted_trans [OF posted_trans [OF s1(3) s2(3)] s3(3)] by simp
  then show ?thesis using s1(1) s2(1) s3(1,2) by (intro exI [of _ s3]) simp
qed

section \<open>A result rejected\<close>

text \<open>
  The caller of a message has its answer: the result promise is rejected, its subscribers and what waited
  on it go on the run queue, a kernel caller is told. A message that wants no result changes nothing.
\<close>

definition result_rejected :: "message \<Rightarrow> capdata \<Rightarrow> 'h kq \<Rightarrow> 'h kq \<Rightarrow> bool" where
  "result_rejected m e k k' \<longleftrightarrow> (case result_ref (result m) of
     None \<Rightarrow> k' = k\<lparr>kst := kst k'\<rparr> \<and> posted (kst k) [] (kst k')
   | Some r \<Rightarrow> \<exists>subs ms. tget (psubscribers (db (kst k))) r = Some subs \<and> queue_items r (kst k) = map QMsg ms \<and>
       k' = answered r True e (k\<lparr>kst := kst k', asleep := asleep k \<and> subs = [] \<and> ms = []\<rparr>) \<and>
       settled r Rejected e (kst k') \<and> run_queue_ok (kst k') \<and>
       run_queue_items (kst k') = run_queue_items (kst k) @ map (\<lambda>x. Notify x r) subs @ map (Send r) ms \<and>
       others_kept r (kst k) (kst k'))"

lemma answered_kst_last: "(answered r rej v k)\<lparr>kst := s\<rparr> = answered r rej v (k\<lparr>kst := s\<rparr>)"
  by (simp add: answered_def split: option.split)

lemma rejectResult_run:
  assumes "run_queue_ok (kst k)" and "acct M (kst k)"
    and u: "\<And>r. result_ref (result m) = Some r \<Longrightarrow> unsettled r (kst k)"
    and e: "\<And>r. r \<in> set (slots e) \<Longrightarrow> isKRef r \<and> live r (kst k)"
  shows "\<exists>k'. rejectResult m e k = (Inr (), k') \<and> acct M (kst k') \<and> run_queue_ok (kst k') \<and> result_rejected m e k k'"
proof (cases "result_ref (result m)")
  case None
  then show ?thesis using assms(1,2) posted_refl [OF assms(1)]
    by (intro exI [of _ k]) (simp add: rejectResult_def result_rejected_def)
next
  case (Some r)
  note ur = u [OF Some]
  obtain subs ms where s: "tget (psubscribers (db (kst k))) r = Some subs" and q: "queue_items r (kst k) = map QMsg ms"
    using ur by (auto simp: unsettled_def has_def)
  obtain s' where s': "resolvePromise (decider_of r (kst k)) True (r, True, e) k =
      (Inr (), answered r True e (k\<lparr>kst := s', asleep := asleep k \<and> subs = [] \<and> ms = []\<rparr>))"
    "acct M s'" "run_queue_ok s'" "settled r Rejected e s'"
    "run_queue_items s' = run_queue_items (kst k) @ map (\<lambda>x. Notify x r) subs @ map (Send r) ms" "others_kept r (kst k) s'"
    using resolvePromise_run [OF ur refl s q assms(1,2) e, where rej = True] by auto
  have "rejectResult m e k = (Inr (), answered r True e (k\<lparr>kst := s', asleep := asleep k \<and> subs = [] \<and> ms = []\<rparr>))"
    using s'(1) Some unsettled_kernel_promise [OF ur s] by (simp add: rejectResult_def onStore_def resolvePromises_def)
  then show ?thesis using s'(2-6) Some s q
    by (intro exI [of _ "answered r True e (k\<lparr>kst := s', asleep := asleep k \<and> subs = [] \<and> ms = []\<rparr>)"]) (simp add: result_rejected_def, rule exI [of _ ms], simp)
qed

text \<open>Counting afterwards changes none of it.\<close>

lemma result_rejected_posted:
  assumes r: "result_rejected m e k k1" and p: "posted (kst k1) [] s" and w: "\<And>r. result_ref (result m) = Some r \<Longrightarrow> r \<noteq> ''run''"
  shows "result_rejected m e k (k1\<lparr>kst := s\<rparr>)"
proof (cases "result_ref (result m)")
  case None
  with r have k1: "k1 = k\<lparr>kst := kst k1\<rparr>" and p1: "posted (kst k) [] (kst k1)" by (simp_all add: result_rejected_def)
  have "k1\<lparr>kst := s\<rparr> = k\<lparr>kst := s\<rparr>" using arg_cong [OF k1, of "\<lambda>x. x\<lparr>kst := s\<rparr>"] by simp
  then show ?thesis using None posted_trans [OF p1 p] by (simp add: result_rejected_def)
next
  case (Some x)
  have o: "other_promises_same ''run'' (kst k1) s" and q: "run_queue_ok s" "run_queue_items s = run_queue_items (kst k1)"
    using p by (simp_all add: placed_def)
  obtain subs ms where s: "tget (psubscribers (db (kst k))) x = Some subs" "queue_items x (kst k) = map QMsg ms"
    "k1 = answered x True e (k\<lparr>kst := kst k1, asleep := asleep k \<and> subs = [] \<and> ms = []\<rparr>)" "settled x Rejected e (kst k1)"
    "run_queue_items (kst k1) = run_queue_items (kst k) @ map (\<lambda>y. Notify y x) subs @ map (Send x) ms" "others_kept x (kst k) (kst k1)"
    using r Some by (auto simp: result_rejected_def)
  have "k1\<lparr>kst := s\<rparr> = answered x True e (k\<lparr>kst := s, asleep := asleep k \<and> subs = [] \<and> ms = []\<rparr>)"
    by (subst s(3)) (simp add: answered_kst_last asleep_last)
  moreover have "settled x Rejected e s" using s(4) settled_other [OF o w [OF Some]] by simp
  moreover have "others_kept x (kst k) s" using others_kept_trans [OF s(6) others_keptI [OF o]] by simp
  ultimately show ?thesis using Some s(1,2,5) q by (simp add: result_rejected_def) (rule exI [of _ ms], simp)
qed

lemma reject_and_release:
  assumes ok: "run_queue_ok (kst k)" and a: "acct (refs (target # message_refs m) + M) (kst k)"
    and u: "\<And>r. result_ref (result m) = Some r \<Longrightarrow> unsettled r (kst k)"
    and e: "\<And>r. r \<in> set (slots e) \<Longrightarrow> isKRef r \<and> live r (kst k)"
    and l: "mset (xs @ ys @ zs) = mset (target # message_refs m)"
  shows "\<exists>k'. thn (rejectResult m e) (thn (onStore (forEach xs decrement)) (thn (onStore (forEach ys decrement))
      (thn (onStore (forEach zs decrement)) (ret x)))) k = (Inr x, k') \<and> acct M (kst k') \<and> result_rejected m e k k'"
proof -
  have w: "r \<noteq> ''run''" if "result_ref (result m) = Some r" for r
    using u [OF that] isKRef_not_run by (auto simp: unsettled_def)
  obtain k1 where k1: "rejectResult m e k = (Inr (), k1)" "acct (refs (target # message_refs m) + M) (kst k1)"
    "run_queue_ok (kst k1)" "result_rejected m e k k1" using rejectResult_run [OF ok a u e] by blast
  have "refs (xs @ ys @ zs) = refs (target # message_refs m)" using l by (simp only: refs_def)
  then obtain s where "thn (onStore (forEach xs decrement)) (thn (onStore (forEach ys decrement))
      (thn (onStore (forEach zs decrement)) (ret x))) k1 = (Inr x, k1\<lparr>kst := s\<rparr>)" "acct M s" "posted (kst k1) [] s"
    using releases_run [OF k1(3), of xs ys zs M x] k1(2) by auto
  then show ?thesis using k1(1) result_rejected_posted [OF k1(4) _ w]
    by (intro exI [of _ "k1\<lparr>kst := s\<rparr>"]) simp
qed

section \<open>Messages nobody can take\<close>

text \<open>Why an object cannot be sent to, if it cannot.\<close>

definition objectRefusal :: "'h router \<Rightarrow> string \<Rightarrow> 'h kq \<Rightarrow> capdata option" where
  "objectRefusal R object k =
     (if isRevoked object (kst k) then Some (makeKernelError (hostOf R) ''OBJECT_REVOKED'' ''Target object has been revoked'')
      else case tget (owners (db (kst k))) object of
        None \<Rightarrow> Some (makeKernelError (hostOf R) ''OBJECT_DELETED'' ''Target object has no owner; it may have been deleted'')
      | Some ep \<Rightarrow>
          if ep = ''kernel'' then None
          else case getEndpoint R ep k of Inr _ \<Rightarrow> None
            | Inl _ \<Rightarrow> Some (makeKernelError (hostOf R) ''ENDPOINT_UNREACHABLE'' ''Target endpoint is unreachable (terminated or disconnected)''))"

text \<open>Why a target cannot: a rejected promise passes its reason on, a fulfilled one stands for its object.\<close>

definition refusal :: "'h router \<Rightarrow> string \<Rightarrow> 'h kq \<Rightarrow> capdata option" where
  "refusal R target k =
     (if isPromiseRef target
      then case tget (pvalues (db (kst k))) target of None \<Rightarrow> None
        | Some v \<Rightarrow>
            if tget (pstates (db (kst k))) target = Some Rejected then Some v
            else (case singleRef R v of Inl _ \<Rightarrow> None
              | Inr found \<Rightarrow>
                  if \<not> truthy found then Some (makeKernelError (hostOf R) ''BAD_PROMISE_RESOLUTION''
                    ''Promise fulfilled but did not contain an object reference'')
                  else if isPromiseRef (the found) then None else objectRefusal R (the found) k)
      else objectRefusal R target k)"

definition owners_named :: "ctx \<Rightarrow> bool" where
  "owners_named s \<longleftrightarrow> (\<forall>k ep. tget (owners (db s)) k = Some ep \<longrightarrow> ep = ''kernel'' \<or> isEndpointId ep)"

lemma routeAsSend_refused:
  assumes o: "owners_named (kst k)" and e: "objectRefusal R object k = Some e"
  shows "routeAsSend (hostOf R) m object k = thn (rejectResult m e) (ret Splat) k \<or>
    (\<exists>ep h. routeAsSend (hostOf R) m object k = (Inr (ToEndpoint ep object), k) \<and> ep \<noteq> ''kernel'' \<and> getEndpoint R ep k = Inl h \<and>
      e = makeKernelError (hostOf R) ''ENDPOINT_UNREACHABLE'' ''Target endpoint is unreachable (terminated or disconnected)'')"
proof (cases "isRevoked object (kst k)")
  case True
  then show ?thesis using e by (simp add: objectRefusal_def routeAsSend_def routeAsSplat_def)
next
  case False
  show ?thesis
  proof (cases "tget (owners (db (kst k))) object")
    case None
    then have g: "getOwner object (kst k) = (Inr None, kst k)" by (simp add: getOwner_def)
    have "e = makeKernelError (hostOf R) ''OBJECT_DELETED'' ''Target object has no owner; it may have been deleted''"
      using False None e by (simp add: objectRefusal_def)
    then show ?thesis using False g by (simp add: routeAsSend_def routeAsSplat_def onStore_def)
  next
    case (Some ep)
    then have n: "ep \<noteq> ''kernel''" and h: "\<exists>h. getEndpoint R ep k = Inl h"
      "e = makeKernelError (hostOf R) ''ENDPOINT_UNREACHABLE'' ''Target endpoint is unreachable (terminated or disconnected)''"
      using False e by (auto simp: objectRefusal_def split: if_splits sum.splits)
    then have "isEndpointId ep" using o Some by (auto simp: owners_named_def)
    then have "getOwner object (kst k) = (Inr (Some ep), kst k)" using Some n by (simp add: getOwner_def insistEndpointId_def)
    then show ?thesis using False n h by (auto simp: routeAsSend_def onStore_def)
  qed
qed

lemma routeMessage_refused:
  assumes o: "owners_named (kst k)" and p: "isPromiseRef target \<Longrightarrow> \<exists>st v. settled target st v (kst k)" and e: "refusal R target k = Some e"
  shows "routeMessage R target m k = thn (rejectResult m e) (ret Splat) k \<or>
    (\<exists>ep object h. routeMessage R target m k = (Inr (ToEndpoint ep object), k) \<and> ep \<noteq> ''kernel'' \<and> getEndpoint R ep k = Inl h \<and>
      e = makeKernelError (hostOf R) ''ENDPOINT_UNREACHABLE'' ''Target endpoint is unreachable (terminated or disconnected)'')"
proof (cases "isPromiseRef target")
  case False
  then show ?thesis using routeAsSend_refused [OF o, of R target e m] e by (auto simp: routeMessage_def refusal_def)
next
  case True
  obtain st v where s: "settled target st v (kst k)" using p True by blast
  note g = getKernelPromise_settled [OF s]
  have st: "tget (pstates (db (kst k))) target = Some st" "tget (pvalues (db (kst k))) target = Some v" "st \<noteq> Unresolved"
    using s by (simp_all add: settled_def)
  show ?thesis
  proof (cases "st = Rejected")
    case True
    then show ?thesis using \<open>isPromiseRef target\<close> g st e by (simp add: routeMessage_def refusal_def onStore_def routeAsSplat_def)
  next
    case False
    then have f: "st = Fulfilled" using st(3) by (cases st) simp_all
    obtain found where r: "singleRef R v = Inr found" using True False st e by (auto simp: refusal_def split: sum.splits)
    show ?thesis
    proof (cases "truthy found")
      case False
      then show ?thesis using True f g st e r by (simp add: routeMessage_def refusal_def onStore_def routeAsSplat_def)
    next
      case t: True
      then have np: "\<not> isPromiseRef (the found)" and oe: "objectRefusal R (the found) k = Some e"
        using True f st e r by (simp_all add: refusal_def split: if_splits)
      have "routeMessage R target m k = routeAsSend (hostOf R) m (the found) k"
        using True f g r t np by (simp add: routeMessage_def onStore_def)
      then show ?thesis using routeAsSend_refused [OF o oe, of m] by auto
    qed
  qed
qed

text \<open>What a settled promise's value names is live: the promise holds it.\<close>

lemma recog_refs: "r \<in> set ks \<Longrightarrow> recog r (refs ks) > 0"
  by (induction ks) auto

lemma settled_slots_live:
  assumes s: "settled k st v s" and a: "acct M s" and r: "r \<in> set (slots v)"
  shows "isKRef r \<and> live r s"
proof -
  have p: "isKRef k" "isPromiseRef k" "tget (pstates (db s)) k = Some st" "st \<noteq> Unresolved" "tget (pvalues (db s)) k = Some v"
    using s by (simp_all add: settled_def)
  have "tsum (promise_credit (pvalues (db s))) (pstates (db s)) =
      tsum (promise_credit (pvalues (db s))) (tdel k (pstates (db s))) + refs (slots v)"
    using tsum_tdel_old [OF p(3), of "promise_credit (pvalues (db s))"] p by (simp add: promise_credit_def value_slots_def)
  moreover have "recog r (refs (slots v)) > 0" using r by (rule recog_refs)
  ultimately have "recog r (credits s + M) > 0" by (simp add: credits_def)
  then have l: "live r s" using acct_gone [OF a, of r] by (metis less_numeral_extra(3))
  with acct_row [OF a l] show ?thesis by simp
qed


lemma refusal_slots:
  assumes "acct M (kst k)" and "\<And>text. slots (kserError (hostOf R) text) = []"
    and p: "isPromiseRef target \<Longrightarrow> \<exists>st v. settled target st v (kst k)" and e: "refusal R target k = Some e" and r: "r \<in> set (slots e)"
  shows "isKRef r \<and> live r (kst k)"
proof -
  have no: "slots (makeKernelError (hostOf R) c d) = []" for c d using assms(2) by (simp add: makeKernelError_def)
  have obj: "objectRefusal R x k \<noteq> Some e" for x using r by (auto simp: objectRefusal_def no split: option.splits sum.splits)
  show ?thesis
  proof (cases "isPromiseRef target")
    case False
    then show ?thesis using e obj by (simp add: refusal_def)
  next
    case True
    obtain st v where s: "settled target st v (kst k)" using p True by blast
    then have "tget (pvalues (db (kst k))) target = Some v" by (simp add: settled_def)
    then have "e = v" using True e obj r by (auto simp: refusal_def no split: if_splits sum.splits)
    then show ?thesis using settled_slots_live [OF s assms(1)] r by blast
  qed
qed

section \<open>Properties\<close>

text \<open>
  C2. A message that cannot be delivered, because its target is revoked, deleted, unreachable, a promise rejected
  or one that came to no object, is not lost without trace: its result is rejected with the reason, and whoever waits
  for the result is told. The references the message held are released, every count is exact and no other
  promise changes.
\<close>

theorem undeliverable_send_rejects:
  assumes e: "refusal R target k = Some e" and ok: "run_queue_ok (kst k)" and o: "owners_named (kst k)"
    and a: "acct (refs (item_refs (Send target m)) + M) (kst k)"
    and p: "isPromiseRef target \<Longrightarrow> \<exists>st v. settled target st v (kst k)"
    and u: "\<And>r. result_ref (result m) = Some r \<Longrightarrow> unsettled r (kst k)"
    and n: "\<And>text. slots (kserError (hostOf R) text) = []"
  shows "\<exists>k'. deliver R (Run (Send target m)) k = (Inr None, k') \<and> acct M (kst k') \<and> result_rejected m e k k'"
proof -
  let ?result = "case result_ref (result m) of None \<Rightarrow> [] | Some r \<Rightarrow> [r]" and ?slots = "slots (methargs m)"
  have a': "acct (refs (target # message_refs m) + M) (kst k)" using a by simp
  note rel = reject_and_release [OF ok a' u refusal_slots [OF a n p e]]
  have splat: "deliverSplat target m = thn (onStore (forEach [target] decrement)) (thn (onStore (forEach ?result decrement))
      (thn (onStore (forEach ?slots decrement)) (ret None)))"
    by (simp add: deliverSplat_def releaseResult_unfold releaseSlots_unfold)
  have gone: "deliverUnreachable R target m = thn (rejectResult m (makeKernelError (hostOf R) ''ENDPOINT_UNREACHABLE''
        ''Target endpoint is unreachable (terminated or disconnected)''))
      (thn (onStore (forEach ?result decrement)) (thn (onStore (forEach [target] decrement)) (thn (onStore (forEach ?slots decrement)) (ret None))))"
    by (simp add: deliverUnreachable_def releaseResult_unfold releaseSlots_unfold)
  from routeMessage_refused [OF o p e, of m] show ?thesis
  proof
    assume "routeMessage R target m k = thn (rejectResult m e) (ret Splat) k"
    moreover obtain k' where k': "thn (rejectResult m e) (deliverSplat target m) k = (Inr None, k')" "acct M (kst k')" "result_rejected m e k k'"
      using rel [where xs = "[target]" and ys = ?result and zs = ?slots and x = None] by (auto simp: splat message_refs_def)
    ultimately have "deliverSend R target m k = (Inr None, k')"
      by (cases "rejectResult m e k") (auto simp: deliverSend_def bnd_run thn_run split: sum.splits)
    with k' show ?thesis by simp
  next
    assume "\<exists>ep object h. routeMessage R target m k = (Inr (ToEndpoint ep object), k) \<and> ep \<noteq> ''kernel'' \<and> getEndpoint R ep k = Inl h \<and>
      e = makeKernelError (hostOf R) ''ENDPOINT_UNREACHABLE'' ''Target endpoint is unreachable (terminated or disconnected)''"
    then have "deliverSend R target m k = thn (rejectResult m e) (thn (onStore (forEach ?result decrement))
        (thn (onStore (forEach [target] decrement)) (thn (onStore (forEach ?slots decrement)) (ret None)))) k"
      by (auto simp: deliverSend_def bnd_run gone)
    then show ?thesis using rel [where xs = ?result and ys = "[target]" and zs = ?slots and x = None] by (auto simp: message_refs_def)
  qed
qed

text \<open>A message for \<open>ko1\<close>, whose vat \<open>v1\<close> is gone, with result \<open>kp1\<close>, that \<open>v2\<close> decides and \<open>v1\<close> subscribes to.\<close>

definition demo_gone_router :: "unit router" where
  "demo_gone_router =
     \<lparr>hostOf = \<lparr>database = sql_database (\<lambda>_. Works), kserError = \<lambda>t. \<lparr>body = t, slots = []\<rparr>, terminateVat = \<lambda>_ _. ret ()\<rparr>,
      getEndpoint = \<lambda>ep _. Inl (VatNotFound ep), invokeKernelService = \<lambda>_ _. ret (), restartVat = \<lambda>_. ret None, endVat = \<lambda>_ _. ret None,
      applyIncarnationChange = \<lambda>p _ _. ret (delivered p), performControl = \<lambda>_. ret (), singleRef = \<lambda>_. Inr None,
      errorText = \<lambda>_. [], causeText = \<lambda>_. []\<rparr>"

lemma demo_gone:
  "\<exists>s. run_queue_ok s \<and> run_queue_items s = [] \<and> owners_named s \<and> acct (refs [''ko1'', ''kp1'']) s \<and> unsettled ''kp1'' s \<and>
    tget (owners (db s)) ''ko1'' = Some ''v1'' \<and> \<not> isRevoked ''ko1'' s \<and> tget (psubscribers (db s)) ''kp1'' = Some [''v1''] \<and>
    queue_items ''kp1'' s = []"
proof -
  have c: "nextObjectId (cache demo_decided) = Some 1"
    unfolding demo_decided_def demo_promise_def initKernelPromise_def getNextPromiseId_def makeKernelStore_fresh
    by (simp add: incCounter_def provideStoredQueue_def thn_run bnd_run init_cached_rows_def init_row_def empty_kdb_def)
  have rows: "owners (db demo_decided) = tempty" "revokeds (db demo_decided) = tempty" "refCounts (db demo_decided) = tput ''kp1'' ''1'' tempty"
    "nextPromiseId (cache demo_decided) = Some 2"
    unfolding demo_decided_def demo_promise_def initKernelPromise_def getNextPromiseId_def makeKernelStore_fresh
    by (simp_all add: incCounter_def provideStoredQueue_def thn_run bnd_run init_cached_rows_def init_row_def empty_kdb_def
        numeral_2_eq_2 nat_text_eval)
  have k1: "object_slot 1 = ''ko1''" by (simp add: object_slot_def nat_text_eval)
  have "ids_fresh demo_decided"
    unfolding ids_fresh_def using c rows promise_slot_1 slot_inj(2) [of _ 1] slot_inj(3) [of _ 1]
    by (auto simp: live_def)
  from initKernelObject_run [OF demo_decided_facts(6) this, of "''v1''"] obtain s where a: "acct {#} s" and l: "live ''ko1'' s"
    and s: "s = demo_decided\<lparr>cache := (cache demo_decided)\<lparr>nextObjectId := Some 2\<rparr>,
        db := (db demo_decided)\<lparr>cachedRows := (cachedRows (db demo_decided))\<lparr>nextObjectId := Some 2\<rparr>,
          owners := tput ''ko1'' ''v1'' (owners (db demo_decided)),
          refCounts := tput ''ko1'' (count_text ''ko1'' 0 0) (refCounts (db demo_decided))\<rparr>\<rparr>"
    unfolding c by (auto simp: k1 [unfolded One_nat_def] numeral_2_eq_2)
  have q: "queue_ok x k s = queue_ok x k demo_decided" "queue_items k s = queue_items k demo_decided" for x k
    by (simp_all add: s queue_ok_def queue_items_def queue_head_def queue_tail_def split: option.split)
  have u: "unsettled ''kp1'' s" using demo_decided_facts(1) unfolding unsettled_def q by (simp add: s)
  have ok: "run_queue_ok s" "run_queue_items s = []"
    using demo_decided_facts(5,7) unfolding run_queue_ok_def run_queue_items_def q by (simp_all add: s)
  have lp: "live ''kp1'' s" using rows(3) by (simp add: s live_def)
  have kr: "isKRef ''ko1''" "isKRef ''kp1''" by (simp_all add: all_digits_def is_digit_def)
  have each: "isKRef k \<and> live k s" if "k \<in> set [''ko1'', ''kp1'']" for k using that l lp kr by auto
  obtain t where t: "exact (refs [''ko1'', ''kp1''] + credits s) t" and lt: "\<forall>j. live j s \<longrightarrow> live j t" and f: "same_but_counts s t"
    using forEach_increment_run [of "credits s" s "[''ko1'', ''kp1'']", OF _ each] a unfolding acct_def by auto
  have o: "owners (db t) = owners (db s)" "revokeds (db t) = revokeds (db s)"
    by (rule same_but_countsD [OF f, of "\<lambda>x. owners (db x)"] same_but_countsD [OF f, of "\<lambda>x. revokeds (db x)"]; simp add: without_counts_def)+
  have p: "posted s [] t" using posted_counts [OF f ok(1)] lt by blast
  have "run_queue_ok t" "run_queue_items t = []" using p ok(2) by (simp_all add: placed_def)
  moreover have "owners_named t" "tget (owners (db t)) ''ko1'' = Some ''v1''" "\<not> isRevoked ''ko1'' t"
    using o rows by (simp_all add: owners_named_def s isRevoked_def truthy_def isEndpointId_def all_digits_def is_digit_def)
  moreover have "acct (refs [''ko1'', ''kp1'']) t" using t by (simp add: acct_def same_but_counts_credits [OF f] ac_simps)
  moreover have "unsettled ''kp1'' t" "queue_items ''kp1'' t = []" "tget (psubscribers (db t)) ''kp1'' = Some [''v1'']"
    using u same_but_counts_promises(1) [OF f] same_but_counts_queue(2) [OF f] q demo_decided_facts(3,4) same_but_counts_rows(3) [OF f]
    by (simp_all add: s)
  ultimately show ?thesis by blast
qed

theorem undeliverable_send_rejects_witness:
  "\<exists>k k'. deliver demo_gone_router (Run (Send ''ko1'' \<lparr>methargs = \<lparr>body = ''hi'', slots = []\<rparr>, result = Result ''kp1''\<rparr>)) k = (Inr None, k') \<and>
    acct {#} (kst k') \<and> run_queue_items (kst k') = [Notify ''v1'' ''kp1''] \<and>
    settled ''kp1'' Rejected
      \<lparr>body = ''[KERNEL:ENDPOINT_UNREACHABLE] Target endpoint is unreachable (terminated or disconnected)'', slots = []\<rparr> (kst k')"
proof -
  let ?m = "\<lparr>methargs = \<lparr>body = ''hi'', slots = []\<rparr>, result = Result ''kp1''\<rparr>" and ?R = demo_gone_router
  let ?e = "\<lparr>body = ''[KERNEL:ENDPOINT_UNREACHABLE] Target endpoint is unreachable (terminated or disconnected)'', slots = []\<rparr>"
  obtain s where s: "run_queue_ok s" "run_queue_items s = []" "owners_named s" "acct (refs [''ko1'', ''kp1'']) s" "unsettled ''kp1'' s"
    "tget (owners (db s)) ''ko1'' = Some ''v1''" "\<not> isRevoked ''ko1'' s" "tget (psubscribers (db s)) ''kp1'' = Some [''v1'']" "queue_items ''kp1'' s = []"
    using demo_gone by blast
  let ?k = "makeKernelQueue s ()"
  have k: "kst ?k = s" by (simp add: makeKernelQueue_def)
  have e: "refusal ?R ''ko1'' ?k = Some ?e"
    using s(6,7) unfolding refusal_def objectRefusal_def k by (simp add: demo_gone_router_def makeKernelError_def isPromiseRef_def)
  have "acct (refs (item_refs (Send ''ko1'' ?m)) + {#}) (kst ?k)" using s(4) unfolding k by (simp add: message_refs_def)
  from undeliverable_send_rejects [OF e _ _ this] obtain k' where
    "deliver ?R (Run (Send ''ko1'' ?m)) ?k = (Inr None, k')" "acct {#} (kst k')" "result_rejected ?m ?e ?k k'"
    using s(1,3,5) unfolding k by (auto simp: isPromiseRef_def demo_gone_router_def)
  moreover from this(3) have "run_queue_items (kst k') = [Notify ''v1'' ''kp1'']" "settled ''kp1'' Rejected ?e (kst k')"
    using s(2,8,9) unfolding result_rejected_def k by auto
  ultimately show ?thesis by blast
qed

section \<open>Messages that wait on a promise\<close>

text \<open>The promise a message to \<open>target\<close> is put on: the target, or the promise it was fulfilled with.\<close>

definition waits_on :: "'h router \<Rightarrow> string \<Rightarrow> string \<Rightarrow> ctx \<Rightarrow> bool" where
  "waits_on R target p s \<longleftrightarrow> target = p \<and> unsettled p s \<or>
     (\<exists>v. settled target Fulfilled v s \<and> singleRef R v = Inr (Some p) \<and> isKRef p \<and> isPromiseRef p)"

lemma route_waits:
  assumes "waits_on R target p (kst k)"
  shows "routeMessage R target m k = (Inr (Requeue p), k)"
  using assms unfolding waits_on_def
proof
  assume u: "target = p \<and> unsettled p (kst k)"
  then obtain subs where "tget (psubscribers (db (kst k))) p = Some subs" by (auto simp: unsettled_def has_def)
  with u unsettled_kernel_promise [of p "kst k"] show ?thesis by (simp add: routeMessage_def onStore_def unsettled_def)
next
  assume "\<exists>v. settled target Fulfilled v (kst k) \<and> singleRef R v = Inr (Some p) \<and> isKRef p \<and> isPromiseRef p"
  then obtain v where s: "settled target Fulfilled v (kst k)" and r: "singleRef R v = Inr (Some p)" "isKRef p" "isPromiseRef p" by blast
  have "truthy (Some p)" using r(2) by (auto simp: truthy_def)
  moreover have "isPromiseRef target" using s by (simp add: settled_def)
  ultimately show ?thesis using getKernelPromise_settled [OF s] r by (simp add: routeMessage_def onStore_def)
qed

text \<open>What is in hand is live.\<close>

lemma in_hand_live: "acct (refs ks + M) s \<Longrightarrow> r \<in> set ks \<Longrightarrow> isKRef r \<and> live r s"
proof -
  assume a: "acct (refs ks + M) s" and r: "r \<in> set ks"
  have "recog r (credits s + (refs ks + M)) > 0" using recog_refs [OF r] by simp
  then have l: "live r s" using acct_gone [OF a, of r] by (metis less_numeral_extra(3))
  with acct_row [OF a l] show ?thesis by simp
qed

text \<open>Only counts, the candidates for collection that go with them, and the queue of \<open>p\<close> change.\<close>

definition waited :: "string \<Rightarrow> ctx \<Rightarrow> ctx \<Rightarrow> bool" where
  "waited p s s' \<longleftrightarrow> other_queues_same p s s' \<and> rqHead s' = rqHead s \<and> rqTail s' = rqTail s \<and>
     without_queues (without_counts s') = without_queues (without_counts s)"

lemma waited_trans: "waited p s t \<Longrightarrow> waited p t u \<Longrightarrow> waited p s u"
  unfolding waited_def by (auto intro: other_queues_trans)

lemma waited_counts: "same_but_counts s s' \<Longrightarrow> waited p s s'"
  using same_but_counts_rows(5-9) [of s s'] by (simp add: waited_def other_queues_same_def same_but_counts_def)

definition waits :: "string \<Rightarrow> ('s \<Rightarrow> ctx) \<Rightarrow> ('s, 'a) sm \<Rightarrow> bool" where
  "waits p f m \<longleftrightarrow> (\<forall>s. waited p (f s) (f (snd (m s))))"

lemma waitsD: "waits p f m \<Longrightarrow> m s = (r, s') \<Longrightarrow> waited p (f s) (f s')"
  unfolding waits_def by (metis snd_conv)

lemma waits_thn:
  assumes "waits p f m" and "waits p f n"
  shows "waits p f (thn m n)"
  unfolding waits_def
proof
  fix s
  obtain r t where r: "m s = (r, t)" by fastforce
  have "waited p (f s) (f t)" using assms(1) r by (rule waitsD)
  with r assms(2) show "waited p (f s) (f (snd (thn m n s)))"
    by (cases r) (auto simp: thn_run waits_def intro: waited_trans)
qed

lemma waits_counts: "counts_only m \<Longrightarrow> waits p id m"
  unfolding waits_def counts_only_def using waited_counts by (metis id_apply)

lemma waits_onStore: "waits p id m \<Longrightarrow> waits p kst (onStore m)"
  by (auto simp: waits_def onStore_def split: prod.split) (metis snd_conv)

lemma waits_ret: "waits p f (ret x)"
  by (simp add: waits_def waited_def)

lemma waits_provide: "waits p id (provideStoredQueue p False)"
  unfolding waits_def provideStoredQueue_def
  by (auto simp: waited_def other_queues_same_def without_queues_def without_counts_def put_if_absent_def whenM_def thn_run split: option.split)

lemma waits_enqueue: "waits p id (enqueue False p x)"
  unfolding waits_def
  by (auto simp: enqueue_def waited_def other_queues_same_def without_queues_def without_counts_def bnd_run thn_run
      queue_head_def set_queue_head_def incCounter_def split: option.split)

lemma waits_enqueuePromiseMessage: "waits p id (enqueuePromiseMessage p m)"
proof -
  have "waits p id (forEach (p # message_refs m) increment)" by (intro waits_counts counts_only_forEach counts_only_thn) simp_all
  then have "waits p id (thn (forEach (p # message_refs m) increment) (thn (provideStoredQueue p False) (enqueue False p (QMsg m))))"
    by (intro waits_thn waits_provide waits_enqueue)
  then show ?thesis unfolding waits_def enqueuePromiseMessage_unfold .
qed

lemma waits_deliverRequeue: "waits p kst (deliverRequeue target p m)"
  unfolding deliverRequeue_def one_decrement releaseResult_unfold releaseSlots_unfold
  by (intro waits_thn waits_onStore waits_enqueuePromiseMessage waits_ret waits_counts counts_only_forEach_decrement)

lemma deliverRequeue_run:
  fixes k :: "'a kq"
  assumes ok: "run_queue_ok (kst k)" and a: "acct (refs (target # message_refs m) + M) (kst k)" and u: "unsettled p (kst k)"
  shows "\<exists>s'. deliverRequeue target p m k = (Inr None, k\<lparr>kst := s'\<rparr>) \<and> acct M s' \<and> run_queue_ok s' \<and>
    run_queue_items s' = run_queue_items (kst k) \<and> unsettled p s' \<and> queue_items p s' = queue_items p (kst k) @ [QMsg m] \<and>
    others_kept p (kst k) s' \<and> waited p (kst k) s'"
proof -
  have np: "p \<noteq> ''run''" using u isKRef_not_run by (auto simp: unsettled_def)
  have l: "isKRef r \<and> live r (kst k)" if "r \<in> set (message_refs m)" for r using in_hand_live [OF a] that by simp
  obtain s1 where s1: "enqueuePromiseMessage p m (kst k) = (Inr (), s1)" "acct (refs (target # message_refs m) + M) s1"
    "unsettled p s1" "queue_items p s1 = queue_items p (kst k) @ [QMsg m]" and o: "other_promises_same p (kst k) s1"
    and h: "rqHead s1 = rqHead (kst k)" "rqTail s1 = rqTail (kst k)" "runQueueLengthCache s1 = runQueueLengthCache (kst k)"
    using enqueuePromiseMessage_run [OF u a l] by blast
  have q: "run_queue_ok s1 \<and> run_queue_items s1 = run_queue_items (kst k)"
    using run_queue_kept [of p "kst k" s1] o np ok h by (simp add: other_promises_same_def)
  let ?result = "case result_ref (result m) of None \<Rightarrow> [] | Some r \<Rightarrow> [r]"
  obtain s' where s': "thn (onStore (forEach [target] decrement)) (thn (onStore (forEach ?result decrement))
      (thn (onStore (forEach (slots (methargs m)) decrement)) (ret (None :: 'a crank_result option)))) (k\<lparr>kst := s1\<rparr>) = (Inr None, k\<lparr>kst := s'\<rparr>)"
    "acct M s'" and p': "posted s1 [] s'"
    using releases_run [of "k\<lparr>kst := s1\<rparr>" "[target]" ?result "slots (methargs m)" M "None :: 'a crank_result option"] q s1(2) by (auto simp: message_refs_def)
  have run: "deliverRequeue target p m k = (Inr None, k\<lparr>kst := s'\<rparr>)"
    using s1(1) s'(1) by (simp add: deliverRequeue_def releaseResult_unfold releaseSlots_unfold onStore_run)
  have o': "other_promises_same ''run'' s1 s'" and q': "run_queue_ok s'" "run_queue_items s' = run_queue_items s1" using p' by (simp_all add: placed_def)
  have "unsettled p s'" "queue_items p s' = queue_items p s1"
    using unsettled_other [OF o' np] s1(3) queue_ok_other(2) [of "''run''" s1 s' p] o' np by (simp_all add: other_promises_same_def)
  then show ?thesis using run s'(2) q q' s1(4) others_kept_trans [OF others_keptI [OF o] others_keptI [OF o']] waitsD [OF waits_deliverRequeue run] by auto
qed


text \<open>
  C4. A message to an unresolved promise, or to one fulfilled with another that is unresolved, waits on
  that promise: it joins the end of its queue, in whose keep its references are from then on, the reference that brought it to its
  target given up, so that the counts stay exact. Nothing changes but counts, the candidates for collection that go with them, and that one
  queue: all other rows of the store (the promise's own state, subscribers and decider, c-lists, owners), its caches, the crank buffer
  and all other queues, the run queue among them, are what they were.
\<close>

theorem send_waits_on_promise:
  fixes k :: "'h kq"
  assumes "waits_on R target p (kst k)" and "unsettled p (kst k)" and "run_queue_ok (kst k)"
    and "acct (refs (item_refs (Send target m)) + M) (kst k)"
  shows "\<exists>s'. deliver R (Run (Send target m)) k = (Inr None, k\<lparr>kst := s'\<rparr>) \<and> acct M s' \<and> run_queue_ok s' \<and>
    run_queue_items s' = run_queue_items (kst k) \<and> unsettled p s' \<and> queue_items p s' = queue_items p (kst k) @ [QMsg m] \<and>
    others_kept p (kst k) s' \<and> other_queues_same p (kst k) s' \<and> rqHead s' = rqHead (kst k) \<and> rqTail s' = rqTail (kst k) \<and>
    without_queues (without_counts s') = without_queues (without_counts (kst k))"
  using deliverRequeue_run [of k target m M p] assms route_waits [OF assms(1), of m]
  unfolding waited_def by (simp add: deliverSend_def bnd_run)

theorem send_waits_on_promise_witness:
  "\<exists>(k :: unit kq) s'. deliver demo_gone_router (Run (Send ''kp1'' \<lparr>methargs = \<lparr>body = ''hi'', slots = []\<rparr>, result = NoResult\<rparr>)) k =
      (Inr None, k\<lparr>kst := s'\<rparr>) \<and> acct {#} s' \<and> run_queue_items s' = [] \<and>
    queue_items ''kp1'' s' = [QMsg \<lparr>methargs = \<lparr>body = ''hi'', slots = []\<rparr>, result = NoResult\<rparr>]"
proof -
  let ?m = "\<lparr>methargs = \<lparr>body = ''hi'', slots = []\<rparr>, result = NoResult\<rparr>" and ?k = "makeKernelQueue demo_decided ()"
  have k: "kst ?k = demo_decided" by (simp add: makeKernelQueue_def)
  have "live ''kp1'' demo_decided" using demo_promise_facts(5) by (simp add: demo_decided_def live_def)
  moreover have "isKRef ''kp1''" using demo_decided_facts(1) by (simp add: unsettled_def)
  ultimately obtain s where s: "acct (refs [''kp1''] + {#}) s" "posted demo_decided [] s"
    using charge_run [of ?k "{#}" "[''kp1'']"] demo_decided_facts(5,6) unfolding k by auto
  have o: "other_promises_same ''run'' demo_decided s" and q: "run_queue_ok s" "run_queue_items s = []"
    using s(2) demo_decided_facts(7) by (simp_all add: placed_def)
  have u: "unsettled ''kp1'' s" "queue_items ''kp1'' s = []"
    using demo_decided_facts(1,4) unsettled_other [OF o, of "''kp1''"] queue_ok_other(2) [of "''run''" demo_decided s "''kp1''"] o
    by (simp_all add: other_promises_same_def)
  let ?k' = "makeKernelQueue s ()"
  have k': "kst ?k' = s" by (simp add: makeKernelQueue_def)
  obtain s' where "deliver demo_gone_router (Run (Send ''kp1'' ?m)) ?k' = (Inr None, ?k'\<lparr>kst := s'\<rparr>)" "acct {#} s'"
    "run_queue_items s' = run_queue_items s" "queue_items ''kp1'' s' = queue_items ''kp1'' s @ [QMsg ?m]"
    using send_waits_on_promise [of demo_gone_router "''kp1''" "''kp1''" ?k' ?m "{#}"] u(1) s(1) q(1) unfolding k'
    by (auto simp: waits_on_def message_refs_def)
  then show ?thesis using u(2) q(2) by (intro exI [of _ ?k'] exI [of _ s']) simp
qed

section \<open>A message to a promise fulfilled with a settled one\<close>

text \<open>
  C3. The router does not ask whether the promise it requeues on is still unresolved. A message to a promise fulfilled
  with one that is settled is put on a queue of the settled promise, although every attempt to resolve that promise, which is
  what drains a promise's queue, is refused.
\<close>

theorem forwarded_send_stuck:
  fixes k :: "'h kq"
  assumes tv: "settled target Fulfilled v (kst k)" and ref: "singleRef R v = Inr (Some p)" "p \<in> set (slots v)" and s: "settled p st w (kst k)"
    and ok: "run_queue_ok (kst k)" and a: "acct (refs (item_refs (Send target m)) + M) (kst k)"
  shows "\<exists>s'. deliver R (Run (Send target m)) k = (Inr None, k\<lparr>kst := s'\<rparr>) \<and> tget (pstates (db s')) p = Some st \<and> st \<noteq> Unresolved \<and>
    queue_items p s' = [QMsg m] \<and> run_queue_items s' = run_queue_items (kst k) \<and>
    (\<forall>x r u. resolvePromises x [(p, r, u)] True (k\<lparr>kst := s'\<rparr>) = (Inl (Fail ''already resolved'' [p]), k\<lparr>kst := s'\<rparr>))"
proof -
  let ?result = "case result_ref (result m) of None \<Rightarrow> [] | Some r \<Rightarrow> [r]"
  have p: "isKRef p" "isPromiseRef p" "p \<noteq> ''run''" "tget (pstates (db (kst k))) p = Some st" "st \<noteq> Unresolved"
    using s isKRef_not_run by (auto simp: settled_def)
  have a': "acct (refs (target # message_refs m) + M) (kst k)" using a by simp
  have lp: "live p (kst k)" using settled_slots_live [OF tv a' ref(2)] by simp
  have l: "isKRef r \<and> live r (kst k)" if "r \<in> set (p # message_refs m)" for r
    using that in_hand_live [OF a'] lp p(1) by auto
  obtain s1 where s1: "forEach (p # message_refs m) increment (kst k) = (Inr (), s1)"
    and x1: "exact (refs (p # message_refs m) + (credits (kst k) + (refs (target # message_refs m) + M))) s1" and f1: "same_but_counts (kst k) s1"
    using forEach_increment_run [of _ "kst k", OF _ l] a' unfolding acct_def by blast
  let ?s2 = "db_update (\<lambda>d. d\<lparr>qheads := tput p 1 (qheads d), qtails := tput p 1 (qtails d)\<rparr>) s1"
  have rows: "\<not> has (qheads (db s1)) p" "\<not> has (qtails (db s1)) p" "\<And>i. \<not> has (qentries (db s1)) (p, i)"
    using s same_but_counts_rows [OF f1] by (simp_all add: settled_def)
  then have s2: "provideStoredQueue p False s1 = (Inr (), ?s2)"
    by (simp add: provideStoredQueue_def put_if_absent_def has_def comp_def)
  have q2: "queue_ok False p ?s2" "queue_items p ?s2 = []"
    by (rule queue_okI [of _ _ 1 1]) (use rows in \<open>simp_all add: queue_head_def queue_tail_def queue_items_def\<close>)
  have c: "credits ?s2 = credits s1" by (rule credits_cong) simp_all
  obtain s3 where s3: "enqueue False p (QMsg m) ?s2 = (Inr (), s3)" "queue_items p s3 = queue_items p ?s2 @ [QMsg m]"
    and f3: "same_but_queues ?s2 s3" and c3: "credits s3 = credits ?s2 + entry_refs p (QMsg m)" and o3: "other_queues_same p ?s2 s3"
    and h3: "rqHead s3 = rqHead ?s2" "rqTail s3 = rqTail ?s2"
    using enqueue_full [OF q2(1), of "QMsg m"] by blast
  have run1: "enqueuePromiseMessage p m (kst k) = (Inr (), s3)"
    unfolding enqueuePromiseMessage_unfold using s1 s2 s3(1) by (simp del: forEach.simps)
  have "acct (refs (target # message_refs m) + M) s3"
  proof -
    have "exact (refs (p # message_refs m) + (credits (kst k) + (refs (target # message_refs m) + M))) s3"
      using x1 exact_cong [of s1 s3] same_but_queues_rows(1) [OF f3] by simp
    moreover have "credits s3 + (refs (target # message_refs m) + M) = refs (p # message_refs m) + (credits (kst k) + (refs (target # message_refs m) + M))"
      unfolding c3 c same_but_counts_credits [OF f1] using p(3) by (simp add: ac_simps)
    ultimately show ?thesis unfolding acct_def by metis
  qed
  moreover have q: "run_queue_ok s3 \<and> run_queue_items s3 = run_queue_items (kst k)"
  proof -
    have "runQueueLengthCache s3 = runQueueLengthCache (kst k)"
      using same_but_queuesP [OF f3, of runQueueLengthCache] same_but_countsD [OF f1, of runQueueLengthCache]
      by (simp add: without_queues_def without_counts_def)
    moreover have "other_queues_same p (kst k) s3" "rqHead s3 = rqHead (kst k)" "rqTail s3 = rqTail (kst k)"
      using o3 h3 same_but_counts_rows(5-9) [OF f1] by (simp_all add: other_queues_same_def)
    ultimately show ?thesis using run_queue_kept [of p "kst k" s3] p(3) ok by blast
  qed
  moreover have st3: "tget (pstates (db s3)) p = Some st"
    using p(4) same_but_queues_rows(2) [OF f3] same_but_counts_rows(1) [OF f1] by simp
  ultimately obtain s' where s': "thn (onStore (forEach [target] decrement)) (thn (onStore (forEach ?result decrement))
      (thn (onStore (forEach (slots (methargs m)) decrement)) (ret (None :: 'h crank_result option)))) (k\<lparr>kst := s3\<rparr>) = (Inr None, k\<lparr>kst := s'\<rparr>)"
    and p': "posted s3 [] s'"
    using releases_run [of "k\<lparr>kst := s3\<rparr>" "[target]" ?result "slots (methargs m)" M "None :: 'h crank_result option"] by (auto simp: message_refs_def)
  have "deliverRequeue target p m k = (Inr None, k\<lparr>kst := s'\<rparr>)"
    using run1 s' by (simp add: deliverRequeue_def releaseResult_unfold releaseSlots_unfold onStore_run)
  moreover have "routeMessage R target m k = (Inr (Requeue p), k)"
    using tv ref p(1,2) by (intro route_waits) (auto simp: waits_on_def)
  moreover have "tget (pstates (db s')) p = Some st" "queue_items p s' = [QMsg m]"
    using p' p(3) st3 s3(2) q2(2) queue_ok_other(2) [of "''run''" s3 s' p] by (simp_all add: placed_def other_promises_same_def)
  moreover have "resolvePromises x [(p, r, u)] True (k\<lparr>kst := s'\<rparr>) = (Inl (Fail ''already resolved'' [p]), k\<lparr>kst := s'\<rparr>)" for x r u
  proof -
    have "tget (pvalues (db s')) p = Some w"
      using s p'(1) p(3) same_but_counts_rows(2) [OF f1] same_but_queues_rows(3) [OF f3] by (simp add: placed_def other_promises_same_def settled_def)
    moreover have "tget (pstates (db s')) p = Some st" using p' p(3) st3 by (simp add: placed_def other_promises_same_def)
    ultimately have "getKernelPromise p s' = (Inr \<lparr>kp_state = st, kp_decider = None, kp_subscribers = None, kp_value = Some w\<rparr>, s')"
      using p by (simp add: getKernelPromise_def parseRef_kref getRequired_def sm_simps)
    then show ?thesis using p(5) by (simp add: resolvePromises_def resolvePromise_def onStore_def)
  qed
  ultimately show ?thesis using p(5) p' q by (intro exI [of _ s']) (simp add: deliverSend_def bnd_run placed_def)
qed


text \<open>\<open>kp1\<close> fulfilled with \<open>kp2\<close>, which is fulfilled with data.\<close>

lemma demo_forward:
  "\<exists>s. settled ''kp1'' Fulfilled \<lparr>body = [], slots = [''kp2'']\<rparr> s \<and> settled ''kp2'' Fulfilled \<lparr>body = ''7'', slots = []\<rparr> s \<and>
    run_queue_ok s \<and> acct (refs [''kp1'']) s"
proof -
  have n: "nextPromiseId (cache (makeKernelStore empty_kdb)) = Some 1"
    unfolding makeKernelStore_fresh by (simp add: init_cached_rows_def init_row_def empty_kdb_def)
  have k2: "promise_slot 2 = ''kp2''" by (simp add: promise_slot_def nat_text_eval)
  obtain s1 where s1: "acct {#} s1" "promise_wf s1" "promise_ids_fresh s1" "unsettled ''kp1'' s1" "queue_items ''kp1'' s1 = []" "live ''kp1'' s1"
    "run_queue_ok s1" "nextPromiseId (cache s1) = Some 2"
    using initKernelPromise_run [OF fresh_store_acct fresh_promise_wf fresh_promise_ids] n promise_slot_1
      run_queue_kept(1) [of "''kp1''" "makeKernelStore empty_kdb"] run_queue_ok_empty
    by (auto simp: other_promises_same_def numeral_2_eq_2)
  obtain s2 where s2: "acct {#} s2" "unsettled ''kp2'' s2" "queue_items ''kp2'' s2 = []" "live ''kp2'' s2" "run_queue_ok s2"
    and o2: "other_promises_same ''kp2'' s1 s2"
  proof -
    obtain n s2 where n: "nextPromiseId (cache s1) = Some n" and a: "acct {#} s2" "unsettled (promise_slot n) s2"
      "queue_items (promise_slot n) s2 = []" "live (promise_slot n) s2" and o: "other_promises_same (promise_slot n) s1 s2"
      and h: "rqHead s2 = rqHead s1" "rqTail s2 = rqTail s1" "runQueueLengthCache s2 = runQueueLengthCache s1"
      using initKernelPromise_run [OF s1(1-3)] by blast
    have k: "promise_slot n = ''kp2''" using n s1(8) k2 by simp
    have "run_queue_ok s2" using run_queue_kept(1) [of "''kp2''" s1 s2] o h s1(7) unfolding k by (simp add: other_promises_same_def)
    then show ?thesis using that a o unfolding k by blast
  qed
  have u2: "unsettled ''kp1'' s2" "queue_items ''kp1'' s2 = []"
    using s1(4,5) unsettled_other [OF o2, of "''kp1''"] queue_ok_other(2) [of "''kp2''" s1 s2 "''kp1''"] o2 by (simp_all add: other_promises_same_def)
  text \<open>\<open>kp2\<close> settles.\<close>
  let ?v2 = "\<lparr>body = ''7'', slots = []\<rparr>" and ?v1 = "\<lparr>body = [], slots = [''kp2'']\<rparr>"
  obtain s3 where s3: "acct {#} s3" "settled ''kp2'' Fulfilled ?v2 s3" and o3: "other_promises_same ''kp2'' s2 s3"
    and h3: "rqHead s3 = rqHead s2" "rqTail s3 = rqTail s2" "runQueueLengthCache s3 = runQueueLengthCache s2" and l3: "\<forall>j. live j s2 \<longrightarrow> live j s3"
    using resolveKernelPromise_run [OF s2(2), of "[]" ?v2 "{#}" False] s2(1,3) by auto
  have q3: "run_queue_ok s3" using run_queue_kept(1) [of "''kp2''" s2 s3] o3 h3 s2(5) by (simp add: other_promises_same_def)
  have u3: "unsettled ''kp1'' s3" "queue_items ''kp1'' s3 = []"
    using u2 unsettled_other [OF o3, of "''kp1''"] queue_ok_other(2) [of "''kp2''" s2 s3 "''kp1''"] o3 by (simp_all add: other_promises_same_def)
  text \<open>\<open>kp1\<close> settles with a reference to it.\<close>
  have "isKRef ''kp2''" using s2(2) by (simp add: unsettled_def)
  then obtain s4 where s4: "acct (refs [''kp2''] + {#}) s4" "posted s3 [] s4"
    using charge_run [of "makeKernelQueue s3 ()" "{#}" "[''kp2'']"] q3 s3(1) l3 s2(4) by (auto simp: makeKernelQueue_def)
  have o4: "other_promises_same ''run'' s3 s4" and q4: "run_queue_ok s4" using s4(2) by (simp_all add: placed_def)
  have u4: "unsettled ''kp1'' s4" "queue_items ''kp1'' s4 = []" "settled ''kp2'' Fulfilled ?v2 s4"
    using u3 s3(2) unsettled_other [OF o4, of "''kp1''"] settled_other [OF o4, of "''kp2''"] queue_ok_other(2) [of "''run''" s3 s4 "''kp1''"] o4
    by (simp_all add: other_promises_same_def)
  obtain s5 where s5: "acct {#} s5" "settled ''kp1'' Fulfilled ?v1 s5" and o5: "other_promises_same ''kp1'' s4 s5"
    and h5: "rqHead s5 = rqHead s4" "rqTail s5 = rqTail s4" "runQueueLengthCache s5 = runQueueLengthCache s4" and l5: "\<forall>j. live j s4 \<longrightarrow> live j s5"
    using resolveKernelPromise_run [OF u4(1), of "[]" ?v1 "{#}" False] s4(1) u4(2) by auto
  have q5: "run_queue_ok s5" using run_queue_kept(1) [of "''kp1''" s4 s5] o5 h5 q4 by (simp add: other_promises_same_def)
  text \<open>A message's reference to \<open>kp1\<close>.\<close>
  have "isKRef ''kp1''" "live ''kp1'' s5" using u4(1) unsettled_live [OF u4(1) s4(1)] l5 by (simp_all add: unsettled_def)
  then obtain s6 where s6: "acct (refs [''kp1''] + {#}) s6" "posted s5 [] s6"
    using charge_run [of "makeKernelQueue s5 ()" "{#}" "[''kp1'']"] q5 s5(1) by (auto simp: makeKernelQueue_def)
  have "settled ''kp1'' Fulfilled ?v1 s6" "settled ''kp2'' Fulfilled ?v2 s6" "run_queue_ok s6"
    using s6(2) s5(2) u4(3) settled_other [OF o5, of "''kp2''"] settled_other [of "''run''" s5 s6] by (simp_all add: placed_def)
  then show ?thesis using s6(1) by auto
qed

theorem forwarded_send_stuck_witness:
  "\<exists>(k :: unit kq) s'. deliver (demo_gone_router\<lparr>singleRef := \<lambda>v. Inr (Some ''kp2'')\<rparr>)
      (Run (Send ''kp1'' \<lparr>methargs = \<lparr>body = ''hi'', slots = []\<rparr>, result = NoResult\<rparr>)) k = (Inr None, k\<lparr>kst := s'\<rparr>) \<and>
    settled ''kp2'' Fulfilled \<lparr>body = ''7'', slots = []\<rparr> (kst k) \<and>
    queue_items ''kp2'' s' = [QMsg \<lparr>methargs = \<lparr>body = ''hi'', slots = []\<rparr>, result = NoResult\<rparr>]"
proof -
  let ?R = "demo_gone_router\<lparr>singleRef := \<lambda>v. Inr (Some ''kp2'')\<rparr>" and ?m = "\<lparr>methargs = \<lparr>body = ''hi'', slots = []\<rparr>, result = NoResult\<rparr>"
  obtain s where s: "settled ''kp1'' Fulfilled \<lparr>body = [], slots = [''kp2'']\<rparr> s" "settled ''kp2'' Fulfilled \<lparr>body = ''7'', slots = []\<rparr> s"
    "run_queue_ok s" "acct (refs [''kp1'']) s" using demo_forward by blast
  let ?k = "makeKernelQueue s ()"
  have k: "kst ?k = s" by (simp add: makeKernelQueue_def)
  have "acct (refs (item_refs (Send ''kp1'' ?m)) + {#}) (kst ?k)" using s(4) unfolding k by (simp add: message_refs_def)
  from forwarded_send_stuck [OF _ _ _ _ _ this, of "\<lparr>body = [], slots = [''kp2'']\<rparr>" ?R "''kp2''"] s(1-3)
  obtain s' where "deliver ?R (Run (Send ''kp1'' ?m)) ?k = (Inr None, ?k\<lparr>kst := s'\<rparr>)" "queue_items ''kp2'' s' = [QMsg ?m]"
    unfolding k by fastforce
  then show ?thesis using s(2) k by (intro exI [of _ ?k] exI [of _ s']) simp
qed

end
