(* ===== verification/RemoteHandle.thy ===== *)
theory RemoteHandle
  imports Frames KernelRouter
begin

text \<open>
  The kernel's end of a connection with a peer kernel (\<open>remotes/kernel/RemoteHandle.ts\<close>): numbered
  messages, cumulative acknowledgements, retransmission, and what becomes of both when the peer is
  given up or restarts.

  \<^item> \<open>remote_handle\<close> has a field per private field of the class. The handles are objects by the id
    of their remote (\<open>handleOf\<close>), beside whatever else the kernel's managers keep (\<open>aside\<close>). A timer
    is whether it is armed; \<open>outboundChain\<close> is the list of the sends that wait their turn on the
    promise chain, with the one the transport has (\<open>inFlight\<close>).
  \<^item> \<open>onTheWire\<close> is the trace of the numbered messages handed to the transport for the peer,
    \<open>acksSent\<close> of the standalone acknowledgements, \<open>hintsSent\<close> of the hints registered, and \<open>redeemed\<close> of what the callers of \<open>redeemOcapURL\<close> were told.
  \<^item> \<open>JSON\<close>, the ocap URL issuer and the \<open>onGiveUp\<close> callback are the fields of \<open>remote_host\<close>. An
    \<open>ack\<close> or a \<open>seq\<close> that is not a number compares false with everything, as a negative \<open>ack\<close> does.
\<close>

section \<open>Messages\<close>

text \<open>\<open>DeliveryParams\<close>\<close>

datatype delivery =
    DeliverMessage string message
  | DeliverNotify "(string \<times> bool \<times> capdata) list"
  | DeliverGC GCRunQueueType "string list"
  | BringOutYourDead
  | OtherDelivery string

text \<open>\<open>RemoteMessageBase\<close>\<close>

datatype remote_message =
    Deliver delivery
  | RedeemURL string string
  | RedeemURLReply bool string string
  | OtherMethod string

datatype json_seq = NoSeq | NotAnInteger | IntSeq int

record remote_command =
  cmdSeq :: json_seq
  cmdAck :: "int option"
  cmdBody :: remote_message

text \<open>\<open>PersistedCommand\<close>\<close>

record persisted_command =
  persistedSeq :: nat
  messageString :: string
  wasEmpty :: bool

text \<open>\<open>SeqWindow\<close>\<close>

record seq_window =
  windowStart :: nat
  windowEnd :: nat

definition hasPending :: "seq_window \<Rightarrow> bool" where
  "hasPending w \<longleftrightarrow> windowEnd w > 0 \<and> windowStart w \<le> windowEnd w"

definition countPending :: "seq_window \<Rightarrow> nat" where
  "countPending w = (if hasPending w then windowEnd w - windowStart w + 1 else 0)"

definition MAX_RETRIES :: nat where
  "MAX_RETRIES = 3"

definition MAX_PENDING_MESSAGES :: nat where
  "MAX_PENDING_MESSAGES = 200"

section \<open>State\<close>

datatype send_origin = Flushed | Retransmitted

record outbound_send =
  sendQueue :: nat
  sendSeq :: nat
  sendText :: string
  sendOrigin :: send_origin

record remote_handle =
  rPeerId :: string
  hasTransport :: bool
  locationHints :: "string list"
  needsHinting :: bool
  remoteGcRequested :: bool
  pendingRedemptions :: "(string \<times> nat) list"
  redemptionCounter :: nat
  myNextSendSeq :: nat
  myHighestReceivedSeq :: nat
  myStartSeq :: nat
  awaitingTransmit :: "(nat \<times> persisted_command) list"
  lastTransmittedSeq :: nat
  outboundChain :: "outbound_send list"
  inFlight :: "outbound_send option"
  outboundQueueId :: nat
  heldForRestart :: bool
  retryCount :: nat
  ackTimer :: bool
  delayedAckTimer :: bool
  onTheWire :: "outbound_send list"
  acksSent :: "string list"
  hintsSent :: "string list list"
  redeemed :: "(nat \<times> (string + string)) list"

record 'r net =
  handleOf :: "string \<Rightarrow> remote_handle"
  aside :: 'r

record 'r remote_host =
  stringify :: "remote_command \<Rightarrow> string"
  stringifyAck :: "nat \<Rightarrow> string"
  parseMessage :: "string \<Rightarrow> kerror + remote_command"
  redeemLocalOcapURL :: "string \<Rightarrow> ('r net kq, string + string) sm"
  onGiveUp :: "string \<Rightarrow> ('r net kq, unit) sm"
  errorMessage :: "kerror \<Rightarrow> string"

definition handle :: "string \<Rightarrow> 'r net kq \<Rightarrow> remote_handle" where
  "handle r k = handleOf (managers k) r"

definition putHandle :: "string \<Rightarrow> remote_handle \<Rightarrow> 'r net kq \<Rightarrow> 'r net kq" where
  "putHandle r h k = k\<lparr>managers := (managers k)\<lparr>handleOf := (handleOf (managers k))(r := h)\<rparr>\<rparr>"

definition onHandle :: "string \<Rightarrow> (remote_handle \<Rightarrow> remote_handle) \<Rightarrow> ('r net kq, unit) sm" where
  "onHandle r f = modify (\<lambda>k. putHandle r (f (handle r k)) k)"

section \<open>Windows and timers\<close>

definition seqWindow :: "remote_handle \<Rightarrow> seq_window" where
  "seqWindow h = \<lparr>windowStart = myStartSeq h, windowEnd = myNextSendSeq h\<rparr>"

definition hasPendingMessages :: "remote_handle \<Rightarrow> bool" where
  "hasPendingMessages h = hasPending (seqWindow h)"

definition storedSeqWindow :: "string \<Rightarrow> ctx \<Rightarrow> seq_window" where
  "storedSeqWindow r s = (case getRemoteSeqState r s of None \<Rightarrow> \<lparr>windowStart = 0, windowEnd = 0\<rparr>
     | Some stored \<Rightarrow> \<lparr>windowStart = startSeq stored, windowEnd = nextSendSeq stored\<rparr>)"

definition sendWindow :: "string \<Rightarrow> 'r net kq \<Rightarrow> seq_window" where
  "sendWindow r k =
     (if myNextSendSeq (handle r k) > windowEnd (storedSeqWindow r (kst k)) then seqWindow (handle r k)
      else storedSeqWindow r (kst k))"

definition getAckValue :: "remote_handle \<Rightarrow> nat option" where
  "getAckValue h = (if myHighestReceivedSeq h > 0 then Some (myHighestReceivedSeq h) else None)"

definition clearAckTimeout :: "remote_handle \<Rightarrow> remote_handle" where
  "clearAckTimeout h = h\<lparr>ackTimer := False\<rparr>"

definition startAckTimeout :: "remote_handle \<Rightarrow> remote_handle" where
  "startAckTimeout h = h\<lparr>ackTimer := hasPendingMessages h \<and> hasTransport h\<rparr>"

definition clearDelayedAck :: "remote_handle \<Rightarrow> remote_handle" where
  "clearDelayedAck h = h\<lparr>delayedAckTimer := False\<rparr>"

definition startDelayedAck :: "remote_handle \<Rightarrow> remote_handle" where
  "startDelayedAck h = h\<lparr>delayedAckTimer := getAckValue h \<noteq> None\<rparr>"

section \<open>Acknowledgements\<close>

definition persistAcknowledged :: "string \<Rightarrow> ('r net kq, unit) sm" where
  "persistAcknowledged r =
     bnd (gets (\<lambda>k. storedSeqWindow r (kst k))) (\<lambda>stored. bnd (gets (\<lambda>k. myStartSeq (handle r k))) (\<lambda>start.
       if \<not> hasPending stored \<or> windowStart stored \<ge> start then ret ()
       else thn (onStore (setRemoteStartSeq r start))
         (thn (if windowEnd stored < start - 1 then onStore (setRemoteNextSendSeq r (start - 1)) else ret ())
           (forEach [windowStart stored ..< Suc (min (start - 1) (windowEnd stored))]
             (\<lambda>seq. onStore (deletePendingMessage r seq))))))"

text \<open>\<open>while (startSeq <= ackSeq && hasPendingMessages())\<close>\<close>

function ack_loop :: "int \<Rightarrow> seq_window \<Rightarrow> nat" where
  "ack_loop ackSeq w =
     (if int (windowStart w) \<le> ackSeq \<and> hasPending w then ack_loop ackSeq (w\<lparr>windowStart := windowStart w + 1\<rparr>)
      else windowStart w)"
  by pat_completeness auto
termination by (relation "measure (\<lambda>(a, w). Suc (windowEnd w) - windowStart w)") (auto simp: hasPending_def)

declare ack_loop.simps [simp del]

definition handleAck :: "string \<Rightarrow> int \<Rightarrow> ('r net kq, unit) sm" where
  "handleAck r ackSeq =
     thn (onHandle r (\<lambda>h. let start = ack_loop ackSeq (seqWindow h) in
         h\<lparr>myStartSeq := start, retryCount := if start \<noteq> myStartSeq h then 0 else retryCount h\<rparr>))
       (thn (persistAcknowledged r) (onHandle r startAckTimeout))"

section \<open>Sending in order\<close>

definition sendInOrder :: "nat \<Rightarrow> string \<Rightarrow> send_origin \<Rightarrow> remote_handle \<Rightarrow> remote_handle" where
  "sendInOrder seq m origin h = h\<lparr>outboundChain := outboundChain h @
     [\<lparr>sendQueue = outboundQueueId h, sendSeq = seq, sendText = m, sendOrigin = origin\<rparr>]\<rparr>"

definition putOnTheWire :: "persisted_command \<Rightarrow> remote_handle \<Rightarrow> remote_handle" where
  "putOnTheWire p h =
     (let h1 = h\<lparr>myStartSeq := if wasEmpty p then persistedSeq p else myStartSeq h,
            myNextSendSeq := max (persistedSeq p) (myNextSendSeq h)\<rparr>;
          h2 = (if needsHinting h1 then h1\<lparr>hintsSent := hintsSent h1 @ [locationHints h1], needsHinting := False\<rparr> else h1);
          h3 = clearDelayedAck h2;
          h4 = (if ackTimer h3 then h3 else startAckTimeout h3)
      in sendInOrder (persistedSeq p) (messageString p) Flushed h4)"

lemma putOnTheWire_sel [simp]:
  "myStartSeq (putOnTheWire p h) = (if wasEmpty p then persistedSeq p else myStartSeq h)"
  "myNextSendSeq (putOnTheWire p h) = max (persistedSeq p) (myNextSendSeq h)"
  "lastTransmittedSeq (putOnTheWire p h) = lastTransmittedSeq h"
  "awaitingTransmit (putOnTheWire p h) = awaitingTransmit h"
  "hasTransport (putOnTheWire p h) = hasTransport h"
  "outboundQueueId (putOnTheWire p h) = outboundQueueId h"
  "outboundChain (putOnTheWire p h) = outboundChain h @
     [\<lparr>sendQueue = outboundQueueId h, sendSeq = persistedSeq p, sendText = messageString p, sendOrigin = Flushed\<rparr>]"
  "myHighestReceivedSeq (putOnTheWire p h) = myHighestReceivedSeq h"
  "onTheWire (putOnTheWire p h) = onTheWire h"
  "inFlight (putOnTheWire p h) = inFlight h"
  "heldForRestart (putOnTheWire p h) = heldForRestart h"
  by (simp_all add: putOnTheWire_def sendInOrder_def startAckTimeout_def clearDelayedAck_def Let_def)

lemma length_obj_del: "length (obj_del k es) \<le> length es"
  by (simp add: obj_del_def)

lemma length_obj_del_less: "map_of es k = Some v \<Longrightarrow> length (obj_del k es) < length es"
  by (auto simp: obj_del_def dest!: map_of_SomeD intro!: length_filter_less)

text \<open>The loop of \<open>#flushTransmitQueue\<close>: it only reads the store.\<close>

function flush_loop :: "string \<Rightarrow> ctx \<Rightarrow> remote_handle \<Rightarrow> remote_handle" where
  "flush_loop r s h =
     (let nxt = lastTransmittedSeq h + 1 in
      if nxt < myStartSeq h
      then flush_loop r s (h\<lparr>awaitingTransmit := obj_del nxt (awaitingTransmit h), lastTransmittedSeq := nxt\<rparr>)
      else case map_of (awaitingTransmit h) nxt of
        None \<Rightarrow>
          if nxt > myNextSendSeq h then h
          else (case getPendingMessage r nxt s of
              None \<Rightarrow> flush_loop r s (h\<lparr>lastTransmittedSeq := nxt\<rparr>)
            | Some m \<Rightarrow> flush_loop r s (putOnTheWire \<lparr>persistedSeq = nxt, messageString = m, wasEmpty = False\<rparr>
                (h\<lparr>lastTransmittedSeq := nxt\<rparr>)))
      | Some command \<Rightarrow>
          (case getPendingMessage r nxt s of
              None \<Rightarrow> h\<lparr>awaitingTransmit := obj_del nxt (awaitingTransmit h)\<rparr>
            | Some m \<Rightarrow> flush_loop r s (putOnTheWire \<lparr>persistedSeq = nxt, messageString = m, wasEmpty = wasEmpty command\<rparr>
                (h\<lparr>awaitingTransmit := obj_del nxt (awaitingTransmit h), lastTransmittedSeq := nxt\<rparr>))))"
  by pat_completeness auto
termination
proof (relation "measure (\<lambda>(r, s, h). 2 * length (awaitingTransmit h) +
    (max (myStartSeq h) (Suc (myNextSendSeq h)) - lastTransmittedSeq h))", goal_cases)
  case (2 r s h nxt)
  then show ?case using length_obj_del [of nxt "awaitingTransmit h"] by auto
next
  case (5 r s h nxt command m)
  have "length (obj_del nxt (awaitingTransmit h)) < length (awaitingTransmit h)" using 5(3) by (rule length_obj_del_less)
  then show ?case using 5 by (auto simp: max_def)
qed (auto simp: max_def)

declare flush_loop.simps [simp del]

definition flushTransmitQueue :: "string \<Rightarrow> ('r net kq, unit) sm" where
  "flushTransmitQueue r = bnd (gets kst) (\<lambda>s. onHandle r (\<lambda>h. if hasTransport h then flush_loop r s h else h))"

text \<open>\<open>#persistRemoteCommand\<close>: \<open>ack\<close> is the receipt to piggyback.\<close>

definition persistRemoteCommand :: "'r remote_host \<Rightarrow> string \<Rightarrow> remote_message \<Rightarrow> bool \<Rightarrow> nat option \<Rightarrow> ('r net kq, persisted_command) sm" where
  "persistRemoteCommand H r msg exempt ack =
     thn (persistAcknowledged r) (bnd (gets (sendWindow r)) (\<lambda>window.
       if \<not> exempt \<and> countPending window \<ge> MAX_PENDING_MESSAGES
       then fail (JsError ''Message rejected: pending queue at capacity'' [])
       else (let seq = windowEnd window + 1;
             m = stringify H \<lparr>cmdSeq = IntSeq (int seq), cmdAck = map_option int ack, cmdBody = msg\<rparr> in
         thn (onStore (setPendingMessage r seq m))
           (thn (bnd (gets (\<lambda>k. storedSeqWindow r (kst k))) (\<lambda>stored.
               if hasPending stored then ret () else onStore (setRemoteStartSeq r seq)))
             (thn (onStore (setRemoteNextSendSeq r seq))
               (ret \<lparr>persistedSeq = seq, messageString = m, wasEmpty = \<not> hasPending window\<rparr>))))))"

definition transmitRemoteCommand :: "string \<Rightarrow> persisted_command \<Rightarrow> ('r net kq, unit) sm" where
  "transmitRemoteCommand r p =
     thn (onHandle r (\<lambda>h. h\<lparr>awaitingTransmit := obj_put (persistedSeq p) p (awaitingTransmit h)\<rparr>)) (flushTransmitQueue r)"

definition sendRemoteCommand :: "'r remote_host \<Rightarrow> string \<Rightarrow> remote_message \<Rightarrow> ('r net kq, unit) sm" where
  "sendRemoteCommand H r msg = bnd (gets (\<lambda>k. getAckValue (handle r k))) (\<lambda>ack.
     bnd (persistRemoteCommand H r msg False ack) (transmitRemoteCommand r))"

definition deliverToPeer :: "'r remote_host \<Rightarrow> string \<Rightarrow> delivery \<Rightarrow> bool \<Rightarrow> ('r net kq, 'r net crank_result) sm" where
  "deliverToPeer H r d exempt = bnd (gets (\<lambda>k. getAckValue (handle r k))) (\<lambda>ack.
     bnd (persistRemoteCommand H r (Deliver d) exempt ack) (\<lambda>p.
       ret ((delivered r)\<lparr>afterCommit := Some (transmitRemoteCommand r p)\<rparr>)))"

section \<open>The handle as an endpoint\<close>

definition remoteDeliverMessage :: "'r remote_host \<Rightarrow> string \<Rightarrow> string \<Rightarrow> message \<Rightarrow> ('r net kq, 'r net crank_result) sm" where
  "remoteDeliverMessage H r target m = deliverToPeer H r (DeliverMessage target m) False"

definition remoteDeliverNotify :: "'r remote_host \<Rightarrow> string \<Rightarrow> (string \<times> bool \<times> capdata) list \<Rightarrow> ('r net kq, 'r net crank_result) sm" where
  "remoteDeliverNotify H r resolutions = deliverToPeer H r (DeliverNotify resolutions) False"

text \<open>\<open>deliverDropExports\<close>, \<open>deliverRetireExports\<close> and \<open>deliverRetireImports\<close>\<close>

definition remoteDeliverGC :: "'r remote_host \<Rightarrow> string \<Rightarrow> GCRunQueueType \<Rightarrow> string list \<Rightarrow> ('r net kq, 'r net crank_result) sm" where
  "remoteDeliverGC H r ty erefs = deliverToPeer H r (DeliverGC ty erefs) True"

definition remoteBringOutYourDead :: "'r remote_host \<Rightarrow> string \<Rightarrow> ('r net kq, 'r net crank_result) sm" where
  "remoteBringOutYourDead H r = bnd (gets (\<lambda>k. remoteGcRequested (handle r k))) (\<lambda>requested.
     if requested then thn (onHandle r (\<lambda>h. h\<lparr>remoteGcRequested := False\<rparr>)) (ret (delivered r))
     else thn (persistAcknowledged r) (bnd (gets (sendWindow r)) (\<lambda>window.
       if countPending window \<ge> MAX_PENDING_MESSAGES then ret (delivered r)
       else deliverToPeer H r BringOutYourDead False)))"

section \<open>What the peer sends\<close>

definition gcPrefix :: "GCRunQueueType \<Rightarrow> string" where
  "gcPrefix ty = (if ty = RetireImports then ''ro+'' else ''ro-'')"

definition knownKrefs :: "string \<Rightarrow> GCRunQueueType \<Rightarrow> string list \<Rightarrow> string list store" where
  "knownKrefs r ty erefs =
     bnd (mapEach (\<lambda>ref.
         if \<not> isRRef ref \<or> \<not> starts_with (gcPrefix ty) ref
         then fail (JsError ''names a reference of the wrong kind'' [ref, gcPrefix ty])
         else erefToKref r ref) erefs) (\<lambda>found.
       ret (concat (map (\<lambda>kref. case kref of None \<Rightarrow> [] | Some k \<Rightarrow> [k]) found)))"

text \<open>\<open>#dropExports\<close>, \<open>#retireExports\<close> and \<open>#retireImports\<close>: what the peer says of its own end.\<close>

definition handleGC :: "string \<Rightarrow> GCRunQueueType \<Rightarrow> string list \<Rightarrow> unit store" where
  "handleGC r ty erefs = bnd (knownKrefs r ty erefs) (\<lambda>krefs.
     case ty of DropExports \<Rightarrow> performDropImports krefs r
     | RetireExports \<Rightarrow> performRetireImports krefs r
     | RetireImports \<Rightarrow> performExportCleanup krefs True r)"

definition receiveResolution :: "string \<Rightarrow> string \<times> bool \<times> capdata \<Rightarrow> (string \<times> bool \<times> capdata) store" where
  "receiveResolution r res = (case res of (rpid, rejected, d) \<Rightarrow>
     thn (lift (insistERef rpid)) (bnd (translateRefEtoK r rpid) (\<lambda>kpid.
       bnd (translateCapDataEtoK r d) (\<lambda>kd. ret (kpid, rejected, kd)))))"

fun handleRemoteDeliver :: "string \<Rightarrow> delivery \<Rightarrow> ('r net kq, unit) sm" where
  "handleRemoteDeliver r (DeliverMessage target m) =
     bnd (onStore (translateRefEtoK r target)) (\<lambda>ktarget.
       bnd (onStore (translateMessageEtoK r m)) (\<lambda>km. enqueueSend ktarget km True))"
| "handleRemoteDeliver r (DeliverNotify resolutions) =
     bnd (onStore (mapEach (receiveResolution r) resolutions)) (\<lambda>kResolutions.
       resolvePromises (Some r) kResolutions False)"
| "handleRemoteDeliver r (DeliverGC ty erefs) = onStore (handleGC r ty erefs)"
| "handleRemoteDeliver r BringOutYourDead = onStore (scheduleReap r)"
| "handleRemoteDeliver r (OtherDelivery m) = fail (JsError ''unknown remote delivery method'' [m])"

text \<open>\<open>DeferredCompletion\<close>: the reply key, and an error or a reference.\<close>

datatype deferred_completion = RedeemRequest string "string + string" | RedeemReply string "string + string"

definition handleRedeemURLRequest :: "'r remote_host \<Rightarrow> string \<Rightarrow> string \<Rightarrow> string \<Rightarrow> ('r net kq, deferred_completion) sm" where
  "handleRedeemURLRequest H r url replyKey =
     bnd (bnd (gets (\<lambda>k. hasTransport (handle r k))) (\<lambda>up.
         if up then redeemLocalOcapURL H url else ret (Inl (r @ '' has no transport'')))) (\<lambda>found.
       case found of Inl e \<Rightarrow> ret (RedeemRequest replyKey (Inl e))
       | Inr kref \<Rightarrow> bnd (onStore (translateRefKtoE r kref True)) (\<lambda>ref. ret (RedeemRequest replyKey (Inr ref))))"

definition persistRedeemURLReply :: "'r remote_host \<Rightarrow> string \<Rightarrow> string \<Rightarrow> string + string \<Rightarrow> nat \<Rightarrow> ('r net kq, persisted_command) sm" where
  "persistRedeemURLReply H r replyKey found ack =
     persistRemoteCommand H r (case found of Inr ref \<Rightarrow> RedeemURLReply True replyKey ref | Inl e \<Rightarrow> RedeemURLReply False replyKey e)
       True (Some ack)"

definition handleRedeemURLReply :: "string \<Rightarrow> bool \<Rightarrow> string \<Rightarrow> string \<Rightarrow> ('r net kq, deferred_completion) sm" where
  "handleRedeemURLReply r success replyKey v =
     bnd (gets (\<lambda>k. map_of (pendingRedemptions (handle r k)) replyKey)) (\<lambda>caller.
       if caller = None then fail (JsError ''unknown URL redemption reply key'' [replyKey])
       else if success then thn (lift (insistERef v)) (bnd (onStore (translateRefEtoK r v)) (\<lambda>kref. ret (RedeemReply replyKey (Inr kref))))
       else ret (RedeemReply replyKey (Inl v)))"

definition completeHandleRedeemURLReply :: "string \<Rightarrow> string \<Rightarrow> string + string \<Rightarrow> ('r net kq, unit) sm" where
  "completeHandleRedeemURLReply r replyKey found = onHandle r (\<lambda>h.
     case map_of (pendingRedemptions h) replyKey of None \<Rightarrow> h
     | Some caller \<Rightarrow> h\<lparr>pendingRedemptions := obj_del replyKey (pendingRedemptions h), redeemed := redeemed h @ [(caller, found)]\<rparr>)"

definition receiveFromPeer :: "'r remote_host \<Rightarrow> string \<Rightarrow> string \<Rightarrow> ('r net kq, unit) sm" where
  "receiveFromPeer H r m = bnd (lift (parseMessage H m)) (\<lambda>cmd.
     if cmdAck cmd \<noteq> None \<and> cmdSeq cmd = NoSeq then handleAck r (the (cmdAck cmd))
     else thn (case cmdAck cmd of None \<Rightarrow> ret () | Some a \<Rightarrow> handleAck r a)
       (thn (onHandle r startDelayedAck)
         (case cmdSeq cmd of
            IntSeq n \<Rightarrow>
              if n < 1 then fail (JsError ''invalid message seq'' [int_text n])
              else bnd (gets (handle r)) (\<lambda>h.
                bnd (acceptRemoteInbound r (rPeerId h) n m (int (myHighestReceivedSeq h))) (\<lambda>accepted. ret ()))
          | _ \<Rightarrow> fail (JsError ''invalid message seq'' []))))"

text \<open>The work after the commit of a message's crank.\<close>

definition afterReceipt :: "string \<Rightarrow> nat \<Rightarrow> remote_message \<Rightarrow> deferred_completion option \<Rightarrow> persisted_command option \<Rightarrow> ('r net kq, unit) sm" where
  "afterReceipt r seq msg deferred reply =
     thn (onHandle r (\<lambda>h. h\<lparr>myHighestReceivedSeq := seq,
         remoteGcRequested := remoteGcRequested h \<or> msg = Deliver BringOutYourDead\<rparr>))
       (thn (case reply of Some p \<Rightarrow> transmitRemoteCommand r p
           | None \<Rightarrow> (case deferred of Some (RedeemReply replyKey found) \<Rightarrow> completeHandleRedeemURLReply r replyKey found | _ \<Rightarrow> ret ()))
         (onHandle r startDelayedAck))"

fun handleInbound :: "'r remote_host \<Rightarrow> string \<Rightarrow> remote_message \<Rightarrow> ('r net kq, deferred_completion option) sm" where
  "handleInbound H r (Deliver d) = thn (handleRemoteDeliver r d) (ret None)"
| "handleInbound H r (RedeemURL url replyKey) = bnd (handleRedeemURLRequest H r url replyKey) (\<lambda>d. ret (Some d))"
| "handleInbound H r (RedeemURLReply success replyKey v) = bnd (handleRedeemURLReply r success replyKey v) (\<lambda>d. ret (Some d))"
| "handleInbound H r (OtherMethod m) = fail (JsError ''unknown remote message type'' [m])"

definition receiveInbound :: "'r remote_host \<Rightarrow> string \<Rightarrow> nat \<Rightarrow> remote_message \<Rightarrow> ('r net kq, ('r net kq, unit) sm) sm" where
  "receiveInbound H r seq msg = bnd (handleInbound H r msg) (\<lambda>deferred.
     thn (onStore (setRemoteHighestReceivedSeq r seq)) (thn (persistAcknowledged r)
       (bnd (case deferred of
           Some (RedeemRequest replyKey found) \<Rightarrow> bnd (persistRedeemURLReply H r replyKey found seq) (\<lambda>p. ret (Some p))
         | _ \<Rightarrow> ret None) (\<lambda>reply.
         ret (afterReceipt r seq msg deferred reply)))))"

text \<open>The run loop is only handed a message whose \<open>seq\<close> was found to be a whole number.\<close>

definition remoteDeliverInbound :: "'r remote_host \<Rightarrow> string \<Rightarrow> string \<Rightarrow> ('r net kq, 'r net crank_result) sm" where
  "remoteDeliverInbound H r m = bnd (lift (parseMessage H m)) (\<lambda>cmd.
     case cmdSeq cmd of
       IntSeq n \<Rightarrow> bnd (gets (\<lambda>k. myHighestReceivedSeq (handle r k))) (\<lambda>highest.
         if n \<le> int highest then thn (persistAcknowledged r) (ret (delivered r))
         else bnd (receiveInbound H r (nat n) (cmdBody cmd)) (\<lambda>after. ret ((delivered r)\<lparr>afterCommit := Some after\<rparr>)))
     | _ \<Rightarrow> fail (JsError ''invalid message seq'' []))"

definition remoteEndpoint :: "'r remote_host \<Rightarrow> string \<Rightarrow> string \<Rightarrow> 'r net endpoint" where
  "remoteEndpoint H r peer = \<lparr>deliverMessage = remoteDeliverMessage H r, deliverResolutions = remoteDeliverNotify H r,
     deliverGC = remoteDeliverGC H r, deliverReap = remoteBringOutYourDead H r, peerOf = peer,
     deliverInbound = remoteDeliverInbound H r\<rparr>"

section \<open>Redemptions of the kernel's own\<close>

definition redeemOcapURL :: "'r remote_host \<Rightarrow> string \<Rightarrow> string \<Rightarrow> nat \<Rightarrow> ('r net kq, unit) sm" where
  "redeemOcapURL H r url caller = bnd (gets (handle r)) (\<lambda>h.
     if heldForRestart h then onHandle r (\<lambda>h. h\<lparr>redeemed := redeemed h @ [(caller, Inl ''Remote peer restarted'')]\<rparr>)
     else (let replyKey = nat_text (redemptionCounter h) in
       thn (onHandle r (\<lambda>h. h\<lparr>redemptionCounter := redemptionCounter h + 1,
           pendingRedemptions := obj_put replyKey caller (pendingRedemptions h)\<rparr>))
         (tryCatch (sendRemoteCommand H r (RedeemURL url replyKey)) (\<lambda>e.
           onHandle r (\<lambda>h. h\<lparr>pendingRedemptions := obj_del replyKey (pendingRedemptions h),
             redeemed := redeemed h @ [(caller, Inl (errorMessage H e))]\<rparr>)))))"

text \<open>\<open>AbortSignal.timeout\<close> fires: nothing, unless the redemption still waits.\<close>

definition redemptionTimeout :: "string \<Rightarrow> string \<Rightarrow> ('r net kq, unit) sm" where
  "redemptionTimeout r replyKey = completeHandleRedeemURLReply r replyKey (Inl ''URL redemption timed out'')"

definition rejectPendingRedemptions :: "string \<Rightarrow> remote_handle \<Rightarrow> remote_handle" where
  "rejectPendingRedemptions why h = h\<lparr>redeemed := redeemed h @ map (\<lambda>e. (snd e, Inl why)) (pendingRedemptions h), pendingRedemptions := []\<rparr>"

section \<open>Giving up\<close>

definition rejectAllPending :: "string \<Rightarrow> ('r net kq, unit) sm" where
  "rejectAllPending r =
     thn (onHandle r (\<lambda>h. h\<lparr>outboundQueueId := outboundQueueId h + 1\<rparr>)) (bnd (gets (sendWindow r)) (\<lambda>window.
       if countPending window = 0 then ret ()
       else thn (onHandle r (\<lambda>h. h\<lparr>myStartSeq := windowEnd window + 1, myNextSendSeq := windowEnd window\<rparr>))
         (thn (onStore (setRemoteNextSendSeq r (windowEnd window)))
           (thn (onStore (setRemoteStartSeq r (windowEnd window + 1)))
             (onHandle r (\<lambda>h. h\<lparr>retryCount := 0\<rparr>))))))"

definition giveUp :: "string \<Rightarrow> string \<Rightarrow> ('r net kq, unit) sm" where
  "giveUp r why = thn (onHandle r clearAckTimeout) (thn (rejectAllPending r) (onHandle r (rejectPendingRedemptions why)))"

definition giveUpOnPeer :: "'r remote_host \<Rightarrow> string \<Rightarrow> string \<Rightarrow> ('r net kq, unit) sm" where
  "giveUpOnPeer H r why = thn (giveUp r why) (bnd (gets (\<lambda>k. rPeerId (handle r k))) (onGiveUp H))"

definition cleanupHandle :: "string \<Rightarrow> ('r net kq, unit) sm" where
  "cleanupHandle r = onHandle r (\<lambda>h. rejectPendingRedemptions ''Remote connection cleanup'' (clearDelayedAck (clearAckTimeout h)))"

section \<open>Timers and the sends on their way\<close>

text \<open>\<open>#retransmitPending\<close> from a number on: up to its next \<open>await\<close>.\<close>

definition retransmitFrom :: "string \<Rightarrow> nat \<Rightarrow> ('r net kq, unit) sm" where
  "retransmitFrom r seq = bnd (gets kst) (\<lambda>s. onHandle r (\<lambda>h.
     case find (\<lambda>q. truthy (getPendingMessage r q s)) [seq ..< Suc (myNextSendSeq h)] of
       None \<Rightarrow> startAckTimeout h
     | Some q \<Rightarrow> sendInOrder q (the (getPendingMessage r q s)) Retransmitted h))"

definition handleAckTimeout :: "'r remote_host \<Rightarrow> string \<Rightarrow> ('r net kq, unit) sm" where
  "handleAckTimeout H r = thn (onHandle r clearAckTimeout) (bnd (gets (handle r)) (\<lambda>h.
     if \<not> hasPendingMessages h \<or> heldForRestart h then ret ()
     else if retryCount h \<ge> MAX_RETRIES then giveUpOnPeer H r ''not acknowledged after 3 retries''
     else thn (onHandle r (\<lambda>h. h\<lparr>retryCount := retryCount h + 1\<rparr>)) (retransmitFrom r (myStartSeq h))))"

definition sendStandaloneAck :: "'r remote_host \<Rightarrow> remote_handle \<Rightarrow> remote_handle" where
  "sendStandaloneAck H h = (case getAckValue h of None \<Rightarrow> h
     | Some ack \<Rightarrow> if heldForRestart h \<or> \<not> hasTransport h then h else h\<lparr>acksSent := acksSent h @ [stringifyAck H ack]\<rparr>)"

definition delayedAckFires :: "'r remote_host \<Rightarrow> string \<Rightarrow> ('r net kq, unit) sm" where
  "delayedAckFires H r = onHandle r (\<lambda>h. sendStandaloneAck H (clearDelayedAck h))"

text \<open>How a send ended; a message let go of (\<open>return undefined\<close>) counts as sent.\<close>

datatype send_outcome = Sent | PeerRestarted | TerminalError string | OtherError

definition afterSend :: "'r remote_host \<Rightarrow> string \<Rightarrow> outbound_send \<Rightarrow> send_outcome \<Rightarrow> ('r net kq, unit) sm" where
  "afterSend H r x out = (case out of
     TerminalError why \<Rightarrow> giveUpOnPeer H r why
   | PeerRestarted \<Rightarrow> (if sendOrigin x = Flushed then ret () else onHandle r startAckTimeout)
   | _ \<Rightarrow> (if sendOrigin x = Flushed then ret () else retransmitFrom r (sendSeq x + 1)))"

text \<open>The next link of \<open>#outboundChain\<close> starts once the one before it is done.\<close>

definition sendTurn :: "'r remote_host \<Rightarrow> string \<Rightarrow> ('r net kq, unit) sm" where
  "sendTurn H r = bnd (gets (handle r)) (\<lambda>h.
     case outboundChain h of [] \<Rightarrow> ret ()
     | x # xs \<Rightarrow>
       if inFlight h \<noteq> None then ret ()
       else thn (onHandle r (\<lambda>h. h\<lparr>outboundChain := xs\<rparr>))
         (if sendQueue x \<noteq> outboundQueueId h \<or> heldForRestart h then afterSend H r x Sent
          else if \<not> hasTransport h then afterSend H r x OtherError
          else onHandle r (\<lambda>h. h\<lparr>onTheWire := onTheWire h @ [x], inFlight := Some x\<rparr>)))"

definition sendEnds :: "'r remote_host \<Rightarrow> string \<Rightarrow> send_outcome \<Rightarrow> ('r net kq, unit) sm" where
  "sendEnds H r out = bnd (gets (\<lambda>k. inFlight (handle r k))) (\<lambda>flying.
     case flying of None \<Rightarrow> ret ()
     | Some x \<Rightarrow> thn (onHandle r (\<lambda>h. h\<lparr>inFlight := None\<rparr>)) (afterSend H r x out))"

section \<open>A restart of the peer\<close>

definition resetSendState :: "remote_handle \<Rightarrow> remote_handle" where
  "resetSendState h = h\<lparr>myNextSendSeq := 0, myStartSeq := 0, lastTransmittedSeq := 0, awaitingTransmit := []\<rparr>"

definition endHold :: "remote_handle \<Rightarrow> remote_handle" where
  "endHold h = h\<lparr>ackTimer := False, delayedAckTimer := False, retryCount := 0, outboundQueueId := outboundQueueId h + 1,
     heldForRestart := False, remoteGcRequested := False\<rparr>"

definition persistPeerRestart :: "string \<Rightarrow> ('r net kq, unit) sm" where
  "persistPeerRestart r = thn (onStore (clearRemoteSeqState r)) (thn (onStore (forgetEndpointImports r)) (onHandle r resetSendState))"

definition holdForRestart :: "remote_handle \<Rightarrow> remote_handle" where
  "holdForRestart h = clearAckTimeout (h\<lparr>heldForRestart := True, outboundQueueId := outboundQueueId h + 1\<rparr>)"

definition releaseRestartHold :: "remote_handle \<Rightarrow> remote_handle" where
  "releaseRestartHold h = (if heldForRestart h then endHold ((resetSendState h)\<lparr>myHighestReceivedSeq := 0\<rparr>) else h)"

definition finalizePeerRestart :: "remote_handle \<Rightarrow> remote_handle" where
  "finalizePeerRestart h = endHold (rejectPendingRedemptions ''Remote peer restarted'' (h\<lparr>myHighestReceivedSeq := 0\<rparr>))"

definition handlePeerRestart :: "string \<Rightarrow> ('r net kq, unit) sm" where
  "handlePeerRestart r = thn (persistPeerRestart r) (onHandle r finalizePeerRestart)"

section \<open>Construction\<close>

definition newHandle :: "string \<Rightarrow> bool \<Rightarrow> string list \<Rightarrow> remote_handle" where
  "newHandle peer up hints = \<lparr>rPeerId = peer, hasTransport = up, locationHints = hints, needsHinting = True, remoteGcRequested = False,
     pendingRedemptions = [], redemptionCounter = 1, myNextSendSeq = 0, myHighestReceivedSeq = 0, myStartSeq = 0,
     awaitingTransmit = [], lastTransmittedSeq = 0, outboundChain = [], inFlight = None, outboundQueueId = 0, heldForRestart = False,
     retryCount = 0, ackTimer = False, delayedAckTimer = False, onTheWire = [], acksSent = [], hintsSent = [], redeemed = []\<rparr>"

definition restorePersistedState :: "string \<Rightarrow> ('r net kq, unit) sm" where
  "restorePersistedState r = bnd (gets (\<lambda>k. getRemoteSeqState r (kst k))) (\<lambda>seqState.
     case seqState of
       None \<Rightarrow> bnd (gets (\<lambda>k. getPendingMessage r 1 (kst k))) (\<lambda>orphan.
         if truthy orphan
         then thn (onHandle r (\<lambda>h. h\<lparr>myStartSeq := 1, myNextSendSeq := 1\<rparr>))
           (thn (onStore (setRemoteStartSeq r 1)) (thn (onStore (setRemoteNextSendSeq r 1)) (onHandle r startAckTimeout)))
         else ret ())
     | Some q \<Rightarrow>
         thn (onHandle r (\<lambda>h. h\<lparr>myHighestReceivedSeq := highestReceivedSeq q, myStartSeq := startSeq q, myNextSendSeq := nextSendSeq q\<rparr>))
           (thn (bnd (gets (\<lambda>k. getPendingMessage r (nextSendSeq q + 1) (kst k))) (\<lambda>orphan.
               if truthy orphan
               then thn (onHandle r (\<lambda>h. h\<lparr>myNextSendSeq := nextSendSeq q + 1\<rparr>)) (onStore (setRemoteNextSendSeq r (nextSendSeq q + 1)))
               else ret ()))
             (thn (onHandle r (\<lambda>h. h\<lparr>lastTransmittedSeq := myStartSeq h - 1\<rparr>))
               (thn (bnd (onStore (cleanupOrphanMessages r (startSeq q))) (\<lambda>n. ret ()))
                 (onHandle r (\<lambda>h. if hasPendingMessages h then startAckTimeout h else h))))))"

definition makeRemoteHandle :: "string \<Rightarrow> string \<Rightarrow> bool \<Rightarrow> string list \<Rightarrow> ('r net kq, unit) sm" where
  "makeRemoteHandle r peer up hints = thn (onHandle r (\<lambda>_. newHandle peer up hints)) (restorePersistedState r)"

definition attachTransport :: "string \<Rightarrow> ('r net kq, unit) sm" where
  "attachTransport r = thn (onHandle r (\<lambda>h. startAckTimeout (h\<lparr>hasTransport := True\<rparr>))) (flushTransmitQueue r)"

section \<open>Evaluation\<close>

lemma handle_putHandle [simp]: "handle r (putHandle q h k) = (if r = q then h else handle r k)"
  by (simp add: handle_def putHandle_def)

lemma kst_putHandle [simp]: "kst (putHandle r h k) = kst k"
  by (simp add: putHandle_def)

lemma handle_kst [simp]: "handle r (k\<lparr>kst := s\<rparr>) = handle r k"
  by (simp add: handle_def)

lemma putHandle_twice [simp]: "putHandle r h (putHandle r h' k) = putHandle r h k"
  by (simp add: putHandle_def)

lemma putHandle_kst [simp]: "(putHandle r h k)\<lparr>kst := s\<rparr> = putHandle r h (k\<lparr>kst := s\<rparr>)"
  by (simp add: putHandle_def)

lemma putHandle_same [simp]: "putHandle r (handle r k) k = k"
  by (simp add: putHandle_def handle_def)

lemma onHandle_run [simp]: "onHandle r f k = (Inr (), putHandle r (f (handle r k)) k)"
  by (simp add: onHandle_def)

lemma onStore_write [simp]: "onStore (modify f) k = (Inr (), k\<lparr>kst := f (kst k)\<rparr>)"
  by (simp add: onStore_def)

end
