(* ===== verification/Sessions.thy ===== *)
theory Sessions
  imports RemoteHandle
begin

text \<open>
  What a connection with a peer promises, on top of \<open>RemoteHandle\<close>: messages are handed over in the
  order of their numbers and none is passed over; a number never goes out with two texts, whatever
  cranks are rolled back; an acknowledgement retires what it covers and nothing else; a message
  that arrives again changes nothing.
\<close>

section \<open>Handing over in order\<close>

text \<open>The rows of a remote: what \<open>getPendingMessage\<close> finds.\<close>

abbreviation row :: "string \<Rightarrow> ctx \<Rightarrow> nat \<Rightarrow> string option" where
  "row r s q \<equiv> getPendingMessage r q s"

definition handed :: "nat \<Rightarrow> nat \<Rightarrow> string option \<Rightarrow> outbound_send" where
  "handed qid q m = \<lparr>sendQueue = qid, sendSeq = q, sendText = the m, sendOrigin = Flushed\<rparr>"

text \<open>\<open>qs\<close> are the numbers handed over between two states of a handle.\<close>

definition hands_over :: "string \<Rightarrow> ctx \<Rightarrow> remote_handle \<Rightarrow> nat list \<Rightarrow> remote_handle \<Rightarrow> bool" where
  "hands_over r s h qs h' \<longleftrightarrow>
     outboundChain h' = outboundChain h @ map (\<lambda>q. handed (outboundQueueId h) q (row r s q)) qs \<and>
     outboundQueueId h' = outboundQueueId h \<and> lastTransmittedSeq h \<le> lastTransmittedSeq h' \<and>
     sorted_wrt (<) qs \<and> set qs \<subseteq> {lastTransmittedSeq h <.. lastTransmittedSeq h'} \<and>
     (\<forall>q\<in>set qs. row r s q \<noteq> None \<and> (q \<le> myNextSendSeq h \<or> map_of (awaitingTransmit h) q \<noteq> None)) \<and>
     (\<forall>q\<in>{lastTransmittedSeq h <.. lastTransmittedSeq h'} - set qs. q < myStartSeq h' \<or> row r s q = None) \<and>
     myStartSeq h \<le> myStartSeq h' \<and> myNextSendSeq h \<le> myNextSendSeq h' \<and> (\<forall>q\<in>set qs. q \<le> myNextSendSeq h') \<and>
     (myStartSeq h \<le> Suc (myNextSendSeq h) \<longrightarrow> myStartSeq h' \<le> Suc (myNextSendSeq h'))"

text \<open>What a flush leaves alone.\<close>

definition unflushed :: "remote_handle \<Rightarrow> remote_handle" where
  "unflushed h = h\<lparr>myStartSeq := 0, myNextSendSeq := 0, lastTransmittedSeq := 0, awaitingTransmit := [], outboundChain := [],
     needsHinting := False, hintsSent := [], delayedAckTimer := False, ackTimer := False\<rparr>"

lemma hands_over_refl: "hands_over r s h [] h"
  by (simp add: hands_over_def)

lemma hands_overD:
  assumes "hands_over r s h qs h'"
  shows "outboundChain h' = outboundChain h @ map (\<lambda>q. handed (outboundQueueId h) q (row r s q)) qs"
    and "outboundQueueId h' = outboundQueueId h" and "lastTransmittedSeq h \<le> lastTransmittedSeq h'" and "sorted_wrt (<) qs"
    and "q \<in> set qs \<Longrightarrow> lastTransmittedSeq h < q \<and> q \<le> lastTransmittedSeq h'"
    and "q \<in> set qs \<Longrightarrow> row r s q \<noteq> None" and "q \<in> set qs \<Longrightarrow> q \<le> myNextSendSeq h \<or> map_of (awaitingTransmit h) q \<noteq> None"
    and "lastTransmittedSeq h < q \<Longrightarrow> q \<le> lastTransmittedSeq h' \<Longrightarrow> q \<notin> set qs \<Longrightarrow> q < myStartSeq h' \<or> row r s q = None"
    and "myStartSeq h \<le> myStartSeq h'" and "myNextSendSeq h \<le> myNextSendSeq h'" and "q \<in> set qs \<Longrightarrow> q \<le> myNextSendSeq h'"
    and "myStartSeq h \<le> Suc (myNextSendSeq h) \<Longrightarrow> myStartSeq h' \<le> Suc (myNextSendSeq h')"
  using assms unfolding hands_over_def by (simp_all add: subset_iff)

lemma hands_overI:
  assumes "outboundChain h' = outboundChain h @ map (\<lambda>q. handed (outboundQueueId h) q (row r s q)) qs"
    and "outboundQueueId h' = outboundQueueId h" and "lastTransmittedSeq h \<le> lastTransmittedSeq h'" and "sorted_wrt (<) qs"
    and "\<And>q. q \<in> set qs \<Longrightarrow> lastTransmittedSeq h < q \<and> q \<le> lastTransmittedSeq h'"
    and "\<And>q. q \<in> set qs \<Longrightarrow> row r s q \<noteq> None \<and> (q \<le> myNextSendSeq h \<or> map_of (awaitingTransmit h) q \<noteq> None)"
    and "\<And>q. lastTransmittedSeq h < q \<Longrightarrow> q \<le> lastTransmittedSeq h' \<Longrightarrow> q \<notin> set qs \<Longrightarrow> q < myStartSeq h' \<or> row r s q = None"
    and "myStartSeq h \<le> myStartSeq h'" and "myNextSendSeq h \<le> myNextSendSeq h'" and "\<And>q. q \<in> set qs \<Longrightarrow> q \<le> myNextSendSeq h'"
    and "myStartSeq h \<le> Suc (myNextSendSeq h) \<Longrightarrow> myStartSeq h' \<le> Suc (myNextSendSeq h')"
  shows "hands_over r s h qs h'"
  unfolding hands_over_def using assms by (simp add: subset_iff)

text \<open>A number passed over: retired, or nothing is stored for it.\<close>

lemma hands_over_skip:
  assumes "hands_over r s (h\<lparr>awaitingTransmit := aw, lastTransmittedSeq := Suc (lastTransmittedSeq h)\<rparr>) qs h'"
    and aw: "\<And>q. q \<noteq> Suc (lastTransmittedSeq h) \<Longrightarrow> map_of aw q = map_of (awaitingTransmit h) q"
    and n: "Suc (lastTransmittedSeq h) < myStartSeq h \<or> row r s (Suc (lastTransmittedSeq h)) = None"
  shows "hands_over r s h qs h'"
proof -
  note a = hands_overD [OF assms(1), simplified]
  have "q < myStartSeq h' \<or> row r s q = None"
    if "lastTransmittedSeq h < q" "q \<le> lastTransmittedSeq h'" "q \<notin> set qs" for q
    using a(8) [of q] a(9) n that by (cases "q = Suc (lastTransmittedSeq h)") auto
  moreover have "row r s q \<noteq> None \<and> (q \<le> myNextSendSeq h \<or> map_of (awaitingTransmit h) q \<noteq> None)" if "q \<in> set qs" for q
    using a(5) [OF that] a(6) [OF that] a(7) [OF that] aw [of q] by auto
  moreover have "lastTransmittedSeq h < q \<and> q \<le> lastTransmittedSeq h'" if "q \<in> set qs" for q
    using a(5) [OF that] by simp
  ultimately show ?thesis
    using a(1-4,9-12) by (intro hands_overI) simp_all
qed

text \<open>A number sent.\<close>

lemma hands_over_send:
  assumes "hands_over r s (putOnTheWire \<lparr>persistedSeq = Suc (lastTransmittedSeq h), messageString = m, wasEmpty = w\<rparr>
      (h\<lparr>awaitingTransmit := aw, lastTransmittedSeq := Suc (lastTransmittedSeq h)\<rparr>)) qs h'"
    and m: "row r s (Suc (lastTransmittedSeq h)) = Some m" and live: "\<not> Suc (lastTransmittedSeq h) < myStartSeq h"
    and owed: "Suc (lastTransmittedSeq h) \<le> myNextSendSeq h \<or> map_of (awaitingTransmit h) (Suc (lastTransmittedSeq h)) \<noteq> None"
    and aw: "\<And>q. q \<noteq> Suc (lastTransmittedSeq h) \<Longrightarrow> map_of aw q = map_of (awaitingTransmit h) q"
  shows "hands_over r s h (Suc (lastTransmittedSeq h) # qs) h'"
proof -
  let ?n = "Suc (lastTransmittedSeq h)"
  note a = hands_overD [OF assms(1), simplified]
  have start: "myStartSeq h \<le> myStartSeq h'" using a(9) live by (simp split: if_splits)
  have skipped: "q < myStartSeq h' \<or> row r s q = None"
    if "lastTransmittedSeq h < q" "q \<le> lastTransmittedSeq h'" "q \<notin> set (?n # qs)" for q
    using a(8) [of q] that by (cases "q = ?n") auto
  have sent: "row r s q \<noteq> None \<and> (q \<le> myNextSendSeq h \<or> map_of (awaitingTransmit h) q \<noteq> None)" if "q \<in> set (?n # qs)" for q
  proof (cases "q = ?n")
    case False
    then have q: "q \<in> set qs" using that by simp
    then show ?thesis using a(5) [OF q] a(6) [OF q] a(7) [OF q] aw [OF False] by (auto simp: max_def split: if_splits)
  qed (use m owed in simp)
  have "myStartSeq h' \<le> Suc (myNextSendSeq h')" if "myStartSeq h \<le> Suc (myNextSendSeq h)"
    by (rule a(12)) (use that in auto)
  moreover have "lastTransmittedSeq h < q \<and> q \<le> lastTransmittedSeq h'" "q \<le> myNextSendSeq h'" if "q \<in> set (?n # qs)" for q
    using a(3,10) a(5,11) [of q] that by auto
  moreover have "sorted_wrt (<) (?n # qs)" using a(4,5) by auto
  moreover have le: "lastTransmittedSeq h \<le> lastTransmittedSeq h'" using a(3) by simp
  ultimately show ?thesis
    using a(1,2,10) start skipped sent m by (intro hands_overI [OF _ _ le]) (simp_all add: handed_def)
qed

text \<open>Where a flush stops.\<close>

definition stops_at :: "string \<Rightarrow> ctx \<Rightarrow> remote_handle \<Rightarrow> nat \<Rightarrow> bool" where
  "stops_at r s h n \<longleftrightarrow> myStartSeq h \<le> n \<and> map_of (awaitingTransmit h) n = None \<and> (n > myNextSendSeq h \<or> row r s n = None)"

lemma unflushed_upd [simp]:
  "unflushed (h\<lparr>awaitingTransmit := aw, lastTransmittedSeq := n\<rparr>) = unflushed h"
  "unflushed (h\<lparr>lastTransmittedSeq := n\<rparr>) = unflushed h"
  "unflushed (h\<lparr>awaitingTransmit := aw\<rparr>) = unflushed h"
  by (simp_all add: unflushed_def)

lemma unflushed_highest: "myHighestReceivedSeq (unflushed h) = myHighestReceivedSeq h"
  by (simp add: unflushed_def)

lemma unflushed_put [simp]: "unflushed (putOnTheWire p h) = unflushed h"
  by (simp add: unflushed_def putOnTheWire_def sendInOrder_def startAckTimeout_def clearDelayedAck_def Let_def)

definition flushed :: "string \<Rightarrow> ctx \<Rightarrow> remote_handle \<Rightarrow> remote_handle \<Rightarrow> bool" where
  "flushed r s h h' \<longleftrightarrow> (\<exists>qs. hands_over r s h qs h') \<and> stops_at r s h' (Suc (lastTransmittedSeq h')) \<and> unflushed h' = unflushed h"

lemma flushed_skip:
  assumes "flushed r s (h\<lparr>awaitingTransmit := aw, lastTransmittedSeq := Suc (lastTransmittedSeq h)\<rparr>) h'"
    and "\<And>q. q \<noteq> Suc (lastTransmittedSeq h) \<Longrightarrow> map_of aw q = map_of (awaitingTransmit h) q"
    and "Suc (lastTransmittedSeq h) < myStartSeq h \<or> row r s (Suc (lastTransmittedSeq h)) = None"
  shows "flushed r s h h'"
proof -
  obtain qs where "hands_over r s (h\<lparr>awaitingTransmit := aw, lastTransmittedSeq := Suc (lastTransmittedSeq h)\<rparr>) qs h'"
    using assms(1) by (auto simp: flushed_def)
  then have "hands_over r s h qs h'" by (rule hands_over_skip) (use assms(2,3) in auto)
  then show ?thesis using assms(1) by (auto simp: flushed_def)
qed

lemma flushed_send:
  assumes "flushed r s (putOnTheWire \<lparr>persistedSeq = Suc (lastTransmittedSeq h), messageString = m, wasEmpty = w\<rparr>
      (h\<lparr>awaitingTransmit := aw, lastTransmittedSeq := Suc (lastTransmittedSeq h)\<rparr>)) h'"
    and "row r s (Suc (lastTransmittedSeq h)) = Some m" and "\<not> Suc (lastTransmittedSeq h) < myStartSeq h"
    and "Suc (lastTransmittedSeq h) \<le> myNextSendSeq h \<or> map_of (awaitingTransmit h) (Suc (lastTransmittedSeq h)) \<noteq> None"
    and "\<And>q. q \<noteq> Suc (lastTransmittedSeq h) \<Longrightarrow> map_of aw q = map_of (awaitingTransmit h) q"
  shows "flushed r s h h'"
proof -
  obtain qs where "hands_over r s (putOnTheWire \<lparr>persistedSeq = Suc (lastTransmittedSeq h), messageString = m, wasEmpty = w\<rparr>
      (h\<lparr>awaitingTransmit := aw, lastTransmittedSeq := Suc (lastTransmittedSeq h)\<rparr>)) qs h'"
    using assms(1) by (auto simp: flushed_def)
  then have "hands_over r s h (Suc (lastTransmittedSeq h) # qs) h'"
    by (rule hands_over_send) (use assms(2-5) in auto)
  then show ?thesis using assms(1) by (auto simp: flushed_def)
qed

lemma same_awaiting [simp]:
  "h\<lparr>awaitingTransmit := awaitingTransmit h, lastTransmittedSeq := n\<rparr> = h\<lparr>lastTransmittedSeq := n\<rparr>"
  by (cases h) simp

lemma flush_cases [case_names retired unsent gone inherited undone awaiting]:
  assumes "b \<Longrightarrow> P" and "\<not> b \<Longrightarrow> x = None \<Longrightarrow> c \<Longrightarrow> P" and "\<not> b \<Longrightarrow> x = None \<Longrightarrow> \<not> c \<Longrightarrow> y = None \<Longrightarrow> P"
    and "\<And>m. \<not> b \<Longrightarrow> x = None \<Longrightarrow> \<not> c \<Longrightarrow> y = Some m \<Longrightarrow> P" and "\<And>p. \<not> b \<Longrightarrow> x = Some p \<Longrightarrow> y = None \<Longrightarrow> P"
    and "\<And>p m. \<not> b \<Longrightarrow> x = Some p \<Longrightarrow> y = Some m \<Longrightarrow> P"
  shows P
  using assms by (cases x; cases y) auto

lemma flush_loop_flushed: "flushed r s h (flush_loop r s h)"
proof (induction r s h rule: flush_loop.induct)
  case (1 r s h)
  let ?n = "Suc (lastTransmittedSeq h)"
  show ?case
  proof (cases rule: flush_cases [where b = "?n < myStartSeq h" and x = "map_of (awaitingTransmit h) ?n"
      and c = "?n > myNextSendSeq h" and y = "row r s ?n"])
    case retired
    have "flushed r s h (flush_loop r s (h\<lparr>awaitingTransmit := obj_del ?n (awaitingTransmit h), lastTransmittedSeq := ?n\<rparr>))"
      by (rule flushed_skip [where aw = "obj_del ?n (awaitingTransmit h)"]) (use "1.IH"(1) [OF refl] retired in auto)
    then show ?thesis using retired by (subst flush_loop.simps) (simp add: Let_def)
  next
    case unsent
    then have "flush_loop r s h = h" by (subst flush_loop.simps) (simp add: Let_def)
    then show ?thesis using unsent hands_over_refl by (auto simp: flushed_def stops_at_def)
  next
    case gone
    have "flushed r s h (flush_loop r s (h\<lparr>lastTransmittedSeq := ?n\<rparr>))"
      by (rule flushed_skip [where aw = "awaitingTransmit h"]) (use "1.IH"(2) [OF refl] gone in auto)
    then show ?thesis using gone by (subst flush_loop.simps) (simp add: Let_def)
  next
    case (inherited m)
    have "flushed r s h (flush_loop r s (putOnTheWire \<lparr>persistedSeq = ?n, messageString = m, wasEmpty = False\<rparr> (h\<lparr>lastTransmittedSeq := ?n\<rparr>)))"
      by (rule flushed_send [where aw = "awaitingTransmit h" and m = m and w = False]) (use "1.IH"(3) [OF refl] inherited in auto)
    then show ?thesis using inherited by (subst flush_loop.simps) (simp add: Let_def)
  next
    case (undone p)
    then have "flush_loop r s h = h\<lparr>awaitingTransmit := obj_del ?n (awaitingTransmit h)\<rparr>" by (subst flush_loop.simps) (simp add: Let_def)
    then show ?thesis using undone
      by (auto simp: flushed_def hands_over_def stops_at_def intro!: exI [of _ "[]"])
  next
    case (awaiting p m)
    have "flushed r s h (flush_loop r s (putOnTheWire \<lparr>persistedSeq = ?n, messageString = m, wasEmpty = wasEmpty p\<rparr>
        (h\<lparr>awaitingTransmit := obj_del ?n (awaitingTransmit h), lastTransmittedSeq := ?n\<rparr>)))"
      by (rule flushed_send [where aw = "obj_del ?n (awaitingTransmit h)" and m = m and w = "wasEmpty p"]) (use "1.IH"(4) [OF refl] awaiting in auto)
    then show ?thesis using awaiting by (subst flush_loop.simps) (simp add: Let_def)
  qed
qed

section \<open>The store's side of a connection\<close>

definition seq_at :: "string \<Rightarrow> string \<Rightarrow> ctx \<Rightarrow> nat" where
  "seq_at r nm s = (case tget (remoteSeqs (db s)) (r, nm) of None \<Rightarrow> 0 | Some n \<Rightarrow> n)"

definition seq_put :: "string \<Rightarrow> string \<Rightarrow> nat \<Rightarrow> ctx \<Rightarrow> ctx" where
  "seq_put r nm n s = db_update (remoteSeqs_update (tput (r, nm) n)) s"

definition row_put :: "string \<Rightarrow> nat \<Rightarrow> string \<Rightarrow> ctx \<Rightarrow> ctx" where
  "row_put r q m s = db_update (remotePendings_update (tput (r, q) m)) s"

definition rows_del :: "string \<Rightarrow> nat list \<Rightarrow> ctx \<Rightarrow> ctx" where
  "rows_del r qs s = db_update (remotePendings_update (\<lambda>t. foldl (\<lambda>t q. tdel (r, q) t) t qs)) s"

lemma stored_eq: "storedSeqWindow r s = \<lparr>windowStart = seq_at r ''startSeq'' s, windowEnd = seq_at r ''nextSendSeq'' s\<rparr>"
  by (simp add: storedSeqWindow_def getRemoteSeqState_def seq_at_def Let_def split: option.split)

lemma seq_at_put [simp]: "seq_at r nm (seq_put r' nm' n s) = (if r = r' \<and> nm = nm' then n else seq_at r nm s)"
  by (simp add: seq_at_def seq_put_def)

lemma seq_at_rows [simp]: "seq_at r nm (row_put r' q m s) = seq_at r nm s" "seq_at r nm (rows_del r' qs s) = seq_at r nm s"
  by (simp_all add: seq_at_def row_put_def rows_del_def)

lemma row_seq_put [simp]: "row r (seq_put r' nm n s) q = row r s q"
  by (simp add: getPendingMessage_def seq_put_def)

lemma row_row_put [simp]: "row r (row_put r' q m s) q' = (if r = r' \<and> q = q' then Some m else row r s q')"
  by (simp add: getPendingMessage_def row_put_def)

lemma row_rows_del [simp]: "row r (rows_del r' qs s) q = (if r = r' \<and> q \<in> set qs then None else row r s q)"
proof -
  have "tget (foldl (\<lambda>t q. tdel (r', q) t) t qs) (r, q) = (if r = r' \<and> q \<in> set qs then None else tget t (r, q))" for t :: "(string \<times> nat, string) tbl"
    by (induction qs arbitrary: t) auto
  then show ?thesis by (simp add: getPendingMessage_def rows_del_def)
qed

lemma onStore_seqs [simp]:
  "onStore (setRemoteStartSeq r n) k = (Inr (), k\<lparr>kst := seq_put r ''startSeq'' n (kst k)\<rparr>)"
  "onStore (setRemoteNextSendSeq r n) k = (Inr (), k\<lparr>kst := seq_put r ''nextSendSeq'' n (kst k)\<rparr>)"
  "onStore (setRemoteHighestReceivedSeq r n) k = (Inr (), k\<lparr>kst := seq_put r ''highestReceivedSeq'' n (kst k)\<rparr>)"
  "onStore (setPendingMessage r q m) k = (Inr (), k\<lparr>kst := row_put r q m (kst k)\<rparr>)"
  by (simp_all add: setRemoteStartSeq_def setRemoteNextSendSeq_def setRemoteHighestReceivedSeq_def setPendingMessage_def seq_put_def row_put_def)

lemma delete_rows_run: "forEach qs (\<lambda>q. onStore (deletePendingMessage r q)) k = (Inr (), k\<lparr>kst := rows_del r qs (kst k)\<rparr>)"
  by (induction qs arbitrary: k) (simp_all add: deletePendingMessage_def rows_del_def comp_def)

text \<open>The store once what memory knows to be acknowledged has been written off.\<close>

definition acknowledged :: "string \<Rightarrow> nat \<Rightarrow> ctx \<Rightarrow> ctx" where
  "acknowledged r start s =
     (if \<not> hasPending (storedSeqWindow r s) \<or> start \<le> seq_at r ''startSeq'' s then s
      else rows_del r [seq_at r ''startSeq'' s ..< Suc (min (start - 1) (seq_at r ''nextSendSeq'' s))]
        (if seq_at r ''nextSendSeq'' s < start - 1 then seq_put r ''nextSendSeq'' (start - 1) (seq_put r ''startSeq'' start s)
         else seq_put r ''startSeq'' start s))"

lemma persistAcknowledged_run:
  "persistAcknowledged r k = (Inr (), k\<lparr>kst := acknowledged r (myStartSeq (handle r k)) (kst k)\<rparr>)"
  by (simp add: persistAcknowledged_def acknowledged_def delete_rows_run stored_eq)

lemma row_acknowledged:
  "row r (acknowledged r start s) q =
     (if hasPending (storedSeqWindow r s) \<and> seq_at r ''startSeq'' s \<le> q \<and> q < start \<and> q \<le> seq_at r ''nextSendSeq'' s then None else row r s q)"
  by (auto simp: acknowledged_def)

lemma end_acknowledged:
  "seq_at r ''nextSendSeq'' (acknowledged r start s) =
     (if hasPending (storedSeqWindow r s) \<and> seq_at r ''startSeq'' s < start then max (start - 1) (seq_at r ''nextSendSeq'' s)
      else seq_at r ''nextSendSeq'' s)"
  by (auto simp: acknowledged_def max_def)

lemma start_acknowledged:
  "seq_at r ''startSeq'' (acknowledged r start s) =
     (if hasPending (storedSeqWindow r s) then max start (seq_at r ''startSeq'' s) else seq_at r ''startSeq'' s)"
  by (auto simp: acknowledged_def max_def)

text \<open>The store once a message has been written down.\<close>

definition numbered :: "string \<Rightarrow> nat \<Rightarrow> string \<Rightarrow> ctx \<Rightarrow> ctx" where
  "numbered r q m s = seq_put r ''nextSendSeq'' q
     (if hasPending (storedSeqWindow r s) then row_put r q m s else seq_put r ''startSeq'' q (row_put r q m s))"

lemma row_numbered: "row r (numbered r q m s) q' = (if q = q' then Some m else row r s q')"
  by (simp add: numbered_def)

lemma seqs_numbered:
  "seq_at r ''nextSendSeq'' (numbered r q m s) = q"
  "seq_at r ''startSeq'' (numbered r q m s) = (if hasPending (storedSeqWindow r s) then seq_at r ''startSeq'' s else q)"
  by (simp_all add: numbered_def)

text \<open>The window the next message is numbered from, given what memory and the store hold.\<close>

definition window_of :: "string \<Rightarrow> remote_handle \<Rightarrow> ctx \<Rightarrow> seq_window" where
  "window_of r h s = (if myNextSendSeq h > seq_at r ''nextSendSeq'' s then seqWindow h else storedSeqWindow r s)"

lemma sendWindow_eq: "sendWindow r k = window_of r (handle r k) (kst k)"
  by (simp add: sendWindow_def window_of_def stored_eq)

lemma windowEnd_window_of [simp]: "windowEnd (window_of r h s) = max (myNextSendSeq h) (seq_at r ''nextSendSeq'' s)"
  by (auto simp: window_of_def seqWindow_def stored_eq)

lemma persistRemoteCommand_run:
  "persistRemoteCommand H r msg exempt ack k =
     (let s = acknowledged r (myStartSeq (handle r k)) (kst k); w = window_of r (handle r k) s; q = windowEnd w + 1;
          m = stringify H \<lparr>cmdSeq = IntSeq (int q), cmdAck = map_option int ack, cmdBody = msg\<rparr> in
      if \<not> exempt \<and> countPending w \<ge> MAX_PENDING_MESSAGES
      then (Inl (JsError ''Message rejected: pending queue at capacity'' []), k\<lparr>kst := s\<rparr>)
      else (Inr \<lparr>persistedSeq = q, messageString = m, wasEmpty = \<not> hasPending w\<rparr>, k\<lparr>kst := numbered r q m s\<rparr>))"
  by (simp add: persistRemoteCommand_def persistAcknowledged_run sendWindow_eq numbered_def stored_eq Let_def)

section \<open>A number goes out with one text\<close>

text \<open>The sends of a handle: those that wait their turn and those made.\<close>

definition sends_of :: "remote_handle \<Rightarrow> outbound_send set" where
  "sends_of h = set (outboundChain h) \<union> set (onTheWire h)"

text \<open>What the store, here or as a rollback would restore it (\<open>sv\<close>), may hold under a number that was sent.\<close>

definition row_agrees :: "string \<Rightarrow> ctx \<Rightarrow> outbound_send \<Rightarrow> bool" where
  "row_agrees r s x \<longleftrightarrow> row r s (sendSeq x) = None \<or> row r s (sendSeq x) = Some (sendText x)"

definition rows_below :: "string \<Rightarrow> ctx \<Rightarrow> bool" where
  "rows_below r s \<longleftrightarrow> (\<forall>q. row r s q \<noteq> None \<longrightarrow> q \<le> seq_at r ''nextSendSeq'' s)"

definition rows_ok :: "string \<Rightarrow> ctx \<Rightarrow> ctx \<Rightarrow> bool" where
  "rows_ok r s sv \<longleftrightarrow> rows_below r s \<and> rows_below r sv \<and> seq_at r ''nextSendSeq'' sv \<le> seq_at r ''nextSendSeq'' s \<and>
     (\<forall>q m. row r s q = Some m \<longrightarrow> row r sv q = None \<or> row r sv q = Some m)"

definition one_text :: "outbound_send set \<Rightarrow> bool" where
  "one_text X \<longleftrightarrow> (\<forall>x\<in>X. \<forall>y\<in>X. sendSeq x = sendSeq y \<longrightarrow> sendText x = sendText y)"

definition sends_ok :: "string \<Rightarrow> remote_handle \<Rightarrow> ctx \<Rightarrow> ctx \<Rightarrow> bool" where
  "sends_ok r h s sv \<longleftrightarrow>
     (\<forall>x\<in>sends_of h. sendSeq x \<le> myNextSendSeq h \<and> row_agrees r s x \<and> row_agrees r sv x) \<and>
     one_text (sends_of h)"

definition conn_ok :: "string \<Rightarrow> ctx \<Rightarrow> 'r net kq \<Rightarrow> bool" where
  "conn_ok r sv k \<longleftrightarrow> rows_ok r (kst k) sv \<and> sends_ok r (handle r k) (kst k) sv"

text \<open>Nothing written, at most some rows deleted.\<close>

lemma rows_ok_fewer:
  assumes "rows_ok r s sv" and "\<And>q. row r s' q = None \<or> row r s' q = row r s q" and "seq_at r ''nextSendSeq'' s \<le> seq_at r ''nextSendSeq'' s'"
  shows "rows_ok r s' sv"
proof -
  have old: "row r s q = Some m" if "row r s' q = Some m" for q m using assms(2) [of q] that by auto
  have "q \<le> seq_at r ''nextSendSeq'' s'" if "row r s' q = Some m" for q m
  proof -
    have "q \<le> seq_at r ''nextSendSeq'' s" using old [OF that] assms(1) by (simp add: rows_ok_def rows_below_def)
    then show ?thesis using assms(3) by simp
  qed
  then have "rows_below r s'" by (auto simp: rows_below_def)
  moreover have "row r sv q = None \<or> row r sv q = Some m" if "row r s' q = Some m" for q m
    using old [OF that] assms(1) by (simp add: rows_ok_def)
  ultimately show ?thesis using assms(1,3) by (simp add: rows_ok_def)
qed

lemma sends_ok_fewer:
  assumes "sends_ok r h s sv" and "\<And>q. row r s' q = None \<or> row r s' q = row r s q"
  shows "sends_ok r h s' sv"
  using assms unfolding sends_ok_def row_agrees_def by metis

lemma conn_ok_fewer:
  assumes "conn_ok r sv k" and "\<And>q. row r s' q = None \<or> row r s' q = row r (kst k) q"
    and "seq_at r ''nextSendSeq'' (kst k) \<le> seq_at r ''nextSendSeq'' s'"
  shows "conn_ok r sv (k\<lparr>kst := s'\<rparr>)"
  using assms rows_ok_fewer sends_ok_fewer unfolding conn_ok_def by auto

text \<open>No new send, and the counter does not go back.\<close>

lemma sends_ok_quiet: "sends_ok r h s sv \<Longrightarrow> sends_of h' \<subseteq> sends_of h \<Longrightarrow> myNextSendSeq h \<le> myNextSendSeq h' \<Longrightarrow> sends_ok r h' s sv"
  unfolding sends_ok_def one_text_def by (meson order_trans subsetD)

text \<open>New sends, each of a number up to the counter, with the text the store has for it.\<close>

lemma sends_ok_more:
  assumes "sends_ok r h s sv" and "rows_ok r s sv" and "myNextSendSeq h \<le> myNextSendSeq h'"
    and "\<And>x. x \<in> sends_of h' \<Longrightarrow> x \<in> sends_of h \<or> sendSeq x \<le> myNextSendSeq h' \<and> row r s (sendSeq x) = Some (sendText x)"
  shows "sends_ok r h' s sv"
proof -
  have old: "sendSeq x \<le> myNextSendSeq h'" "row_agrees r s x" "row_agrees r sv x" if "x \<in> sends_of h" for x
    using assms(1,3) that by (auto simp: sends_ok_def)
  have new: "row_agrees r s x" "row_agrees r sv x" if "row r s (sendSeq x) = Some (sendText x)" for x
    using assms(2) that by (auto simp: rows_ok_def row_agrees_def)
  have ag: "sendSeq x \<le> myNextSendSeq h' \<and> row_agrees r s x \<and> row_agrees r sv x" if x: "x \<in> sends_of h'" for x
    using assms(4) [OF x] old [of x] new [of x] by blast
  have "sendText x = sendText y" if x: "x \<in> sends_of h'" and y: "y \<in> sends_of h'" and e: "sendSeq x = sendSeq y" for x y
  proof (cases "x \<in> sends_of h \<and> y \<in> sends_of h")
    case True
    then show ?thesis using assms(1) e unfolding sends_ok_def one_text_def by blast
  next
    case False
    then have "row r s (sendSeq x) = Some (sendText x) \<or> row r s (sendSeq y) = Some (sendText y)"
      using assms(4) [OF x] assms(4) [OF y] by blast
    then show ?thesis using ag [OF x] ag [OF y] e by (auto simp: row_agrees_def)
  qed
  then have "one_text (sends_of h')" unfolding one_text_def by blast
  then show ?thesis using ag by (simp add: sends_ok_def)
qed

text \<open>A message written down under a number above every other.\<close>

lemma conn_ok_numbered:
  assumes "conn_ok r sv k" and "q > myNextSendSeq (handle r k)" and "q > seq_at r ''nextSendSeq'' (kst k)"
  shows "conn_ok r sv (k\<lparr>kst := numbered r q m (kst k)\<rparr>)"
proof -
  have st: "rows_ok r (kst k) sv" and sd: "sends_ok r (handle r k) (kst k) sv" using assms(1) by (simp_all add: conn_ok_def)
  have "rows_below r (numbered r q m (kst k))"
    using st assms(3) by (fastforce simp: rows_ok_def rows_below_def row_numbered seqs_numbered)
  moreover have "row r sv q = None" using st assms(3) by (force simp: rows_ok_def rows_below_def)
  ultimately have "rows_ok r (numbered r q m (kst k)) sv"
    using st assms(3) by (auto simp: rows_ok_def row_numbered seqs_numbered)
  moreover have "sendSeq x \<noteq> q" if "x \<in> sends_of (handle r k)" for x using sd that assms(2) by (auto simp: sends_ok_def)
  then have "sends_ok r (handle r k) (numbered r q m (kst k)) sv"
    using sd by (auto simp: sends_ok_def row_agrees_def row_numbered)
  ultimately show ?thesis by (simp add: conn_ok_def)
qed

named_theorems conns \<open>operations that keep a connection's numbers\<close>

lemma conns_onHandle:
  assumes "\<And>h. sends_of (f h) \<subseteq> sends_of h" and "\<And>h. myNextSendSeq h \<le> myNextSendSeq (f h)"
  shows "keeps (conn_ok r sv) (onHandle r f)"
  by (rule hoareI) (auto simp: conn_ok_def intro: sends_ok_quiet [OF _ assms])

lemma conns_bnd [conns]: "keeps P m \<Longrightarrow> (\<And>x. keeps P (f x)) \<Longrightarrow> keeps P (bnd m f)"
  by (rule hoare_bnd)

lemma conns_thn [conns]: "keeps P m \<Longrightarrow> keeps P n \<Longrightarrow> keeps P (thn m n)"
  by (rule hoare_thn)

lemma conns_acknowledged [conns]: "keeps (conn_ok r sv) (persistAcknowledged r)"
  by (rule hoareI) (auto simp: persistAcknowledged_run row_acknowledged end_acknowledged intro!: conn_ok_fewer)

lemma conns_persist [conns]: "keeps (conn_ok r sv) (persistRemoteCommand H r msg exempt ack)"
proof -
  have "conn_ok r sv (snd (persistRemoteCommand H r msg exempt ack k))" if ok: "conn_ok r sv k" for k
  proof -
    let ?k = "k\<lparr>kst := acknowledged r (myStartSeq (handle r k)) (kst k)\<rparr>"
    have "conn_ok r sv ?k" using ok by (auto simp: row_acknowledged end_acknowledged intro!: conn_ok_fewer)
    then show ?thesis
      using conn_ok_numbered [of r sv ?k "Suc (windowEnd (window_of r (handle r k) (kst ?k)))"]
      by (auto simp: persistRemoteCommand_run Let_def)
  qed
  then show ?thesis unfolding hoare_def by (metis (mono_tags, lifting) case_prodI2 snd_conv sum.case_eq_if)
qed

lemma conns_flush [conns]: "keeps (conn_ok r sv) (flushTransmitQueue r)"
proof -
  have "conn_ok r sv (putHandle r (flush_loop r (kst k) (handle r k)) k)" if ok: "conn_ok r sv k" for k
  proof -
    let ?h = "handle r k" and ?h' = "flush_loop r (kst k) (handle r k)"
    obtain qs where qs: "hands_over r (kst k) ?h qs ?h'" and un: "unflushed ?h' = unflushed ?h"
      using flush_loop_flushed [of r "kst k" ?h] by (auto simp: flushed_def)
    note d = hands_overD [OF qs]
    have "onTheWire ?h' = onTheWire ?h" using arg_cong [OF un, of onTheWire] by (simp add: unflushed_def)
    then have "x \<in> sends_of ?h \<or> sendSeq x \<le> myNextSendSeq ?h' \<and> row r (kst k) (sendSeq x) = Some (sendText x)"
      if "x \<in> sends_of ?h'" for x
      using that d(1) d(6,11) by (auto simp: sends_of_def handed_def)
    then have "sends_ok r ?h' (kst k) sv"
      using ok [unfolded conn_ok_def] by (intro sends_ok_more [of r ?h _ _ ?h', OF _ _ d(10)]) blast+
    then show ?thesis using ok by (simp add: conn_ok_def)
  qed
  then show ?thesis by (auto simp: hoare_def flushTransmitQueue_def)
qed

text \<open>Operations that leave the connection to others, and what they leave alone.\<close>

abbreviation conn_part :: "string \<Rightarrow> 'r net kq \<Rightarrow> ((string \<times> string, nat) tbl \<times> (string \<times> nat, string) tbl) \<times> remote_handle" where
  "conn_part r k \<equiv> (remote_part (kst k), handle r k)"

lemma conn_ok_cong:
  assumes "conn_ok r sv k" and "\<And>q. row r (kst k') q = row r (kst k) q" and "seq_at r ''nextSendSeq'' (kst k') = seq_at r ''nextSendSeq'' (kst k)"
    and "sends_of (handle r k') \<subseteq> sends_of (handle r k)" and "myNextSendSeq (handle r k) \<le> myNextSendSeq (handle r k')"
  shows "conn_ok r sv k'"
proof -
  have "rows_ok r (kst k') sv" using assms(1-3) by (auto simp: conn_ok_def intro: rows_ok_fewer)
  moreover have "sends_ok r (handle r k) (kst k') sv" using assms(1,2) by (auto simp: conn_ok_def intro: sends_ok_fewer)
  ultimately show ?thesis using sends_ok_quiet [OF _ assms(4,5)] by (simp add: conn_ok_def)
qed

lemma conn_part_rows: "conn_part r k' = conn_part r k \<Longrightarrow> row r (kst k') q = row r (kst k) q"
  by (simp add: getPendingMessage_def)

lemma conn_part_seqs: "conn_part r k' = conn_part r k \<Longrightarrow> seq_at r nm (kst k') = seq_at r nm (kst k)"
  by (simp add: seq_at_def)

lemma conns_spared: "spares (conn_part r) m \<Longrightarrow> keeps (conn_ok r sv) m"
proof -
  assume sp: "spares (conn_part r) m"
  have ok: "conn_ok r sv k'" if "conn_ok r sv k" "m k = (x, k')" for k x k'
  proof -
    have e: "conn_part r k' = conn_part r k" by (rule sparesD [OF sp that(2)])
    then have "handle r k' = handle r k" by simp
    then show ?thesis using that(1) conn_part_rows [OF e] conn_part_seqs [OF e] by (auto intro: conn_ok_cong)
  qed
  show ?thesis by (rule hoareI) (auto intro: ok)
qed

lemma conns_gets [conns]: "keeps P (gets f)"
  by (simp add: hoare_def)

lemma conns_ret [conns]: "keeps P (ret x)"
  by (simp add: hoare_def)

lemma conns_fail [conns]: "keeps P (fail e)"
  by (simp add: hoare_def)

lemma conns_lift [conns]: "keeps P (lift x)"
  by (cases x) (simp_all add: hoare_def)

lemma conns_if [conns]: "(b \<Longrightarrow> keeps P m) \<Longrightarrow> (\<not> b \<Longrightarrow> keeps P n) \<Longrightarrow> keeps P (if b then m else n)"
  by simp

lemma conns_Let [conns]: "(\<And>x. keeps P (f x)) \<Longrightarrow> keeps P (Let x f)"
  by (simp add: Let_def)

lemma conns_option [conns]: "keeps P m \<Longrightarrow> (\<And>v. keeps P (f v)) \<Longrightarrow> keeps P (case x of None \<Rightarrow> m | Some v \<Rightarrow> f v)"
  by (cases x) simp_all

lemma conns_list [conns]: "keeps P m \<Longrightarrow> (\<And>y ys. keeps P (f y ys)) \<Longrightarrow> keeps P (case xs of [] \<Rightarrow> m | y # ys \<Rightarrow> f y ys)"
  by (cases xs) simp_all

lemma keeps_result: "keeps P m \<Longrightarrow> P s \<Longrightarrow> m s = (q, s') \<Longrightarrow> P s'"
  unfolding hoare_def by (cases q) fastforce+

lemma keeps_by_result: "(\<And>s q s'. P s \<Longrightarrow> m s = (q, s') \<Longrightarrow> P s') \<Longrightarrow> keeps P m"
  by (rule hoareI) blast+

lemma conns_tryCatch [conns]: "keeps P m \<Longrightarrow> (\<And>e. keeps P (h e)) \<Longrightarrow> keeps P (tryCatch m h)"
proof (rule keeps_by_result)
  fix s q s' assume a: "keeps P m" "\<And>e. keeps P (h e)" "P s" "tryCatch m h s = (q, s')"
  obtain x u where x: "m s = (x, u)" by fastforce
  then have u: "P u" using keeps_result [OF a(1,3)] by blast
  show "P s'"
  proof (cases x)
    case (Inl e)
    then show ?thesis using a(4) x keeps_result [OF a(2) u, of e q s'] by (simp add: tryCatch_def)
  qed (use a(4) x u in \<open>simp add: tryCatch_def\<close>)
qed

lemma sends_sel [simp]:
  "outboundChain (startAckTimeout h) = outboundChain h" "outboundChain (clearAckTimeout h) = outboundChain h"
  "outboundChain (clearDelayedAck h) = outboundChain h" "outboundChain (startDelayedAck h) = outboundChain h"
  "outboundChain (rejectPendingRedemptions why h) = outboundChain h" "outboundChain (sendStandaloneAck H h) = outboundChain h"
  "outboundChain (holdForRestart h) = outboundChain h"
  "onTheWire (startAckTimeout h) = onTheWire h" "onTheWire (clearAckTimeout h) = onTheWire h"
  "onTheWire (clearDelayedAck h) = onTheWire h" "onTheWire (startDelayedAck h) = onTheWire h"
  "onTheWire (rejectPendingRedemptions why h) = onTheWire h" "onTheWire (sendStandaloneAck H h) = onTheWire h"
  "onTheWire (holdForRestart h) = onTheWire h"
  by (simp_all add: startAckTimeout_def clearAckTimeout_def clearDelayedAck_def startDelayedAck_def
      rejectPendingRedemptions_def sendStandaloneAck_def holdForRestart_def split: option.split)

lemma next_sel [simp]:
  "myNextSendSeq (startAckTimeout h) = myNextSendSeq h" "myNextSendSeq (clearAckTimeout h) = myNextSendSeq h"
  "myNextSendSeq (clearDelayedAck h) = myNextSendSeq h" "myNextSendSeq (startDelayedAck h) = myNextSendSeq h"
  "myNextSendSeq (rejectPendingRedemptions why h) = myNextSendSeq h" "myNextSendSeq (sendStandaloneAck H h) = myNextSendSeq h"
  "myNextSendSeq (holdForRestart h) = myNextSendSeq h"
  by (simp_all add: startAckTimeout_def clearAckTimeout_def clearDelayedAck_def startDelayedAck_def
      rejectPendingRedemptions_def sendStandaloneAck_def holdForRestart_def split: option.split)

lemma conns_handleAck [conns]: "keeps (conn_ok r sv) (handleAck r a)"
  unfolding handleAck_def by (intro conns conns_onHandle) (simp_all add: sends_of_def Let_def)

lemma conns_transmit [conns]: "keeps (conn_ok r sv) (transmitRemoteCommand r p)"
  unfolding transmitRemoteCommand_def by (intro conns conns_onHandle) (simp_all add: sends_of_def)

lemma conns_deliverToPeer [conns]: "keeps (conn_ok r sv) (deliverToPeer H r d ex)"
  unfolding deliverToPeer_def by (intro conns)

lemma conns_bringOutYourDead [conns]: "keeps (conn_ok r sv) (remoteBringOutYourDead H r)"
  unfolding remoteBringOutYourDead_def by (intro conns conns_onHandle) (simp_all add: sends_of_def)

lemma conns_redeemOcapURL [conns]: "keeps (conn_ok r sv) (redeemOcapURL H r url caller)"
  unfolding redeemOcapURL_def sendRemoteCommand_def by (intro conns conns_onHandle) (simp_all add: sends_of_def)

lemma conns_complete [conns]: "keeps (conn_ok r sv) (completeHandleRedeemURLReply r key found)"
  unfolding completeHandleRedeemURLReply_def by (intro conns_onHandle) (simp_all add: sends_of_def split: option.split)

lemma conns_rejectAllPending [conns]: "keeps (conn_ok r sv) (rejectAllPending r)"
proof (rule keeps_by_result)
  fix k q k' assume ok: "conn_ok r sv k" and run: "rejectAllPending r k = (q, k')"
  let ?h = "handle r k" and ?w = "window_of r (handle r k) (kst k)"
  have w: "window_of r (?h\<lparr>outboundQueueId := n\<rparr>) (kst k) = ?w" for n by (simp add: window_of_def seqWindow_def)
  have o: "sends_of (?h\<lparr>outboundQueueId := n\<rparr>) = sends_of ?h" for n by (simp add: sends_of_def)
  show "conn_ok r sv k'"
  proof (cases "countPending ?w = 0")
    case True
    then have "k' = putHandle r (?h\<lparr>outboundQueueId := outboundQueueId ?h + 1\<rparr>) k"
      using run by (auto simp: rejectAllPending_def sendWindow_eq w)
    then show ?thesis using o by (intro conn_ok_cong [OF ok]) simp_all
  next
    case False
    then have "k' = putHandle r (?h\<lparr>outboundQueueId := outboundQueueId ?h + 1, myStartSeq := windowEnd ?w + 1, myNextSendSeq := windowEnd ?w, retryCount := 0\<rparr>)
        (k\<lparr>kst := seq_put r ''startSeq'' (windowEnd ?w + 1) (seq_put r ''nextSendSeq'' (windowEnd ?w) (kst k))\<rparr>)"
      using run by (auto simp: rejectAllPending_def sendWindow_eq w)
    moreover have "conn_ok r sv (k\<lparr>kst := seq_put r ''startSeq'' (windowEnd ?w + 1) (seq_put r ''nextSendSeq'' (windowEnd ?w) (kst k))\<rparr>)"
      using ok by (intro conn_ok_fewer) auto
    ultimately show ?thesis by (elim ssubst conn_ok_cong) (auto simp: sends_of_def)
  qed
qed

lemma conns_giveUp [conns]: "keeps (conn_ok r sv) (giveUp r why)"
  unfolding giveUp_def by (intro conns conns_onHandle) (simp_all add: sends_of_def)

text \<open>The callback for a peer given up on keeps the connection's numbers; theory \<open>RemoteManager\<close> shows it of the manager's.\<close>

definition calm_callback :: "'r remote_host \<Rightarrow> string \<Rightarrow> bool" where
  "calm_callback H r \<longleftrightarrow> (\<forall>sv peer. keeps (conn_ok r sv) (onGiveUp H peer))"

lemma conns_callback: "calm_callback H r \<Longrightarrow> keeps (conn_ok r sv) (onGiveUp H peer)"
  by (simp add: calm_callback_def)

lemma conns_giveUpOnPeer: "calm_callback H r \<Longrightarrow> keeps (conn_ok r sv) (giveUpOnPeer H r why)"
  unfolding giveUpOnPeer_def by (intro conns conns_callback)

lemma conns_retransmit [conns]: "keeps (conn_ok r sv) (retransmitFrom r seq)"
proof (rule keeps_by_result)
  fix k q k' assume ok: "conn_ok r sv k" and run: "retransmitFrom r seq k = (q, k')"
  let ?h = "handle r k"
  show "conn_ok r sv k'"
  proof (cases "find (\<lambda>q. truthy (row r (kst k) q)) [seq ..< Suc (myNextSendSeq ?h)]")
    case None
    then have "k' = putHandle r (startAckTimeout ?h) k" using run by (simp add: retransmitFrom_def del: upt_Suc)
    then show ?thesis by (auto simp: sends_of_def intro: conn_ok_cong [OF ok])
  next
    case (Some n)
    have n: "n \<in> set [seq ..< Suc (myNextSendSeq ?h)]" "truthy (row r (kst k) n)"
      using Some unfolding find_Some_iff by (metis nth_mem)+
    have "k' = putHandle r (sendInOrder n (the (row r (kst k) n)) Retransmitted ?h) k" using run Some by (simp add: retransmitFrom_def del: upt_Suc)
    moreover have "sends_ok r (sendInOrder n (the (row r (kst k) n)) Retransmitted ?h) (kst k) sv"
    proof (rule sends_ok_more)
      show "sends_ok r ?h (kst k) sv" "rows_ok r (kst k) sv" using ok by (simp_all add: conn_ok_def)
      have "n \<le> myNextSendSeq ?h" "row r (kst k) n = Some (the (row r (kst k) n))" using n by (auto simp: truthy_def simp del: upt_Suc)
      then show "x \<in> sends_of ?h \<or> sendSeq x \<le> myNextSendSeq (sendInOrder n (the (row r (kst k) n)) Retransmitted ?h) \<and>
          row r (kst k) (sendSeq x) = Some (sendText x)"
        if "x \<in> sends_of (sendInOrder n (the (row r (kst k) n)) Retransmitted ?h)" for x
        using that by (auto simp: sendInOrder_def sends_of_def)
    qed (simp add: sendInOrder_def)
    ultimately show ?thesis using ok by (simp add: conn_ok_def)
  qed
qed

lemma conns_handleAckTimeout: "calm_callback H r \<Longrightarrow> keeps (conn_ok r sv) (handleAckTimeout H r)"
  unfolding handleAckTimeout_def by (intro conns conns_onHandle conns_giveUpOnPeer) (simp_all add: sends_of_def)

lemma conns_afterSend: "calm_callback H r \<Longrightarrow> keeps (conn_ok r sv) (afterSend H r x out)"
  unfolding afterSend_def by (cases out) (auto intro!: conns conns_onHandle conns_giveUpOnPeer simp: sends_of_def)

lemma conns_sendEnds: "calm_callback H r \<Longrightarrow> keeps (conn_ok r sv) (sendEnds H r out)"
  unfolding sendEnds_def by (intro conns conns_onHandle conns_afterSend) (simp_all add: sends_of_def)

lemma conns_sendTurn: "calm_callback H r \<Longrightarrow> keeps (conn_ok r sv) (sendTurn H r)"
proof (rule keeps_by_result)
  fix k q k' assume cb: "calm_callback H r" and ok: "conn_ok r sv k" and run: "sendTurn H r k = (q, k')"
  let ?h = "handle r k"
  show "conn_ok r sv k'"
  proof (cases "outboundChain ?h = [] \<or> inFlight ?h \<noteq> None")
    case True
    then show ?thesis using ok run by (auto simp: sendTurn_def split: list.splits)
  next
    case False
    then obtain x xs where x: "outboundChain ?h = x # xs" "inFlight ?h = None" by (cases "outboundChain ?h") auto
    let ?k = "putHandle r (?h\<lparr>outboundChain := xs\<rparr>) k"
    have popped: "conn_ok r sv ?k" using x by (intro conn_ok_cong [OF ok]) (auto simp: sends_of_def)
    consider "sendQueue x \<noteq> outboundQueueId ?h \<or> heldForRestart ?h" "afterSend H r x Sent ?k = (q, k')"
      | "afterSend H r x OtherError ?k = (q, k')"
      | "k' = putHandle r (?h\<lparr>outboundChain := xs, onTheWire := onTheWire ?h @ [x], inFlight := Some x\<rparr>) k"
      using run x by (auto simp: sendTurn_def split: if_splits)
    then show ?thesis
    proof cases
      case 3
      then show ?thesis using x by (auto simp: sends_of_def intro!: conn_ok_cong [OF ok])
    qed (use keeps_result [OF conns_afterSend [OF cb] popped] in blast)+
  qed
qed

lemma conns_attachTransport [conns]: "keeps (conn_ok r sv) (attachTransport r)"
  unfolding attachTransport_def by (intro conns conns_onHandle) (simp_all add: sends_of_def)

lemma conns_afterReceipt [conns]: "keeps (conn_ok r sv) (afterReceipt r seq msg d p)"
  unfolding afterReceipt_def
  by (intro conns conns_onHandle; cases d; (intro conns)?) (auto simp: sends_of_def intro!: conns split: deferred_completion.split)

section \<open>What arrives\<close>

lemma conn_part_onStore [frames]:
  assumes "frame m"
  shows "spares (conn_part r :: 'r net kq \<Rightarrow> _) (onStore m)"
proof (rule sparesI)
  fix k k' :: "'r net kq" and q assume run: "onStore m k = (q, k')"
  obtain x s where x: "m (kst k) = (x, s)" by fastforce
  then have "k' = k\<lparr>kst := s\<rparr>" using run by (auto simp: onStore_def)
  then show "conn_part r k' = conn_part r k" using sparesD [OF assms x] by simp
qed

lemma handle_queue [simp]:
  "handle r (answers_update a k) = handle r k" "handle r (asleep_update b k) = handle r k" "handle r (subscriptions_update ss k) = handle r k"
  "handle r (resolvedWithKernelSubscription_update rs k) = handle r k" "handle r (arrivedFromRemotes_update xs k) = handle r k"
  by (simp_all add: handle_def)

lemma conn_part_queueRun [frames]: "spares (conn_part r) (queueRun item)"
  unfolding queueRun_def wakeRunLoop_def by (intro frames; auto)

lemma conn_part_enqueueSend [frames]: "spares (conn_part r) (enqueueSend t m i)"
  unfolding enqueueSend_def by (intro frames; auto)

lemma conn_part_enqueueNotify [frames]: "spares (conn_part r) (enqueueNotify e p i)"
  unfolding enqueueNotify_def by (intro frames; auto)

lemma conn_part_invoke [frames]: "spares (conn_part r) (invokeKernelSubscription p)"
  unfolding invokeKernelSubscription_def settleKernelSubscription_def tell_def by (intro frames; auto)

lemma conn_part_resolvePromises [frames]: "spares (conn_part r) (resolvePromises e rs i)"
  unfolding resolvePromises_def resolvePromise_def by (intro frames; auto)

lemma spares_run_loop_state [frames]:
  "spares p a \<Longrightarrow> spares p b \<Longrightarrow> spares p c \<Longrightarrow> (\<And>e. spares p (d e)) \<Longrightarrow>
   spares p (case x of Idle \<Rightarrow> a | Running \<Rightarrow> b | Stopped \<Rightarrow> c | Failed e \<Rightarrow> d e)"
  by (cases x) simp_all

lemma conn_part_alive [frames]: "spares (conn_part r) (assertRunLoopAlive what)"
  unfolding assertRunLoopAlive_def by (intro frames)

lemma conn_part_wake [frames]: "spares (conn_part r) wakeRunLoop"
  unfolding wakeRunLoop_def by (intro frames; auto)

lemma conn_part_accept [frames]: "spares (conn_part r) (acceptRemoteInbound a b n m hi)"
  unfolding acceptRemoteInbound_def by (intro frames; auto)

lemma frame_scheduleReap [frames]: "frame (scheduleReap ep)"
  unfolding scheduleReap_def by (intro frames; auto)

lemma frame_gc [frames]: "frame (handleGC r ty erefs)"
  unfolding handleGC_def knownKrefs_def erefToKref_def
  by (cases ty) (simp_all, intro frames; auto)+

lemma frame_receiveResolution [frames]: "frame (receiveResolution r res)"
  unfolding receiveResolution_def by (intro frames; auto)

lemma conn_part_deliver [frames]: "spares (conn_part r) (handleRemoteDeliver q d)"
  by (cases d) (simp_all, (intro frames; auto)+)

text \<open>Redeeming a URL of the kernel's own leaves the connection alone.\<close>

definition quiet_redemption :: "'r remote_host \<Rightarrow> string \<Rightarrow> bool" where
  "quiet_redemption H r \<longleftrightarrow> (\<forall>url k. conn_part r (snd (redeemLocalOcapURL H url k)) = conn_part r k)"

lemma conn_part_redeem: "quiet_redemption H r \<Longrightarrow> spares (conn_part r) (redeemLocalOcapURL H url)"
  by (simp add: quiet_redemption_def spares_def)

lemma conn_part_handleInbound:
  assumes "quiet_redemption H r"
  shows "spares (conn_part r) (handleInbound H r msg)"
proof (cases msg)
  case (RedeemURL url key)
  then show ?thesis
    by (simp add: handleRedeemURLRequest_def) (intro frames conn_part_redeem [OF assms])
next
  case (RedeemURLReply ok key v)
  then show ?thesis unfolding RedeemURLReply handleInbound.simps handleRedeemURLReply_def by (intro frames)
qed (simp_all, (intro frames)+)

lemma conns_setHighest [conns]: "keeps (conn_ok r sv) (onStore (setRemoteHighestReceivedSeq r n))"
  by (rule hoareI) (auto intro!: conn_ok_fewer)

lemma conns_deferred [conns]:
  "(\<And>key found. keeps P (f key found)) \<Longrightarrow> keeps P m \<Longrightarrow>
   keeps P (case d of Some (RedeemRequest key found) \<Rightarrow> f key found | _ \<Rightarrow> m)"
  by (cases d) (auto split: deferred_completion.split)

lemma conns_json_seq [conns]:
  "keeps P a \<Longrightarrow> keeps P b \<Longrightarrow> (\<And>n. keeps P (f n)) \<Longrightarrow> keeps P (case q of NoSeq \<Rightarrow> a | NotAnInteger \<Rightarrow> b | IntSeq n \<Rightarrow> f n)"
  by (cases q) simp_all

lemma conns_inbound:
  assumes "quiet_redemption H r"
  shows "keeps (conn_ok r sv) (remoteDeliverInbound H r m)"
  unfolding remoteDeliverInbound_def receiveInbound_def persistRedeemURLReply_def
  by (intro conns conns_spared [OF conn_part_handleInbound [OF assms]])

lemma conns_receiveFromPeer [conns]: "keeps (conn_ok r sv) (receiveFromPeer H r m)"
  unfolding receiveFromPeer_def
  by (intro conns conns_onHandle conns_spared [OF conn_part_accept]) (simp_all add: sends_of_def)

section \<open>Runs of a connection\<close>

text \<open>
  What can happen to a connection while the peer is the same incarnation, with the store a rollback of the
  open crank would go back to. A delivery, a message taken in or a request may run in a crank that then
  commits or rolls back; the transport, the timers and the rest of the kernel go their own way.
\<close>

inductive conn_step :: "'r remote_host \<Rightarrow> string \<Rightarrow> 'r net kq \<times> ctx \<Rightarrow> 'r net kq \<times> ctx \<Rightarrow> bool" for H r where
  elsewhere: "(\<forall>q. row r (kst k') q = row r (kst k) q) \<Longrightarrow> seq_at r ''nextSendSeq'' (kst k') = seq_at r ''nextSendSeq'' (kst k) \<Longrightarrow>
    handle r k' = handle r k \<Longrightarrow> conn_step H r (k, sv) (k', sv)"
| crank_commits: "conn_step H r (k, sv) (k, kst k)"
| crank_rolls_back: "conn_step H r (k, sv) (k\<lparr>kst := sv\<rparr>, sv)"
| delivers: "deliverToPeer H r d exempt k = (q, k') \<Longrightarrow> conn_step H r (k, sv) (k', sv)"
| reaps: "remoteBringOutYourDead H r k = (q, k') \<Longrightarrow> conn_step H r (k, sv) (k', sv)"
| transmits: "transmitRemoteCommand r p k = (q, k') \<Longrightarrow> conn_step H r (k, sv) (k', sv)"
| redeems: "redeemOcapURL H r url caller k = (q, k') \<Longrightarrow> conn_step H r (k, sv) (k', sv)"
| redemption_times_out: "redemptionTimeout r key k = (q, k') \<Longrightarrow> conn_step H r (k, sv) (k', sv)"
| arrives: "receiveFromPeer H r m k = (q, k') \<Longrightarrow> conn_step H r (k, sv) (k', sv)"
| takes_in: "remoteDeliverInbound H r m k = (q, k') \<Longrightarrow> conn_step H r (k, sv) (k', sv)"
| receipt: "afterReceipt r seq msg d p k = (q, k') \<Longrightarrow> conn_step H r (k, sv) (k', sv)"
| ack_timer: "handleAckTimeout H r k = (q, k') \<Longrightarrow> conn_step H r (k, sv) (k', sv)"
| delayed_ack: "delayedAckFires H r k = (q, k') \<Longrightarrow> conn_step H r (k, sv) (k', sv)"
| next_send: "sendTurn H r k = (q, k') \<Longrightarrow> conn_step H r (k, sv) (k', sv)"
| send_ends: "sendEnds H r out k = (q, k') \<Longrightarrow> conn_step H r (k, sv) (k', sv)"
| gives_up: "giveUp r why k = (q, k') \<Longrightarrow> conn_step H r (k, sv) (k', sv)"
| attaches: "attachTransport r k = (q, k') \<Longrightarrow> conn_step H r (k, sv) (k', sv)"
| holds: "onHandle r holdForRestart k = (q, k') \<Longrightarrow> conn_step H r (k, sv) (k', sv)"
| cleans_up: "cleanupHandle r k = (q, k') \<Longrightarrow> conn_step H r (k, sv) (k', sv)"

inductive conn_run :: "'r remote_host \<Rightarrow> string \<Rightarrow> 'r net kq \<times> ctx \<Rightarrow> 'r net kq \<times> ctx \<Rightarrow> bool" for H r where
  start: "conn_run H r c c"
| step: "conn_run H r c d \<Longrightarrow> conn_step H r d e \<Longrightarrow> conn_run H r c e"

lemma conn_ok_commit: "conn_ok r sv k \<Longrightarrow> conn_ok r (kst k) k"
  by (auto simp: conn_ok_def rows_ok_def sends_ok_def)

lemma conn_ok_rollback: "conn_ok r sv k \<Longrightarrow> conn_ok r sv (k\<lparr>kst := sv\<rparr>)"
  by (auto simp: conn_ok_def rows_ok_def sends_ok_def)

lemma conn_step_ok:
  assumes "conn_step H r (k, sv) (k', sv')" and "conn_ok r sv k" and cb: "calm_callback H r" and qr: "quiet_redemption H r"
  shows "conn_ok r sv' k'"
proof -
  note by_keeping = keeps_result [where P = "conn_ok r sv" and s = k, OF _ assms(2)]
  show ?thesis
    using assms(1)
  proof (cases rule: conn_step.cases)
    case elsewhere
    then show ?thesis using assms(2) by (auto intro: conn_ok_cong)
  next
    case crank_commits
    then show ?thesis using assms(2) by (auto intro: conn_ok_commit)
  next
    case crank_rolls_back
    then show ?thesis using assms(2) by (auto intro: conn_ok_rollback)
  next
    case delivers then show ?thesis using by_keeping [OF conns_deliverToPeer] by blast
  next
    case reaps then show ?thesis using by_keeping [OF conns_bringOutYourDead] by blast
  next
    case transmits then show ?thesis using by_keeping [OF conns_transmit] by blast
  next
    case redeems then show ?thesis using by_keeping [OF conns_redeemOcapURL] by blast
  next
    case redemption_times_out
    then show ?thesis using by_keeping [OF conns_complete] unfolding redemptionTimeout_def by blast
  next
    case arrives then show ?thesis using by_keeping [OF conns_receiveFromPeer] by blast
  next
    case takes_in then show ?thesis using by_keeping [OF conns_inbound [OF qr]] by blast
  next
    case receipt then show ?thesis using by_keeping [OF conns_afterReceipt] by blast
  next
    case ack_timer then show ?thesis using by_keeping [OF conns_handleAckTimeout [OF cb]] by blast
  next
    case delayed_ack
    then show ?thesis using by_keeping [OF conns_onHandle [where f = "\<lambda>h. sendStandaloneAck H (clearDelayedAck h)"]]
      unfolding delayedAckFires_def by (simp add: sends_of_def)
  next
    case next_send then show ?thesis using by_keeping [OF conns_sendTurn [OF cb]] by blast
  next
    case send_ends then show ?thesis using by_keeping [OF conns_sendEnds [OF cb]] by blast
  next
    case gives_up then show ?thesis using by_keeping [OF conns_giveUp] by blast
  next
    case attaches then show ?thesis using by_keeping [OF conns_attachTransport] by blast
  next
    case holds
    then show ?thesis using by_keeping [OF conns_onHandle [where f = holdForRestart]] by (simp add: sends_of_def)
  next
    case cleans_up
    then show ?thesis
      using by_keeping [OF conns_onHandle [where f = "\<lambda>h. rejectPendingRedemptions ''Remote connection cleanup'' (clearDelayedAck (clearAckTimeout h))"]]
      unfolding cleanupHandle_def by (simp add: sends_of_def)
  qed
qed

lemma conn_run_ok:
  assumes "conn_run H r c d" and "conn_ok r (snd c) (fst c)" and "calm_callback H r" and "quiet_redemption H r"
  shows "conn_ok r (snd d) (fst d)"
  using assms(1,2)
proof (induction rule: conn_run.induct)
  case (step c d e)
  then show ?case using conn_step_ok [of H r "fst d" "snd d" "fst e" "snd e"] assms(3,4) by simp
qed

section \<open>Acknowledgements\<close>

lemma ack_loop_eq: "ack_loop a w = (if hasPending w \<and> int (windowStart w) \<le> a then Suc (nat (min (int (windowEnd w)) a)) else windowStart w)"
proof (induction a w rule: ack_loop.induct)
  case (1 a w)
  show ?case
  proof (cases "int (windowStart w) \<le> a \<and> hasPending w")
    case True
    then have e: "ack_loop a w = ack_loop a (w\<lparr>windowStart := windowStart w + 1\<rparr>)" by (subst ack_loop.simps) simp
    show ?thesis
      unfolding e using 1 [OF True] True by (auto simp: hasPending_def min_def)
  next
    case False
    then show ?thesis by (subst ack_loop.simps) auto
  qed
qed

section \<open>Taking messages in\<close>

text \<open>A message in a crank of its own, which commits or is rolled back; what it answers with runs after the commit.\<close>

definition take_in :: "'r remote_host \<Rightarrow> string \<Rightarrow> string \<times> bool \<Rightarrow> 'r net kq \<Rightarrow> 'r net kq" where
  "take_in H r mc k = (case remoteDeliverInbound H r (fst mc) k of
     (Inr res, k1) \<Rightarrow> if snd mc then (case afterCommit res of None \<Rightarrow> k1 | Some f \<Rightarrow> snd (f k1)) else k1\<lparr>kst := kst k\<rparr>
   | (Inl e, k1) \<Rightarrow> k1\<lparr>kst := kst k\<rparr>)"

text \<open>The number of the message, if its effects stay.\<close>

definition taken_seq :: "'r remote_host \<Rightarrow> string \<Rightarrow> string \<times> bool \<Rightarrow> 'r net kq \<Rightarrow> int list" where
  "taken_seq H r mc k = (case fst (remoteDeliverInbound H r (fst mc) k) of
     Inr res \<Rightarrow> if snd mc \<and> afterCommit res \<noteq> None
       then (case parseMessage H (fst mc) of Inr cmd \<Rightarrow> (case cmdSeq cmd of IntSeq n \<Rightarrow> [n] | _ \<Rightarrow> []) | Inl e \<Rightarrow> []) else []
   | Inl e \<Rightarrow> [])"

fun taken_seqs :: "'r remote_host \<Rightarrow> string \<Rightarrow> (string \<times> bool) list \<Rightarrow> 'r net kq \<Rightarrow> int list" where
  "taken_seqs H r [] k = []"
| "taken_seqs H r (mc # ms) k = taken_seq H r mc k @ taken_seqs H r ms (take_in H r mc k)"

definition stored_highest :: "string \<Rightarrow> ctx \<Rightarrow> nat" where
  "stored_highest r s = (case getRemoteSeqState r s of None \<Rightarrow> 0 | Some q \<Rightarrow> highestReceivedSeq q)"

lemma stored_highest_eq: "stored_highest r s = seq_at r ''highestReceivedSeq'' s"
  by (simp add: stored_highest_def getRemoteSeqState_def seq_at_def Let_def split: option.split)

lemma highest_kept [simp]:
  "stored_highest r (acknowledged r start s) = stored_highest r s" "stored_highest r (numbered r q m s) = stored_highest r s"
  "stored_highest r (seq_put r ''highestReceivedSeq'' n s) = n"
  by (simp_all add: stored_highest_eq acknowledged_def numbered_def)

lemma flush_keeps: "kst (snd (flushTransmitQueue r k)) = kst k \<and>
    myHighestReceivedSeq (handle r (snd (flushTransmitQueue r k))) = myHighestReceivedSeq (handle r k)"
proof -
  have "unflushed (flush_loop r (kst k) (handle r k)) = unflushed (handle r k)"
    using flush_loop_flushed [of r "kst k" "handle r k"] by (simp add: flushed_def)
  then have "myHighestReceivedSeq (flush_loop r (kst k) (handle r k)) = myHighestReceivedSeq (handle r k)"
    by (metis (no_types, lifting) arg_cong [where f = myHighestReceivedSeq] unflushed_highest)
  then show ?thesis by (simp add: flushTransmitQueue_def)
qed

lemma afterReceipt_run:
  "kst (snd (afterReceipt r seq msg d p k)) = kst k \<and> myHighestReceivedSeq (handle r (snd (afterReceipt r seq msg d p k))) = seq"
proof -
  let ?h = "(handle r k)\<lparr>myHighestReceivedSeq := seq, remoteGcRequested := remoteGcRequested (handle r k) \<or> msg = Deliver BringOutYourDead\<rparr>"
  let ?rest = "case p of Some p \<Rightarrow> transmitRemoteCommand r p
      | None \<Rightarrow> (case d of Some (RedeemReply key found) \<Rightarrow> completeHandleRedeemURLReply r key found | _ \<Rightarrow> ret ())"
  have "fst (?rest k1) = Inr () \<and> kst (snd (?rest k1)) = kst k1 \<and> myHighestReceivedSeq (handle r (snd (?rest k1))) = myHighestReceivedSeq (handle r k1)" for k1 :: "'a net kq"
    using flush_keeps [of r "putHandle r ((handle r k1)\<lparr>awaitingTransmit := aw\<rparr>) k1" for aw]
    by (auto simp: transmitRemoteCommand_def completeHandleRedeemURLReply_def flushTransmitQueue_def split: option.split deferred_completion.split)
  from this [of "putHandle r ?h k"] show ?thesis
    by (cases "?rest (putHandle r ?h k)") (auto simp: afterReceipt_def thn_def bnd_def startDelayedAck_def split: sum.splits)
qed

lemma receiveInbound_run:
  assumes "quiet_redemption H r" and run: "receiveInbound H r seq msg k = (q, k1)"
  shows "handle r k1 = handle r k" and "q = Inr f \<Longrightarrow> stored_highest r (kst k1) = seq \<and> (\<exists>d p. f = afterReceipt r seq msg d p)"
proof -
  obtain x k2 where x: "handleInbound H r msg k = (x, k2)" by fastforce
  have same: "handle r k2 = handle r k" using sparesD [OF conn_part_handleInbound [OF assms(1)] x] by simp
  have "handle r k1 = handle r k \<and> (q = Inr f \<longrightarrow> stored_highest r (kst k1) = seq \<and> (\<exists>d p. f = afterReceipt r seq msg d p))"
  proof (cases x)
    case (Inl e)
    then show ?thesis using run x same by (auto simp: receiveInbound_def bnd_def)
  next
    case (Inr d)
    then show ?thesis
      using run x same unfolding receiveInbound_def persistRedeemURLReply_def bnd_def
      by (auto simp: persistAcknowledged_run persistRemoteCommand_run Let_def thn_def bnd_def ret_def
          split: option.splits deferred_completion.splits prod.splits)
  qed
  then show "handle r k1 = handle r k" "q = Inr f \<Longrightarrow> stored_highest r (kst k1) = seq \<and> (\<exists>d p. f = afterReceipt r seq msg d p)" by simp_all
qed

lemma inbound_run:
  assumes "quiet_redemption H r" and run: "remoteDeliverInbound H r m k = (q, k1)"
  shows "handle r k1 = handle r k"
    and "q = Inr res \<Longrightarrow> afterCommit res = None \<and> k1 = k\<lparr>kst := acknowledged r (myStartSeq (handle r k)) (kst k)\<rparr> \<or>
      (\<exists>cmd n d p. parseMessage H m = Inr cmd \<and> cmdSeq cmd = IntSeq n \<and> n > int (myHighestReceivedSeq (handle r k)) \<and>
        afterCommit res = Some (afterReceipt r (nat n) (cmdBody cmd) d p) \<and> stored_highest r (kst k1) = nat n)"
proof -
  let ?new = "\<lambda>res. afterCommit res = None \<and> k1 = k\<lparr>kst := acknowledged r (myStartSeq (handle r k)) (kst k)\<rparr> \<or>
      (\<exists>cmd n d p. parseMessage H m = Inr cmd \<and> cmdSeq cmd = IntSeq n \<and> n > int (myHighestReceivedSeq (handle r k)) \<and>
        afterCommit res = Some (afterReceipt r (nat n) (cmdBody cmd) d p) \<and> stored_highest r (kst k1) = nat n)"
  have "handle r k1 = handle r k \<and> (q = Inr res \<longrightarrow> ?new res)"
  proof (cases "parseMessage H m")
    case (Inl e)
    then show ?thesis using run by (auto simp: remoteDeliverInbound_def lift_def bnd_def)
  next
    case cmd: (Inr cmd)
    show ?thesis
    proof (cases "cmdSeq cmd")
      case (IntSeq n)
      show ?thesis
      proof (cases "n \<le> int (myHighestReceivedSeq (handle r k))")
        case True
        then show ?thesis using run cmd IntSeq
          by (auto simp: remoteDeliverInbound_def lift_def bnd_def gets_def thn_def ret_def persistAcknowledged_run delivered_def)
      next
        case False
        obtain x k2 where x: "receiveInbound H r (nat n) (cmdBody cmd) k = (x, k2)" by fastforce
        note r = receiveInbound_run [OF assms(1) x]
        show ?thesis
        proof (cases x)
          case (Inl e)
          then show ?thesis using run cmd IntSeq False x r(1) by (auto simp: remoteDeliverInbound_def lift_def bnd_def gets_def)
        next
          case (Inr f)
          then have q: "q = Inr ((delivered r)\<lparr>afterCommit := Some f\<rparr>)" "k1 = k2"
            using run cmd IntSeq False x by (auto simp: remoteDeliverInbound_def lift_def bnd_def gets_def ret_def)
          obtain d p where f: "f = afterReceipt r (nat n) (cmdBody cmd) d p" and h: "stored_highest r (kst k2) = nat n"
            using r(2) [OF Inr] by blast
          have new: "?new ((delivered r)\<lparr>afterCommit := Some f\<rparr>)"
            unfolding q(2) f using cmd IntSeq False h
            by (intro disjI2 exI [of _ cmd] exI [of _ n] exI [of _ d] exI [of _ p]) simp
          show ?thesis
          proof (intro conjI impI)
            show "handle r k1 = handle r k" using r(1) q(2) by simp
            assume "q = Inr res"
            then have "res = (delivered r)\<lparr>afterCommit := Some f\<rparr>" using q(1) by simp
            then show "?new res" using new by (simp only:)
          qed
        qed
      qed
    qed (use run cmd in \<open>auto simp: remoteDeliverInbound_def lift_def bnd_def fail_def\<close>)
  qed
  then show "handle r k1 = handle r k" "q = Inr res \<Longrightarrow> ?new res" by simp_all
qed

text \<open>One message: either it counts, once, or it leaves no more than acknowledgements behind.\<close>

lemma take_in_run:
  assumes "quiet_redemption H r" and "stored_highest r (kst k) = myHighestReceivedSeq (handle r k)"
  shows "taken_seq H r mc k = [] \<and> (kst (take_in H r mc k) = kst k \<or> kst (take_in H r mc k) = acknowledged r (myStartSeq (handle r k)) (kst k)) \<and>
      handle r (take_in H r mc k) = handle r k \<or>
    (\<exists>n. taken_seq H r mc k = [n] \<and> n > int (myHighestReceivedSeq (handle r k)) \<and>
      int (myHighestReceivedSeq (handle r (take_in H r mc k))) = n \<and> int (stored_highest r (kst (take_in H r mc k))) = n)"
proof -
  obtain q k1 where q: "remoteDeliverInbound H r (fst mc) k = (q, k1)" by fastforce
  note run = inbound_run [OF assms(1) q]
  show ?thesis
  proof (cases q)
    case (Inl e)
    then show ?thesis using q run(1) by (simp add: take_in_def taken_seq_def)
  next
    case (Inr res)
    from run(2) [OF Inr] show ?thesis
    proof (elim disjE exE conjE)
      assume "afterCommit res = None" "k1 = k\<lparr>kst := acknowledged r (myStartSeq (handle r k)) (kst k)\<rparr>"
      then show ?thesis using q Inr by (auto simp: take_in_def taken_seq_def)
    next
      fix cmd n d p
      assume a: "parseMessage H (fst mc) = Inr cmd" "cmdSeq cmd = IntSeq n" "int (myHighestReceivedSeq (handle r k)) < n"
        "afterCommit res = Some (afterReceipt r (nat n) (cmdBody cmd) d p)" "stored_highest r (kst k1) = nat n"
      show ?thesis using a q Inr run(1) afterReceipt_run [of r "nat n" "cmdBody cmd" d p k1]
        by (cases "snd mc") (auto simp: take_in_def taken_seq_def)
    qed
  qed
qed

text \<open>No number goes out with two texts, as long as the callback keeps the connection's numbers.\<close>

lemma numbers_one_text:
  fixes k k' :: "'r net kq"
  assumes "outboundChain (handle r k) = []" and "onTheWire (handle r k) = []"
    and "\<forall>q. getPendingMessage r q (kst k) \<noteq> None \<longrightarrow> q \<le> windowEnd (storedSeqWindow r (kst k))"
    and "calm_callback H r" and "quiet_redemption H r" and "conn_run H r (k, kst k) (k', sv)"
    and "x \<in> set (onTheWire (handle r k'))" and "y \<in> set (onTheWire (handle r k'))" and "sendSeq x = sendSeq y"
  shows "sendText x = sendText y"
proof -
  have "conn_ok r (kst k) k"
    using assms(1-3) by (auto simp: conn_ok_def rows_ok_def rows_below_def sends_ok_def one_text_def sends_of_def stored_eq)
  then have "conn_ok r sv k'" using conn_run_ok [OF assms(6)] assms(4,5) by simp
  then have "one_text (sends_of (handle r k'))" by (simp add: conn_ok_def sends_ok_def)
  then show ?thesis using assms(7-9) by (auto simp: one_text_def sends_of_def)
qed

section \<open>A connection to evaluate on\<close>

definition demo_link :: "'r remote_host" where
  "demo_link = \<lparr>stringify = (\<lambda>c. ''m''), stringifyAck = nat_text,
     parseMessage = (\<lambda>m. Inr \<lparr>cmdSeq = IntSeq (int (length m)), cmdAck = None, cmdBody = Deliver BringOutYourDead\<rparr>),
     redeemLocalOcapURL = (\<lambda>url. ret (Inl ''unknown'')), onGiveUp = (\<lambda>peer. ret ()), errorMessage = (\<lambda>e. ''error'')\<rparr>"

definition demo_conn :: "'r \<Rightarrow> 'r net kq" where
  "demo_conn x = makeKernelQueue (makeKernelStore empty_kdb) \<lparr>handleOf = (\<lambda>r. newHandle ''peer'' True []), aside = x\<rparr>"

lemma demo_link_calm: "calm_callback demo_link r" and demo_link_quiet: "quiet_redemption demo_link r"
  by (simp_all add: calm_callback_def quiet_redemption_def demo_link_def conns_ret)

lemma demo_conn_facts [simp]:
  "handle r (demo_conn x) = newHandle ''peer'' True []" "seq_at r nm (kst (demo_conn x)) = 0" "row r (kst (demo_conn x)) q = None"
proof -
  have "remoteSeqs (db (makeKernelStore empty_kdb)) = tempty" "remotePendings (db (makeKernelStore empty_kdb)) = tempty"
    unfolding makeKernelStore_fresh by (simp_all add: empty_kdb_def)
  then show "handle r (demo_conn x) = newHandle ''peer'' True []" "seq_at r nm (kst (demo_conn x)) = 0" "row r (kst (demo_conn x)) q = None"
    by (simp_all add: demo_conn_def makeKernelQueue_def handle_def seq_at_def getPendingMessage_def)
qed

definition demo_command :: persisted_command where
  "demo_command = \<lparr>persistedSeq = 1, messageString = ''m'', wasEmpty = True\<rparr>"

lemma demo_takes: "taken_seq demo_link r (m, True) k = (if length m > myHighestReceivedSeq (handle r k) then [int (length m)] else [])"
proof -
  have "\<exists>s. onStore (scheduleReap r) k = (Inr (), k\<lparr>kst := s\<rparr>)"
    by (intro exI [of _ "snd (scheduleReap r (kst k))"]) (simp add: onStore_def scheduleReap_def)
  then show ?thesis
    by (auto simp: taken_seq_def remoteDeliverInbound_def receiveInbound_def demo_link_def persistAcknowledged_run delivered_def)
qed

lemma demo_delivers: "deliverToPeer demo_link ''r1'' BringOutYourDead False (demo_conn x) =
    (Inr ((delivered ''r1'')\<lparr>afterCommit := Some (transmitRemoteCommand ''r1'' demo_command)\<rparr>),
     (demo_conn x)\<lparr>kst := numbered ''r1'' 1 ''m'' (kst (demo_conn x))\<rparr>)"
  by (simp add: deliverToPeer_def persistRemoteCommand_run acknowledged_def stored_eq hasPending_def window_of_def newHandle_def
      countPending_def demo_link_def demo_command_def MAX_PENDING_MESSAGES_def Let_def)

definition demo_written :: "'r \<Rightarrow> 'r net kq" where
  "demo_written x = (demo_conn x)\<lparr>kst := numbered ''r1'' 1 ''m'' (kst (demo_conn x))\<rparr>"

definition demo_sent :: "'r \<Rightarrow> 'r net kq" where
  "demo_sent x = snd (sendTurn demo_link ''r1'' (snd (transmitRemoteCommand ''r1'' demo_command (demo_written x))))"

lemma demo_transmits:
  "outboundChain (handle ''r1'' (snd (transmitRemoteCommand ''r1'' demo_command (demo_written x)))) = [handed 0 1 (Some ''m'')]"
  "inFlight (handle ''r1'' (snd (transmitRemoteCommand ''r1'' demo_command (demo_written x)))) = None"
  "heldForRestart (handle ''r1'' (snd (transmitRemoteCommand ''r1'' demo_command (demo_written x)))) = False"
  "hasTransport (handle ''r1'' (snd (transmitRemoteCommand ''r1'' demo_command (demo_written x)))) = True"
  "outboundQueueId (handle ''r1'' (snd (transmitRemoteCommand ''r1'' demo_command (demo_written x)))) = 0"
  "onTheWire (handle ''r1'' (snd (transmitRemoteCommand ''r1'' demo_command (demo_written x)))) = []"
  by (simp_all add: transmitRemoteCommand_def flushTransmitQueue_def demo_written_def newHandle_def demo_command_def
      flush_loop.simps row_numbered handed_def Let_def)

lemma demo_sent_wire: "onTheWire (handle ''r1'' (demo_sent x)) = [handed 0 1 (Some ''m'')]"
  by (simp add: demo_sent_def sendTurn_def demo_transmits handed_def)

text \<open>The same whatever the give-up callback, which this run does not call.\<close>

lemma demo_run: "conn_run (demo_link\<lparr>onGiveUp := g\<rparr>) ''r1'' (demo_conn x, kst (demo_conn x)) (demo_sent x, kst (demo_written x))"
proof -
  let ?H = "demo_link\<lparr>onGiveUp := g\<rparr>"
  have "deliverToPeer ?H ''r1'' BringOutYourDead False (demo_conn x) = deliverToPeer demo_link ''r1'' BringOutYourDead False (demo_conn x)"
    by (simp add: deliverToPeer_def bnd_run persistRemoteCommand_run Let_def)
  note delivers = trans [OF this demo_delivers]
  have s1: "conn_step ?H ''r1'' (demo_conn x, sv) (demo_written x, sv)" for sv
    unfolding demo_written_def using delivers by (rule conn_step.delivers)
  have s2: "conn_step ?H ''r1'' (demo_written x, sv) (demo_written x, kst (demo_written x))" for sv by (rule conn_step.crank_commits)
  have s3: "conn_step ?H ''r1'' (demo_written x, sv) (snd (transmitRemoteCommand ''r1'' demo_command (demo_written x)), sv)" for sv
    using prod.collapse [symmetric] by (rule conn_step.transmits)
  have "sendTurn ?H ''r1'' (snd (transmitRemoteCommand ''r1'' demo_command (demo_written x))) = (Inr (), demo_sent x)"
    by (simp add: demo_sent_def sendTurn_def demo_transmits handed_def)
  then have s4: "conn_step ?H ''r1'' (snd (transmitRemoteCommand ''r1'' demo_command (demo_written x)), sv) (demo_sent x, sv)" for sv
    by (rule conn_step.next_send)
  show ?thesis using conn_run.step [OF conn_run.step [OF conn_run.step [OF conn_run.step [OF conn_run.start s1] s2] s3] s4] .
qed

section \<open>Properties\<close>

text \<open>C14. Messages are handed over in the order of their numbers. A flush with a transport adds to the outbound chain, in ascending
  order, messages numbered above the last one handed over, each with the text the store has for it and each one sent before, inherited
  from before a restart, or brought by the commit of its crank. It passes over a number only if that is acknowledged or abandoned or the
  store has no message for it, and it stops at a number that is not retired and is either above all that was sent and not brought
  by a commit, or without a message in the store.\<close>

theorem flush_in_order:
  fixes k k' :: "'r net kq"
  assumes "hasTransport (handle r k)" and "flushTransmitQueue r k = (res, k')"
  shows "\<exists>qs. sorted_wrt (<) qs \<and>
    outboundChain (handle r k') = outboundChain (handle r k) @
      map (\<lambda>q. \<lparr>sendQueue = outboundQueueId (handle r k), sendSeq = q, sendText = the (getPendingMessage r q (kst k)), sendOrigin = Flushed\<rparr>) qs \<and>
    (\<forall>q\<in>set qs. lastTransmittedSeq (handle r k) < q \<and> q \<le> lastTransmittedSeq (handle r k') \<and> getPendingMessage r q (kst k) \<noteq> None \<and>
      (q \<le> myNextSendSeq (handle r k) \<or> map_of (awaitingTransmit (handle r k)) q \<noteq> None)) \<and>
    (\<forall>q. lastTransmittedSeq (handle r k) < q \<and> q \<le> lastTransmittedSeq (handle r k') \<and> q \<notin> set qs \<longrightarrow>
      q < myStartSeq (handle r k') \<or> getPendingMessage r q (kst k) = None) \<and>
    (let n = Suc (lastTransmittedSeq (handle r k')) in
      myStartSeq (handle r k') \<le> n \<and> map_of (awaitingTransmit (handle r k')) n = None \<and>
      (n > myNextSendSeq (handle r k') \<or> getPendingMessage r n (kst k) = None))"
proof -
  have k': "k' = putHandle r (flush_loop r (kst k) (handle r k)) k" using assms by (simp add: flushTransmitQueue_def)
  obtain qs where qs: "hands_over r (kst k) (handle r k) qs (handle r k')" and st: "stops_at r (kst k) (handle r k') (Suc (lastTransmittedSeq (handle r k')))"
    using flush_loop_flushed [of r "kst k" "handle r k"] unfolding flushed_def k' by auto
  show ?thesis
    using hands_overD [OF qs] st by (intro exI [of _ qs]) (auto simp: stops_at_def handed_def Let_def)
qed

theorem flush_in_order_witness:
  "\<exists>k :: unit net kq. hasTransport (handle ''r1'' k) \<and> outboundChain (handle ''r1'' (snd (flushTransmitQueue ''r1'' k))) \<noteq> [] \<and>
    (\<exists>qs. sorted_wrt (<) qs \<and> map sendSeq (outboundChain (handle ''r1'' (snd (flushTransmitQueue ''r1'' k)))) = qs)"
proof -
  let ?k = "putHandle ''r1'' ((handle ''r1'' (demo_written ()))\<lparr>awaitingTransmit := [(1, demo_command)]\<rparr>) (demo_written ())"
  have k: "hasTransport (handle ''r1'' ?k)" "outboundChain (handle ''r1'' ?k) = []" by (simp_all add: demo_written_def newHandle_def)
  have e: "flushTransmitQueue ''r1'' ?k = transmitRemoteCommand ''r1'' demo_command (demo_written ())"
    by (simp add: transmitRemoteCommand_def demo_command_def demo_written_def newHandle_def)
  obtain qs where "sorted_wrt (<) qs" "map sendSeq (outboundChain (handle ''r1'' (snd (flushTransmitQueue ''r1'' ?k)))) = qs"
    using flush_in_order [OF k(1) prod.collapse [symmetric]] k(2) by (auto simp: comp_def)
  moreover have "outboundChain (handle ''r1'' (snd (flushTransmitQueue ''r1'' ?k))) \<noteq> []"
    unfolding e by (simp add: demo_transmits)
  ultimately show ?thesis using k(1) by blast
qed



text \<open>C13. Each message from the peer takes effect at most once. Feed a connection any messages, in any order and with any repetitions,
  each in a crank of its own that commits or rolls back. The numbers of those whose effects stay are strictly ascending and above
  the highest received before; that, in memory and in the store alike, ends as the last of them. A message that does not count
  leaves the store as it was, save for messages of the kernel's own that are written off as acknowledged.\<close>

theorem inbound_exactly_once:
  fixes k :: "'r net kq"
  assumes "quiet_redemption H r" and "stored_highest r (kst k) = myHighestReceivedSeq (handle r k)"
  shows "let ns = taken_seqs H r ms k; k' = foldl (\<lambda>k mc. take_in H r mc k) k ms in
    sorted_wrt (<) (int (myHighestReceivedSeq (handle r k)) # ns) \<and>
    int (myHighestReceivedSeq (handle r k')) = last (int (myHighestReceivedSeq (handle r k)) # ns) \<and>
    stored_highest r (kst k') = myHighestReceivedSeq (handle r k') \<and>
    (\<forall>mc. taken_seq H r mc k' = [] \<longrightarrow> kst (take_in H r mc k') = kst k' \<or> kst (take_in H r mc k') = kst (snd (persistAcknowledged r k')))"
  using assms(2)
proof (induction ms arbitrary: k)
  case Nil
  have "kst (take_in H r mc k) = kst k \<or> kst (take_in H r mc k) = kst (snd (persistAcknowledged r k))" if "taken_seq H r mc k = []" for mc
    using take_in_run [OF assms(1) Nil, of mc] that by (auto simp: persistAcknowledged_run)
  then show ?case using Nil by (simp add: Let_def)
next
  case (Cons mc ms)
  let ?k = "take_in H r mc k"
  have st: "stored_highest r (kst ?k) = myHighestReceivedSeq (handle r ?k)"
    using take_in_run [OF assms(1) Cons.prems, of mc] Cons.prems by auto
  show ?case
    using Cons.IH [OF st] take_in_run [OF assms(1) Cons.prems, of mc]
    by (auto simp: Let_def)
qed

theorem inbound_exactly_once_witness:
  "let ns = taken_seqs demo_link ''r1'' [(''a'', True), (''a'', True)] (demo_conn ()) in
   ns = [1] \<and> kst (take_in demo_link ''r1'' ('''', True) (demo_conn ())) = kst (demo_conn ())"
proof -
  have h: "stored_highest ''r1'' (kst (demo_conn ())) = myHighestReceivedSeq (handle ''r1'' (demo_conn ()))"
    by (simp add: stored_highest_eq newHandle_def)
  have one: "taken_seq demo_link ''r1'' (''a'', True) (demo_conn ()) = [1]"
    using demo_takes [of "''r1''" "''a''" "(demo_conn ())"] by (simp add: newHandle_def)
  have "taken_seqs demo_link ''r1'' [(''a'', True), (''a'', True)] (demo_conn ()) = 1 # taken_seq demo_link ''r1'' (''a'', True) (take_in demo_link ''r1'' (''a'', True) (demo_conn ()))"
    by (simp add: one)
  moreover have "taken_seq demo_link ''r1'' (''a'', True) (take_in demo_link ''r1'' (''a'', True) (demo_conn ())) = []"
    using demo_takes [of "''r1''" "''a''" "take_in demo_link ''r1'' (''a'', True) (demo_conn ())"]
      inbound_exactly_once [OF demo_link_quiet h, of "[(''a'', True)]"] by (simp add: Let_def one)
  moreover have "taken_seq demo_link ''r1'' ('''', True) (demo_conn ()) = []"
    using demo_takes [of "''r1''" "''''" "(demo_conn ())"] by simp
  then have "kst (take_in demo_link ''r1'' ('''', True) (demo_conn ())) = kst (demo_conn ())"
    using inbound_exactly_once [OF demo_link_quiet h, of "[]"]
    by (auto simp: Let_def persistAcknowledged_run acknowledged_def stored_eq hasPending_def)
  ultimately show ?thesis by (simp add: Let_def)
qed



end
