(* ===== verification/Abandonment.thy ===== *)
theory Abandonment
  imports Resolution
begin

text \<open>
  The promises of an endpoint that will never decide them: the loop with which the managers of vats
  (\<open>VatManager.ts\<close>, \<open>#retireVat\<close>) and of remotes (\<open>RemoteManager.ts\<close>, \<open>#handleRemoteGiveUp\<close>) reject them,
  \<open>for (const kpid of getPromisesByDecider(endpoint)) resolvePromises(endpoint, [[kpid, true, failure]])\<close>.
  The generator reads the c-list and each promise as the loop comes to it; no resolution changes
  a c-list. Neither manager passes \<open>immediate\<close>, which is then true: what the rejection sets off goes on the run queue at once, and a kernel
  caller is answered, in a crank or out of one.
\<close>

primrec rejectSlots :: "string \<Rightarrow> capdata \<Rightarrow> string list \<Rightarrow> ('h kq, unit) sm" where
  "rejectSlots ep failure [] = ret ()"
| "rejectSlots ep failure (slot # rest) =
     (if \<not> isPromiseERef slot then rejectSlots ep failure rest
      else bnd (onStore (getRequired [ep, ''c'', slot] (\<lambda>d. tget (clists d) (ep, slot)))) (\<lambda>kpid.
        bnd (onStore (getKernelPromise kpid)) (\<lambda>kp.
          thn (whenM (kp_state kp = Unresolved \<and> kp_decider kp = Some ep) (resolvePromises (Some ep) [(kpid, True, failure)] True))
            (rejectSlots ep failure rest))))"

definition rejectDecidedPromises :: "string \<Rightarrow> capdata \<Rightarrow> ('h kq, unit) sm" where
  "rejectDecidedPromises ep failure = bnd (gets (\<lambda>k. endpoint_slots ep (kst k))) (rejectSlots ep failure)"

section \<open>What is left to decide\<close>

text \<open>The unsettled promises the endpoint decides, among those these slots of its c-list name.\<close>

definition decides :: "string \<Rightarrow> string list \<Rightarrow> ctx \<Rightarrow> string \<Rightarrow> bool" where
  "decides ep erefs s p \<longleftrightarrow> unsettled p s \<and> decider_of p s = Some ep \<and>
     (\<exists>slot\<in>set erefs. isPromiseERef slot \<and> tget (clists (db s)) (ep, slot) = Some p)"

text \<open>A promise eref of the endpoint names a promise.\<close>

definition promise_slots_ok :: "string \<Rightarrow> string list \<Rightarrow> ctx \<Rightarrow> bool" where
  "promise_slots_ok ep erefs s \<longleftrightarrow> (\<forall>slot\<in>set erefs. isPromiseERef slot \<longrightarrow>
     (\<exists>p. tget (clists (db s)) (ep, slot) = Some p \<and> (unsettled p s \<or> (\<exists>st v. settled p st v s))))"

text \<open>What the settling of a promise puts on the run queue: a notification for each subscriber, then each message that waited.\<close>

definition waiting_send :: "string \<Rightarrow> queue_entry \<Rightarrow> run_item option" where
  "waiting_send p q = (case q of QMsg m \<Rightarrow> Some (Send p m) | QRun i \<Rightarrow> None)"

definition set_off :: "ctx \<Rightarrow> string \<Rightarrow> run_item list" where
  "set_off s p = map (\<lambda>e. Notify e p) (the (tget (psubscribers (db s)) p)) @ List.map_filter (waiting_send p) (queue_items p s)"

text \<open>The promises of \<open>P\<close> are rejected one after the other, what that sets off is on the run queue, and all else is as it was.\<close>

definition let_down :: "capdata \<Rightarrow> (string \<Rightarrow> bool) \<Rightarrow> ctx \<Rightarrow> ctx \<Rightarrow> bool" where
  "let_down failure P s s' \<longleftrightarrow> run_queue_ok s' \<and> crankBuffer s' = crankBuffer s \<and> clists (db s') = clists (db s) \<and>
     (\<forall>j. live j s \<longrightarrow> live j s') \<and>
     (\<forall>p. P p \<longrightarrow> settled p Rejected failure s') \<and>
     (\<forall>p. \<not> P p \<longrightarrow> p \<noteq> ''run'' \<longrightarrow> unsettled p s' = unsettled p s \<and> queue_items p s' = queue_items p s \<and> decider_of p s' = decider_of p s \<and>
       tget (psubscribers (db s')) p = tget (psubscribers (db s)) p \<and> (\<forall>st v. settled p st v s' = settled p st v s)) \<and>
     (\<exists>ps. distinct ps \<and> (\<forall>p. p \<in> set ps \<longleftrightarrow> P p) \<and> run_queue_items s' = run_queue_items s @ concat (map (set_off s) ps))"

text \<open>The kernel callers waiting for the promises of \<open>P\<close> are refused, and no others; the run loop is woken if there is work for it.\<close>

definition refused_callers :: "capdata \<Rightarrow> (string \<Rightarrow> bool) \<Rightarrow> 'h kq \<Rightarrow> 'h kq \<Rightarrow> bool" where
  "refused_callers failure P k k' \<longleftrightarrow>
     k' = k\<lparr>kst := kst k', subscriptions := subscriptions k', answers := answers k', asleep := asleep k'\<rparr> \<and>
     (asleep k' \<longleftrightarrow> asleep k \<and> run_queue_items (kst k') = run_queue_items (kst k)) \<and>
     (\<forall>p. map_of (subscriptions k') p = (if P p then None else map_of (subscriptions k) p)) \<and>
     (\<exists>new. answers k' = answers k @ new \<and>
       (\<forall>a. a \<in> set new \<longleftrightarrow> (\<exists>p c. P p \<and> map_of (subscriptions k) p = Some c \<and> a = (c, Refused (Some failure)))))"

lemma let_down_refl: "run_queue_ok s \<Longrightarrow> (\<And>p. \<not> P p) \<Longrightarrow> let_down failure P s s"
  by (simp add: let_down_def)

lemma refused_refl: "(\<And>p. \<not> P p) \<Longrightarrow> refused_callers failure P k k"
  by (simp add: refused_callers_def)

lemma waiting_sends: "List.map_filter (waiting_send p) (map QMsg ms) = map (Send p) ms"
  by (induction ms) (simp_all add: List.map_filter_simps waiting_send_def)

lemma set_off_msgs:
  "tget (psubscribers (db s)) p = Some subs \<Longrightarrow> queue_items p s = map QMsg ms \<Longrightarrow> set_off s p = map (\<lambda>e. Notify e p) subs @ map (Send p) ms"
  by (simp add: set_off_def waiting_sends)

lemma let_down_first:
  assumes o: "others_kept p s t" and st: "settled p Rejected failure t" and b: "crankBuffer t = crankBuffer s"
    and q: "run_queue_items t = run_queue_items s @ set_off s p" and c: "clists (db t) = clists (db s)"
    and l: "\<forall>j. live j s \<longrightarrow> live j t"
    and rest: "let_down failure P t u" and np: "\<not> P p" and run: "p \<noteq> ''run''" "\<not> P ''run''"
  shows "let_down failure (\<lambda>q. q = p \<or> P q) s u"
proof -
  obtain ps where ps: "distinct ps" "\<And>q. q \<in> set ps \<longleftrightarrow> P q" "run_queue_items u = run_queue_items t @ concat (map (set_off t) ps)"
    using rest by (auto simp: let_down_def)
  have "set_off t r = set_off s r" if "r \<in> set ps" for r
  proof -
    have "r \<noteq> p" "r \<noteq> ''run''" using that ps(2) np run(2) by metis+
    then show ?thesis using o by (simp add: others_kept_def set_off_def)
  qed
  then have eqs: "map (set_off t) ps = map (set_off s) ps" by simp
  have "distinct (p # ps) \<and> (\<forall>r. r \<in> set (p # ps) \<longleftrightarrow> r = p \<or> P r) \<and>
      run_queue_items u = run_queue_items s @ concat (map (set_off s) (p # ps))"
    using ps(1,2) np unfolding ps(3) eqs q by auto
  moreover have "settled q Rejected failure u" if "q = p \<or> P q" for q
    using that rest st np run by (auto simp: let_down_def)
  moreover have "unsettled r u = unsettled r s \<and> queue_items r u = queue_items r s \<and> decider_of r u = decider_of r s \<and>
      tget (psubscribers (db u)) r = tget (psubscribers (db s)) r \<and> (\<forall>st v. settled r st v u = settled r st v s)"
    if "\<not> (r = p \<or> P r)" "r \<noteq> ''run''" for r
  proof -
    have "unsettled r t = unsettled r s \<and> queue_items r t = queue_items r s \<and> decider_of r t = decider_of r s \<and>
        tget (psubscribers (db t)) r = tget (psubscribers (db s)) r \<and> (\<forall>st v. settled r st v t = settled r st v s)"
      using o that unfolding others_kept_def by blast
    moreover have "unsettled r u = unsettled r t \<and> queue_items r u = queue_items r t \<and> decider_of r u = decider_of r t \<and>
        tget (psubscribers (db u)) r = tget (psubscribers (db t)) r \<and> (\<forall>st v. settled r st v u = settled r st v t)"
      using rest that unfolding let_down_def by blast
    ultimately show ?thesis by simp
  qed
  moreover have "run_queue_ok u" "crankBuffer u = crankBuffer s" "clists (db u) = clists (db s)" "live j s \<Longrightarrow> live j u" for j
    using rest b c l unfolding let_down_def by auto
  ultimately show ?thesis unfolding let_down_def by blast
qed

lemma refused_first:
  assumes k1: "k1 = answered p True failure (k\<lparr>kst := t, asleep := asleep k \<and> set_off (kst k) p = []\<rparr>)"
    and q: "run_queue_items t = run_queue_items (kst k) @ set_off (kst k) p"
    and rest: "refused_callers failure P k1 k2" and more: "run_queue_items (kst k2) = run_queue_items t @ new" and np: "\<not> P p"
  shows "refused_callers failure (\<lambda>q. q = p \<or> P q) k k2"
proof -
  have part: "kst k1 = t" "asleep k1 \<longleftrightarrow> asleep k \<and> set_off (kst k) p = []" "subscriptions k1 = subscriptions k \<or> subscriptions k1 = obj_del p (subscriptions k)"
    by (simp_all add: k1 answered_def split: option.split)
  have subs: "map_of (subscriptions k1) r = (if r = p then None else map_of (subscriptions k) r)" for r
    by (simp add: k1 answered_def split: option.split)
  have ans: "answers k1 = answers k @ (case map_of (subscriptions k) p of None \<Rightarrow> [] | Some c \<Rightarrow> [(c, Refused (Some failure))])"
    by (simp add: k1 answered_def split: option.split)
  obtain as where as: "answers k2 = answers k1 @ as"
    "\<And>a. a \<in> set as \<longleftrightarrow> (\<exists>r c. P r \<and> map_of (subscriptions k1) r = Some c \<and> a = (c, Refused (Some failure)))"
    using rest unfolding refused_callers_def by blast
  have whole: "k1 = k\<lparr>kst := kst k1, subscriptions := subscriptions k1, answers := answers k1, asleep := asleep k1\<rparr>"
    by (cases k) (simp add: k1 answered_def split: option.split)
  have "k2 = k1\<lparr>kst := kst k2, subscriptions := subscriptions k2, answers := answers k2, asleep := asleep k2\<rparr>"
    using rest unfolding refused_callers_def by blast
  then have "k2 = k\<lparr>kst := kst k2, subscriptions := subscriptions k2, answers := answers k2, asleep := asleep k2\<rparr>"
    using whole by (cases k, cases k1, cases k2) simp
  moreover have "asleep k2 \<longleftrightarrow> asleep k \<and> run_queue_items (kst k2) = run_queue_items (kst k)"
  proof -
    have "asleep k2 \<longleftrightarrow> asleep k1 \<and> new = []" using rest more part(1) unfolding refused_callers_def by simp
    then show ?thesis using part(2) q more by auto
  qed
  moreover have "\<forall>r. map_of (subscriptions k2) r = (if r = p \<or> P r then None else map_of (subscriptions k) r)"
    using rest subs unfolding refused_callers_def by simp
  moreover have "answers k2 = answers k @ ((case map_of (subscriptions k) p of None \<Rightarrow> [] | Some c \<Rightarrow> [(c, Refused (Some failure))]) @ as)"
    using as(1) ans by simp
  moreover have "a \<in> set ((case map_of (subscriptions k) p of None \<Rightarrow> [] | Some c \<Rightarrow> [(c, Refused (Some failure))]) @ as) \<longleftrightarrow>
      (\<exists>r c. (r = p \<or> P r) \<and> map_of (subscriptions k) r = Some c \<and> a = (c, Refused (Some failure)))" for a
  proof -
    have "a \<in> set as \<longleftrightarrow> (\<exists>r c. P r \<and> map_of (subscriptions k) r = Some c \<and> a = (c, Refused (Some failure)))"
      unfolding as(2) using subs np by metis
    then show ?thesis by (cases "map_of (subscriptions k) p") auto
  qed
  ultimately show ?thesis unfolding refused_callers_def by blast
qed

lemma decides_cong:
  assumes "\<And>q. q \<noteq> p \<Longrightarrow> q \<noteq> ''run'' \<Longrightarrow> unsettled q t = unsettled q s \<and> decider_of q t = decider_of q s" and "clists (db t) = clists (db s)"
  shows "q \<noteq> p \<Longrightarrow> decides ep erefs t q = decides ep erefs s q"
  using assms isKRef_not_run by (cases "q = ''run''") (auto simp: decides_def unsettled_def)

lemma rejectSlots_run:
  assumes "promise_slots_ok ep erefs (kst k)" and "run_queue_ok (kst k)" and "acct M (kst k)" and v: "slots failure = []"
  shows "\<exists>k'. rejectSlots ep failure erefs k = (Inr (), k') \<and> acct M (kst k') \<and>
    let_down failure (decides ep erefs (kst k)) (kst k) (kst k') \<and> refused_callers failure (decides ep erefs (kst k)) k k'"
  using assms(1-3)
proof (induction erefs arbitrary: k)
  case Nil
  have "\<not> decides ep [] (kst k) p" for p by (simp add: decides_def)
  then have "let_down failure (decides ep [] (kst k)) (kst k) (kst k)" "refused_callers failure (decides ep [] (kst k)) k k"
    using let_down_refl Nil.prems(2) refused_refl by blast+
  then show ?case using Nil.prems(3) by simp
next
  case (Cons slot erefs)
  let ?s = "kst k"
  have tail: "promise_slots_ok ep erefs ?s" using Cons.prems(1) by (simp add: promise_slots_ok_def)
  show ?case
  proof (cases "isPromiseERef slot")
    case False
    moreover from False have "decides ep (slot # erefs) ?s = decides ep erefs ?s" by (auto simp: decides_def fun_eq_iff)
    ultimately show ?thesis using Cons.IH [OF tail Cons.prems(2,3)] by simp
  next
    case True
    then obtain p where p: "tget (clists (db ?s)) (ep, slot) = Some p" and w: "unsettled p ?s \<or> (\<exists>st v. settled p st v ?s)"
      using Cons.prems(1) by (auto simp: promise_slots_ok_def)
    have kref: "onStore (getRequired [ep, ''c'', slot] (\<lambda>d. tget (clists d) (ep, slot))) k = (Inr p, k)"
      using p by (simp add: getRequired_def onStore_def bnd_run)
    have here: "decides ep (slot # erefs) ?s q \<longleftrightarrow> q = p \<and> unsettled p ?s \<and> decider_of p ?s = Some ep \<or> decides ep erefs ?s q" for q
      using True p by (auto simp: decides_def)
    show ?thesis
    proof (cases "unsettled p ?s \<and> decider_of p ?s = Some ep")
      case False
      obtain kp where kp: "onStore (getKernelPromise p) k = (Inr kp, k)" and no: "\<not> (kp_state kp = Unresolved \<and> kp_decider kp = Some ep)"
      proof (cases "unsettled p ?s")
        case True
        then obtain subs where "tget (psubscribers (db ?s)) p = Some subs" by (auto simp: unsettled_def has_def)
        from unsettled_kernel_promise [OF True this] show thesis using False True
          that [of "\<lparr>kp_state = Unresolved, kp_decider = decider_of p ?s, kp_subscribers = Some subs, kp_value = None\<rparr>"]
          by (simp add: onStore_def)
      next
        case u: False
        then obtain st v where st: "settled p st v ?s" using w by blast
        from getKernelPromise_settled [OF st] show thesis using st
          that [of "\<lparr>kp_state = st, kp_decider = None, kp_subscribers = None, kp_value = Some v\<rparr>"]
          by (simp add: onStore_def)
      qed
      have same: "decides ep (slot # erefs) ?s = decides ep erefs ?s" using here False by (auto simp: fun_eq_iff)
      have "rejectSlots ep failure (slot # erefs) k = rejectSlots ep failure erefs k"
        using True kref kp no by (auto simp: thn_run)
      then show ?thesis using Cons.IH [OF tail Cons.prems(2,3)] same by simp
    next
      case d: True
      then obtain subs where subs: "tget (psubscribers (db ?s)) p = Some subs" by (auto simp: unsettled_def has_def)
      obtain ms where ms: "queue_items p ?s = map QMsg ms" using d by (auto simp: unsettled_def)
      have so: "set_off ?s p = map (\<lambda>e. Notify e p) subs @ map (Send p) ms" by (rule set_off_msgs [OF subs ms])
      obtain t where t: "resolvePromise (Some ep) True (p, True, failure) k =
          (Inr (), answered p True failure (k\<lparr>kst := t, asleep := asleep k \<and> set_off ?s p = []\<rparr>))"
        "acct M t" "run_queue_ok t" "settled p Rejected failure t" "run_queue_items t = run_queue_items ?s @ set_off ?s p"
        "crankBuffer t = crankBuffer ?s" "clists (db t) = clists (db ?s)"
        "others_kept p ?s t" "\<forall>j. live j ?s \<longrightarrow> live j t"
        using resolvePromise_run_any [OF conjunct1 [OF d] conjunct2 [OF d] subs ms Cons.prems(2,3), where b = True and rej = True and v = failure] v
        unfolding so by (auto simp: told_def)
      let ?k = "answered p True failure (k\<lparr>kst := t, asleep := asleep k \<and> set_off ?s p = []\<rparr>)"
      have kk: "kst ?k = t" by simp
      have kp: "onStore (getKernelPromise p) k = (Inr \<lparr>kp_state = Unresolved, kp_decider = Some ep, kp_subscribers = Some subs, kp_value = None\<rparr>, k)"
        using unsettled_kernel_promise [OF conjunct1 [OF d] subs] d by (simp add: onStore_def)
      have run: "rejectSlots ep failure (slot # erefs) k = rejectSlots ep failure erefs ?k"
        using True kref kp t(1) by (simp add: thn_run resolvePromises_def)
      have nr: "p \<noteq> ''run''" using d isKRef_not_run by (auto simp: unsettled_def)
      have ok: "promise_slots_ok ep erefs (kst ?k)" unfolding promise_slots_ok_def
      proof (intro ballI impI)
        fix sl assume "sl \<in> set erefs" "isPromiseERef sl"
        then obtain q where q: "tget (clists (db ?s)) (ep, sl) = Some q" "unsettled q ?s \<or> (\<exists>st v. settled q st v ?s)"
          using tail unfolding promise_slots_ok_def by blast
        have "q \<noteq> ''run''" using q(2) isKRef_not_run by (auto simp: unsettled_def settled_def)
        then have "unsettled q t \<or> (\<exists>st v. settled q st v t)"
          using q(2) t(4,8) by (cases "q = p") (auto simp: others_kept_def)
        then show "\<exists>q. tget (clists (db (kst ?k))) (ep, sl) = Some q \<and> (unsettled q (kst ?k) \<or> (\<exists>st v. settled q st v (kst ?k)))"
          using q(1) t(7) by auto
      qed
      obtain k2 where u: "rejectSlots ep failure erefs ?k = (Inr (), k2)" "acct M (kst k2)" "let_down failure (decides ep erefs t) t (kst k2)"
        "refused_callers failure (decides ep erefs t) ?k k2"
        using Cons.IH [OF ok] t(2,3) unfolding kk by blast
      have un: "\<not> unsettled p t" using t(4) by (auto simp: settled_def unsettled_def)
      then have np: "\<not> decides ep erefs t p" and nrun: "\<not> decides ep erefs t ''run''"
        using isKRef_not_run by (auto simp: decides_def unsettled_def)
      have eq: "(\<lambda>q. q = p \<or> decides ep erefs t q) = decides ep (slot # erefs) ?s"
        using here d decides_cong [of p t ?s] t(7,8) by (auto simp: fun_eq_iff others_kept_def)
      have "let_down failure (\<lambda>q. q = p \<or> decides ep erefs t q) ?s (kst k2)"
        by (rule let_down_first [OF t(8,4,6,5,7,9) u(3) np nr nrun])
      moreover obtain new where "run_queue_items (kst k2) = run_queue_items t @ new" using u(3) by (auto simp: let_down_def)
      then have "refused_callers failure (\<lambda>q. q = p \<or> decides ep erefs t q) k k2"
        using refused_first [OF refl t(5) u(4)] np by blast
      ultimately show ?thesis using run u(1,2) unfolding eq by (intro exI [of _ k2]) simp
    qed
  qed
qed

text \<open>Every promise the endpoint decides is rejected.\<close>

lemma rejectDecidedPromises_run:
  assumes "promise_slots_ok ep (endpoint_slots ep (kst k)) (kst k)" and "run_queue_ok (kst k)" and "acct M (kst k)" and "slots failure = []"
  shows "\<exists>k'. rejectDecidedPromises ep failure k = (Inr (), k') \<and> acct M (kst k') \<and>
    let_down failure (decides ep (endpoint_slots ep (kst k)) (kst k)) (kst k) (kst k') \<and>
    refused_callers failure (decides ep (endpoint_slots ep (kst k)) (kst k)) k k'"
  using rejectSlots_run [OF assms] by (simp add: rejectDecidedPromises_def)

end
