(* ===== verification/RemoteManager.thy ===== *)
theory RemoteManager
  imports Sessions Abandonment Arrivals
begin

text \<open>
  The manager of the remotes (\<open>remotes/kernel/RemoteManager.ts\<close>): which peers have a handle, what
  becomes of a peer given up on, and the incarnation of a peer, which tells a peer that restarted from one that reconnected.

  \<^item> \<open>remote_manager\<close> has a field per private field of the class that changes; a handle is named by the id of its remote.
    \<open>registeredHints\<close> is the trace of the hints passed to the transport.
  \<^item> The transport's own start and the reading of the identity (\<open>remote-comms.ts\<close>) are arguments. A peer's message that comes
    during a crank and before the peer has a handle is held (\<open>heldSetups\<close>), as \<open>writeOutsideCrank\<close> holds it,
    until \<open>writeHeldSetups\<close>; the other requests held with it are those of theory \<open>KernelQueue\<close>.
\<close>

section \<open>State\<close>

text \<open>What \<open>withRemote\<close> is asked to do with the handle.\<close>

datatype remote_use = TakeMessage string | Redeem string nat

record 'm remote_manager =
  remotes :: "string list"
  remotesByPeer :: "(string \<times> string) list"
  recordingRestart :: "string list"
  messageHandlerSet :: bool
  identityUp :: bool
  commsUp :: bool
  registeredHints :: "(string \<times> string list) list"
  heldSetups :: "(string \<times> string list \<times> remote_use) list"
  furtherState :: 'm

type_synonym 'm rkq = "'m remote_manager net kq"

text \<open>The constructor.\<close>

definition makeRemoteManager :: "'m \<Rightarrow> 'm remote_manager" where
  "makeRemoteManager x = \<lparr>remotes = [], remotesByPeer = [], recordingRestart = [], messageHandlerSet = False,
     identityUp = False, commsUp = False, registeredHints = [], heldSetups = [], furtherState = x\<rparr>"

definition mgr :: "'m rkq \<Rightarrow> 'm remote_manager" where
  "mgr k = aside (managers k)"

definition onMgr :: "('m remote_manager \<Rightarrow> 'm remote_manager) \<Rightarrow> ('m rkq, unit) sm" where
  "onMgr f = modify (\<lambda>k. k\<lparr>managers := (managers k)\<lparr>aside := f (aside (managers k))\<rparr>\<rparr>)"

definition setMessageHandler :: "('m rkq, unit) sm" where
  "setMessageHandler = onMgr (messageHandlerSet_update (\<lambda>_. True))"

definition isIdentityInitialized :: "'m rkq \<Rightarrow> bool" where
  "isIdentityInitialized k \<longleftrightarrow> identityUp (mgr k) \<or> commsUp (mgr k)"

definition getRemoteIdentity :: "('m rkq, unit) sm" where
  "getRemoteIdentity = bnd (gets isIdentityInitialized) (\<lambda>up. require up (Fail ''Remote identity not initialized'' []))"

definition isRemoteCommsInitialized :: "'m rkq \<Rightarrow> bool" where
  "isRemoteCommsInitialized k \<longleftrightarrow> commsUp (mgr k)"

definition getRemoteComms :: "('m rkq, unit) sm" where
  "getRemoteComms = bnd (gets isRemoteCommsInitialized) (\<lambda>up. require up (Fail ''Remote comms not initialized'' []))"

text \<open>\<open>initRemoteIdentity\<close> of \<open>remote-comms.ts\<close> is the argument.\<close>

definition initIdentity :: "('m rkq, unit) sm \<Rightarrow> ('m rkq, unit) sm" where
  "initIdentity init = thn init (onMgr (identityUp_update (\<lambda>_. True)))"

section \<open>Giving up on a peer\<close>

definition restartWaits :: "string \<Rightarrow> 'm rkq \<Rightarrow> bool" where
  "restartWaits peerId k =
     (let waiting = length (waitingIncarnations peerId k) in
      if getPeerIncarnation peerId (kst k) = None then waiting > 1 else waiting > 0)"

definition handleRemoteGiveUp :: "'m remote_manager net host \<Rightarrow> string \<Rightarrow> ('m rkq, unit) sm" where
  "handleRemoteGiveUp G peerId = bnd (gets (\<lambda>k. map_of (remotesByPeer (mgr k)) peerId)) (\<lambda>remote.
     case remote of None \<Rightarrow> ret ()
     | Some r \<Rightarrow> bnd (gets (restartWaits peerId)) (\<lambda>waits.
         if waits then ret ()
         else (let reason = ''Remote connection lost: '' @ peerId @ '' (max retries reached or non-retryable error)'' in
           thn (giveUp r reason) (rejectDecidedPromises r (makeKernelError G ''CONNECTION_LOST'' reason)))))"

section \<open>A peer's incarnation\<close>

definition knownIncarnations :: "string \<Rightarrow> 'h kq \<Rightarrow> string list" where
  "knownIncarnations peerId k =
     (case getPeerIncarnation peerId (kst k) of None \<Rightarrow> waitingIncarnations peerId k
      | Some stored \<Rightarrow> stored # waitingIncarnations peerId k)"

text \<open>\<open>this.#remotesByPeer.get(peerId)?.holdForRestart()\<close>\<close>

definition holdRemote :: "string \<Rightarrow> ('m rkq, unit) sm" where
  "holdRemote peerId = bnd (gets (\<lambda>k. map_of (remotesByPeer (mgr k)) peerId)) (\<lambda>remote.
     case remote of None \<Rightarrow> ret () | Some r \<Rightarrow> onHandle r holdForRestart)"

definition handleIncarnationChange :: "string \<Rightarrow> string \<Rightarrow> ('m rkq, bool) sm" where
  "handleIncarnationChange peerId observed = bnd (gets (knownIncarnations peerId)) (\<lambda>known.
     thn (whenM (observed \<notin> set known) (acceptPeerIncarnation peerId observed (length known > 0)))
       (bnd (gets (\<lambda>k. peerId \<in> set (recordingRestart (mgr k)) \<or> (\<exists>i\<in>set known. i \<noteq> observed))) (\<lambda>restarted.
         thn (whenM restarted (holdRemote peerId)) (ret restarted))))"

definition releaseRestartHolds :: "('m rkq, unit) sm" where
  "releaseRestartHolds = bnd (gets (\<lambda>k. remotesByPeer (mgr k))) (\<lambda>rs. forEach rs (\<lambda>p. onHandle (snd p) releaseRestartHold))"

definition no_result :: "'h crank_result" where
  "no_result = \<lparr>didDelivery = None, abort = False, terminate = None, irrevocable = False, afterCommit = None\<rparr>"

definition after_restart :: "string \<Rightarrow> string \<Rightarrow> ('m rkq, unit) sm" where
  "after_restart peerId r =
     thn (onMgr (recordingRestart_update (filter (\<lambda>p. p \<noteq> peerId))))
       (thn (onHandle r finalizePeerRestart)
         (bnd (gets (restartWaits peerId)) (\<lambda>waits. whenM waits (onHandle r holdForRestart))))"

text \<open>\<open>applyIncarnationChange\<close>\<close>

definition recordIncarnation :: "'m remote_manager net host \<Rightarrow> string \<Rightarrow> string \<Rightarrow> ('m rkq, 'm remote_manager net crank_result) sm" where
  "recordIncarnation G peerId incarnation = bnd (gets (\<lambda>k. getPeerIncarnation peerId (kst k))) (\<lambda>stored.
     thn (require (stored \<noteq> Some incarnation) (JsError ''incarnation is already recorded'' [peerId, incarnation]))
       (bnd (gets (\<lambda>k. if stored = None then None else map_of (remotesByPeer (mgr k)) peerId)) (\<lambda>remote.
         case remote of
           None \<Rightarrow> thn (onStore (setPeerIncarnation peerId incarnation)) (ret no_result)
         | Some r \<Rightarrow>
             bnd (onStore (getPromisesByDecider r)) (\<lambda>promisesToReject.
               thn (persistPeerRestart r)
                 (thn (onMgr (recordingRestart_update (set_add peerId)))
                   (thn (onStore (setPeerIncarnation peerId incarnation))
                     (thn (forEach promisesToReject (\<lambda>kpid. resolvePromises (Some r)
                         [(kpid, True, makeKernelError G ''PEER_RESTARTED'' ''Remote peer restarted (incarnation changed)'')] False))
                       (ret (no_result\<lparr>afterCommit := Some (after_restart peerId r)\<rparr>)))))))))"

section \<open>Handles\<close>

definition addRemote :: "string \<Rightarrow> string \<Rightarrow> 'm remote_manager \<Rightarrow> 'm remote_manager" where
  "addRemote r peerId m = m\<lparr>remotes := set_add r (remotes m), remotesByPeer := obj_put peerId r (remotesByPeer m)\<rparr>"

definition initializeRemote :: "string \<Rightarrow> string \<Rightarrow> string list \<Rightarrow> ('m rkq, unit) sm" where
  "initializeRemote r peerId hints = bnd (gets isRemoteCommsInitialized) (\<lambda>up.
     thn (makeRemoteHandle r peerId up hints)
       (thn (bnd (gets (restartWaits peerId)) (\<lambda>waits. whenM waits (onHandle r holdForRestart)))
         (onMgr (addRemote r peerId))))"

text \<open>\<open>getAllRemoteRecords\<close> is a generator: a record is read when its turn comes.\<close>

definition restoreRemotes :: "('m rkq, unit) sm" where
  "restoreRemotes = bnd (gets (\<lambda>k. getRemoteIDs (kst k))) (\<lambda>ids. forEach ids (\<lambda>r.
     bnd (onStore (getRemoteInfo r)) (\<lambda>(peerId, hints). initializeRemote r peerId hints)))"

definition initRemoteComms :: "('m rkq, unit) sm \<Rightarrow> ('m rkq, unit) sm" where
  "initRemoteComms start = bnd (gets (\<lambda>k. messageHandlerSet (mgr k))) (\<lambda>ready.
     thn (require ready (Fail ''Message handler must be set before initializing remote comms'' []))
       (thn start
         (bnd (gets (\<lambda>k. remotes (mgr k))) (\<lambda>rs.
           thn (forEach rs attachTransport)
             (onMgr (\<lambda>m. m\<lparr>commsUp := True, identityUp := True\<rparr>))))))"

text \<open>\<open>cleanup\<close>\<close>

definition cleanupRemotes :: "('m rkq, unit) sm" where
  "cleanupRemotes = bnd (gets (\<lambda>k. remotes (mgr k))) (\<lambda>rs.
     thn (forEach rs cleanupHandle)
       (onMgr (\<lambda>m. m\<lparr>identityUp := False, commsUp := False, remotes := [], remotesByPeer := []\<rparr>)))"

definition establishRemote :: "string \<Rightarrow> string list \<Rightarrow> ('m rkq, string) sm" where
  "establishRemote peerId hints =
     thn getRemoteComms (bnd (onStore getNextRemoteId) (\<lambda>r.
       thn (initializeRemote r peerId hints)
         (thn (tryCatch (thn (onStore (initEndpoint r)) (onStore (setRemoteInfo r peerId hints))) (\<lambda>e.
             thn (onMgr (\<lambda>m. m\<lparr>remotes := filter (\<lambda>x. x \<noteq> r) (remotes m), remotesByPeer := obj_del peerId (remotesByPeer m)\<rparr>))
               (fail e)))
           (ret r))))"

definition provideRemote :: "string \<Rightarrow> string list \<Rightarrow> ('m rkq, string) sm" where
  "provideRemote peerId hints = bnd (gets (\<lambda>k. map_of (remotesByPeer (mgr k)) peerId)) (\<lambda>existing.
     case existing of
       Some r \<Rightarrow> thn (if hints \<noteq> [] then thn getRemoteComms (onMgr (\<lambda>m. m\<lparr>registeredHints := registeredHints m @ [(peerId, hints)]\<rparr>)) else ret ())
           (ret r)
     | None \<Rightarrow> establishRemote peerId hints)"

fun use_remote :: "'m remote_manager remote_host \<Rightarrow> remote_use \<Rightarrow> string \<Rightarrow> ('m rkq, unit) sm" where
  "use_remote L (TakeMessage m) r = receiveFromPeer L r m"
| "use_remote L (Redeem url caller) r = redeemOcapURL L r url caller"

text \<open>\<open>withRemote\<close>: the setup of a new peer waits for the open crank to end.\<close>

definition withRemote :: "'m remote_manager remote_host \<Rightarrow> string \<Rightarrow> string list \<Rightarrow> remote_use \<Rightarrow> ('m rkq, unit) sm" where
  "withRemote L peerId hints what = thn getRemoteComms (bnd (gets (\<lambda>k. map_of (remotesByPeer (mgr k)) peerId)) (\<lambda>existing.
     if existing \<noteq> None then bnd (provideRemote peerId hints) (use_remote L what)
     else thn (assertRunLoopAlive ''set up a remote'') (bnd (gets (\<lambda>k. isInCrank (kst k))) (\<lambda>inCrank.
       if inCrank then onMgr (\<lambda>m. m\<lparr>heldSetups := heldSetups m @ [(peerId, hints, what)]\<rparr>)
       else bnd (provideRemote peerId hints) (use_remote L what)))))"

text \<open>The setups among the requests \<open>#writeHeldRequests\<close> carries out; each tells its own caller of a failure.\<close>

fun write_setups :: "'m remote_manager remote_host \<Rightarrow> (string \<times> string list \<times> remote_use) list \<Rightarrow> ('m rkq, unit) sm" where
  "write_setups L [] = ret ()"
| "write_setups L ((peerId, hints, what) # rest) =
     thn (tryCatch (bnd (provideRemote peerId hints) (use_remote L what)) (\<lambda>_. ret ()))
       (thn (onMgr (\<lambda>m. m\<lparr>heldSetups := tl (heldSetups m)\<rparr>)) (write_setups L rest))"

definition writeHeldSetups :: "'m remote_manager remote_host \<Rightarrow> ('m rkq, unit) sm" where
  "writeHeldSetups L = bnd (gets (\<lambda>k. heldSetups (mgr k))) (write_setups L)"

definition getRemote :: "string \<Rightarrow> ('m rkq, string) sm" where
  "getRemote r = bnd (gets (\<lambda>k. r \<in> set (remotes (mgr k)))) (\<lambda>known. thn (require known (JsError ''Remote not found'' [r])) (ret r))"

definition handleRemoteMessage :: "'m remote_manager remote_host \<Rightarrow> string \<Rightarrow> string \<Rightarrow> ('m rkq, unit) sm" where
  "handleRemoteMessage L sender m = withRemote L sender [] (TakeMessage m)"

definition reapRemotes :: "(string \<Rightarrow> bool) \<Rightarrow> ('m rkq, unit) sm" where
  "reapRemotes chosen = bnd (gets (\<lambda>k. filter chosen (remotes (mgr k)))) (\<lambda>rs. forEach rs (\<lambda>r. onStore (scheduleReap r)))"

definition registerLocationHints :: "string \<Rightarrow> string list \<Rightarrow> ('m rkq, unit) sm" where
  "registerLocationHints peerId hints = thn getRemoteComms (onMgr (\<lambda>m. m\<lparr>registeredHints := registeredHints m @ [(peerId, hints)]\<rparr>))"

text \<open>The host of every handle the manager makes: its \<open>onGiveUp\<close> is \<open>#handleRemoteGiveUp\<close>.\<close>

definition managed :: "'m remote_manager net host \<Rightarrow> 'm remote_manager remote_host \<Rightarrow> 'm remote_manager remote_host" where
  "managed G L = L\<lparr>onGiveUp := handleRemoteGiveUp G\<rparr>"


section \<open>The manager's callback keeps a connection's numbers\<close>

lemma handle_mgr [simp]: "handle r (k\<lparr>managers := (managers k)\<lparr>aside := a\<rparr>\<rparr>) = handle r k"
  by (simp add: handle_def)

lemma other_handle:
  assumes "r' \<noteq> r"
  shows "keeps (conn_ok r sv) (onHandle r' f)"
proof (rule keeps_by_result)
  fix k q k' assume ok: "conn_ok r sv k" and run: "onHandle r' f k = (q, k')"
  show "conn_ok r sv k'" by (rule conn_ok_cong [OF ok]) (use run assms in auto)
qed

lemma other_seqs:
  assumes "r' \<noteq> r"
  shows "keeps (conn_ok r sv) (onStore (setRemoteNextSendSeq r' v))" and "keeps (conn_ok r sv) (onStore (setRemoteStartSeq r' v))"
proof -
  have w: "keeps (conn_ok r sv) (onStore (kvWrite (remoteSeqs_update (tput (r', nm) v))))" for nm
  proof (rule keeps_by_result)
    fix k q k' assume ok: "conn_ok r sv k" and run: "onStore (kvWrite (remoteSeqs_update (tput (r', nm) v))) k = (q, k')"
    then have k': "k' = k\<lparr>kst := db_update (remoteSeqs_update (tput (r', nm) v)) (kst k)\<rparr>" by simp
    show "conn_ok r sv k'" unfolding k'
      by (rule conn_ok_cong [OF ok]) (use assms in \<open>simp_all add: getPendingMessage_def seq_at_def\<close>)
  qed
  show "keeps (conn_ok r sv) (onStore (setRemoteNextSendSeq r' v))" "keeps (conn_ok r sv) (onStore (setRemoteStartSeq r' v))"
    unfolding setRemoteNextSendSeq_def setRemoteStartSeq_def by (rule w)+
qed

lemma conns_giveUp_any: "keeps (conn_ok r sv) (giveUp r' why)"
proof (cases "r' = r")
  case True
  then show ?thesis by (simp add: conns_giveUp)
next
  case False
  show ?thesis unfolding giveUp_def rejectAllPending_def
    by (intro conns other_handle other_seqs False)
qed

lemma conn_part_rejectSlots [frames]: "spares (conn_part r) (rejectSlots ep failure erefs)"
  by (induction erefs) (unfold rejectSlots.simps, (intro frames; (assumption | auto)?)+)

lemma conns_handleRemoteGiveUp: "keeps (conn_ok r sv) (handleRemoteGiveUp G peerId)"
proof -
  have "keeps (conn_ok r sv) (rejectDecidedPromises r' failure)" for r' failure
    by (rule conns_spared) (unfold rejectDecidedPromises_def, intro frames)
  then show ?thesis unfolding handleRemoteGiveUp_def by (intro conns conns_giveUp_any)
qed

lemma managed_calm: "calm_callback (managed G L) r"
  by (simp add: calm_callback_def managed_def conns_handleRemoteGiveUp)


section \<open>A peer's incarnation is recorded once\<close>

text \<open>The changes of a peer that wait, with whether each is a restart.\<close>

fun changes :: "string \<Rightarrow> arrival list \<Rightarrow> (string \<times> bool) list" where
  "changes p [] = []"
| "changes p (PeerIncarnation q i b n # xs) = (if q = p then (i, b) # changes p xs else changes p xs)"
| "changes p (RemoteInbound r q seq m # xs) = changes p xs"

lemma changes_append [simp]: "changes p (xs @ ys) = changes p xs @ changes p ys"
  by (induction p xs rule: changes.induct) simp_all

lemma waiting_changes: "waitingIncarnations p k = map fst (changes p (arrivedFromRemotes k))"
proof -
  have "List.map_filter (\<lambda>a. case a of PeerIncarnation q i _ _ \<Rightarrow> if q = p then Some i else None | _ \<Rightarrow> None) xs = map fst (changes p xs)" for xs
    by (induction p xs rule: changes.induct) (simp_all add: List.map_filter_simps)
  then show ?thesis by (simp add: waitingIncarnations_def)
qed

lemma restart_changes: "waitingRestart p k = None \<longleftrightarrow> True \<notin> snd ` set (changes p (arrivedFromRemotes k))"
proof -
  have "find (is_restart p) xs = None \<longleftrightarrow> True \<notin> snd ` set (changes p xs)" for xs
    by (induction p xs rule: changes.induct) (auto simp: is_restart_def)
  then show ?thesis by (simp add: waitingRestart_def)
qed

lemma changes_ahead: "changes p (put_ahead q (RemoteInbound r q' seq m) xs) = changes p xs"
proof (induction xs)
  case (Cons a xs)
  then show ?case by (cases a) auto
qed simp

text \<open>The first waiting restart is renamed.\<close>

fun renamed :: "string \<Rightarrow> (string \<times> bool) list \<Rightarrow> (string \<times> bool) list" where
  "renamed inc [] = []"
| "renamed inc (c # cs) = (if snd c then (inc, True) # cs else c # renamed inc cs)"

lemma changes_replace: "changes p (replace_incarnation q inc xs) = (if p = q then renamed inc (changes p xs) else changes p xs)"
  by (induction q inc xs rule: replace_incarnation.induct) auto

text \<open>What may wait for a peer: nothing it is known by already, a first incarnation ahead of a restart.\<close>

definition peer_ok :: "string option \<Rightarrow> (string \<times> bool) list \<Rightarrow> bool" where
  "peer_ok stored cs \<longleftrightarrow> distinct (case stored of None \<Rightarrow> map fst cs | Some s \<Rightarrow> s # map fst cs) \<and>
     map snd cs \<in> (if stored = None then {[], [False], [False, True]} else {[], [True]})"

lemma known_changes: "knownIncarnations p k = (case getPeerIncarnation p (kst k) of
    None \<Rightarrow> map fst (changes p (arrivedFromRemotes k)) | Some s \<Rightarrow> s # map fst (changes p (arrivedFromRemotes k)))"
  by (simp add: knownIncarnations_def waiting_changes split: option.split)

lemma peer_ok_cases:
  assumes "peer_ok stored cs"
  obtains "stored = None" "cs = []" | i where "stored = None" "cs = [(i, False)]" | i j where "stored = None" "cs = [(i, False), (j, True)]" "i \<noteq> j"
    | s where "stored = Some s" "cs = []" | s i where "stored = Some s" "cs = [(i, True)]" "i \<noteq> s"
  using assms by (cases stored) (auto simp: peer_ok_def)

lemma peer_ok_accept:
  assumes "peer_ok stored cs" and "inc \<notin> set (case stored of None \<Rightarrow> map fst cs | Some s \<Rightarrow> s # map fst cs)"
  shows "peer_ok stored (let b = (case stored of None \<Rightarrow> cs \<noteq> [] | Some s \<Rightarrow> True) in
    if \<not> b \<or> True \<notin> snd ` set cs then cs @ [(inc, b)] else renamed inc cs)"
  using assms(1) by (rule peer_ok_cases) (use assms(2) in \<open>auto simp: peer_ok_def Let_def\<close>)

lemma peer_ok_record:
  assumes "peer_ok stored ((inc, b) # cs)"
  shows "stored \<noteq> Some inc" and "b \<longleftrightarrow> stored \<noteq> None" and "peer_ok (Some inc) cs" and "stored \<noteq> None \<Longrightarrow> peer_ok stored cs"
  using assms by (cases rule: peer_ok_cases; auto simp: peer_ok_def)+

definition incarnations_ok :: "'h kq \<Rightarrow> bool" where
  "incarnations_ok k \<longleftrightarrow> (\<forall>p. peer_ok (getPeerIncarnation p (kst k)) (changes p (arrivedFromRemotes k)))"


section \<open>What leaves the incarnations alone\<close>

abbreviation peer_part :: "'h kq \<Rightarrow> (string, string) tbl \<times> arrival list" where
  "peer_part k \<equiv> (peerIncarnations (db (kst k)), arrivedFromRemotes k)"

lemma peers_onStore [frames]:
  assumes "frame m"
  shows "spares (peer_part :: 'h kq \<Rightarrow> _) (onStore m)"
proof (rule sparesI)
  fix k k' :: "'h kq" and q assume run: "onStore m k = (q, k')"
  obtain x s where x: "m (kst k) = (x, s)" by fastforce
  then have "k' = k\<lparr>kst := s\<rparr>" using run by (auto simp: onStore_def)
  then show "peer_part k' = peer_part k" using sparesD [OF assms x] by simp
qed

lemma frame_keep_decided [frames]: "frame (keep_decided ep erefs)"
  by (induction erefs) (unfold keep_decided.simps, (intro frames; (assumption | auto)?)+)

lemma frame_getPromisesByDecider [frames]: "frame (getPromisesByDecider ep)"
  unfolding getPromisesByDecider_def by (intro frames)

lemma frame_forget_import [frames]: "frame (forget_import ep eref)"
  unfolding forget_import_def by (intro frames; auto intro!: frames simp: Let_def)

lemma frame_forgetEndpointImports [frames]: "frame (forgetEndpointImports ep)"
  unfolding forgetEndpointImports_def by (intro frames)

lemma peers_queueRun [frames]: "spares peer_part (queueRun item)"
  unfolding queueRun_def wakeRunLoop_def by (intro frames; auto)

lemma peers_enqueueSend [frames]: "spares peer_part (enqueueSend t m i)"
  unfolding enqueueSend_def by (intro frames; auto)

lemma peers_enqueueNotify [frames]: "spares peer_part (enqueueNotify e p i)"
  unfolding enqueueNotify_def by (intro frames; auto)

lemma peers_invoke [frames]: "spares peer_part (invokeKernelSubscription p)"
  unfolding invokeKernelSubscription_def settleKernelSubscription_def tell_def by (intro frames; auto)

lemma peers_resolvePromises [frames]: "spares peer_part (resolvePromises e rs i)"
  unfolding resolvePromises_def resolvePromise_def by (intro frames; auto)

lemma peers_onHandle [frames]: "spares peer_part (onHandle r f)"
  by (simp add: spares_def putHandle_def)

lemma peers_onMgr [frames]: "spares peer_part (onMgr f)"
  by (simp add: spares_def onMgr_def)

lemma peers_clear [frames]: "spares peer_part (onStore (clearRemoteSeqState r))"
proof -
  have "spares (\<lambda>s. peerIncarnations (db s)) (clearRemoteSeqState r)"
    unfolding clearRemoteSeqState_def by (intro frames; auto)
  then show ?thesis by (simp add: spares_def onStore_def split_beta)
qed

lemma peers_persistPeerRestart [frames]: "spares peer_part (persistPeerRestart r)"
  unfolding persistPeerRestart_def by (intro frames)

lemma peers_holdRemote [frames]: "spares peer_part (holdRemote p)"
  unfolding holdRemote_def by (intro frames)

lemma peers_after_restart [frames]: "spares peer_part (after_restart p r)"
  unfolding after_restart_def by (intro frames)


section \<open>Handshakes and cranks\<close>

lemma recordIncarnation_run:
  fixes k k' :: "'m rkq"
  assumes "getPeerIncarnation p (kst k) \<noteq> Some inc" and "recordIncarnation G p inc k = (q, k')"
  shows "arrivedFromRemotes k' = arrivedFromRemotes k \<and>
    (peerIncarnations (db (kst k')) = tput p inc (peerIncarnations (db (kst k))) \<or>
     getPeerIncarnation p (kst k) \<noteq> None \<and> peerIncarnations (db (kst k')) = peerIncarnations (db (kst k)))"
proof (cases "if getPeerIncarnation p (kst k) = None then None else map_of (remotesByPeer (mgr k)) p")
  case None
  then show ?thesis using assms
    by (auto simp: recordIncarnation_def thn_run bnd_run setPeerIncarnation_def)
next
  case (Some r)
  then have st: "getPeerIncarnation p (kst k) \<noteq> None" by (auto split: if_splits)
  define before :: "('m rkq, unit) sm" where "before = thn (persistPeerRestart r) (onMgr (recordingRestart_update (set_add p)))"
  define after :: "string list \<Rightarrow> ('m rkq, 'm remote_manager net crank_result) sm" where "after ps = thn (forEach ps (\<lambda>kpid. resolvePromises (Some r)
      [(kpid, True, makeKernelError G ''PEER_RESTARTED'' ''Remote peer restarted (incarnation changed)'')] False))
      (ret (no_result\<lparr>afterCommit := Some (after_restart p r)\<rparr>))" for ps
  have b: "spares peer_part before" unfolding before_def by (intro frames)
  have a: "spares peer_part (after ps)" for ps unfolding after_def by (intro frames)
  have run: "recordIncarnation G p inc k = bnd (onStore (getPromisesByDecider r)) (\<lambda>ps.
      thn before (thn (onStore (setPeerIncarnation p inc)) (after ps))) k"
    using Some assms(1) by (simp add: recordIncarnation_def thn_run bnd_run before_def after_def split: prod.split sum.split)
  obtain x k1 where x: "onStore (getPromisesByDecider r) k = (x, k1)" by fastforce
  have p1: "peer_part k1 = peer_part k" by (rule sparesD [OF peers_onStore [OF frame_getPromisesByDecider] x])
  show ?thesis
  proof (cases x)
    case (Inl e)
    then show ?thesis using run assms(2) x p1 st by (simp add: bnd_run)
  next
    case (Inr ps)
    obtain y k2 where y: "before k1 = (y, k2)" by fastforce
    have p2: "peer_part k2 = peer_part k" using sparesD [OF b y] p1 by simp
    show ?thesis
    proof (cases y)
      case (Inl e)
      then show ?thesis using run assms(2) x \<open>x = Inr ps\<close> y p2 st by (simp add: bnd_run thn_run)
    next
      case (Inr u)
      let ?k3 = "k2\<lparr>kst := db_update (peerIncarnations_update (tput p inc)) (kst k2)\<rparr>"
      have "after ps ?k3 = (q, k')"
        using run assms(2) x \<open>x = Inr ps\<close> y Inr by (simp add: bnd_run thn_run setPeerIncarnation_def)
      then show ?thesis using sparesD [OF a] p2 by fastforce
    qed
  qed
qed

lemma handshake_run:
  assumes "handleIncarnationChange p inc k = (q, k')"
  shows "peerIncarnations (db (kst k')) = peerIncarnations (db (kst k)) \<and>
    (arrivedFromRemotes k' = arrivedFromRemotes k \<or>
     inc \<notin> set (knownIncarnations p k) \<and>
     (let b = knownIncarnations p k \<noteq> [] in arrivedFromRemotes k' =
       (if \<not> b \<or> waitingRestart p k = None then arrivedFromRemotes k @ [PeerIncarnation p inc b 0]
        else replace_incarnation p inc (arrivedFromRemotes k))))"
proof -
  let ?known = "knownIncarnations p k"
  have rest: "spares peer_part (bnd (gets (\<lambda>k. p \<in> set (recordingRestart (mgr k)) \<or> (\<exists>i\<in>set ?known. i \<noteq> inc)))
      (\<lambda>restarted. thn (whenM restarted (holdRemote p)) (ret restarted)))" by (intro frames)
  obtain x k1 where x: "whenM (inc \<notin> set ?known) (acceptPeerIncarnation p inc (length ?known > 0)) k = (x, k1)" by fastforce
  have first: "peerIncarnations (db (kst k1)) = peerIncarnations (db (kst k)) \<and> (arrivedFromRemotes k1 = arrivedFromRemotes k \<or>
     inc \<notin> set ?known \<and> (let b = ?known \<noteq> [] in arrivedFromRemotes k1 =
       (if \<not> b \<or> waitingRestart p k = None then arrivedFromRemotes k @ [PeerIncarnation p inc b 0]
        else replace_incarnation p inc (arrivedFromRemotes k))))"
    using x by (auto simp: whenM_def acceptPeerIncarnation_def assertRunLoopAlive_def thn_run bnd_run wakeRunLoop_def Let_def
        split: if_splits run_loop_state.splits)
  have "peer_part k' = peer_part k1"
  proof (cases x)
    case (Inl e)
    then show ?thesis using assms x by (simp add: handleIncarnationChange_def bnd_run thn_run)
  next
    case (Inr u)
    then show ?thesis using assms x sparesD [OF rest] by (simp add: handleIncarnationChange_def thn_run)
  qed
  then show ?thesis using first by auto
qed

text \<open>What a peer does and what the run loop makes of it. A crank that takes a change in runs \<open>after\<close> once it commits.\<close>

datatype peer_action = Handshake string string | Inbound string string int string int | TakeNext | Committed string string | DropArrivals

fun act :: "'m remote_manager net host \<Rightarrow> peer_action \<Rightarrow> 'm rkq \<Rightarrow> 'm rkq" where
  "act G (Handshake p inc) k = snd (handleIncarnationChange p inc k)"
| "act G (Inbound r p seq m high) k = snd (acceptRemoteInbound r p seq m high k)"
| "act G TakeNext k = (case takeArrival k of
     (Inr (Some (Arrival (PeerIncarnation p inc b n))), k1) \<Rightarrow> snd (recordIncarnation G p inc k1) | (_, k1) \<Rightarrow> k1)"
| "act G (Committed p r) k = snd (after_restart p r k)"
| "act G DropArrivals k = snd (discardArrivals k)"


lemma accept_inbound_arrivals:
  assumes "acceptRemoteInbound r q seq m high k = (x, k')"
  shows "kst k' = kst k \<and> changes p (arrivedFromRemotes k') = changes p (arrivedFromRemotes k)"
  using assms by (auto simp: acceptRemoteInbound_def assertRunLoopAlive_def thn_run bnd_run wakeRunLoop_def Let_def changes_ahead
      split: if_splits run_loop_state.splits option.splits)

lemma handshake_ok:
  assumes ok: "incarnations_ok k" and run: "handleIncarnationChange p inc k = (x, k')"
  shows "incarnations_ok k'"
proof -
  have row: "getPeerIncarnation q (kst k') = getPeerIncarnation q (kst k)" for q
    using handshake_run [OF run] by (simp add: getPeerIncarnation_def)
  consider "arrivedFromRemotes k' = arrivedFromRemotes k"
    | (new) "inc \<notin> set (knownIncarnations p k)" "arrivedFromRemotes k' =
       (if knownIncarnations p k = [] \<or> waitingRestart p k = None then arrivedFromRemotes k @ [PeerIncarnation p inc (knownIncarnations p k \<noteq> []) 0]
        else replace_incarnation p inc (arrivedFromRemotes k))"
    using handshake_run [OF run] by (auto simp: Let_def)
  then show ?thesis
  proof cases
    case 1
    then show ?thesis using ok row by (simp add: incarnations_ok_def)
  next
    case new
    let ?cs = "changes p (arrivedFromRemotes k)" and ?st = "getPeerIncarnation p (kst k)"
    have n: "inc \<notin> set (case ?st of None \<Rightarrow> map fst ?cs | Some s \<Rightarrow> s # map fst ?cs)" using new(1) by (simp add: known_changes)
    have b: "knownIncarnations p k \<noteq> [] \<longleftrightarrow> (case ?st of None \<Rightarrow> ?cs \<noteq> [] | Some s \<Rightarrow> True)" by (simp add: known_changes split: option.split)
    have "changes p (arrivedFromRemotes k') = (let b = (case ?st of None \<Rightarrow> ?cs \<noteq> [] | Some s \<Rightarrow> True) in
        if \<not> b \<or> True \<notin> snd ` set ?cs then ?cs @ [(inc, b)] else renamed inc ?cs)"
      using new(2) unfolding b [symmetric] Let_def by (auto simp: restart_changes changes_replace)
    then have "peer_ok ?st (changes p (arrivedFromRemotes k'))"
      using peer_ok_accept [OF _ n] ok by (simp add: incarnations_ok_def)
    moreover have "changes q (arrivedFromRemotes k') = changes q (arrivedFromRemotes k)" if "q \<noteq> p" for q
      using new(2) that by (simp add: changes_replace)
    ultimately show ?thesis using ok row unfolding incarnations_ok_def by metis
  qed
qed

lemma take_ok:
  assumes ok: "incarnations_ok k"
  shows "incarnations_ok (act G TakeNext k)"
proof (cases "arrivedFromRemotes k")
  case Nil
  then have "act G TakeNext k = k\<lparr>arrivedFromRemotes := [], tookArrivalLast := False\<rparr>" by (simp add: takeArrival_def)
  then show ?thesis using ok Nil by (simp add: incarnations_ok_def)
next
  case (Cons a rest)
  let ?k1 = "k\<lparr>arrivedFromRemotes := rest, tookArrivalLast := True\<rparr>"
  have t: "takeArrival k = (Inr (Some (Arrival a)), ?k1)" using Cons by (simp add: takeArrival_def)
  show ?thesis
  proof (cases a)
    case (RemoteInbound r q seq m)
    then have "act G TakeNext k = ?k1" using t by simp
    then show ?thesis using ok Cons RemoteInbound by (simp add: incarnations_ok_def)
  next
    case (PeerIncarnation p inc b n)
    obtain x k' where run: "recordIncarnation G p inc ?k1 = (x, k')" by fastforce
    then have k': "act G TakeNext k = k'" using t PeerIncarnation by simp
    let ?st = "getPeerIncarnation p (kst k)" and ?cs = "changes p rest"
    have "peer_ok ?st (changes p (arrivedFromRemotes k))" using ok by (simp add: incarnations_ok_def)
    then have head: "peer_ok ?st ((inc, b) # ?cs)" using Cons PeerIncarnation by simp
    note h = peer_ok_record [OF head]
    have eff: "arrivedFromRemotes k' = rest \<and> (peerIncarnations (db (kst k')) = tput p inc (peerIncarnations (db (kst k))) \<or>
        ?st \<noteq> None \<and> peerIncarnations (db (kst k')) = peerIncarnations (db (kst k)))"
      using recordIncarnation_run [OF _ run] h(1) by simp
    have "peer_ok (getPeerIncarnation p (kst k')) ?cs" using eff h(3,4) by (auto simp: getPeerIncarnation_def)
    moreover have "peer_ok (getPeerIncarnation q (kst k')) (changes q rest)" if "q \<noteq> p" for q
    proof -
      have "getPeerIncarnation q (kst k') = getPeerIncarnation q (kst k)" using eff that by (auto simp: getPeerIncarnation_def)
      moreover have "peer_ok (getPeerIncarnation q (kst k)) (changes q (arrivedFromRemotes k))" using ok by (simp add: incarnations_ok_def)
      ultimately show ?thesis using Cons PeerIncarnation that by simp
    qed
    ultimately show ?thesis unfolding k' incarnations_ok_def using eff by metis
  qed
qed

lemma act_ok: "incarnations_ok k \<Longrightarrow> incarnations_ok (act G a k)"
proof (cases a)
  case (Handshake p inc)
  assume "incarnations_ok k"
  then show ?thesis using handshake_ok [OF _ prod.collapse [symmetric]] Handshake by simp
next
  case (Inbound r p seq m high)
  assume "incarnations_ok k"
  then show ?thesis using accept_inbound_arrivals [OF prod.collapse [symmetric], of r p seq m high k] Inbound
    by (simp add: incarnations_ok_def)
next
  case (Committed p r)
  have "peer_part (act G a k) = peer_part k" using Committed sparesD [OF peers_after_restart prod.collapse [symmetric]] by simp
  moreover assume "incarnations_ok k"
  ultimately show ?thesis by (simp add: incarnations_ok_def getPeerIncarnation_def)
next
  case TakeNext
  assume "incarnations_ok k"
  then show ?thesis unfolding TakeNext by (rule take_ok)
next
  case DropArrivals
  then show ?thesis by (simp add: incarnations_ok_def discardArrivals_def peer_ok_def split: option.split)
qed

lemma acts_ok: "incarnations_ok k \<Longrightarrow> incarnations_ok (foldl (\<lambda>k a. act G a k) k as)"
  by (induction as arbitrary: k) (simp_all add: act_ok)

section \<open>Properties\<close>

text \<open>C7. The incarnation of a peer is recorded once. From a kernel nothing has arrived at, let peers shake hands, send and restart, and
  the run loop take what arrives, fail to, commit or drop it, in any order. What waits for a peer never names an incarnation twice nor
  one already recorded, is at most a first incarnation and one restart, and what is to be taken next is marked a restart just when
  the peer has an incarnation on record. So the crank of a change never finds it recorded already, which would kill the run loop.\<close>

theorem incarnation_recorded_once:
  fixes k :: "'m rkq"
  assumes "arrivedFromRemotes k = []"
  shows "let k' = foldl (\<lambda>k a. act G a k) k as in \<forall>p.
    distinct (knownIncarnations p k') \<and>
    length (waitingIncarnations p k') \<le> (if getPeerIncarnation p (kst k') = None then 2 else 1) \<and>
    (case arrivedFromRemotes k' of
       PeerIncarnation q inc b n # rest \<Rightarrow> getPeerIncarnation q (kst k') \<noteq> Some inc \<and> b = (getPeerIncarnation q (kst k') \<noteq> None)
     | _ \<Rightarrow> True)"
proof -
  have "incarnations_ok k" using assms by (simp add: incarnations_ok_def peer_ok_def split: option.split)
  then have ok: "incarnations_ok (foldl (\<lambda>k a. act G a k) k as)" by (rule acts_ok)
  have p: "distinct (knownIncarnations p k') \<and> length (waitingIncarnations p k') \<le> (if getPeerIncarnation p (kst k') = None then 2 else 1)"
    if "incarnations_ok k'" for k' :: "'m rkq" and p
  proof -
    have "peer_ok (getPeerIncarnation p (kst k')) (changes p (arrivedFromRemotes k'))" using that by (simp add: incarnations_ok_def)
    then show ?thesis by (cases rule: peer_ok_cases) (simp_all add: known_changes waiting_changes)
  qed
  have h: "getPeerIncarnation q (kst k') \<noteq> Some inc \<and> b = (getPeerIncarnation q (kst k') \<noteq> None)"
    if "incarnations_ok k'" "arrivedFromRemotes k' = PeerIncarnation q inc b n # rest" for k' :: "'m rkq" and q inc b n rest
  proof -
    have "peer_ok (getPeerIncarnation q (kst k')) (changes q (arrivedFromRemotes k'))" using that(1) by (simp add: incarnations_ok_def)
    then have "peer_ok (getPeerIncarnation q (kst k')) ((inc, b) # changes q rest)" using that(2) by simp
    from peer_ok_record(1,2) [OF this] show ?thesis by simp
  qed
  show ?thesis using p [OF ok] h [OF ok] by (auto simp: Let_def split: list.split arrival.split)
qed

definition demo_manager :: "unit rkq" where
  "demo_manager = demo_conn (makeRemoteManager ())"

definition demo_kernel :: "unit remote_manager net host" where
  "demo_kernel = \<lparr>database = demo_db True, kserError = (\<lambda>m. \<lparr>body = m, slots = []\<rparr>), terminateVat = (\<lambda>v info. ret ())\<rparr>"

lemma empty_rows: "peerIncarnations (db (makeKernelStore empty_kdb)) = tempty"
  unfolding makeKernelStore_fresh by (simp add: empty_kdb_def)

theorem incarnation_recorded_once_witness:
  "let k = foldl (\<lambda>k a. act demo_kernel a k) demo_manager [Handshake ''p'' ''i1'', Handshake ''p'' ''i2''] in
    arrivedFromRemotes k = [PeerIncarnation ''p'' ''i1'' False 0, PeerIncarnation ''p'' ''i2'' True 0] \<and> getPeerIncarnation ''p'' (kst k) = None"
proof -
  let ?k = "foldl (\<lambda>k a. act demo_kernel a k) demo_manager [Handshake ''p'' ''i1'', Handshake ''p'' ''i2'']"
  have a: "arrivedFromRemotes ?k = [PeerIncarnation ''p'' ''i1'' False 0, PeerIncarnation ''p'' ''i2'' True 0]"
    by (simp add: demo_manager_def demo_conn_def makeKernelQueue_def handleIncarnationChange_def knownIncarnations_def waitingIncarnations_def
        getPeerIncarnation_def empty_rows acceptPeerIncarnation_def assertRunLoopAlive_def waitingRestart_def is_restart_def wakeRunLoop_def
        thn_run bnd_run mgr_def makeRemoteManager_def holdRemote_def List.map_filter_simps)
  have "arrivedFromRemotes demo_manager = []" by (simp add: demo_manager_def demo_conn_def makeKernelQueue_def)
  from incarnation_recorded_once [OF this, of demo_kernel "[Handshake ''p'' ''i1'', Handshake ''p'' ''i2'']"]
  show ?thesis using a by (simp add: Let_def)
qed

text \<open>C12. A number goes out with one text. Take a connection that has sent nothing yet, over a store whose messages for the peer
  are numbered up to its counter, and let anything happen to it while the peer stays the same incarnation: deliveries, requests and
  messages from the peer in cranks that commit or roll back, acknowledgements, timers, retransmissions, failed sends, and give-ups, which
  go through the manager's own callback. Of all the messages ever handed to the transport, no two have the same number and different
  texts. The peer drops what comes under a number it has seen, so a number used twice would lose a message.\<close>

theorem number_has_one_text:
  fixes k k' :: "'m rkq"
  assumes "outboundChain (handle r k) = []" and "onTheWire (handle r k) = []"
    and "\<forall>q. getPendingMessage r q (kst k) \<noteq> None \<longrightarrow> q \<le> windowEnd (storedSeqWindow r (kst k))"
    and "quiet_redemption L r" and "conn_run (managed G L) r (k, kst k) (k', sv)"
    and "x \<in> set (onTheWire (handle r k'))" and "y \<in> set (onTheWire (handle r k'))" and "sendSeq x = sendSeq y"
  shows "sendText x = sendText y"
proof -
  have "quiet_redemption (managed G L) r" using assms(4) by (simp add: quiet_redemption_def managed_def)
  from numbers_one_text [OF assms(1-3) managed_calm this assms(5-8)] show ?thesis .
qed

theorem number_has_one_text_witness:
  "let w = onTheWire (handle ''r1'' (demo_sent (makeRemoteManager ()))) in map sendSeq w = [1] \<and> sendText (hd w) = sendText (last w)"
proof -
  let ?x = "makeRemoteManager ()" and ?w = "onTheWire (handle ''r1'' (demo_sent (makeRemoteManager ())))"
  let ?L = "managed demo_kernel demo_link"
  have run: "conn_run ?L ''r1'' (demo_conn ?x, kst (demo_conn ?x)) (demo_sent ?x, kst (demo_written ?x))"
    unfolding managed_def by (rule demo_run)
  have ne: "?w \<noteq> []" and len: "map sendSeq ?w = [1]" by (simp_all add: demo_sent_wire handed_def)
  have "sendText (hd ?w) = sendText (last ?w)"
    by (rule number_has_one_text [OF _ _ _ demo_link_quiet run hd_in_set [OF ne] last_in_set [OF ne]])
      (simp_all add: newHandle_def demo_sent_wire handed_def)
  then show ?thesis using len by (simp add: Let_def)
qed

end
