(* ===== verification/VatHandle.thy ===== *)
theory VatHandle
  imports KernelRouter RunLoop VatKV
begin

text \<open>
  A vat as the kernel has it: the handle on its worker (\<open>vats/VatHandle.ts\<close>), the syscalls the
  worker makes (\<open>vats/VatSyscall.ts\<close>) and the JSON-RPC client their channel runs on
  (\<open>kernel-rpc-methods/src/RpcClient.ts\<close>).

  \<^item> \<open>vat_handle\<close> has a field per field of \<open>VatHandle\<close>, \<open>VatSyscall\<close> and \<open>RpcClient\<close> that changes, and
    \<open>vatOf\<close> the handle of each vat. A promise the client made for a call is the call's id, and \<open>settledCalls\<close>
    is the trace of what the callers were told.
  \<^item> The worker is the field \<open>awaitResponse\<close> of \<open>vat_host\<close>: whatever happens from the sending of a command until
    its call is settled, the syscalls the worker makes in that time included. A stream ends as \<open>channelEvent\<close> says.
  \<^item> \<open>OtherResult\<close> and \<open>OtherNotification\<close> stand for JSON of another shape than the schemas ask for.
\<close>

section \<open>Messages\<close>

datatype vat_delivery =
    VatMessage string message
  | VatNotify "(string \<times> bool \<times> capdata) list"
  | VatGC GCRunQueueType "string list"
  | VatReap

text \<open>\<open>VatMethod\<close>, with its parameters.\<close>

datatype vat_command = InitVat string "(string \<times> string) list" | DeliverToVat vat_delivery | PingVat

text \<open>\<open>VatDeliveryResult\<close>: the keys set and deleted, and an error.\<close>

datatype vat_result = DeliveryResult "(string \<times> string) list" "string list" "string option" | PingResult string | OtherResult

datatype rpc_response = RpcSuccess vat_result | RpcFailure kerror | NotAResponse

datatype rpc_outcome = Resolved vat_result | RejectedWith kerror

datatype vat_to_kernel = VatResponse string rpc_response | SyscallNotification syscall | BadSyscall | OtherNotification string | VatRequest

datatype channel_event = FromVat vat_to_kernel | ChannelClosed | ChannelFailed kerror

section \<open>The RPC client\<close>

record rpc_client =
  rpcPrefix :: string
  unresolvedMessages :: "string list"
  messageCounter :: nat
  settledCalls :: "(string \<times> rpc_outcome) list"

definition makeRpcClient :: "string \<Rightarrow> rpc_client" where
  "makeRpcClient prefix = \<lparr>rpcPrefix = prefix, unresolvedMessages = [], messageCounter = 0, settledCalls = []\<rparr>"

definition nextMessageId :: "rpc_client \<Rightarrow> string" where
  "nextMessageId c = rpcPrefix c @ nat_text (Suc (messageCounter c))"

text \<open>\<open>#call\<close> up to the sending: the id is taken and the call is entered in the map.\<close>

definition startCall :: "rpc_client \<Rightarrow> rpc_client" where
  "startCall c = c\<lparr>messageCounter := Suc (messageCounter c), unresolvedMessages := unresolvedMessages c @ [nextMessageId c]\<rparr>"

fun response_outcome :: "rpc_response \<Rightarrow> rpc_outcome" where
  "response_outcome (RpcSuccess res) = Resolved res"
| "response_outcome (RpcFailure e) = RejectedWith e"
| "response_outcome NotAResponse = RejectedWith (JsError ''Invalid JSON-RPC response'' [])"

definition handleResponse :: "string \<Rightarrow> rpc_response \<Rightarrow> rpc_client \<Rightarrow> rpc_client" where
  "handleResponse messageId response c =
     (if messageId \<notin> set (unresolvedMessages c) then c
      else c\<lparr>unresolvedMessages := filter (\<lambda>i. i \<noteq> messageId) (unresolvedMessages c),
             settledCalls := settledCalls c @ [(messageId, response_outcome response)]\<rparr>)"

definition rejectAll :: "kerror \<Rightarrow> rpc_client \<Rightarrow> rpc_client" where
  "rejectAll e c = c\<lparr>unresolvedMessages := [],
     settledCalls := settledCalls c @ map (\<lambda>i. (i, RejectedWith e)) (unresolvedMessages c)\<rparr>"

text \<open>\<open>#assertResult\<close>\<close>

fun assertResult :: "vat_command \<Rightarrow> vat_result \<Rightarrow> kerror + vat_result" where
  "assertResult PingVat (PingResult s) = Inr (PingResult s)"
| "assertResult (InitVat c kv) (DeliveryResult p d e) = Inr (DeliveryResult p d e)"
| "assertResult (DeliverToVat d) (DeliveryResult p ds e) = Inr (DeliveryResult p ds e)"
| "assertResult _ _ = Inl (JsError ''Invalid result'' [])"

section \<open>The handle\<close>

record vat_handle =
  vatConfigOf :: string
  rpc :: rpc_client
  closing :: bool
  illegalSyscall :: "capdata option"
  deliveryError :: "string option"
  vatRequestedTermination :: "(bool \<times> capdata) option"

record 'w workers =
  vatOf :: "string \<Rightarrow> vat_handle"
  elsewhere :: 'w

record 'w vat_host =
  kernelHost :: "'w workers host"
  awaitResponse :: "string \<Rightarrow> string \<Rightarrow> vat_command \<Rightarrow> ('w workers kq, rpc_outcome) sm"
  onStreamFailure :: "string \<Rightarrow> kerror \<Rightarrow> ('w workers kq, unit) sm"
  messageOf :: "kerror \<Rightarrow> string"

definition vatHandle :: "string \<Rightarrow> 'w workers kq \<Rightarrow> vat_handle" where
  "vatHandle v k = vatOf (managers k) v"

definition onVat :: "string \<Rightarrow> (vat_handle \<Rightarrow> vat_handle) \<Rightarrow> ('w workers kq, unit) sm" where
  "onVat v f = modify (\<lambda>k. k\<lparr>managers := (managers k)\<lparr>vatOf := (vatOf (managers k))(v := f (vatOf (managers k) v))\<rparr>\<rparr>)"

text \<open>The constructor.\<close>

definition newVatHandle :: "string \<Rightarrow> string \<Rightarrow> vat_handle" where
  "newVatHandle v config = \<lparr>vatConfigOf = config, rpc = makeRpcClient (v @ '':''), closing = False,
     illegalSyscall = None, deliveryError = None, vatRequestedTermination = None\<rparr>"

text \<open>\<open>makeFatalKernelError(code, detail)\<close> (\<open>liveslots/kernel-marshal.ts\<close>)\<close>

definition makeFatalKernelError :: "'h host \<Rightarrow> string \<Rightarrow> string \<Rightarrow> capdata" where
  "makeFatalKernelError H code detail = kserError H (''[KERNEL:VAT_FATAL:'' @ code @ ''] '' @ detail)"

section \<open>Syscalls\<close>

definition recordVatFatalSyscall :: "'w vat_host \<Rightarrow> string \<Rightarrow> string \<Rightarrow> ('w workers kq, unit) sm" where
  "recordVatFatalSyscall V v detail =
     onVat v (illegalSyscall_update (\<lambda>_. Some (makeFatalKernelError (kernelHost V) ''ILLEGAL_SYSCALL'' detail)))"

text \<open>\<open>const immediate = !isInCrank()\<close>\<close>

definition immediately :: "(bool \<Rightarrow> ('h kq, 'a) sm) \<Rightarrow> ('h kq, 'a) sm" where
  "immediately f = bnd (gets (\<lambda>k. \<not> isInCrank (kst k))) f"

definition handleSyscallSend :: "string \<Rightarrow> message \<Rightarrow> ('h kq, unit) sm" where
  "handleSyscallSend target m = immediately (enqueueSend target m)"

definition handleSyscallResolve :: "string \<Rightarrow> (string \<times> bool \<times> capdata) list \<Rightarrow> ('h kq, unit) sm" where
  "handleSyscallResolve v resolutions = immediately (resolvePromises (Some v) resolutions)"

definition handleSyscallSubscribe :: "string \<Rightarrow> string \<Rightarrow> ('h kq, unit) sm" where
  "handleSyscallSubscribe v kpid = bnd (onStore (getKernelPromise kpid)) (\<lambda>p.
     if kp_state p = Unresolved then onStore (addPromiseSubscriber v kpid)
     else immediately (enqueueNotify v kpid))"

definition handleSyscallExportCleanup :: "string \<Rightarrow> string list \<Rightarrow> bool \<Rightarrow> ('h kq, unit) sm" where
  "handleSyscallExportCleanup v krefs checkReachable = onStore (performExportCleanup krefs checkReachable v)"

fun performSyscall :: "string \<Rightarrow> syscall \<Rightarrow> ('w workers kq, unit) sm" where
  "performSyscall v (SendCall target m) = handleSyscallSend target m"
| "performSyscall v (SubscribeCall promise) = handleSyscallSubscribe v promise"
| "performSyscall v (ResolveCall resolutions) = handleSyscallResolve v resolutions"
| "performSyscall v (ExitCall isFailure info) = onVat v (vatRequestedTermination_update (\<lambda>_. Some (isFailure, info)))"
| "performSyscall v (DropImports krefs) = onStore (performDropImports krefs v)"
| "performSyscall v (RetireImportsCall krefs) = onStore (performRetireImports krefs v)"
| "performSyscall v (RetireExportsCall krefs) = handleSyscallExportCleanup v krefs True"
| "performSyscall v (AbandonExports krefs) = handleSyscallExportCleanup v krefs False"
| "performSyscall v (OtherSyscall call) = ret ()"

text \<open>\<open>None\<close> is \<open>['ok', null]\<close>, \<open>Some e\<close> is \<open>['error', e]\<close>.\<close>

definition handleSyscall :: "'w vat_host \<Rightarrow> string \<Rightarrow> syscall \<Rightarrow> ('w workers kq, string option) sm" where
  "handleSyscall V v vso = tryCatch
     (thn (onVat v (\<lambda>h. h\<lparr>illegalSyscall := None, vatRequestedTermination := None\<rparr>))
       (bnd (gets (\<lambda>k. isVatActive v (kst k))) (\<lambda>active.
         if \<not> active then thn (recordVatFatalSyscall V v ''Syscall from inactive vat'') (ret (Some ''vat not found''))
         else bnd (onStore (translateSyscallVtoK v vso)) (\<lambda>kso. thn (performSyscall v kso) (ret None)))))
     (\<lambda>e. thn (recordVatFatalSyscall V v ''Syscall translation error: prepare to die'') (ret (Some (messageOf V e))))"

section \<open>The channel\<close>

definition streamReadError :: "'w vat_host \<Rightarrow> string \<Rightarrow> kerror \<Rightarrow> kerror" where
  "streamReadError V v e = JsError ''Unexpected stream read error.'' [v, messageOf V e]"

definition reportStreamFailure :: "'w vat_host \<Rightarrow> string \<Rightarrow> kerror \<Rightarrow> ('w workers kq, unit) sm" where
  "reportStreamFailure V v e = bnd (gets (\<lambda>k. closing (vatHandle v k))) (\<lambda>c.
     if c then ret ()
     else thn (onVat v (rpc_update (rejectAll (streamReadError V v e))))
       (tryCatch (onStreamFailure V v (streamReadError V v e)) (\<lambda>_. ret ())))"

text \<open>\<open>#handleMessage\<close>; the RPC service has the one method \<open>syscall\<close>, whose result goes nowhere.\<close>

fun handleMessage :: "'w vat_host \<Rightarrow> string \<Rightarrow> vat_to_kernel \<Rightarrow> ('w workers kq, unit) sm" where
  "handleMessage V v (VatResponse i response) = onVat v (rpc_update (handleResponse i response))"
| "handleMessage V v (SyscallNotification vso) = bnd (handleSyscall V v vso) (\<lambda>_. ret ())"
| "handleMessage V v BadSyscall = fail (JsError ''Invalid params'' [])"
| "handleMessage V v (OtherNotification m) = fail (JsError ''method not found'' [m])"
| "handleMessage V v VatRequest = fail (JsError ''Received unexpected message'' [])"

text \<open>What \<open>drain\<close> does with what comes over the channel: a message it cannot handle ends it.\<close>

fun channelEvent :: "'w vat_host \<Rightarrow> string \<Rightarrow> channel_event \<Rightarrow> ('w workers kq, unit) sm" where
  "channelEvent V v (FromVat m) = tryCatch (handleMessage V v m) (reportStreamFailure V v)"
| "channelEvent V v ChannelClosed = reportStreamFailure V v (JsError ''vat channel closed'' [])"
| "channelEvent V v (ChannelFailed e) = reportStreamFailure V v e"

section \<open>Commands and deliveries\<close>

text \<open>What a result says of the store, of a command other than \<open>ping\<close>.\<close>

fun takeResult :: "string \<Rightarrow> vat_result \<Rightarrow> ('w workers kq, unit) sm" where
  "takeResult v (DeliveryResult puts dels err) =
     thn (onVat v (deliveryError_update (\<lambda>_. err)))
       (bnd (gets (\<lambda>k. \<not> truthy err \<and> illegalSyscall (vatHandle v k) = None)) (\<lambda>noErrors.
         whenM noErrors (onStore (kvWrite (vatStores_update (updateKVData v puts dels))))))"
| "takeResult v _ = ret ()"

definition sendVatCommand :: "'w vat_host \<Rightarrow> string \<Rightarrow> vat_command \<Rightarrow> ('w workers kq, vat_result) sm" where
  "sendVatCommand V v command =
     bnd (gets (\<lambda>k. nextMessageId (rpc (vatHandle v k)))) (\<lambda>i.
       thn (onVat v (rpc_update startCall))
         (bnd (awaitResponse V v i command) (\<lambda>outcome.
           case outcome of
             RejectedWith e \<Rightarrow> fail e
           | Resolved res \<Rightarrow> bnd (lift (assertResult command res)) (\<lambda>res.
               thn (if command = PingVat then ret () else takeResult v res) (ret res)))))"

definition getDeliveryCrankResult :: "'w vat_host \<Rightarrow> string \<Rightarrow> ('w workers kq, 'w workers crank_result) sm" where
  "getDeliveryCrankResult V v = bnd (gets (vatHandle v)) (\<lambda>h. ret (
     case illegalSyscall h of
       Some info \<Rightarrow> (delivered v)\<lparr>abort := True, terminate := Some (v, True, info)\<rparr>
     | None \<Rightarrow>
         if truthy (deliveryError h)
         then (delivered v)\<lparr>abort := True,
           terminate := Some (v, True, makeFatalKernelError (kernelHost V) ''INTERNAL_ERROR'' (the (deliveryError h)))\<rparr>
         else (case vatRequestedTermination h of
             Some (reject, info) \<Rightarrow> (delivered v)\<lparr>abort := reject, terminate := Some (v, reject, info)\<rparr>
           | None \<Rightarrow> delivered v)))"

definition deliverToVat :: "'w vat_host \<Rightarrow> string \<Rightarrow> vat_delivery \<Rightarrow> ('w workers kq, 'w workers crank_result) sm" where
  "deliverToVat V v d = bnd (sendVatCommand V v (DeliverToVat d)) (\<lambda>_. getDeliveryCrankResult V v)"

definition ping :: "'w vat_host \<Rightarrow> string \<Rightarrow> ('w workers kq, vat_result) sm" where
  "ping V v = sendVatCommand V v PingVat"

text \<open>\<open>VatHandle.make\<close> and \<open>#init\<close>\<close>

definition makeVatHandle :: "'w vat_host \<Rightarrow> string \<Rightarrow> string \<Rightarrow> ('w workers kq, unit) sm" where
  "makeVatHandle V v config =
     thn (onVat v (\<lambda>_. newVatHandle v config))
       (bnd (gets (\<lambda>k. getKVData v (vatStores (db (kst k))))) (\<lambda>state.
         bnd (sendVatCommand V v (InitVat config state)) (\<lambda>res.
           case res of DeliveryResult _ _ err \<Rightarrow>
               require (\<not> truthy err) (JsError ''Failed to initialize vat'' [v, the err])
           | _ \<Rightarrow> ret ())))"

definition expectClose :: "string \<Rightarrow> ('w workers kq, unit) sm" where
  "expectClose v = onVat v (closing_update (\<lambda>_. True))"

text \<open>\<open>terminate\<close>, up to the ending of the stream.\<close>

definition closeVat :: "string \<Rightarrow> bool \<Rightarrow> kerror option \<Rightarrow> ('w workers kq, unit) sm" where
  "closeVat v terminating e =
     thn (expectClose v)
       (whenM terminating (onVat v (rpc_update (rejectAll (case e of Some e \<Rightarrow> e | None \<Rightarrow> JsError ''Vat was deleted.'' [v])))))"

text \<open>The handle as the router sees it; only a remote has a peer.\<close>

definition vatEndpoint :: "'w vat_host \<Rightarrow> string \<Rightarrow> 'w workers endpoint" where
  "vatEndpoint V v = \<lparr>deliverMessage = (\<lambda>target m. deliverToVat V v (VatMessage target m)),
     deliverResolutions = (\<lambda>resolutions. deliverToVat V v (VatNotify resolutions)),
     deliverGC = (\<lambda>ty refs. deliverToVat V v (VatGC ty refs)), deliverReap = deliverToVat V v VatReap,
     peerOf = '''', deliverInbound = (\<lambda>m. fail (TypeErr ''deliverInbound is not a function''))\<rparr>"

section \<open>Each call is settled once\<close>

datatype rpc_event = CallMade | ResponseReceived string rpc_response | AllRejected kerror

fun rpc_step :: "rpc_event \<Rightarrow> rpc_client \<Rightarrow> rpc_client" where
  "rpc_step CallMade c = startCall c"
| "rpc_step (ResponseReceived i response) c = handleResponse i response c"
| "rpc_step (AllRejected e) c = rejectAll e c"

text \<open>The ids of the calls made so far.\<close>

definition call_ids :: "rpc_client \<Rightarrow> string set" where
  "call_ids c = (\<lambda>n. rpcPrefix c @ nat_text (Suc n)) ` {..<messageCounter c}"

definition rpc_ok :: "rpc_client \<Rightarrow> bool" where
  "rpc_ok c \<longleftrightarrow> distinct (unresolvedMessages c @ map fst (settledCalls c)) \<and>
     set (unresolvedMessages c @ map fst (settledCalls c)) = call_ids c"

lemma nextMessageId_fresh: "nextMessageId c \<notin> call_ids c"
  by (auto simp: nextMessageId_def call_ids_def)

lemma call_ids_start: "call_ids (startCall c) = insert (nextMessageId c) (call_ids c)"
  by (auto simp: call_ids_def startCall_def nextMessageId_def lessThan_Suc)

lemma call_ids_settle [simp]: "call_ids (handleResponse i r c) = call_ids c" "call_ids (rejectAll e c) = call_ids c"
  by (simp_all add: call_ids_def handleResponse_def rejectAll_def)

lemma rpc_ok_make: "rpc_ok (makeRpcClient prefix)"
  by (simp add: rpc_ok_def makeRpcClient_def call_ids_def)

lemma rpc_ok_start: "rpc_ok c \<Longrightarrow> rpc_ok (startCall c)"
  unfolding rpc_ok_def call_ids_start using nextMessageId_fresh [of c] by (auto simp: startCall_def)

lemma rpc_ok_response: "rpc_ok c \<Longrightarrow> rpc_ok (handleResponse i r c)"
  unfolding rpc_ok_def call_ids_settle by (auto simp: handleResponse_def)

lemma rpc_ok_rejectAll: "rpc_ok c \<Longrightarrow> rpc_ok (rejectAll e c)"
  unfolding rpc_ok_def call_ids_settle by (auto simp: rejectAll_def comp_def)

lemma rpc_ok_step: "rpc_ok c \<Longrightarrow> rpc_ok (rpc_step ev c)"
  by (cases ev) (simp_all add: rpc_ok_start rpc_ok_response rpc_ok_rejectAll)

lemma rpc_ok_steps: "rpc_ok c \<Longrightarrow> rpc_ok (foldl (\<lambda>c ev. rpc_step ev c) c evs)"
  by (induction evs arbitrary: c) (simp_all add: rpc_ok_step)

text \<open>A settled call stays settled as it was.\<close>

lemma settled_kept: "map_of (settledCalls c) i = Some o1 \<Longrightarrow> map_of (settledCalls (rpc_step ev c)) i = Some o1"
  by (cases ev) (simp_all add: startCall_def handleResponse_def rejectAll_def map_add_Some_iff)

lemma settled_by_response:
  assumes "rpc_ok c" and "i \<in> set (unresolvedMessages c)"
  shows "map_of (settledCalls (handleResponse i r c)) i = Some (response_outcome r)"
proof -
  have "i \<notin> fst ` set (settledCalls c)" using assms by (auto simp: rpc_ok_def)
  then have "map_of (settledCalls c) i = None" by (simp add: map_of_eq_None_iff)
  then show ?thesis using assms(2) by (simp add: handleResponse_def map_add_def)
qed

section \<open>What a syscall may touch\<close>

lemma workers_onStore [frames]: "spares managers (onStore m)"
  by (simp add: spares_def onStore_def split_beta)

lemma workers_wake [frames]: "spares managers wakeRunLoop"
  unfolding wakeRunLoop_def by (intro frames; auto)

lemma workers_tell [frames]: "spares managers (tell c a)"
  unfolding tell_def by (intro frames; auto)

lemma workers_queueRun [frames]: "spares managers (queueRun item)"
  unfolding queueRun_def by (intro frames; auto)

lemma workers_enqueueSend [frames]: "spares managers (enqueueSend t m i)"
  unfolding enqueueSend_def by (intro frames; auto)

lemma workers_enqueueNotify [frames]: "spares managers (enqueueNotify e p i)"
  unfolding enqueueNotify_def by (intro frames; auto)

lemma workers_settle [frames]: "spares managers (settleKernelSubscription p b v)"
  unfolding settleKernelSubscription_def by (intro frames; auto)

lemma workers_invoke [frames]: "spares managers (invokeKernelSubscription p)"
  unfolding invokeKernelSubscription_def by (intro frames; auto)

lemma workers_resolvePromises [frames]: "spares managers (resolvePromises e rs i)"
  unfolding resolvePromises_def resolvePromise_def by (intro frames; auto)

lemma spares_immediately [frames]: "(\<And>b. spares p (f b)) \<Longrightarrow> spares p (immediately f)"
  unfolding immediately_def by (intro frames; auto)

text \<open>Every syscall but \<open>exit\<close> leaves the handles alone; every one leaves the savepoints alone.\<close>

lemma performSyscall_workers:
  assumes "\<forall>f i. call \<noteq> ExitCall f i"
  shows "spares managers (performSyscall v call)"
proof (cases call)
  case (ExitCall f i)
  then show ?thesis using assms by blast
qed (simp_all add: frames handleSyscallSend_def handleSyscallResolve_def handleSyscallSubscribe_def handleSyscallExportCleanup_def)

lemma spares_onVat [frames]: "kspares (onVat v f)"
  unfolding onVat_def by (intro frames; auto)

lemma kspares_performSyscall [frames]: "kspares (performSyscall v call)"
  by (cases call) (simp_all add: frames handleSyscallSend_def handleSyscallResolve_def handleSyscallSubscribe_def handleSyscallExportCleanup_def)

lemma kspares_recordFatal [frames]: "kspares (recordVatFatalSyscall V v detail)"
  unfolding recordVatFatalSyscall_def by (intro frames)

lemma kspares_handleSyscall [frames]: "kspares (handleSyscall V v call)"
  unfolding handleSyscall_def by (intro frames)

section \<open>The verdict on a syscall\<close>

text \<open>The handle of \<open>v\<close> is the only one changed, and in the three fields of \<open>VatSyscall\<close> only.\<close>

definition only_syscall_state :: "string \<Rightarrow> 'w workers \<Rightarrow> 'w workers \<Rightarrow> bool" where
  "only_syscall_state v w w' \<longleftrightarrow> (\<exists>a b. w' = w\<lparr>vatOf := (vatOf w)(v := (vatOf w v)\<lparr>illegalSyscall := a, vatRequestedTermination := b\<rparr>)\<rparr>)"

lemma managers_onVat [simp]:
  "managers (snd (onVat v f k)) = (managers k)\<lparr>vatOf := (vatOf (managers k))(v := f (vatOf (managers k) v))\<rparr>"
  by (simp add: onVat_def)

lemma translate_exit:
  assumes "translateSyscallVtoK v vso s = (Inr kso, s')"
  shows "(\<exists>f i. vso = ExitCall f i \<and> (\<exists>j. kso = ExitCall f j)) \<or> (\<forall>f i. vso \<noteq> ExitCall f i) \<and> (\<forall>f i. kso \<noteq> ExitCall f i)"
  using assms by (cases vso) (auto simp: sm_simps split: prod.splits sum.splits)

lemma only_syscall_state_I:
  "only_syscall_state v w (w\<lparr>vatOf := (vatOf w)(v := (vatOf w v)\<lparr>illegalSyscall := a, vatRequestedTermination := b\<rparr>)\<rparr>)"
  "only_syscall_state v w (w\<lparr>vatOf := (vatOf w)(v := (vatOf w v)\<lparr>vatRequestedTermination := b, illegalSyscall := a\<rparr>)\<rparr>)"
proof -
  show "only_syscall_state v w (w\<lparr>vatOf := (vatOf w)(v := (vatOf w v)\<lparr>illegalSyscall := a, vatRequestedTermination := b\<rparr>)\<rparr>)"
    unfolding only_syscall_state_def by (rule exI [of _ a], rule exI [of _ b], rule refl)
  moreover have "(vatOf w v)\<lparr>vatRequestedTermination := b, illegalSyscall := a\<rparr> = (vatOf w v)\<lparr>illegalSyscall := a, vatRequestedTermination := b\<rparr>"
    by (cases "vatOf w v") simp
  ultimately show "only_syscall_state v w (w\<lparr>vatOf := (vatOf w)(v := (vatOf w v)\<lparr>vatRequestedTermination := b, illegalSyscall := a\<rparr>)\<rparr>)"
    by (simp only:)
qed

text \<open>What a syscall asks of its vat's life.\<close>

fun asks_to_exit :: "syscall \<Rightarrow> bool option" where
  "asks_to_exit (ExitCall f i) = Some f"
| "asks_to_exit _ = None"

definition inactive_syscall :: "'w vat_host \<Rightarrow> capdata" where
  "inactive_syscall V = makeFatalKernelError (kernelHost V) ''ILLEGAL_SYSCALL'' ''Syscall from inactive vat''"

definition failed_syscall :: "'w vat_host \<Rightarrow> capdata" where
  "failed_syscall V = makeFatalKernelError (kernelHost V) ''ILLEGAL_SYSCALL'' ''Syscall translation error: prepare to die''"

lemma handleSyscall_verdict:
  fixes k :: "'w workers kq"
  assumes "handleSyscall V v vso k = (r, k')"
  obtains a where "r = Inr a" and "only_syscall_state v (managers k) (managers k')"
    and "case a of
        None \<Rightarrow> isVatActive v (kst k) \<and> illegalSyscall (vatHandle v k') = None \<and> map_option fst (vatRequestedTermination (vatHandle v k')) = asks_to_exit vso
      | Some e \<Rightarrow> illegalSyscall (vatHandle v k') = Some (if isVatActive v (kst k) then failed_syscall V else inactive_syscall V) \<and>
          vatRequestedTermination (vatHandle v k') = None"
proof -
  let ?k1 = "snd (onVat v (\<lambda>h. h\<lparr>illegalSyscall := None, vatRequestedTermination := None\<rparr>) k)"
  have s1: "kst ?k1 = kst k" by (simp add: onVat_def)
  show thesis
  proof (cases "isVatActive v (kst k)")
    case False
    then have "handleSyscall V v vso k = (Inr (Some ''vat not found''), snd (recordVatFatalSyscall V v ''Syscall from inactive vat'' ?k1))"
      by (simp add: handleSyscall_def tryCatch_def thn_run onVat_def recordVatFatalSyscall_def)
    then have "r = Inr (Some ''vat not found'')" and k': "k' = snd (recordVatFatalSyscall V v ''Syscall from inactive vat'' ?k1)" using assms by simp_all
    then show thesis using False that [of "Some ''vat not found''"]
      by (simp add: recordVatFatalSyscall_def vatHandle_def only_syscall_state_I inactive_syscall_def)
  next
    case True
    obtain q s2 where tr: "translateSyscallVtoK v vso (kst k) = (q, s2)" by fastforce
    let ?k2 = "?k1\<lparr>kst := s2\<rparr>"
    have run: "handleSyscall V v vso k = (case q of
        Inl e \<Rightarrow> thn (recordVatFatalSyscall V v ''Syscall translation error: prepare to die'') (ret (Some (messageOf V e))) ?k2
      | Inr kso \<Rightarrow> (case performSyscall v kso ?k2 of
          (Inr u, k3) \<Rightarrow> (Inr None, k3)
        | (Inl e, k3) \<Rightarrow> thn (recordVatFatalSyscall V v ''Syscall translation error: prepare to die'') (ret (Some (messageOf V e))) k3))"
      using True tr by (simp add: handleSyscall_def tryCatch_def thn_run onVat_def onStore_def split: sum.split prod.split)
    have m2: "managers ?k2 = (managers k)\<lparr>vatOf := (vatOf (managers k))(v := (vatOf (managers k) v)\<lparr>illegalSyscall := None, vatRequestedTermination := None\<rparr>)\<rparr>"
      by (simp add: onVat_def)
    show thesis
    proof (cases q)
      case (Inl e)
      then show thesis using assms run m2 True that [of "Some (messageOf V e)"]
        by (auto simp: thn_run recordVatFatalSyscall_def vatHandle_def only_syscall_state_I failed_syscall_def onVat_def)
    next
      case (Inr kso)
      obtain q3 k3 where pf: "performSyscall v kso ?k2 = (q3, k3)" by fastforce
      from translate_exit [OF tr [unfolded Inr]] show thesis
      proof (elim disjE exE conjE)
        fix f i j assume c: "vso = ExitCall f i" "kso = ExitCall f j"
        then show thesis using assms run Inr True that [of None]
          by (auto simp: onVat_def vatHandle_def only_syscall_state_I)
      next
        assume c: "\<forall>f i. vso \<noteq> ExitCall f i" "\<forall>f i. kso \<noteq> ExitCall f i"
        have m3: "managers k3 = managers ?k2" using sparesD [OF performSyscall_workers [OF c(2)] pf] .
        have no: "asks_to_exit vso = None" using c(1) by (cases vso) auto
        show thesis
        proof (cases q3)
          case (Inl e)
          then show thesis using assms run Inr pf m2 m3 True that [of "Some (messageOf V e)"]
            by (auto simp: thn_run recordVatFatalSyscall_def vatHandle_def only_syscall_state_I failed_syscall_def onVat_def)
        next
          case (Inr u)
          then show thesis using assms run \<open>q = Inr kso\<close> pf m2 m3 True no that [of None]
            by (auto simp: vatHandle_def only_syscall_state_I)
        qed
      qed
    qed
  qed
qed

section \<open>A delivery to a worker that answers\<close>

text \<open>What a worker says while the kernel waits for the answer to call \<open>i\<close>, and what that call came to.\<close>

definition converse :: "'w vat_host \<Rightarrow> string \<Rightarrow> string \<Rightarrow> channel_event list \<Rightarrow> ('w workers kq, rpc_outcome) sm" where
  "converse V v i events = thn (forEach events (channelEvent V v))
     (bnd (gets (\<lambda>k. map_of (settledCalls (rpc (vatHandle v k))) i)) (ofOption (JsError ''not answered'' [i])))"

text \<open>The worker makes these syscalls and answers with this result.\<close>

definition answers_with :: "'w vat_host \<Rightarrow> string \<Rightarrow> syscall list \<Rightarrow> vat_result \<Rightarrow> bool" where
  "answers_with V v calls res \<longleftrightarrow> awaitResponse V v = (\<lambda>i command.
     converse V v i (map (\<lambda>c. FromVat (SyscallNotification c)) calls @ [FromVat (VatResponse i (RpcSuccess res))]))"

definition after_calls :: "'w vat_host \<Rightarrow> string \<Rightarrow> syscall list \<Rightarrow> 'w workers kq \<Rightarrow> 'w workers kq" where
  "after_calls V v calls k = foldl (\<lambda>k c. snd (handleSyscall V v c k)) k calls"

lemma kspares_reportStreamFailure [frames]:
  "(\<And>e. kspares (onStreamFailure V v e)) \<Longrightarrow> kspares (reportStreamFailure V v e)"
  unfolding reportStreamFailure_def by (intro frames; auto)

lemma kspares_channelEvent [frames]:
  assumes "\<And>e. kspares (onStreamFailure V v e)"
  shows "kspares (channelEvent V v ev)"
proof (cases ev)
  case (FromVat m)
  have "kspares (handleMessage V v m)" by (cases m) (simp_all add: frames)
  then show ?thesis using FromVat assms by (simp add: frames)
qed (simp_all add: frames assms)

lemma kspares_converse: "(\<And>e. kspares (onStreamFailure V v e)) \<Longrightarrow> kspares (converse V v i events)"
  unfolding converse_def by (intro frames; auto)

lemma kspares_deliverToVat:
  assumes "\<And>i command. kspares (awaitResponse V v i command)"
  shows "kspares (deliverToVat V v d)"
proof -
  have t: "kspares (takeResult v res)" for res by (cases res) (simp_all, (intro frames; auto)+)
  have a: "kspares (case outcome of Resolved res \<Rightarrow> bnd (lift (assertResult command res)) (\<lambda>res.
        thn (if command = PingVat then ret () else takeResult v res) (ret res)) | RejectedWith e \<Rightarrow> fail e)" for outcome and command
    by (cases outcome) (simp_all, (intro frames t; auto)+)
  show ?thesis unfolding deliverToVat_def sendVatCommand_def getDeliveryCrankResult_def
    by (intro frames assms a)
qed

lemma channelEvent_syscall: "channelEvent V v (FromVat (SyscallNotification c)) k = (Inr (), snd (handleSyscall V v c k))"
proof -
  obtain r k' where run: "handleSyscall V v c k = (r, k')" by fastforce
  obtain a where "r = Inr a" using handleSyscall_verdict [OF run] .
  then show ?thesis using run by (simp add: tryCatch_def)
qed

lemma forEach_app: "forEach (xs @ ys) f = thn (forEach xs f) (forEach ys f)"
  by (induction xs) (simp_all add: thn_def bnd_def fun_eq_iff split: prod.split sum.split)

lemma calls_run: "forEach (map (\<lambda>c. FromVat (SyscallNotification c)) calls) (channelEvent V v) k = (Inr (), after_calls V v calls k)"
proof (induction calls arbitrary: k)
  case (Cons c calls)
  then show ?case by (simp del: channelEvent.simps add: channelEvent_syscall thn_run after_calls_def)
qed (simp add: after_calls_def)

lemma handleSyscall_keeps:
  "rpc (vatHandle v (snd (handleSyscall V v c k))) = rpc (vatHandle v k) \<and>
   deliveryError (vatHandle v (snd (handleSyscall V v c k))) = deliveryError (vatHandle v k)"
proof -
  obtain r k' where run: "handleSyscall V v c k = (r, k')" by fastforce
  obtain a where "only_syscall_state v (managers k) (managers k')" using handleSyscall_verdict [OF run] .
  then show ?thesis using run by (auto simp: only_syscall_state_def vatHandle_def)
qed

lemma after_calls_keeps: "rpc (vatHandle v (after_calls V v calls k)) = rpc (vatHandle v k)"
proof (induction calls arbitrary: k)
  case (Cons c calls)
  show ?case using Cons.IH [of "snd (handleSyscall V v c k)"] by (simp add: after_calls_def handleSyscall_keeps)
qed (simp add: after_calls_def)

text \<open>The state in which the last syscall finds the kernel, and the delivery as it goes on from there.\<close>

abbreviation called :: "string \<Rightarrow> 'w workers kq \<Rightarrow> 'w workers kq" where
  "called v k \<equiv> snd (onVat v (rpc_update startCall) k)"

lemma delivery_run:
  fixes k :: "'w workers kq"
  assumes "rpc_ok (rpc (vatHandle v k))" and "answers_with V v calls (DeliveryResult puts dels err)"
  defines "k1 \<equiv> after_calls V v calls (called v k)"
  defines "k2 \<equiv> snd (onVat v (rpc_update (handleResponse (nextMessageId (rpc (vatHandle v k))) (RpcSuccess (DeliveryResult puts dels err)))) k1)"
  shows "deliverToVat V v d k = thn (takeResult v (DeliveryResult puts dels err)) (getDeliveryCrankResult V v) k2"
proof -
  let ?i = "nextMessageId (rpc (vatHandle v k))" and ?r = "DeliveryResult puts dels err"
  have c: "rpc (vatHandle v (called v k)) = startCall (rpc (vatHandle v k))" by (simp add: vatHandle_def)
  have ok: "rpc_ok (rpc (vatHandle v k1))" "?i \<in> set (unresolvedMessages (rpc (vatHandle v k1)))"
    using assms(1) by (simp_all add: k1_def after_calls_keeps c rpc_ok_start) (simp add: startCall_def)
  have r2: "rpc (vatHandle v k2) = handleResponse ?i (RpcSuccess ?r) (rpc (vatHandle v k1))" by (simp add: k2_def vatHandle_def)
  have s: "map_of (settledCalls (rpc (vatHandle v k2))) ?i = Some (Resolved ?r)"
    unfolding r2 using settled_by_response [OF ok, of "RpcSuccess ?r"] by simp
  have ev: "channelEvent V v (FromVat (VatResponse ?i (RpcSuccess ?r))) k1 = (Inr (), k2)"
    by (simp add: tryCatch_def k2_def onVat_def)
  have talk: "awaitResponse V v ?i (DeliverToVat d) (called v k) = (Inr (Resolved ?r), k2)"
    using assms(2) s by (simp del: channelEvent.simps add: answers_with_def converse_def forEach_app thn_run calls_run ev k1_def [symmetric])
  obtain k0 where st: "onVat v (rpc_update startCall) k = (Inr (), k0)" by (simp add: onVat_def)
  have talk0: "awaitResponse V v ?i (DeliverToVat d) k0 = (Inr (Resolved ?r), k2)" using talk st by simp
  have sent: "sendVatCommand V v (DeliverToVat d) k = thn (takeResult v ?r) (ret ?r) k2"
    unfolding sendVatCommand_def by (simp add: bnd_run thn_run st talk0 del: takeResult.simps)
  show ?thesis unfolding deliverToVat_def bnd_run sent
    by (cases "takeResult v ?r k2"; cases "fst (takeResult v ?r k2)") (simp_all add: thn_run del: takeResult.simps)
qed

section \<open>Properties\<close>

text \<open>C17. Whatever a vat's worker sends as a syscall, handling it returns; it is answered with an error just when the syscall is
  recorded as illegal, and \<open>exit\<close> when that is what was asked. It reaches no other vat's handle, nor the savepoints of the crank or
  whether there is one, so the crank it is made in can still be rolled back.\<close>

theorem handleSyscall_contained:
  fixes k :: "'w workers kq"
  assumes "handleSyscall V v vso k = (r, k')"
  shows "\<exists>a. r = Inr a \<and> (a \<noteq> None \<longleftrightarrow> illegalSyscall (vatHandle v k') \<noteq> None) \<and>
    map_option fst (vatRequestedTermination (vatHandle v k')) = (if a = None then asks_to_exit vso else None) \<and>
    (isVatActive v (kst k) \<or> a = Some ''vat not found'' \<and> kst k' = kst k) \<and>
    only_syscall_state v (managers k) (managers k') \<and> crank_part (kst k') = crank_part (kst k)"
proof -
  obtain a where a: "r = Inr a" "only_syscall_state v (managers k) (managers k')"
    and c: "case a of
        None \<Rightarrow> isVatActive v (kst k) \<and> illegalSyscall (vatHandle v k') = None \<and> map_option fst (vatRequestedTermination (vatHandle v k')) = asks_to_exit vso
      | Some e \<Rightarrow> illegalSyscall (vatHandle v k') = Some (if isVatActive v (kst k) then failed_syscall V else inactive_syscall V) \<and>
          vatRequestedTermination (vatHandle v k') = None"
    using handleSyscall_verdict [OF assms] .
  have "crank_part (kst k') = crank_part (kst k)" using sparesD [OF kspares_handleSyscall assms] .
  moreover have "a = Some ''vat not found'' \<and> kst k' = kst k" if "\<not> isVatActive v (kst k)"
    using that assms a(1) by (auto simp: handleSyscall_def tryCatch_def thn_run onVat_def recordVatFatalSyscall_def)
  ultimately show ?thesis using a c by (cases a) auto
qed

definition demo_worker :: "unit vat_host" where
  "demo_worker = \<lparr>
     kernelHost = \<lparr>database = demo_db True, kserError = (\<lambda>m. \<lparr>body = m, slots = []\<rparr>), terminateVat = (\<lambda>v info. ret ())\<rparr>,
     awaitResponse = (\<lambda>i command. \<lambda>_. ret (RejectedWith (JsError ''no worker'' []))),
     onStreamFailure = (\<lambda>v e. ret ()), messageOf = (\<lambda>e. ''error'')\<rparr>"

definition talking :: "syscall list \<Rightarrow> vat_result \<Rightarrow> unit vat_host" where
  "talking calls res = demo_worker\<lparr>awaitResponse := (\<lambda>v i command. converse demo_worker v i
     (map (\<lambda>c. FromVat (SyscallNotification c)) calls @ [FromVat (VatResponse i (RpcSuccess res))]))\<rparr>"

definition demo_vat :: "unit workers kq" where
  "demo_vat = makeKernelQueue ((makeKernelStore empty_kdb)\<lparr>db := empty_kdb\<lparr>vatConfigs := tput ''v1'' ''{}'' tempty\<rparr>\<rparr>)
     \<lparr>vatOf = (\<lambda>v. newVatHandle v ''{}''), elsewhere = ()\<rparr>"

lemma demo_vat_facts [simp]:
  "isVatActive ''v1'' (kst demo_vat)" "vatHandle v demo_vat = newVatHandle v ''{}''" "managers demo_vat = \<lparr>vatOf = (\<lambda>v. newVatHandle v ''{}''), elsewhere = ()\<rparr>"
proof -
  show "isVatActive ''v1'' (kst demo_vat)"
    by (simp add: demo_vat_def makeKernelQueue_def isVatActive_def has_def)
qed (simp_all add: demo_vat_def makeKernelQueue_def vatHandle_def)

theorem handleSyscall_contained_witness:
  "fst (handleSyscall demo_worker ''v1'' (OtherSyscall ''callNow'') demo_vat) = Inr (Some ''error'') \<and>
   illegalSyscall (vatHandle ''v1'' (snd (handleSyscall demo_worker ''v1'' (OtherSyscall ''callNow'') demo_vat))) \<noteq> None"
proof -
  obtain r k' where run: "handleSyscall demo_worker ''v1'' (OtherSyscall ''callNow'') demo_vat = (r, k')" by fastforce
  have "r = Inr (Some ''error'')"
    using run by (auto simp: handleSyscall_def tryCatch_def thn_run bnd_run onVat_def onStore_def recordVatFatalSyscall_def demo_worker_def)
  then show ?thesis using handleSyscall_contained [OF run] run by auto
qed

text \<open>C6. The verdict on a delivery is that of its last syscall. Let the worker make syscalls, \<open>c\<close> the last, and answer the
  delivery. The crank result then aborts just when \<open>c\<close> was illegal, the worker reports an error, or \<open>c\<close> asks to exit with
  failure; the vat is terminated with rejection in the first two cases, and as it asked if \<open>c\<close> is \<open>exit\<close>; the keys the vat set and deleted are
  written down unless one of the first two is the case, and nothing else is. What an earlier syscall of the
  delivery recorded does not matter: after an illegal syscall or an \<open>exit\<close>, the delivery of a vat that goes on to make a legal one
  commits and the vat lives on.\<close>

theorem last_syscall_decides:
  fixes k :: "'w workers kq"
  assumes "rpc_ok (rpc (vatHandle v k))" and "answers_with V v (calls @ [c]) (DeliveryResult puts dels err)"
  shows "let (r, k2) = handleSyscall V v c (after_calls V v calls (called v k));
      failed = r \<noteq> Inr None \<or> truthy err in
    \<exists>cr k'. deliverToVat V v d k = (Inr cr, k') \<and> didDelivery cr = Some v \<and>
      (abort cr \<longleftrightarrow> failed \<or> asks_to_exit c = Some True) \<and>
      map_option (\<lambda>(w, reject, info). (w, reject)) (terminate cr) = (if failed then Some (v, True) else map_option (Pair v) (asks_to_exit c)) \<and>
      kst k' = (if failed then kst k2 else (kst k2)\<lparr>db := vatStores_update (updateKVData v puts dels) (db (kst k2))\<rparr>)"
proof -
  obtain r k2 where last: "handleSyscall V v c (after_calls V v calls (called v k)) = (r, k2)" by fastforce
  have k2: "after_calls V v (calls @ [c]) (called v k) = k2" using last by (simp add: after_calls_def)
  obtain a where a: "r = Inr a" and s: "case a of
        None \<Rightarrow> isVatActive v (kst (after_calls V v calls (called v k))) \<and> illegalSyscall (vatHandle v k2) = None \<and>
          map_option fst (vatRequestedTermination (vatHandle v k2)) = asks_to_exit c
      | Some e \<Rightarrow> illegalSyscall (vatHandle v k2) = Some (if isVatActive v (kst (after_calls V v calls (called v k))) then failed_syscall V else inactive_syscall V) \<and>
          vatRequestedTermination (vatHandle v k2) = None"
    using handleSyscall_verdict [OF last] .
  show ?thesis
    unfolding last delivery_run [OF assms, unfolded k2] using a s
    by (cases a; cases "vatRequestedTermination (vatHandle v k2)"; cases "asks_to_exit c")
      (auto simp: thn_run bnd_run onVat_def onStore_def vatHandle_def getDeliveryCrankResult_def delivered_def Let_def truthy_def)
qed

lemma converse_talking: "converse (V\<lparr>awaitResponse := w\<rparr>) v i events = converse V v i events"
proof -
  have rec: "recordVatFatalSyscall (V\<lparr>awaitResponse := w\<rparr>) v m = recordVatFatalSyscall V v m" for m
    by (simp add: recordVatFatalSyscall_def)
  have h: "handleSyscall (V\<lparr>awaitResponse := w\<rparr>) v c = handleSyscall V v c" for c
    unfolding handleSyscall_def rec by simp
  have s: "streamReadError (V\<lparr>awaitResponse := w\<rparr>) v e = streamReadError V v e"
    "onStreamFailure (V\<lparr>awaitResponse := w\<rparr>) = onStreamFailure V" for e
    by (simp_all add: streamReadError_def)
  have f: "reportStreamFailure (V\<lparr>awaitResponse := w\<rparr>) v = reportStreamFailure V v"
    by (rule ext) (unfold reportStreamFailure_def s, rule refl)
  have m: "handleMessage (V\<lparr>awaitResponse := w\<rparr>) v m = handleMessage V v m" for m by (cases m) (simp_all add: h)
  have "channelEvent (V\<lparr>awaitResponse := w\<rparr>) v ev = channelEvent V v ev" for ev
    by (cases ev) (simp_all add: m f)
  then have "channelEvent (V\<lparr>awaitResponse := w\<rparr>) v = channelEvent V v" ..
  then show ?thesis by (simp add: converse_def)
qed

lemma answers_talking: "answers_with (talking calls res) v calls res"
  by (simp add: answers_with_def talking_def converse_talking fun_eq_iff)

theorem last_syscall_decides_witness:
  "\<exists>cr k'. deliverToVat (talking [OtherSyscall ''callNow'', ExitCall False \<lparr>body = ''done'', slots = []\<rparr>] (DeliveryResult [] [] None)) ''v1'' VatReap demo_vat = (Inr cr, k') \<and>
     \<not> abort cr \<and> map_option (\<lambda>(w, reject, info). (w, reject)) (terminate cr) = Some (''v1'', False)"
proof -
  let ?bad = "OtherSyscall ''callNow''" and ?exit = "ExitCall False \<lparr>body = ''done'', slots = []\<rparr>" and ?res = "DeliveryResult [] [] None"
  let ?V = "talking ([?bad] @ [?exit]) ?res"
  have a: "isVatActive ''v1'' (kst (after_calls ?V ''v1'' [?bad] (called ''v1'' demo_vat)))"
    by (simp add: after_calls_def handleSyscall_def tryCatch_def thn_run bnd_run onVat_def onStore_def recordVatFatalSyscall_def)
  then have "fst (handleSyscall ?V ''v1'' ?exit (after_calls ?V ''v1'' [?bad] (called ''v1'' demo_vat))) = Inr None"
    by (simp add: handleSyscall_def tryCatch_def thn_run bnd_run onVat_def onStore_def translateCapDataEtoK_def)
  moreover have ok: "rpc_ok (rpc (vatHandle ''v1'' demo_vat))" by (simp add: newVatHandle_def rpc_ok_make)
  ultimately show ?thesis
    using last_syscall_decides [OF ok answers_talking [of "[?bad] @ [?exit]" ?res "''v1''"], of VatReap]
    by (auto simp: split_beta truthy_def)
qed

text \<open>C18. Each call of the RPC client is settled at most once. After any calls, responses and mass rejections, in any order, every id
  handed out is that of one call, the calls made are the ones waiting and the ones settled, each once, and a mass rejection leaves none
  waiting. What callers have been told only grows, so an answer that comes late or twice changes nothing.\<close>

theorem rpc_calls_settle_once:
  "let c = foldl (\<lambda>c ev. rpc_step ev c) (makeRpcClient prefix) evs; c' = foldl (\<lambda>c ev. rpc_step ev c) c later in
    distinct (unresolvedMessages c @ map fst (settledCalls c)) \<and>
    set (unresolvedMessages c @ map fst (settledCalls c)) = (\<lambda>n. prefix @ nat_text (Suc n)) ` {..<length (filter (\<lambda>ev. ev = CallMade) evs)} \<and>
    unresolvedMessages (rejectAll e c) = [] \<and> take (length (settledCalls c)) (settledCalls c') = settledCalls c"
proof -
  have count: "messageCounter (foldl (\<lambda>c ev. rpc_step ev c) c evs) = messageCounter c + length (filter (\<lambda>ev. ev = CallMade) evs) \<and>
      rpcPrefix (foldl (\<lambda>c ev. rpc_step ev c) c evs) = rpcPrefix c" for c and evs :: "rpc_event list"
  proof (induction evs arbitrary: c)
    case (Cons ev evs)
    then show ?case by (cases ev) (simp_all add: startCall_def handleResponse_def rejectAll_def)
  qed simp
  have grows: "\<exists>l. settledCalls (foldl (\<lambda>c ev. rpc_step ev c) c later) = settledCalls c @ l" for c and later :: "rpc_event list"
  proof (induction later arbitrary: c)
    case (Cons ev later)
    have "\<exists>l. settledCalls (rpc_step ev c) = settledCalls c @ l"
      by (cases ev) (simp_all add: startCall_def handleResponse_def rejectAll_def)
    then show ?case using Cons.IH [of "rpc_step ev c"] by auto
  qed simp
  let ?c = "foldl (\<lambda>c ev. rpc_step ev c) (makeRpcClient prefix) evs"
  have "rpc_ok ?c" by (rule rpc_ok_steps [OF rpc_ok_make])
  then show ?thesis using count [of "makeRpcClient prefix" evs] grows [of ?c later]
    by (auto simp: rpc_ok_def call_ids_def makeRpcClient_def Let_def rejectAll_def)
qed

end
