(* ===== verification/VatManager.thy ===== *)
theory VatManager
  imports VatHandle Abandonment
begin

text \<open>
  The manager of the vats (\<open>vats/VatManager.ts\<close>): starting a vat's worker, at boot, at launch and at a restart; the loss of its
  channel; and its end, by a queued request or in the crank that decided on it.

  \<^item> \<open>vat_manager\<close> has a field per private field of the class that changes. Each start of a vat is a number: it stands for
    the \<open>RunningVat\<close> record the code matches a lost channel against, and \<open>vats\<close> has for each running vat the start its handle came from.
    A channel whose handle is no longer the vat's has been closed by the kernel, and what it reports is passed over.
  \<^item> A caller is a number and is told through \<open>answers\<close>; an answer due once the crank ends waits in
    \<open>answersDue\<close>. A caller promised such an answer is no longer told of the run loop's death, hence is unregistered.
  \<^item> The platform is the argument \<open>platform\<close>: the launch of a worker, and whether the vat's start is done in time. Stopping a worker never
    fails the caller, and \<open>workerStops\<close> is the trace of it. A start given up on leaves no handle, whichever step it had come to.
\<close>

section \<open>State\<close>

type_synonym waiters = "(string \<times> nat list) list"

record 'm vat_manager =
  vats :: "(string \<times> nat) list"
  startOf :: "(string \<times> nat) list"
  nextStart :: nat
  startedHandles :: "nat list"
  lostStarts :: "(nat \<times> kerror) list"
  restartWaiters :: waiters
  terminationWaiters :: waiters
  supersededRestarts :: waiters
  pendingTerminations :: "(string \<times> nat) list"
  workersStopping :: bool
  answersDue :: "(nat list \<times> answer) list"
  workerStops :: "string list"
  beyond :: 'm

type_synonym 'm vkq = "'m vat_manager workers kq"

record 'm platform =
  launchWorker :: "string \<Rightarrow> string \<Rightarrow> ('m vkq, unit) sm"
  startsInTime :: "string \<Rightarrow> 'm vkq \<Rightarrow> bool"

definition makeVatManager :: "'m \<Rightarrow> 'm vat_manager" where
  "makeVatManager x = \<lparr>vats = [], startOf = [], nextStart = 0, startedHandles = [], lostStarts = [], restartWaiters = [],
     terminationWaiters = [], supersededRestarts = [], pendingTerminations = [], workersStopping = False, answersDue = [],
     workerStops = [], beyond = x\<rparr>"

definition vm :: "'m vkq \<Rightarrow> 'm vat_manager" where
  "vm k = elsewhere (managers k)"

definition onVm :: "('m vat_manager \<Rightarrow> 'm vat_manager) \<Rightarrow> ('m vkq, unit) sm" where
  "onVm f = modify (\<lambda>k. k\<lparr>managers := (managers k)\<lparr>elsewhere := f (elsewhere (managers k))\<rparr>\<rparr>)"

definition vat_deleted :: "string \<Rightarrow> kerror" where
  "vat_deleted v = JsError ''Vat was deleted.'' [v]"

definition hasVat :: "string \<Rightarrow> 'm vkq \<Rightarrow> bool" where
  "hasVat v k \<longleftrightarrow> map_of (vats (vm k)) v \<noteq> None"

definition getVatIds :: "'m vkq \<Rightarrow> string list" where
  "getVatIds k = map fst (vats (vm k))"

definition isVatKnown :: "string \<Rightarrow> 'm vkq \<Rightarrow> bool" where
  "isVatKnown v k \<longleftrightarrow> hasVat v k \<or> isVatActive v (kst k)"

definition getVat :: "string \<Rightarrow> ('m vkq, unit) sm" where
  "getVat v = bnd (gets (hasVat v)) (\<lambda>has. require has (VatNotFound v))"

definition pingVat :: "'m vat_manager vat_host \<Rightarrow> string \<Rightarrow> ('m vkq, vat_result) sm" where
  "pingVat V v = thn (getVat v) (ping V v)"

text \<open>\<open>getVats\<close>\<close>

definition getVats :: "('m vkq, (string \<times> string \<times> string) list) sm" where
  "getVats = bnd (gets getVatIds) (mapEach (\<lambda>v. bnd (onStore (getVatSubcluster v)) (\<lambda>sub.
     bnd (gets (\<lambda>k. vatConfigOf (vatHandle v k))) (\<lambda>config. ret (v, config, sub)))))"

section \<open>Roots\<close>

definition releaseVatRootPin :: "string \<Rightarrow> unit store" where
  "releaseVatRootPin v = bnd (gets (getRootObject v)) (\<lambda>root. if truthy root then unpinObject (the root) else ret ())"

definition pinVatRoot :: "string \<Rightarrow> string store" where
  "pinVatRoot v = bnd (gets (getRootObject v)) (\<lambda>root.
     if truthy root then thn (pinObject (the root)) (ret (the root)) else fail (VatNotFound v))"

definition unpinVatRoot :: "string \<Rightarrow> unit store" where
  "unpinVatRoot v = bnd (gets (getRootObject v)) (\<lambda>root. if truthy root then unpinObject (the root) else fail (VatNotFound v))"

section \<open>Waiters\<close>

definition waiting :: "string \<Rightarrow> waiters \<Rightarrow> nat list" where
  "waiting v w = (case map_of w v of None \<Rightarrow> [] | Some cs \<Rightarrow> cs)"

definition addWaiter :: "string \<Rightarrow> nat list \<Rightarrow> waiters \<Rightarrow> waiters" where
  "addWaiter v cs w = obj_put v (waiting v w @ cs) w"

text \<open>\<open>#takeWaiters\<close>'s \<open>answer\<close> and \<open>answerOnceCrankEnds\<close>, given the callers taken.\<close>

definition answerNow :: "nat list \<Rightarrow> answer \<Rightarrow> ('h kq, unit) sm" where
  "answerNow callers a = forEach callers (\<lambda>c. thn (unregisterWaiter c) (tell c a))"

definition answerOnceCrankEnds :: "nat list \<Rightarrow> answer \<Rightarrow> ('m vkq, unit) sm" where
  "answerOnceCrankEnds callers a =
     thn (forEach callers unregisterWaiter) (onVm (\<lambda>m. m\<lparr>answersDue := answersDue m @ [(callers, a)]\<rparr>))"

text \<open>The crank has ended: \<open>waitForCrank().then(...)\<close>.\<close>

definition giveAnswersDue :: "('m vkq, unit) sm" where
  "giveAnswersDue = bnd (gets (\<lambda>k. answersDue (vm k))) (\<lambda>due.
     thn (onVm (answersDue_update (\<lambda>_. []))) (forEach due (\<lambda>(callers, a). forEach callers (\<lambda>c. tell c a))))"

definition takeRestartWaiters :: "string \<Rightarrow> ('m vkq, nat list) sm" where
  "takeRestartWaiters v = bnd (gets (\<lambda>k. waiting v (restartWaiters (vm k)))) (\<lambda>taken.
     thn (onVm (restartWaiters_update (obj_del v))) (ret taken))"

definition takeTerminationWaiters :: "string \<Rightarrow> ('m vkq, nat list) sm" where
  "takeTerminationWaiters v = bnd (gets (\<lambda>k. waiting v (terminationWaiters (vm k)))) (\<lambda>taken.
     thn (onVm (terminationWaiters_update (obj_del v))) (ret taken))"

definition takeSupersededRestarts :: "string \<Rightarrow> ('m vkq, nat list) sm" where
  "takeSupersededRestarts v = bnd (gets (\<lambda>k. waiting v (supersededRestarts (vm k)))) (\<lambda>taken.
     thn (onVm (supersededRestarts_update (obj_del v))) (ret taken))"

definition abandonQueuedWork :: "kerror \<Rightarrow> ('m vkq, unit) sm" where
  "abandonQueuedWork e = bnd (gets vm) (\<lambda>m.
     thn (onVm (\<lambda>m. m\<lparr>restartWaiters := [], terminationWaiters := [], supersededRestarts := [], pendingTerminations := []\<rparr>))
       (forEach (concat (map snd (restartWaiters m @ terminationWaiters m @ supersededRestarts m)))
         (\<lambda>c. thn (unregisterWaiter c) (tell c (Threw e)))))"

text \<open>\<open>terminateVat\<close>, with what \<open>#awaitQueuedWork\<close> does before it waits.\<close>

definition requestTermination :: "'m vat_manager workers host \<Rightarrow> string \<Rightarrow> capdata option \<Rightarrow> nat \<Rightarrow> ('m vkq, unit) sm" where
  "requestTermination H v reason caller = bnd (gets (isVatKnown v)) (\<lambda>known.
     thn (require known (VatNotFound v))
       (thn (enqueueTerminateVat H v reason)
         (thn (onVm (\<lambda>m. m\<lparr>
             pendingTerminations := obj_put v (Suc (case map_of (pendingTerminations m) v of None \<Rightarrow> 0 | Some n \<Rightarrow> n)) (pendingTerminations m),
             restartWaiters := obj_del v (restartWaiters m),
             supersededRestarts := (if map_of (restartWaiters m) v = None then supersededRestarts m
               else addWaiter v (waiting v (restartWaiters m)) (supersededRestarts m)),
             terminationWaiters := addWaiter v [caller] (terminationWaiters m)\<rparr>))
           (onRunLoopDeath caller))))"

text \<open>\<open>restartVat\<close>\<close>

definition requestRestart :: "'m vat_manager workers host \<Rightarrow> string \<Rightarrow> nat \<Rightarrow> ('m vkq, unit) sm" where
  "requestRestart H v caller = bnd (gets (isVatKnown v)) (\<lambda>known.
     thn (require known (VatNotFound v))
       (bnd (gets (\<lambda>k. map_of (pendingTerminations (vm k)) v)) (\<lambda>pending.
         thn (if pending \<noteq> None
             then thn (assertRunLoopAlive ''restart a vat'') (onVm (\<lambda>m. m\<lparr>supersededRestarts := addWaiter v [caller] (supersededRestarts m)\<rparr>))
             else thn (enqueueRestartVat H v) (onVm (\<lambda>m. m\<lparr>restartWaiters := addWaiter v [caller] (restartWaiters m)\<rparr>)))
           (onRunLoopDeath caller))))"

section \<open>The end of a vat\<close>

text \<open>\<open>#retireVat\<close>; \<open>why\<close> is the error's message.\<close>

definition retireVat :: "'m vat_manager workers host \<Rightarrow> string \<Rightarrow> string \<Rightarrow> ('m vkq, unit) sm" where
  "retireVat H v why =
     thn (onVm (vats_update (obj_del v)))
       (thn (bnd (gets (\<lambda>k. isVatTerminated v (kst k))) (\<lambda>terminated.
           if terminated then ret ()
           else thn (rejectDecidedPromises v (makeKernelError H ''VAT_TERMINATED'' why))
             (thn (onStore (releaseVatRootPin v)) (onStore (markVatAsTerminated v)))))
         (onStore (deleteVat v)))"

text \<open>\<open>platformServices.terminate(vatId)\<close>, its failure logged.\<close>

definition stopWorker :: "string \<Rightarrow> ('m vkq, unit) sm" where
  "stopWorker v = onVm (\<lambda>m. m\<lparr>workerStops := workerStops m @ [v]\<rparr>)"

definition finish :: "kerror option \<Rightarrow> ('h kq, unit) sm" where
  "finish e = (case e of None \<Rightarrow> ret () | Some e \<Rightarrow> fail e)"

text \<open>\<open>#stopVat\<close>: \<open>Some (why, e)\<close> when terminating, with the error and its message.\<close>

definition stopVatFor :: "'m vat_manager workers host \<Rightarrow> string \<Rightarrow> (string \<times> kerror) option \<Rightarrow> ('m vkq, unit) sm" where
  "stopVatFor H v death = bnd (gets (hasVat v)) (\<lambda>has. bnd (gets (isVatKnown v)) (\<lambda>known.
     thn (require (if death = None then has else known) (VatNotFound v))
       (bnd (tryCatch (thn (case death of None \<Rightarrow> onVm (vats_update (obj_del v)) | Some (why, e) \<Rightarrow> retireVat H v why) (ret None)) (\<lambda>e. ret (Some e)))
         (\<lambda>recordFailure. thn (stopWorker v)
           (thn (if has then closeVat v (death \<noteq> None) (map_option snd death) else ret ())
             (finish recordFailure))))))"

text \<open>\<open>stopVat\<close>, which a crank that ends a vat calls with the reason, if there is one.\<close>

definition stopVat :: "'m vat_manager workers host \<Rightarrow> string \<Rightarrow> bool \<Rightarrow> capdata option \<Rightarrow> ('m vkq, unit) sm" where
  "stopVat H v terminating reason = stopVatFor H v
     (if \<not> terminating then None
      else case reason of
        None \<Rightarrow> Some (''Vat was deleted.'', vat_deleted v)
      | Some r \<Rightarrow> Some (''Vat termination: '' @ body r, JsError (''Vat termination: '' @ body r) []))"

text \<open>What the channel ended with is the cause of a \<open>StreamReadError\<close>.\<close>

definition isStreamReadError :: "kerror \<Rightarrow> bool" where
  "isStreamReadError e = (case e of JsError m _ \<Rightarrow> m = ''Unexpected stream read error.'' | _ \<Rightarrow> False)"

definition causeMessage :: "'m vat_manager vat_host \<Rightarrow> kerror \<Rightarrow> string" where
  "causeMessage V e = (case e of JsError _ [_, c] \<Rightarrow> if isStreamReadError e then c else messageOf V e | _ \<Rightarrow> messageOf V e)"

definition lostVatReason :: "'m vat_manager workers host \<Rightarrow> 'm vat_manager vat_host \<Rightarrow> string \<Rightarrow> kerror \<Rightarrow> capdata" where
  "lostVatReason H V v e = makeKernelError H ''VAT_TERMINATED'' (''Vat '' @ v @ '' lost its channel: '' @ causeMessage V e)"

text \<open>The caller no one waits as: \<open>#reportLostVat\<close> logs how the termination it asks for ends.\<close>

definition nobody :: nat where
  "nobody = 0"

text \<open>\<open>#reportLostVat\<close>, as the handle of the vat's current start calls it. \<open>e\<close> is what the channel ended with.\<close>

definition reportLostVat :: "'m vat_manager workers host \<Rightarrow> 'm vat_manager vat_host \<Rightarrow> string \<Rightarrow> kerror \<Rightarrow> ('m vkq, unit) sm" where
  "reportLostVat H V v e = bnd (gets vm) (\<lambda>m.
     case map_of (startOf m) v of
       None \<Rightarrow> ret ()
     | Some n \<Rightarrow>
         (let made = n \<in> set (startedHandles m) in
          if workersStopping m \<or> made \<and> map_of (vats m) v \<noteq> Some n then ret ()
          else thn (onVm (\<lambda>m. m\<lparr>lostStarts := obj_put n e (lostStarts m)\<rparr>))
            (if \<not> made then ret ()
             else thn (onVm (vats_update (obj_del v)))
               (thn (closeVat v True (Some e))
                 (tryCatch (requestTermination H v (Some (lostVatReason H V v e)) nobody) (\<lambda>_. ret ()))))))"

definition expectWorkersToStop :: "('m vkq, unit) sm" where
  "expectWorkersToStop = thn (onVm (workersStopping_update (\<lambda>_. True))) (bnd (gets getVatIds) (\<lambda>vs. forEach vs expectClose))"

section \<open>The start of a vat\<close>

text \<open>\<open>#startVat\<close>, giving the number of the start.\<close>

definition startVat :: "'m platform \<Rightarrow> 'm vat_manager vat_host \<Rightarrow> string \<Rightarrow> string \<Rightarrow> ('m vkq, nat) sm" where
  "startVat P V v config = bnd (gets (hasVat v)) (\<lambda>has. bnd (gets (\<lambda>k. nextStart (vm k))) (\<lambda>n.
     thn (require (\<not> has) (JsError ''Vat already exists.'' [v]))
       (thn (onVm (\<lambda>m. m\<lparr>nextStart := Suc n, startOf := obj_put v n (startOf m)\<rparr>))
         (thn (launchWorker P v config)
           (thn (tryCatch
               (thn (makeVatHandle V v config)
                 (bnd (gets (\<lambda>k. map_of (lostStarts (vm k)) n)) (\<lambda>lost.
                   case lost of None \<Rightarrow> ret () | Some e \<Rightarrow> thn (closeVat v True (Some e)) (fail e))))
               (\<lambda>e. thn (stopWorker v) (fail e)))
             (bnd (gets (\<lambda>k. workersStopping (vm k))) (\<lambda>stopping.
               thn (onVm (startedHandles_update (set_add n)))
                 (thn (whenM stopping (expectClose v))
                   (thn (onVm (vats_update (obj_put v n))) (ret n))))))))))"

definition runVat :: "'m platform \<Rightarrow> 'm vat_manager vat_host \<Rightarrow> string \<Rightarrow> string \<Rightarrow> ('m vkq, unit) sm" where
  "runVat P V v config = bnd (startVat P V v config) (\<lambda>_. ret ())"

text \<open>\<open>#relaunchVat\<close>\<close>

definition relaunchVat :: "'m platform \<Rightarrow> 'm vat_manager vat_host \<Rightarrow> string \<Rightarrow> string \<Rightarrow> ('m vkq, nat) sm" where
  "relaunchVat P V v config = bnd (gets (\<lambda>k. hasVat v k \<or> startsInTime P v k)) (\<lambda>inTime.
     if inTime then startVat P V v config
     else thn (stopWorker v) (fail (JsError ''Vat did not start in time'' [v])))"

definition launchVat :: "'m platform \<Rightarrow> 'm vat_manager workers host \<Rightarrow> 'm vat_manager vat_host \<Rightarrow> string \<Rightarrow> string \<Rightarrow> string option \<Rightarrow> ('m vkq, string) sm" where
  "launchVat P H V config vatName subclusterId = bnd (onStore getNextVatId) (\<lambda>v.
     thn (case subclusterId of Some sid \<Rightarrow> whenM (sid \<noteq> '''') (onStore (addSubclusterVat sid vatName v)) | None \<Rightarrow> ret ())
       (thn (tryCatch
           (bnd (startVat P V v config) (\<lambda>n. bnd (gets (\<lambda>k. map_of (lostStarts (vm k)) n)) (\<lambda>lost.
             case lost of None \<Rightarrow> ret () | Some e \<Rightarrow> thn (stopWorker v) (fail e))))
           (\<lambda>e. fail (JsError ''Failed to launch vat'' [v, vatName])))
         (tryCatch
           (onStore (thn (initEndpoint v) (bnd (exportFromEndpoint v ROOT_OBJECT_VREF) (\<lambda>rootRef.
             thn (pinObject rootRef) (thn (setVatConfig v config) (ret rootRef))))))
           (\<lambda>e. thn (tryCatch (stopVat H v True None) (\<lambda>_. ret ())) (fail (JsError ''Failed to launch vat'' [v, vatName]))))))"

text \<open>A vat that will not start at boot is retired, its death written directly.\<close>

definition startPersistedVat :: "'m platform \<Rightarrow> 'm vat_manager workers host \<Rightarrow> 'm vat_manager vat_host \<Rightarrow> string \<Rightarrow> string \<Rightarrow> ('m vkq, unit) sm" where
  "startPersistedVat P H V v config = tryCatch (bnd (relaunchVat P V v config) (\<lambda>_. ret ())) (\<lambda>e.
     retireVat H v (''Vat '' @ v @ '' was terminated after its worker would not start: '' @ messageOf V e))"

text \<open>\<open>initializeAllVats\<close>. The starts overlap in the code; each writes of its own vat only.\<close>

definition initializeAllVats :: "'m platform \<Rightarrow> 'm vat_manager workers host \<Rightarrow> 'm vat_manager vat_host \<Rightarrow> ('m vkq, unit) sm" where
  "initializeAllVats P H V = bnd (onStore getAllVatRecords) (\<lambda>records.
     bnd (mapEach (\<lambda>(v, config). tryCatch (thn (startPersistedVat P H V v config) (ret [])) (\<lambda>e. ret [e])) records) (\<lambda>failures.
       case concat failures of [] \<Rightarrow> ret () | [e] \<Rightarrow> fail e
       | _ \<Rightarrow> fail (JsError ''Vats whose workers would not start could not be terminated'' [])))"

section \<open>Queued requests\<close>

text \<open>\<open>performVatTermination\<close>: the teardown's failure is told to the callers, not thrown.\<close>

definition endTermination :: "string \<Rightarrow> nat list \<Rightarrow> kerror option \<Rightarrow> ('m vkq, unit) sm" where
  "endTermination v taken failure =
     thn (onVm (pendingTerminations_update (\<lambda>ps.
         case map_of ps v of Some n \<Rightarrow> if n > 1 then obj_put v (n - 1) ps else obj_del v ps | None \<Rightarrow> obj_del v ps)))
       (bnd (takeSupersededRestarts v) (\<lambda>superseded.
         thn (answerOnceCrankEnds taken (case failure of None \<Rightarrow> Settled | Some e \<Rightarrow> Threw e))
           (answerOnceCrankEnds superseded (Threw (case failure of None \<Rightarrow> vat_deleted v
              | Some _ \<Rightarrow> JsError ''Restart of vat was overtaken by a termination that failed'' [v])))))"

definition performVatTermination :: "'m vat_manager workers host \<Rightarrow> string \<Rightarrow> capdata option \<Rightarrow> ('m vkq, 'm vat_manager workers crank_result option) sm" where
  "performVatTermination H v reason = bnd (takeTerminationWaiters v) (\<lambda>taken. bnd (gets (isVatKnown v)) (\<lambda>known.
     if \<not> known then thn (endTermination v taken None) (ret None)
     else bnd (tryCatch (thn (stopVat H v True reason) (ret None)) (\<lambda>e. ret (Some (JsError ''Termination of vat failed'' [v])))) (\<lambda>failure.
       thn (endTermination v taken failure)
         (ret (Some \<lparr>didDelivery = None, abort = False, terminate = None, irrevocable = True, afterCommit = None\<rparr>)))))"

text \<open>\<open>#failRestart\<close>: the run loop rolls back, then terminates the vat.\<close>

definition failRestart :: "'m vat_manager workers host \<Rightarrow> 'm vat_manager vat_host \<Rightarrow> string \<Rightarrow> nat list \<Rightarrow> bool \<Rightarrow> kerror \<Rightarrow>
    ('m vkq, 'm vat_manager workers crank_result option) sm" where
  "failRestart H V v taken lost e =
     (let why = ''Vat '' @ v @ '' was terminated after its restart failed: '' @ (if lost then causeMessage V e else messageOf V e) in
      thn (answerOnceCrankEnds taken (Threw (JsError why [])))
        (ret (Some \<lparr>didDelivery = None, abort = True,
           terminate = Some (v, True, if lost then lostVatReason H V v e else makeFatalKernelError H ''INTERNAL_ERROR'' why),
           irrevocable = False, afterCommit = None\<rparr>)))"

text \<open>\<open>harden({ afterCommit: async () => taken.answer(outcome) })\<close>\<close>

definition answerAfterCommit :: "nat list \<Rightarrow> answer \<Rightarrow> ('h kq, 'h crank_result option) sm" where
  "answerAfterCommit taken a = ret (Some \<lparr>didDelivery = None, abort = False, terminate = None, irrevocable = False,
     afterCommit = Some (answerNow taken a)\<rparr>)"

definition performVatRestart :: "'m platform \<Rightarrow> 'm vat_manager workers host \<Rightarrow> 'm vat_manager vat_host \<Rightarrow> string \<Rightarrow>
    ('m vkq, 'm vat_manager workers crank_result option) sm" where
  "performVatRestart P H V v = bnd (takeRestartWaiters v) (\<lambda>taken. bnd (gets (isVatKnown v)) (\<lambda>known.
     if taken = [] then ret None
     else if \<not> known then answerAfterCommit taken (Threw (vat_deleted v))
     else bnd (tryCatch
         (bnd (gets (\<lambda>k. if hasVat v k then Some (vatConfigOf (vatHandle v k)) else None)) (\<lambda>old.
           bnd (case old of Some c \<Rightarrow> ret c | None \<Rightarrow> onStore (getVatConfig v)) (\<lambda>config.
             thn (whenM (old \<noteq> None) (stopVat H v False None))
               (bnd (relaunchVat P V v config) (\<lambda>n. ret (Inr n))))))
         (\<lambda>e. ret (Inl e))) (\<lambda>running.
       bnd (gets (\<lambda>k. isVatActive v (kst k))) (\<lambda>active. bnd (gets (hasVat v)) (\<lambda>has.
         if \<not> active
         then thn (if has then stopVatFor H v (Some (''Vat was deleted.'', vat_deleted v)) else onStore (deleteVat v))
           (answerAfterCommit taken (Threw (vat_deleted v)))
         else (case running of
             Inl e \<Rightarrow> failRestart H V v taken (isStreamReadError e) e
           | Inr n \<Rightarrow> bnd (gets (\<lambda>k. map_of (lostStarts (vm k)) n)) (\<lambda>lost. case lost of
               Some e \<Rightarrow> failRestart H V v taken (isStreamReadError e) e
             | None \<Rightarrow> thn (getVat v) (answerAfterCommit taken Settled))))))))"

section \<open>All vats\<close>

definition reapVats :: "(string \<Rightarrow> bool) \<Rightarrow> ('m vkq, unit) sm" where
  "reapVats chosen = bnd (gets (\<lambda>k. filter chosen (getVatIds k))) (\<lambda>vs. forEach vs (\<lambda>v. onStore (scheduleReap v)))"

text \<open>\<open>while (nextTerminatedVatCleanup())\<close>: each turn ends a vat, so that one more than there are is enough.\<close>

primrec cleanupTerminatedVats :: "nat \<Rightarrow> unit store" where
  "cleanupTerminatedVats 0 = ret ()"
| "cleanupTerminatedVats (Suc n) = bnd nextTerminatedVatCleanup (\<lambda>more. if more then cleanupTerminatedVats n else ret ())"

definition collectVatGarbage :: "('m vkq, unit) sm" where
  "collectVatGarbage = bnd (gets (\<lambda>k. length (getTerminatedVats (kst k)))) (\<lambda>n.
     thn (onStore (cleanupTerminatedVats (Suc n))) (onStore collectGarbage))"

definition terminateAllVats :: "'m vat_manager workers host \<Rightarrow> ('m vkq, unit) sm" where
  "terminateAllVats H = bnd (gets (\<lambda>k. getVatIds k @ filter (\<lambda>v. v \<notin> set (getVatIds k)) (getVatIDs (kst k)))) (\<lambda>vs.
     forEach (rev vs) (\<lambda>v. bnd (gets (isVatKnown v)) (\<lambda>known.
       if \<not> known then ret () else thn (stopVat H v True None) collectVatGarbage)))"

section \<open>The manager's part in the kernel\<close>

text \<open>How \<open>Kernel.ts\<close> wires the manager: the queue's \<open>terminateVat\<close>, the router's restarts and terminations, a handle's \<open>onStreamFailure\<close>.\<close>

definition managedVats :: "'m vat_manager workers host \<Rightarrow> 'm vat_manager vat_host \<Rightarrow> 'm vat_manager vat_host" where
  "managedVats H V = V\<lparr>onStreamFailure := reportLostVat H V\<rparr>"

definition kernelQueueHost :: "'m vat_manager workers host \<Rightarrow> 'm vat_manager workers host" where
  "kernelQueueHost H = H\<lparr>terminateVat := (\<lambda>v reason. stopVat H v True reason)\<rparr>"

definition managedRouter :: "'m platform \<Rightarrow> 'm vat_manager workers host \<Rightarrow> 'm vat_manager vat_host \<Rightarrow>
    'm vat_manager workers router \<Rightarrow> 'm vat_manager workers router" where
  "managedRouter P H V R = R\<lparr>restartVat := performVatRestart P H V, endVat := performVatTermination H\<rparr>"


section \<open>The death of a vat\<close>

text \<open>What a promise, its queue and the run queue are kept in.\<close>

abbreviation promise_part :: "ctx \<Rightarrow> _" where
  "promise_part s \<equiv> (pstates (db s), pvalues (db s), pdeciders (db s), psubscribers (db s), clists (db s), crankBuffer s,
     (qheads (db s), qtails (db s), qentries (db s), rqHead s, rqTail s, runQueueLengthCache s))"

lemma promise_part_promises:
  assumes "promise_part u = promise_part t"
  shows "unsettled p u = unsettled p t" and "Promises.settled p st w u = Promises.settled p st w t" and "decider_of p u = decider_of p t"
    and "queue_items p u = queue_items p t" and "run_queue_ok u = run_queue_ok t" and "run_queue_items u = run_queue_items t"
    and "psubscribers (db u) = psubscribers (db t)" and "clists (db u) = clists (db t)" and "crankBuffer u = crankBuffer t"
proof -
  have eq: "pstates (db u) = pstates (db t)" "pvalues (db u) = pvalues (db t)" "pdeciders (db u) = pdeciders (db t)"
    "psubscribers (db u) = psubscribers (db t)" "qheads (db u) = qheads (db t)" "qtails (db u) = qtails (db t)"
    "qentries (db u) = qentries (db t)" "rqHead u = rqHead t" "rqTail u = rqTail t" "runQueueLengthCache u = runQueueLengthCache t"
    using assms by simp_all
  show items: "queue_items p u = queue_items p t" for p unfolding queue_items_def eq ..
  have ok: "queue_ok b p u = queue_ok b p t" for b p unfolding queue_ok_def eq ..
  show "unsettled p u = unsettled p t" unfolding unsettled_def eq items ok ..
  show "Promises.settled p st w u = Promises.settled p st w t" unfolding Promises.settled_def eq ..
  show "decider_of p u = decider_of p t" unfolding decider_of_def eq ..
  show "run_queue_ok u = run_queue_ok t" unfolding run_queue_ok_def eq items ok ..
  show "run_queue_items u = run_queue_items t" unfolding run_queue_items_def items ..
qed (use assms in simp_all)

lemma let_down_later:
  assumes "let_down failure P s t" and "promise_part u = promise_part t" and "\<And>j. live j t \<Longrightarrow> live j u"
  shows "let_down failure P s u"
  using assms(1) unfolding let_down_def promise_part_promises [OF assms(2)] using assms(3) by simp

lemma let_downD:
  assumes "let_down failure P s t" and "P p"
  shows "Promises.settled p Rejected failure t" and "i \<in> set (set_off s p) \<Longrightarrow> i \<in> set (run_queue_items t)"
proof -
  show "Promises.settled p Rejected failure t" using assms by (simp add: let_down_def)
  obtain ps where ps: "\<And>p. p \<in> set ps \<longleftrightarrow> P p" "run_queue_items t = run_queue_items s @ concat (map (set_off s) ps)"
    using assms(1) by (auto simp: let_down_def)
  have "p \<in> set ps" using ps(1) assms(2) by blast
  then show "i \<in> set (set_off s p) \<Longrightarrow> i \<in> set (run_queue_items t)" unfolding ps(2) by auto
qed

lemma refused_later:
  assumes "refused_callers failure P k k1" and "run_queue_items s = run_queue_items (kst k1)"
  shows "refused_callers failure P k (k1\<lparr>kst := s\<rparr>)"
proof -
  have "k1 = k\<lparr>kst := kst k1, subscriptions := subscriptions k1, answers := answers k1, asleep := asleep k1\<rparr>"
    using assms(1) unfolding refused_callers_def by blast
  then have "k1\<lparr>kst := s\<rparr> = k\<lparr>kst := s, subscriptions := subscriptions k1, answers := answers k1, asleep := asleep k1\<rparr>"
    by (cases k, cases k1) simp
  then show ?thesis using assms unfolding refused_callers_def by simp
qed

text \<open>The rows the counts depend on, that the death of a vat leaves alone once its root is unpinned.\<close>

abbreviation count_part :: "ctx \<Rightarrow> _" where
  "count_part s \<equiv> (refCounts (db s), pinned (db s), gc_action_list s)"

lemma credits_same: "promise_part t = promise_part s \<Longrightarrow> count_part t = count_part s \<Longrightarrow> credits t = credits s"
  by (simp add: credits_def)

lemma part_markVat [frames]: "spares (\<lambda>s. (promise_part s, count_part s)) (markVatAsTerminated v)"
  unfolding markVatAsTerminated_def by (intro frames; auto simp: gc_action_list_def)

lemma part_saveSubclusters [frames]: "spares (\<lambda>s. (promise_part s, count_part s, getTerminatedVats s)) (saveAllSubclustersToStorage cs)"
  "spares (\<lambda>s. (promise_part s, count_part s, getTerminatedVats s)) (saveVatToSubclusterMapToStorage m)"
  unfolding saveAllSubclustersToStorage_def saveVatToSubclusterMapToStorage_def
  by (intro frames; auto simp: gc_action_list_def getTerminatedVats_def)+

lemma part_deleteVat [frames]: "spares (\<lambda>s. (promise_part s, count_part s, getTerminatedVats s)) (deleteVat v)"
  unfolding deleteVat_def deleteVatStore_def deleteVatConfig_def removeVatFromSubcluster_def deleteSubclusterVat_def
  by (intro frames; auto simp: gc_action_list_def getTerminatedVats_def)

lemma removeVatFromSubcluster_run: "\<exists>s'. removeVatFromSubcluster v s = (Inr (), s')"
  by (cases "map_of (getVatToSubclusterMap s) v")
    (auto simp: removeVatFromSubcluster_def deleteSubclusterVat_def saveAllSubclustersToStorage_def saveVatToSubclusterMapToStorage_def
      thn_run bnd_run split: option.splits)

lemma deleteVat_run: "\<exists>s'. deleteVat v s = (Inr (), s') \<and> \<not> isVatActive v s'"
proof -
  let ?t = "snd (deleteVatStore v s)"
  obtain u where "removeVatFromSubcluster v ?t = (Inr (), u)" using removeVatFromSubcluster_run by blast
  then show ?thesis by (simp add: deleteVat_def deleteVatStore_def deleteVatConfig_def thn_run isVatActive_def)
qed

lemma part_decrement: 
  assumes "decrementRefCount k a b s = (r, s')"
  shows "promise_part s' = promise_part s" and "getTerminatedVats s' = getTerminatedVats s"
  by (rule same_but_countsD [OF counts_onlyD [OF counts_only_decrement assms]]; simp add: without_counts_def getTerminatedVats_def)+


lemma part_decrement_spares [frames]: "spares (\<lambda>s. (promise_part s, getTerminatedVats s, live j s)) (decrementRefCount k a b)"
proof (rule sparesI)
  fix s r s' assume run: "decrementRefCount k a b s = (r, s')"
  then show "(promise_part s', getTerminatedVats s', live j s') = (promise_part s, getTerminatedVats s, live j s)"
    using part_decrement [OF run] live_sameD [OF live_same_decrement run] by simp
qed

lemma part_unpinObject [frames]: "spares (\<lambda>s. (promise_part s, getTerminatedVats s, live j s)) (unpinObject k)"
  unfolding unpinObject_def by (intro frames; auto simp: getTerminatedVats_def live_def)

text \<open>One pin of the root, if it has a root.\<close>

definition root_pin :: "string \<Rightarrow> ctx \<Rightarrow> string \<Rightarrow> nat" where
  "root_pin v s r = (if truthy (getRootObject v s) \<and> getRootObject v s = Some r then 1 else 0)"

lemma releaseVatRootPin_run:
  assumes a: "acct M s"
  shows "\<exists>s'. releaseVatRootPin v s = (Inr (), s') \<and> acct M s' \<and> promise_part s' = promise_part s \<and>
    getTerminatedVats s' = getTerminatedVats s \<and> (\<forall>j. live j s' = live j s) \<and>
    (\<forall>r. getPinCount r s' = getPinCount r s - root_pin v s r)"
proof (cases "truthy (getRootObject v s) \<and> getPinCount (the (getRootObject v s)) s > 0")
  case True
  then obtain k where k: "getRootObject v s = Some k" "getPinCount k s > 0" by (cases "getRootObject v s") (auto simp: truthy_def)
  obtain s' where s': "unpinObject k s = (Inr (), s')" "acct M s'"
    "pinned (db s') = (if getPinCount k s = 1 then tdel k (pinned (db s)) else tput k (getPinCount k s - 1) (pinned (db s)))"
    using unpinObject_run [OF a k(2)] by blast
  have "(promise_part s', getTerminatedVats s', live j s') = (promise_part s, getTerminatedVats s, live j s)" for j
    using sparesD [OF part_unpinObject s'(1)] .
  moreover have "getPinCount r s' = getPinCount r s - root_pin v s r" for r
    using s'(3) True k by (auto simp: getPinCount_def root_pin_def split: if_splits option.splits)
  moreover have "releaseVatRootPin v s = (Inr (), s')" using True k s'(1) by (simp add: releaseVatRootPin_def bnd_run)
  ultimately show ?thesis using s'(2) by (intro exI [of _ s']) auto
next
  case False
  then have "releaseVatRootPin v s = (Inr (), s)" by (auto simp: releaseVatRootPin_def bnd_run unpinObject_def)
  moreover have "getPinCount r s = getPinCount r s - root_pin v s r" for r
    using False by (auto simp: root_pin_def)
  ultimately show ?thesis using a by (intro exI [of _ s]) auto
qed

lemma markVat_run: "\<exists>s'. markVatAsTerminated v s = (Inr (), s') \<and> isVatTerminated v s'"
  by (auto simp: markVatAsTerminated_def isVatTerminated_def getTerminatedVats_def bnd_run)

lemma count_part_pins: "count_part t = count_part s \<Longrightarrow> getPinCount r t = getPinCount r s" "count_part t = count_part s \<Longrightarrow> live j t = live j s"
  by (simp_all add: getPinCount_def live_def)

text \<open>The last of a vat's rows.\<close>

lemma deleteVat_whole:
  assumes "acct M s"
  shows "\<exists>s'. deleteVat v s = (Inr (), s') \<and> acct M s' \<and> \<not> isVatActive v s' \<and> promise_part s' = promise_part s \<and> count_part s' = count_part s \<and>
    getTerminatedVats s' = getTerminatedVats s"
proof -
  obtain s' where s': "deleteVat v s = (Inr (), s')" "\<not> isVatActive v s'" using deleteVat_run by blast
  have part: "(promise_part s', count_part s', getTerminatedVats s') = (promise_part s, count_part s, getTerminatedVats s)"
    by (rule sparesD [OF part_deleteVat s'(1)])
  then have "credits s' = credits s" by (intro credits_same) simp_all
  then have "acct M s'" using acct_same_rows [of s' s M M] part assms by simp
  then show ?thesis using s' part by blast
qed


lemma managers_rejectSlots [frames]: "spares managers (rejectSlots ep failure erefs)"
  by (induction erefs) (unfold rejectSlots.simps, (intro frames; (assumption | auto)?)+)

lemma managers_rejectDecided [frames]: "spares managers (rejectDecidedPromises ep failure)"
  unfolding rejectDecidedPromises_def by (intro frames)

lemma onVm_run [simp]: "onVm f k = (Inr (), k\<lparr>managers := (managers k)\<lparr>elsewhere := f (elsewhere (managers k))\<rparr>\<rparr>)"
  by (simp add: onVm_def)

text \<open>
  C5. The death of a vat written down: every promise it was to decide, and no other, is rejected with the reason. The run queue gains at
  once, for each of them, a notification for each subscriber and the messages that waited on it, in order, and nothing else; the kernel
  callers waiting for them are refused, and no others. No count goes wrong, and the vat is neither running nor persisted. A second
  telling changes no promise, no pin and not the run queue.
\<close>

theorem retireVat_lets_down:
  fixes k :: "'m vkq"
  assumes slots: "promise_slots_ok v (endpoint_slots v (kst k)) (kst k)" and rq: "run_queue_ok (kst k)" and a: "acct M (kst k)"
    and err: "slots (makeKernelError H ''VAT_TERMINATED'' why) = []"
  shows "\<exists>k'. retireVat H v why k = (Inr (), k') \<and> acct M (kst k') \<and> \<not> isVatKnown v k' \<and> isVatTerminated v (kst k') \<and>
    (if isVatTerminated v (kst k)
     then promise_part (kst k') = promise_part (kst k) \<and> (\<forall>r. getPinCount r (kst k') = getPinCount r (kst k))
     else let_down (makeKernelError H ''VAT_TERMINATED'' why) (decides v (endpoint_slots v (kst k)) (kst k)) (kst k) (kst k') \<and>
       refused_callers (makeKernelError H ''VAT_TERMINATED'' why) (decides v (endpoint_slots v (kst k)) (kst k)) (k\<lparr>managers := managers k'\<rparr>) k')"
proof -
  define k0 where "k0 = snd (onVm (vats_update (obj_del v)) k)"
  have kst0: "kst k0 = kst k" and gone: "\<not> hasVat v k0" by (simp_all add: k0_def hasVat_def vm_def)
  have known: "isVatKnown v k2 \<longleftrightarrow> isVatActive v (kst k2)" if "managers k2 = managers k0" for k2 :: "'m vkq"
    using gone that by (simp add: isVatKnown_def hasVat_def vm_def)
  show ?thesis
  proof (cases "isVatTerminated v (kst k)")
    case True
    obtain s' where s': "deleteVat v (kst k) = (Inr (), s')" "acct M s'" "\<not> isVatActive v s'" "promise_part s' = promise_part (kst k)"
      "count_part s' = count_part (kst k)" "getTerminatedVats s' = getTerminatedVats (kst k)"
      using deleteVat_whole [OF a] by blast
    have "retireVat H v why k = (Inr (), k0\<lparr>kst := s'\<rparr>)"
      using s'(1) True by (simp add: retireVat_def thn_run bnd_run onStore_def k0_def)
    moreover have "\<not> isVatKnown v (k0\<lparr>kst := s'\<rparr>)" using known [of "k0\<lparr>kst := s'\<rparr>"] s'(3) by simp
    moreover have "isVatTerminated v s'" using True s'(6) by (simp add: isVatTerminated_def)
    moreover have "getPinCount r s' = getPinCount r (kst k)" for r by (rule count_part_pins [OF s'(5)])
    ultimately show ?thesis using True s'(2,4) by (intro exI [of _ "k0\<lparr>kst := s'\<rparr>"]) simp
  next
    case False
    let ?e = "makeKernelError H ''VAT_TERMINATED'' why" and ?P = "decides v (endpoint_slots v (kst k)) (kst k)"
    obtain kr where t': "rejectDecidedPromises v ?e k0 = (Inr (), kr)" "acct M (kst kr)" "let_down ?e ?P (kst k) (kst kr)"
      "refused_callers ?e ?P k0 kr"
      using rejectDecidedPromises_run [of v k0 M ?e] slots rq a err unfolding kst0 by blast
    define t where "t = kst kr"
    note t = t'(1,2,3) [folded t_def]
    have mr: "managers kr = managers k0"
    proof -
      have "kr = k0\<lparr>kst := kst kr, subscriptions := subscriptions kr, answers := answers kr, asleep := asleep kr\<rparr>"
        using t'(4) unfolding refused_callers_def by blast
      from arg_cong [OF this, of managers] show ?thesis by simp
    qed
    obtain t1 where t1: "releaseVatRootPin v t = (Inr (), t1)" "acct M t1" "promise_part t1 = promise_part t" "\<forall>j. live j t1 = live j t"
      using releaseVatRootPin_run [OF t(2)] by blast
    obtain t2 where t2: "markVatAsTerminated v t1 = (Inr (), t2)" "isVatTerminated v t2" using markVat_run by blast
    have part2: "(promise_part t2, count_part t2) = (promise_part t1, count_part t1)" by (rule sparesD [OF part_markVat t2(1)])
    then have "credits t2 = credits t1" by (intro credits_same) simp_all
    then have a2: "acct M t2" using acct_same_rows [of t2 t1 M M] part2 t1(2) by simp
    obtain s' where s': "deleteVat v t2 = (Inr (), s')" "acct M s'" "\<not> isVatActive v s'" "promise_part s' = promise_part t2"
      "count_part s' = count_part t2" "getTerminatedVats s' = getTerminatedVats t2"
      using deleteVat_whole [OF a2] by blast
    let ?k = "kr\<lparr>kst := s'\<rparr>"
    have "retireVat H v why k = (Inr (), ?k)"
      using t(1) t1(1) t2(1) s'(1) False kst0 by (simp add: retireVat_def thn_run bnd_run onStore_def k0_def t_def)
    moreover have "\<not> isVatKnown v ?k" using known [of ?k] s'(3) mr by simp
    moreover have "isVatTerminated v s'" using t2(2) s'(6) by (simp add: isVatTerminated_def)
    moreover have "let_down ?e ?P (kst k) s'"
    proof (rule let_down_later [OF t(3)])
      show "promise_part s' = promise_part t" using s'(4) part2 t1(3) by simp
      show "live j t \<Longrightarrow> live j s'" for j using count_part_pins(2) [OF s'(5)] count_part_pins(2) [of t2 t1 j] part2 t1(4) by simp
    qed
    moreover have "refused_callers ?e ?P (k\<lparr>managers := managers ?k\<rparr>) ?k"
    proof -
      have "promise_part s' = promise_part t" using s'(4) part2 t1(3) by simp
      then have "run_queue_items s' = run_queue_items (kst kr)" unfolding t_def by (rule promise_part_promises(6))
      moreover have "k\<lparr>managers := managers ?k\<rparr> = k0" using mr by (simp add: k0_def)
      ultimately show ?thesis using refused_later [OF t'(4)] by simp
    qed
    ultimately show ?thesis using False s'(2) by (intro exI [of _ ?k]) simp
  qed
qed


text \<open>A vat \<open>v2\<close> that decides \<open>kp1\<close>, which \<open>v1\<close> waits for.\<close>

definition demo_doomed :: ctx where
  "demo_doomed = snd (addCListEntry ''v2'' ''kp1'' ''p+1'' demo_decided)"

lemma demo_doomed_facts:
  "acct {#} demo_doomed" "run_queue_ok demo_doomed" "promise_slots_ok ''v2'' (endpoint_slots ''v2'' demo_doomed) demo_doomed"
  "decides ''v2'' (endpoint_slots ''v2'' demo_doomed) demo_doomed ''kp1''" "tget (psubscribers (db demo_doomed)) ''kp1'' = Some [''v1'']"
  "\<not> isVatTerminated ''v2'' demo_doomed"
proof -
  have cl: "clists (db demo_decided) = tempty" using demo_promise_facts(6) by (simp add: demo_decided_def)
  have lv: "live ''kp1'' demo_decided" using demo_promise_facts(5) by (simp add: demo_decided_def live_def)
  have gc: "\<not> retiring (gc_action_list demo_decided) ''v2'' ''kp1''"
    unfolding demo_decided_def demo_promise_def initKernelPromise_def getNextPromiseId_def makeKernelStore_fresh
    by (simp add: gc_action_list_def retiring_def incCounter_def provideStoredQueue_def thn_run bnd_run init_cached_rows_def init_row_def empty_kdb_def)
  have ids: "isEndpointId ''v2''" "isKRef ''kp1''" "isERef ''p+1''" "eref_promise ''p+1'' = isPromiseRef ''kp1''" "isPromiseERef ''p+1''" "\<not> isPromiseERef ''kp1''"
    by code_simp+
  obtain s where s: "addCListEntry ''v2'' ''kp1'' ''p+1'' demo_decided = (Inr (), s)" "acct {#} s"
    "same_but_counts (put_entry_rows ''v2'' ''kp1'' (eref_exports ''p+1'') ''p+1'' demo_decided) s"
    using addCListEntry_run [OF ids(1-4) _ _ gc demo_decided_facts(6) lv] cl by (auto simp: has_def)
  have d: "demo_doomed = s" using s(1) by (simp add: demo_doomed_def)
  let ?t = "put_entry_rows ''v2'' ''kp1'' (eref_exports ''p+1'') ''p+1'' demo_decided"
  have part: "promise_part s = promise_part ?t" by (rule same_but_countsD [OF s(3)]) (simp add: without_counts_def)
  have rows: "pstates (db s) = pstates (db demo_decided)" "pvalues (db s) = pvalues (db demo_decided)"
    "pdeciders (db s) = pdeciders (db demo_decided)" "psubscribers (db s) = psubscribers (db demo_decided)"
    "qheads (db s) = qheads (db demo_decided)" "qtails (db s) = qtails (db demo_decided)" "qentries (db s) = qentries (db demo_decided)"
    "rqHead s = rqHead demo_decided" "rqTail s = rqTail demo_decided" "runQueueLengthCache s = runQueueLengthCache demo_decided"
    "crankBuffer s = crankBuffer demo_decided"
    using part by (simp_all add: put_entry_rows_def set_flag_def)
  have entries: "clists (db s) = tput (''v2'', ''p+1'') ''kp1'' (tput (''v2'', ''kp1'') (buildReachableAndVatSlot (eref_exports ''p+1'') ''p+1'') tempty)"
    using part cl by (simp add: put_entry_rows_def set_flag_def)
  have q: "queue_ok b p s = queue_ok b p demo_decided" "queue_items p s = queue_items p demo_decided" for b p
    unfolding queue_ok_def queue_items_def rows by (rule refl)+
  have un: "unsettled ''kp1'' s" using demo_decided_facts(1) unfolding unsettled_def rows q .
  show "acct {#} demo_doomed" using s(2) d by simp
  show "run_queue_ok demo_doomed" using demo_decided_facts(5) unfolding d run_queue_ok_def rows q .
  show "tget (psubscribers (db demo_doomed)) ''kp1'' = Some [''v1'']" using demo_decided_facts(3) unfolding d rows .
  have "getTerminatedVats s = getTerminatedVats ?t"
    by (rule same_but_countsD [OF s(3)]) (simp add: without_counts_def getTerminatedVats_def)
  also have "\<dots> = getTerminatedVats demo_decided" by (simp add: put_entry_rows_def set_flag_def getTerminatedVats_def)
  also have "\<dots> = []"
    unfolding demo_decided_def demo_promise_def initKernelPromise_def getNextPromiseId_def makeKernelStore_fresh
    by (simp add: getTerminatedVats_def incCounter_def provideStoredQueue_def thn_run bnd_run init_cached_rows_def init_row_def empty_kdb_def)
  finally show "\<not> isVatTerminated ''v2'' demo_doomed" by (simp add: d isVatTerminated_def)
  have slots: "slot \<in> set (endpoint_slots ''v2'' s) \<longleftrightarrow> slot = ''p+1'' \<or> slot = ''kp1''" for slot
    unfolding endpoint_slots_mem by (auto simp: entries has_def)
  show "promise_slots_ok ''v2'' (endpoint_slots ''v2'' demo_doomed) demo_doomed"
    unfolding d promise_slots_ok_def Ball_def slots using un ids by (auto simp: entries)
  have "decider_of ''kp1'' s = Some ''v2''" using demo_decided_facts(2) unfolding decider_of_def rows .
  moreover have mem: "''p+1'' \<in> set (endpoint_slots ''v2'' s)" by (simp only: slots simp_thms)
  moreover have "tget (clists (db s)) (''v2'', ''p+1'') = Some ''kp1''" by (simp add: entries)
  ultimately show "decides ''v2'' (endpoint_slots ''v2'' demo_doomed) demo_doomed ''kp1''"
    unfolding d decides_def using un ids(5) by blast
qed

definition demo_vat_host :: "unit vat_manager workers host" where
  "demo_vat_host = \<lparr>database = demo_db True, kserError = (\<lambda>m. \<lparr>body = m, slots = []\<rparr>), terminateVat = (\<lambda>v r. ret ())\<rparr>"

theorem retireVat_lets_down_witness:
  "\<exists>k k' :: unit vkq. retireVat demo_vat_host ''v2'' ''gone'' k = (Inr (), k') \<and> acct {#} (kst k') \<and> isVatTerminated ''v2'' (kst k') \<and>
    unsettled ''kp1'' (kst k) \<and> \<not> unsettled ''kp1'' (kst k') \<and> Notify ''v1'' ''kp1'' \<in> set (run_queue_items (kst k'))"
proof -
  obtain k :: "unit vkq" where k: "kst k = demo_doomed"
    by (rule that [of "makeKernelQueue demo_doomed \<lparr>vatOf = (\<lambda>v. newVatHandle v ''{}''), elsewhere = makeVatManager ()\<rparr>"])
      (simp add: makeKernelQueue_def)
  let ?e = "makeKernelError demo_vat_host ''VAT_TERMINATED'' ''gone''"
  have h: "promise_slots_ok ''v2'' (endpoint_slots ''v2'' (kst k)) (kst k)" "run_queue_ok (kst k)" "acct {#} (kst k)"
    using demo_doomed_facts(1-3) unfolding k by simp_all
  have err: "slots ?e = []" by (simp add: makeKernelError_def demo_vat_host_def)
  from retireVat_lets_down [OF h err]
  obtain k' where k': "retireVat demo_vat_host ''v2'' ''gone'' k = (Inr (), k')" "acct {#} (kst k')" "isVatTerminated ''v2'' (kst k')"
    and r: "if isVatTerminated ''v2'' (kst k) then promise_part (kst k') = promise_part (kst k) \<and> (\<forall>r. getPinCount r (kst k') = getPinCount r (kst k))
      else let_down ?e (decides ''v2'' (endpoint_slots ''v2'' (kst k)) (kst k)) (kst k) (kst k') \<and>
        refused_callers ?e (decides ''v2'' (endpoint_slots ''v2'' (kst k)) (kst k)) (k\<lparr>managers := managers k'\<rparr>) k'"
    by (elim exE conjE) (rule that)
  let ?P = "decides ''v2'' (endpoint_slots ''v2'' demo_doomed) demo_doomed"
  have ld: "let_down ?e ?P demo_doomed (kst k')" using r demo_doomed_facts(6) unfolding k by simp
  then have settled: "Promises.settled ''kp1'' Rejected ?e (kst k')" using demo_doomed_facts(4) by (rule let_downD(1))
  have "Notify ''v1'' ''kp1'' \<in> set (set_off demo_doomed ''kp1'')" using demo_doomed_facts(5) by (simp add: set_off_def)
  then have "Notify ''v1'' ''kp1'' \<in> set (run_queue_items (kst k'))" by (rule let_downD(2) [OF ld demo_doomed_facts(4)])
  moreover have "unsettled ''kp1'' demo_doomed" using demo_doomed_facts(4) by (simp add: decides_def)
  moreover have "\<not> unsettled ''kp1'' (kst k')" using settled by (auto simp: Promises.settled_def unsettled_def)
  ultimately show ?thesis using k' k by (intro exI [of _ k] exI [of _ k']) simp
qed


section \<open>A termination answers whoever asked\<close>

text \<open>Whatever becomes of the records, the handle is let go, the worker stopped and its calls rejected.\<close>

lemma retireVat_managers: "managers (snd (retireVat H v why k)) = (managers k)\<lparr>elsewhere := (elsewhere (managers k))\<lparr>vats := obj_del v (vats (vm k))\<rparr>\<rparr>"
proof -
  let ?m = "thn (bnd (gets (\<lambda>k. isVatTerminated v (kst k))) (\<lambda>terminated.
           if terminated then ret ()
           else thn (rejectDecidedPromises v (makeKernelError H ''VAT_TERMINATED'' why))
             (thn (onStore (releaseVatRootPin v)) (onStore (markVatAsTerminated v)))))
         (onStore (deleteVat v))"
  have "spares managers ?m" by (intro frames)
  then have m: "managers (snd (?m j)) = managers j" for j unfolding spares_def by blast
  let ?k = "k\<lparr>managers := (managers k)\<lparr>elsewhere := vats_update (obj_del v) (elsewhere (managers k))\<rparr>\<rparr>"
  have "retireVat H v why k = ?m ?k" unfolding retireVat_def thn_run [of "onVm f" for f] onVm_run by simp
  then show ?thesis using m [of ?k] by (simp add: vm_def)
qed

definition rejected :: "kerror \<Rightarrow> vat_handle \<Rightarrow> vat_handle" where
  "rejected e h = rpc_update (rejectAll e) (h\<lparr>closing := True\<rparr>)"

lemma stopVatFor_managers:
  assumes "isVatKnown v k" and "stopVatFor H v (Some (why, e)) k = (r, k')"
  shows "vm k' = (vm k)\<lparr>vats := obj_del v (vats (vm k)), workerStops := workerStops (vm k) @ [v]\<rparr>"
    and "hasVat v k \<Longrightarrow> unresolvedMessages (rpc (vatHandle v k')) = []"
proof -
  obtain q k1 where k1: "retireVat H v why k = (q, k1)" by fastforce
  have m: "managers k1 = (managers k)\<lparr>elsewhere := (elsewhere (managers k))\<lparr>vats := obj_del v (vats (vm k))\<rparr>\<rparr>"
    using retireVat_managers [of H v why k] k1 by simp
  let ?j = "k1\<lparr>managers := (managers k1)\<lparr>elsewhere := (elsewhere (managers k1))\<lparr>workerStops := workerStops (vm k1) @ [v]\<rparr>\<rparr>\<rparr>"
  have stopped: "stopWorker v k1 = (Inr (), ?j)" by (simp add: stopWorker_def vm_def)
  have closed: "closeVat v True (Some e) j = (Inr (), j\<lparr>managers := (managers j)\<lparr>vatOf := (vatOf (managers j))(v := (rejected e (vatOf (managers j) v)))\<rparr>\<rparr>)"
    for j :: "'m vkq" by (simp add: closeVat_def expectClose_def onVat_def thn_run rejected_def)
  have "k' = (if hasVat v k then snd (closeVat v True (Some e) ?j) else ?j)"
    using assms k1 stopped closed [of ?j] by (cases q) (auto simp: stopVatFor_def bnd_run thn_run tryCatch_def finish_def split: if_splits)
  then show "vm k' = (vm k)\<lparr>vats := obj_del v (vats (vm k)), workerStops := workerStops (vm k) @ [v]\<rparr>"
    and "hasVat v k \<Longrightarrow> unresolvedMessages (rpc (vatHandle v k')) = []"
    using m closed [of ?j] by (auto simp: vm_def vatHandle_def rejected_def rejectAll_def split: if_splits)
qed

lemma forEach_unregister: "forEach cs unregisterWaiter k = (Inr (), k\<lparr>pendingWorkWaiters := filter (\<lambda>c. c \<notin> set cs) (pendingWorkWaiters k)\<rparr>)"
  by (induction cs arbitrary: k) (simp_all add: unregisterWaiter_def thn_run conj_commute)

lemma answerOnceCrankEnds_run: "answerOnceCrankEnds cs a k = (Inr (), k\<lparr>pendingWorkWaiters := filter (\<lambda>c. c \<notin> set cs) (pendingWorkWaiters k),
    managers := (managers k)\<lparr>elsewhere := (vm k)\<lparr>answersDue := answersDue (vm k) @ [(cs, a)]\<rparr>\<rparr>\<rparr>)"
  by (simp add: answerOnceCrankEnds_def forEach_unregister thn_run vm_def)

lemma waiting_del [simp]: "waiting v (obj_del v w) = []"
  by (simp add: waiting_def)

text \<open>The end of a termination: \<open>taken\<close> are its callers.\<close>

lemma endTermination_run:
  "\<exists>k'. endTermination v taken failure k = (Inr (), k') \<and> waiting v (supersededRestarts (vm k')) = [] \<and>
    terminationWaiters (vm k') = terminationWaiters (vm k) \<and> vats (vm k') = vats (vm k) \<and> workerStops (vm k') = workerStops (vm k) \<and>
    vatOf (managers k') = vatOf (managers k) \<and>
    answersDue (vm k') = answersDue (vm k) @
      [(taken, case failure of None \<Rightarrow> Settled | Some e \<Rightarrow> Threw e),
       (waiting v (supersededRestarts (vm k)), Threw (case failure of None \<Rightarrow> vat_deleted v
          | Some _ \<Rightarrow> JsError ''Restart of vat was overtaken by a termination that failed'' [v]))] \<and>
    set (pendingWorkWaiters k') \<inter> set (taken @ waiting v (supersededRestarts (vm k))) = {}"
  by (auto simp: endTermination_def takeSupersededRestarts_def answerOnceCrankEnds_run thn_run bnd_run vm_def)

text \<open>
  C8. Carrying out a queued termination (\<open>performVatTermination\<close>) never throws. If the vat was known its handle is gone, its worker stopped, its calls rejected and
  the run loop told that the crank is not to be rolled back; and everyone who waited, for the termination or for a restart it overtook, has an answer due.
\<close>

theorem termination_answers_everyone:
  fixes k :: "'m vkq"
  shows "\<exists>failure k'. performVatTermination H v reason k =
      (Inr (if isVatKnown v k then Some \<lparr>didDelivery = None, abort = False, terminate = None, irrevocable = True, afterCommit = None\<rparr> else None), k') \<and>
    waiting v (terminationWaiters (vm k')) = [] \<and> waiting v (supersededRestarts (vm k')) = [] \<and>
    answersDue (vm k') = answersDue (vm k) @
      [(waiting v (terminationWaiters (vm k)), case failure of None \<Rightarrow> Settled | Some e \<Rightarrow> Threw e),
       (waiting v (supersededRestarts (vm k)), Threw (case failure of None \<Rightarrow> vat_deleted v
          | Some _ \<Rightarrow> JsError ''Restart of vat was overtaken by a termination that failed'' [v]))] \<and>
    (if isVatKnown v k then \<not> hasVat v k' \<and> workerStops (vm k') = workerStops (vm k) @ [v] \<and> (if hasVat v k then unresolvedMessages (rpc (vatHandle v k')) = [] else True)
     else failure = None) \<and>
    set (pendingWorkWaiters k') \<inter> set (waiting v (terminationWaiters (vm k)) @ waiting v (supersededRestarts (vm k))) = {}"
proof -
  let ?taken = "waiting v (terminationWaiters (vm k))" and ?super = "waiting v (supersededRestarts (vm k))"
  define k0 where "k0 = k\<lparr>managers := (managers k)\<lparr>elsewhere := (vm k)\<lparr>terminationWaiters := obj_del v (terminationWaiters (vm k))\<rparr>\<rparr>\<rparr>"
  have take: "takeTerminationWaiters v k = (Inr ?taken, k0)" by (simp add: takeTerminationWaiters_def k0_def bnd_run thn_run vm_def)
  have k0: "vm k0 = (vm k)\<lparr>terminationWaiters := obj_del v (terminationWaiters (vm k))\<rparr>" "isVatKnown v k0 = isVatKnown v k" "hasVat v k0 = hasVat v k"
    by (simp_all add: k0_def vm_def isVatKnown_def hasVat_def)
  show ?thesis
  proof (cases "isVatKnown v k")
    case False
    obtain k' where k': "endTermination v ?taken None k0 = (Inr (), k')" and rest: "waiting v (supersededRestarts (vm k')) = []"
      "terminationWaiters (vm k') = terminationWaiters (vm k0)"
      "answersDue (vm k') = answersDue (vm k0) @ [(?taken, Settled), (waiting v (supersededRestarts (vm k0)), Threw (vat_deleted v))]"
      "set (pendingWorkWaiters k') \<inter> set (?taken @ waiting v (supersededRestarts (vm k0))) = {}"
      using endTermination_run [of v ?taken None k0] by auto
    have "performVatTermination H v reason k = (Inr None, k')"
      using take k' False k0(2) by (simp add: performVatTermination_def bnd_run thn_run)
    then show ?thesis using rest False k0(1) by (intro exI [of _ None] exI [of _ k']) simp
  next
    case True
    define death where "death = (case reason of None \<Rightarrow> (''Vat was deleted.'', vat_deleted v)
      | Some r \<Rightarrow> (''Vat termination: '' @ body r, JsError (''Vat termination: '' @ body r) []))"
    obtain q k1 where k1: "stopVat H v True reason k0 = (q, k1)" by fastforce
    then have "stopVatFor H v (Some (fst death, snd death)) k0 = (q, k1)"
      by (auto simp: stopVat_def death_def split: option.splits)
    note stopped = stopVatFor_managers [OF _ this]
    define failure where "failure = (case q of Inl e \<Rightarrow> Some (JsError ''Termination of vat failed'' [v]) | Inr _ \<Rightarrow> None)"
    obtain k' where k': "endTermination v ?taken failure k1 = (Inr (), k')" and rest: "waiting v (supersededRestarts (vm k')) = []"
      "terminationWaiters (vm k') = terminationWaiters (vm k1)" "vats (vm k') = vats (vm k1)" "workerStops (vm k') = workerStops (vm k1)"
      "vatOf (managers k') = vatOf (managers k1)"
      "answersDue (vm k') = answersDue (vm k1) @ [(?taken, case failure of None \<Rightarrow> Settled | Some e \<Rightarrow> Threw e),
         (waiting v (supersededRestarts (vm k1)), Threw (case failure of None \<Rightarrow> vat_deleted v
            | Some _ \<Rightarrow> JsError ''Restart of vat was overtaken by a termination that failed'' [v]))]"
      "set (pendingWorkWaiters k') \<inter> set (?taken @ waiting v (supersededRestarts (vm k1))) = {}"
      using endTermination_run [of v ?taken failure k1] by (elim exE conjE) (rule that)
    have run: "performVatTermination H v reason k =
        (Inr (Some \<lparr>didDelivery = None, abort = False, terminate = None, irrevocable = True, afterCommit = None\<rparr>), k')"
      using take k' True k0(2) k1 by (cases q) (simp_all add: performVatTermination_def bnd_run thn_run tryCatch_def failure_def)
    have m1: "vm k1 = (vm k0)\<lparr>vats := obj_del v (vats (vm k0)), workerStops := workerStops (vm k0) @ [v]\<rparr>"
      using stopped(1) True k0(2) by simp
    have gone: "\<not> hasVat v k'" using rest(3) m1 by (simp add: hasVat_def)
    have calls: "if hasVat v k then unresolvedMessages (rpc (vatHandle v k')) = [] else True"
      using stopped(2) True k0(2,3) rest(5) by (auto simp: vatHandle_def)
    show ?thesis using run True gone calls rest m1 k0(1) by (intro exI [of _ failure] exI [of _ k']) simp
  qed
qed

end
