(* ===== verification/Spec2Isabelle.thy ===== *)
theory Spec2Isabelle
  imports Queues Counts Accounting CList Promises Pins Remotes Subclusters Vats Translators RefAudit GC GCActions Transactions Crank Keys VatKV RunLoop Arrivals Routing Sessions RemoteManager
    VatHandle VatManager
begin

text \<open>
  The core of the ocap kernel (\<open>packages/ocap-kernel/src\<close>): the persistent store of object
  capabilities, the transactions under it, the garbage collector over it and the run loop that
  turns it from one consistent state into the next.

  The program. Vats (workers that run user code) and remotes (peer kernels) are endpoints. An
  endpoint names objects and promises by references of its own (erefs); the kernel names them by
  krefs, and a c-list per endpoint translates. The kernel keeps everything in a key/value store:
  owners, reference counts, c-lists, promises with their queues, the run queue, pins, vats,
  remotes, subclusters. The run loop takes one item at a time, opens a crank (a transaction with
  savepoints), delivers the item to an endpoint, collects garbage, flushes what the crank buffered
  and commits, or rolls back.

  The layers, each a group of theories.

  \<^item> \<open>Prelude\<close>: results and state (\<open>('s, 'a) sm\<close>: a function from a state to an error or a value,
  and the state the throw or the return left), the Hoare triples over it, decimal texts, sets as
  the lists their iteration order gives. \<open>Tables\<close>: the ordered key/value table of
  \<open>kernel-store/src/sqlite/nodejs.ts\<close> and the prefix walk of \<open>store/methods/base.ts\<close>.
  \<open>Refs\<close>: the formats of references and identifiers (\<open>types.ts\<close>, \<open>store/utils\<close>).
  \<^item> \<open>StoreContext\<close>: the store's state. The database is one table per family of keys, with the
  value decoded to what the code writes there; the cached values, the stored queues and the
  counters of \<open>store/index.ts\<close>, \<open>base.ts\<close>, \<open>queue.ts\<close> and \<open>id.ts\<close> are its operations. \<open>Queues\<close>
  states the contract of a queue as the locale \<open>fifo\<close>; the run queue and a promise's queue are
  its interpretations.
  \<^item> \<open>Counts\<close>, \<open>CList\<close>, \<open>Promises\<close>, \<open>Pins\<close>, \<open>Remotes\<close>, \<open>Subclusters\<close>, \<open>Vats\<close>, \<open>Translators\<close>:
  the store's operations, a theory per file or two of \<open>store/methods\<close>. \<open>Accounting\<close> says what every
  reference count is owed to: \<open>acct M\<close> holds of a store whose counts are exactly the references
  the store holds, and those of the multiset \<open>M\<close> an operation has in hand. \<open>RefAudit\<close> models the
  code's own audit and proves that it reports nothing just when \<open>acct {#}\<close> holds.
  \<^item> \<open>GC\<close>, \<open>GCActions\<close>: the collector (\<open>store/methods/gc.ts\<close>), the choice of the next action
  and the endpoints' garbage collection syscalls (\<open>garbage-collection\<close>). The invariant \<open>gc_inv\<close>
  is kept by all of it.
  \<^item> \<open>Transactions\<close>: the savepoints of \<open>kernel-store/src/sqlite/transactions.ts\<close> over a
  connection whose every statement may fail. \<open>Crank\<close>: the cranks of \<open>store/methods/crank.ts\<close>
  over the contract \<open>savepoint_store\<close> of a database with savepoints, whose interpretation is the
  model of \<open>Transactions\<close>.
  \<^item> \<open>KernelQueue\<close>: \<open>KernelQueue.ts\<close>, every operation and the loop as one step per turn. \<open>Frames\<close>
  collects what the store's operations leave alone; \<open>RunLoop\<close> proves a crank all or nothing, and
  \<open>Arrivals\<close> bounds what peers can have waiting and shows the loop fair. \<open>Resolution\<close> follows the
  resolution of a promise through store and queue, and \<open>Abandonment\<close> the rejection of all an endpoint decides.
  \<^item> \<open>KernelRouter\<close>: \<open>KernelRouter.ts\<close>, what the loop does with each item; \<open>Routing\<close> proves what becomes of a
  message that cannot be delivered, that waits, or that is forwarded.
  \<^item> \<open>RemoteHandle\<close>: \<open>remotes/kernel/RemoteHandle.ts\<close>, the connection to a peer with its numbered messages,
  acknowledgements and retransmission; \<open>Sessions\<close> proves what its numbers promise. \<open>RemoteManager\<close>: \<open>RemoteManager.ts\<close>, the
  handles of all peers, giving up on a peer and the peer's incarnations.
  \<^item> \<open>VatHandle\<close>: \<open>vats/VatHandle.ts\<close>, \<open>vats/VatSyscall.ts\<close> and \<open>RpcClient.ts\<close>, the kernel's side of a vat's worker: commands,
  deliveries, syscalls and the verdict on them. \<open>VatManager\<close>: \<open>vats/VatManager.ts\<close>, starts, restarts, lost channels and the end of a vat.
  \<^item> \<open>VatKV\<close>: the key/value store of a vat in memory (\<open>store/vat-kv-store.ts\<close>). \<open>Keys\<close>: the texts of the keys, and that the table per
  family of \<open>StoreContext\<close> is the one table of the code, no two rows of which share a key.

  How state corresponds. A class with private fields is a record with a field each
  (\<open>StoreContext\<close>'s \<open>ctx\<close>, \<open>KernelQueue\<close>'s \<open>kq\<close>, \<open>Transactions\<close>' \<open>tx\<close>); a method is a definition
  of the method's name in the monad \<open>sm\<close>, with the fields it writes updated in the order the code
  writes them, so that what a throw leaves behind is part of the model. A promise the code settles
  for a caller is an entry of the list \<open>answers\<close>; a caller is a number, and so is the start of a vat's worker. A timer is a flag
  that says it is armed, and the chain of sends of a connection is the list of the sends not yet done. A manager holds the ids of its
  handles, and the handles' records are beside it in the field \<open>managers\<close> of the queue's record; a callback of the code is an
  argument, tied to the manager's own operation by \<open>managed\<close> and \<open>managedVats\<close>. An object's keys are enumerated in the order of
  JavaScript where a result depends on it. Numbers are unbounded: the counters are below
  \<open>2^53\<close> in any run, and reference counts are refused below zero by the code itself.

  What is a parameter. SQLite is a set of statements, each of which may fail (\<open>driver\<close>); a vat's
  or a remote's delivery, a vat's termination and the serialization of values
  (\<open>@endo/marshal\<close>) are arguments of the definitions that use them. So are the JSON of a peer's message and the redemption of
  an ocap URL (\<open>remote_host\<close>), what a vat's worker does between a command and its answer (\<open>awaitResponse\<close>), the platform's
  launch of a worker and whether it is in time (\<open>platform\<close>), and the start of the transport. What is proved of an operation
  that calls them is proved for all of them, or under a named hypothesis on them that a witness shows to hold.

  Bounds and fuel. A loop whose end the code leaves to the data has a number of turns: the walk of
  a prefix, the drain of a queue, the scan of promises (\<open>scanPromise\<close>, one turn more than there are
  promises) and the collector. Each has a lemma that the turns given are enough, so no property
  holds because a loop ran out; the run loop itself does not end and is a step relation's function.

  Not modelled. The kernel facade, the manager of subclusters above its rows, the cryptography of ocap URLs and identities, kernel
  services, liveslots and the supervisor inside a vat, network transport, streams and loggers, the browser and Node
  runtimes, and the programs built on the kernel: I/O and wiring, or the far side of a boundary that is a parameter here. Of the
  manager of vats, a start given up on when its time is over is one step, so what a worker wrote before that is left out.
\<close>

end
